(* ===== verification/Prelude.thy ===== *)
theory Prelude
  imports Main "HOL-Library.Word" "HOL-Library.Code_Target_Nat"
begin

unbundle bit_operations_syntax

text \<open>
  Shared vocabulary of the development: C's fixed-width integers, byte buffers and the
  generic list, word and sum-type lemmas that the component theories use.

  A buffer is a list of bytes; \<open>poke\<close> is the effect of a \<open>memcpy\<close> or of a run of
  byte stores at an offset, \<open>peek\<close> the run of bytes read back from an offset.
  \<open>put_le\<close> and \<open>get_le\<close> are the byte loops of the little-endian writers and readers of
  the C files, for any number of bytes; their two round-trip lemmas are proved once, by bits.
  \<open>size_max\<close> is \<open>SIZE_MAX\<close> of the 64-bit hosts the project ships for.
\<close>

type_synonym u8 = "8 word"
type_synonym u16 = "16 word"
type_synonym u32 = "32 word"
type_synonym u64 = "64 word"
type_synonym bytes = "8 word list"

named_theorems wire_simps \<open>length and content of encoded byte runs\<close>

definition size_max :: nat where
  "size_max = 18446744073709551615"

definition uint32_max :: nat where
  "uint32_max = 4294967295"

definition uint64_max :: nat where
  "uint64_max = 18446744073709551615"

section \<open>Buffers\<close>

definition poke :: "nat \<Rightarrow> bytes \<Rightarrow> bytes \<Rightarrow> bytes" where
  "poke off src buf = take off buf @ src @ drop (off + length src) buf"

definition peek :: "nat \<Rightarrow> nat \<Rightarrow> bytes \<Rightarrow> bytes" where
  "peek off n buf = take n (drop off buf)"

lemma length_poke [simp]: "off + length src \<le> length buf \<Longrightarrow> length (poke off src buf) = length buf"
  by (simp add: poke_def)

lemma take_poke:
  "off + length src \<le> length buf \<Longrightarrow> take (off + length src) (poke off src buf) = take off buf @ src"
  by (simp add: poke_def)

lemma take_poke_step:
  assumes "take off buf = done" and "off + length src \<le> length buf" and "m = off + length src"
  shows "take m (poke off src buf) = done @ src"
  unfolding assms(3) assms(1) [symmetric] using assms(2) by (rule take_poke)

text \<open>Consecutive stores fuse, which turns an encoder's stores into one run of bytes.\<close>

lemma poke_poke:
  "off \<le> length buf \<Longrightarrow> m = off + length a \<Longrightarrow> poke m b (poke off a buf) = poke off (a @ b) buf"
  by (simp add: poke_def ac_simps)

lemma poke_Nil [simp]: "poke off [] buf = buf"
  by (simp add: poke_def)

lemma take_poke_0: "length src \<le> length buf \<Longrightarrow> take (length src) (poke 0 src buf) = src"
  by (simp add: poke_def)

lemma drop_poke:
  "off + length src \<le> length buf \<Longrightarrow> off + length src \<le> m \<Longrightarrow> drop m (poke off src buf) = drop m buf"
  by (simp add: poke_def)

lemma peek_append_left:
  "off + n \<le> length xs \<Longrightarrow> peek off n (xs @ ys) = peek off n xs"
  by (simp add: peek_def)

lemma peek_append_right:
  "length xs \<le> off \<Longrightarrow> peek off n (xs @ ys) = peek (off - length xs) n ys"
  by (simp add: peek_def)

lemma peek_take: "off + n \<le> m \<Longrightarrow> peek off n (take m xs) = peek off n xs"
  by (simp add: peek_def drop_take min_def)

lemma length_peek: "off + n \<le> length xs \<Longrightarrow> length (peek off n xs) = n"
  by (simp add: peek_def)

lemma nth_peek: "i < n \<Longrightarrow> off + i < length xs \<Longrightarrow> peek off n xs ! i = xs ! (off + i)"
  by (simp add: peek_def)

section \<open>Little-endian byte runs\<close>

definition put_le :: "nat \<Rightarrow> 'a::len word \<Rightarrow> bytes" where
  "put_le n w = map (\<lambda>i. ucast (drop_bit (8 * i) w)) [0..<n]"

fun get_le :: "nat \<Rightarrow> bytes \<Rightarrow> 'a::len word" where
  "get_le 0 bs = 0"
| "get_le (Suc n) bs = get_le n bs OR push_bit (8 * n) (ucast (bs ! n))"

declare get_le.simps [code]

lemma length_put_le [simp, wire_simps]: "length (put_le n w) = n"
  by (simp add: put_le_def)

lemma nth_put_le: "i < n \<Longrightarrow> put_le n w ! i = ucast (drop_bit (8 * i) w)"
  by (simp add: put_le_def)

lemma bit_get_le:
  "bit (get_le n bs :: 'a::len word) k \<longleftrightarrow>
     k < LENGTH('a) \<and> k < 8 * n \<and> bit (bs ! (k div 8)) (k mod 8)"
proof (induction n)
  case 0
  then show ?case by simp
next
  case (Suc n)
  have mid: "8 * n \<le> k \<Longrightarrow> k < 8 * n + 8 \<Longrightarrow> k div 8 = n \<and> k mod 8 = k - 8 * n"
    by (metis add.commute div_nat_eqI
        minus_mult_div_eq_mod mult.commute mult_Suc_right)
  have hi: "bit (bs ! n) j \<Longrightarrow> j < 8" for j
    using bit_imp_le_length [of "bs ! n" j] by simp
  show ?case
    using mid hi [of "k - 8 * n"]
    by (auto simp: bit_or_iff bit_push_bit_iff bit_ucast_iff Suc.IH)
qed

lemma get_le_put_le:
  "LENGTH('a) = 8 * n \<Longrightarrow> get_le n (put_le n w) = (w :: 'a::len word)"
proof (rule bit_word_eqI)
  fix k
  assume len: "LENGTH('a) = 8 * n" and k: "k < LENGTH('a)"
  then have "k div 8 < n" by simp
  then show "bit (get_le n (put_le n w) :: 'a word) k \<longleftrightarrow> bit w k"
    using k len by (simp add: bit_get_le nth_put_le bit_ucast_iff bit_drop_bit_eq)
qed

lemma put_le_get_le:
  assumes len: "LENGTH('a) = 8 * n" and bs: "length bs = n"
  shows "put_le n (get_le n bs :: 'a::len word) = bs"
proof (rule nth_equalityI)
  show "length (put_le n (get_le n bs :: 'a word)) = length bs"
    using bs by simp
  fix i
  assume "i < length (put_le n (get_le n bs :: 'a word))"
  then have i: "i < n" by simp
  show "put_le n (get_le n bs :: 'a word) ! i = bs ! i"
  proof (rule bit_word_eqI)
    fix k
    assume "k < LENGTH(8)"
    then have k: "k < 8" by simp
    then have "8 * i + k < 8 * n" using i by linarith
    moreover have "(8 * i + k) div 8 = i" "(8 * i + k) mod 8 = k" using k by simp_all
    ultimately show "bit (put_le n (get_le n bs :: 'a word) ! i) k \<longleftrightarrow> bit (bs ! i) k"
      using i k len by (simp add: nth_put_le bit_ucast_iff bit_drop_bit_eq bit_get_le)
  qed
qed

lemma get_le_cong:
  "(\<And>i. i < n \<Longrightarrow> bs ! i = cs ! i) \<Longrightarrow> get_le n bs = get_le n cs"
  by (induction n) auto

lemma get_le_append [simp]: "length bs = n \<Longrightarrow> get_le n (bs @ cs) = get_le n bs"
  by (rule get_le_cong) (simp add: nth_append)

lemma get_le_take: "get_le n (take n bs) = get_le n bs"
  by (rule get_le_cong) simp

lemma get_le_eq_put_le:
  assumes "LENGTH('a) = 8 * n" and "n \<le> length bs"
  shows "get_le n bs = (w :: 'a::len word) \<longleftrightarrow> take n bs = put_le n w"
proof
  assume "get_le n bs = w"
  then have "put_le n (get_le n (take n bs) :: 'a word) = put_le n w"
    by (simp add: get_le_take)
  then show "take n bs = put_le n w"
    using assms by (simp add: put_le_get_le)
next
  assume "take n bs = put_le n w"
  then have "get_le n (take n bs) = w"
    using assms by (simp add: get_le_put_le)
  then show "get_le n bs = w" by (simp add: get_le_take)
qed

section \<open>Words as bounded naturals\<close>

lemma unat_u8_lt: "unat (b :: u8) < 256"
  using unsigned_less [of b] by simp

lemma unat_u16_lt: "unat (b :: u16) < 65536"
  using unsigned_less [of b] by simp

lemma unat_u32_lt: "unat (b :: u32) < 4294967296"
  using unsigned_less [of b] by simp

lemma unat_u64_lt: "unat (b :: u64) < 18446744073709551616"
  using unsigned_less [of b] by simp

lemma of_nat_unat_id: "n < 2 ^ LENGTH('a) \<Longrightarrow> unat (of_nat n :: 'a::len word) = n"
  by (simp add: unat_of_nat take_bit_nat_eq_self)

section \<open>Error propagation\<close>

text \<open>An early return followed by the rest of the function, seen from its success.\<close>

lemma case_sum_Inr_iff:
  "(case x of Inl d \<Rightarrow> Inl d | Inr y \<Rightarrow> f y) = Inr z \<longleftrightarrow> (\<exists>y. x = Inr y \<and> f y = Inr z)"
  by (cases x) auto

lemma case_sum_Inl_iff:
  "(case x of Inl d \<Rightarrow> Inl d | Inr y \<Rightarrow> f y) = Inl e \<longleftrightarrow>
     x = Inl e \<or> (\<exists>y. x = Inr y \<and> f y = Inl e)"
  by (cases x) auto

section \<open>Lists\<close>

lemma take_eq_map_nth: "n \<le> length xs \<Longrightarrow> take n xs = map (nth xs) [0..<n]"
  by (simp add: list_eq_iff_nth_eq)

lemma take_drop_split3: "m \<le> k \<Longrightarrow> xs = take m xs @ take (k - m) (drop m xs) @ drop k xs"
  by (metis append_take_drop_id drop_drop le_add_diff_inverse add.commute)

lemma count_false_update:
  "i < length vs \<Longrightarrow> \<not> vs ! i \<Longrightarrow>
   length (filter Not vs) = Suc (length (filter Not (vs[i := True])))"
proof (induction vs arbitrary: i)
  case Nil
  then show ?case by simp
next
  case (Cons v vs)
  then show ?case by (cases i) auto
qed

lemma nth_list_update_if: "xs[i := v] ! j = (if j = i \<and> i < length xs then v else xs ! j)"
  by (cases "i < length xs") (auto simp: nth_list_update list_update_beyond)

lemma nth_list_update_True: "(vs[i := True]) ! j \<longleftrightarrow> vs ! j \<or> (j = i \<and> i < length vs)"
  by (cases "i < length vs") (auto simp: nth_list_update list_update_beyond)

text \<open>Runs of equally long records.\<close>

lemma peek_concat:
  assumes "\<forall>x \<in> set xss. length x = k" and "i < length xss"
  shows "peek (i * k) k (concat xss @ ys) = xss ! i"
  using assms
proof (induction xss arbitrary: i)
  case Nil
  then show ?case by simp
next
  case (Cons x xss)
  then show ?case by (cases i) (simp_all add: peek_def)
qed

lemma length_concat_const: "\<forall>x \<in> set xss. length x = k \<Longrightarrow> length (concat xss) = length xss * k"
  by (induction xss) auto

lemma concat_chunks:
  "n * k \<le> length xs \<Longrightarrow> concat (map (\<lambda>i. peek (i * k) k xs) [0..<n]) = take (n * k) xs"
proof (induction n)
  case 0
  then show ?case by simp
next
  case (Suc n)
  then show ?case by (simp add: peek_def take_add add.commute [of k])
qed

lemma peek_drop: "peek i n (drop m xs) = peek (m + i) n xs"
  by (simp add: peek_def add.commute)

lemma drop_peek: "drop a xs = peek a n xs @ drop (a + n) xs"
proof -
  have "drop (a + n) xs = drop n (drop a xs)" by (simp add: add.commute)
  then show ?thesis by (simp only: peek_def append_take_drop_id)
qed

lemma get_le_peek_cong: "get_le n (peek i n xs) = get_le n (drop i xs)"
  by (simp add: peek_def get_le_take)

section \<open>The contract of a wire format\<close>

text \<open>
  A codec decodes what it encodes; a canonical codec accepts nothing else.  The client of a
  codec relies on these laws only: encodings of different values differ, and an accepted
  message has exactly one meaning and one spelling.
\<close>

locale wire_codec =
  fixes enc :: "'a \<Rightarrow> bytes"
    and dec :: "bytes \<Rightarrow> 'a option"
    and ok :: "'a \<Rightarrow> bool"
  assumes dec_enc: "ok x \<Longrightarrow> dec (enc x) = Some x"
begin

lemma enc_inject: "ok x \<Longrightarrow> ok y \<Longrightarrow> enc x = enc y \<longleftrightarrow> x = y"
  by (metis dec_enc option.inject)

lemma enc_reject: "dec (enc x) = None \<Longrightarrow> \<not> ok x"
  using dec_enc by fastforce

end

locale canonical_codec = wire_codec +
  assumes dec_sound: "dec bs = Some x \<Longrightarrow> ok x \<and> enc x = bs"
begin

lemma dec_iff: "dec bs = Some x \<longleftrightarrow> ok x \<and> bs = enc x"
  using dec_sound dec_enc by metis

lemma dec_inject: "dec bs = Some x \<Longrightarrow> dec cs = Some x \<Longrightarrow> bs = cs"
  by (simp add: dec_iff)

lemma accepted_range: "{bs. dec bs \<noteq> None} = enc ` {x. ok x}"
  by (auto simp: dec_iff)

end

end
