(* ===== verification/Binary64.thy ===== *)
theory Binary64
  imports Prelude
begin

text \<open>
  C's \<open>double\<close> as the sources use it: IEEE-754 binary64, which every file that serialises a
  double insists on (\<open>host_has_binary64\<close> in bytecode.c, the \<open>DBL_MANT_DIG\<close> tests of
  mergeable_aggregate.c, external_merge.c and external_sort.c).

  A double is its 64-bit pattern, so \<open>memcpy\<close> between a double and a \<open>uint64_t\<close> is the
  identity. Every finite double is an integer multiple of \<open>2 ^ -1074\<close>; \<open>f_int\<close> is that
  integer, so comparisons are comparisons of integers and an arithmetic operation is the exact
  integer (or rational) result rounded once, to nearest with ties to even, by \<open>round_mag\<close>.
  An operation with no numeric result gives the quiet NaN \<open>f_nan_value\<close>; the sources reject
  such results with \<open>isfinite\<close> and never look at a NaN's payload.
\<close>

type_synonym f64 = "64 word"

section \<open>Fields and classes\<close>

definition f_sign :: "f64 \<Rightarrow> bool" where
  "f_sign x \<longleftrightarrow> bit x 63"

definition f_exp :: "f64 \<Rightarrow> nat" where
  "f_exp x = (unat x div 2 ^ 52) mod 2048"

definition f_frac :: "f64 \<Rightarrow> nat" where
  "f_frac x = unat x mod 2 ^ 52"

definition f_finite :: "f64 \<Rightarrow> bool" where
  "f_finite x \<longleftrightarrow> f_exp x \<noteq> 2047"

definition f_nan :: "f64 \<Rightarrow> bool" where
  "f_nan x \<longleftrightarrow> f_exp x = 2047 \<and> f_frac x \<noteq> 0"

definition f_inf :: "f64 \<Rightarrow> bool" where
  "f_inf x \<longleftrightarrow> f_exp x = 2047 \<and> f_frac x = 0"

definition f_mag :: "f64 \<Rightarrow> nat" where
  "f_mag x = (if f_exp x = 0 then f_frac x else (2 ^ 52 + f_frac x) * 2 ^ (f_exp x - 1))"

definition f_int :: "f64 \<Rightarrow> int" where
  "f_int x = (if f_sign x then - int (f_mag x) else int (f_mag x))"

definition f_zero :: "f64 \<Rightarrow> bool" where
  "f_zero x \<longleftrightarrow> f_mag x = 0"

definition f_nan_value :: f64 where "f_nan_value = 0x7FF8000000000000"
definition f_one :: f64 where "f_one = 0x3FF0000000000000"

section \<open>Comparisons\<close>

text \<open>
  With the exponent field 2047 the same reading of the fields puts the infinities outside
  every finite value, so one definition covers finite and infinite operands.
\<close>

definition f_eq :: "f64 \<Rightarrow> f64 \<Rightarrow> bool" where
  "f_eq a b \<longleftrightarrow> \<not> f_nan a \<and> \<not> f_nan b \<and> f_int a = f_int b"

definition f_lt :: "f64 \<Rightarrow> f64 \<Rightarrow> bool" where
  "f_lt a b \<longleftrightarrow> \<not> f_nan a \<and> \<not> f_nan b \<and> f_int a < f_int b"

definition f_le :: "f64 \<Rightarrow> f64 \<Rightarrow> bool" where
  "f_le a b \<longleftrightarrow> \<not> f_nan a \<and> \<not> f_nan b \<and> f_int a \<le> f_int b"

section \<open>Rounding and arithmetic\<close>

definition inf_bits :: nat where
  "inf_bits = 2047 * 2 ^ 52"

definition with_sign :: "bool \<Rightarrow> nat \<Rightarrow> f64" where
  "with_sign s m = of_nat (if s then 2 ^ 63 + m else m)"

definition half_even :: "nat \<Rightarrow> nat \<Rightarrow> nat" where
  "half_even num den =
     (let q = num div den; r = num mod den
      in if 2 * r > den \<or> (2 * r = den \<and> odd q) then Suc q else q)"

fun bit_length :: "nat \<Rightarrow> nat" where
  "bit_length n = (if n = 0 then 0 else Suc (bit_length (n div 2)))"

declare bit_length.simps [simp del]

definition round_mag :: "nat \<Rightarrow> nat \<Rightarrow> nat" where
  "round_mag num den =
     (let k = bit_length (num div den) - 53;
          m = half_even num (den * 2 ^ k) + k * 2 ^ 52
      in if m \<ge> inf_bits then inf_bits else m)"

definition f_neg :: "f64 \<Rightarrow> f64" where
  "f_neg x = flip_bit 63 x"

definition f_abs :: "f64 \<Rightarrow> f64" where
  "f_abs x = unset_bit 63 x"

definition f_of_int :: "int \<Rightarrow> f64" where
  "f_of_int n = with_sign (n < 0) (round_mag (nat \<bar>n\<bar> * 2 ^ 1074) 1)"

definition f_add :: "f64 \<Rightarrow> f64 \<Rightarrow> f64" where
  "f_add a b =
     (if f_nan a \<or> f_nan b then f_nan_value
      else if f_inf a then (if f_inf b \<and> f_sign a \<noteq> f_sign b then f_nan_value else a)
      else if f_inf b then b
      else let s = f_int a + f_int b
           in if s = 0 then with_sign (f_sign a \<and> f_sign b) 0
              else with_sign (s < 0) (round_mag (nat \<bar>s\<bar>) 1))"

definition f_sub :: "f64 \<Rightarrow> f64 \<Rightarrow> f64" where
  "f_sub a b = (if f_nan b then f_nan_value else f_add a (f_neg b))"

definition f_mul :: "f64 \<Rightarrow> f64 \<Rightarrow> f64" where
  "f_mul a b =
     (let s = (f_sign a \<noteq> f_sign b)
      in if f_nan a \<or> f_nan b then f_nan_value
         else if f_inf a \<or> f_inf b
              then (if f_zero a \<or> f_zero b then f_nan_value else with_sign s inf_bits)
         else with_sign s (round_mag (f_mag a * f_mag b) (2 ^ 1074)))"

definition f_div :: "f64 \<Rightarrow> f64 \<Rightarrow> f64" where
  "f_div a b =
     (let s = (f_sign a \<noteq> f_sign b)
      in if f_nan a \<or> f_nan b then f_nan_value
         else if f_inf a then (if f_inf b then f_nan_value else with_sign s inf_bits)
         else if f_inf b then with_sign s 0
         else if f_zero b then (if f_zero a then f_nan_value else with_sign s inf_bits)
         else with_sign s (round_mag (f_mag a * 2 ^ 1074) (f_mag b)))"

text \<open>
  \<open>floor(x) == x\<close> and the conversion \<open>(uint32_t)x\<close> of a non-negative double below
  \<open>2 ^ 32\<close>, both used on the arity immediates of CALL.
\<close>

definition f_integral :: "f64 \<Rightarrow> bool" where
  "f_integral x \<longleftrightarrow> f_finite x \<and> f_mag x mod 2 ^ 1074 = 0"

definition f_to_nat :: "f64 \<Rightarrow> nat" where
  "f_to_nat x = f_mag x div 2 ^ 1074"

section \<open>Order facts\<close>

lemma f_finite_not_nan: "f_finite x \<Longrightarrow> \<not> f_nan x"
  by (simp add: f_finite_def f_nan_def)

lemma f_lt_finite: "f_finite a \<Longrightarrow> f_finite b \<Longrightarrow> f_lt a b \<longleftrightarrow> f_int a < f_int b"
  by (simp add: f_lt_def f_finite_not_nan)

lemma f_le_finite: "f_finite a \<Longrightarrow> f_finite b \<Longrightarrow> f_le a b \<longleftrightarrow> f_int a \<le> f_int b"
  by (simp add: f_le_def f_finite_not_nan)

lemma f_eq_finite: "f_finite a \<Longrightarrow> f_finite b \<Longrightarrow> f_eq a b \<longleftrightarrow> f_int a = f_int b"
  by (simp add: f_eq_def f_finite_not_nan)

lemma f_zero_bits [simp]: "f_finite 0" "f_int 0 = 0" "\<not> f_sign 0" "\<not> f_nan 0"
  by (simp_all add: f_finite_def f_exp_def f_int_def f_mag_def f_sign_def f_frac_def f_nan_def)

lemma f_one_finite [simp]: "f_finite f_one" "\<not> f_nan f_one"
  by (simp_all add: f_finite_def f_nan_def f_exp_def f_one_def)

lemma f_one_int: "f_int f_one = 2 ^ 1074"
proof -
  have "unat f_one = 1023 * 2 ^ 52" by (simp add: f_one_def)
  then have "f_exp f_one = 1023" "f_frac f_one = 0"
    by (simp_all add: f_exp_def f_frac_def)
  moreover have "\<not> f_sign f_one"
    unfolding f_sign_def f_one_def by simp
  moreover have "(2::int) ^ 52 * 2 ^ 1022 = 2 ^ 1074"
    unfolding power_add [symmetric] by simp
  ultimately show ?thesis
    by (simp add: f_int_def f_mag_def del: power_numeral)
qed

lemma f_one_not_zero: "\<not> f_eq f_one 0"
  by (simp add: f_eq_def f_one_int)

lemma unat_neg_bits: "unat (flip_bit 63 x :: 64 word) mod 2 ^ 63 = unat x mod 2 ^ 63"
  unfolding take_bit_eq_mod [symmetric] unsigned_take_bit_eq [symmetric]
  by (simp add: take_bit_flip_bit_eq)

lemma f_exp_low_bits: "f_exp x = (unat x mod 2 ^ 63) div 2 ^ 52"
proof -
  have "take_bit 11 (drop_bit 52 (unat x)) = drop_bit 52 (take_bit 63 (unat x))"
    by (simp add: take_bit_drop_bit)
  then show ?thesis
    by (simp add: f_exp_def take_bit_eq_mod drop_bit_eq_div)
qed

lemma f_frac_low_bits: "f_frac x = (unat x mod 2 ^ 63) mod 2 ^ 52"
proof -
  have "take_bit 52 (take_bit 63 (unat x)) = take_bit 52 (unat x)"
    by simp
  then show ?thesis
    by (simp add: f_frac_def take_bit_eq_mod)
qed

lemma f_neg_fields [simp]:
  "f_exp (f_neg x) = f_exp x" "f_frac (f_neg x) = f_frac x" "f_mag (f_neg x) = f_mag x"
  "f_finite (f_neg x) = f_finite x" "f_nan (f_neg x) = f_nan x"
  by (simp_all only: f_exp_low_bits f_frac_low_bits f_mag_def f_finite_def f_nan_def f_neg_def
      unat_neg_bits)

lemma f_sign_neg [simp]: "f_sign (f_neg x) \<longleftrightarrow> \<not> f_sign x"
  by (simp add: f_sign_def f_neg_def bit_flip_bit_iff)

lemma f_int_neg [simp]: "f_int (f_neg x) = - f_int x"
  by (simp add: f_int_def)

end
