(* ===== verification/Common.thy ===== *)
theory Common
  imports Binary64
begin

text \<open>
  common.c and common.h: the status codes every component returns, the error record with its
  category, the checked size arithmetic, the reentrant tokenizer and the JSON string writer.

  A component's C function returns a \<open>MilenaStatus\<close> and fills an error record; the models of
  the other theories return \<open>MilenaStatus + 'a\<close>, \<open>Inl\<close> being the status the C code returns.
  Text is a NUL-free list of bytes (what a C string denotes).
\<close>

datatype MilenaStatus =
    MILENA_OK | MILENA_ERR_ARGUMENT | MILENA_ERR_MEMORY | MILENA_ERR_IO | MILENA_ERR_PARSE
  | MILENA_ERR_DATA | MILENA_ERR_TYPE | MILENA_ERR_OVERFLOW | MILENA_ERR_UNSUPPORTED
  | MILENA_ERR_INTERNAL | MILENA_ERR_LIMIT

datatype MilenaErrorCategory =
    MILENA_ERROR_NINGUNO | MILENA_ERROR_SINTAXIS | MILENA_ERROR_SEMANTICA | MILENA_ERROR_TIPO
  | MILENA_ERROR_DATOS | MILENA_ERROR_MEMORIA | MILENA_ERROR_EJECUCION

record MilenaError =
  code :: MilenaStatus
  category :: MilenaErrorCategory
  line :: nat
  column :: nat
  row :: nat
  message :: bytes

text \<open>The enumeration's numeric values, which the wire formats carry.\<close>

definition all_status :: "MilenaStatus list" where
  "all_status = [MILENA_OK, MILENA_ERR_ARGUMENT, MILENA_ERR_MEMORY, MILENA_ERR_IO,
     MILENA_ERR_PARSE, MILENA_ERR_DATA, MILENA_ERR_TYPE, MILENA_ERR_OVERFLOW,
     MILENA_ERR_UNSUPPORTED, MILENA_ERR_INTERNAL, MILENA_ERR_LIMIT]"

fun status_code :: "MilenaStatus \<Rightarrow> nat" where
  "status_code MILENA_OK = 0"
| "status_code MILENA_ERR_ARGUMENT = 1"
| "status_code MILENA_ERR_MEMORY = 2"
| "status_code MILENA_ERR_IO = 3"
| "status_code MILENA_ERR_PARSE = 4"
| "status_code MILENA_ERR_DATA = 5"
| "status_code MILENA_ERR_TYPE = 6"
| "status_code MILENA_ERR_OVERFLOW = 7"
| "status_code MILENA_ERR_UNSUPPORTED = 8"
| "status_code MILENA_ERR_INTERNAL = 9"
| "status_code MILENA_ERR_LIMIT = 10"

definition status_of_code :: "nat \<Rightarrow> MilenaStatus" where
  "status_of_code n = all_status ! n"

lemma status_of_code_inverse [simp]: "status_of_code (status_code s) = s"
  by (cases s) (simp_all add: status_of_code_def all_status_def)

lemma status_code_le: "status_code s \<le> 10"
  by (cases s) simp_all

lemma status_code_of_code: "n \<le> 10 \<Longrightarrow> status_code (status_of_code n) = n"
proof -
  have "list_all (\<lambda>n. status_code (status_of_code n) = n) [0..<11]"
    by (simp add: upt_rec status_of_code_def all_status_def)
  then show "n \<le> 10 \<Longrightarrow> status_code (status_of_code n) = n" by (simp add: list_all_iff)
qed

section \<open>Errors\<close>

definition error_category :: "MilenaStatus \<Rightarrow> MilenaErrorCategory" where
  "error_category c =
     (if c = MILENA_ERR_PARSE then MILENA_ERROR_SINTAXIS
      else if c = MILENA_ERR_TYPE then MILENA_ERROR_TIPO
      else if c = MILENA_ERR_DATA \<or> c = MILENA_ERR_LIMIT then MILENA_ERROR_DATOS
      else if c = MILENA_ERR_MEMORY then MILENA_ERROR_MEMORIA
      else if c = MILENA_ERR_ARGUMENT \<or> c = MILENA_ERR_INTERNAL then MILENA_ERROR_EJECUCION
      else MILENA_ERROR_NINGUNO)"

definition milena_error_clear :: "MilenaError option \<Rightarrow> MilenaError option" where
  "milena_error_clear e = map_option (\<lambda>e. e\<lparr>code := MILENA_OK,
     category := MILENA_ERROR_NINGUNO, line := 0, column := 0, row := 0, message := []\<rparr>) e"

text \<open>\<open>snprintf\<close> into the 512-byte field keeps at most 511 bytes.\<close>

definition ascii :: "string \<Rightarrow> bytes" where
  "ascii s = map of_char s"

definition milena_error_set ::
  "MilenaError option \<Rightarrow> MilenaStatus \<Rightarrow> nat \<Rightarrow> nat \<Rightarrow> nat \<Rightarrow> bytes option \<Rightarrow> MilenaError option"
where
  "milena_error_set e c l k r msg = map_option (\<lambda>e. e\<lparr>code := c, category := error_category c,
     line := l, column := k, row := r,
     message := take 511 (case msg of None \<Rightarrow> ascii ''Error desconocido'' | Some m \<Rightarrow> m)\<rparr>) e"

fun milena_status_name :: "MilenaStatus \<Rightarrow> string" where
  "milena_status_name MILENA_OK = ''OK''"
| "milena_status_name MILENA_ERR_ARGUMENT = ''ARGUMENT''"
| "milena_status_name MILENA_ERR_MEMORY = ''MEMORY''"
| "milena_status_name MILENA_ERR_IO = ''IO''"
| "milena_status_name MILENA_ERR_PARSE = ''PARSE''"
| "milena_status_name MILENA_ERR_DATA = ''DATA''"
| "milena_status_name MILENA_ERR_TYPE = ''TYPE''"
| "milena_status_name MILENA_ERR_OVERFLOW = ''OVERFLOW''"
| "milena_status_name MILENA_ERR_UNSUPPORTED = ''UNSUPPORTED''"
| "milena_status_name MILENA_ERR_INTERNAL = ''INTERNAL''"
| "milena_status_name MILENA_ERR_LIMIT = ''LIMIT''"

fun milena_error_category_name :: "MilenaErrorCategory \<Rightarrow> string" where
  "milena_error_category_name MILENA_ERROR_SINTAXIS = ''SINTAXIS''"
| "milena_error_category_name MILENA_ERROR_SEMANTICA = ''SEMANTICA''"
| "milena_error_category_name MILENA_ERROR_TIPO = ''TIPO''"
| "milena_error_category_name MILENA_ERROR_DATOS = ''DATOS''"
| "milena_error_category_name MILENA_ERROR_MEMORIA = ''MEMORIA''"
| "milena_error_category_name MILENA_ERROR_EJECUCION = ''EJECUCION''"
| "milena_error_category_name MILENA_ERROR_NINGUNO = ''NINGUNA''"

section \<open>Checked size arithmetic\<close>

text \<open>\<open>None\<close> is the C function's \<open>false\<close>; the result is written only on success.\<close>

definition milena_size_add :: "nat \<Rightarrow> nat \<Rightarrow> nat option" where
  "milena_size_add a b = (if b > size_max - a then None else Some (a + b))"

definition milena_size_mul :: "nat \<Rightarrow> nat \<Rightarrow> nat option" where
  "milena_size_mul a b = (if a \<noteq> 0 \<and> b > size_max div a then None else Some (a * b))"

lemma milena_size_add_eq:
  "a \<le> size_max \<Longrightarrow> milena_size_add a b = (if a + b \<le> size_max then Some (a + b) else None)"
  by (auto simp: milena_size_add_def)

lemma milena_size_mul_eq:
  "milena_size_mul a b = (if a * b \<le> size_max then Some (a * b) else None)"
proof (cases "a = 0")
  case True
  then show ?thesis by (simp add: milena_size_mul_def)
next
  case False
  then have "b > size_max div a \<longleftrightarrow> \<not> a * b \<le> size_max"
    by (metis div_less_iff_less_mult linorder_not_less mult.commute neq0_conv)
  with False show ?thesis by (simp add: milena_size_mul_def)
qed

end
