(* ===== verification/GroupKeyCodec.thy ===== *)
theory GroupKeyCodec
  imports Common
begin

text \<open>
  group_key_codec.c: the versioned wire form of a pair of text group keys.  A part is the C
  struct \<open>MilenaGroupKeyTextPart\<close> with its pointer as an optional byte span: \<open>None\<close> is
  the null pointer, \<open>Some bs\<close> a readable span of \<open>bs\<close>.  The encoder writes into a caller's
  buffer and returns it with the encoded length; the decoder returns the two parts, whose
  spans are sub-lists of the input (the C code borrows them).
\<close>

definition codec_max_bytes :: nat where "codec_max_bytes = 4096"
definition codec_header_bytes :: nat where "codec_header_bytes = 6"
definition codec_component_header_bytes :: nat where "codec_component_header_bytes = 6"

record text_part =
  part_bytes :: "bytes option"
  part_length :: nat
  part_valid :: bool

definition codec_u32_write :: "u32 \<Rightarrow> bytes" where
  "codec_u32_write v = [ucast (drop_bit 24 v), ucast (drop_bit 16 v), ucast (drop_bit 8 v), ucast v]"

definition codec_u32_read :: "bytes \<Rightarrow> u32" where
  "codec_u32_read b = push_bit 24 (ucast (b ! 0)) OR push_bit 16 (ucast (b ! 1)) OR
     push_bit 8 (ucast (b ! 2)) OR ucast (b ! 3)"

definition codec_part_size :: "text_part \<Rightarrow> nat option" where
  "codec_part_size p =
     (if (\<not> part_valid p \<and> (part_length p \<noteq> 0 \<or> part_bytes p \<noteq> None)) \<or>
         (part_valid p \<and> part_length p \<noteq> 0 \<and> part_bytes p = None) \<or>
         part_length p > uint32_max then None
      else milena_size_add codec_component_header_bytes (part_length p))"

definition part_payload :: "text_part \<Rightarrow> bytes" where
  "part_payload p = (case part_bytes p of None \<Rightarrow> [] | Some bs \<Rightarrow> take (part_length p) bs)"

definition codec_write_part :: "nat \<Rightarrow> text_part \<Rightarrow> bytes \<Rightarrow> bytes" where
  "codec_write_part off p out =
     (let out = poke off [1] out;
          out = poke (off + 1) [if part_valid p then 1 else 0] out;
          out = poke (off + 2) (codec_u32_write (of_nat (part_length p))) out
      in if part_length p \<noteq> 0 then poke (off + codec_component_header_bytes) (part_payload p) out
         else out)"

definition milena_group_key_encode_text_pair ::
  "text_part \<Rightarrow> text_part \<Rightarrow> bytes option \<Rightarrow> MilenaStatus + bytes \<times> nat"
where
  "milena_group_key_encode_text_pair first second out =
     (case (out, codec_part_size first, codec_part_size second) of
        (Some buf, Some n1, Some n2) \<Rightarrow>
          (case milena_size_add codec_header_bytes n1 of
             None \<Rightarrow> Inl MILENA_ERR_ARGUMENT
           | Some t1 \<Rightarrow>
               (case milena_size_add t1 n2 of
                  None \<Rightarrow> Inl MILENA_ERR_ARGUMENT
                | Some tot \<Rightarrow>
                    if tot > codec_max_bytes \<or> tot > length buf then Inl MILENA_ERR_OVERFLOW
                    else let buf = poke 0 (ascii ''MGK'') buf;
                             buf = poke 3 [1] buf;
                             buf = poke 4 [2] buf;
                             buf = poke 5 [0] buf;
                             buf = codec_write_part codec_header_bytes first buf;
                             buf = codec_write_part (codec_header_bytes + n1) second buf
                         in Inr (buf, tot)))
      | _ \<Rightarrow> Inl MILENA_ERR_ARGUMENT)"

definition codec_read_part :: "bytes \<Rightarrow> (text_part \<times> nat) option" where
  "codec_read_part enc =
     (if length enc < codec_component_header_bytes \<or> enc ! 0 \<noteq> 1 \<or> enc ! 1 > 1 then None
      else let len = codec_u32_read (drop 2 enc)
           in if enc ! 1 = 0 \<and> len \<noteq> 0 then None
              else if unat len > length enc - codec_component_header_bytes then None
              else Some (\<lparr>part_bytes = (if enc ! 1 = 1
                             then Some (take (unat len) (drop codec_component_header_bytes enc))
                             else None),
                           part_length = unat len, part_valid = (enc ! 1 = 1)\<rparr>,
                         codec_component_header_bytes + unat len))"

definition milena_group_key_decode_text_pair ::
  "bytes option \<Rightarrow> MilenaStatus + text_part \<times> text_part"
where
  "milena_group_key_decode_text_pair encoded =
     (case encoded of
        None \<Rightarrow> Inl MILENA_ERR_ARGUMENT
      | Some enc \<Rightarrow>
          if length enc < codec_header_bytes \<or> length enc > codec_max_bytes
          then Inl MILENA_ERR_ARGUMENT
          else if enc ! 0 \<noteq> of_char CHR ''M'' \<or> enc ! 1 \<noteq> of_char CHR ''G'' \<or>
                  enc ! 2 \<noteq> of_char CHR ''K'' \<or> enc ! 3 \<noteq> 1 \<or> enc ! 4 \<noteq> 2 \<or> enc ! 5 \<noteq> 0
          then Inl MILENA_ERR_DATA
          else (case codec_read_part (drop codec_header_bytes enc) of
                  None \<Rightarrow> Inl MILENA_ERR_DATA
                | Some (first, c1) \<Rightarrow>
                    (case codec_read_part (drop (codec_header_bytes + c1) enc) of
                       None \<Rightarrow> Inl MILENA_ERR_DATA
                     | Some (second, c2) \<Rightarrow>
                         if codec_header_bytes + c1 + c2 \<noteq> length enc then Inl MILENA_ERR_DATA
                         else Inr (first, second))))"

section \<open>Wire images and their laws\<close>

text \<open>
  \<open>part_readable\<close> is what the encoder requires of a part: a size the codec accepts and a span
  that really holds the announced bytes.  \<open>part_norm\<close> is the part with exactly its payload.
\<close>

definition part_readable :: "text_part \<Rightarrow> bool" where
  "part_readable p \<longleftrightarrow> codec_part_size p \<noteq> None \<and>
     (case part_bytes p of None \<Rightarrow> part_length p = 0 | Some bs \<Rightarrow> part_length p \<le> length bs)"

definition part_wire :: "text_part \<Rightarrow> bytes" where
  "part_wire p = [1, if part_valid p then 1 else 0] @
     codec_u32_write (of_nat (part_length p)) @ part_payload p"

definition part_norm :: "text_part \<Rightarrow> text_part" where
  "part_norm p = p\<lparr>part_bytes := (if part_valid p then Some (part_payload p) else None)\<rparr>"

lemma codec_u32_write_le: "codec_u32_write v = rev (put_le 4 v)"
  by (simp add: codec_u32_write_def put_le_def upt_conv_Cons)

lemma codec_u32_read_le: "length b \<ge> 4 \<Longrightarrow> codec_u32_read b = get_le 4 (rev (take 4 b))"
  by (simp add: codec_u32_read_def eval_nat_numeral rev_nth ac_simps)

lemma codec_u32_read_write [simp]: "codec_u32_read (codec_u32_write v @ r) = v"
  by (simp add: codec_u32_read_le codec_u32_write_le get_le_put_le)

lemma codec_u32_write_read: "length b = 4 \<Longrightarrow> codec_u32_write (codec_u32_read b) = b"
  by (simp add: codec_u32_read_le codec_u32_write_le put_le_get_le)

lemma length_codec_u32_write [simp]: "length (codec_u32_write v) = 4"
  by (simp add: codec_u32_write_le)

lemma length_part_payload: "part_readable p \<Longrightarrow> length (part_payload p) = part_length p"
  by (auto simp: part_readable_def part_payload_def split: option.splits)

lemma codec_part_size_Some:
  "codec_part_size p = Some n \<longleftrightarrow> n = 6 + part_length p \<and> part_length p \<le> uint32_max \<and>
     (\<not> part_valid p \<longrightarrow> part_length p = 0 \<and> part_bytes p = None) \<and>
     (part_valid p \<longrightarrow> part_length p = 0 \<or> part_bytes p \<noteq> None)"
  by (auto simp: codec_part_size_def codec_component_header_bytes_def milena_size_add_def
      uint32_max_def size_max_def)

lemma length_part_wire: "part_readable p \<Longrightarrow> length (part_wire p) = 6 + part_length p"
  by (simp add: part_wire_def length_part_payload)

lemma codec_write_part_poke:
  assumes "part_readable p" and "off \<le> length buf"
  shows "codec_write_part off p buf = poke off (part_wire p) buf"
proof -
  have "part_length p = 0 \<Longrightarrow> part_payload p = []"
    using length_part_payload [OF assms(1)] by simp
  then show ?thesis
    using assms(2)
    by (simp add: codec_write_part_def part_wire_def Let_def poke_poke codec_component_header_bytes_def)
qed

definition pair_wire :: "text_part \<times> text_part \<Rightarrow> bytes" where
  "pair_wire pq = ascii ''MGK'' @ [1, 2, 0] @ part_wire (fst pq) @ part_wire (snd pq)"

definition pair_ok :: "text_part \<times> text_part \<Rightarrow> bool" where
  "pair_ok pq \<longleftrightarrow> part_readable (fst pq) \<and> part_readable (snd pq) \<and>
     part_length (fst pq) + part_length (snd pq) + 18 \<le> codec_max_bytes \<and>
     part_norm (fst pq) = fst pq \<and> part_norm (snd pq) = snd pq"

lemma encode_pair_result:
  assumes "part_readable p" and "part_readable q"
  shows "milena_group_key_encode_text_pair p q (Some buf) =
    (let n = 18 + part_length p + part_length q
     in if n > codec_max_bytes \<or> n > length buf then Inl MILENA_ERR_OVERFLOW
        else Inr (poke 0 (pair_wire (p, q)) buf, n))"
proof -
  from assms have sz: "codec_part_size p = Some (6 + part_length p)"
      "codec_part_size q = Some (6 + part_length q)"
      "part_length p \<le> uint32_max" "part_length q \<le> uint32_max"
    by (auto simp: part_readable_def codec_part_size_Some)
  then have add: "milena_size_add 6 (6 + part_length p) = Some (12 + part_length p)"
     "milena_size_add (12 + part_length p) (6 + part_length q) =
        Some (18 + part_length p + part_length q)"
    by (simp_all add: milena_size_add_def size_max_def uint32_max_def)
  have l: "length (ascii ''MGK'') = 3" by (simp add: ascii_def)
  show ?thesis
    using assms length_part_wire [OF assms(1)]
    by (simp add: milena_group_key_encode_text_pair_def sz add codec_header_bytes_def Let_def
        codec_write_part_poke poke_poke l pair_wire_def)
qed

lemma codec_read_part_wire:
  assumes "part_readable p"
  shows "codec_read_part (part_wire p @ r) = Some (part_norm p, 6 + part_length p)"
proof -
  from assms have le: "part_length p \<le> uint32_max" and
    inv: "\<not> part_valid p \<longrightarrow> part_length p = 0 \<and> part_bytes p = None"
    by (auto simp: part_readable_def codec_part_size_Some)
  then have un: "unat (of_nat (part_length p) :: u32) = part_length p"
    by (simp add: of_nat_unat_id uint32_max_def)
  show ?thesis
    using inv length_part_payload [OF assms]
    by (auto simp: codec_read_part_def part_wire_def codec_component_header_bytes_def un Let_def
        part_norm_def)
qed

lemma u8_le_1: "(v :: u8) \<le> 1 \<longleftrightarrow> v = 0 \<or> v = 1"
  by (metis le_less word_le_less_eq word_less_1 word_neq_0_conv word_zero_le)

lemma codec_read_part_sound:
  assumes rd: "codec_read_part enc = Some (p, c)"
  shows "part_readable p \<and> part_norm p = p \<and> c = 6 + part_length p \<and> c \<le> length enc \<and>
    take c enc = part_wire p"
proof -
  from rd have len: "6 \<le> length enc" and e0: "enc ! 0 = 1" and e1: "enc ! 1 = 0 \<or> enc ! 1 = 1"
    by (auto simp: codec_read_part_def codec_component_header_bytes_def u8_le_1 not_less
        split: if_splits)
  define h where "h = take 4 (drop 2 enc)"
  define body where "body = drop 6 enc"
  have h4: "length h = 4" using len by (simp add: h_def)
  have split: "enc = [1, enc ! 1] @ h @ body"
  proof -
    have "enc = take 2 enc @ take 4 (drop 2 enc) @ drop 6 enc"
      using take_drop_split3 [of 2 6 enc] by simp
    moreover have "take 2 enc = [enc ! 0, enc ! 1]"
      using len by (simp add: take_eq_map_nth upt_rec)
    ultimately show ?thesis by (simp add: h_def body_def e0)
  qed
  define n where "n = unat (codec_u32_read (h @ body))"
  have w: "codec_u32_write (of_nat n) = h"
    using h4 codec_u32_write_read [OF h4] by (simp add: n_def codec_u32_read_le)
  have nmax: "n \<le> uint32_max"
    unfolding n_def uint32_max_def using unat_u32_lt [of "codec_u32_read (h @ body)"] by simp
  have d2: "drop 2 enc = h @ body" by (subst split) simp
  have l6: "length enc = 6 + length body" using len by (simp add: body_def)
  have q: "\<not> (enc ! 1 = 0 \<and> codec_u32_read (h @ body) \<noteq> 0)" and fit: "n \<le> length body"
    and pc: "p = \<lparr>part_bytes = (if enc ! 1 = 1 then Some (take n body) else None),
       part_length = n, part_valid = (enc ! 1 = 1)\<rparr>" "c = 6 + n"
    using rd by (auto simp: codec_read_part_def codec_component_header_bytes_def d2 Let_def n_def
        l6 body_def [symmetric] split: if_splits)
  have tk: "take (6 + n) enc = [1, enc ! 1] @ h @ take n body"
    by (subst split) (simp add: take_Cons' h4)
  have z: "enc ! 1 = 0 \<Longrightarrow> n = 0" using q by (auto simp: n_def)
  have "part_readable p \<and> part_norm p = p"
    using e1 fit nmax z
    by (auto simp: pc(1) part_readable_def codec_part_size_Some part_norm_def part_payload_def)
  moreover have "part_wire p = [1, enc ! 1] @ h @ take n body"
    using e1 fit z w by (auto simp: pc(1) part_wire_def part_payload_def)
  ultimately show ?thesis
    using fit tk l6 pc by simp
qed

definition milena_group_key_encode :: "text_part \<times> text_part \<Rightarrow> bytes" where
  "milena_group_key_encode pq =
     (case milena_group_key_encode_text_pair (fst pq) (snd pq) (Some (replicate codec_max_bytes 0)) of
        Inl _ \<Rightarrow> [] | Inr (buf, n) \<Rightarrow> take n buf)"

definition milena_group_key_decode :: "bytes \<Rightarrow> (text_part \<times> text_part) option" where
  "milena_group_key_decode bs =
     (case milena_group_key_decode_text_pair (Some bs) of Inl _ \<Rightarrow> None | Inr pq \<Rightarrow> Some pq)"

lemma length_pair_wire:
  "part_readable p \<Longrightarrow> part_readable q \<Longrightarrow>
   length (pair_wire (p, q)) = 18 + part_length p + part_length q"
  by (simp add: pair_wire_def length_part_wire ascii_def)

lemma decode_pair_wire:
  assumes "part_readable p" and "part_readable q"
    and "18 + part_length p + part_length q \<le> codec_max_bytes"
  shows "milena_group_key_decode_text_pair (Some (pair_wire (p, q))) = Inr (part_norm p, part_norm q)"
proof -
  let ?e = "pair_wire (p, q)"
  have hdr: "?e = [of_char CHR ''M'', of_char CHR ''G'', of_char CHR ''K'', 1, 2, 0] @
      part_wire p @ part_wire q"
    by (simp add: pair_wire_def ascii_def)
  have d1: "drop 6 ?e = part_wire p @ part_wire q" by (simp add: hdr)
  have d2: "drop (6 + (6 + part_length p)) ?e = part_wire q @ []"
    using length_part_wire [OF assms(1)] unfolding drop_drop [symmetric] add.commute [of 6 "6 + _"] d1
    by simp
  have head: "?e ! 0 = of_char CHR ''M''" "?e ! 1 = of_char CHR ''G''" "?e ! 2 = of_char CHR ''K''"
    "?e ! 3 = 1" "?e ! 4 = 2" "?e ! 5 = 0"
    by (simp_all add: hdr)
  show ?thesis
    unfolding milena_group_key_decode_text_pair_def codec_header_bytes_def
    using assms(3) length_pair_wire [OF assms(1,2)]
    by (simp add: head [simplified] d1 d2 [simplified] codec_read_part_wire assms(1,2) codec_read_part_wire [OF assms(2), of "[]", simplified])
qed

lemma decode_pair_sound:
  assumes "milena_group_key_decode_text_pair (Some enc) = Inr (p, q)"
  shows "pair_ok (p, q) \<and> enc = pair_wire (p, q)"
proof -
  from assms obtain c1 c2 where
    bounds: "6 \<le> length enc" "length enc \<le> codec_max_bytes" and
    head: "enc ! 0 = of_char CHR ''M''" "enc ! 1 = of_char CHR ''G''" "enc ! 2 = of_char CHR ''K''"
      "enc ! 3 = 1" "enc ! 4 = 2" "enc ! 5 = 0" and
    r1: "codec_read_part (drop 6 enc) = Some (p, c1)" and
    r2: "codec_read_part (drop (6 + c1) enc) = Some (q, c2)" and
    tot: "6 + c1 + c2 = length enc"
    unfolding milena_group_key_decode_text_pair_def codec_header_bytes_def
    by (auto split: if_splits option.splits prod.splits simp: not_less)
  note s1 = codec_read_part_sound [OF r1] and s2 = codec_read_part_sound [OF r2]
  have h6: "take 6 enc = ascii ''MGK'' @ [1, 2, 0]"
    using bounds(1) head by (simp add: take_eq_map_nth upt_rec ascii_def eval_nat_numeral)
  have "enc = take 6 enc @ take c1 (drop 6 enc) @ drop (6 + c1) enc"
    using take_drop_split3 [of 6 "6 + c1" enc] by simp
  moreover have "drop (6 + c1) enc = take c2 (drop (6 + c1) enc)"
    using tot by simp
  moreover have "take c1 (drop 6 enc) = part_wire p" "take c2 (drop (6 + c1) enc) = part_wire q"
    using s1 s2 by blast+
  ultimately have "enc = take 6 enc @ part_wire p @ part_wire q"
    by simp
  then have "enc = pair_wire (p, q)"
    by (simp add: pair_wire_def h6)
  moreover have "pair_ok (p, q)"
    using s1 s2 tot bounds(2) by (simp add: pair_ok_def)
  ultimately show ?thesis by simp
qed

lemma encode_pair_eq:
  assumes "part_readable p" and "part_readable q"
    and "18 + part_length p + part_length q \<le> codec_max_bytes"
  shows "milena_group_key_encode (p, q) = pair_wire (p, q)"
  using assms(3) take_poke_0 [of "pair_wire (p, q)" "replicate codec_max_bytes 0"]
    length_pair_wire [OF assms(1,2)]
  by (simp add: milena_group_key_encode_def encode_pair_result [OF assms(1,2)] Let_def)

interpretation group_key: canonical_codec milena_group_key_encode milena_group_key_decode pair_ok
proof
  fix pq :: "text_part \<times> text_part"
  assume "pair_ok pq"
  then show "milena_group_key_decode (milena_group_key_encode pq) = Some pq"
    by (cases pq) (auto simp: pair_ok_def milena_group_key_decode_def encode_pair_eq decode_pair_wire)
next
  fix bs pq
  assume "milena_group_key_decode bs = Some pq"
  then show "pair_ok pq \<and> milena_group_key_encode pq = bs"
    using decode_pair_sound [of bs "fst pq" "snd pq"]
    by (cases pq) (auto simp: milena_group_key_decode_def pair_ok_def encode_pair_eq
        split: sum.splits)
qed


section \<open>Properties\<close>

text \<open>
  C38.  Decoding what the encoder wrote gives back both parts (a valid empty text and a missing
  text stay distinct), the announced length is exact, and the caller's bytes after it are
  untouched.
\<close>

theorem group_key_roundtrip:
  assumes "part_readable p" and "part_readable q"
    and "milena_group_key_encode_text_pair p q (Some buf) = Inr (buf', n)"
  shows "milena_group_key_decode_text_pair (Some (take n buf')) = Inr (part_norm p, part_norm q) \<and>
    drop n buf' = drop n buf \<and> n = 18 + part_length p + part_length q"
proof -
  have n: "n = 18 + part_length p + part_length q" "n \<le> codec_max_bytes" "n \<le> length buf"
    and b: "buf' = poke 0 (pair_wire (p, q)) buf"
    using assms(3) by (auto simp: encode_pair_result assms(1,2) Let_def split: if_splits)
  have len: "n = length (pair_wire (p, q))"
    by (simp add: length_pair_wire assms(1,2) n(1))
  then have "take n buf' = pair_wire (p, q)"
    using n(3) by (simp add: b take_poke_0)
  moreover have "milena_group_key_decode_text_pair (Some (pair_wire (p, q))) = Inr (part_norm p, part_norm q)"
    using decode_pair_wire [OF assms(1,2)] n by simp
  moreover have "drop n buf' = drop n buf"
    using n(3) len by (simp add: b drop_poke)
  ultimately show ?thesis using n(1) by simp
qed

theorem group_key_roundtrip_witness:
  "\<exists>buf' n. milena_group_key_encode_text_pair \<lparr>part_bytes = Some [65], part_length = 1, part_valid = True\<rparr>
     \<lparr>part_bytes = None, part_length = 0, part_valid = False\<rparr> (Some (replicate 32 7)) = Inr (buf', n) \<and>
   n = 19 \<and> milena_group_key_decode_text_pair (Some (take n buf')) =
     Inr (\<lparr>part_bytes = Some [65], part_length = 1, part_valid = True\<rparr>,
          \<lparr>part_bytes = None, part_length = 0, part_valid = False\<rparr>)"
proof -
  let ?p = "\<lparr>part_bytes = Some [65 :: u8], part_length = 1, part_valid = True\<rparr>"
  let ?q = "\<lparr>part_bytes = None, part_length = 0, part_valid = False\<rparr>"
  have r: "part_readable ?p" "part_readable ?q"
    by (simp_all add: part_readable_def codec_part_size_Some uint32_max_def)
  obtain buf' n where e: "milena_group_key_encode_text_pair ?p ?q (Some (replicate 32 7)) = Inr (buf', n)"
    using r by (simp add: encode_pair_result codec_max_bytes_def)
  from group_key_roundtrip [OF r e] e show ?thesis
    by (auto simp: part_norm_def part_payload_def)
qed

text \<open>
  The decoder accepts canonical keys only: re-encoding what it returned reproduces the
  input byte for byte, so equal keys are equal byte strings and conversely.
\<close>

theorem group_key_canonical:
  assumes "milena_group_key_decode_text_pair (Some enc) = Inr (p, q)" and "length enc \<le> length buf"
  shows "milena_group_key_encode_text_pair p q (Some buf) =
    Inr (enc @ drop (length enc) buf, length enc)"
proof -
  from decode_pair_sound [OF assms(1)] have ok: "pair_ok (p, q)" and e: "enc = pair_wire (p, q)"
    by simp_all
  then show ?thesis
    using assms(2) length_pair_wire [of p q]
    by (simp add: encode_pair_result pair_ok_def Let_def poke_def)
qed

theorem group_key_canonical_witness:
  "milena_group_key_encode_text_pair \<lparr>part_bytes = Some [], part_length = 0, part_valid = True\<rparr>
     \<lparr>part_bytes = None, part_length = 0, part_valid = False\<rparr> (Some (replicate 20 9)) =
   Inr ([77, 71, 75, 1, 2, 0, 1, 1, 0, 0, 0, 0, 1, 0, 0, 0, 0, 0, 9, 9], 18)"
proof -
  have d: "milena_group_key_decode_text_pair
      (Some [77, 71, 75, 1, 2, 0, 1, 1, 0, 0, 0, 0, 1, 0, 0, 0, 0, 0]) =
    Inr (\<lparr>part_bytes = Some [], part_length = 0, part_valid = True\<rparr>,
         \<lparr>part_bytes = None, part_length = 0, part_valid = False\<rparr>)"
    by (simp add: milena_group_key_decode_text_pair_def codec_header_bytes_def codec_max_bytes_def
        codec_read_part_def codec_component_header_bytes_def codec_u32_read_def)
  show ?thesis using group_key_canonical [OF d, of "replicate 20 9"] by (simp add: eval_nat_numeral)
qed

end
