(* ===== verification/BytecodeFormat.thy ===== *)
theory BytecodeFormat
  imports Common
begin

text \<open>
  The scalar bytecode format of bytecode.h / bytecode.c (MLBC v1.0, v1.1, v1.2): status codes,
  opcodes, limits, the little-endian field accessors and the instruction record.

  A module is a byte list.  \<open>instr_at\<close> reads one 24-byte record; its operands are the decoded
  32-bit fields as naturals (all bounds of the verifier are comparisons against counts below
  \<open>2 ^ 17\<close>, and every subtraction it performs is guarded, so no 32-bit wrap-around can
  occur), its immediate the raw 64 bits, which is also the double.  A failure is the status and
  the byte offset that \<open>fail\<close> stores in the diagnostic; the diagnostic's text is not modelled.
\<close>

datatype bc_status =
    BC_OK | BC_ARGUMENT | BC_BUFFER_TOO_SMALL | BC_BAD_MAGIC | BC_BAD_VERSION | BC_BAD_FORMAT
  | BC_LIMIT_EXCEEDED | BC_BAD_OPCODE | BC_BAD_OPERAND | BC_BAD_CONTROL_FLOW | BC_OUT_OF_MEMORY
  | BC_RUNTIME_ERROR | BC_STEP_LIMIT | BC_BAD_TYPE

datatype bc_diag = Diag (d_status: bc_status) (d_offset: nat)

text \<open>The places where the C code allocates; a parameter \<open>mem\<close> says which requests succeed.\<close>

datatype bc_site = SiteOwners | SiteCfg | SiteEncode | SiteRegisters

type_synonym bc_mem = "bc_site \<Rightarrow> nat \<Rightarrow> bool"

datatype opcode =
    CONST_F64 | MOVE | ADD | SUB | MUL | DIV | NEG | EQ | NE | LT | LE | GT | GE
  | JUMP | JUMP_IF_FALSE | RETURN | FUNCTION | CALL | CONST_BOOL

definition all_opcodes :: "opcode list" where
  "all_opcodes = [CONST_F64, MOVE, ADD, SUB, MUL, DIV, NEG, EQ, NE, LT, LE, GT, GE,
     JUMP, JUMP_IF_FALSE, RETURN, FUNCTION, CALL, CONST_BOOL]"

definition opcode_of :: "nat \<Rightarrow> opcode option" where
  "opcode_of n = (if 1 \<le> n \<and> n \<le> 19 then Some (all_opcodes ! (n - 1)) else None)"

definition type_number :: nat where "type_number = 1"
definition type_boolean :: nat where "type_boolean = 2"

definition header_size :: nat where "header_size = 16"
definition instruction_size :: nat where "instruction_size = 24"
definition max_instructions :: nat where "max_instructions = 65536"
definition max_registers :: nat where "max_registers = 256"
definition max_functions :: nat where "max_functions = 64"
definition hard_call_depth :: nat where "hard_call_depth = 64"
definition default_step_limit :: nat where "default_step_limit = 1000000"
definition max_step_limit :: nat where "max_step_limit = 10000000"

definition bc_max_bytes :: nat where
  "bc_max_bytes = header_size + max_instructions * instruction_size + max_registers + max_functions"

section \<open>Limits\<close>

record bc_limits =
  lim_instructions :: nat
  lim_registers :: nat
  lim_bytes :: nat
  lim_steps :: nat
  lim_depth :: nat

definition resolve_limits :: "bc_limits option \<Rightarrow> bc_diag + bc_limits" where
  "resolve_limits limits =
     (let r = \<lparr>lim_instructions = max_instructions, lim_registers = max_registers,
               lim_bytes = bc_max_bytes, lim_steps = default_step_limit,
               lim_depth = hard_call_depth\<rparr>
      in case limits of
           None \<Rightarrow> Inr r
         | Some l \<Rightarrow>
             if lim_instructions l > max_instructions \<or> lim_registers l > max_registers \<or>
                lim_bytes l > bc_max_bytes \<or> lim_steps l > max_step_limit \<or>
                lim_depth l > hard_call_depth
             then Inl (Diag BC_LIMIT_EXCEEDED 0)
             else Inr \<lparr>
               lim_instructions = (if lim_instructions l \<noteq> 0 then lim_instructions l else lim_instructions r),
               lim_registers = (if lim_registers l \<noteq> 0 then lim_registers l else lim_registers r),
               lim_bytes = (if lim_bytes l \<noteq> 0 then lim_bytes l else lim_bytes r),
               lim_steps = (if lim_steps l \<noteq> 0 then lim_steps l else lim_steps r),
               lim_depth = (if lim_depth l \<noteq> 0 then lim_depth l else lim_depth r)\<rparr>)"

section \<open>Field accessors\<close>

definition read_u16le :: "bytes \<Rightarrow> nat \<Rightarrow> u16" where
  "read_u16le p o' = ucast (p ! o') OR push_bit 8 (ucast (p ! (o' + 1)))"

definition read_u32le :: "bytes \<Rightarrow> nat \<Rightarrow> u32" where
  "read_u32le p o' = ucast (p ! o') OR push_bit 8 (ucast (p ! (o' + 1))) OR
     push_bit 16 (ucast (p ! (o' + 2))) OR push_bit 24 (ucast (p ! (o' + 3)))"

definition read_u64le :: "bytes \<Rightarrow> nat \<Rightarrow> u64" where
  "read_u64le p o' = ucast (p ! o') OR push_bit 8 (ucast (p ! (o' + 1))) OR
     push_bit 16 (ucast (p ! (o' + 2))) OR push_bit 24 (ucast (p ! (o' + 3))) OR
     push_bit 32 (ucast (p ! (o' + 4))) OR push_bit 40 (ucast (p ! (o' + 5))) OR
     push_bit 48 (ucast (p ! (o' + 6))) OR push_bit 56 (ucast (p ! (o' + 7)))"

definition write_u16le :: "u16 \<Rightarrow> bytes" where
  "write_u16le v = [ucast (v AND 0xff), ucast (drop_bit 8 v AND 0xff)]"

definition write_u32le :: "u32 \<Rightarrow> bytes" where
  "write_u32le v = [ucast (v AND 0xff), ucast (drop_bit 8 v AND 0xff),
     ucast (drop_bit 16 v AND 0xff), ucast (drop_bit 24 v AND 0xff)]"

definition write_u64le :: "u64 \<Rightarrow> bytes" where
  "write_u64le v = [ucast (v AND 0xff), ucast (drop_bit 8 v AND 0xff),
     ucast (drop_bit 16 v AND 0xff), ucast (drop_bit 24 v AND 0xff),
     ucast (drop_bit 32 v AND 0xff), ucast (drop_bit 40 v AND 0xff),
     ucast (drop_bit 48 v AND 0xff), ucast (drop_bit 56 v AND 0xff)]"

lemma ucast_mask_u8: "ucast (v AND 0xff :: 'a::len word) = (ucast v :: u8)"
proof (rule bit_word_eqI)
  fix n
  assume "n < LENGTH(8)"
  then have n: "n < 8" by simp
  have "(0xff :: 'a word) = mask 8" by (simp add: mask_eq_exp_minus_1)
  then have "bit (v AND 0xff) n \<longleftrightarrow> bit v n"
    using n bit_imp_le_length [of v n] by (auto simp only: bit_and_iff bit_mask_iff possible_bit_word)
  then show "bit (ucast (v AND 0xff) :: u8) n \<longleftrightarrow> bit (ucast v :: u8) n"
    by (simp only: bit_ucast_iff)
qed

lemma write_u16le_put: "write_u16le v = put_le 2 v"
  by (simp add: write_u16le_def put_le_def ucast_mask_u8 upt_rec)

lemma write_u32le_put: "write_u32le v = put_le 4 v"
  by (simp add: write_u32le_def put_le_def ucast_mask_u8 upt_rec)

lemma write_u64le_put: "write_u64le v = put_le 8 v"
  by (simp add: write_u64le_def put_le_def ucast_mask_u8 upt_rec)

lemma read_u16le_get: "o' + 2 \<le> length p \<Longrightarrow> read_u16le p o' = get_le 2 (peek o' 2 p)"
  by (simp add: read_u16le_def peek_def eval_nat_numeral get_le_take)

lemma read_u32le_get: "o' + 4 \<le> length p \<Longrightarrow> read_u32le p o' = get_le 4 (peek o' 4 p)"
  by (simp add: read_u32le_def peek_def eval_nat_numeral ac_simps get_le_take)

lemma read_u64le_get: "o' + 8 \<le> length p \<Longrightarrow> read_u64le p o' = get_le 8 (peek o' 8 p)"
  by (simp add: read_u64le_def peek_def eval_nat_numeral ac_simps get_le_take)

section \<open>Instruction records\<close>

record bc_instr =
  i_op :: "opcode option"
  i_reserved :: bool
  i_a :: nat
  i_b :: nat
  i_c :: nat
  i_imm :: f64

definition rec_off :: "nat \<Rightarrow> nat" where
  "rec_off pc = header_size + pc * instruction_size"

definition instr_at :: "bytes \<Rightarrow> nat \<Rightarrow> bc_instr" where
  "instr_at bs pc =
     (let r = rec_off pc
      in \<lparr>i_op = opcode_of (unat (bs ! r)),
          i_reserved = (bs ! (r + 1) \<noteq> 0 \<or> bs ! (r + 2) \<noteq> 0 \<or> bs ! (r + 3) \<noteq> 0),
          i_a = unat (read_u32le bs (r + 4)), i_b = unat (read_u32le bs (r + 8)),
          i_c = unat (read_u32le bs (r + 12)), i_imm = read_u64le bs (r + 16)\<rparr>)"

section \<open>Encoded sizes\<close>

definition milena_bytecode_encoded_size :: "nat \<Rightarrow> nat option" where
  "milena_bytecode_encoded_size n =
     (if n = 0 \<or> n > max_instructions \<or> n > (size_max - header_size) div instruction_size then None
      else Some (header_size + n * instruction_size))"

definition milena_bytecode_typed_encoded_size :: "nat \<Rightarrow> nat \<Rightarrow> nat \<Rightarrow> nat option" where
  "milena_bytecode_typed_encoded_size n regs fns =
     (if regs = 0 \<or> regs > max_registers \<or> fns = 0 \<or> fns > max_functions then None
      else case milena_bytecode_encoded_size n of
             None \<Rightarrow> None
           | Some base \<Rightarrow> if regs + fns > size_max - base then None else Some (base + regs + fns))"

lemma encoded_size_Some:
  "milena_bytecode_encoded_size n = Some s \<longleftrightarrow> 0 < n \<and> n \<le> 65536 \<and> s = 16 + n * 24"
  by (auto simp: milena_bytecode_encoded_size_def max_instructions_def header_size_def
      instruction_size_def size_max_def)

lemma typed_encoded_size_Some:
  "milena_bytecode_typed_encoded_size n regs fns = Some s \<longleftrightarrow>
     0 < n \<and> n \<le> 65536 \<and> 0 < regs \<and> regs \<le> 256 \<and> 0 < fns \<and> fns \<le> 64 \<and>
     s = 16 + n * 24 + regs + fns"
  by (auto simp: milena_bytecode_typed_encoded_size_def encoded_size_Some max_registers_def
      max_functions_def size_max_def split: option.splits if_splits)
    (auto simp: milena_bytecode_encoded_size_def max_instructions_def header_size_def
      instruction_size_def size_max_def split: if_splits)

lemma resolve_limits_bounds:
  assumes "resolve_limits l = Inr r"
  shows "0 < lim_instructions r \<and> lim_instructions r \<le> 65536 \<and>
    0 < lim_registers r \<and> lim_registers r \<le> 256 \<and> 0 < lim_steps r \<and>
    lim_steps r \<le> 10000000 \<and> 0 < lim_depth r \<and> lim_depth r \<le> 64 \<and> lim_bytes r \<le> bc_max_bytes"
  using assms
  by (auto simp: resolve_limits_def Let_def max_instructions_def max_registers_def
      default_step_limit_def max_step_limit_def hard_call_depth_def split: option.splits if_splits)

lemma unat_read_u32le: "unat (read_u32le bs i) < 4294967296"
  by (rule unat_u32_lt)

end
