(* ===== verification/BytecodeVerify.thy ===== *)
theory BytecodeVerify
  imports BytecodeFormat
begin

text \<open>
  \<open>verify_internal\<close> of bytecode.c, phase by phase: the header, the function table and the
  ownership map of v1.1, the type tables of v1.2, the per-instruction operand and type checks,
  the depth-first search that rejects recursive call graphs, and the breadth-first walks over
  each function's control flow.  Each phase is one definition; \<open>verify_internal\<close> composes them
  in the order of the C code.  \<open>ModuleInfo\<close> is what the phases know of the module.
\<close>

record fn_info =
  f_start :: nat
  f_end :: nat
  f_base :: nat
  f_arity :: nat
  f_ret :: nat

record module_info =
  m_bytes :: bytes
  m_minor :: nat
  m_regs :: nat
  m_count :: nat
  m_fns :: "fn_info list"
  m_owner :: "nat list"
  m_rtypes :: "nat list"

definition fn_default :: fn_info where
  "fn_default = \<lparr>f_start = 0, f_end = 0, f_base = 0, f_arity = 0, f_ret = 0\<rparr>"

section \<open>Header\<close>

text \<open>The result is the minor version, the register count and the instruction count.\<close>

definition verify_header :: "bytes option \<Rightarrow> bc_limits \<Rightarrow> bc_diag + nat \<times> nat \<times> nat" where
  "verify_header input lim =
     (case input of None \<Rightarrow> Inl (Diag BC_ARGUMENT 0) | Some bs \<Rightarrow>
      if length bs < header_size then Inl (Diag BC_BAD_FORMAT (length bs))
      else if length bs > lim_bytes lim then Inl (Diag BC_LIMIT_EXCEEDED 0)
      else if take 4 bs \<noteq> ascii ''MLBC'' then Inl (Diag BC_BAD_MAGIC 0)
      else if read_u16le bs 4 \<noteq> 1 \<or> unat (read_u16le bs 6) > 2 then Inl (Diag BC_BAD_VERSION 4)
      else
        let minor = unat (read_u16le bs 6); regs = unat (read_u16le bs 8);
            n = unat (read_u32le bs 12); expected = header_size + n * instruction_size
        in if read_u16le bs 10 \<noteq> 0 then Inl (Diag BC_BAD_FORMAT 10)
           else if regs = 0 \<or> regs > lim_registers lim \<or> regs > max_registers \<or>
                   n = 0 \<or> n > lim_instructions lim \<or> n > max_instructions
           then Inl (Diag BC_LIMIT_EXCEEDED 8)
           else if minor < 2 \<and> length bs \<noteq> expected
           then Inl (Diag BC_BAD_FORMAT (min (length bs) expected))
           else if \<not> minor < 2 \<and> length bs < expected + regs
           then Inl (Diag BC_BAD_FORMAT (length bs))
           else Inr (minor, regs, n))"

section \<open>Function table\<close>

text \<open>
  The loop over the records; \<open>fns\<close> is the table filled so far.  A new FUNCTION record closes
  the previous entry's body.
\<close>

definition close_last :: "nat \<Rightarrow> fn_info list \<Rightarrow> fn_info list" where
  "close_last pc fns = (if fns = [] then [] else fns[length fns - 1 := (last fns)\<lparr>f_end := pc\<rparr>])"

fun scan_functions ::
  "bytes \<Rightarrow> nat \<Rightarrow> nat \<Rightarrow> nat list \<Rightarrow> fn_info list \<Rightarrow> bc_diag + fn_info list"
where
  "scan_functions bs regs n [] fns = Inr fns"
| "scan_functions bs regs n (pc # pcs) fns =
     (let i = instr_at bs pc
      in if i_op i \<noteq> Some FUNCTION then scan_functions bs regs n pcs fns
         else if length fns \<ge> max_functions \<or> i_a i \<noteq> length fns \<or> (length fns = 0 \<and> pc \<noteq> 0) \<or>
                 i_b i > regs \<or> i_c i > regs - i_b i \<or> i_c i > max_registers
         then Inl (Diag BC_BAD_OPERAND (rec_off pc))
         else scan_functions bs regs n pcs
                (close_last pc fns @ [\<lparr>f_start = pc + 1, f_end = n, f_base = i_b i,
                                       f_arity = i_c i, f_ret = 0\<rparr>]))"

fun check_bodies :: "fn_info list \<Rightarrow> bc_diag + unit" where
  "check_bodies [] = Inr ()"
| "check_bodies (f # fs) =
     (if f_start f \<ge> f_end f then Inl (Diag BC_BAD_CONTROL_FLOW (rec_off (f_start f - 1)))
      else check_bodies fs)"

text \<open>
  The ownership map is indeterminate memory until written; \<open>init\<close> is its initial content.  Every
  entry is overwritten, see \<open>fill_owners_spec\<close> in BytecodeOwners.
\<close>

definition fill_owner :: "nat \<Rightarrow> fn_info \<Rightarrow> nat list \<Rightarrow> nat list" where
  "fill_owner f fi ow = fold (\<lambda>pc ow. ow[pc := f]) [f_start fi - 1..<f_end fi] ow"

definition fill_owners :: "fn_info list \<Rightarrow> nat list \<Rightarrow> nat list" where
  "fill_owners fns init = fold (\<lambda>f ow. fill_owner f (fns ! f) ow) [0..<length fns] init"

definition verify_functions ::
  "bc_mem \<Rightarrow> bytes \<Rightarrow> nat \<Rightarrow> nat \<Rightarrow> nat \<Rightarrow> bc_diag + fn_info list \<times> nat list"
where
  "verify_functions mem bs minor regs n =
     (if minor < 1 then Inr ([], [])
      else if i_op (instr_at bs 0) \<noteq> Some FUNCTION then Inl (Diag BC_BAD_FORMAT header_size)
      else case scan_functions bs regs n [0..<n] [] of
             Inl d \<Rightarrow> Inl d
           | Inr fns \<Rightarrow>
               if length fns = 0 then Inl (Diag BC_BAD_FORMAT header_size)
               else case check_bodies fns of
                      Inl d \<Rightarrow> Inl d
                    | Inr _ \<Rightarrow>
                        if \<not> mem SiteOwners (n * 4) then Inl (Diag BC_OUT_OF_MEMORY 0)
                        else Inr (fns, fill_owners fns (replicate n 0)))"

section \<open>Type tables\<close>

fun check_type_tags :: "nat \<Rightarrow> nat list \<Rightarrow> bc_diag + unit" where
  "check_type_tags off [] = Inr ()"
| "check_type_tags off (t # ts) =
     (if t \<noteq> type_number \<and> t \<noteq> type_boolean then Inl (Diag BC_BAD_FORMAT off)
      else check_type_tags (off + 1) ts)"

definition set_return_types :: "fn_info list \<Rightarrow> nat list \<Rightarrow> fn_info list" where
  "set_return_types fns rts = map2 (\<lambda>f r. f\<lparr>f_ret := r\<rparr>) fns rts"

definition verify_types ::
  "bytes \<Rightarrow> nat \<Rightarrow> nat \<Rightarrow> nat \<Rightarrow> fn_info list \<Rightarrow> bc_diag + fn_info list \<times> nat list"
where
  "verify_types bs minor regs n fns =
     (if minor \<noteq> 2 then Inr (fns, [])
      else
        let meta = header_size + n * instruction_size;
            typed = (case milena_bytecode_typed_encoded_size n regs (length fns) of
                       None \<Rightarrow> 0 | Some s \<Rightarrow> s);
            rts = map unat (peek meta regs bs);
            fts = map unat (peek (meta + regs) (length fns) bs)
        in if milena_bytecode_typed_encoded_size n regs (length fns) = None \<or> length bs \<noteq> typed
           then Inl (Diag BC_BAD_FORMAT (min (length bs) typed))
           else if length fns = 0 \<or> fts ! 0 \<noteq> type_number
           then Inl (Diag BC_BAD_FORMAT (meta + regs))
           else case check_type_tags meta rts of
                  Inl d \<Rightarrow> Inl d
                | Inr _ \<Rightarrow>
                    (case check_type_tags (meta + regs) fts of
                       Inl d \<Rightarrow> Inl d
                     | Inr _ \<Rightarrow> Inr (set_return_types fns fts, rts)))"

section \<open>Instructions\<close>

definition f_256 :: f64 where "f_256 = 0x4070000000000000"

definition arity_ok :: "f64 \<Rightarrow> bool" where
  "arity_ok x \<longleftrightarrow> f_finite x \<and> f_le 0 x \<and> f_le x f_256 \<and> f_integral x"

definition is_boolean :: "f64 \<Rightarrow> bool" where
  "is_boolean v \<longleftrightarrow> f_eq v 0 \<or> f_eq v f_one"

text \<open>\<open>registers_valid\<close> after the first switch, for a known opcode.\<close>

definition operands_valid :: "module_info \<Rightarrow> nat \<Rightarrow> opcode \<Rightarrow> bc_instr \<Rightarrow> bool" where
  "operands_valid m pc op i =
     (let regs = m_regs m; a = i_a i; b = i_b i; c = i_c i; imm = i_imm i
      in case op of
           CONST_F64 \<Rightarrow> a < regs \<and> b = 0 \<and> c = 0 \<and> f_finite imm
         | CONST_BOOL \<Rightarrow> m_minor m = 2 \<and> a < regs \<and> b = 0 \<and> c = 0 \<and> is_boolean imm
         | MOVE \<Rightarrow> a < regs \<and> b < regs \<and> c = 0 \<and> imm = 0
         | NEG \<Rightarrow> a < regs \<and> b < regs \<and> c = 0 \<and> imm = 0
         | JUMP \<Rightarrow> a < m_count m \<and> b = 0 \<and> c = 0 \<and> imm = 0
         | JUMP_IF_FALSE \<Rightarrow> a < regs \<and> b < m_count m \<and> c = 0 \<and> imm = 0
         | RETURN \<Rightarrow> a < regs \<and> b = 0 \<and> c = 0 \<and> imm = 0
         | FUNCTION \<Rightarrow> m_minor m \<ge> 1 \<and> a < length (m_fns m) \<and> a < max_functions \<and> b \<le> regs \<and>
             c \<le> regs - b \<and> imm = 0 \<and> f_start (m_fns m ! a) = pc + 1 \<and>
             f_base (m_fns m ! a) = b \<and> f_arity (m_fns m ! a) = c
         | CALL \<Rightarrow> m_minor m \<ge> 1 \<and> a < regs \<and> b < length (m_fns m) \<and> arity_ok imm \<and> c \<le> regs \<and>
             f_to_nat imm \<le> regs - c \<and> f_to_nat imm = f_arity (m_fns m ! b)
         | _ \<Rightarrow> a < regs \<and> b < regs \<and> c < regs \<and> imm = 0)"

text \<open>The jump-target test of v1.1 and later: same owner, and not a FUNCTION marker.\<close>

definition target_valid :: "module_info \<Rightarrow> nat \<Rightarrow> opcode \<Rightarrow> bc_instr \<Rightarrow> bool" where
  "target_valid m pc op i =
     (if m_minor m \<ge> 1 \<and> (op = JUMP \<or> op = JUMP_IF_FALSE)
      then let t = (if op = JUMP then i_a i else i_b i)
           in t < m_count m \<and> m_owner m ! t = m_owner m ! pc \<and>
              i_op (instr_at (m_bytes m) t) \<noteq> Some FUNCTION
      else True)"

definition types_valid :: "module_info \<Rightarrow> nat \<Rightarrow> opcode \<Rightarrow> bc_instr \<Rightarrow> bool" where
  "types_valid m pc op i =
     (let ty = (\<lambda>r. m_rtypes m ! r); a = i_a i; b = i_b i; c = i_c i
      in case op of
           CONST_F64 \<Rightarrow> ty a = type_number
         | CONST_BOOL \<Rightarrow> ty a = type_boolean
         | MOVE \<Rightarrow> ty a = ty b
         | NEG \<Rightarrow> ty a = type_number \<and> ty b = type_number
         | ADD \<Rightarrow> ty a = type_number \<and> ty b = type_number \<and> ty c = type_number
         | SUB \<Rightarrow> ty a = type_number \<and> ty b = type_number \<and> ty c = type_number
         | MUL \<Rightarrow> ty a = type_number \<and> ty b = type_number \<and> ty c = type_number
         | DIV \<Rightarrow> ty a = type_number \<and> ty b = type_number \<and> ty c = type_number
         | EQ \<Rightarrow> ty b = ty c \<and> ty a = type_boolean
         | NE \<Rightarrow> ty b = ty c \<and> ty a = type_boolean
         | LT \<Rightarrow> ty b = type_number \<and> ty c = type_number \<and> ty a = type_boolean
         | LE \<Rightarrow> ty b = type_number \<and> ty c = type_number \<and> ty a = type_boolean
         | GT \<Rightarrow> ty b = type_number \<and> ty c = type_number \<and> ty a = type_boolean
         | GE \<Rightarrow> ty b = type_number \<and> ty c = type_number \<and> ty a = type_boolean
         | JUMP_IF_FALSE \<Rightarrow> ty a = type_boolean
         | RETURN \<Rightarrow> ty a = f_ret (m_fns m ! (m_owner m ! pc))
         | CALL \<Rightarrow> ty a = f_ret (m_fns m ! b) \<and>
             list_all (\<lambda>k. ty (c + k) = ty (f_base (m_fns m ! b) + k)) [0..<f_to_nat (i_imm i)]
         | JUMP \<Rightarrow> True
         | FUNCTION \<Rightarrow> True)"

type_synonym call_graph = "nat \<Rightarrow> nat \<Rightarrow> bool"

definition check_instr :: "module_info \<Rightarrow> nat \<Rightarrow> call_graph \<Rightarrow> bc_diag + call_graph" where
  "check_instr m pc edges =
     (let i = instr_at (m_bytes m) pc; off = rec_off pc
      in if i_reserved i then Inl (Diag BC_BAD_FORMAT (off + 1))
         else case i_op i of
                None \<Rightarrow> Inl (Diag BC_BAD_OPCODE off)
              | Some op \<Rightarrow>
                  let edges' = (if op = CALL \<and> operands_valid m pc op i
                                then edges(m_owner m ! pc := (edges (m_owner m ! pc))(i_b i := True))
                                else edges)
                  in if \<not> (operands_valid m pc op i \<and> target_valid m pc op i)
                     then Inl (Diag BC_BAD_OPERAND off)
                     else if m_minor m = 2 \<and> \<not> types_valid m pc op i
                     then Inl (Diag BC_BAD_TYPE off)
                     else Inr edges')"

fun check_instrs :: "module_info \<Rightarrow> nat list \<Rightarrow> call_graph \<Rightarrow> bc_diag + call_graph" where
  "check_instrs m [] edges = Inr edges"
| "check_instrs m (pc # pcs) edges =
     (case check_instr m pc edges of Inl d \<Rightarrow> Inl d | Inr e \<Rightarrow> check_instrs m pcs e)"

section \<open>Recursion check\<close>

text \<open>
  The depth-first search over the call graph.  Colours are 0 (not seen), 1 (on the stack) and 2
  (finished); the stack holds, top first, a function and the next callee to try.  The C code
  tests \<open>next == function_count\<close>; \<open>next\<close> never exceeds the count, so \<open>\<ge>\<close> is the same test and
  makes the recursion total.
\<close>

function skip_edges :: "call_graph \<Rightarrow> nat \<Rightarrow> nat \<Rightarrow> nat \<Rightarrow> nat" where
  "skip_edges E fc f k = (if k < fc \<and> \<not> E f k then skip_edges E fc f (k + 1) else k)"
  by pat_completeness auto
termination
  by (relation "measure (\<lambda>(E, fc, f, k). fc - k)") auto

declare skip_edges.simps [simp del]

lemma skip_edges_ge: "k \<le> skip_edges E fc f k"
  by (induction E fc f k rule: skip_edges.induct) (subst skip_edges.simps, force)

lemma skip_edges_le: "k \<le> fc \<Longrightarrow> skip_edges E fc f k \<le> fc"
  by (induction E fc f k rule: skip_edges.induct) (subst skip_edges.simps, force)

lemma skip_edges_edge: "skip_edges E fc f k < fc \<Longrightarrow> E f (skip_edges E fc f k)"
  by (induction E fc f k rule: skip_edges.induct) (subst skip_edges.simps, subst (asm) skip_edges.simps, force)

lemma skip_edges_none: "k \<le> j \<Longrightarrow> j < skip_edges E fc f k \<Longrightarrow> \<not> E f j"
proof (induction E fc f k rule: skip_edges.induct)
  case (1 E fc f k)
  then show ?case
    by (cases "j = k") (auto simp: skip_edges.simps [of E fc f k] split: if_splits)
qed

definition stack_work :: "nat \<Rightarrow> (nat \<times> nat) list \<Rightarrow> nat" where
  "stack_work fc st = sum_list (map (\<lambda>e. fc - snd e + 1) st)"

definition white_work :: "nat \<Rightarrow> (nat \<Rightarrow> nat) \<Rightarrow> (nat \<times> nat) list \<Rightarrow> nat" where
  "white_work fc color st =
     card {f. f < fc \<and> color f = 0 \<and> (st = [] \<or> f \<noteq> fst (hd st))}"

lemma white_work_le:
  "{f. f < fc \<and> c f = 0 \<and> (st = [] \<or> f \<noteq> fst (hd st))} \<subseteq>
   {f. f < fc \<and> d f = 0 \<and> (su = [] \<or> f \<noteq> fst (hd su))} \<Longrightarrow>
   white_work fc c st \<le> white_work fc d su"
  unfolding white_work_def by (rule card_mono) auto

lemma white_work_less:
  assumes "t < fc" and "d t = 0" and "su = [] \<or> t \<noteq> fst (hd su)"
    and "\<And>f. f < fc \<Longrightarrow> c f = 0 \<Longrightarrow> f \<noteq> t \<Longrightarrow> d f = 0 \<and> (su = [] \<or> f \<noteq> fst (hd su))"
  shows "white_work fc c ((t, k) # st) < white_work fc d su"
  unfolding white_work_def using assms by (intro psubset_card_mono) auto

function dfs_loop ::
  "call_graph \<Rightarrow> nat \<Rightarrow> (nat \<Rightarrow> nat) \<Rightarrow> (nat \<times> nat) list \<Rightarrow> bc_diag + (nat \<Rightarrow> nat)"
where
  "dfs_loop E fc color [] = Inr color"
| "dfs_loop E fc color ((f, k) # st) =
     (let color' = (if color f = 0 then color(f := 1) else color);
          t = skip_edges E fc f k
      in if t \<ge> fc then dfs_loop E fc (color'(f := 2)) st
         else if color' t = 1 then Inl (Diag BC_BAD_CONTROL_FLOW header_size)
         else if color' t = 0
         then (if length ((f, k) # st) \<ge> hard_call_depth then Inl (Diag BC_LIMIT_EXCEEDED 0)
               else dfs_loop E fc color' ((t, 0) # (f, t + 1) # st))
         else dfs_loop E fc color' ((f, t + 1) # st))"
  by pat_completeness auto
termination
proof (relation "measure (\<lambda>(E, fc, color, st). (fc + 2) * white_work fc color st + stack_work fc st)",
    goal_cases)
  case 1
  show ?case by simp
next
  case (2 E fc color f k st c t)
  have "white_work fc (c(f := 2)) st \<le> white_work fc color ((f, k) # st)"
    using 2 by (intro white_work_le) (auto split: if_splits)
  then have "(fc + 2) * white_work fc (c(f := 2)) st \<le> (fc + 2) * white_work fc color ((f, k) # st)"
    by (rule mult_le_mono2)
  then show ?case by (simp add: stack_work_def)
next
  case (3 E fc color f k st c t)
  then have "white_work fc c ((t, 0) # (f, t + 1) # st) < white_work fc color ((f, k) # st)"
    by (intro white_work_less) (auto split: if_splits)
  then have "(fc + 2) * white_work fc c ((t, 0) # (f, t + 1) # st) + (fc + 2) \<le>
      (fc + 2) * white_work fc color ((f, k) # st)"
    by (metis Suc_leI add.commute mult_Suc_right mult_le_mono2)
  moreover have "k \<le> t" using 3 skip_edges_ge by blast
  ultimately show ?case using 3 by (simp add: stack_work_def)
next
  case (4 E fc color f k st c t)
  have "white_work fc c ((f, t + 1) # st) \<le> white_work fc color ((f, k) # st)"
    using 4 by (intro white_work_le) (auto split: if_splits)
  then have "(fc + 2) * white_work fc c ((f, t + 1) # st) \<le> (fc + 2) * white_work fc color ((f, k) # st)"
    by (rule mult_le_mono2)
  moreover have "k \<le> t" using 4 skip_edges_ge by blast
  ultimately show ?case using 4 by (simp add: stack_work_def)
qed

fun dfs_roots ::
  "call_graph \<Rightarrow> nat \<Rightarrow> nat list \<Rightarrow> (nat \<Rightarrow> nat) \<Rightarrow> bc_diag + (nat \<Rightarrow> nat)"
where
  "dfs_roots E fc [] color = Inr color"
| "dfs_roots E fc (r # rs) color =
     (if color r \<noteq> 0 then dfs_roots E fc rs color
      else case dfs_loop E fc color [(r, 0)] of
             Inl d \<Rightarrow> Inl d
           | Inr color' \<Rightarrow> dfs_roots E fc rs color')"

section \<open>Control-flow walks\<close>

text \<open>
  The breadth-first walk of both versions: \<open>visit\<close> checks one program counter and gives whether
  it returns and its successors; \<open>mark\<close> enqueues the successors not yet visited.  Successors
  outside the visited array are excluded by the checks before the walk (\<open>visit_fn\<close> tests them,
  the operand checks bound the jumps of v1.0); \<open>mark\<close> ignores them.
\<close>

type_synonym visit = "nat \<Rightarrow> bc_diag + bool \<times> nat list"

fun mark :: "nat list \<Rightarrow> nat list \<Rightarrow> bool list \<Rightarrow> nat list \<times> bool list" where
  "mark [] q v = (q, v)"
| "mark (s # ss) q v =
     (if s < length v \<and> \<not> v ! s then mark ss (q @ [s]) (v[s := True]) else mark ss q v)"

lemma mark_work:
  "mark ss q v = (q', v') \<Longrightarrow>
   length q' + length (filter Not v') = length q + length (filter Not v) \<and> length v' = length v \<and>
   length (filter Not v') \<le> length (filter Not v)"
proof (induction ss q v rule: mark.induct)
  case (1 q v)
  then show ?case by simp
next
  case (2 s ss q v)
  then show ?case
    using count_false_update [of s v] by (auto split: if_splits)
qed

function cfg_walk :: "visit \<Rightarrow> nat list \<Rightarrow> bool list \<Rightarrow> bool \<Rightarrow> bc_diag + bool list \<times> bool" where
  "cfg_walk visit [] v r = Inr (v, r)"
| "cfg_walk visit (pc # q) v r =
     (case visit pc of
        Inl d \<Rightarrow> Inl d
      | Inr (ret, ss) \<Rightarrow>
          if ret then cfg_walk visit q v True
          else cfg_walk visit (fst (mark ss q v)) (snd (mark ss q v)) r)"
  by pat_completeness auto
termination
proof (relation "measure (\<lambda>(visit, q, v, r). length q + 2 * length (filter Not v))", goal_cases)
  case 1
  show ?case by simp
next
  case 2
  then show ?case by simp
next
  case (3 visit pc q v r y ret ss)
  then show ?case
    using mark_work [of ss q v "fst (mark ss q v)" "snd (mark ss q v)"] by simp
qed

definition visit_fn :: "module_info \<Rightarrow> nat \<Rightarrow> visit" where
  "visit_fn m f pc =
     (let i = instr_at (m_bytes m) pc; cf = Inl (Diag BC_BAD_CONTROL_FLOW (rec_off pc))
      in if m_owner m ! pc \<noteq> f \<or> i_op i = Some FUNCTION then cf
         else if i_op i = Some RETURN then Inr (True, [])
         else if i_op i \<noteq> Some JUMP \<and> pc + 1 \<ge> f_end (m_fns m ! f) then cf
         else let succs = (if i_op i = Some JUMP then [i_a i]
                           else if i_op i = Some JUMP_IF_FALSE then [i_b i, pc + 1]
                           else [pc + 1])
              in if list_ex (\<lambda>t. t \<ge> m_count m \<or> m_owner m ! t \<noteq> f) succs then cf
                 else Inr (False, succs))"

definition visit_legacy :: "module_info \<Rightarrow> visit" where
  "visit_legacy m pc =
     (let i = instr_at (m_bytes m) pc
      in if i_op i = Some RETURN then Inr (True, [])
         else if i_op i = Some JUMP then Inr (False, [i_a i])
         else if pc = m_count m - 1 then Inl (Diag BC_BAD_CONTROL_FLOW (rec_off pc))
         else if i_op i = Some JUMP_IF_FALSE then Inr (False, [i_b i, pc + 1])
         else Inr (False, [pc + 1]))"

definition walk_from :: "module_info \<Rightarrow> visit \<Rightarrow> nat \<Rightarrow> bc_diag + bool list \<times> bool" where
  "walk_from m visit start = cfg_walk visit [start] ((replicate (m_count m) False)[start := True]) False"

fun walk_functions :: "module_info \<Rightarrow> nat list \<Rightarrow> bc_diag + unit" where
  "walk_functions m [] = Inr ()"
| "walk_functions m (f # fs) =
     (case walk_from m (visit_fn m f) (f_start (m_fns m ! f)) of
        Inl d \<Rightarrow> Inl d
      | Inr (v, r) \<Rightarrow>
          if \<not> r then Inl (Diag BC_BAD_CONTROL_FLOW (rec_off (f_start (m_fns m ! f))))
          else walk_functions m fs)"

definition verify_calls :: "bc_mem \<Rightarrow> module_info \<Rightarrow> call_graph \<Rightarrow> bc_diag + unit" where
  "verify_calls mem m E =
     (case dfs_roots E (length (m_fns m)) [0..<length (m_fns m)] (\<lambda>_. 0) of
        Inl d \<Rightarrow> Inl d
      | Inr _ \<Rightarrow>
          if \<not> (mem SiteCfg (m_count m) \<and> mem SiteCfg (m_count m * 4)) then Inl (Diag BC_OUT_OF_MEMORY 0)
          else walk_functions m [0..<length (m_fns m)])"

definition verify_legacy :: "bc_mem \<Rightarrow> module_info \<Rightarrow> bc_diag + unit" where
  "verify_legacy mem m =
     (if \<not> (mem SiteCfg (m_count m) \<and> mem SiteCfg (m_count m * 4)) then Inl (Diag BC_OUT_OF_MEMORY 0)
      else case walk_from m (visit_legacy m) 0 of
             Inl d \<Rightarrow> Inl d
           | Inr (v, r) \<Rightarrow> if \<not> r then Inl (Diag BC_BAD_CONTROL_FLOW 0) else Inr ())"

section \<open>The verifier\<close>

definition verify_internal :: "bc_mem \<Rightarrow> bytes option \<Rightarrow> bc_limits \<Rightarrow> bc_diag + module_info" where
  "verify_internal mem input lim =
     (case verify_header input lim of Inl d \<Rightarrow> Inl d | Inr (minor, regs, n) \<Rightarrow>
      let bs = the input in
      case verify_functions mem bs minor regs n of Inl d \<Rightarrow> Inl d | Inr (fns0, owner) \<Rightarrow>
      case verify_types bs minor regs n fns0 of Inl d \<Rightarrow> Inl d | Inr (fns, rts) \<Rightarrow>
      let m = \<lparr>m_bytes = bs, m_minor = minor, m_regs = regs, m_count = n, m_fns = fns,
               m_owner = owner, m_rtypes = rts\<rparr> in
      case check_instrs m [0..<n] (\<lambda>_ _. False) of Inl d \<Rightarrow> Inl d | Inr E \<Rightarrow>
      case (if minor \<ge> 1 then verify_calls mem m E else verify_legacy mem m) of
        Inl d \<Rightarrow> Inl d | Inr _ \<Rightarrow> Inr m)"

definition milena_bytecode_verify :: "bc_mem \<Rightarrow> bytes option \<Rightarrow> bc_limits option \<Rightarrow> bc_diag + unit" where
  "milena_bytecode_verify mem input limits =
     (case resolve_limits limits of Inl d \<Rightarrow> Inl d | Inr lim \<Rightarrow>
      case verify_internal mem input lim of Inl d \<Rightarrow> Inl d | Inr _ \<Rightarrow> Inr ())"

end
