(* ===== verification/BytecodeRun.thy ===== *)
theory BytecodeRun
  imports BytecodeVerify
begin

text \<open>
  \<open>milena_bytecode_run\<close> of bytecode.c: the interpreter of verified modules.

  Every access of the C code to an array is checked in the model: an index outside the register
  file, the frame array, the function tables or the code gives \<open>OutOfBounds\<close>, which stands for
  C's undefined behaviour.  The other failures are the interpreter's own \<open>fail\<close> calls, one
  constructor per call, with the byte offset it reports; \<open>run_diag\<close> is the status the C code
  returns for each.  The constructors are finer than the C status: \<open>Rejected\<close> in particular tags a
  verdict of the verifier, which C hands on as a plain status that a failure of the interpreter may
  have too.
\<close>

datatype run_error =
    Rejected bc_diag | NoRegisters | RuntimeFunctionId nat | NoEntry
  | StepLimit nat | NonFinite nat | DivisionByZero nat | FrameLimit nat | BadCall nat
  | NotExecutable nat | LeftStream nat | OutOfBounds

fun run_diag :: "run_error \<Rightarrow> bc_diag option" where
  "run_diag (Rejected d) = Some d"
| "run_diag NoRegisters = Some (Diag BC_OUT_OF_MEMORY 0)"
| "run_diag (RuntimeFunctionId off) = Some (Diag BC_BAD_OPERAND off)"
| "run_diag NoEntry = Some (Diag BC_BAD_FORMAT header_size)"
| "run_diag (StepLimit off) = Some (Diag BC_STEP_LIMIT off)"
| "run_diag (NonFinite off) = Some (Diag BC_RUNTIME_ERROR off)"
| "run_diag (DivisionByZero off) = Some (Diag BC_RUNTIME_ERROR off)"
| "run_diag (FrameLimit off) = Some (Diag BC_LIMIT_EXCEEDED off)"
| "run_diag (BadCall off) = Some (Diag BC_BAD_OPERAND off)"
| "run_diag (NotExecutable off) = Some (Diag BC_RUNTIME_ERROR off)"
| "run_diag (LeftStream len) = Some (Diag BC_RUNTIME_ERROR len)"
| "run_diag OutOfBounds = None"

text \<open>The runtime function table: \<open>function_starts\<close>, \<open>parameter_bases\<close>, \<open>arities\<close>, \<open>function_count\<close>.\<close>

record run_table =
  t_start :: "nat list"
  t_base :: "nat list"
  t_arity :: "nat list"
  t_count :: nat

record run_state =
  r_pc :: nat
  r_regs :: "f64 list"
  r_frames :: "(nat \<times> nat) list"

datatype step_result = Running run_state | Finished f64

fun build_table :: "bytes \<Rightarrow> nat list \<Rightarrow> run_table \<Rightarrow> run_error + run_table" where
  "build_table bs [] t = Inr t"
| "build_table bs (pc # pcs) t =
     (let i = instr_at bs pc
      in if i_op i \<noteq> Some FUNCTION then build_table bs pcs t
         else if i_a i \<ge> max_functions then Inl (RuntimeFunctionId (rec_off pc))
         else build_table bs pcs
                (t\<lparr>t_start := (t_start t)[i_a i := pc + 1], t_base := (t_base t)[i_a i := i_b i],
                   t_arity := (t_arity t)[i_a i := i_c i],
                   t_count := (if t_count t \<le> i_a i then i_a i + 1 else t_count t)\<rparr>))"

definition empty_table :: run_table where
  "empty_table = \<lparr>t_start = replicate max_functions 0, t_base = replicate max_functions 0,
     t_arity = replicate max_functions 0, t_count = 0\<rparr>"

definition get_reg :: "f64 list \<Rightarrow> nat \<Rightarrow> (f64 \<Rightarrow> run_error + 'a) \<Rightarrow> run_error + 'a" where
  "get_reg regs r k = (if r < length regs then k (regs ! r) else Inl OutOfBounds)"

definition set_reg :: "run_state \<Rightarrow> nat \<Rightarrow> f64 \<Rightarrow> nat \<Rightarrow> run_error + step_result" where
  "set_reg s r v pc' =
     (if r < length (r_regs s)
      then Inr (Running (s\<lparr>r_regs := (r_regs s)[r := v], r_pc := pc'\<rparr>))
      else Inl OutOfBounds)"

definition bool_value :: "bool \<Rightarrow> f64" where
  "bool_value b = (if b then f_one else 0)"

fun binary_op :: "opcode \<Rightarrow> f64 \<Rightarrow> f64 \<Rightarrow> f64 option" where
  "binary_op ADD l r = Some (f_add l r)"
| "binary_op SUB l r = Some (f_sub l r)"
| "binary_op MUL l r = Some (f_mul l r)"
| "binary_op DIV l r = Some (f_div l r)"
| "binary_op EQ l r = Some (bool_value (f_eq l r))"
| "binary_op NE l r = Some (bool_value (\<not> f_eq l r))"
| "binary_op LT l r = Some (bool_value (f_lt l r))"
| "binary_op LE l r = Some (bool_value (f_le l r))"
| "binary_op GT l r = Some (bool_value (f_lt r l))"
| "binary_op GE l r = Some (bool_value (f_le r l))"
| "binary_op _ l r = None"

definition read_args :: "f64 list \<Rightarrow> nat \<Rightarrow> nat \<Rightarrow> f64 list option" where
  "read_args regs base n = (if base + n \<le> length regs then Some (take n (drop base regs)) else None)"

definition write_args :: "f64 list \<Rightarrow> nat \<Rightarrow> f64 list \<Rightarrow> f64 list option" where
  "write_args regs base args =
     (if base + length args \<le> length regs
      then Some (take base regs @ args @ drop (base + length args) regs) else None)"

definition run_call :: "bc_limits \<Rightarrow> run_table \<Rightarrow> run_state \<Rightarrow> bc_instr \<Rightarrow> run_error + step_result" where
  "run_call lim t s i =
     (let off = rec_off (r_pc s); regs = r_regs s; rc = length regs; arity = f_to_nat (i_imm i);
          a = i_a i; b = i_b i; c = i_c i
      in if length (r_frames s) \<ge> lim_depth lim then Inl (FrameLimit off)
         else if b \<ge> t_count t then Inl (BadCall off)
         else if b \<ge> max_functions then Inl OutOfBounds
         else if arity \<noteq> t_arity t ! b \<or> c > rc \<or> arity > rc - c \<or> t_base t ! b > rc \<or>
                 arity > rc - t_base t ! b then Inl (BadCall off)
         else if arity > max_registers \<or> length (r_frames s) \<ge> hard_call_depth then Inl OutOfBounds
         else case read_args regs c arity of
                None \<Rightarrow> Inl OutOfBounds
              | Some args \<Rightarrow>
                  (case write_args regs (t_base t ! b) args of
                     None \<Rightarrow> Inl OutOfBounds
                   | Some regs' \<Rightarrow>
                       Inr (Running \<lparr>r_pc = t_start t ! b, r_regs = regs',
                                     r_frames = (r_pc s + 1, a) # r_frames s\<rparr>)))"

definition run_step ::
  "bytes \<Rightarrow> bc_limits \<Rightarrow> run_table \<Rightarrow> nat \<Rightarrow> run_state \<Rightarrow> run_error + step_result"
where
  "run_step bs lim t n s =
     (let pc = r_pc s; regs = r_regs s; i = instr_at bs pc; off = rec_off pc;
          a = i_a i; b = i_b i; c = i_c i
      in if off + instruction_size > length bs then Inl OutOfBounds
         else case i_op i of
           None \<Rightarrow> Inl (NotExecutable off)
         | Some CONST_F64 \<Rightarrow> set_reg s a (i_imm i) (pc + 1)
         | Some CONST_BOOL \<Rightarrow> set_reg s a (i_imm i) (pc + 1)
         | Some MOVE \<Rightarrow> get_reg regs b (\<lambda>v. set_reg s a v (pc + 1))
         | Some NEG \<Rightarrow> get_reg regs b (\<lambda>v.
             if \<not> f_finite (f_neg v) then Inl (NonFinite off) else set_reg s a (f_neg v) (pc + 1))
         | Some JUMP \<Rightarrow> Inr (Running (s\<lparr>r_pc := a\<rparr>))
         | Some JUMP_IF_FALSE \<Rightarrow> get_reg regs a (\<lambda>v.
             Inr (Running (s\<lparr>r_pc := (if f_eq v 0 then b else pc + 1)\<rparr>)))
         | Some RETURN \<Rightarrow> get_reg regs a (\<lambda>v.
             case r_frames s of
               [] \<Rightarrow> Inr (Finished v)
             | (ret, dest) # fs \<Rightarrow> set_reg (s\<lparr>r_frames := fs\<rparr>) dest v ret)
         | Some FUNCTION \<Rightarrow> Inr (Running (s\<lparr>r_pc := pc + 1\<rparr>))
         | Some CALL \<Rightarrow> run_call lim t s i
         | Some op \<Rightarrow> get_reg regs b (\<lambda>l. get_reg regs c (\<lambda>r.
             if op = DIV \<and> f_eq r 0 then Inl (DivisionByZero off)
             else case binary_op op l r of
                    None \<Rightarrow> Inl (NotExecutable off)
                  | Some v \<Rightarrow> if \<not> f_finite v then Inl (NonFinite off) else set_reg s a v (pc + 1))))"

text \<open>The dispatch loop; \<open>fuel\<close> is \<open>max_steps - steps\<close>, so 0 is the exhausted budget.\<close>

fun run_loop ::
  "bytes \<Rightarrow> bc_limits \<Rightarrow> run_table \<Rightarrow> nat \<Rightarrow> nat \<Rightarrow> run_state \<Rightarrow> run_error + f64"
where
  "run_loop bs lim t n fuel s =
     (if r_pc s \<ge> n then Inl (LeftStream (length bs))
      else case fuel of
             0 \<Rightarrow> Inl (StepLimit (rec_off (r_pc s)))
           | Suc fuel' \<Rightarrow>
               (case run_step bs lim t n s of
                  Inl e \<Rightarrow> Inl e
                | Inr (Finished v) \<Rightarrow> Inr v
                | Inr (Running s') \<Rightarrow> run_loop bs lim t n fuel' s'))"

declare run_loop.simps [simp del]

definition run_setup :: "module_info \<Rightarrow> run_error + run_table \<times> run_state" where
  "run_setup m =
     (let s0 = \<lparr>r_pc = 0, r_regs = replicate (m_regs m) 0, r_frames = []\<rparr>
      in if m_minor m \<ge> 1
         then (case build_table (m_bytes m) [0..<m_count m] empty_table of
                 Inl e \<Rightarrow> Inl e
               | Inr t \<Rightarrow> if t_count t = 0 then Inl NoEntry else Inr (t, s0\<lparr>r_pc := t_start t ! 0\<rparr>))
         else Inr (empty_table, s0))"

definition run_verified :: "bc_limits \<Rightarrow> bc_mem \<Rightarrow> module_info \<Rightarrow> run_error + f64" where
  "run_verified lim mem m =
     (if \<not> mem SiteRegisters (m_regs m * 8) then Inl NoRegisters
      else case run_setup m of
             Inl e \<Rightarrow> Inl e
           | Inr (t, s) \<Rightarrow> run_loop (m_bytes m) lim t (m_count m) (lim_steps lim) s)"

definition milena_bytecode_run ::
  "bc_mem \<Rightarrow> bytes option \<Rightarrow> bc_limits option \<Rightarrow> run_error + f64"
where
  "milena_bytecode_run mem input limits =
     (case resolve_limits limits of
        Inl d \<Rightarrow> Inl (Rejected d)
      | Inr lim \<Rightarrow>
          (case verify_internal mem input lim of
             Inl d \<Rightarrow> Inl (Rejected d)
           | Inr m \<Rightarrow> run_verified lim mem m))"

end
