(* ===== verification/BytecodeGraphs.thy ===== *)
theory BytecodeGraphs
  imports BytecodeVerify
begin

text \<open>
  What the verifier's two searches establish: the depth-first search leaves a ranking of the
  functions that every call decreases (no recursion, and call chains no longer than the number
  of functions), and a control-flow walk leaves a set of program counters that is closed under
  the successors the walk computes.
\<close>

section \<open>Depth-first search\<close>

text \<open>
  \<open>ranked\<close>: finished functions call finished functions of smaller rank only.  \<open>stack_ok\<close>: the
  callees already tried by a stack entry are finished, except the one that sits on top of it.
\<close>

definition ranked :: "call_graph \<Rightarrow> nat \<Rightarrow> (nat \<Rightarrow> nat) \<Rightarrow> (nat \<Rightarrow> nat) \<Rightarrow> bool" where
  "ranked E fc color rank \<longleftrightarrow>
     (\<forall>u. color u = 2 \<longrightarrow> u < fc \<and> rank u < card {w. color w = 2} \<and>
        (\<forall>v < fc. E u v \<longrightarrow> color v = 2 \<and> rank v < rank u))"

fun stack_ok :: "call_graph \<Rightarrow> nat \<Rightarrow> (nat \<Rightarrow> nat) \<Rightarrow> nat option \<Rightarrow> (nat \<times> nat) list \<Rightarrow> bool" where
  "stack_ok E fc color up [] = True"
| "stack_ok E fc color up ((f, k) # st) =
     ((\<forall>v < k. v < fc \<longrightarrow> E f v \<longrightarrow> color v = 2 \<or> up = Some v) \<and>
      stack_ok E fc color (Some f) st)"

definition dfs_inv :: "call_graph \<Rightarrow> nat \<Rightarrow> (nat \<Rightarrow> nat) \<Rightarrow> (nat \<times> nat) list \<Rightarrow> bool" where
  "dfs_inv E fc color st \<longleftrightarrow>
     (\<exists>rank. ranked E fc color rank) \<and> stack_ok E fc color None st \<and>
     (\<forall>u. color u \<in> {0, 1, 2}) \<and> (\<forall>u. color u = 1 \<longrightarrow> u \<in> fst ` set st) \<and>
     fst ` set st \<subseteq> {..<fc} \<and> distinct (map fst st) \<and>
     (\<forall>u \<in> fst ` set st. color u \<noteq> 2) \<and> (\<forall>u \<in> fst ` set (tl st). color u = 1)"

lemma stack_ok_mono:
  "stack_ok E fc color up st \<Longrightarrow> (\<And>u. color u = 2 \<Longrightarrow> color' u = 2) \<Longrightarrow> stack_ok E fc color' up st"
  by (induction st arbitrary: up) (auto, blast)

lemma stack_ok_finished:
  "stack_ok E fc color (Some f) st \<Longrightarrow> color f = 2 \<Longrightarrow> stack_ok E fc color None st"
  by (cases st) auto

lemma finite_black: "ranked E fc color rank \<Longrightarrow> finite {w. color w = 2}"
  by (rule finite_subset [of _ "{..<fc}"]) (auto simp: ranked_def)

lemma ranked_finish:
  assumes rk: "ranked E fc color rank" and f: "f < fc" "color f \<noteq> 2"
    and closed: "\<forall>v < fc. E f v \<longrightarrow> color v = 2"
  shows "ranked E fc (color(f := 2)) (rank(f := card {w. color w = 2}))"
proof -
  let ?B = "{w. color w = 2}"
  have B: "{w. (color(f := 2)) w = 2} = insert f ?B" by auto
  have card: "card (insert f ?B) = Suc (card ?B)"
    using f(2) finite_black [OF rk] by simp
  show ?thesis
    unfolding ranked_def B card
  proof (intro allI impI)
    fix u
    assume u: "(color(f := 2)) u = 2"
    show "u < fc \<and> (rank(f := card ?B)) u < Suc (card ?B) \<and>
      (\<forall>v < fc. E u v \<longrightarrow> (color(f := 2)) v = 2 \<and>
         (rank(f := card ?B)) v < (rank(f := card ?B)) u)"
    proof (cases "u = f")
      case True
      have small: "color v = 2 \<Longrightarrow> rank v < card ?B" for v
        using rk unfolding ranked_def by blast
      have other: "color v = 2 \<Longrightarrow> v \<noteq> f" for v using f(2) by blast
      have "v < fc \<Longrightarrow> E f v \<Longrightarrow> color v = 2" for v using closed by blast
      with small other show ?thesis using True f(1) by simp
    next
      case False
      then have "color u = 2" using u by simp
      then have "u < fc \<and> rank u < card ?B \<and> (\<forall>v < fc. E u v \<longrightarrow> color v = 2 \<and> rank v < rank u)"
        using rk unfolding ranked_def by blast
      moreover have "color v = 2 \<Longrightarrow> v \<noteq> f" for v using f(2) by auto
      ultimately show ?thesis using False by (simp add: less_Suc_eq)
    qed
  qed
qed

lemma dfs_grey:
  assumes "dfs_inv E fc color ((f, k) # st)"
  shows "dfs_inv E fc (if color f = 0 then color(f := 1) else color) ((f, k) # st) \<and>
    (if color f = 0 then color(f := 1) else color) f = 1"
proof -
  let ?c = "if color f = 0 then color(f := 1) else color"
  have cf: "color f = 0 \<or> color f = 1"
    using assms by (auto simp: dfs_inv_def)
  have black: "?c u = 2 \<longleftrightarrow> color u = 2" for u
    using cf by auto
  have "ranked E fc ?c rank = ranked E fc color rank" for rank
    by (simp only: ranked_def black)
  moreover have "stack_ok E fc color None ((f, k) # st) \<Longrightarrow> stack_ok E fc ?c None ((f, k) # st)"
    by (erule stack_ok_mono) (simp only: black)
  ultimately show ?thesis
    using assms cf by (auto simp: dfs_inv_def)
qed

lemma dfs_pop:
  assumes inv: "dfs_inv E fc c ((f, k) # st)" and cf: "c f = 1"
    and none: "skip_edges E fc f k \<ge> fc"
  shows "dfs_inv E fc (c(f := 2)) st"
proof -
  from inv obtain rank where rk: "ranked E fc c rank" and so: "stack_ok E fc c None ((f, k) # st)"
    and f: "f < fc" by (auto simp: dfs_inv_def)
  have "\<forall>v < fc. E f v \<longrightarrow> c v = 2"
    using so none skip_edges_none [of k _ E fc f] by (auto simp: not_less) (meson less_le_trans not_less)
  then have "ranked E fc (c(f := 2)) (rank(f := card {w. c w = 2}))"
    using rk f cf by (intro ranked_finish) auto
  moreover have "stack_ok E fc (c(f := 2)) None st"
    using so by (intro stack_ok_finished [of _ _ _ f]) (auto elim: stack_ok_mono)
  ultimately show ?thesis
    using inv by (cases st) (auto simp: dfs_inv_def)
qed

lemma dfs_push:
  assumes inv: "dfs_inv E fc c ((f, k) # st)" and cf: "c f = 1"
    and t: "t = skip_edges E fc f k" "t < fc" "c t = 0"
  shows "dfs_inv E fc c ((t, 0) # (f, t + 1) # st)"
proof -
  have "stack_ok E fc c None ((t, 0) # (f, t + 1) # st)"
    using inv skip_edges_none [of k _ E fc f]
    by (auto simp: dfs_inv_def t(1) less_Suc_eq) (meson not_less)
  moreover have "t \<notin> fst ` set ((f, k) # st)"
    using inv cf t(3) by (auto simp: dfs_inv_def)
  ultimately show ?thesis
    using inv cf t by (auto simp: dfs_inv_def image_iff)
qed

lemma dfs_next:
  assumes inv: "dfs_inv E fc c ((f, k) # st)" and t: "t = skip_edges E fc f k" "c t = 2"
  shows "dfs_inv E fc c ((f, t + 1) # st)"
proof -
  have "stack_ok E fc c None ((f, t + 1) # st)"
    using inv skip_edges_none [of k _ E fc f] t
    by (auto simp: dfs_inv_def less_Suc_eq) (meson not_less)
  then show ?thesis using inv by (auto simp: dfs_inv_def)
qed

lemma dfs_loop_sound:
  "dfs_loop E fc color st = Inr c' \<Longrightarrow> dfs_inv E fc color st \<Longrightarrow>
   dfs_inv E fc c' [] \<and> (\<forall>u. color u = 2 \<longrightarrow> c' u = 2) \<and> (\<forall>u \<in> fst ` set st. c' u = 2)"
proof (induction E fc color st rule: dfs_loop.induct)
  case (1 E fc color)
  then show ?case by simp
next
  case (2 E fc color f k st)
  define c where "c = (if color f = 0 then color(f := 1) else color)"
  define t where "t = skip_edges E fc f k"
  have inv: "dfs_inv E fc c ((f, k) # st)" and cf: "c f = 1"
    using dfs_grey [OF "2.prems"(2)] unfolding c_def by blast+
  have keep: "color u = 2 \<Longrightarrow> c u = 2" for u by (auto simp: c_def)
  have run: "dfs_loop E fc color ((f, k) # st) =
    (if t \<ge> fc then dfs_loop E fc (c(f := 2)) st
     else if c t = 1 then Inl (Diag BC_BAD_CONTROL_FLOW header_size)
     else if c t = 0
     then (if length ((f, k) # st) \<ge> hard_call_depth then Inl (Diag BC_LIMIT_EXCEEDED 0)
           else dfs_loop E fc c ((t, 0) # (f, t + 1) # st))
     else dfs_loop E fc c ((f, t + 1) # st))"
    by (simp add: c_def t_def Let_def)
  have le2: "c t \<in> {0, 1, 2}" using inv by (simp add: dfs_inv_def)
  consider "t \<ge> fc" | "t < fc" "c t = 0" | "t < fc" "c t = 2"
    using le2 "2.prems"(1) run by (fastforce split: if_splits)
  then show ?case
  proof cases
    case 1
    then have "dfs_loop E fc (c(f := 2)) st = Inr c'" using run "2.prems"(1) by simp
    from "2.IH"(1) [OF c_def t_def _ this] 1 dfs_pop [OF inv cf] t_def
    show ?thesis using keep by fastforce
  next
    case 2
    then have "dfs_loop E fc c ((t, 0) # (f, t + 1) # st) = Inr c'"
      and "\<not> hard_call_depth \<le> length ((f, k) # st)"
      using run "2.prems"(1) by (auto split: if_splits)
    from "2.IH"(2) [OF c_def t_def _ _ _ this(2,1)] 2 dfs_push [OF inv cf t_def]
    show ?thesis using keep by fastforce
  next
    case 3
    then have "dfs_loop E fc c ((f, t + 1) # st) = Inr c'" using run "2.prems"(1) by simp
    from "2.IH"(3) [OF c_def t_def _ _ _ this] 3 dfs_next [OF inv t_def]
    show ?thesis using keep by fastforce
  qed
qed

lemma dfs_roots_sound:
  "dfs_roots E fc rs color = Inr c' \<Longrightarrow> dfs_inv E fc color [] \<Longrightarrow> set rs \<subseteq> {..<fc} \<Longrightarrow>
   dfs_inv E fc c' [] \<and> (\<forall>u. color u = 2 \<longrightarrow> c' u = 2) \<and> (\<forall>u \<in> set rs. c' u = 2)"
proof (induction rs arbitrary: color)
  case Nil
  then show ?case by simp
next
  case (Cons r rs)
  show ?case
  proof (cases "color r = 0")
    case False
    have "color r \<in> {0, 1, 2}" and "color r \<noteq> 1"
      using Cons.prems(2) unfolding dfs_inv_def by auto
    with False have r2: "color r = 2" by simp
    have "dfs_roots E fc rs color = Inr c'" using Cons.prems(1) False by simp
    from Cons.IH [OF this Cons.prems(2)] Cons.prems(3) r2 show ?thesis by simp
  next
    case True
    with Cons.prems(1) obtain c1 where l: "dfs_loop E fc color [(r, 0)] = Inr c1"
      and rest: "dfs_roots E fc rs c1 = Inr c'" by (auto split: sum.splits)
    have "dfs_inv E fc color [(r, 0)]"
      using Cons.prems True by (auto simp: dfs_inv_def)
    from dfs_loop_sound [OF l this] Cons.IH [OF rest] Cons.prems(3) show ?thesis by auto
  qed
qed

theorem dfs_ranking:
  assumes "dfs_roots E fc [0..<fc] (\<lambda>_. 0) = Inr c"
  shows "\<exists>rank. \<forall>u < fc. rank u < fc \<and> (\<forall>v < fc. E u v \<longrightarrow> rank v < rank u)"
proof -
  have "dfs_inv E fc (\<lambda>_. 0) []" by (auto simp: dfs_inv_def ranked_def)
  from dfs_roots_sound [OF assms this] have inv: "dfs_inv E fc c []" and all: "\<forall>u < fc. c u = 2"
    by (auto simp: atLeast0LessThan)
  from inv obtain rank where rk: "ranked E fc c rank" by (auto simp: dfs_inv_def)
  have "card {w. c w = 2} \<le> card {..<fc}"
    by (rule card_mono) (use rk in \<open>auto simp: ranked_def\<close>)
  then have "card {w. c w = 2} \<le> fc" by simp
  then show ?thesis
    using rk all by (intro exI [of _ rank]) (fastforce simp: ranked_def)
qed

section \<open>Control-flow walks\<close>

definition settled :: "visit \<Rightarrow> bool list \<Rightarrow> nat \<Rightarrow> bool" where
  "settled visit v pc \<longleftrightarrow>
     (\<exists>ret ss. visit pc = Inr (ret, ss) \<and> (\<not> ret \<longrightarrow> (\<forall>t \<in> set ss. t < length v \<longrightarrow> v ! t)))"

definition walk_inv :: "visit \<Rightarrow> nat list \<Rightarrow> bool list \<Rightarrow> bool" where
  "walk_inv visit q v \<longleftrightarrow> (\<forall>pc < length v. v ! pc \<longrightarrow> pc \<in> set q \<or> settled visit v pc)"

lemma mark_result:
  "mark ss q v = (q', v') \<Longrightarrow>
   length v' = length v \<and> set q \<subseteq> set q' \<and> (\<forall>t < length v. v ! t \<longrightarrow> v' ! t) \<and>
   (\<forall>t < length v. v' ! t \<longrightarrow> v ! t \<or> t \<in> set q') \<and> (\<forall>t \<in> set ss. t < length v \<longrightarrow> v' ! t)"
proof (induction ss q v rule: mark.induct)
  case (1 q v)
  then show ?case by simp
next
  case (2 s ss q v)
  show ?case
  proof (cases "s < length v \<and> \<not> v ! s")
    case True
    then have "mark ss (q @ [s]) (v[s := True]) = (q', v')" using "2.prems" by simp
    from "2.IH"(1) [OF True this] True show ?thesis
      by (auto simp: nth_list_update_True)
  next
    case False
    then have "mark ss q v = (q', v')" using "2.prems" by auto
    from "2.IH"(2) [OF False this] False show ?thesis by auto
  qed
qed

lemma settled_mono:
  "settled visit v pc \<Longrightarrow> length v' = length v \<Longrightarrow> (\<forall>t < length v. v ! t \<longrightarrow> v' ! t) \<Longrightarrow> settled visit v' pc"
  unfolding settled_def by metis

lemma cfg_walk_sound:
  "cfg_walk visit q v r = Inr (v', r') \<Longrightarrow> walk_inv visit q v \<Longrightarrow>
   walk_inv visit [] v' \<and> length v' = length v \<and> (\<forall>t < length v. v ! t \<longrightarrow> v' ! t)"
proof (induction visit q v r rule: cfg_walk.induct)
  case (1 visit v r)
  then show ?case by simp
next
  case (2 visit pc q v r)
  from "2.prems"(1) obtain ret ss where vis: "visit pc = Inr (ret, ss)"
    by (cases "visit pc") auto
  show ?case
  proof (cases ret)
    case True
    then have "walk_inv visit q v"
      using "2.prems"(2) vis by (auto simp: walk_inv_def settled_def)
    with True vis "2.prems"(1) "2.IH"(1) [OF vis refl True] show ?thesis by simp
  next
    case False
    obtain q1 v1 where mk: "mark ss q v = (q1, v1)" by fastforce
    note m = mark_result [OF mk]
    have "walk_inv visit q1 v1"
      unfolding walk_inv_def
    proof (intro allI impI)
      fix p
      assume p: "p < length v1" "v1 ! p"
      then have "p \<in> set q1 \<or> p = pc \<or> settled visit v p"
        using m "2.prems"(2) by (auto simp: walk_inv_def)
      moreover have "settled visit v1 pc"
        using vis m by (auto simp: settled_def)
      ultimately show "p \<in> set q1 \<or> settled visit v1 p"
        using m settled_mono by blast
    qed
    moreover have "cfg_walk visit q1 v1 r = Inr (v', r')"
      using "2.prems"(1) vis False mk by simp
    ultimately show ?thesis
      using "2.IH"(2) [OF vis refl False] m by (simp add: mk)
  qed
qed

theorem walk_from_closed:
  assumes "walk_from m visit start = Inr (v, r)" and "start < m_count m"
  shows "length v = m_count m \<and> v ! start \<and> (\<forall>pc < m_count m. v ! pc \<longrightarrow> settled visit v pc)"
proof -
  have "walk_inv visit [start] ((replicate (m_count m) False)[start := True])"
    by (auto simp: walk_inv_def nth_list_update_True)
  from cfg_walk_sound [OF assms(1) [unfolded walk_from_def] this] assms(2) show ?thesis
    by (auto simp: walk_inv_def)
qed

end
