(* ===== verification/BytecodeSound.thy ===== *)
theory BytecodeSound
  imports BytecodeRun BytecodeGraphs
begin

text \<open>
  Soundness of the verifier for the interpreter.  \<open>closed_code\<close> states what a verified module
  guarantees about the program counters an execution can reach; \<open>verified_closed\<close> derives it from
  the phases of \<open>verify_internal\<close>; \<open>run_inv\<close> is the invariant of the dispatch loop, kept by
  every step (\<open>step_inv\<close>), from which the properties follow: no undefined behaviour, none of the
  interpreter's internal-error exits, finite registers, well-typed booleans, bounded frames.
\<close>

section \<open>What verification guarantees\<close>

definition code_at :: "module_info \<Rightarrow> nat \<Rightarrow> bc_instr" where
  "code_at m pc = instr_at (m_bytes m) pc"

definition instr_ok :: "module_info \<Rightarrow> nat \<Rightarrow> opcode \<Rightarrow> bool" where
  "instr_ok m pc op \<longleftrightarrow> i_op (code_at m pc) = Some op \<and> operands_valid m pc op (code_at m pc) \<and>
     target_valid m pc op (code_at m pc) \<and> (m_minor m = 2 \<longrightarrow> types_valid m pc op (code_at m pc))"

definition flow_ok ::
  "module_info \<Rightarrow> (nat \<Rightarrow> nat) \<Rightarrow> nat set \<Rightarrow> (nat \<Rightarrow> nat) \<Rightarrow> nat \<Rightarrow> opcode \<Rightarrow> bool"
where
  "flow_ok m own R rank pc op \<longleftrightarrow>
     op \<noteq> FUNCTION \<and>
     (op = JUMP \<longrightarrow> i_a (code_at m pc) \<in> R \<and> own (i_a (code_at m pc)) = own pc) \<and>
     (op = JUMP_IF_FALSE \<longrightarrow> i_b (code_at m pc) \<in> R \<and> own (i_b (code_at m pc)) = own pc) \<and>
     (op \<noteq> JUMP \<and> op \<noteq> RETURN \<longrightarrow> pc + 1 \<in> R \<and> own (pc + 1) = own pc) \<and>
     (op = CALL \<longrightarrow> rank (i_b (code_at m pc)) < rank (own pc)) \<and>
     (op = RETURN \<and> m_minor m = 2 \<longrightarrow>
        m_rtypes m ! i_a (code_at m pc) = f_ret (m_fns m ! own pc))"

definition closed_code :: "module_info \<Rightarrow> (nat \<Rightarrow> nat) \<Rightarrow> nat set \<Rightarrow> (nat \<Rightarrow> nat) \<Rightarrow> bool" where
  "closed_code m own R rank \<longleftrightarrow>
     header_size + m_count m * instruction_size \<le> length (m_bytes m) \<and>
     0 < m_regs m \<and> m_regs m \<le> max_registers \<and> length (m_fns m) \<le> max_functions \<and>
     (\<forall>pc \<in> R. pc < m_count m \<and> (1 \<le> m_minor m \<longrightarrow> own pc < length (m_fns m)) \<and>
        (\<exists>op. instr_ok m pc op \<and> flow_ok m own R rank pc op)) \<and>
     (\<forall>f < length (m_fns m). f_start (m_fns m ! f) \<in> R \<and> own (f_start (m_fns m ! f)) = f \<and>
        rank f < length (m_fns m) \<and> f_base (m_fns m ! f) + f_arity (m_fns m ! f) \<le> m_regs m)"

section \<open>The invariant of the dispatch loop\<close>

definition table_ok :: "fn_info list \<Rightarrow> run_table \<Rightarrow> bool" where
  "table_ok fns t \<longleftrightarrow> t_count t = length fns \<and> length fns \<le> max_functions \<and>
     length (t_start t) = max_functions \<and> length (t_base t) = max_functions \<and>
     length (t_arity t) = max_functions \<and>
     (\<forall>f < length fns. t_start t ! f = f_start (fns ! f) \<and> t_base t ! f = f_base (fns ! f) \<and>
        t_arity t ! f = f_arity (fns ! f))"

fun frames_ok :: "module_info \<Rightarrow> (nat \<Rightarrow> nat) \<Rightarrow> nat set \<Rightarrow> nat \<Rightarrow> (nat \<times> nat) list \<Rightarrow> bool" where
  "frames_ok m own R f [] = True"
| "frames_ok m own R f ((ret, dest) # fs) =
     (\<exists>pc \<in> R. ret = pc + 1 \<and> instr_ok m pc CALL \<and> i_a (code_at m pc) = dest \<and>
        i_b (code_at m pc) = f \<and> frames_ok m own R (own pc) fs)"

definition regs_ok :: "module_info \<Rightarrow> f64 list \<Rightarrow> bool" where
  "regs_ok m regs \<longleftrightarrow> length regs = m_regs m \<and> (\<forall>r < m_regs m. f_finite (regs ! r)) \<and>
     (m_minor m = 2 \<longrightarrow> (\<forall>r < m_regs m. m_rtypes m ! r = type_boolean \<longrightarrow> is_boolean (regs ! r)))"

definition run_inv :: "module_info \<Rightarrow> (nat \<Rightarrow> nat) \<Rightarrow> nat set \<Rightarrow> run_state \<Rightarrow> bool" where
  "run_inv m own R s \<longleftrightarrow> r_pc s \<in> R \<and> regs_ok m (r_regs s) \<and>
     frames_ok m own R (own (r_pc s)) (r_frames s)"

text \<open>The exits that a verified program may still take, and the instruction that takes them.\<close>

definition allowed_error :: "module_info \<Rightarrow> bc_limits \<Rightarrow> run_error \<Rightarrow> bool" where
  "allowed_error m lim e \<longleftrightarrow>
     (\<exists>pc < m_count m. e = StepLimit (rec_off pc) \<or>
        (e = DivisionByZero (rec_off pc) \<and> i_op (code_at m pc) = Some DIV) \<or>
        (e = NonFinite (rec_off pc) \<and> i_op (code_at m pc) \<in> Some ` {ADD, SUB, MUL, DIV}) \<or>
        (e = FrameLimit (rec_off pc) \<and> i_op (code_at m pc) = Some CALL \<and>
           lim_depth lim < length (m_fns m)))"

lemma is_boolean_bool_value: "is_boolean (bool_value b)"
  by (simp add: is_boolean_def bool_value_def f_eq_def)

lemma bool_value_finite: "f_finite (bool_value b)"
  by (simp add: bool_value_def)

lemma is_boolean_finite: "is_boolean v \<Longrightarrow> f_finite v"
proof (rule ccontr)
  assume b: "is_boolean v" and "\<not> f_finite v"
  then have "f_exp v = 2047" by (simp add: f_finite_def)
  then have "f_mag v = (2 ^ 52 + f_frac v) * 2 ^ 2046" by (simp add: f_mag_def)
  then have "2 ^ 52 * 2 ^ 2046 \<le> f_mag v" by (simp only: mult_le_mono1 le_add1)
  moreover have "(2::nat) ^ 1074 < 2 ^ 52 * 2 ^ 2046"
    unfolding power_add [symmetric] by (rule power_strict_increasing) simp_all
  ultimately have "2 ^ 1074 < f_mag v" by (rule less_le_trans [rotated])
  moreover have "f_int v = 0 \<or> f_int v = 2 ^ 1074"
    using b by (auto simp: is_boolean_def f_eq_def f_one_int)
  ultimately show False
    by (auto simp: f_int_def split: if_splits)
qed

lemma regs_ok_update:
  assumes "regs_ok m regs" and "f_finite v"
    and "m_minor m = 2 \<Longrightarrow> m_rtypes m ! r = type_boolean \<Longrightarrow> is_boolean v"
  shows "regs_ok m (regs[r := v])"
  using assms by (auto simp: regs_ok_def nth_list_update_if)

lemma closed_instr:
  assumes "closed_code m own R rank" and "pc \<in> R" and "i_op (code_at m pc) = Some op"
  shows "pc < m_count m \<and> instr_ok m pc op \<and> flow_ok m own R rank pc op \<and>
    (1 \<le> m_minor m \<longrightarrow> own pc < length (m_fns m))"
proof -
  from assms(1,2) obtain op' where "pc < m_count m" "instr_ok m pc op'" "flow_ok m own R rank pc op'"
    and "1 \<le> m_minor m \<longrightarrow> own pc < length (m_fns m)"
    unfolding closed_code_def by blast
  moreover from this assms(3) have "op' = op" by (simp add: instr_ok_def)
  ultimately show ?thesis by simp
qed

lemma call_facts:
  assumes "closed_code m own R rank" and "pc \<in> R" and "instr_ok m pc CALL"
  shows "1 \<le> m_minor m \<and> own pc < length (m_fns m) \<and> rank (i_b (code_at m pc)) < rank (own pc) \<and>
    i_b (code_at m pc) < length (m_fns m) \<and> i_a (code_at m pc) < m_regs m \<and> pc + 1 \<in> R \<and>
    own (pc + 1) = own pc"
  using closed_instr [OF assms(1,2), of CALL] assms(3)
  by (auto simp: instr_ok_def operands_valid_def flow_ok_def Let_def)

lemma frames_rank:
  assumes cc: "closed_code m own R rank"
  shows "frames_ok m own R f fs \<Longrightarrow> f < length (m_fns m) \<Longrightarrow> length fs + rank f < length (m_fns m)"
proof (induction fs arbitrary: f)
  case Nil
  then show ?case using cc by (auto simp: closed_code_def)
next
  case (Cons fr fs)
  obtain ret dest where fr: "fr = (ret, dest)" by fastforce
  from Cons.prems(1) obtain pc where pc: "pc \<in> R" "instr_ok m pc CALL" "i_b (code_at m pc) = f"
    and rest: "frames_ok m own R (own pc) fs" by (auto simp: fr)
  from call_facts [OF cc pc(1,2)] Cons.IH [OF rest] pc(3) show ?case by auto
qed

text \<open>Writing a register and going on to a successor keeps the invariant.\<close>

lemma set_reg_inv:
  assumes "run_inv m own R s" and "r < m_regs m" and "f_finite v" and "pc' \<in> R"
    and "own pc' = own (r_pc s)"
    and "m_minor m = 2 \<Longrightarrow> m_rtypes m ! r = type_boolean \<Longrightarrow> is_boolean v"
  shows "\<exists>s'. set_reg s r v pc' = Inr (Running s') \<and> run_inv m own R s'"
  using assms regs_ok_update [of m "r_regs s" v r]
  by (auto simp: set_reg_def run_inv_def regs_ok_def)

section \<open>One step\<close>

text \<open>What a step may do in a state that satisfies the invariant.\<close>

definition step_good ::
  "module_info \<Rightarrow> bc_limits \<Rightarrow> (nat \<Rightarrow> nat) \<Rightarrow> nat set \<Rightarrow> run_error + step_result \<Rightarrow> bool"
where
  "step_good m lim own R x \<longleftrightarrow>
     (case x of Inl e \<Rightarrow> allowed_error m lim e
      | Inr (Finished v) \<Rightarrow> f_finite v
      | Inr (Running s') \<Rightarrow> run_inv m own R s')"

lemma step_good_set_reg:
  assumes "run_inv m own R s" and "r < m_regs m" and "f_finite v" and "pc' \<in> R"
    and "own pc' = own (r_pc s)"
    and "m_minor m = 2 \<Longrightarrow> m_rtypes m ! r = type_boolean \<Longrightarrow> is_boolean v"
  shows "step_good m lim own R (set_reg s r v pc')"
  using set_reg_inv [OF assms] by (auto simp: step_good_def)

lemma type_tags_distinct: "type_number \<noteq> type_boolean"
  by (simp add: type_number_def type_boolean_def)

lemma step_binary:
  assumes inv: "run_inv m own R s" and pcR: "r_pc s < m_count m" and ok: "instr_ok m (r_pc s) op"
    and nxt: "r_pc s + 1 \<in> R" "own (r_pc s + 1) = own (r_pc s)"
    and bin: "op \<in> {ADD, SUB, MUL, DIV, EQ, NE, LT, LE, GT, GE}"
    and i: "i = code_at m (r_pc s)" and off: "off = rec_off (r_pc s)"
  shows "step_good m lim own R (get_reg (r_regs s) (i_b i) (\<lambda>l. get_reg (r_regs s) (i_c i) (\<lambda>r.
             if op = DIV \<and> f_eq r 0 then Inl (DivisionByZero off)
             else case binary_op op l r of
                    None \<Rightarrow> Inl (NotExecutable off)
                  | Some v \<Rightarrow> if \<not> f_finite v then Inl (NonFinite off)
                             else set_reg s (i_a i) v (r_pc s + 1))))"
proof -
  have rng: "i_a i < m_regs m" "i_b i < m_regs m" "i_c i < m_regs m"
    using ok bin by (auto simp: instr_ok_def operands_valid_def i Let_def)
  then have in_file: "i_b i < length (r_regs s)" "i_c i < length (r_regs s)"
    using inv by (auto simp: run_inv_def regs_ok_def)
  have opc: "i_op (code_at m (r_pc s)) = Some op" using ok by (simp add: instr_ok_def)
  define l where "l = r_regs s ! i_b i"
  define r where "r = r_regs s ! i_c i"
  obtain v where v: "binary_op op l r = Some v" using bin by auto
  have arith: "f_finite v \<or> op \<in> {ADD, SUB, MUL, DIV}"
    using bin v bool_value_finite by auto
  have bool: "m_minor m = 2 \<Longrightarrow> m_rtypes m ! i_a i = type_boolean \<Longrightarrow> is_boolean v"
    using bin v ok is_boolean_bool_value type_tags_distinct
    by (auto simp: instr_ok_def types_valid_def i Let_def)
  show ?thesis
  proof (cases "op = DIV \<and> f_eq r 0")
    case True
    then show ?thesis
      using in_file opc pcR by (auto simp: get_reg_def step_good_def allowed_error_def r_def off)
  next
    case False
    show ?thesis
    proof (cases "f_finite v")
      case True
      from step_good_set_reg [OF inv rng(1) True nxt bool]
      show ?thesis using in_file False v True by (auto simp: get_reg_def l_def r_def)
    next
      case nf: False
      then show ?thesis
        using in_file False v opc pcR arith
        by (auto simp: get_reg_def l_def r_def step_good_def allowed_error_def off)
    qed
  qed
qed

lemma step_return:
  assumes cc: "closed_code m own R rank" and inv: "run_inv m own R s"
    and ok: "instr_ok m (r_pc s) RETURN" and fl: "flow_ok m own R rank (r_pc s) RETURN"
    and i: "i = code_at m (r_pc s)"
  shows "step_good m lim own R (get_reg (r_regs s) (i_a i) (\<lambda>v.
             case r_frames s of
               [] \<Rightarrow> Inr (Finished v)
             | (ret, dest) # fs \<Rightarrow> set_reg (s\<lparr>r_frames := fs\<rparr>) dest v ret))"
proof -
  have a: "i_a i < m_regs m" using ok by (simp add: instr_ok_def operands_valid_def i Let_def)
  define v where "v = r_regs s ! i_a i"
  have v: "f_finite v" "i_a i < length (r_regs s)"
    using inv a by (auto simp: run_inv_def regs_ok_def v_def)
  show ?thesis
  proof (cases "r_frames s")
    case Nil
    then show ?thesis using v by (simp add: get_reg_def step_good_def v_def)
  next
    case (Cons fr fs)
    obtain ret dest where fr: "fr = (ret, dest)" by fastforce
    from inv Cons fr obtain pc where pc: "pc \<in> R" "ret = pc + 1" "instr_ok m pc CALL"
        "i_a (code_at m pc) = dest" "i_b (code_at m pc) = own (r_pc s)"
      and rest: "frames_ok m own R (own pc) fs" by (auto simp: run_inv_def)
    note call = call_facts [OF cc pc(1,3)]
    have regs: "regs_ok m (r_regs s)" using inv by (simp add: run_inv_def)
    have bool: "is_boolean v" if two: "m_minor m = 2" and ty: "m_rtypes m ! dest = type_boolean"
    proof -
      have "m_rtypes m ! dest = f_ret (m_fns m ! own (r_pc s))"
        using pc(3,4,5) two by (simp add: instr_ok_def types_valid_def Let_def)
      moreover have "m_rtypes m ! i_a i = f_ret (m_fns m ! own (r_pc s))"
        using fl two by (simp add: flow_ok_def i)
      ultimately show ?thesis
        using regs two ty a by (simp add: regs_ok_def v_def)
    qed
    have "regs_ok m ((r_regs s)[dest := v])"
      using regs_ok_update [OF regs v(1)] bool by blast
    then show ?thesis
      using call pc rest Cons fr v regs
      by (auto simp: get_reg_def set_reg_def step_good_def run_inv_def v_def [symmetric] regs_ok_def)
  qed
qed


lemma write_args_nth:
  assumes "write_args regs base args = Some regs'"
  shows "length regs' = length regs \<and>
    (\<forall>r < length regs. regs' ! r = (if base \<le> r \<and> r < base + length args then args ! (r - base) else regs ! r))"
  using assms by (auto simp: write_args_def nth_append min_def not_less split: if_splits)

lemma step_call:
  assumes cc: "closed_code m own R rank" and inv: "run_inv m own R s"
    and ok: "instr_ok m (r_pc s) CALL" and tab: "table_ok (m_fns m) t"
    and i: "i = code_at m (r_pc s)"
  shows "step_good m lim own R (run_call lim t s i)"
proof -
  have pcR: "r_pc s \<in> R" and regs: "regs_ok m (r_regs s)" using inv by (auto simp: run_inv_def)
  note call = call_facts [OF cc pcR ok]
  define f where "f = i_b i"
  define n where "n = f_to_nat (i_imm i)"
  define fi where "fi = m_fns m ! f"
  have fb: "f < length (m_fns m)" using call by (simp add: f_def i)
  have op: "n = f_arity fi" "i_c i \<le> m_regs m" "n \<le> m_regs m - i_c i"
    using ok by (auto simp: instr_ok_def operands_valid_def i f_def n_def fi_def Let_def)
  have st: "f_start fi \<in> R" "own (f_start fi) = f" "f_base fi + n \<le> m_regs m"
    using cc fb op(1) by (auto simp: closed_code_def fi_def)
  have tb: "t_count t = length (m_fns m)" "t_start t ! f = f_start fi" "t_base t ! f = f_base fi"
    "t_arity t ! f = n" "length (m_fns m) \<le> max_functions"
    using tab fb op(1) by (auto simp: table_ok_def fi_def)
  have rc: "length (r_regs s) = m_regs m" "m_regs m \<le> max_registers"
    using regs cc by (auto simp: regs_ok_def closed_code_def)
  have depth: "length (r_frames s) + rank (own (r_pc s)) < length (m_fns m)"
    using frames_rank [OF cc] inv call by (auto simp: run_inv_def)
  define args where "args = take n (drop (i_c i) (r_regs s))"
  have la: "length args = n" using op rc by (simp add: args_def)
  obtain regs' where w: "write_args (r_regs s) (f_base fi) args = Some regs'"
    using st rc la by (simp add: write_args_def)
  show ?thesis
  proof (cases "lim_depth lim \<le> length (r_frames s)")
    case True
    then have "lim_depth lim < length (m_fns m)" using depth by linarith
    then show ?thesis
      using True ok closed_instr [OF cc pcR, of CALL]
      by (auto simp: run_call_def Let_def step_good_def allowed_error_def instr_ok_def)
  next
    case False
    have hard: "length (r_frames s) < hard_call_depth"
      using depth tb(5) by (simp add: hard_call_depth_def max_functions_def)
    have rd: "read_args (r_regs s) (i_c i) n = Some args"
      using op(2,3) rc by (simp add: read_args_def args_def)
    have run: "run_call lim t s i =
      Inr (Running \<lparr>r_pc = f_start fi, r_regs = regs', r_frames = (r_pc s + 1, i_a i) # r_frames s\<rparr>)"
      using False hard fb op(2,3) st(3) tb rc w rd
      by (auto simp: run_call_def Let_def f_def [symmetric] n_def [symmetric])
    note nth = write_args_nth [OF w]
    have "regs_ok m regs'"
      unfolding regs_ok_def
    proof (intro conjI allI impI)
      show "length regs' = m_regs m" using nth rc by simp
      fix r
      assume r: "r < m_regs m"
      show "f_finite (regs' ! r)"
        using nth regs r rc la op by (auto simp: regs_ok_def args_def)
      assume two: "m_minor m = 2" and ty: "m_rtypes m ! r = type_boolean"
      show "is_boolean (regs' ! r)"
      proof (cases "f_base fi \<le> r \<and> r < f_base fi + n")
        case False
        then show ?thesis using nth regs r rc la two ty by (auto simp: regs_ok_def)
      next
        case True
        define k where "k = r - f_base fi"
        have "\<forall>k \<in> set [0..<n]. m_rtypes m ! (i_c i + k) = m_rtypes m ! (f_base fi + k)"
          using ok two unfolding instr_ok_def types_valid_def Let_def list_all_iff
          by (simp add: i [symmetric] n_def f_def fi_def)
        moreover have "k \<in> set [0..<n]" using True by (auto simp: k_def)
        ultimately have "m_rtypes m ! (i_c i + k) = m_rtypes m ! (f_base fi + k)" by blast
        moreover have "regs' ! r = r_regs s ! (i_c i + k)" "i_c i + k < m_regs m"
          using nth True la op rc r by (auto simp: args_def k_def)
        ultimately show ?thesis
          using regs two ty True by (auto simp: regs_ok_def k_def)
      qed
    qed
    then show ?thesis
      using run pcR ok inv st by (auto simp: step_good_def run_inv_def i f_def)
  qed
qed

lemma step_inv:
  assumes cc: "closed_code m own R rank" and inv: "run_inv m own R s"
    and tab: "1 \<le> m_minor m \<Longrightarrow> table_ok (m_fns m) t"
  shows "step_good m lim own R (run_step (m_bytes m) lim t (m_count m) s)"
proof -
  have pcR: "r_pc s \<in> R" and regs: "regs_ok m (r_regs s)" using inv by (auto simp: run_inv_def)
  obtain op where opc: "i_op (code_at m (r_pc s)) = Some op"
    using cc pcR by (auto simp: closed_code_def instr_ok_def)
  note ci = closed_instr [OF cc pcR opc]
  then have ok: "instr_ok m (r_pc s) op" and fl: "flow_ok m own R rank (r_pc s) op"
    and lt: "r_pc s < m_count m" by auto
  define i where "i = code_at m (r_pc s)"
  have i: "instr_at (m_bytes m) (r_pc s) = i" "i_op i = Some op"
    using opc by (simp_all add: i_def code_at_def)
  have room: "\<not> rec_off (r_pc s) + instruction_size > length (m_bytes m)"
    using cc lt by (auto simp: closed_code_def rec_off_def header_size_def instruction_size_def)
  have val: "operands_valid m (r_pc s) op i" and tyv: "m_minor m = 2 \<Longrightarrow> types_valid m (r_pc s) op i"
    using ok by (auto simp: instr_ok_def i_def)
  have len: "length (r_regs s) = m_regs m" using regs by (simp add: regs_ok_def)
  have fin: "r < m_regs m \<Longrightarrow> f_finite (r_regs s ! r)" for r using regs by (simp add: regs_ok_def)
  have nxt: "op \<noteq> JUMP \<Longrightarrow> op \<noteq> RETURN \<Longrightarrow> r_pc s + 1 \<in> R"
    "op \<noteq> JUMP \<Longrightarrow> op \<noteq> RETURN \<Longrightarrow> own (r_pc s + 1) = own (r_pc s)"
    using fl by (auto simp: flow_ok_def)
  note step = run_step_def [of "m_bytes m" lim t "m_count m" s, unfolded Let_def i(1)]
  consider (const) "op = CONST_F64 \<or> op = CONST_BOOL" | (move) "op = MOVE" | (neg) "op = NEG"
    | (jump) "op = JUMP" | (jif) "op = JUMP_IF_FALSE" | (ret) "op = RETURN" | (call) "op = CALL"
    | (bin) "op \<in> {ADD, SUB, MUL, DIV, EQ, NE, LT, LE, GT, GE}"
    using fl by (cases op) (auto simp: flow_ok_def)
  then show ?thesis
  proof cases
    case const
    have "step_good m lim own R (set_reg s (i_a i) (i_imm i) (r_pc s + 1))"
    proof (rule step_good_set_reg [OF inv])
      show "i_a i < m_regs m" using const val by (auto simp: operands_valid_def Let_def)
      show "f_finite (i_imm i)"
        using const val by (auto simp: operands_valid_def is_boolean_finite Let_def)
      show "r_pc s + 1 \<in> R" "own (r_pc s + 1) = own (r_pc s)" using const nxt by auto
      show "m_minor m = 2 \<Longrightarrow> m_rtypes m ! i_a i = type_boolean \<Longrightarrow> is_boolean (i_imm i)"
        using const val tyv type_tags_distinct by (auto simp: operands_valid_def types_valid_def Let_def)
    qed
    then show ?thesis using const i(2) room by (auto simp: step)
  next
    case move
    have "step_good m lim own R (set_reg s (i_a i) (r_regs s ! i_b i) (r_pc s + 1))"
    proof (rule step_good_set_reg [OF inv])
      show "i_a i < m_regs m" using move val by (auto simp: operands_valid_def Let_def)
      show "f_finite (r_regs s ! i_b i)" using move val fin by (auto simp: operands_valid_def Let_def)
      show "r_pc s + 1 \<in> R" "own (r_pc s + 1) = own (r_pc s)" using move nxt by auto
      show "m_minor m = 2 \<Longrightarrow> m_rtypes m ! i_a i = type_boolean \<Longrightarrow> is_boolean (r_regs s ! i_b i)"
        using move val tyv regs by (auto simp: operands_valid_def types_valid_def regs_ok_def Let_def)
    qed
    then show ?thesis
      using move i(2) room val len by (auto simp: step get_reg_def operands_valid_def Let_def)
  next
    case neg
    have "step_good m lim own R (set_reg s (i_a i) (f_neg (r_regs s ! i_b i)) (r_pc s + 1))"
    proof (rule step_good_set_reg [OF inv])
      show "i_a i < m_regs m" using neg val by (auto simp: operands_valid_def Let_def)
      show "f_finite (f_neg (r_regs s ! i_b i))" using neg val fin by (auto simp: operands_valid_def Let_def)
      show "r_pc s + 1 \<in> R" "own (r_pc s + 1) = own (r_pc s)" using neg nxt by auto
      show "m_minor m = 2 \<Longrightarrow> m_rtypes m ! i_a i = type_boolean \<Longrightarrow> is_boolean (f_neg (r_regs s ! i_b i))"
        using neg tyv type_tags_distinct by (auto simp: types_valid_def Let_def)
    qed
    then show ?thesis
      using neg i(2) room val len fin by (auto simp: step get_reg_def operands_valid_def Let_def)
  next
    case jump
    then show ?thesis
      using i fl room inv by (auto simp: step step_good_def run_inv_def flow_ok_def i_def)
  next
    case jif
    then show ?thesis
      using i fl room inv val len
      by (auto simp: step step_good_def run_inv_def flow_ok_def i_def get_reg_def operands_valid_def Let_def)
  next
    case ret
    from step_return [OF cc inv, of i lim] ok fl ret i_def show ?thesis
      using i(2) room by (simp add: step)
  next
    case call
    with call_facts [OF cc pcR] ok have "1 \<le> m_minor m" by blast
    from step_call [OF cc inv _ tab [OF this] i_def, of lim] ok call show ?thesis
      using i(2) room by (simp add: step)
  next
    case bin
    then have "op \<noteq> JUMP" "op \<noteq> RETURN" by auto
    note sb = step_binary [OF inv lt ok nxt(1) [OF this] nxt(2) [OF this] bin i_def refl, of lim]
    show ?thesis
      using i(2) room bin sb by (elim insertE; simp add: step cong: if_cong)
  qed
qed

end
