(* ===== verification/BytecodeSafety.thy ===== *)
theory BytecodeSafety
  imports BytecodeSound
begin

text \<open>
  From \<open>verify_internal\<close> to \<open>closed_code\<close>, phase by phase, and the safety properties of
  \<open>milena_bytecode_run\<close>.
\<close>

section \<open>Function tables\<close>

definition fn_sig :: "fn_info \<Rightarrow> nat \<times> nat \<times> nat \<times> nat" where
  "fn_sig f = (f_start f, f_end f, f_base f, f_arity f)"

definition run_sig :: "fn_info \<Rightarrow> nat \<times> nat \<times> nat" where
  "run_sig f = (f_start f, f_base f, f_arity f)"

lemma run_sig_map: "map fn_sig fs = map fn_sig gs \<Longrightarrow> map run_sig fs = map run_sig gs"
  by (auto simp: list_eq_iff_nth_eq fn_sig_def run_sig_def)

lemma table_ok_sig:
  assumes "map run_sig fs = map run_sig gs"
  shows "table_ok fs t = table_ok gs t"
proof -
  have len: "length fs = length gs" using assms by (rule map_eq_imp_length_eq)
  have "f < length fs \<Longrightarrow> f_start (fs ! f) = f_start (gs ! f) \<and> f_base (fs ! f) = f_base (gs ! f) \<and>
      f_arity (fs ! f) = f_arity (gs ! f)" for f
    using assms len by (auto simp: list_eq_iff_nth_eq run_sig_def)
  then show ?thesis using len unfolding table_ok_def by auto
qed

lemma close_last_sig: "map run_sig (close_last pc fns) = map run_sig fns"
  by (cases fns rule: rev_cases) (auto simp: close_last_def run_sig_def list_update_append)

lemma length_close_last [simp]: "length (close_last pc fns) = length fns"
  by (simp add: close_last_def)

definition fns_ok :: "nat \<Rightarrow> nat \<Rightarrow> fn_info list \<Rightarrow> bool" where
  "fns_ok regs n fns \<longleftrightarrow> length fns \<le> max_functions \<and>
     (\<forall>f \<in> set fns. f_base f + f_arity f \<le> regs \<and> f_end f \<le> n)"

lemma fns_ok_close: "fns_ok regs n fns \<Longrightarrow> pc \<le> n \<Longrightarrow> fns_ok regs n (close_last pc fns)"
  by (cases fns rule: rev_cases) (auto simp: close_last_def fns_ok_def list_update_append)

text \<open>The verifier's scan and the interpreter's table agree, record by record.\<close>

lemma scan_build:
  "scan_functions bs regs n pcs fns = Inr fns' \<Longrightarrow> table_ok fns t \<Longrightarrow>
   \<exists>t'. build_table bs pcs t = Inr t' \<and> table_ok fns' t'"
proof (induction pcs arbitrary: fns t)
  case Nil
  then show ?case by simp
next
  case (Cons pc pcs)
  define i where "i = instr_at bs pc"
  show ?case
  proof (cases "i_op i = Some FUNCTION")
    case False
    then show ?thesis using Cons by (simp add: i_def Let_def)
  next
    case True
    define g where "g = \<lparr>f_start = pc + 1, f_end = n, f_base = i_b i, f_arity = i_c i, f_ret = 0\<rparr>"
    from Cons.prems(1) True have ok: "length fns < max_functions" "i_a i = length fns"
      and rest: "scan_functions bs regs n pcs (close_last pc fns @ [g]) = Inr fns'"
      by (auto simp: i_def [symmetric] Let_def g_def split: if_splits)
    define u where "u = t\<lparr>t_start := (t_start t)[i_a i := pc + 1], t_base := (t_base t)[i_a i := i_b i],
        t_arity := (t_arity t)[i_a i := i_c i], t_count := (if t_count t \<le> i_a i then i_a i + 1 else t_count t)\<rparr>"
    have "table_ok (close_last pc fns) t"
      using Cons.prems(2) table_ok_sig [OF close_last_sig] by blast
    then have "table_ok (close_last pc fns @ [g]) u"
      using ok by (auto simp: table_ok_def u_def g_def nth_append nth_list_update)
    from Cons.IH [OF rest this] show ?thesis
      using True ok by (simp add: i_def [symmetric] Let_def u_def)
  qed
qed

lemma scan_ok:
  "scan_functions bs regs n pcs fns = Inr fns' \<Longrightarrow> fns_ok regs n fns \<Longrightarrow> set pcs \<subseteq> {..<n} \<Longrightarrow>
   fns_ok regs n fns'"
proof (induction pcs arbitrary: fns)
  case Nil
  then show ?case by simp
next
  case (Cons pc pcs)
  define i where "i = instr_at bs pc"
  show ?case
  proof (cases "i_op i = Some FUNCTION")
    case False
    then show ?thesis using Cons by (simp add: i_def Let_def)
  next
    case True
    define g where "g = \<lparr>f_start = pc + 1, f_end = n, f_base = i_b i, f_arity = i_c i, f_ret = 0\<rparr>"
    from Cons.prems(1) True have ok: "length fns < max_functions" "i_b i + i_c i \<le> regs"
      and rest: "scan_functions bs regs n pcs (close_last pc fns @ [g]) = Inr fns'"
      by (auto simp: i_def [symmetric] Let_def g_def split: if_splits)
    have "fns_ok regs n (close_last pc fns)"
      using Cons.prems(2,3) by (intro fns_ok_close) auto
    then have "fns_ok regs n (close_last pc fns @ [g])"
      using ok by (auto simp: fns_ok_def g_def)
    from Cons.IH [OF rest this] Cons.prems(3) show ?thesis by simp
  qed
qed

lemma check_bodies_ok: "check_bodies fns = Inr u \<Longrightarrow> f \<in> set fns \<Longrightarrow> f_start f < f_end f"
  by (induction fns) (auto split: if_splits)

lemma empty_table_ok: "table_ok [] empty_table"
  by (simp add: table_ok_def empty_table_def)

text \<open>What the second phase leaves, for v1.1 and later.\<close>

definition table_facts :: "bytes \<Rightarrow> nat \<Rightarrow> nat \<Rightarrow> fn_info list \<Rightarrow> bool" where
  "table_facts bs regs n fns \<longleftrightarrow> fns \<noteq> [] \<and> fns_ok regs n fns \<and>
     (\<forall>f \<in> set fns. f_start f < f_end f) \<and>
     (\<exists>t. build_table bs [0..<n] empty_table = Inr t \<and> table_ok fns t)"

lemma verify_functions_facts:
  assumes "verify_functions mem bs minor regs n = Inr (fns, owner)" and "1 \<le> minor"
  shows "table_facts bs regs n fns"
proof -
  from assms have scan: "scan_functions bs regs n [0..<n] [] = Inr fns"
    and ne: "fns \<noteq> []" and body: "check_bodies fns = Inr ()"
    by (auto simp: verify_functions_def split: if_splits sum.splits)
  have "fns_ok regs n []" by (simp add: fns_ok_def)
  with scan have "fns_ok regs n fns" by (rule scan_ok) auto
  moreover have "\<exists>t. build_table bs [0..<n] empty_table = Inr t \<and> table_ok fns t"
    using scan empty_table_ok by (rule scan_build)
  ultimately show ?thesis
    using ne body check_bodies_ok by (auto simp: table_facts_def)
qed

lemma verify_functions_legacy: "verify_functions mem bs 0 regs n = Inr (fns, owner) \<Longrightarrow> fns = []"
  by (simp add: verify_functions_def)

lemma set_return_types_sig:
  "length rts = length fns \<Longrightarrow> map fn_sig (set_return_types fns rts) = map fn_sig fns"
  by (auto simp: set_return_types_def list_eq_iff_nth_eq fn_sig_def)

lemma table_facts_sig:
  assumes sig: "map fn_sig fns = map fn_sig fns0" and tf: "table_facts bs regs n fns0"
  shows "table_facts bs regs n fns"
proof -
  have len: "length fns = length fns0" using sig by (rule map_eq_imp_length_eq)
  have same: "\<exists>g \<in> set fns0. fn_sig f = fn_sig g" if "f \<in> set fns" for f
    using that sig len by (metis in_set_conv_nth nth_map)
  have "f_base f + f_arity f \<le> regs \<and> f_end f \<le> n \<and> f_start f < f_end f" if "f \<in> set fns" for f
    using same [OF that] tf by (auto simp: table_facts_def fns_ok_def fn_sig_def)
  moreover have "table_ok fns t = table_ok fns0 t" for t
    by (rule table_ok_sig, rule run_sig_map, rule sig)
  ultimately show ?thesis
    using tf len by (auto simp: table_facts_def fns_ok_def)
qed

lemma verify_types_sig:
  assumes "verify_types bs minor regs n fns0 = Inr (fns, rts)"
  shows "map fn_sig fns = map fn_sig fns0"
proof (cases "minor = 2")
  case True
  define meta where "meta = header_size + n * instruction_size"
  from assms True have "fns = set_return_types fns0 (map unat (peek (meta + regs) (length fns0) bs))"
    and "milena_bytecode_typed_encoded_size n regs (length fns0) = Some (length bs)"
    by (auto simp: verify_types_def Let_def meta_def split: if_splits sum.splits)
  moreover from this(2) have "length bs = meta + regs + length fns0"
    by (simp add: typed_encoded_size_Some meta_def header_size_def instruction_size_def)
  ultimately show ?thesis by (simp add: set_return_types_sig length_peek)
next
  case False
  then show ?thesis using assms by (simp add: verify_types_def)
qed

section \<open>Instruction checks\<close>

lemma check_instr_ok:
  assumes "check_instr m pc E = Inr E'"
  shows "\<exists>op. instr_ok m pc op \<and> (op = CALL \<longrightarrow> E' (m_owner m ! pc) (i_b (code_at m pc))) \<and>
    (\<forall>f g. E f g \<longrightarrow> E' f g)"
proof -
  define i where "i = instr_at (m_bytes m) pc"
  from assms obtain op where op: "i_op i = Some op"
    by (auto simp: check_instr_def Let_def i_def split: if_splits option.splits)
  have "check_instr m pc E = Inr E' \<Longrightarrow> operands_valid m pc op i \<and> target_valid m pc op i \<and>
    (m_minor m = 2 \<longrightarrow> types_valid m pc op i) \<and>
    E' = (if op = CALL then E(m_owner m ! pc := (E (m_owner m ! pc))(i_b i := True)) else E)"
    using op by (auto simp: check_instr_def Let_def i_def [symmetric] split: if_splits)
  with assms op show ?thesis
    by (auto simp: instr_ok_def code_at_def i_def)
qed

lemma check_instrs_ok:
  "check_instrs m pcs E = Inr E' \<Longrightarrow>
   (\<forall>f g. E f g \<longrightarrow> E' f g) \<and>
   (\<forall>pc \<in> set pcs. \<exists>op. instr_ok m pc op \<and> (op = CALL \<longrightarrow> E' (m_owner m ! pc) (i_b (code_at m pc))))"
proof (induction pcs arbitrary: E)
  case Nil
  then show ?case by simp
next
  case (Cons pc pcs)
  then obtain E1 where one: "check_instr m pc E = Inr E1" and rest: "check_instrs m pcs E1 = Inr E'"
    by (auto split: sum.splits)
  obtain op where op: "instr_ok m pc op" "op = CALL \<longrightarrow> E1 (m_owner m ! pc) (i_b (code_at m pc))"
    and grow: "\<forall>f g. E f g \<longrightarrow> E1 f g"
    using check_instr_ok [OF one] by blast
  note IH = Cons.IH [OF rest]
  show ?case
  proof
    show "\<forall>f g. E f g \<longrightarrow> E' f g" using grow IH by simp
    show "\<forall>pc \<in> set (pc # pcs). \<exists>op. instr_ok m pc op \<and>
        (op = CALL \<longrightarrow> E' (m_owner m ! pc) (i_b (code_at m pc)))"
      using op IH by (auto intro!: exI [of _ op])
  qed
qed

section \<open>Walks\<close>

lemma walk_functions_ok:
  "walk_functions m fs = Inr u \<Longrightarrow> f \<in> set fs \<Longrightarrow>
   \<exists>v r. walk_from m (visit_fn m f) (f_start (m_fns m ! f)) = Inr (v, r)"
  by (induction fs) (auto split: sum.splits if_splits)

lemma settled_fn:
  assumes "settled (visit_fn m f) v pc" and "length v = m_count m" and "instr_ok m pc op"
  shows "m_owner m ! pc = f \<and> op \<noteq> FUNCTION \<and>
    (op = JUMP \<longrightarrow> i_a (code_at m pc) < m_count m \<and> v ! i_a (code_at m pc) \<and>
       m_owner m ! i_a (code_at m pc) = f) \<and>
    (op = JUMP_IF_FALSE \<longrightarrow> i_b (code_at m pc) < m_count m \<and> v ! i_b (code_at m pc) \<and>
       m_owner m ! i_b (code_at m pc) = f) \<and>
    (op \<noteq> JUMP \<and> op \<noteq> RETURN \<longrightarrow> pc + 1 < m_count m \<and> v ! (pc + 1) \<and> m_owner m ! (pc + 1) = f)"
  using assms
  by (auto simp: settled_def visit_fn_def instr_ok_def code_at_def Let_def not_le not_less
      split: if_splits)

lemma settled_legacy:
  assumes "settled (visit_legacy m) v pc" and "length v = m_count m" and "instr_ok m pc op"
    and "pc < m_count m" and "m_minor m = 0"
  shows "op \<noteq> FUNCTION \<and> op \<noteq> CALL \<and>
    (op = JUMP \<longrightarrow> i_a (code_at m pc) < m_count m \<and> v ! i_a (code_at m pc)) \<and>
    (op = JUMP_IF_FALSE \<longrightarrow> i_b (code_at m pc) < m_count m \<and> v ! i_b (code_at m pc)) \<and>
    (op \<noteq> JUMP \<and> op \<noteq> RETURN \<longrightarrow> pc + 1 < m_count m \<and> v ! (pc + 1))"
  using assms
  by (auto simp: settled_def visit_legacy_def instr_ok_def code_at_def operands_valid_def Let_def
      split: if_splits)


section \<open>Verified modules are closed\<close>

lemma verify_header_facts:
  assumes "verify_header input lim = Inr (minor, regs, n)"
  shows "\<exists>bs. input = Some bs \<and> header_size + n * instruction_size \<le> length bs \<and> 0 < regs \<and>
    regs \<le> max_registers \<and> 0 < n \<and> n \<le> max_instructions \<and> minor \<le> 2 \<and>
    regs \<le> lim_registers lim \<and> n \<le> lim_instructions lim \<and> length bs \<le> lim_bytes lim"
  using assms
  by (auto simp: verify_header_def Let_def not_less split: option.splits if_splits)

lemma verify_internal_phases:
  assumes "verify_internal mem input lim = Inr m"
  shows "\<exists>fns0 E. input = Some (m_bytes m) \<and>
    verify_header input lim = Inr (m_minor m, m_regs m, m_count m) \<and>
    verify_functions mem (m_bytes m) (m_minor m) (m_regs m) (m_count m) = Inr (fns0, m_owner m) \<and>
    verify_types (m_bytes m) (m_minor m) (m_regs m) (m_count m) fns0 = Inr (m_fns m, m_rtypes m) \<and>
    check_instrs m [0..<m_count m] (\<lambda>_ _. False) = Inr E \<and>
    (if 1 \<le> m_minor m then verify_calls mem m E else verify_legacy mem m) = Inr ()"
proof -
  from assms obtain p1 where h: "verify_header input lim = Inr p1"
    by (auto simp: verify_internal_def case_sum_Inr_iff)
  obtain minor regs n where p1: "p1 = (minor, regs, n)" by (cases p1)
  note d1 = assms [unfolded verify_internal_def h p1 sum.case prod.case Let_def]
  then obtain p2 where f: "verify_functions mem (the input) minor regs n = Inr p2"
    by (auto simp: case_sum_Inr_iff)
  obtain fns0 owner where p2: "p2 = (fns0, owner)" by (cases p2)
  note d2 = d1 [unfolded f p2 sum.case prod.case]
  then obtain p3 where t: "verify_types (the input) minor regs n fns0 = Inr p3"
    by (auto simp: case_sum_Inr_iff)
  obtain fns rts where p3: "p3 = (fns, rts)" by (cases p3)
  define m' where "m' = \<lparr>m_bytes = the input, m_minor = minor, m_regs = regs, m_count = n,
      m_fns = fns, m_owner = owner, m_rtypes = rts\<rparr>"
  note d3 = d2 [unfolded t p3 sum.case prod.case, folded m'_def, unfolded case_sum_Inr_iff]
  then obtain E where c: "check_instrs m' [0..<n] (\<lambda>_ _. False) = Inr E"
    and w: "(if 1 \<le> minor then verify_calls mem m' E else verify_legacy mem m') = Inr ()"
    and m: "m' = m" by auto
  have fields: "m_minor m = minor" "m_regs m = regs" "m_count m = n" "m_fns m = fns"
    "m_owner m = owner" "m_rtypes m = rts" "m_bytes m = the input"
    unfolding m [symmetric] m'_def by simp_all
  have inp: "input = Some (the input)"
    using verify_header_facts [OF h [unfolded p1]] by fastforce
  show ?thesis
    unfolding fields
    using inp h [unfolded p1] f [unfolded p2] t [unfolded p3] c [unfolded m] w [unfolded m] by blast
qed

definition entry_pc :: "module_info \<Rightarrow> nat" where
  "entry_pc m = (if 1 \<le> m_minor m then f_start (m_fns m ! 0) else 0)"

lemma verified_closed_calls:
  assumes v: "verify_internal mem input lim = Inr m" and minor: "1 \<le> m_minor m"
  shows "\<exists>own R rank. closed_code m own R rank \<and> entry_pc m \<in> R \<and>
    (\<exists>t. build_table (m_bytes m) [0..<m_count m] empty_table = Inr t \<and> table_ok (m_fns m) t \<and>
       m_fns m \<noteq> [])"
proof -
  let ?len = "length (m_fns m)"
  from verify_internal_phases [OF v] obtain fns0 E where
    h: "verify_header input lim = Inr (m_minor m, m_regs m, m_count m)" and inp: "input = Some (m_bytes m)" and
    f: "verify_functions mem (m_bytes m) (m_minor m) (m_regs m) (m_count m) = Inr (fns0, m_owner m)" and
    t: "verify_types (m_bytes m) (m_minor m) (m_regs m) (m_count m) fns0 = Inr (m_fns m, m_rtypes m)" and
    c: "check_instrs m [0..<m_count m] (\<lambda>_ _. False) = Inr E" and
    w: "verify_calls mem m E = Inr ()" using minor by auto
  have tf: "table_facts (m_bytes m) (m_regs m) (m_count m) (m_fns m)"
    using table_facts_sig [OF verify_types_sig [OF t] verify_functions_facts [OF f minor]] .
  have instr: "\<exists>op. instr_ok m pc op \<and> (op = CALL \<longrightarrow> E (m_owner m ! pc) (i_b (code_at m pc)))"
    if "pc < m_count m" for pc
    using check_instrs_ok [OF c] that by auto
  obtain col where d: "dfs_roots E ?len [0..<?len] (\<lambda>_. 0) = Inr col"
    and wf: "walk_functions m [0..<?len] = Inr ()"
    using w by (auto simp: verify_calls_def split: sum.splits if_splits)
  from dfs_ranking [OF d] obtain rank where
    rank: "\<forall>u < ?len. rank u < ?len \<and> (\<forall>v < ?len. E u v \<longrightarrow> rank v < rank u)" by blast
  have start: "f_start (m_fns m ! g) < m_count m" if "g < ?len" for g
  proof -
    from that have "m_fns m ! g \<in> set (m_fns m)" by (rule nth_mem)
    then have "f_start (m_fns m ! g) < f_end (m_fns m ! g)" "f_end (m_fns m ! g) \<le> m_count m"
      using tf by (auto simp: table_facts_def fns_ok_def)
    then show ?thesis by simp
  qed
  have "\<exists>v. length v = m_count m \<and> v ! f_start (m_fns m ! g) \<and>
      (\<forall>pc < m_count m. v ! pc \<longrightarrow> settled (visit_fn m g) v pc)" if "g < ?len" for g
    using walk_functions_ok [OF wf, of g] walk_from_closed start [OF that] that by fastforce
  then obtain V where V: "\<And>g. g < ?len \<Longrightarrow> length (V g) = m_count m \<and> V g ! f_start (m_fns m ! g) \<and>
      (\<forall>pc < m_count m. V g ! pc \<longrightarrow> settled (visit_fn m g) (V g) pc)"
    by metis
  define R where "R = {pc. pc < m_count m \<and> (\<exists>g < ?len. V g ! pc)}"
  define own where "own = (\<lambda>pc. m_owner m ! pc)"
  have own: "own pc = g" if "g < ?len" "pc < m_count m" "V g ! pc" for g pc
    using instr [OF that(2)] V [OF that(1)] settled_fn [of m g "V g" pc] that by (auto simp: own_def)
  have node: "pc < m_count m \<and> (1 \<le> m_minor m \<longrightarrow> own pc < ?len) \<and>
      (\<exists>op. instr_ok m pc op \<and> flow_ok m own R rank pc op)" if pc: "pc \<in> R" for pc
  proof -
    from pc obtain g where g: "pc < m_count m" "g < ?len" "V g ! pc" by (auto simp: R_def)
    from instr [OF g(1)] obtain op where op: "instr_ok m pc op"
      "op = CALL \<longrightarrow> E (m_owner m ! pc) (i_b (code_at m pc))" by blast
    have se: "settled (visit_fn m g) (V g) pc" and lv: "length (V g) = m_count m"
      using V [OF g(2)] g by auto
    note sf = settled_fn [OF se lv op(1)]
    have callee: "op = CALL \<Longrightarrow> i_b (code_at m pc) < ?len"
      using op(1) by (auto simp: instr_ok_def operands_valid_def Let_def)
    have "flow_ok m own R rank pc op"
      using sf op callee rank g own [OF g(2,1,3)]
      by (auto simp: flow_ok_def R_def own_def instr_ok_def types_valid_def Let_def)
    then show ?thesis using g op own [OF g(2,1,3)] by blast
  qed
  have fns: "f_start (m_fns m ! g) \<in> R \<and> own (f_start (m_fns m ! g)) = g \<and> rank g < ?len \<and>
      f_base (m_fns m ! g) + f_arity (m_fns m ! g) \<le> m_regs m" if "g < ?len" for g
    using start [OF that] V [OF that] own [OF that] rank tf that
    by (auto simp: R_def table_facts_def fns_ok_def)
  have "closed_code m own R rank"
    using verify_header_facts [OF h] inp node fns tf
    by (auto simp: closed_code_def table_facts_def fns_ok_def)
  moreover have "entry_pc m \<in> R" using fns [of 0] tf minor by (simp add: entry_pc_def table_facts_def)
  moreover have "\<exists>t. build_table (m_bytes m) [0..<m_count m] empty_table = Inr t \<and>
      table_ok (m_fns m) t \<and> m_fns m \<noteq> []"
    using tf by (auto simp: table_facts_def)
  ultimately show ?thesis by blast
qed

lemma verified_closed_legacy:
  assumes v: "verify_internal mem input lim = Inr m" and minor: "m_minor m = 0"
  shows "\<exists>own R rank. closed_code m own R rank \<and> entry_pc m \<in> R"
proof -
  from verify_internal_phases [OF v] obtain fns0 E where
    h: "verify_header input lim = Inr (m_minor m, m_regs m, m_count m)" and inp: "input = Some (m_bytes m)" and
    f: "verify_functions mem (m_bytes m) (m_minor m) (m_regs m) (m_count m) = Inr (fns0, m_owner m)" and
    t: "verify_types (m_bytes m) (m_minor m) (m_regs m) (m_count m) fns0 = Inr (m_fns m, m_rtypes m)" and
    c: "check_instrs m [0..<m_count m] (\<lambda>_ _. False) = Inr E" and
    w: "verify_legacy mem m = Inr ()" using minor by auto
  have no_fns: "m_fns m = []"
    using f t minor by (simp add: verify_functions_def verify_types_def)
  obtain v r where wk: "walk_from m (visit_legacy m) 0 = Inr (v, r)"
    using w by (auto simp: verify_legacy_def split: sum.splits if_splits)
  have pos: "0 < m_count m" using verify_header_facts [OF h] by blast
  note cl = walk_from_closed [OF wk pos]
  define R where "R = {pc. pc < m_count m \<and> v ! pc}"
  have node: "pc < m_count m \<and> (\<exists>op. instr_ok m pc op \<and> flow_ok m (\<lambda>_. 0) R (\<lambda>_. 0) pc op)"
    if pc: "pc \<in> R" for pc
  proof -
    have lt: "pc < m_count m" and se: "settled (visit_legacy m) v pc" and lv: "length v = m_count m"
      using pc cl by (auto simp: R_def)
    have "pc \<in> set [0..<m_count m]" using lt by simp
    then obtain op where op: "instr_ok m pc op" using check_instrs_ok [OF c] by blast
    note sl = settled_legacy [OF se lv op lt minor]
    have "flow_ok m (\<lambda>_. 0) R (\<lambda>_. 0) pc op"
      using sl minor by (auto simp: flow_ok_def R_def)
    then show ?thesis using lt op by blast
  qed
  then have "closed_code m (\<lambda>_. 0) R (\<lambda>_. 0)"
    using verify_header_facts [OF h] inp no_fns minor by (auto simp: closed_code_def)
  moreover have "entry_pc m \<in> R" using cl pos minor by (simp add: R_def entry_pc_def)
  ultimately show ?thesis by blast
qed

section \<open>The dispatch loop\<close>

definition outcome_ok :: "module_info \<Rightarrow> bc_limits \<Rightarrow> run_error + f64 \<Rightarrow> bool" where
  "outcome_ok m lim x \<longleftrightarrow>
     (case x of Inr v \<Rightarrow> f_finite v | Inl e \<Rightarrow> e = NoRegisters \<or> allowed_error m lim e)"

lemma run_loop_ok:
  assumes cc: "closed_code m own R rank" and tab: "1 \<le> m_minor m \<Longrightarrow> table_ok (m_fns m) t"
  shows "run_inv m own R s \<Longrightarrow> outcome_ok m lim (run_loop (m_bytes m) lim t (m_count m) fuel s)"
proof (induction fuel arbitrary: s)
  case 0
  then have "r_pc s < m_count m" using cc by (auto simp: run_inv_def closed_code_def)
  then show ?case
    by (auto simp: run_loop.simps [of _ _ _ _ 0] outcome_ok_def allowed_error_def)
next
  case (Suc fuel)
  then have lt: "r_pc s < m_count m" using cc by (auto simp: run_inv_def closed_code_def)
  have sg: "step_good m lim own R (run_step (m_bytes m) lim t (m_count m) s)"
    using cc Suc.prems tab by (rule step_inv)
  consider (err) e where "run_step (m_bytes m) lim t (m_count m) s = Inl e"
    | (fin) v where "run_step (m_bytes m) lim t (m_count m) s = Inr (Finished v)"
    | (run) s' where "run_step (m_bytes m) lim t (m_count m) s = Inr (Running s')"
    by (metis sum.exhaust step_result.exhaust)
  then show ?case
  proof cases
    case run
    then have "run_inv m own R s'" using sg by (simp add: step_good_def)
    then show ?thesis using Suc.IH lt run by (simp add: run_loop.simps [of _ _ _ _ "Suc fuel"])
  qed (use lt sg in \<open>auto simp: run_loop.simps [of _ _ _ _ "Suc fuel"] outcome_ok_def step_good_def\<close>)
qed

lemma run_setup_ok:
  assumes v: "verify_internal mem input lim = Inr m"
  shows "\<exists>t s own R rank. run_setup m = Inr (t, s) \<and> closed_code m own R rank \<and> run_inv m own R s \<and>
    (1 \<le> m_minor m \<longrightarrow> table_ok (m_fns m) t)"
proof -
  define s0 where "s0 = \<lparr>r_pc = 0, r_regs = replicate (m_regs m) (0 :: f64), r_frames = []\<rparr>"
  have start: "run_inv m own R (s0\<lparr>r_pc := entry_pc m\<rparr>)" if "entry_pc m \<in> R" for own R
    using that by (auto simp: run_inv_def s0_def regs_ok_def is_boolean_def f_eq_def)
  show ?thesis
  proof (cases "1 \<le> m_minor m")
    case True
    obtain own R rank t where cc: "closed_code m own R rank" "entry_pc m \<in> R" and
      bt: "build_table (m_bytes m) [0..<m_count m] empty_table = Inr t" and
      tab: "table_ok (m_fns m) t" and ne: "m_fns m \<noteq> []"
      using verified_closed_calls [OF v True] by blast
    have t0: "t_start t ! 0 = entry_pc m" "t_count t \<noteq> 0"
      using tab ne True by (auto simp: table_ok_def entry_pc_def)
    have "run_setup m = Inr (t, s0\<lparr>r_pc := entry_pc m\<rparr>)"
      using True t0 bt by (simp add: run_setup_def s0_def)
    then show ?thesis using cc start [OF cc(2)] tab by blast
  next
    case False
    then have z: "m_minor m = 0" by simp
    obtain own R rank where cc: "closed_code m own R rank" "entry_pc m \<in> R"
      using verified_closed_legacy [OF v z] by blast
    have "run_setup m = Inr (empty_table, s0\<lparr>r_pc := entry_pc m\<rparr>)"
      using z by (simp add: run_setup_def s0_def entry_pc_def)
    then show ?thesis using cc start [OF cc(2)] False by blast
  qed
qed

lemma run_verified_ok:
  assumes v: "verify_internal mem input lim = Inr m"
  shows "outcome_ok m lim (run_verified lim mem m)"
proof -
  obtain t s own R rank where "run_setup m = Inr (t, s)" "closed_code m own R rank" "run_inv m own R s"
    "1 \<le> m_minor m \<longrightarrow> table_ok (m_fns m) t"
    using run_setup_ok [OF v] by blast
  then show ?thesis
    using run_loop_ok [of m own R rank t s lim "lim_steps lim"]
    by (auto simp: run_verified_def outcome_ok_def)
qed

end
