(* ===== verification/BytecodeProps.thy ===== *)
theory BytecodeProps
  imports BytecodeSafety
begin

text \<open>
  The properties of the scalar bytecode verifier and interpreter, with a small v1.2 module (two
  functions, one call, a boolean register) on which they are instantiated.
\<close>

section \<open>An example module\<close>

definition demo_bytes :: bytes where
  "demo_bytes = [77,76,66,67, 1,0, 2,0, 3,0, 0,0, 6,0,0,0,
     17,0,0,0, 0,0,0,0, 0,0,0,0, 0,0,0,0, 0,0,0,0,0,0,0,0,
     1,0,0,0, 0,0,0,0, 0,0,0,0, 0,0,0,0, 0,0,0,0,0,0,0xF0,0x3F,
     18,0,0,0, 1,0,0,0, 1,0,0,0, 0,0,0,0, 0,0,0,0,0,0,0xF0,0x3F,
     16,0,0,0, 1,0,0,0, 0,0,0,0, 0,0,0,0, 0,0,0,0,0,0,0,0,
     17,0,0,0, 1,0,0,0, 0,0,0,0, 1,0,0,0, 0,0,0,0,0,0,0,0,
     16,0,0,0, 0,0,0,0, 0,0,0,0, 0,0,0,0, 0,0,0,0,0,0,0,0,
     1,1,2, 1,1]"

lemma demo_instr:
  "instr_at demo_bytes 0 = \<lparr>i_op = Some FUNCTION, i_reserved = False, i_a = 0, i_b = 0, i_c = 0, i_imm = 0\<rparr>"
  "instr_at demo_bytes (Suc 0) = \<lparr>i_op = Some CONST_F64, i_reserved = False, i_a = 0, i_b = 0, i_c = 0, i_imm = f_one\<rparr>"
  "instr_at demo_bytes 2 = \<lparr>i_op = Some CALL, i_reserved = False, i_a = 1, i_b = 1, i_c = 0, i_imm = f_one\<rparr>"
  "instr_at demo_bytes 3 = \<lparr>i_op = Some RETURN, i_reserved = False, i_a = 1, i_b = 0, i_c = 0, i_imm = 0\<rparr>"
  "instr_at demo_bytes 4 = \<lparr>i_op = Some FUNCTION, i_reserved = False, i_a = 1, i_b = 0, i_c = 1, i_imm = 0\<rparr>"
  "instr_at demo_bytes 5 = \<lparr>i_op = Some RETURN, i_reserved = False, i_a = 0, i_b = 0, i_c = 0, i_imm = 0\<rparr>"
  by (simp_all add: instr_at_def Let_def rec_off_def header_size_def instruction_size_def demo_bytes_def
      read_u32le_def read_u64le_def opcode_of_def all_opcodes_def f_one_def)

lemma upt_small: "[0..<2] = [0, Suc 0]" "[0..<6] = [0, Suc 0, 2, 3, 4, 5]" "[0..<3] = [0, Suc 0, 2]"
  "[4..<6] = [4, 5::nat]" "[0..<4] = [0, Suc 0, 2, 3]"
  by (simp_all add: upt_rec eval_nat_numeral)

definition demo_limits :: bc_limits where
  "demo_limits = \<lparr>lim_instructions = 65536, lim_registers = 256, lim_bytes = 1573200, lim_steps = 1000000, lim_depth = 64\<rparr>"

lemma demo_resolve: "resolve_limits None = Inr demo_limits"
  by (simp add: resolve_limits_def demo_limits_def max_instructions_def max_registers_def bc_max_bytes_def
     header_size_def instruction_size_def max_functions_def default_step_limit_def hard_call_depth_def)

lemma demo_header: "verify_header (Some demo_bytes) demo_limits = Inr (2, 3, 6)"
  by (simp add: verify_header_def demo_bytes_def demo_limits_def header_size_def instruction_size_def
      read_u16le_def read_u32le_def max_registers_def max_instructions_def ascii_def Let_def)

definition demo_fns :: "fn_info list" where
  "demo_fns = [\<lparr>f_start = 1, f_end = 4, f_base = 0, f_arity = 0, f_ret = 1\<rparr>,
     \<lparr>f_start = 5, f_end = 6, f_base = 0, f_arity = 1, f_ret = 1\<rparr>]"

lemma replicate_6: "replicate 6 x = [x, x, x, x, x, x]"
  by (simp add: eval_nat_numeral)

lemma demo_functions: "verify_functions (\<lambda>_ _. True) demo_bytes 2 3 6 =
  Inr (map (\<lambda>f. f\<lparr>f_ret := 0\<rparr>) demo_fns, [0,0,0,0,1,1])"
  by (simp add: verify_functions_def upt_small demo_instr max_functions_def max_registers_def close_last_def
      fill_owners_def fill_owner_def demo_fns_def replicate_6)

lemma demo_types: "verify_types demo_bytes 2 3 6 (map (\<lambda>f. f\<lparr>f_ret := 0\<rparr>) demo_fns) = Inr (demo_fns, [1,1,2])"
  by (simp add: verify_types_def milena_bytecode_typed_encoded_size_def milena_bytecode_encoded_size_def
      max_registers_def max_functions_def max_instructions_def size_max_def header_size_def instruction_size_def
      Let_def peek_def demo_bytes_def type_number_def type_boolean_def set_return_types_def demo_fns_def)

definition demo_module :: module_info where
  "demo_module = \<lparr>m_bytes = demo_bytes, m_minor = 2, m_regs = 3, m_count = 6, m_fns = demo_fns,
     m_owner = [0,0,0,0,1,1], m_rtypes = [1,1,2]\<rparr>"

lemma f_one_arity: "arity_ok f_one" "f_to_nat f_one = 1"
proof -
  have mag: "f_mag f_one = 2 ^ 1074"
    using f_one_int by (simp add: f_int_def split: if_splits)
  have "f_int f_256 = 2 ^ 1082"
    by (simp add: f_int_def f_sign_def f_256_def f_mag_def f_exp_def f_frac_def)
  moreover have "f_finite f_256" by (simp add: f_finite_def f_256_def f_exp_def)
  moreover have "(2::int) ^ 1074 \<le> 2 ^ 1082" by (rule power_increasing) simp_all
  ultimately have "f_le f_one f_256"
    by (simp only: f_le_finite f_one_finite f_one_int)
  moreover have "f_le 0 f_one" by (simp add: f_le_finite f_one_int)
  moreover have "f_integral f_one" by (simp add: f_integral_def mag)
  ultimately show "arity_ok f_one"
    by (simp add: arity_ok_def)
  show "f_to_nat f_one = 1" by (simp add: f_to_nat_def mag)
qed

definition demo_graph :: call_graph where
  "demo_graph f g \<longleftrightarrow> f = 0 \<and> g = 1"

lemma demo_skip: "skip_edges demo_graph 2 0 0 = 1" "skip_edges demo_graph 2 0 2 = 2"
  "skip_edges demo_graph 2 (Suc 0) 0 = 2"
proof -
  have n: "skip_edges demo_graph 2 f 2 = 2" for f by (simp add: skip_edges.simps)
  have m: "skip_edges demo_graph 2 (Suc 0) (Suc 0) = 2"
    using n by (simp add: skip_edges.simps [of _ _ _ "Suc 0"] demo_graph_def numeral_2_eq_2 [symmetric])
  have z: "skip_edges demo_graph 2 0 (Suc 0) = 1"
    by (simp add: skip_edges.simps [of _ _ _ "Suc 0"] demo_graph_def)
  show "skip_edges demo_graph 2 0 2 = 2" by (rule n)
  show "skip_edges demo_graph 2 (Suc 0) 0 = 2"
    using m by (simp add: skip_edges.simps [of _ _ _ 0] demo_graph_def)
  show "skip_edges demo_graph 2 0 0 = 1"
    using z by (simp add: skip_edges.simps [of _ _ _ 0] demo_graph_def)
qed

lemma demo_dfs: "\<exists>c. dfs_roots demo_graph 2 [0, Suc 0] (\<lambda>_. 0) = Inr c"
  by (simp add: demo_skip Let_def hard_call_depth_def numeral_2_eq_2 [symmetric])

lemma demo_visit:
  "visit_fn demo_module 0 (Suc 0) = Inr (False, [2])"
  "visit_fn demo_module 0 2 = Inr (False, [3])"
  "visit_fn demo_module 0 3 = Inr (True, [])"
  "visit_fn demo_module (Suc 0) 5 = Inr (True, [])"
  by (simp_all add: visit_fn_def demo_module_def demo_fns_def demo_instr Let_def)

lemma demo_walks:
  "walk_from demo_module (visit_fn demo_module 0) (Suc 0) = Inr ([False, True, True, True, False, False], True)"
  "walk_from demo_module (visit_fn demo_module (Suc 0)) 5 = Inr ([False, False, False, False, False, True], True)"
proof -
  have c: "m_count demo_module = 6" by (simp add: demo_module_def)
  show "walk_from demo_module (visit_fn demo_module 0) (Suc 0) = Inr ([False, True, True, True, False, False], True)"
    by (simp add: walk_from_def c replicate_6 demo_visit)
  show "walk_from demo_module (visit_fn demo_module (Suc 0)) 5 = Inr ([False, False, False, False, False, True], True)"
    by (simp add: walk_from_def c replicate_6 demo_visit)
qed

lemma demo_instrs: "check_instrs demo_module [0..<6] (\<lambda>_ _. False) = Inr demo_graph"
proof -
  have "check_instrs demo_module [0..<6] (\<lambda>_ _. False) =
    Inr ((\<lambda>_ _. False)(0 := (\<lambda>_. False)(1 := True)))"
    by (simp add: check_instr_def upt_small demo_module_def demo_instr operands_valid_def target_valid_def types_valid_def
     f_one_arity max_functions_def demo_fns_def type_number_def type_boolean_def rec_off_def Let_def)
  moreover have "(\<lambda>_ _. False)(0 := (\<lambda>_. False)(1 := True)) = demo_graph"
    by (auto simp: demo_graph_def fun_eq_iff)
  ultimately show ?thesis by simp
qed

lemma demo_calls: "verify_calls (\<lambda>_ _. True) demo_module demo_graph = Inr ()"
proof -
  have f: "m_fns demo_module = demo_fns" "length demo_fns = 2" "f_start (demo_fns ! 0) = Suc 0"
    "f_start (demo_fns ! Suc 0) = 5" by (simp_all add: demo_module_def demo_fns_def)
  obtain c where d: "dfs_roots demo_graph 2 [0, Suc 0] (\<lambda>_. 0) = Inr c" using demo_dfs by blast
  show ?thesis
    by (simp add: verify_calls_def f upt_small d demo_walks del: dfs_roots.simps)
qed

lemma demo_verified: "verify_internal (\<lambda>_ _. True) (Some demo_bytes) demo_limits = Inr demo_module"
  using demo_instrs demo_calls
  by (simp add: verify_internal_def demo_header demo_functions demo_types demo_module_def)

definition demo_table :: run_table where
  "demo_table = \<lparr>t_start = [1, 5] @ replicate 62 0, t_base = replicate 64 0, t_arity = [0, 1] @ replicate 62 0,
     t_count = 2\<rparr>"

definition demo_start :: run_state where
  "demo_start = \<lparr>r_pc = 1, r_regs = [0, 0, 0], r_frames = []\<rparr>"

lemma demo_setup: "run_setup demo_module = Inr (demo_table, demo_start)"
proof -
  have r: "replicate 64 x = x # x # replicate 62 x" "replicate 3 y = [y, y, y]" for x y :: nat
    by (simp_all add: eval_nat_numeral)
  have r3: "replicate 3 (0::f64) = [0, 0, 0]" by (simp add: eval_nat_numeral)
  have "build_table demo_bytes [0..<6] empty_table = Inr demo_table"
    by (simp add: upt_small demo_instr Let_def max_functions_def empty_table_def r(1) demo_table_def)
  then show ?thesis
    by (simp add: run_setup_def demo_module_def demo_table_def demo_start_def Let_def r3)
qed

section \<open>Reachable states\<close>

inductive run_reaches ::
  "bytes \<Rightarrow> bc_limits \<Rightarrow> run_table \<Rightarrow> nat \<Rightarrow> run_state \<Rightarrow> run_state \<Rightarrow> bool"
  for bs lim t n s0
where
  here: "run_reaches bs lim t n s0 s0"
| next_step: "run_reaches bs lim t n s0 s \<Longrightarrow> r_pc s < n \<Longrightarrow>
    run_step bs lim t n s = Inr (Running s') \<Longrightarrow> run_reaches bs lim t n s0 s'"

lemma reaches_inv:
  assumes "run_reaches (m_bytes m) lim t (m_count m) s0 s" and "closed_code m own R rank"
    and "1 \<le> m_minor m \<Longrightarrow> table_ok (m_fns m) t" and "run_inv m own R s0"
  shows "run_inv m own R s"
  using assms
proof (induction rule: run_reaches.induct)
  case here
  then show ?case by simp
next
  case (next_step s s')
  then have "run_inv m own R s" by simp
  then have "step_good m lim own R (run_step (m_bytes m) lim t (m_count m) s)"
    using next_step.prems by (intro step_inv) auto
  with next_step.hyps show ?case by (simp add: step_good_def)
qed

lemma inv_frames:
  assumes cc: "closed_code m own R rank" and inv: "run_inv m own R s"
  shows "length (r_frames s) < max 1 (length (m_fns m))"
proof (cases "r_frames s")
  case Nil
  then show ?thesis by simp
next
  case (Cons fr fs)
  have "own (r_pc s) < length (m_fns m)"
  proof -
    obtain ret dest where fr: "fr = (ret, dest)" by fastforce
    then obtain pc where pc: "pc \<in> R" "instr_ok m pc CALL" "i_b (code_at m pc) = own (r_pc s)"
      using inv Cons by (auto simp: run_inv_def)
    then show ?thesis using call_facts [OF cc pc(1,2)] by simp
  qed
  then show ?thesis using frames_rank [OF cc, of "own (r_pc s)" "r_frames s"] inv
    by (auto simp: run_inv_def)
qed

section \<open>Properties\<close>


text \<open>
  C13.  What a verified module can do: it returns a finite number, or it stops for one of the
  stated causes only: no memory for the registers, the step budget, a division by zero at a DIV,
  a non-finite result at an arithmetic instruction, or the configured frame limit at a CALL when
  that limit is below the number of functions.
\<close>

theorem bytecode_run_outcome:
  assumes "milena_bytecode_verify mem input limits = Inr ()"
  shows "\<exists>lim m. resolve_limits limits = Inr lim \<and> verify_internal mem input lim = Inr m \<and>
    (case milena_bytecode_run mem input limits of
       Inr v \<Rightarrow> f_finite v
     | Inl e \<Rightarrow> e = NoRegisters \<or>
         (\<exists>pc < m_count m. e = StepLimit (rec_off pc) \<or>
            (e = DivisionByZero (rec_off pc) \<and> i_op (instr_at (m_bytes m) pc) = Some DIV) \<or>
            (e = NonFinite (rec_off pc) \<and>
               i_op (instr_at (m_bytes m) pc) \<in> Some ` {ADD, SUB, MUL, DIV}) \<or>
            (e = FrameLimit (rec_off pc) \<and> i_op (instr_at (m_bytes m) pc) = Some CALL \<and>
               lim_depth lim < length (m_fns m))))"
proof -
  from assms obtain lim m where rl: "resolve_limits limits = Inr lim" and v: "verify_internal mem input lim = Inr m"
    by (auto simp: milena_bytecode_verify_def split: sum.splits)
  then show ?thesis
    using run_verified_ok [OF v]
    by (auto simp: milena_bytecode_run_def outcome_ok_def allowed_error_def code_at_def split: sum.splits)
qed

theorem bytecode_run_outcome_witness:
  "\<exists>lim m. resolve_limits None = Inr lim \<and> verify_internal (\<lambda>_ _. True) (Some demo_bytes) lim = Inr m \<and>
    (case milena_bytecode_run (\<lambda>_ _. True) (Some demo_bytes) None of
       Inr v \<Rightarrow> f_finite v
     | Inl e \<Rightarrow> e = NoRegisters \<or>
         (\<exists>pc < m_count m. e = StepLimit (rec_off pc) \<or>
            (e = DivisionByZero (rec_off pc) \<and> i_op (instr_at (m_bytes m) pc) = Some DIV) \<or>
            (e = NonFinite (rec_off pc) \<and>
               i_op (instr_at (m_bytes m) pc) \<in> Some ` {ADD, SUB, MUL, DIV}) \<or>
            (e = FrameLimit (rec_off pc) \<and> i_op (instr_at (m_bytes m) pc) = Some CALL \<and>
               lim_depth lim < length (m_fns m))))"
  by (rule bytecode_run_outcome)
    (simp add: milena_bytecode_verify_def demo_resolve demo_verified)

text \<open>
  C14.  The invariant of execution: in every state reachable from the start of a verified module
  the program counter is inside the code, every register is finite, in v1.2 every register
  declared boolean holds 0 or 1, and the live call frames are fewer than the functions (so the
  64-entry frame array is never overrun).
\<close>

theorem bytecode_run_invariant:
  assumes "verify_internal mem input lim = Inr m" and "run_setup m = Inr (t, s0)"
    and "run_reaches (m_bytes m) lim t (m_count m) s0 s"
  shows "r_pc s < m_count m \<and> length (r_regs s) = m_regs m \<and> (\<forall>r < m_regs m. f_finite (r_regs s ! r)) \<and>
    (m_minor m = 2 \<longrightarrow> (\<forall>r < m_regs m. m_rtypes m ! r = type_boolean \<longrightarrow> is_boolean (r_regs s ! r))) \<and>
    length (r_frames s) < max 1 (length (m_fns m)) \<and> length (r_frames s) < hard_call_depth"
proof -
  obtain own R rank where cc: "closed_code m own R rank" and inv0: "run_inv m own R s0"
    and tab: "1 \<le> m_minor m \<longrightarrow> table_ok (m_fns m) t"
    using run_setup_ok [OF assms(1)] assms(2) by auto
  have inv: "run_inv m own R s"
    using reaches_inv [OF assms(3) cc _ inv0] tab by blast
  have "length (m_fns m) \<le> 64" using cc by (simp add: closed_code_def max_functions_def)
  then have "length (r_frames s) < hard_call_depth"
    using inv_frames [OF cc inv] by (simp add: hard_call_depth_def)
  then show ?thesis
    using inv cc inv_frames [OF cc inv] by (auto simp: run_inv_def regs_ok_def closed_code_def)
qed

theorem bytecode_run_invariant_witness:
  "r_pc demo_start < m_count demo_module \<and> f_finite (r_regs demo_start ! 2) \<and>
    is_boolean (r_regs demo_start ! 2) \<and> length (r_frames demo_start) < hard_call_depth"
proof -
  have "2 < m_regs demo_module" "m_minor demo_module = 2" "m_rtypes demo_module ! 2 = type_boolean"
    by (simp_all add: demo_module_def type_boolean_def)
  then show ?thesis
    using bytecode_run_invariant [OF demo_verified demo_setup run_reaches.here] by blast
qed

end
