(* ===== verification/BytecodeOwners.thy ===== *)
theory BytecodeOwners
  imports BytecodeProps
begin

text \<open>
  The ownership map of the verifier (bytecode.c 251-290): the scanned function table tiles the
  instruction stream, so the map written by the two nested loops is total and every entry names
  the one function whose marker or body holds the instruction.
\<close>

section \<open>The function table tiles the code\<close>

definition tiles :: "nat \<Rightarrow> fn_info list \<Rightarrow> bool" where
  "tiles n fns \<longleftrightarrow> (fns \<noteq> [] \<longrightarrow> f_start (fns ! 0) = 1 \<and> f_end (last fns) = n) \<and>
     (\<forall>k. Suc k < length fns \<longrightarrow> f_start (fns ! Suc k) = f_end (fns ! k) + 1)"

lemma tiles_append:
  assumes t: "tiles n fns" and first: "fns = [] \<Longrightarrow> pc = 0" and g: "f_start g = pc + 1" "f_end g = n"
  shows "tiles n (close_last pc fns @ [g])"
proof (cases "fns = []")
  case True
  then show ?thesis using assms by (simp add: tiles_def close_last_def)
next
  case False
  define l where "l = length fns - 1"
  have len: "length fns = Suc l" using False by (simp add: l_def)
  have c: "close_last pc fns = fns[l := (fns ! l)\<lparr>f_end := pc\<rparr>]"
    using False by (simp add: close_last_def l_def last_conv_nth)
  have a: "f_start (close_last pc fns ! k) = f_start (fns ! k)" if "k \<le> l" for k
    using that len by (simp add: c nth_list_update)
  have b: "f_end (close_last pc fns ! k) = (if k = l then pc else f_end (fns ! k))" if "k \<le> l" for k
    using that len by (simp add: c nth_list_update)
  have "f_start ((close_last pc fns @ [g]) ! Suc k) = f_end ((close_last pc fns @ [g]) ! k) + 1"
    if "Suc k < length (close_last pc fns @ [g])" for k
    using that t len a b g by (cases "k = l") (auto simp: nth_append tiles_def)
  then show ?thesis using t False len a [of 0] g by (auto simp: tiles_def nth_append)
qed

lemma scan_tiles:
  "scan_functions bs regs n pcs fns = Inr fns' \<Longrightarrow> tiles n fns \<Longrightarrow> tiles n fns'"
proof (induction pcs arbitrary: fns)
  case Nil
  then show ?case by simp
next
  case (Cons pc pcs)
  show ?case
  proof (cases "i_op (instr_at bs pc) = Some FUNCTION")
    case False
    then show ?thesis using Cons by (simp add: Let_def)
  next
    case True
    let ?g = "\<lparr>f_start = pc + 1, f_end = n, f_base = i_b (instr_at bs pc), f_arity = i_c (instr_at bs pc), f_ret = 0\<rparr>"
    from Cons.prems(1) True have "fns = [] \<Longrightarrow> pc = 0"
      and rest: "scan_functions bs regs n pcs (close_last pc fns @ [?g]) = Inr fns'"
      by (auto simp: Let_def split: if_splits)
    then show ?thesis using Cons.IH [OF rest] tiles_append [OF Cons.prems(2)] by simp
  qed
qed

definition in_body :: "fn_info \<Rightarrow> nat \<Rightarrow> bool" where
  "in_body f pc \<longleftrightarrow> f_start f - 1 \<le> pc \<and> pc < f_end f"

lemma fill_owner_nth:
  assumes "pc < length ow"
  shows "fill_owner k f ow ! pc = (if in_body f pc then k else ow ! pc)"
proof -
  have "length (fold (\<lambda>pc ow. ow[pc := k]) ps ow) = length ow" for ps and ow :: "nat list"
    by (induction ps arbitrary: ow) auto
  moreover have "fold (\<lambda>pc ow. ow[pc := k]) ps ow ! pc = (if pc \<in> set ps then k else ow ! pc)"
    if "pc < length ow" for ps and ow :: "nat list"
    using that by (induction ps arbitrary: ow) (auto simp: nth_list_update_if)
  ultimately show ?thesis using assms by (auto simp: fill_owner_def in_body_def)
qed

lemma fill_owner_length [simp]: "length (fill_owner k f ow) = length ow"
proof -
  have "length (fold (\<lambda>pc ow. ow[pc := k]) ps ow) = length ow" for ps and ow :: "nat list"
    by (induction ps arbitrary: ow) auto
  then show ?thesis by (simp add: fill_owner_def)
qed

lemma tiles_order:
  assumes t: "tiles n fns" and body: "\<forall>f \<in> set fns. f_start f < f_end f"
  shows "j < k \<Longrightarrow> k < length fns \<Longrightarrow> f_end (fns ! j) < f_start (fns ! k)"
proof (induction k)
  case 0
  then show ?case by simp
next
  case (Suc k)
  have s: "f_start (fns ! Suc k) = f_end (fns ! k) + 1" using t Suc.prems by (simp add: tiles_def)
  have b: "f_start (fns ! k) < f_end (fns ! k)" using body Suc.prems by simp
  show ?case using Suc s b by (cases "j = k") auto
qed

lemma in_body_unique:
  assumes t: "tiles n fns" and body: "\<forall>f \<in> set fns. f_start f < f_end f"
    and "j < length fns" "k < length fns" "in_body (fns ! j) pc" "in_body (fns ! k) pc"
  shows "j = k"
  using assms(3-) tiles_order [OF t body, of j k] tiles_order [OF t body, of k j]
  by (cases j k rule: linorder_cases) (auto simp: in_body_def)

lemma in_body_exists:
  assumes t: "tiles n fns" and ne: "fns \<noteq> []" and pc: "pc < n"
  shows "\<exists>k < length fns. in_body (fns ! k) pc"
proof -
  have "pc < f_end (fns ! k) \<longrightarrow> (\<exists>j \<le> k. in_body (fns ! j) pc)" if "k < length fns" for k
    using that
  proof (induction k)
    case 0
    then show ?case using t ne by (auto simp: tiles_def in_body_def)
  next
    case (Suc k)
    have "f_start (fns ! Suc k) = f_end (fns ! k) + 1" using t Suc.prems by (simp add: tiles_def)
    then show ?case using Suc by (cases "pc < f_end (fns ! k)") (auto simp: in_body_def intro: le_SucI)
  qed
  from this [of "length fns - 1"] obtain j where "j \<le> length fns - 1" "in_body (fns ! j) pc"
    using t ne pc by (auto simp: tiles_def last_conv_nth)
  then show ?thesis using ne by (intro exI [of _ j]) (cases fns, auto)
qed

lemma fill_owners_spec:
  assumes t: "tiles n fns" and body: "\<forall>f \<in> set fns. f_start f < f_end f" and len: "length init = n"
    and k: "k < length fns" and pc: "pc < n" and ib: "in_body (fns ! k) pc"
  shows "fill_owners fns init ! pc = k \<and> length (fill_owners fns init) = n"
proof -
  let ?f = "\<lambda>j. fold (\<lambda>f ow. fill_owner f (fns ! f) ow) [0..<j] init"
  have l: "length (?f j) = n" for j by (induction j) (simp_all add: len)
  have "k < j \<longrightarrow> ?f j ! pc = k" if "j \<le> length fns" for j
    using that
  proof (induction j)
    case 0
    then show ?case by simp
  next
    case (Suc j)
    note fo = fill_owner_nth [of pc "?f j" j "fns ! j"]
    show ?case
    proof (cases "k = j")
      case True
      then show ?thesis using ib pc l [of j] fo by simp
    next
      case False
      then show ?thesis
        using Suc in_body_unique [OF t body, of j k pc] ib k pc l [of j] fo by auto
    qed
  qed
  then show ?thesis using k l by (simp add: fill_owners_def)
qed

lemma sig_nth: "map fn_sig fs = map fn_sig gs \<Longrightarrow> k < length fs \<Longrightarrow> fn_sig (fs ! k) = fn_sig (gs ! k)"
  by (metis length_map nth_map)

section \<open>Property\<close>

text \<open>
  In a verified module of v1.1 or later every instruction belongs to exactly one function,
  its marker and body, and the ownership map, which every jump, call and type check consults,
  names it.
\<close>

theorem bytecode_owner_map:
  assumes "verify_internal mem input lim = Inr m" and "1 \<le> m_minor m" and "pc < m_count m"
  shows "length (m_owner m) = m_count m \<and> m_owner m ! pc < length (m_fns m) \<and>
    (\<forall>k < length (m_fns m). (f_start (m_fns m ! k) - 1 \<le> pc \<and> pc < f_end (m_fns m ! k)) \<longleftrightarrow> k = m_owner m ! pc)"
proof -
  let ?n = "m_count m"
  from verify_internal_phases [OF assms(1)] obtain fns0 where
    f: "verify_functions mem (m_bytes m) (m_minor m) (m_regs m) ?n = Inr (fns0, m_owner m)"
    and t: "verify_types (m_bytes m) (m_minor m) (m_regs m) ?n fns0 = Inr (m_fns m, m_rtypes m)" by auto
  from f assms(2) have scan: "scan_functions (m_bytes m) (m_regs m) ?n [0..<?n] [] = Inr fns0"
    and ne: "fns0 \<noteq> []" and bd: "check_bodies fns0 = Inr ()" and ow: "m_owner m = fill_owners fns0 (replicate ?n 0)"
    by (auto simp: verify_functions_def split: if_splits sum.splits)
  have tl: "tiles ?n fns0" by (rule scan_tiles [OF scan]) (simp add: tiles_def)
  have body: "\<forall>f \<in> set fns0. f_start f < f_end f" using bd check_bodies_ok by blast
  note sig = verify_types_sig [OF t]
  have len: "length (m_fns m) = length fns0" using sig by (rule map_eq_imp_length_eq)
  have same: "in_body (m_fns m ! k) pc \<longleftrightarrow> in_body (fns0 ! k) pc" if "k < length fns0" for k
    using sig_nth [OF sig, of k] that len by (simp add: fn_sig_def in_body_def)
  obtain j where j: "j < length fns0" "in_body (fns0 ! j) pc"
    using in_body_exists [OF tl ne assms(3)] by blast
  have o': "m_owner m ! pc = j" "length (m_owner m) = ?n"
    using fill_owners_spec [OF tl body _ j(1) assms(3) j(2), of "replicate ?n 0"] by (simp_all add: ow)
  have "in_body (fns0 ! k) pc \<longleftrightarrow> k = j" if "k < length fns0" for k
    using in_body_unique [OF tl body that j(1) _ j(2)] j by blast
  then have "in_body (m_fns m ! k) pc \<longleftrightarrow> k = j" if "k < length fns0" for k
    using same that by simp
  then show ?thesis
    using o' j len by (simp add: in_body_def)
qed

theorem bytecode_owner_map_witness:
  "m_owner demo_module ! 4 < length (m_fns demo_module) \<and>
    f_start (m_fns demo_module ! (m_owner demo_module ! 4)) - 1 \<le> 4 \<and>
    4 < f_end (m_fns demo_module ! (m_owner demo_module ! 4))"
proof -
  have "1 \<le> m_minor demo_module" "4 < m_count demo_module" by (simp_all add: demo_module_def)
  from bytecode_owner_map [OF demo_verified this] show ?thesis by blast
qed

end
