(* ===== verification/BytecodeEncode.thy ===== *)
theory BytecodeEncode
  imports BytecodeProps
begin

text \<open>
  \<open>milena_bytecode_encode\<close> of bytecode.c: the in-memory program, the size computation, the byte
  image built in the zeroed workspace and the final verification that guards the output buffer.

  A pointer with its count is an optional list and a number; \<open>program_readable\<close> is the caller's
  duty that the arrays are at least that long.  The result of a call is the diagnostic, the value
  stored in \<open>*written\<close> and the output buffer afterwards.
\<close>

record bc_source =
  s_op :: u8
  s_a :: u32
  s_b :: u32
  s_c :: u32
  s_imm :: f64

record bc_program =
  p_major :: u16
  p_minor :: u16
  p_regs :: u16
  p_count :: nat
  p_instrs :: "bc_source list option"
  p_rtypes :: "bytes option"
  p_rtype_count :: nat
  p_ftypes :: "bytes option"
  p_ftype_count :: nat

definition program_readable :: "bc_program \<Rightarrow> bool" where
  "program_readable p \<longleftrightarrow>
     (case p_instrs p of None \<Rightarrow> True | Some xs \<Rightarrow> p_count p \<le> length xs) \<and>
     (case p_rtypes p of None \<Rightarrow> True | Some xs \<Rightarrow> p_rtype_count p \<le> length xs) \<and>
     (case p_ftypes p of None \<Rightarrow> True | Some xs \<Rightarrow> p_ftype_count p \<le> length xs)"

text \<open>The instructions the loops of the encoder visit.\<close>

definition program_code :: "bc_program \<Rightarrow> bc_source list" where
  "program_code p = (case p_instrs p of None \<Rightarrow> [] | Some xs \<Rightarrow> take (p_count p) xs)"

text \<open>Counting the FUNCTION records; \<open>k\<close> is the index, \<open>c\<close> the count so far.\<close>

fun count_functions :: "nat \<Rightarrow> nat \<Rightarrow> bc_source list \<Rightarrow> bc_diag + nat" where
  "count_functions k c [] = Inr c"
| "count_functions k c (s # ss) =
     (if opcode_of (unat (s_op s)) = Some FUNCTION
      then if c \<ge> max_functions then Inl (Diag BC_BAD_FORMAT (rec_off k))
           else count_functions (k + 1) (c + 1) ss
      else count_functions (k + 1) c ss)"

definition encode_plan :: "bc_limits \<Rightarrow> bc_program \<Rightarrow> bc_diag + nat \<times> nat" where
  "encode_plan lim p =
     (if p_major p \<noteq> 1 \<or> unat (p_minor p) > 2 then Inl (Diag BC_BAD_VERSION 4)
      else if p_regs p = 0 \<or> unat (p_regs p) > lim_registers lim \<or> p_count p = 0 \<or>
              p_count p > lim_instructions lim \<or> p_instrs p = None
      then Inl (Diag BC_LIMIT_EXCEEDED 8)
      else case milena_bytecode_encoded_size (p_count p) of
             None \<Rightarrow> Inl (Diag BC_LIMIT_EXCEEDED 12)
           | Some base \<Rightarrow>
               (case (if unat (p_minor p) = 2
                      then (case count_functions 0 0 (program_code p) of
                              Inl d \<Rightarrow> Inl d
                            | Inr fc \<Rightarrow>
                                if p_rtype_count p \<noteq> unat (p_regs p) \<or> p_ftype_count p \<noteq> fc \<or>
                                   p_rtypes p = None \<or> (fc \<noteq> 0 \<and> p_ftypes p = None)
                                then Inl (Diag BC_BAD_FORMAT 12)
                                else case milena_bytecode_typed_encoded_size (p_count p) (unat (p_regs p)) fc of
                                       None \<Rightarrow> Inl (Diag BC_BAD_FORMAT 12)
                                     | Some r \<Rightarrow> Inr (r, fc))
                      else if p_rtypes p \<noteq> None \<or> p_rtype_count p \<noteq> 0 \<or> p_ftypes p \<noteq> None \<or> p_ftype_count p \<noteq> 0
                      then Inl (Diag BC_BAD_FORMAT 12)
                      else Inr (base, 0)) of
                  Inl d \<Rightarrow> Inl d
                | Inr (required, fc) \<Rightarrow>
                    if required > lim_bytes lim then Inl (Diag BC_LIMIT_EXCEEDED 12)
                    else Inr (required, fc)))"

section \<open>The byte image\<close>

definition carries_immediate :: "bc_source \<Rightarrow> bool" where
  "carries_immediate s \<longleftrightarrow>
     opcode_of (unat (s_op s)) \<in> {Some CONST_F64, Some CONST_BOOL, Some CALL}"

definition encode_record :: "bc_source \<Rightarrow> bytes" where
  "encode_record s =
     [s_op s, 0, 0, 0] @ write_u32le (s_a s) @ write_u32le (s_b s) @ write_u32le (s_c s) @
     (if carries_immediate s then write_u64le (s_imm s) else replicate 8 0)"

fun encode_records :: "nat \<Rightarrow> bc_source list \<Rightarrow> bc_diag + bytes" where
  "encode_records k [] = Inr []"
| "encode_records k (s # ss) =
     (if \<not> carries_immediate s \<and> \<not> f_eq (s_imm s) 0
      then Inl (Diag BC_BAD_OPERAND (rec_off k))
      else case encode_records (k + 1) ss of
             Inl d \<Rightarrow> Inl d
           | Inr bs \<Rightarrow> Inr (encode_record s @ bs))"

definition encode_header :: "bc_program \<Rightarrow> bytes" where
  "encode_header p =
     ascii ''MLBC'' @ write_u16le (p_major p) @ write_u16le (p_minor p) @ write_u16le (p_regs p) @
     write_u16le 0 @ write_u32le (of_nat (p_count p))"

definition encode_types :: "bc_program \<Rightarrow> nat \<Rightarrow> bytes" where
  "encode_types p fc =
     (if unat (p_minor p) = 2
      then take (unat (p_regs p)) (case p_rtypes p of None \<Rightarrow> [] | Some ts \<Rightarrow> ts) @
           take fc (case p_ftypes p of None \<Rightarrow> [] | Some ts \<Rightarrow> ts)
      else [])"

definition encode_image :: "bc_program \<Rightarrow> nat \<Rightarrow> bc_diag + bytes" where
  "encode_image p fc =
     (case encode_records 0 (program_code p) of
        Inl d \<Rightarrow> Inl d
      | Inr bs \<Rightarrow> Inr (encode_header p @ bs @ encode_types p fc))"

definition milena_bytecode_encode ::
  "bc_mem \<Rightarrow> bc_program option \<Rightarrow> bytes option \<Rightarrow> nat \<Rightarrow> bc_limits option \<Rightarrow> bc_diag \<times> nat \<times> bytes option"
where
  "milena_bytecode_encode mem program out capacity limits =
     (case resolve_limits limits of Inl d \<Rightarrow> (d, 0, out) | Inr lim \<Rightarrow>
      case program of None \<Rightarrow> (Diag BC_ARGUMENT 0, 0, out) | Some p \<Rightarrow>
      case encode_plan lim p of Inl d \<Rightarrow> (d, 0, out) | Inr (required, fc) \<Rightarrow>
      case out of
        None \<Rightarrow> if capacity = 0 then (Diag BC_BUFFER_TOO_SMALL required, required, out)
                else (Diag BC_ARGUMENT 0, 0, out)
      | Some buf \<Rightarrow>
          if capacity < required then (Diag BC_BUFFER_TOO_SMALL capacity, required, out)
          else if \<not> mem SiteEncode required then (Diag BC_OUT_OF_MEMORY 0, 0, out)
          else case encode_image p fc of Inl d \<Rightarrow> (d, 0, out) | Inr tmp \<Rightarrow>
               case verify_internal mem (Some tmp) lim of
                 Inl d \<Rightarrow> (d, 0, out)
               | Inr _ \<Rightarrow> (Diag BC_OK 0, required, Some (poke 0 tmp buf)))"

section \<open>Reading a record back\<close>

definition instr_of :: "bytes \<Rightarrow> bc_instr" where
  "instr_of r =
     \<lparr>i_op = opcode_of (unat (r ! 0)), i_reserved = (r ! 1 \<noteq> 0 \<or> r ! 2 \<noteq> 0 \<or> r ! 3 \<noteq> 0),
      i_a = unat (read_u32le r 4), i_b = unat (read_u32le r 8),
      i_c = unat (read_u32le r 12), i_imm = read_u64le r 16\<rparr>"

lemma instr_at_of: "rec_off i + 24 \<le> length bs \<Longrightarrow> instr_at bs i = instr_of (peek (rec_off i) 24 bs)"
  by (simp add: instr_at_def instr_of_def Let_def read_u32le_def read_u64le_def nth_peek add.commute)

text \<open>What the record of a source instruction decodes to.\<close>

definition source_instr :: "bc_source \<Rightarrow> bc_instr" where
  "source_instr s =
     \<lparr>i_op = opcode_of (unat (s_op s)), i_reserved = False, i_a = unat (s_a s), i_b = unat (s_b s),
      i_c = unat (s_c s), i_imm = (if carries_immediate s then s_imm s else 0)\<rparr>"

lemma length_encode_record [simp]: "length (encode_record s) = 24"
  by (simp add: encode_record_def write_u32le_put write_u64le_put)

lemma put_le_zero: "replicate 8 (0::u8) = put_le 8 (0::u64)"
  by (simp add: put_le_def upt_rec eval_nat_numeral)

lemma instr_of_record: "instr_of (encode_record s) = source_instr s"
proof -
  define imm where "imm = (if carries_immediate s then s_imm s else 0)"
  have r: "encode_record s = [s_op s, 0, 0, 0] @ put_le 4 (s_a s) @ put_le 4 (s_b s) @ put_le 4 (s_c s) @ put_le 8 imm"
    by (simp add: encode_record_def write_u32le_put write_u64le_put put_le_zero imm_def)
  have l: "length (encode_record s) = 24" by simp
  have p: "peek 4 4 (encode_record s) = put_le 4 (s_a s)" "peek 8 4 (encode_record s) = put_le 4 (s_b s)"
    "peek 12 4 (encode_record s) = put_le 4 (s_c s)" "peek 16 8 (encode_record s) = put_le 8 imm"
    by (simp_all add: r peek_def)
  have n: "encode_record s ! 0 = s_op s" "encode_record s ! 1 = 0" "encode_record s ! 2 = 0" "encode_record s ! 3 = 0"
    by (simp_all add: r)
  show ?thesis
    by (simp add: instr_of_def source_instr_def read_u32le_get read_u64le_get l p n [simplified]
        get_le_put_le imm_def [symmetric])
qed

lemma encode_records_ok:
  "encode_records k ss = Inr bs \<longleftrightarrow>
     (\<forall>s \<in> set ss. carries_immediate s \<or> f_eq (s_imm s) 0) \<and> bs = concat (map encode_record ss)"
  by (induction k ss arbitrary: bs rule: encode_records.induct) (auto simp: case_sum_Inr_iff)

lemma length_encode_header [simp]: "length (encode_header p) = 16"
  by (simp add: encode_header_def ascii_def write_u16le_put write_u32le_put)

lemma count_functions_ok:
  "count_functions k c ss = Inr fc \<Longrightarrow>
     fc = c + length (filter (\<lambda>s. opcode_of (unat (s_op s)) = Some FUNCTION) ss)"
  by (induction k c ss rule: count_functions.induct) (auto split: if_splits)

lemma count_functions_total:
  "c + length (filter (\<lambda>s. opcode_of (unat (s_op s)) = Some FUNCTION) ss) \<le> max_functions \<Longrightarrow>
     count_functions k c ss = Inr (c + length (filter (\<lambda>s. opcode_of (unat (s_op s)) = Some FUNCTION) ss))"
  by (induction k c ss rule: count_functions.induct) auto

section \<open>Which statuses the verifier reports\<close>

definition verifier_status :: "bc_status \<Rightarrow> bool" where
  "verifier_status s \<longleftrightarrow> s \<noteq> BC_OK \<and> s \<noteq> BC_BUFFER_TOO_SMALL \<and> s \<noteq> BC_RUNTIME_ERROR \<and> s \<noteq> BC_STEP_LIMIT"

lemma scan_status: "scan_functions bs regs n pcs fns = Inl d \<Longrightarrow> verifier_status (d_status d)"
  by (induction bs regs n pcs fns rule: scan_functions.induct)
    (auto simp: Let_def verifier_status_def split: if_splits)

lemma bodies_status: "check_bodies fns = Inl d \<Longrightarrow> verifier_status (d_status d)"
  by (induction fns) (auto simp: verifier_status_def split: if_splits)

lemma tags_status: "check_type_tags off ts = Inl d \<Longrightarrow> verifier_status (d_status d)"
  by (induction off ts rule: check_type_tags.induct) (auto simp: verifier_status_def split: if_splits)

lemma header_status: "verify_header input lim = Inl d \<Longrightarrow> verifier_status (d_status d)"
  by (auto simp: verify_header_def Let_def verifier_status_def split: option.splits if_splits)

lemma functions_status: "verify_functions mem bs minor regs n = Inl d \<Longrightarrow> verifier_status (d_status d)"
  using scan_status bodies_status
  by (auto simp: verify_functions_def case_sum_Inl_iff verifier_status_def split: if_splits)

lemma types_status: "verify_types bs minor regs n fns = Inl d \<Longrightarrow> verifier_status (d_status d)"
  using tags_status
  by (auto simp: verify_types_def Let_def case_sum_Inl_iff verifier_status_def split: if_splits)

lemma instrs_status: "check_instrs m pcs E = Inl d \<Longrightarrow> verifier_status (d_status d)"
proof (induction m pcs E rule: check_instrs.induct)
  case (2 m pc pcs E)
  show ?case
  proof (cases "check_instr m pc E")
    case (Inl e)
    then have "verifier_status (d_status e)"
      by (auto simp: check_instr_def Let_def verifier_status_def split: if_splits option.splits)
    then show ?thesis using 2 Inl by simp
  next
    case (Inr E')
    then show ?thesis using 2 by simp
  qed
qed simp

lemma dfs_loop_status: "dfs_loop E fc c st = Inl d \<Longrightarrow> verifier_status (d_status d)"
proof (induction E fc c st rule: dfs_loop.induct)
  case (2 E fc color f k st)
  define c where "c = (if color f = 0 then color(f := 1) else color)"
  define t where "t = skip_edges E fc f k"
  note IH = "2.IH" [OF c_def t_def]
  from "2.prems" have "(if t \<ge> fc then dfs_loop E fc (c(f := 2)) st
         else if c t = 1 then Inl (Diag BC_BAD_CONTROL_FLOW header_size)
         else if c t = 0
         then (if length ((f, k) # st) \<ge> hard_call_depth then Inl (Diag BC_LIMIT_EXCEEDED 0)
               else dfs_loop E fc c ((t, 0) # (f, t + 1) # st))
         else dfs_loop E fc c ((f, t + 1) # st)) = Inl d"
    by (subst (asm) dfs_loop.simps(2)) (simp only: Let_def c_def [symmetric] t_def [symmetric])
  then show ?case
    using IH by (auto simp only: verifier_status_def split: if_splits) simp_all
qed simp

lemma dfs_roots_status: "dfs_roots E fc rs c = Inl d \<Longrightarrow> verifier_status (d_status d)"
  by (induction E fc rs c rule: dfs_roots.induct)
    (auto simp: case_sum_Inl_iff dfs_loop_status simp del: dfs_loop.simps split: if_splits)

lemma cfg_walk_status:
  "(\<And>pc d. visit pc = Inl d \<Longrightarrow> verifier_status (d_status d)) \<Longrightarrow>
   cfg_walk visit q v r = Inl d \<Longrightarrow> verifier_status (d_status d)"
proof (induction visit q v r rule: cfg_walk.induct)
  case (2 visit pc q v r)
  then show ?case by (auto split: sum.splits if_splits prod.splits)
qed simp

lemma visit_status:
  "visit_fn m f pc = Inl d \<Longrightarrow> d_status d = BC_BAD_CONTROL_FLOW"
  "visit_legacy m pc = Inl d \<Longrightarrow> d_status d = BC_BAD_CONTROL_FLOW"
  unfolding visit_fn_def visit_legacy_def Let_def by (auto simp del: list_ex_iff split: if_split_asm)

lemma walk_status:
  "walk_from m (visit_fn m f) s = Inl d \<Longrightarrow> verifier_status (d_status d)"
  "walk_from m (visit_legacy m) s = Inl d \<Longrightarrow> verifier_status (d_status d)"
  unfolding walk_from_def
  by (erule cfg_walk_status [rotated], simp add: visit_status verifier_status_def)+

lemma walk_functions_status: "walk_functions m fs = Inl d \<Longrightarrow> verifier_status (d_status d)"
proof (induction m fs rule: walk_functions.induct)
  case (2 m f fs)
  show ?case
  proof (cases "walk_from m (visit_fn m f) (f_start (m_fns m ! f))")
    case (Inl e)
    then show ?thesis using 2 walk_status(1) by simp
  next
    case (Inr p)
    then show ?thesis using 2 by (cases p) (auto simp: verifier_status_def split: if_splits)
  qed
qed simp

lemma calls_status: "verify_calls mem m E = Inl d \<Longrightarrow> verifier_status (d_status d)"
  using dfs_roots_status walk_functions_status
  by (auto simp: verify_calls_def case_sum_Inl_iff verifier_status_def split: if_splits)

lemma legacy_status: "verify_legacy mem m = Inl d \<Longrightarrow> verifier_status (d_status d)"
  using walk_status(2)
  by (auto simp: verify_legacy_def case_sum_Inl_iff verifier_status_def split: if_splits)

lemma verify_status: "verify_internal mem input lim = Inl d \<Longrightarrow> verifier_status (d_status d)"
  unfolding verify_internal_def Let_def
  by (auto simp: case_sum_Inl_iff split: if_splits
      dest!: header_status functions_status types_status instrs_status calls_status legacy_status)

lemma limits_status: "resolve_limits l = Inl d \<Longrightarrow> verifier_status (d_status d)"
  by (auto simp: resolve_limits_def Let_def verifier_status_def split: option.splits if_splits)

lemma count_status: "count_functions k c ss = Inl d \<Longrightarrow> verifier_status (d_status d)"
  by (induction k c ss rule: count_functions.induct) (auto simp: verifier_status_def split: if_splits)

lemma plan_status: "encode_plan lim p = Inl d \<Longrightarrow> verifier_status (d_status d)"
  unfolding encode_plan_def
  by (auto simp: case_sum_Inl_iff verifier_status_def dest: count_status split: option.splits if_splits)

lemma records_status: "encode_records k ss = Inl d \<Longrightarrow> verifier_status (d_status d)"
  by (induction k ss arbitrary: d rule: encode_records.induct)
    (auto simp: verifier_status_def case_sum_Inl_iff split: if_splits)

lemma image_status: "encode_image p fc = Inl d \<Longrightarrow> verifier_status (d_status d)"
  by (auto simp: encode_image_def case_sum_Inl_iff records_status)

section \<open>The plan and the image\<close>

lemma plan_ok:
  assumes "encode_plan lim p = Inr (req, fc)"
  shows "p_major p = 1 \<and> unat (p_minor p) \<le> 2 \<and> 0 < unat (p_regs p) \<and> unat (p_regs p) \<le> lim_registers lim \<and>
    0 < p_count p \<and> p_count p \<le> lim_instructions lim \<and> p_count p \<le> 65536 \<and> (\<exists>xs. p_instrs p = Some xs) \<and>
    req = 16 + p_count p * 24 + (if unat (p_minor p) = 2 then unat (p_regs p) + fc else 0) \<and> req \<le> lim_bytes lim \<and>
    (unat (p_minor p) = 2 \<longrightarrow> p_rtype_count p = unat (p_regs p) \<and> p_ftype_count p = fc \<and>
       (\<exists>ts. p_rtypes p = Some ts) \<and> (\<exists>ts. p_ftypes p = Some ts))"
proof -
  from assms have a: "p_major p = 1" "unat (p_minor p) \<le> 2" "p_regs p \<noteq> 0" "unat (p_regs p) \<le> lim_registers lim"
    "0 < p_count p" "p_count p \<le> lim_instructions lim" "p_instrs p \<noteq> None"
    by (auto simp: encode_plan_def split: if_splits)
  note d = assms [unfolded encode_plan_def]
  from d a obtain base where b: "milena_bytecode_encoded_size (p_count p) = Some base"
    by (auto split: option.splits)
  have u: "0 < unat (p_regs p)" using a(3) by (simp add: unat_gt_0)
  show ?thesis
  proof (cases "unat (p_minor p) = 2")
    case True
    then have *: "p_rtype_count p = unat (p_regs p)" "p_ftype_count p = fc" "p_rtypes p \<noteq> None" 
      "fc = 0 \<or> p_ftypes p \<noteq> None" "milena_bytecode_typed_encoded_size (p_count p) (unat (p_regs p)) fc = Some req"
      "req \<le> lim_bytes lim"
      using d a b by (auto simp: case_sum_Inr_iff split: if_splits option.splits)
    from *(5) have "0 < fc" "req = 16 + p_count p * 24 + unat (p_regs p) + fc" "p_count p \<le> 65536"
      by (simp_all add: typed_encoded_size_Some)
    then show ?thesis using True * a u by auto
  next
    case False
    then show ?thesis using d a b u by (auto simp: case_sum_Inr_iff encoded_size_Some split: if_splits option.splits)
  qed
qed

lemma program_code_length:
  "program_readable p \<Longrightarrow> p_instrs p = Some xs \<Longrightarrow> length (program_code p) = p_count p"
  by (simp add: program_readable_def program_code_def)

lemma image_facts:
  assumes plan: "encode_plan lim p = Inr (req, fc)" and rd: "program_readable p"
    and img: "encode_image p fc = Inr tmp"
  shows "length tmp = req \<and> read_u16le tmp 6 = p_minor p \<and> read_u16le tmp 8 = p_regs p \<and>
    unat (read_u32le tmp 12) = p_count p \<and>
    (\<forall>i < p_count p. instr_at tmp i = source_instr (program_code p ! i)) \<and>
    drop (16 + p_count p * 24) tmp = encode_types p fc"
proof -
  note pl = plan_ok [OF plan]
  from img obtain body where body: "body = concat (map encode_record (program_code p))"
    and tmp: "tmp = encode_header p @ body @ encode_types p fc"
    by (auto simp: encode_image_def case_sum_Inr_iff encode_records_ok)
  have lc: "length (program_code p) = p_count p" using pl rd program_code_length by blast
  have lb: "length body = p_count p * 24"
    using length_concat_const [of "map encode_record (program_code p)" 24] by (simp add: body lc)
  have lt: "length (encode_types p fc) = (if unat (p_minor p) = 2 then unat (p_regs p) + fc else 0)"
    using pl rd by (auto simp: encode_types_def program_readable_def)
  have len: "length tmp = req" using pl by (simp add: tmp lb lt)
  have l16: "16 \<le> length tmp" by (simp add: tmp)
  have p6: "peek 6 2 tmp = put_le 2 (p_minor p)" "peek 8 2 tmp = put_le 2 (p_regs p)"
    "peek 12 4 tmp = put_le 4 (of_nat (p_count p) :: u32)"
    by (simp_all add: tmp peek_def encode_header_def ascii_def write_u16le_put write_u32le_put)
  have "unat (of_nat (p_count p) :: u32) = p_count p"
    using pl by (intro of_nat_unat_id) simp
  then have rd: "read_u16le tmp 6 = p_minor p" "read_u16le tmp 8 = p_regs p" "unat (read_u32le tmp 12) = p_count p"
    using l16 by (simp_all add: read_u16le_get read_u32le_get p6 get_le_put_le)
  have ins: "instr_at tmp i = source_instr (program_code p ! i)" if i: "i < p_count p" for i
  proof -
    have "i * 24 + 24 \<le> p_count p * 24" using i by simp
    then have fit: "rec_off i + 24 \<le> length tmp"
      unfolding rec_off_def header_size_def instruction_size_def tmp by (simp add: lb)
    have "peek (rec_off i) 24 tmp = peek (i * 24) 24 (body @ encode_types p fc)"
      by (simp add: tmp peek_append_right rec_off_def header_size_def instruction_size_def)
    also have "\<dots> = encode_record (program_code p ! i)"
      using peek_concat [of "map encode_record (program_code p)" 24 i] i lc by (simp add: body)
    finally show ?thesis using fit by (simp add: instr_at_of instr_of_record)
  qed
  show ?thesis using len rd ins by (simp add: tmp lb)
qed

lemma encode_success:
  assumes "milena_bytecode_encode mem (Some p) (Some buf) capacity limits = (d, w, out)" and "d_status d = BC_OK"
  shows "\<exists>lim fc tmp m. resolve_limits limits = Inr lim \<and> encode_plan lim p = Inr (w, fc) \<and> w \<le> capacity \<and>
    encode_image p fc = Inr tmp \<and> verify_internal mem (Some tmp) lim = Inr m \<and> out = Some (poke 0 tmp buf)"
  using assms limits_status plan_status image_status verify_status
  by (auto simp: milena_bytecode_encode_def verifier_status_def split: sum.splits if_splits)

section \<open>Reading a module back into a program\<close>

definition read_source :: "bytes \<Rightarrow> nat \<Rightarrow> bc_source" where
  "read_source bs i =
     \<lparr>s_op = bs ! rec_off i, s_a = read_u32le bs (rec_off i + 4), s_b = read_u32le bs (rec_off i + 8),
      s_c = read_u32le bs (rec_off i + 12), s_imm = read_u64le bs (rec_off i + 16)\<rparr>"

definition decoded_program :: "module_info \<Rightarrow> bc_program" where
  "decoded_program m =
     (let n = m_count m; meta = 16 + n * 24; typed = (m_minor m = 2)
      in \<lparr>p_major = 1, p_minor = of_nat (m_minor m), p_regs = of_nat (m_regs m), p_count = n,
          p_instrs = Some (map (read_source (m_bytes m)) [0..<n]),
          p_rtypes = (if typed then Some (peek meta (m_regs m) (m_bytes m)) else None),
          p_rtype_count = (if typed then m_regs m else 0),
          p_ftypes = (if typed then Some (drop (meta + m_regs m) (m_bytes m)) else None),
          p_ftype_count = (if typed then length (m_fns m) else 0)\<rparr>)"

lemma check_instr_reserved: "check_instr m pc E = Inr E' \<Longrightarrow> \<not> i_reserved (code_at m pc)"
  by (auto simp: check_instr_def Let_def code_at_def split: if_splits)

lemma check_instrs_reserved:
  "check_instrs m pcs E = Inr E' \<Longrightarrow> pc \<in> set pcs \<Longrightarrow> \<not> i_reserved (code_at m pc)"
  by (induction m pcs E rule: check_instrs.induct) (auto simp: case_sum_Inr_iff check_instr_reserved)

lemma operands_imm:
  "operands_valid m pc op i \<Longrightarrow> op \<notin> {CONST_F64, CONST_BOOL, CALL} \<Longrightarrow> i_imm i = 0"
  by (cases op) (auto simp: operands_valid_def Let_def)

lemma put_read:
  assumes "o' + 4 \<le> length bs" shows "put_le 4 (read_u32le bs o') = peek o' 4 bs"
  using assms by (simp add: read_u32le_get put_le_get_le length_peek)

lemma put_read64:
  assumes "o' + 8 \<le> length bs" shows "put_le 8 (read_u64le bs o') = peek o' 8 bs"
  using assms by (simp add: read_u64le_get put_le_get_le length_peek)

lemma peek_split: "peek o' (a + b) bs = peek o' a bs @ peek (o' + a) b bs"
  by (simp add: peek_def take_add add.commute)

lemma encode_read_source:
  assumes fit: "rec_off i + 24 \<le> length bs" and res: "\<not> i_reserved (instr_at bs i)"
    and imm: "carries_immediate (read_source bs i) \<or> i_imm (instr_at bs i) = 0"
  shows "encode_record (read_source bs i) = peek (rec_off i) 24 bs"
proof -
  let ?r = "rec_off i"
  have "peek ?r 4 bs = [bs ! ?r, 0, 0, 0]"
    using fit res
    by (simp add: peek_def take_eq_map_nth upt_rec eval_nat_numeral instr_at_def Let_def)
  moreover have "(if carries_immediate (read_source bs i) then write_u64le (s_imm (read_source bs i))
      else replicate 8 0) = peek (?r + 16) 8 bs"
  proof (cases "carries_immediate (read_source bs i)")
    case True
    then show ?thesis using fit by (simp add: write_u64le_put read_source_def put_read64)
  next
    case False
    then have "read_u64le bs (?r + 16) = 0" using imm by (simp add: instr_at_def Let_def)
    then show ?thesis using False fit put_read64 [of "?r + 16" bs] by (simp add: put_le_zero)
  qed
  moreover have "peek ?r 24 bs = peek ?r 4 bs @ peek (?r + 4) 4 bs @ peek (?r + 8) 4 bs @ peek (?r + 12) 4 bs @ peek (?r + 16) 8 bs"
    using peek_split [of ?r 4 20 bs] peek_split [of "?r + 4" 4 16 bs] peek_split [of "?r + 8" 4 12 bs]
      peek_split [of "?r + 12" 4 8 bs] by (simp add: add.assoc)
  moreover have "s_op (read_source bs i) = bs ! ?r" "write_u32le (s_a (read_source bs i)) = peek (?r + 4) 4 bs"
    "write_u32le (s_b (read_source bs i)) = peek (?r + 8) 4 bs" "write_u32le (s_c (read_source bs i)) = peek (?r + 12) 4 bs"
    using fit by (simp_all add: read_source_def write_u32le_put put_read)
  ultimately show ?thesis
    by (simp add: encode_record_def)
qed

lemma scan_count:
  "scan_functions bs regs n pcs fns = Inr fns' \<Longrightarrow> length fns \<le> max_functions \<Longrightarrow>
     length fns' = length fns + length (filter (\<lambda>pc. i_op (instr_at bs pc) = Some FUNCTION) pcs) \<and>
     length fns' \<le> max_functions"
proof (induction pcs arbitrary: fns)
  case Nil
  then show ?case by simp
next
  case (Cons pc pcs)
  show ?case
  proof (cases "i_op (instr_at bs pc) = Some FUNCTION")
    case False
    then show ?thesis using Cons.IH [of fns] Cons.prems by (simp only: scan_functions.simps Let_def) auto
  next
    case True
    let ?g = "\<lparr>f_start = pc + 1, f_end = n, f_base = i_b (instr_at bs pc), f_arity = i_c (instr_at bs pc), f_ret = 0\<rparr>"
    from Cons.prems(1) True have "length fns < max_functions"
      and rest: "scan_functions bs regs n pcs (close_last pc fns @ [?g]) = Inr fns'"
      by (auto simp: Let_def split: if_splits)
    then show ?thesis using Cons.IH [OF rest] True by auto
  qed
qed


lemma program_of_verified:
  assumes v: "verify_internal mem (Some bs) lim = Inr m" and l: "resolve_limits limits = Inr lim"
  defines "p \<equiv> decoded_program m"
  shows "\<exists>fc. encode_plan lim p = Inr (length bs, fc) \<and> encode_image p fc = Inr bs"
proof -
  let ?n = "m_count m"
  from verify_internal_phases [OF v] obtain fns0 E where bs: "m_bytes m = bs"
    and h: "verify_header (Some bs) lim = Inr (m_minor m, m_regs m, ?n)"
    and f: "verify_functions mem bs (m_minor m) (m_regs m) ?n = Inr (fns0, m_owner m)"
    and t: "verify_types bs (m_minor m) (m_regs m) ?n fns0 = Inr (m_fns m, m_rtypes m)"
    and c: "check_instrs m [0..<?n] (\<lambda>_ _. False) = Inr E" by auto
  have hd: "16 + ?n * 24 \<le> length bs" "0 < m_regs m" "m_regs m \<le> 256" "0 < ?n" "?n \<le> 65536" "m_minor m \<le> 2"
    "m_regs m \<le> lim_registers lim" "?n \<le> lim_instructions lim" "length bs \<le> lim_bytes lim"
    using verify_header_facts [OF h] by (auto simp: header_size_def instruction_size_def max_registers_def max_instructions_def)
  have hw: "take 4 bs = ascii ''MLBC''" "read_u16le bs 4 = 1" "unat (read_u16le bs 6) = m_minor m"
    "unat (read_u16le bs 8) = m_regs m" "read_u16le bs 10 = 0" "unat (read_u32le bs 12) = ?n"
    "m_minor m < 2 \<Longrightarrow> length bs = 16 + ?n * 24"
    using h by (auto simp: verify_header_def Let_def header_size_def instruction_size_def split: if_splits)
  have len_fns: "length (m_fns m) = length fns0"
    using arg_cong [OF verify_types_sig [OF t], of length] by simp
  \<comment> \<open>the header\<close>
  have w16: "(of_nat (unat x) :: 'x::len word) = x" for x :: "'x::len word" by simp
  have pf: "p_major p = 1" "p_minor p = read_u16le bs 6" "p_regs p = read_u16le bs 8" "p_count p = ?n"
    "p_instrs p = Some (map (read_source bs) [0..<?n])"
    by (simp_all add: p_def decoded_program_def Let_def bs flip: hw(3,4))
  have code: "program_code p = map (read_source bs) [0..<?n]"
    by (simp add: program_code_def pf)
  have "encode_header p = peek 0 4 bs @ peek 4 2 bs @ peek 6 2 bs @ peek 8 2 bs @ peek 10 2 bs @ peek 12 4 bs"
    using hd(1) hw(1,2,5)
    by (simp add: encode_header_def pf write_u16le_put write_u32le_put hw(6)[symmetric] put_read peek_def [of 0 4]
        read_u16le_get put_le_get_le length_peek flip: hw(2,5))
  also have "\<dots> = peek 0 16 bs"
    using peek_split [of 0 4 12 bs] peek_split [of 4 2 10 bs] peek_split [of 6 2 8 bs] peek_split [of 8 2 6 bs]
      peek_split [of 10 2 4 bs] by simp
  finally have header: "encode_header p = take 16 bs" by (simp add: peek_def)
  \<comment> \<open>the records\<close>
  have ins: "\<not> i_reserved (instr_at bs i) \<and> (carries_immediate (read_source bs i) \<or> i_imm (instr_at bs i) = 0)"
    if i: "i < ?n" for i
  proof -
    have "\<not> i_reserved (instr_at bs i)"
      using check_instrs_reserved [OF c, of i] i by (simp add: code_at_def bs)
    moreover have "i \<in> set [0..<?n]" using i by simp
    then obtain op where "instr_ok m i op" using check_instrs_ok [OF c] by blast
    then have "i_op (instr_at bs i) = Some op" "operands_valid m i op (instr_at bs i)"
      by (simp_all add: instr_ok_def code_at_def bs)
    moreover from this have "op \<notin> {CONST_F64, CONST_BOOL, CALL} \<Longrightarrow> i_imm (instr_at bs i) = 0"
      using operands_imm [of m i op "instr_at bs i"] by simp
    moreover have "opcode_of (unat (s_op (read_source bs i))) = i_op (instr_at bs i)"
      by (simp add: read_source_def instr_at_def Let_def)
    ultimately show ?thesis
      by (auto simp: carries_immediate_def)
  qed
  have rec: "encode_record (read_source bs i) = peek (i * 24) 24 (drop 16 bs)" if i: "i < ?n" for i
  proof -
    have "i * 24 + 24 \<le> ?n * 24" using i by simp
    then have "rec_off i + 24 \<le> length bs" using hd(1) by (simp add: rec_off_def header_size_def instruction_size_def)
    from encode_read_source [OF this] ins [OF i] show ?thesis
      by (simp add: peek_drop rec_off_def header_size_def instruction_size_def)
  qed
  have mp: "map (encode_record \<circ> read_source bs) [0..<?n] = map (\<lambda>i. peek (i * 24) 24 (drop 16 bs)) [0..<?n]"
    by (rule map_cong) (simp_all add: rec)
  have "concat (map (\<lambda>i. peek (i * 24) 24 (drop 16 bs)) [0..<?n]) = take (?n * 24) (drop 16 bs)"
    using hd(1) by (intro concat_chunks) simp
  then have body: "concat (map encode_record (program_code p)) = take (?n * 24) (drop 16 bs)"
    unfolding code map_map mp .
  have "carries_immediate s \<or> f_eq (s_imm s) 0" if s: "s \<in> set (program_code p)" for s
  proof -
    obtain i where "i < ?n" "s = read_source bs i" using s by (auto simp: code)
    then show ?thesis using ins [of i] f_eq_finite [of 0 0] by (auto simp: read_source_def instr_at_def Let_def)
  qed
  then have img: "encode_image p fc = Inr (take 16 bs @ take (?n * 24) (drop 16 bs) @ encode_types p fc)" for fc
    by (simp add: encode_image_def encode_records_ok [THEN iffD2] header flip: body)
  have nz: "read_u16le bs 8 \<noteq> 0" using hd(2) hw(4) by auto
  have size: "milena_bytecode_encoded_size ?n = Some (16 + ?n * 24)"
    using hd by (simp add: encoded_size_Some)
  show ?thesis
  proof (cases "m_minor m = 2")
    case True
    then have ty: "milena_bytecode_typed_encoded_size ?n (m_regs m) (length fns0) = Some (length bs)"
      using t by (auto simp: verify_types_def Let_def header_size_def instruction_size_def split: if_splits sum.splits)
    then have lb: "length bs = 16 + ?n * 24 + m_regs m + length fns0" "length fns0 \<le> 64" "0 < length fns0"
      by (simp_all add: typed_encoded_size_Some)
    have scan: "scan_functions bs (m_regs m) ?n [0..<?n] [] = Inr fns0"
      using f True by (auto simp: verify_functions_def split: if_splits sum.splits)
    have flt: "length (filter (\<lambda>s. opcode_of (unat (s_op s)) = Some FUNCTION) (program_code p)) = length fns0"
      using scan_count [OF scan] by (simp add: code filter_map o_def read_source_def instr_at_def Let_def)
    then have cf: "count_functions 0 0 (program_code p) = Inr (length fns0)"
      using count_functions_total [of 0 "program_code p" 0] lb(2) by (simp add: max_functions_def)
    have pt: "p_rtype_count p = m_regs m" "p_ftype_count p = length fns0"
      "p_rtypes p = Some (peek (16 + ?n * 24) (m_regs m) bs)" "p_ftypes p = Some (drop (16 + ?n * 24 + m_regs m) bs)"
      using True len_fns by (simp_all add: p_def decoded_program_def Let_def bs)
    have "encode_plan lim p = Inr (length bs, length fns0)"
      using hd hw True
      by (simp add: encode_plan_def pf size cf pt ty nz)
    moreover have "encode_types p (length fns0) = drop (16 + ?n * 24) bs"
    proof -
      have "drop (16 + ?n * 24) bs = peek (16 + ?n * 24) (m_regs m) bs @ drop (16 + ?n * 24 + m_regs m) bs"
        by (rule drop_peek)
      then show ?thesis using True hw lb by (simp add: encode_types_def pf pt peek_def)
    qed
    moreover have "take 16 bs @ take (?n * 24) (drop 16 bs) @ drop (16 + ?n * 24) bs = bs"
      using take_drop_split3 [of 16 "16 + ?n * 24" bs] by simp
    ultimately show ?thesis using img by metis
  next
    case False
    then have lb: "length bs = 16 + ?n * 24" using hw hd by simp
    have pt: "p_rtype_count p = 0" "p_ftype_count p = 0" "p_rtypes p = None" "p_ftypes p = None"
      using False by (simp_all add: p_def decoded_program_def Let_def bs)
    have "encode_plan lim p = Inr (length bs, 0)"
      using hd hw False lb
      by (simp add: encode_plan_def pf size pt nz)
    moreover have "take 16 bs @ take (?n * 24) (drop 16 bs) @ encode_types p 0 = bs"
      using lb False hw by (simp add: encode_types_def pf)
    ultimately show ?thesis using img by metis
  qed
qed

section \<open>Properties\<close>

text \<open>
  C30.  A successful encoding is a module the verifier accepts under the same limits; it has exactly
  the announced length, leaves the rest of the caller's buffer alone, and reading it back gives
  the program: version, register count, instruction count, every instruction (with the immediate
  of an instruction that carries none normalised to the zero bits) and the type tables.
\<close>

theorem bytecode_encode_sound:
  assumes "program_readable p" and "capacity \<le> length buf"
    and "milena_bytecode_encode mem (Some p) (Some buf) capacity limits = (d, w, Some buf')"
    and "d_status d = BC_OK"
  shows "milena_bytecode_verify mem (Some (take w buf')) limits = Inr () \<and>
    w \<le> capacity \<and> length buf' = length buf \<and> drop w buf' = drop w buf \<and>
    read_u16le (take w buf') 6 = p_minor p \<and> read_u16le (take w buf') 8 = p_regs p \<and>
    unat (read_u32le (take w buf') 12) = p_count p \<and>
    (\<forall>i < p_count p. instr_at (take w buf') i = source_instr (program_code p ! i)) \<and>
    drop (16 + p_count p * 24) (take w buf') = encode_types p (p_ftype_count p)"
proof -
  from encode_success [OF assms(3,4)] obtain lim fc tmp m where
    l: "resolve_limits limits = Inr lim" and pl: "encode_plan lim p = Inr (w, fc)" and wc: "w \<le> capacity"
    and im: "encode_image p fc = Inr tmp" and v: "verify_internal mem (Some tmp) lim = Inr m"
    and b: "buf' = poke 0 tmp buf" by auto
  note f = image_facts [OF pl assms(1) im]
  have tk: "take w buf' = tmp" using f wc assms(2) by (auto simp: b take_poke_0)
  have "encode_types p fc = encode_types p (p_ftype_count p)"
    using plan_ok [OF pl] by (simp add: encode_types_def)
  then show ?thesis
    unfolding tk using f wc assms(2) v l
    by (simp add: milena_bytecode_verify_def b drop_poke)
qed

text \<open>
  C31.  The encoder reaches every module: the program read out of a verified module encodes back to
  that module byte for byte, whatever the buffer held, so the wire format has one spelling per
  program.
\<close>

theorem bytecode_encode_complete:
  assumes "resolve_limits limits = Inr lim" and "verify_internal mem (Some bs) lim = Inr m"
    and "mem SiteEncode (length bs)" and "length bs \<le> capacity" and "capacity \<le> length buf"
  shows "milena_bytecode_encode mem (Some (decoded_program m)) (Some buf) capacity limits =
    (Diag BC_OK 0, length bs, Some (bs @ drop (length bs) buf))"
  using program_of_verified [OF assms(2,1)] assms
  by (auto simp: milena_bytecode_encode_def poke_def)

text \<open>
  A failed encoding leaves the output untouched.  A nonzero \<open>*written\<close> comes only with the
  buffer-too-small status, is larger than the capacity that was given, and is the size to retry
  with: a buffer of that size is never too small for the same program.
\<close>

theorem bytecode_encode_failure:
  assumes "milena_bytecode_encode mem p out capacity limits = (d, w, out')" and "d_status d \<noteq> BC_OK"
  shows "out' = out \<and>
    (w \<noteq> 0 \<longrightarrow> d_status d = BC_BUFFER_TOO_SMALL \<and> capacity < w \<and>
      (\<forall>buf retry. w \<le> retry \<longrightarrow>
         d_status (fst (milena_bytecode_encode mem p (Some buf) retry limits)) \<noteq> BC_BUFFER_TOO_SMALL))"
proof (cases "w = 0")
  case True
  then show ?thesis
    using assms
    by (auto simp: milena_bytecode_encode_def split: sum.splits option.splits if_splits)
next
  case False
  from assms False obtain lim q fc where l: "resolve_limits limits = Inr lim" and q: "p = Some q"
    and pl: "encode_plan lim q = Inr (w, fc)" and d: "d_status d = BC_BUFFER_TOO_SMALL" "capacity < w" "out' = out"
    by (auto simp: milena_bytecode_encode_def split: sum.splits option.splits if_splits)
  have "d_status (fst (milena_bytecode_encode mem p (Some buf) retry limits)) \<noteq> BC_BUFFER_TOO_SMALL"
    if "w \<le> retry" for buf retry
    using that image_status verify_status
    by (auto simp: milena_bytecode_encode_def l q pl verifier_status_def split: sum.splits)
  then show ?thesis using d by simp
qed

section \<open>Witnesses\<close>

lemma demo_length: "length demo_bytes = 165"
  by (simp add: demo_bytes_def)

lemma demo_encode:
  "milena_bytecode_encode (\<lambda>_ _. True) (Some (decoded_program demo_module)) (Some (replicate 170 7)) 170 None =
    (Diag BC_OK 0, 165, Some (demo_bytes @ replicate 5 7))"
  using program_of_verified [OF demo_verified demo_resolve]
  by (auto simp: milena_bytecode_encode_def poke_def demo_resolve demo_verified demo_length)

lemma demo_readable: "program_readable (decoded_program demo_module)"
  by (simp add: program_readable_def decoded_program_def demo_module_def demo_bytes_def demo_fns_def Let_def peek_def)

theorem bytecode_encode_sound_witness:
  "milena_bytecode_verify (\<lambda>_ _. True) (Some (take 165 (demo_bytes @ replicate 5 7))) None = Inr ()"
  by (rule conjunct1 [OF bytecode_encode_sound [OF demo_readable _ demo_encode]]) simp_all

theorem bytecode_encode_complete_witness:
  "milena_bytecode_encode (\<lambda>_ _. True) (Some (decoded_program demo_module)) (Some (replicate 200 0)) 170 None =
    (Diag BC_OK 0, length demo_bytes, Some (demo_bytes @ drop (length demo_bytes) (replicate 200 0)))"
  by (rule bytecode_encode_complete [OF demo_resolve demo_verified]) (simp_all add: demo_length)

lemma demo_too_small:
  "milena_bytecode_encode (\<lambda>_ _. True) (Some (decoded_program demo_module)) None 0 None =
    (Diag BC_BUFFER_TOO_SMALL 165, 165, None)"
  using program_of_verified [OF demo_verified demo_resolve]
  by (auto simp: milena_bytecode_encode_def demo_resolve demo_length)

theorem bytecode_encode_failure_witness:
  "\<forall>buf. d_status (fst (milena_bytecode_encode (\<lambda>_ _. True) (Some (decoded_program demo_module)) (Some buf) 165 None)) \<noteq>
     BC_BUFFER_TOO_SMALL"
  using bytecode_encode_failure [OF demo_too_small] by simp

end
