(* ===== verification/CommonText.thy ===== *)
theory CommonText
  imports Common
begin

text \<open>
  The text services of common.c: \<open>milena_token_next\<close>, the reentrant tokenizer, and
  \<open>milena_json_write_string\<close>, the string writer of every serializer.

  The tokenizer cuts its buffer in place by storing a NUL over the delimiter after the token; a
  buffer is the list of bytes up to its terminator, so a cut is the split of that list and the
  saved cursor is the list that follows the cut.  The caller's \<open>state\<close> cell is an option.
\<close>

section \<open>Tokenizer\<close>

definition milena_token_next ::
  "bytes option \<Rightarrow> bytes option \<Rightarrow> bytes option \<Rightarrow> bytes option \<times> bytes option"
where
  "milena_token_next text delimiters state =
     (case delimiters of
        None \<Rightarrow> (None, state)
      | Some ds \<Rightarrow>
          (case (if text \<noteq> None then text else state) of
             None \<Rightarrow> (None, state)
           | Some s \<Rightarrow>
               let cursor = dropWhile (\<lambda>b. b \<in> set ds) s
               in if cursor = [] then (None, None)
                  else let token = takeWhile (\<lambda>b. b \<notin> set ds) cursor;
                           rest = dropWhile (\<lambda>b. b \<notin> set ds) cursor
                       in if rest = [] then (Some token, None) else (Some token, Some (tl rest))))"

lemma token_next_shorter:
  assumes "milena_token_next None (Some ds) (Some s) = (Some t, Some s')"
  shows "length s' < length s"
proof -
  define c where "c = dropWhile (\<lambda>b. b \<in> set ds) s"
  define r where "r = dropWhile (\<lambda>b. b \<notin> set ds) c"
  have "r \<noteq> []" "s' = tl r"
    using assms
    by (simp_all add: milena_token_next_def Let_def c_def [symmetric] r_def [symmetric] split: if_split_asm)
  moreover have "length r \<le> length c" "length c \<le> length s"
    by (simp_all add: r_def c_def length_dropWhile_le)
  ultimately show ?thesis by (cases r) auto
qed

text \<open>The caller's loop: the first call with the text, the others with the null pointer.\<close>

function token_loop :: "bytes \<Rightarrow> bytes option \<Rightarrow> bytes list" where
  "token_loop ds None = []"
| "token_loop ds (Some s) =
     (case milena_token_next None (Some ds) (Some s) of
        (None, _) \<Rightarrow> []
      | (Some t, st) \<Rightarrow> t # token_loop ds st)"
  by pat_completeness auto
termination
proof (relation "measure (\<lambda>(ds, st). case st of None \<Rightarrow> 0 | Some s \<Rightarrow> Suc (length s))", goal_cases)
  case 1
  show ?case by simp
next
  case (2 ds s x y t)
  then have "milena_token_next None (Some ds) (Some s) = (Some t, y)" by simp
  then show ?case using token_next_shorter [of ds s t] by (cases y) auto
qed

definition milena_tokens :: "bytes \<Rightarrow> bytes \<Rightarrow> bytes list" where
  "milena_tokens ds text =
     (case milena_token_next (Some text) (Some ds) None of
        (None, _) \<Rightarrow> []
      | (Some t, st) \<Rightarrow> t # token_loop ds st)"

text \<open>The reference: split at every delimiter, keep the pieces that are not empty.\<close>

fun split_at :: "bytes \<Rightarrow> bytes \<Rightarrow> bytes \<Rightarrow> bytes list" where
  "split_at ds acc [] = [acc]"
| "split_at ds acc (b # bs) =
     (if b \<in> set ds then acc # split_at ds [] bs else split_at ds (acc @ [b]) bs)"

definition fields_of :: "bytes \<Rightarrow> bytes \<Rightarrow> bytes list" where
  "fields_of ds s = filter (\<lambda>f. f \<noteq> []) (split_at ds [] s)"

lemma split_at_token:
  "split_at ds acc s =
     (let t = takeWhile (\<lambda>b. b \<notin> set ds) s; r = dropWhile (\<lambda>b. b \<notin> set ds) s
      in if r = [] then [acc @ t] else (acc @ t) # split_at ds [] (tl r))"
  by (induction ds acc s rule: split_at.induct) (auto simp: Let_def)

lemma fields_skip: "fields_of ds (dropWhile (\<lambda>b. b \<in> set ds) s) = fields_of ds s"
  by (induction s) (auto simp: fields_of_def)

lemma fields_token:
  assumes "s \<noteq> []" and "hd s \<notin> set ds"
  shows "fields_of ds s = takeWhile (\<lambda>b. b \<notin> set ds) s #
    (if dropWhile (\<lambda>b. b \<notin> set ds) s = [] then [] else fields_of ds (tl (dropWhile (\<lambda>b. b \<notin> set ds) s)))"
proof -
  have "takeWhile (\<lambda>b. b \<notin> set ds) s \<noteq> []" using assms by (cases s) auto
  then show ?thesis
    by (simp add: fields_of_def split_at_token [of ds "[]" s] Let_def)
qed

lemma token_next_fields:
  "fields_of ds s =
     (case milena_token_next None (Some ds) (Some s) of
        (None, _) \<Rightarrow> []
      | (Some t, st) \<Rightarrow> t # (case st of None \<Rightarrow> [] | Some s' \<Rightarrow> fields_of ds s'))"
proof -
  define c where "c = dropWhile (\<lambda>b. b \<in> set ds) s"
  have "c \<noteq> [] \<Longrightarrow> hd c \<notin> set ds" using hd_dropWhile [of "\<lambda>b. b \<in> set ds" s] by (simp add: c_def)
  then show ?thesis
    using fields_skip [of ds s] fields_token [of c ds]
    by (auto simp: milena_token_next_def Let_def c_def [symmetric] fields_of_def [of _ "[]"])
qed

lemma token_loop_fields: "token_loop ds st = (case st of None \<Rightarrow> [] | Some s \<Rightarrow> fields_of ds s)"
proof (induction ds st rule: token_loop.induct)
  case (2 ds s)
  then show ?case
    by (auto simp: token_next_fields [of ds s] split: option.splits prod.splits)
qed simp

section \<open>JSON strings\<close>

definition hex_digit :: "nat \<Rightarrow> u8" where
  "hex_digit n = (if n < 10 then of_nat (48 + n) else of_nat (87 + n))"

definition hex4 :: "nat \<Rightarrow> bytes" where
  "hex4 n = [hex_digit (n div 4096 mod 16), hex_digit (n div 256 mod 16), hex_digit (n div 16 mod 16),
     hex_digit (n mod 16)]"

definition json_char :: "u8 \<Rightarrow> bytes" where
  "json_char p =
     (if p = 34 then [92, 34]
      else if p = 92 then [92, 92]
      else if p = 10 then [92, 110]
      else if p = 13 then [92, 114]
      else if p = 9 then [92, 116]
      else if p < 32 then [92, 117] @ hex4 (unat p)
      else [p])"

definition milena_json_write_string :: "bytes option \<Rightarrow> bytes" where
  "milena_json_write_string text =
     [34] @ concat (map json_char (case text of None \<Rightarrow> [] | Some t \<Rightarrow> takeWhile (\<lambda>b. b \<noteq> 0) t)) @ [34]"

text \<open>A JSON reader of string literals (RFC 8259), the specification the writer is checked against.\<close>

definition hex_value :: "u8 \<Rightarrow> nat option" where
  "hex_value b =
     (if 48 \<le> b \<and> b \<le> 57 then Some (unat b - 48)
      else if 97 \<le> b \<and> b \<le> 102 then Some (unat b - 87)
      else if 65 \<le> b \<and> b \<le> 70 then Some (unat b - 55)
      else None)"

fun json_unescape :: "bytes \<Rightarrow> (bytes \<times> bytes) option" where
  "json_unescape (b # bs) =
     (if b = 34 then Some ([], bs)
      else if b < 32 then None
      else if b = 92 then
        (case bs of
           e # rest \<Rightarrow>
             if e = 34 \<or> e = 92 \<or> e = 47 then map_option (\<lambda>(t, r). (e # t, r)) (json_unescape rest)
             else if e = 110 then map_option (\<lambda>(t, r). (10 # t, r)) (json_unescape rest)
             else if e = 114 then map_option (\<lambda>(t, r). (13 # t, r)) (json_unescape rest)
             else if e = 116 then map_option (\<lambda>(t, r). (9 # t, r)) (json_unescape rest)
             else if e = 117 then
               (case rest of
                  h1 # h2 # h3 # h4 # rest' \<Rightarrow>
                    (case (hex_value h1, hex_value h2, hex_value h3, hex_value h4) of
                       (Some 0, Some 0, Some x, Some y) \<Rightarrow>
                         if 16 * x + y < 128
                         then map_option (\<lambda>(t, r). (of_nat (16 * x + y) # t, r)) (json_unescape rest')
                         else None
                     | _ \<Rightarrow> None)
                | _ \<Rightarrow> None)
             else None
         | [] \<Rightarrow> None)
      else map_option (\<lambda>(t, r). (b # t, r)) (json_unescape bs))"
| "json_unescape [] = None"

definition json_read_string :: "bytes \<Rightarrow> (bytes \<times> bytes) option" where
  "json_read_string bs = (case bs of b # rest \<Rightarrow> if b = 34 then json_unescape rest else None | [] \<Rightarrow> None)"

lemma hex_digit_value: "n < 16 \<Longrightarrow> hex_value (hex_digit n) = Some n"
proof -
  assume "n < 16"
  then have "n \<in> set [0..<16]" by simp
  moreover have "\<forall>n \<in> set [0..<16]. hex_value (hex_digit n) = Some n"
    by (simp add: upt_rec hex_digit_def hex_value_def)
  ultimately show ?thesis by blast
qed

lemma json_unescape_char:
  "json_unescape (json_char p @ bs) = map_option (\<lambda>(t, r). (p # t, r)) (json_unescape bs)"
proof (cases "p < 32 \<and> p \<notin> {34, 92, 10, 13, 9}")
  case True
  define n where "n = unat p"
  have n: "n < 32" using True by (simp add: n_def word_less_nat_alt)
  have p: "p = of_nat n" by (simp add: n_def)
  have "n div 4096 mod 16 = 0" "n div 256 mod 16 = 0" using n by simp_all
  moreover have "16 * (n div 16 mod 16) + n mod 16 = n" using n by (simp add: mult_div_mod_eq)
  ultimately have "json_unescape ([92, 117] @ hex4 n @ bs) = map_option (\<lambda>(t, r). (of_nat n # t, r)) (json_unescape bs)"
    using n by (simp add: hex4_def hex_digit_value)
  then show ?thesis using True by (simp add: json_char_def p [symmetric] n_def)
next
  case False
  then show ?thesis by (auto simp: json_char_def)
qed

lemma json_unescape_chars:
  "json_unescape (concat (map json_char t) @ 34 # bs) = Some (t, bs)"
proof (induction t)
  case Nil
  then show ?case by simp
next
  case (Cons p t)
  then show ?case using json_unescape_char [of p "concat (map json_char t) @ 34 # bs"] by simp
qed

section \<open>Properties\<close>

text \<open>
  Tokenizing a text to the end gives exactly its non-empty fields between delimiters, in
  order, for any delimiter set.
\<close>

lemma milena_tokens_fields: "milena_tokens ds s = fields_of ds s"
proof -
  have first: "milena_token_next (Some s) (Some ds) None = milena_token_next None (Some ds) (Some s)"
    by (simp add: milena_token_next_def)
  obtain t st where "milena_token_next None (Some ds) (Some s) = (t, st)" by fastforce
  then show ?thesis
    using token_next_fields [of ds s]
    by (cases t) (simp_all add: milena_tokens_def first token_loop_fields)
qed

text \<open>
  C40.  What the string writer emits is a JSON string: a JSON reader gets the text back, whatever
  follows it, and no control character is left unescaped.
\<close>

theorem json_write_string_roundtrip:
  "json_read_string (milena_json_write_string (Some t) @ rest) = Some (takeWhile (\<lambda>b. b \<noteq> 0) t, rest)"
  by (simp add: json_read_string_def milena_json_write_string_def json_unescape_chars)

end
