(* ===== verification/BytecodeData.thy ===== *)
theory BytecodeData
  imports BytecodeFormat
begin

text \<open>
  bytecode_data.c: the v1.3 data-plan module (DPLN section), its UTF-8 and identifier checks, the
  size computation, the encoder and the verifier.

  A string view is an optional byte list, \<open>None\<close> being a null pointer (which every path rejects,
  whatever the length beside it).  A cursor into a string is the list of the bytes after it.  The
  encoder clears the output and stores each field once, in increasing order; \<open>data_image\<close> is
  that content with the cleared gaps written out.
\<close>

definition data_max_module_bytes :: nat where "data_max_module_bytes = 65536"
definition data_max_string_bytes :: nat where "data_max_string_bytes = 4096"
definition data_max_total_string_bytes :: nat where "data_max_total_string_bytes = 16384"
definition data_fixed_section_size :: nat where "data_fixed_section_size = 88"

record data_limits =
  max_input_file_bytes :: u32
  max_input_data_rows :: u32
  max_input_columns :: u32
  max_csv_field_bytes :: u32

record data_plan =
  dp_source_path :: "bytes option"
  dp_export_path :: "bytes option"
  dp_input_column :: "bytes option"
  dp_operation :: u8
  dp_span_present :: bool
  dp_source_line :: u32
  dp_source_column :: u32
  dp_limits :: data_limits

record data_view =
  dv_source_path :: bytes
  dv_export_path :: bytes
  dv_input_column :: bytes
  dv_result_column :: bytes
  dv_operation :: u8
  dv_span_present :: bool
  dv_source_line :: u32
  dv_source_column :: u32
  dv_limits :: data_limits

section \<open>UTF-8\<close>

text \<open>The lead byte: the bits it contributes and the width it announces.\<close>

definition utf8_lead :: "u8 \<Rightarrow> (u32 \<times> nat) option" where
  "utf8_lead b0 =
     (if b0 \<le> 0x7f then Some (ucast b0, 1)
      else if b0 \<ge> 0xc2 \<and> b0 \<le> 0xdf then Some (ucast (b0 AND 0x1f), 2)
      else if b0 \<ge> 0xe0 \<and> b0 \<le> 0xef then Some (ucast (b0 AND 0x0f), 3)
      else if b0 \<ge> 0xf0 \<and> b0 \<le> 0xf4 then Some (ucast (b0 AND 0x07), 4)
      else None)"

fun utf8_tail :: "u8 \<Rightarrow> nat \<Rightarrow> u32 \<Rightarrow> bytes \<Rightarrow> u32 option" where
  "utf8_tail b0 k cp [] = Some cp"
| "utf8_tail b0 k cp (next # rest) =
     (if next AND 0xc0 \<noteq> 0x80 then None
      else if k = 1 \<and> ((b0 = 0xe0 \<and> next < 0xa0) \<or> (b0 = 0xed \<and> next \<ge> 0xa0) \<or>
                        (b0 = 0xf0 \<and> next < 0x90) \<or> (b0 = 0xf4 \<and> next \<ge> 0x90)) then None
      else utf8_tail b0 (k + 1) (push_bit 6 cp OR ucast (next AND 0x3f)) rest)"

definition data_utf8_next :: "bytes \<Rightarrow> (u32 \<times> bytes) option" where
  "data_utf8_next s =
     (case s of
        [] \<Rightarrow> None
      | b0 # _ \<Rightarrow>
          (case utf8_lead b0 of
             None \<Rightarrow> None
           | Some (cp, width) \<Rightarrow>
               if width > length s then None
               else map_option (\<lambda>c. (c, drop width s)) (utf8_tail b0 1 cp (take (width - 1) (tl s)))))"

lemma utf8_next_shorter: "data_utf8_next s = Some (cp, rest) \<Longrightarrow> length rest < length s"
  by (auto simp: data_utf8_next_def utf8_lead_def split: list.splits option.splits if_splits)

function utf8_all :: "bytes \<Rightarrow> bool" where
  "utf8_all s =
     (if s = [] then True
      else case data_utf8_next s of
             None \<Rightarrow> False
           | Some (cp, rest) \<Rightarrow> cp \<noteq> 0 \<and> utf8_all rest)"
  by pat_completeness auto
termination
  by (relation "measure length") (auto dest: utf8_next_shorter)

declare utf8_all.simps [simp del]

definition data_valid_string :: "bytes option \<Rightarrow> bool" where
  "data_valid_string string =
     (case string of
        None \<Rightarrow> False
      | Some s \<Rightarrow> length s \<noteq> 0 \<and> length s \<le> data_max_string_bytes \<and> utf8_all s)"

definition data_ascii_identifier_start :: "u32 \<Rightarrow> bool" where
  "data_ascii_identifier_start cp \<longleftrightarrow> cp = 95 \<or> (65 \<le> cp \<and> cp \<le> 90) \<or> (97 \<le> cp \<and> cp \<le> 122)"

definition data_ascii_identifier_continue :: "u32 \<Rightarrow> bool" where
  "data_ascii_identifier_continue cp \<longleftrightarrow> data_ascii_identifier_start cp \<or> (48 \<le> cp \<and> cp \<le> 57)"

function identifier_all :: "bool \<Rightarrow> bytes \<Rightarrow> bool" where
  "identifier_all first s =
     (if s = [] then \<not> first
      else case data_utf8_next s of
             None \<Rightarrow> False
           | Some (cp, rest) \<Rightarrow>
               if cp \<ge> 0x80 then identifier_all False rest
               else if (if first then \<not> data_ascii_identifier_start cp
                        else \<not> data_ascii_identifier_continue cp) then False
               else identifier_all False rest)"
  by pat_completeness auto
termination
  by (relation "measure (\<lambda>(_, s). length s)") (auto dest: utf8_next_shorter)

declare identifier_all.simps [simp del]

definition data_valid_identifier :: "bytes option \<Rightarrow> bool" where
  "data_valid_identifier string \<longleftrightarrow>
     data_valid_string string \<and> length (the string) \<le> 255 \<and> identifier_all True (the string)"

section \<open>Plan checks and sizes\<close>

definition data_suffix :: "u8 \<Rightarrow> bytes option" where
  "data_suffix operation =
     (if operation = 1 then Some (ascii ''_suma'')
      else if operation = 2 then Some (ascii ''_conteo'')
      else None)"

definition data_suffix_length :: "u8 \<Rightarrow> nat" where
  "data_suffix_length operation =
     (case data_suffix operation of None \<Rightarrow> 0 | Some _ \<Rightarrow> if operation = 1 then 5 else 7)"

definition data_valid_caps :: "data_limits \<Rightarrow> bool" where
  "data_valid_caps l \<longleftrightarrow>
     max_input_file_bytes l \<noteq> 0 \<and> max_input_file_bytes l \<le> 67108864 \<and>
     max_input_data_rows l \<noteq> 0 \<and> max_input_data_rows l \<le> 5000 \<and>
     max_input_columns l \<noteq> 0 \<and> max_input_columns l \<le> 70 \<and>
     max_csv_field_bytes l \<noteq> 0 \<and> max_csv_field_bytes l \<le> 1048576"

definition data_add_size :: "nat \<Rightarrow> nat \<Rightarrow> nat option" where
  "data_add_size a b = (if b > size_max - a then None else Some (a + b))"

fun data_add_sizes :: "nat \<Rightarrow> nat list \<Rightarrow> nat option" where
  "data_add_sizes a [] = Some a"
| "data_add_sizes a (b # bs) = (case data_add_size a b of None \<Rightarrow> None | Some c \<Rightarrow> data_add_sizes c bs)"

definition span_consistent :: "bool \<Rightarrow> u32 \<Rightarrow> u32 \<Rightarrow> bool" where
  "span_consistent present sl sc \<longleftrightarrow>
     \<not> (present \<and> (sl = 0 \<or> sc = 0)) \<and> \<not> (\<not> present \<and> (sl \<noteq> 0 \<or> sc \<noteq> 0))"

text \<open>The module size, the string table size and the length of the result name.\<close>

definition data_plan_sizes :: "data_plan option \<Rightarrow> (nat \<times> nat \<times> nat) option" where
  "data_plan_sizes plan =
     (case plan of None \<Rightarrow> None | Some p \<Rightarrow>
      if data_suffix (dp_operation p) = None \<or> \<not> data_valid_string (dp_source_path p) \<or>
         \<not> data_valid_string (dp_export_path p) \<or> \<not> data_valid_identifier (dp_input_column p) \<or>
         \<not> data_valid_caps (dp_limits p) \<or>
         \<not> span_consistent (dp_span_present p) (dp_source_line p) (dp_source_column p)
      then None
      else
        let ns = length (the (dp_source_path p)); ne = length (the (dp_export_path p));
            ni = length (the (dp_input_column p))
        in case data_add_size ni (data_suffix_length (dp_operation p)) of None \<Rightarrow> None | Some nr \<Rightarrow>
           if nr > 255 \<or> nr > data_max_string_bytes then None
           else if ns > data_max_string_bytes \<or> ne > data_max_string_bytes \<or> ns > size_max - ne \<or>
                   ns + ne > size_max - ni \<or> ns + ne + ni > size_max - nr then None
           else if ns + ne + ni + nr > data_max_total_string_bytes then None
           else case data_add_sizes 0 [4, ns, 4, ne, 4, ni, 4, nr] of None \<Rightarrow> None | Some tab \<Rightarrow>
                case data_add_size data_fixed_section_size tab of None \<Rightarrow> None | Some sec \<Rightarrow>
                case data_add_size header_size sec of None \<Rightarrow> None | Some modl \<Rightarrow>
                if modl > data_max_module_bytes \<or> sec > uint32_max \<or> tab > uint32_max then None
                else Some (modl, tab, nr))"

definition milena_bytecode_data_encoded_size :: "data_plan option \<Rightarrow> nat option" where
  "milena_bytecode_data_encoded_size plan = map_option fst (data_plan_sizes plan)"

section \<open>Encoder\<close>

definition data_write_u16 :: "u16 \<Rightarrow> bytes" where
  "data_write_u16 v = [ucast (v AND 0xff), ucast (drop_bit 8 v AND 0xff)]"

definition data_write_u32 :: "u32 \<Rightarrow> bytes" where
  "data_write_u32 v = [ucast (v AND 0xff), ucast (drop_bit 8 v AND 0xff),
     ucast (drop_bit 16 v AND 0xff), ucast (drop_bit 24 v AND 0xff)]"

definition data_write_string :: "bytes \<Rightarrow> bytes" where
  "data_write_string s = data_write_u32 (of_nat (length s)) @ s"

definition data_image :: "data_plan \<Rightarrow> nat \<Rightarrow> nat \<Rightarrow> nat \<Rightarrow> bytes" where
  "data_image p required table_bytes result_length =
     concat [
       ascii ''MLBC'', data_write_u16 1, data_write_u16 3, data_write_u16 0, data_write_u16 1, data_write_u32 0,
       ascii ''DPLN'', data_write_u16 1, data_write_u16 0, data_write_u32 (of_nat (required - header_size)),
       data_write_u32 1, data_write_u32 1, data_write_u32 1,
       data_write_u32 (max_input_file_bytes (dp_limits p)), data_write_u32 (max_input_data_rows (dp_limits p)),
       data_write_u32 (max_input_columns (dp_limits p)), data_write_u32 (max_csv_field_bytes (dp_limits p)),
       data_write_u32 1, data_write_u32 4, data_write_u32 (of_nat table_bytes), replicate 4 0,
       data_write_u32 2, [1], replicate 3 0,
       [dp_operation p], [1], data_write_u16 (if dp_span_present p then 1 else 0),
       data_write_u32 2, data_write_u32 3,
       data_write_u32 (if dp_span_present p then dp_source_line p else 0),
       data_write_u32 (if dp_span_present p then dp_source_column p else 0), replicate 4 0,
       data_write_string (the (dp_source_path p)), data_write_string (the (dp_export_path p)),
       data_write_string (the (dp_input_column p)),
       data_write_u32 (of_nat result_length), the (dp_input_column p),
       take (data_suffix_length (dp_operation p)) (the (data_suffix (dp_operation p)))]"

definition milena_bytecode_data_encode ::
  "data_plan option \<Rightarrow> bytes option \<Rightarrow> nat \<Rightarrow> bc_diag \<times> nat \<times> bytes option"
where
  "milena_bytecode_data_encode plan out capacity =
     (case data_plan_sizes plan of None \<Rightarrow> (Diag BC_BAD_FORMAT 0, 0, out) | Some (required, tab, nr) \<Rightarrow>
      case out of
        None \<Rightarrow> if capacity = 0 then (Diag BC_BUFFER_TOO_SMALL 0, required, out)
                else (Diag BC_ARGUMENT 0, required, out)
      | Some buf \<Rightarrow>
          if capacity < required then (Diag BC_BUFFER_TOO_SMALL 0, required, out)
          else let image = data_image (the plan) required tab nr; out' = Some (poke 0 image buf)
               in if length image \<noteq> required then (Diag BC_BAD_FORMAT (length image), required, out')
                  else (Diag BC_OK 0, required, out'))"

section \<open>Verifier\<close>

definition data_read_u16 :: "bytes \<Rightarrow> nat \<Rightarrow> u16" where
  "data_read_u16 p o' = ucast (p ! o') OR push_bit 8 (ucast (p ! (o' + 1)))"

definition data_read_u32 :: "bytes \<Rightarrow> nat \<Rightarrow> u32" where
  "data_read_u32 p o' = ucast (p ! o') OR push_bit 8 (ucast (p ! (o' + 1))) OR
     push_bit 16 (ucast (p ! (o' + 2))) OR push_bit 24 (ucast (p ! (o' + 3)))"

text \<open>
  One string of the table, from \<open>cursor\<close> with \<open>tot\<close> string bytes so far; on failure the cursor as
  the C code leaves it, which the caller reports.
\<close>

definition data_read_string :: "bytes \<Rightarrow> nat \<Rightarrow> nat \<Rightarrow> nat \<Rightarrow> nat + bytes \<times> nat \<times> nat" where
  "data_read_string bs cursor table_end tot =
     (if cursor > table_end \<or> table_end - cursor < 4 then Inl cursor
      else let len = unat (data_read_u32 bs cursor); cur = cursor + 4
           in if len = 0 \<or> len > data_max_string_bytes then Inl cur
              else if cur > table_end \<or> len > table_end - cur \<or> len > data_max_total_string_bytes - tot
              then Inl cur
              else let s = peek cur len bs
                   in if \<not> data_valid_string (Some s) then Inl cur else Inr (s, cur + len, tot + len))"

definition data_check_header :: "bytes option \<Rightarrow> bc_diag + bytes" where
  "data_check_header input =
     (case input of None \<Rightarrow> Inl (Diag BC_ARGUMENT 0) | Some bs \<Rightarrow>
      if length bs < header_size then Inl (Diag BC_BAD_FORMAT (length bs))
      else if length bs > data_max_module_bytes then Inl (Diag BC_LIMIT_EXCEEDED 0)
      else if peek 0 4 bs \<noteq> ascii ''MLBC'' then Inl (Diag BC_BAD_MAGIC 0)
      else if data_read_u16 bs 4 \<noteq> 1 \<or> data_read_u16 bs 6 \<noteq> 3 then Inl (Diag BC_BAD_VERSION 4)
      else if data_read_u16 bs 8 \<noteq> 0 \<or> data_read_u16 bs 10 \<noteq> 1 \<or> data_read_u32 bs 12 \<noteq> 0
      then Inl (Diag BC_BAD_FORMAT 8)
      else if length bs < header_size + data_fixed_section_size then Inl (Diag BC_BAD_FORMAT (length bs))
      else if peek 16 4 bs \<noteq> ascii ''DPLN'' then Inl (Diag BC_BAD_FORMAT 16)
      else if data_read_u16 bs 20 \<noteq> 1 then Inl (Diag BC_BAD_VERSION 20)
      else if data_read_u16 bs 22 \<noteq> 0 then Inl (Diag BC_BAD_FORMAT 22)
      else
        let sec = unat (data_read_u32 bs 24); tab = unat (data_read_u32 bs 64)
        in if sec > size_max - header_size then Inl (Diag BC_BAD_FORMAT 24)
           else if sec \<noteq> length bs - header_size then Inl (Diag BC_BAD_FORMAT 24)
           else if header_size + sec \<noteq> length bs \<or> sec < data_fixed_section_size \<or>
                   tab \<noteq> sec - data_fixed_section_size
           then Inl (Diag BC_BAD_FORMAT 24)
           else if data_read_u32 bs 28 \<noteq> 1 \<or> data_read_u32 bs 32 \<noteq> 1 \<or> data_read_u32 bs 36 \<noteq> 1 \<or>
                   data_read_u32 bs 56 \<noteq> 1 \<or> data_read_u32 bs 60 \<noteq> 4
           then Inl (Diag BC_BAD_FORMAT 28)
           else if data_read_u32 bs 68 \<noteq> 0 then Inl (Diag BC_BAD_FORMAT 68)
           else Inr bs)"

text \<open>The caps, the column record and the operation record.\<close>

definition data_check_records ::
  "bytes \<Rightarrow> bc_diag + data_limits \<times> u8 \<times> bool \<times> u32 \<times> u32"
where
  "data_check_records bs =
     (let caps = \<lparr>max_input_file_bytes = data_read_u32 bs 40, max_input_data_rows = data_read_u32 bs 44,
                  max_input_columns = data_read_u32 bs 48, max_csv_field_bytes = data_read_u32 bs 52\<rparr>;
          operation = bs ! 80; flags = data_read_u16 bs 82; present = (flags AND 1 \<noteq> 0);
          sl = data_read_u32 bs 92; sc = data_read_u32 bs 96
      in if \<not> data_valid_caps caps then Inl (Diag BC_LIMIT_EXCEEDED 40)
         else if data_read_u32 bs 72 \<noteq> 2 \<or> bs ! 76 \<noteq> 1 \<or> bs ! 77 \<noteq> 0 \<or> data_read_u16 bs 78 \<noteq> 0
         then Inl (Diag BC_BAD_FORMAT 72)
         else if data_suffix operation = None then Inl (Diag BC_BAD_OPCODE 80)
         else if bs ! 81 \<noteq> 1 then Inl (Diag BC_BAD_TYPE 81)
         else if flags AND NOT 1 \<noteq> 0 then Inl (Diag BC_BAD_FORMAT 82)
         else if data_read_u32 bs 84 \<noteq> 2 \<or> data_read_u32 bs 88 \<noteq> 3 then Inl (Diag BC_BAD_FORMAT 84)
         else if data_read_u32 bs 100 \<noteq> 0 then Inl (Diag BC_BAD_FORMAT 100)
         else if \<not> span_consistent present sl sc then Inl (Diag BC_BAD_FORMAT 92)
         else Inr (caps, operation, present, sl, sc))"

text \<open>The four strings in order; the failing cursor is the reported offset.\<close>

fun data_read_strings :: "nat \<Rightarrow> bytes \<Rightarrow> nat \<Rightarrow> nat \<Rightarrow> nat \<Rightarrow> nat + bytes list \<times> nat \<times> nat" where
  "data_read_strings 0 bs cursor table_end tot = Inr ([], cursor, tot)"
| "data_read_strings (Suc k) bs cursor table_end tot =
     (case data_read_string bs cursor table_end tot of
        Inl c \<Rightarrow> Inl c
      | Inr (s, cursor', tot') \<Rightarrow>
          (case data_read_strings k bs cursor' table_end tot' of
             Inl c \<Rightarrow> Inl c
           | Inr (ss, cursor'', tot'') \<Rightarrow> Inr (s # ss, cursor'', tot'')))"

definition data_check_strings :: "bytes \<Rightarrow> u8 \<Rightarrow> bc_diag + bytes list" where
  "data_check_strings bs operation =
     (let start = header_size + data_fixed_section_size
      in case data_read_strings 4 bs start (length bs) 0 of
           Inl c \<Rightarrow> Inl (Diag BC_BAD_FORMAT c)
         | Inr (ss, cursor, tot) \<Rightarrow>
             if cursor \<noteq> length bs then Inl (Diag BC_BAD_FORMAT cursor)
             else if tot > data_max_total_string_bytes then Inl (Diag BC_LIMIT_EXCEEDED start)
             else if \<not> data_valid_identifier (Some (ss ! 2)) \<or> \<not> data_valid_identifier (Some (ss ! 3))
             then Inl (Diag BC_BAD_FORMAT start)
             else
               let ni = length (ss ! 2); sl = data_suffix_length operation
               in (case data_add_size ni sl of
                     None \<Rightarrow> Inl (Diag BC_BAD_FORMAT start)
                   | Some expected \<Rightarrow>
                       if expected > 255 \<or> length (ss ! 3) \<noteq> expected \<or> take ni (ss ! 3) \<noteq> ss ! 2 \<or>
                          take sl (drop ni (ss ! 3)) \<noteq> take sl (the (data_suffix operation))
                       then Inl (Diag BC_BAD_FORMAT start)
                       else Inr ss))"

definition milena_bytecode_verify_data :: "bytes option \<Rightarrow> bc_diag + data_view" where
  "milena_bytecode_verify_data input =
     (case data_check_header input of Inl d \<Rightarrow> Inl d | Inr bs \<Rightarrow>
      case data_check_records bs of Inl d \<Rightarrow> Inl d | Inr (caps, operation, present, sl, sc) \<Rightarrow>
      case data_check_strings bs operation of Inl d \<Rightarrow> Inl d | Inr ss \<Rightarrow>
        Inr \<lparr>dv_source_path = ss ! 0, dv_export_path = ss ! 1, dv_input_column = ss ! 2,
             dv_result_column = ss ! 3, dv_operation = operation, dv_span_present = present,
             dv_source_line = sl, dv_source_column = sc, dv_limits = caps\<rparr>)"

end
