(* ===== verification/BytecodeDataProps.thy ===== *)
theory BytecodeDataProps
  imports BytecodeData
begin

text \<open>
  The data-plan codec is canonical: what the encoder writes the verifier reads back, and what the
  verifier accepts is exactly what the encoder writes for the plan it returns.
\<close>

section \<open>Strings\<close>

lemma utf8_lead_width: "utf8_lead b0 = Some (c, w) \<Longrightarrow> 1 \<le> w \<and> w \<le> 4"
  by (auto simp: utf8_lead_def split: if_splits)

lemma utf8_next_cases:
  "data_utf8_next s = Some (cp, r) \<longleftrightarrow>
   (\<exists>b0 s' c w. s = b0 # s' \<and> utf8_lead b0 = Some (c, w) \<and> w \<le> length s \<and>
      utf8_tail b0 1 c (take (w - 1) s') = Some cp \<and> r = drop w s)"
  by (cases s) (auto simp: data_utf8_next_def split: option.splits)

lemma utf8_next_append:
  assumes "data_utf8_next s = Some (cp, r)" shows "data_utf8_next (s @ t) = Some (cp, r @ t)"
proof -
  obtain b0 s' c w where s: "s = b0 # s'" "utf8_lead b0 = Some (c, w)" "w \<le> length s"
    "utf8_tail b0 1 c (take (w - 1) s') = Some cp" "r = drop w s"
    using assms by (auto simp: utf8_next_cases)
  have "w - 1 \<le> length s'" using s by simp
  then have "take (w - 1) (s' @ t) = take (w - 1) s'" by simp
  moreover have "drop w (b0 # s' @ t) = drop w (b0 # s') @ t" using s(1,3) by (cases w) simp_all
  ultimately show ?thesis
    using s unfolding utf8_next_cases by (intro exI [of _ b0] exI [of _ "s' @ t"] exI [of _ c] exI [of _ w]) simp
qed

lemma utf8_all_append: "utf8_all s \<Longrightarrow> utf8_all t \<Longrightarrow> utf8_all (s @ t)"
proof (induction s rule: utf8_all.induct)
  case (1 s)
  show ?case
  proof (cases "s = []")
    case True
    then show ?thesis using 1 by simp
  next
    case False
    then obtain cp r where n: "data_utf8_next s = Some (cp, r)" and c: "cp \<noteq> 0" "utf8_all r"
      using "1.prems"(1) by (subst (asm) utf8_all.simps) (auto split: option.splits)
    have "utf8_all (r @ t)" using 1 n c False by blast
    then show ?thesis
      using c False utf8_next_append [OF n, of t] by (subst utf8_all.simps) simp
  qed
qed

lemma identifier_append: "identifier_all f s \<Longrightarrow> identifier_all False t \<Longrightarrow> identifier_all f (s @ t)"
proof (induction f s rule: identifier_all.induct)
  case (1 f s)
  show ?case
  proof (cases "s = []")
    case True
    then show ?thesis using 1 by (simp add: identifier_all.simps [of f "[]"])
  next
    case False
    then obtain cp r where n: "data_utf8_next s = Some (cp, r)"
      using "1.prems"(1) by (subst (asm) identifier_all.simps) (auto split: option.splits)
    have c: "cp \<ge> 0x80 \<or> (if f then data_ascii_identifier_start cp else data_ascii_identifier_continue cp)"
      and r: "identifier_all False r"
      using "1.prems"(1) False n by (subst (asm) identifier_all.simps, auto split: if_splits)+
    have "identifier_all False (r @ t)"
      using 1(1,2) [OF False n refl] r c "1.prems"(2) by (cases "cp \<ge> 0x80") (auto split: if_splits)
    then show ?thesis
      using c False utf8_next_append [OF n, of t] by (subst identifier_all.simps) auto
  qed
qed

lemma utf8_next_ascii: "b \<le> 0x7f \<Longrightarrow> data_utf8_next (b # s) = Some (ucast b, s)"
  by (simp add: data_utf8_next_def utf8_lead_def)

lemma suffix_identifier:
  assumes "data_suffix op = Some sfx"
  shows "utf8_all sfx \<and> identifier_all False sfx \<and> length sfx = data_suffix_length op \<and> data_suffix_length op \<le> 7"
proof -
  have "sfx = ascii ''_suma'' \<or> sfx = ascii ''_conteo''"
    using assms by (auto simp: data_suffix_def split: if_splits)
  then have "utf8_all sfx \<and> identifier_all False sfx"
    by (elim disjE) (simp_all add: ascii_def utf8_all.simps identifier_all.simps utf8_next_ascii
        data_ascii_identifier_start_def data_ascii_identifier_continue_def)
  then show ?thesis
    using assms by (auto simp: data_suffix_length_def data_suffix_def ascii_def split: if_splits)
qed

lemma result_name_valid:
  assumes "data_valid_identifier (Some s)" and "data_suffix op = Some sfx" and "length s + length sfx \<le> 255"
  shows "data_valid_identifier (Some (s @ sfx))"
  using assms suffix_identifier [OF assms(2)]
  by (auto simp: data_valid_identifier_def data_valid_string_def data_max_string_bytes_def
      utf8_all_append identifier_append)

section \<open>Sizes\<close>

lemma add_sizes: "a + sum_list bs \<le> size_max \<Longrightarrow> data_add_sizes a bs = Some (a + sum_list bs)"
  by (induction bs arbitrary: a) (auto simp: data_add_size_def)

definition plan_ok :: "data_plan \<Rightarrow> bool" where
  "plan_ok p \<longleftrightarrow> (\<exists>s e i sfx.
     dp_source_path p = Some s \<and> dp_export_path p = Some e \<and> dp_input_column p = Some i \<and>
     data_suffix (dp_operation p) = Some sfx \<and>
     data_valid_string (Some s) \<and> data_valid_string (Some e) \<and> data_valid_identifier (Some i) \<and>
     data_valid_caps (dp_limits p) \<and>
     span_consistent (dp_span_present p) (dp_source_line p) (dp_source_column p) \<and>
     length i + length sfx \<le> 255 \<and> length s + length e + length i + (length i + length sfx) \<le> 16384)"

definition strings_size :: "data_plan \<Rightarrow> nat" where
  "strings_size p = length (the (dp_source_path p)) + length (the (dp_export_path p)) +
     2 * length (the (dp_input_column p)) + data_suffix_length (dp_operation p)"

lemma plan_sizes:
  "data_plan_sizes (Some p) =
     (if plan_ok p
      then Some (120 + strings_size p, 16 + strings_size p,
        length (the (dp_input_column p)) + data_suffix_length (dp_operation p))
      else None)"
proof (cases "data_suffix (dp_operation p) = None \<or> \<not> data_valid_string (dp_source_path p) \<or>
    \<not> data_valid_string (dp_export_path p) \<or> \<not> data_valid_identifier (dp_input_column p)")
  case True
  then have "\<not> plan_ok p" by (auto simp: plan_ok_def)
  then show ?thesis using True by (auto simp: data_plan_sizes_def)
next
  case False
  then obtain s e i sfx where str: "dp_source_path p = Some s" "dp_export_path p = Some e" "dp_input_column p = Some i"
    and sfx: "data_suffix (dp_operation p) = Some sfx"
    by (auto simp: data_valid_string_def data_valid_identifier_def split: option.splits)
  note f = suffix_identifier [OF sfx]
  have le: "length s \<le> 4096" "length e \<le> 4096" "length i \<le> 255"
    using False by (auto simp: str data_valid_string_def data_valid_identifier_def data_max_string_bytes_def)
  define n where "n = data_suffix_length (dp_operation p)"
  have n: "n \<le> 7" "length sfx = n" using f by (simp_all add: n_def)
  have a: "data_add_size (length i) n = Some (length i + n)"
    using le n by (simp add: data_add_size_def size_max_def)
  have b: "data_add_sizes 0 [4, length s, 4, length e, 4, length i, 4, length i + n] =
      Some (16 + length s + length e + length i + (length i + n))"
    using le n by (subst add_sizes) (simp_all add: size_max_def)
  have c: "data_add_size 88 (16 + length s + length e + length i + (length i + n)) =
      Some (104 + length s + length e + length i + (length i + n))"
    "data_add_size 16 (104 + length s + length e + length i + (length i + n)) =
      Some (120 + length s + length e + length i + (length i + n))"
    using le n by (simp_all add: data_add_size_def size_max_def)
  have bnd: "\<not> length s > data_max_string_bytes" "\<not> length e > data_max_string_bytes" "\<not> length s > size_max - length e"
    "\<not> length s + length e > size_max - length i" "\<not> length s + length e + length i > size_max - (length i + n)"
    "\<not> 120 + length s + length e + length i + (length i + n) > data_max_module_bytes"
    "\<not> 104 + length s + length e + length i + (length i + n) > uint32_max"
    "\<not> 16 + length s + length e + length i + (length i + n) > uint32_max"
    using le n by (simp_all add: data_max_string_bytes_def data_max_module_bytes_def size_max_def uint32_max_def)
  have sz: "strings_size p = length s + length e + length i + (length i + n)"
    by (simp add: strings_size_def str n_def)
  have ok: "plan_ok p \<longleftrightarrow> data_valid_caps (dp_limits p) \<and>
      span_consistent (dp_span_present p) (dp_source_line p) (dp_source_column p) \<and>
      length i + n \<le> 255 \<and> length s + length e + length i + (length i + n) \<le> 16384"
    using False by (simp add: plan_ok_def str sfx n)
  show ?thesis
    using False le
    by (simp add: data_plan_sizes_def str sfx n_def [symmetric] Let_def a b [simplified] data_fixed_section_size_def
        header_size_def c [simplified] bnd [simplified] ok sz data_max_total_string_bytes_def data_max_string_bytes_def not_le)
qed

section \<open>Fields\<close>

lemma data_write_put: "data_write_u16 v = put_le 2 v" "data_write_u32 w = put_le 4 w"
  using write_u16le_put [of v] write_u32le_put [of w]
  by (simp_all add: data_write_u16_def data_write_u32_def write_u16le_def write_u32le_def)

lemma data_read16: "o' + 2 \<le> length p \<Longrightarrow> data_read_u16 p o' = v \<longleftrightarrow> peek o' 2 p = put_le 2 v"
  using read_u16le_get [of o' p] get_le_eq_put_le [of 2 "peek o' 2 p" v]
  by (simp add: data_read_u16_def read_u16le_def length_peek)

lemma data_read32: "o' + 4 \<le> length p \<Longrightarrow> data_read_u32 p o' = v \<longleftrightarrow> peek o' 4 p = put_le 4 v"
  using read_u32le_get [of o' p] get_le_eq_put_le [of 4 "peek o' 4 p" v]
  by (simp add: data_read_u32_def read_u32le_def length_peek)

text \<open>Cutting a run of bytes into consecutive fields.\<close>

fun cut_fields :: "nat \<Rightarrow> nat list \<Rightarrow> bytes \<Rightarrow> bytes list" where
  "cut_fields off [] bs = []"
| "cut_fields off (w # ws) bs = peek off w bs # cut_fields (off + w) ws bs"

lemma concat_cut_fields: "concat (cut_fields off ws bs) = peek off (sum_list ws) bs"
proof (induction ws arbitrary: off)
  case Nil
  then show ?case by (simp add: peek_def)
next
  case (Cons w ws)
  then show ?case by (simp add: peek_def take_add add.commute)
qed

definition fixed_fields :: "data_plan \<Rightarrow> nat \<Rightarrow> bytes list" where
  "fixed_fields p t =
     [ascii ''MLBC'', put_le 2 (1::u16), put_le 2 (3::u16), put_le 2 (0::u16), put_le 2 (1::u16), put_le 4 (0::u32),
      ascii ''DPLN'', put_le 2 (1::u16), put_le 2 (0::u16), put_le 4 (of_nat (88 + t) :: u32),
      put_le 4 (1::u32), put_le 4 (1::u32), put_le 4 (1::u32),
      put_le 4 (max_input_file_bytes (dp_limits p)), put_le 4 (max_input_data_rows (dp_limits p)),
      put_le 4 (max_input_columns (dp_limits p)), put_le 4 (max_csv_field_bytes (dp_limits p)),
      put_le 4 (1::u32), put_le 4 (4::u32), put_le 4 (of_nat t :: u32), put_le 4 (0::u32),
      put_le 4 (2::u32), [1], [0], put_le 2 (0::u16),
      [dp_operation p], [1], put_le 2 (if dp_span_present p then 1 else 0 :: u16),
      put_le 4 (2::u32), put_le 4 (3::u32), put_le 4 (dp_source_line p), put_le 4 (dp_source_column p), put_le 4 (0::u32)]"

definition string_fields :: "data_plan \<Rightarrow> bytes list" where
  "string_fields p =
     [the (dp_source_path p), the (dp_export_path p), the (dp_input_column p),
      the (dp_input_column p) @ the (data_suffix (dp_operation p))]"

definition data_wire :: "data_plan \<Rightarrow> bytes" where
  "data_wire p = concat (fixed_fields p (16 + strings_size p)) @ concat (map data_write_string (string_fields p))"

lemma replicate_small: "replicate 4 (0::u8) = put_le 4 (0::u32)" "replicate 3 (0::u8) = [0] @ put_le 2 (0::u16)"
  by (simp_all add: put_le_def upt_rec eval_nat_numeral)

lemma image_wire:
  assumes "plan_ok p"
  shows "data_image p (120 + strings_size p) (16 + strings_size p)
    (length (the (dp_input_column p)) + data_suffix_length (dp_operation p)) = data_wire p"
proof -
  from assms obtain sfx where sfx: "data_suffix (dp_operation p) = Some sfx"
    and span: "span_consistent (dp_span_present p) (dp_source_line p) (dp_source_column p)"
    by (auto simp: plan_ok_def)
  have len: "length sfx = data_suffix_length (dp_operation p)" using suffix_identifier [OF sfx] by simp
  have sp: "(if dp_span_present p then dp_source_line p else 0) = dp_source_line p"
    "(if dp_span_present p then dp_source_column p else 0) = dp_source_column p"
    using span by (auto simp: span_consistent_def)
  have sz: "120 + strings_size p - header_size = 88 + (16 + strings_size p)"
    by (simp add: header_size_def)
  show ?thesis
    unfolding data_image_def sp sz
    by (simp add: data_wire_def fixed_fields_def string_fields_def data_write_put replicate_small data_write_string_def
        sfx len [symmetric])
qed

lemma length_fixed: "length (concat (fixed_fields p t)) = 104"
  by (simp add: fixed_fields_def ascii_def)

lemma length_wire:
  assumes "plan_ok p"
  shows "length (data_wire p) = 120 + strings_size p"
proof -
  from assms obtain sfx where sfx: "data_suffix (dp_operation p) = Some sfx" by (auto simp: plan_ok_def)
  then show ?thesis
    using suffix_identifier [OF sfx] length_fixed [of p]
    by (simp add: data_wire_def string_fields_def data_write_string_def data_write_put strings_size_def)
qed

lemma strings_bound: "plan_ok p \<Longrightarrow> strings_size p \<le> 16384"
  using suffix_identifier by (fastforce simp: plan_ok_def strings_size_def)

text \<open>The fixed part of the image, field by field.\<close>

lemma wire_fields:
  assumes bs: "bs = concat (fixed_fields p t) @ rest"
  shows "peek 0 4 bs = ascii ''MLBC''" "peek 4 2 bs = put_le 2 (1::u16)" "peek 6 2 bs = put_le 2 (3::u16)"
    "peek 8 2 bs = put_le 2 (0::u16)" "peek 10 2 bs = put_le 2 (1::u16)" "peek 12 4 bs = put_le 4 (0::u32)"
    "peek 16 4 bs = ascii ''DPLN''" "peek 20 2 bs = put_le 2 (1::u16)" "peek 22 2 bs = put_le 2 (0::u16)"
    "peek 24 4 bs = put_le 4 (of_nat (88 + t) :: u32)" "peek 28 4 bs = put_le 4 (1::u32)"
    "peek 32 4 bs = put_le 4 (1::u32)" "peek 36 4 bs = put_le 4 (1::u32)"
    "peek 40 4 bs = put_le 4 (max_input_file_bytes (dp_limits p))"
    "peek 44 4 bs = put_le 4 (max_input_data_rows (dp_limits p))"
    "peek 48 4 bs = put_le 4 (max_input_columns (dp_limits p))"
    "peek 52 4 bs = put_le 4 (max_csv_field_bytes (dp_limits p))"
    "peek 56 4 bs = put_le 4 (1::u32)" "peek 60 4 bs = put_le 4 (4::u32)" "peek 64 4 bs = put_le 4 (of_nat t :: u32)"
    "peek 68 4 bs = put_le 4 (0::u32)" "peek 72 4 bs = put_le 4 (2::u32)" "peek 78 2 bs = put_le 2 (0::u16)"
    "peek 82 2 bs = put_le 2 (if dp_span_present p then 1 else 0 :: u16)"
    "peek 84 4 bs = put_le 4 (2::u32)" "peek 88 4 bs = put_le 4 (3::u32)" "peek 92 4 bs = put_le 4 (dp_source_line p)"
    "peek 96 4 bs = put_le 4 (dp_source_column p)" "peek 100 4 bs = put_le 4 (0::u32)"
  by (simp_all add: bs fixed_fields_def peek_def ascii_def)

lemma wire_bytes:
  assumes bs: "bs = concat (fixed_fields p t) @ rest"
  shows "bs ! 76 = 1" "bs ! 77 = 0" "bs ! 80 = dp_operation p" "bs ! 81 = 1"
  by (simp_all add: bs fixed_fields_def nth_append ascii_def)

section \<open>The string table\<close>

lemma read_len:
  assumes "n < 4294967296" and "c + 4 \<le> length bs"
  shows "unat (data_read_u32 bs c) = n \<longleftrightarrow> peek c 4 bs = put_le 4 (of_nat n :: u32)"
proof -
  have "unat (data_read_u32 bs c) = n \<longleftrightarrow> data_read_u32 bs c = (of_nat n :: u32)"
  proof -
    have "unat (of_nat n :: u32) = n" by (rule of_nat_unat_id) (simp add: assms(1))
    then show ?thesis by (metis word_unat_eq_iff)
  qed
  then show ?thesis using assms(2) by (simp add: data_read32)
qed

lemma read_string_write:
  assumes tail: "drop c bs = data_write_string s @ rest" and c: "c \<le> length bs"
    and ok: "data_valid_string (Some s)" and tot: "tot + length s \<le> 16384"
  shows "data_read_string bs c (length bs) tot = Inr (s, c + 4 + length s, tot + length s) \<and>
    drop (c + 4 + length s) bs = rest \<and> c + 4 + length s \<le> length bs"
proof -
  have s: "0 < length s" "length s \<le> 4096" using ok by (auto simp: data_valid_string_def data_max_string_bytes_def)
  have ld: "length bs - c = 4 + length s + length rest"
    using arg_cong [OF tail, of length] by (simp add: data_write_string_def data_write_put)
  have p: "peek c 4 bs = put_le 4 (of_nat (length s) :: u32)"
    by (simp add: peek_def tail data_write_string_def data_write_put)
  have d4: "drop (c + 4) bs = s @ rest"
  proof -
    have "drop (c + 4) bs = drop 4 (drop c bs)" by (simp add: add.commute)
    then show ?thesis by (simp add: tail data_write_string_def data_write_put)
  qed
  have d: "drop (c + 4 + length s) bs = rest"
  proof -
    have "drop (c + 4 + length s) bs = drop (length s) (drop (c + 4) bs)" by (simp add: add.commute)
    then show ?thesis by (simp add: d4)
  qed
  have "unat (data_read_u32 bs c) = length s" using read_len [of "length s" c bs] s p ld c by simp
  moreover have "peek (c + 4) (length s) bs = s" by (simp add: peek_def d4)
  moreover have "\<not> c > length bs" "\<not> length bs - c < 4" "\<not> c + 4 > length bs" "\<not> length s > length bs - (c + 4)"
    "\<not> length s > 16384 - tot" "c + 4 + length s \<le> length bs"
    using ld c tot s by linarith+
  ultimately show ?thesis
    using s ok d
    by (simp add: data_read_string_def Let_def data_max_string_bytes_def data_max_total_string_bytes_def)
qed

lemma read_string_sound:
  assumes r: "data_read_string bs c (length bs) tot = Inr (s, c', t')" and tot: "tot \<le> 16384"
  shows "c \<le> length bs \<and> c' \<le> length bs \<and> drop c bs = data_write_string s @ drop c' bs \<and> data_valid_string (Some s) \<and>
    t' = tot + length s \<and> t' \<le> 16384"
proof -
  define n where "n = unat (data_read_u32 bs c)"
  from r have c: "c + 4 \<le> length bs" and n: "0 < n" "n \<le> 4096" "n \<le> length bs - (c + 4)" "n \<le> 16384 - tot"
    and s: "s = peek (c + 4) n bs" "data_valid_string (Some s)" "c' = c + 4 + n" "t' = tot + n"
    by (auto simp: data_read_string_def Let_def n_def data_max_string_bytes_def data_max_total_string_bytes_def
        split: if_splits)
  have ls: "length s = n" using n c by (simp add: s(1) length_peek)
  have "peek c 4 bs = put_le 4 (of_nat n :: u32)" using read_len [of n c bs] n c by (simp add: n_def)
  moreover have "drop c bs = peek c 4 bs @ peek (c + 4) n bs @ drop c' bs"
    using drop_peek [of c bs 4] drop_peek [of "c + 4" bs n] by (simp add: s(3))
  moreover have "c \<le> length bs" "c' \<le> length bs" "t' \<le> 16384"
    using c n s(3,4) tot by linarith+
  ultimately show ?thesis
    using s ls by (simp add: data_write_string_def data_write_put)
qed

lemma read_strings_write:
  assumes "drop c bs = concat (map data_write_string ss) @ rest" and "c \<le> length bs"
    and "\<forall>s \<in> set ss. data_valid_string (Some s)" and "tot + sum_list (map length ss) \<le> 16384"
  shows "data_read_strings (length ss) bs c (length bs) tot =
      Inr (ss, c + length (concat (map data_write_string ss)), tot + sum_list (map length ss)) \<and>
    c + length (concat (map data_write_string ss)) \<le> length bs"
  using assms
proof (induction ss arbitrary: c tot)
  case Nil
  then show ?case by simp
next
  case (Cons s ss)
  have r: "data_read_string bs c (length bs) tot = Inr (s, c + 4 + length s, tot + length s)"
    and d: "drop (c + 4 + length s) bs = concat (map data_write_string ss) @ rest" "c + 4 + length s \<le> length bs"
    using read_string_write [of c bs s "concat (map data_write_string ss) @ rest" tot] Cons.prems by simp_all
  have l: "length (data_write_string s) = 4 + length s" by (simp add: data_write_string_def data_write_put)
  show ?case
    using Cons.IH [OF d, of "tot + length s"] Cons.prems(3,4) by (simp add: r l add.assoc)
qed

lemma read_strings_sound:
  assumes "data_read_strings k bs c (length bs) tot = Inr (ss, c', t')" and "c \<le> length bs" and "tot \<le> 16384"
  shows "length ss = k \<and> c' \<le> length bs \<and> drop c bs = concat (map data_write_string ss) @ drop c' bs \<and>
    (\<forall>s \<in> set ss. data_valid_string (Some s)) \<and> t' = tot + sum_list (map length ss) \<and> t' \<le> 16384"
  using assms
proof (induction k arbitrary: c tot ss)
  case 0
  then show ?case by simp
next
  case (Suc k)
  from Suc.prems(1) obtain s c1 t1 where one: "data_read_string bs c (length bs) tot = Inr (s, c1, t1)"
    by (auto split: sum.splits prod.splits)
  with Suc.prems(1) obtain ss' where rest: "data_read_strings k bs c1 (length bs) t1 = Inr (ss', c', t')"
    and ss: "ss = s # ss'"
    by (auto split: sum.splits prod.splits)
  note o1 = read_string_sound [OF one Suc.prems(3)]
  show ?case using Suc.IH [OF rest] o1 by (simp add: ss add.assoc)
qed

section \<open>The codec\<close>

definition view_of_plan :: "data_plan \<Rightarrow> data_view" where
  "view_of_plan p = \<lparr>dv_source_path = the (dp_source_path p), dv_export_path = the (dp_export_path p),
     dv_input_column = the (dp_input_column p),
     dv_result_column = the (dp_input_column p) @ the (data_suffix (dp_operation p)),
     dv_operation = dp_operation p, dv_span_present = dp_span_present p, dv_source_line = dp_source_line p,
     dv_source_column = dp_source_column p, dv_limits = dp_limits p\<rparr>"

definition plan_of_view :: "data_view \<Rightarrow> data_plan" where
  "plan_of_view v = \<lparr>dp_source_path = Some (dv_source_path v), dp_export_path = Some (dv_export_path v),
     dp_input_column = Some (dv_input_column v), dp_operation = dv_operation v,
     dp_span_present = dv_span_present v, dp_source_line = dv_source_line v,
     dp_source_column = dv_source_column v, dp_limits = dv_limits v\<rparr>"

lemma caps_eta:
  "\<lparr>max_input_file_bytes = max_input_file_bytes l, max_input_data_rows = max_input_data_rows l,
     max_input_columns = max_input_columns l, max_csv_field_bytes = max_csv_field_bytes l\<rparr> = (l :: data_limits)"
  by (cases l) simp

lemma peek_read16: "o' + 2 \<le> length p \<Longrightarrow> peek o' 2 p = put_le 2 (data_read_u16 p o')"
  using data_read16 by blast

lemma peek_read32: "o' + 4 \<le> length p \<Longrightarrow> peek o' 4 p = put_le 4 (data_read_u32 p o')"
  using data_read32 by blast

lemma span_bit: "(if b then 1 else 0 :: u16) AND 1 \<noteq> 0 \<longleftrightarrow> b" "(if b then 1 else 0 :: u16) AND NOT 1 = 0"
  by simp_all

lemma check_header_wire:
  assumes ok: "plan_ok p"
  shows "data_check_header (Some (data_wire p)) = Inr (data_wire p)"
proof -
  let ?t = "16 + strings_size p" and ?bs = "data_wire p"
  have len: "length ?bs = 104 + ?t" using length_wire [OF ok] by simp
  have t: "?t \<le> 16400" using strings_bound [OF ok] by simp
  have bs: "?bs = concat (fixed_fields p ?t) @ concat (map data_write_string (string_fields p))"
    by (simp add: data_wire_def)
  note f = wire_fields [OF bs]
  have r: "unat (data_read_u32 ?bs 24) = 88 + ?t" "unat (data_read_u32 ?bs 64) = ?t"
    using read_len [of "88 + ?t" 24 ?bs] read_len [of ?t 64 ?bs] t len f(10,20) by simp_all
  show ?thesis
    using len t
    by (simp add: data_check_header_def header_size_def data_fixed_section_size_def data_max_module_bytes_def
        data_read16 data_read32 f r [simplified] size_max_def)
qed

lemma check_records_wire:
  assumes ok: "plan_ok p"
  shows "data_check_records (data_wire p) =
    Inr (dp_limits p, dp_operation p, dp_span_present p, dp_source_line p, dp_source_column p)"
proof -
  let ?t = "16 + strings_size p" and ?bs = "data_wire p"
  have len: "length ?bs = 104 + ?t" using length_wire [OF ok] by simp
  have bs: "?bs = concat (fixed_fields p ?t) @ concat (map data_write_string (string_fields p))"
    by (simp add: data_wire_def)
  note f = wire_fields [OF bs] and b = wire_bytes [OF bs]
  have r16: "data_read_u16 ?bs 78 = 0" "data_read_u16 ?bs 82 = (if dp_span_present p then 1 else 0)"
    using len f by (simp_all add: data_read16)
  have r32: "data_read_u32 ?bs 72 = 2" "data_read_u32 ?bs 84 = 2" "data_read_u32 ?bs 88 = 3" "data_read_u32 ?bs 100 = 0"
    "data_read_u32 ?bs 92 = dp_source_line p" "data_read_u32 ?bs 96 = dp_source_column p"
    "data_read_u32 ?bs 40 = max_input_file_bytes (dp_limits p)" "data_read_u32 ?bs 44 = max_input_data_rows (dp_limits p)"
    "data_read_u32 ?bs 48 = max_input_columns (dp_limits p)" "data_read_u32 ?bs 52 = max_csv_field_bytes (dp_limits p)"
    using len f by (simp_all add: data_read32)
  have "data_valid_caps (dp_limits p)" "span_consistent (dp_span_present p) (dp_source_line p) (dp_source_column p)"
    "data_suffix (dp_operation p) \<noteq> None"
    using ok by (auto simp: plan_ok_def)
  then show ?thesis
    by (simp add: data_check_records_def Let_def b r16 r32 span_bit caps_eta del: not_None_eq)
qed

lemma check_strings_wire:
  assumes ok: "plan_ok p"
  shows "data_check_strings (data_wire p) (dp_operation p) = Inr (string_fields p)"
proof -
  let ?bs = "data_wire p"
  from ok obtain s e i sfx where p: "dp_source_path p = Some s" "dp_export_path p = Some e" "dp_input_column p = Some i"
    "data_suffix (dp_operation p) = Some sfx"
    and v: "data_valid_string (Some s)" "data_valid_string (Some e)" "data_valid_identifier (Some i)"
    and l: "length i + length sfx \<le> 255" "length s + length e + length i + (length i + length sfx) \<le> 16384"
    by (auto simp: plan_ok_def)
  note x = suffix_identifier [OF p(4)]
  have vr: "data_valid_identifier (Some (i @ sfx))" by (rule result_name_valid [OF v(3) p(4) l(1)])
  have sf: "string_fields p = [s, e, i, i @ sfx]" by (simp add: string_fields_def p)
  have d: "drop 104 ?bs = concat (map data_write_string (string_fields p)) @ []"
    using length_fixed [of p "16 + strings_size p"] by (simp add: data_wire_def)
  have len: "104 + length (concat (map data_write_string (string_fields p))) = length ?bs"
    using length_fixed [of p "16 + strings_size p"] by (simp add: data_wire_def)
  have "\<forall>s \<in> set (string_fields p). data_valid_string (Some s)"
    using v vr by (auto simp: sf data_valid_identifier_def)
  moreover have "0 + sum_list (map length (string_fields p)) \<le> 16384" using l by (simp add: sf)
  ultimately have "data_read_strings (length (string_fields p)) ?bs 104 (length ?bs) 0 =
      Inr (string_fields p, length ?bs, sum_list (map length (string_fields p)))"
    using read_strings_write [OF d, of 0] len by simp
  moreover have "length (string_fields p) = 4" by (simp add: sf)
  ultimately have "data_read_strings 4 ?bs 104 (length ?bs) 0 =
      Inr (string_fields p, length ?bs, sum_list (map length (string_fields p)))"
    by simp
  moreover have "data_add_size (length i) (data_suffix_length (dp_operation p)) = Some (length i + length sfx)"
    using x l by (simp add: data_add_size_def size_max_def)
  ultimately show ?thesis
    using l v vr x
    by (simp add: data_check_strings_def header_size_def data_fixed_section_size_def Let_def sf p
        data_max_total_string_bytes_def)
qed

lemma verify_wire:
  "plan_ok p \<Longrightarrow> milena_bytecode_verify_data (Some (data_wire p)) = Inr (view_of_plan p)"
  by (simp add: milena_bytecode_verify_data_def check_header_wire check_records_wire check_strings_wire
      view_of_plan_def string_fields_def)


lemma check_header_sound:
  assumes "data_check_header (Some bs) = Inr bs'"
  shows "bs' = bs \<and> 104 \<le> length bs \<and> length bs \<le> 65536 \<and>
    cut_fields 0 [4, 2, 2, 2, 2, 4, 4, 2, 2, 4, 4, 4, 4] bs =
      [ascii ''MLBC'', put_le 2 (1::u16), put_le 2 (3::u16), put_le 2 (0::u16), put_le 2 (1::u16), put_le 4 (0::u32),
       ascii ''DPLN'', put_le 2 (1::u16), put_le 2 (0::u16), put_le 4 (of_nat (length bs - 16) :: u32),
       put_le 4 (1::u32), put_le 4 (1::u32), put_le 4 (1::u32)] \<and>
    cut_fields 56 [4, 4, 4, 4] bs =
      [put_le 4 (1::u32), put_le 4 (4::u32), put_le 4 (of_nat (length bs - 104) :: u32), put_le 4 (0::u32)]"
proof -
  from assms have len: "104 \<le> length bs" "length bs \<le> 65536" "bs' = bs"
    by (auto simp: data_check_header_def header_size_def data_fixed_section_size_def data_max_module_bytes_def Let_def
        split: if_splits)
  from assms have r: "peek 0 4 bs = ascii ''MLBC''" "data_read_u16 bs 4 = 1" "data_read_u16 bs 6 = 3"
    "data_read_u16 bs 8 = 0" "data_read_u16 bs 10 = 1" "data_read_u32 bs 12 = 0" "peek 16 4 bs = ascii ''DPLN''"
    "data_read_u16 bs 20 = 1" "data_read_u16 bs 22 = 0" "unat (data_read_u32 bs 24) = length bs - 16"
    "unat (data_read_u32 bs 64) = length bs - 104" "data_read_u32 bs 28 = 1" "data_read_u32 bs 32 = 1"
    "data_read_u32 bs 36 = 1" "data_read_u32 bs 56 = 1" "data_read_u32 bs 60 = 4" "data_read_u32 bs 68 = 0"
    by (simp_all add: data_check_header_def header_size_def data_fixed_section_size_def Let_def split: if_split_asm)
  have n: "peek 24 4 bs = put_le 4 (of_nat (length bs - 16) :: u32)" "peek 64 4 bs = put_le 4 (of_nat (length bs - 104) :: u32)"
    using r(10,11) len read_len [of "length bs - 16" 24 bs] read_len [of "length bs - 104" 64 bs] by simp_all
  show ?thesis
    using len r n by (simp add: data_read16 data_read32)
qed

lemma check_records_sound:
  assumes "data_check_records bs = Inr (caps, operation, present, sl, sc)" and "104 \<le> length bs"
  shows "data_valid_caps caps \<and> span_consistent present sl sc \<and> data_suffix operation \<noteq> None \<and>
    cut_fields 40 [4, 4, 4, 4] bs =
      [put_le 4 (max_input_file_bytes caps), put_le 4 (max_input_data_rows caps),
       put_le 4 (max_input_columns caps), put_le 4 (max_csv_field_bytes caps)] \<and>
    cut_fields 72 [4, 1, 1, 2, 1, 1, 2, 4, 4, 4, 4, 4] bs =
      [put_le 4 (2::u32), [1], [0], put_le 2 (0::u16), [operation], [1],
       put_le 2 (if present then 1 else 0 :: u16), put_le 4 (2::u32), put_le 4 (3::u32),
       put_le 4 sl, put_le 4 sc, put_le 4 (0::u32)]"
proof -
  define flags where "flags = data_read_u16 bs 82"
  from assms(1) have c: "data_valid_caps caps" "span_consistent present sl sc" "data_suffix operation \<noteq> None"
    and caps: "caps = \<lparr>max_input_file_bytes = data_read_u32 bs 40, max_input_data_rows = data_read_u32 bs 44,
        max_input_columns = data_read_u32 bs 48, max_csv_field_bytes = data_read_u32 bs 52\<rparr>"
    and b: "bs ! 76 = 1" "bs ! 77 = 0" "bs ! 80 = operation" "bs ! 81 = 1"
    and r: "data_read_u32 bs 72 = 2" "data_read_u16 bs 78 = 0" "data_read_u32 bs 84 = 2" "data_read_u32 bs 88 = 3"
      "data_read_u32 bs 92 = sl" "data_read_u32 bs 96 = sc" "data_read_u32 bs 100 = 0"
    and fl: "flags AND NOT 1 = 0" "present = (flags AND 1 \<noteq> 0)"
    by (simp_all add: data_check_records_def Let_def flags_def split: if_split_asm)
  have "flags = (flags AND 1) OR (flags AND NOT 1)" by (simp add: bit_eq_iff bit_simps) blast
  then have "flags = flags AND 1" using fl(1) by simp
  moreover have "flags AND 1 = (if odd flags then 1 else 0)" by (simp add: and_one_eq mod2_eq_if)
  ultimately have f82: "data_read_u16 bs 82 = (if present then 1 else 0)"
    using fl(2) by (auto simp: flags_def split: if_splits)
  moreover have "peek k 1 bs = [bs ! k]" if "k < 104" for k
    using that assms(2) by (simp add: peek_def take_Suc_conv_app_nth Cons_nth_drop_Suc [symmetric])
  ultimately show ?thesis
    using c b r assms(2) by (simp add: caps peek_read16 peek_read32 f82)
qed


lemma cut_fields_append: "cut_fields off (vs @ ws) bs = cut_fields off vs bs @ cut_fields (off + sum_list vs) ws bs"
  by (induction vs arbitrary: off) (simp_all add: add.assoc)

lemma check_strings_sound:
  assumes "data_check_strings bs operation = Inr ss" and "104 \<le> length bs"
    and "data_suffix operation = Some sfx"
  shows "\<exists>s e i. ss = [s, e, i, i @ sfx] \<and> data_valid_string (Some s) \<and>
    data_valid_string (Some e) \<and> data_valid_identifier (Some i) \<and> length i + length sfx \<le> 255 \<and>
    length s + length e + length i + (length i + length sfx) \<le> 16384 \<and>
    drop 104 bs = concat (map data_write_string ss)"
proof -
  from assms(1) obtain c t where r: "data_read_strings 4 bs 104 (length bs) 0 = Inr (ss, c, t)" and c: "c = length bs"
    by (auto simp: data_check_strings_def Let_def header_size_def data_fixed_section_size_def split: sum.splits if_splits option.splits)
  from read_strings_sound [OF r] assms(2) have l: "length ss = 4" "drop 104 bs = concat (map data_write_string ss)"
    "\<forall>s \<in> set ss. data_valid_string (Some s)" "sum_list (map length ss) \<le> 16384"
    by (simp_all add: c)
  then obtain s e i x where ss: "ss = [s, e, i, x]"
    by (auto simp: length_Suc_conv eval_nat_numeral)
  note sx = suffix_identifier [OF assms(3)]
  let ?n = "data_suffix_length operation"
  have add: "data_add_size (length i) ?n = Some y \<longleftrightarrow> y = length i + ?n \<and> ?n \<le> size_max - length i" for y
    by (auto simp: data_add_size_def)
  from assms(1) have id: "data_valid_identifier (Some i)"
    and x: "length i + ?n \<le> 255" "length x = length i + ?n" "take (length i) x = i" "take ?n (drop (length i) x) = take ?n sfx"
    by (simp_all add: data_check_strings_def Let_def header_size_def data_fixed_section_size_def r ss assms(3) add
        split: if_split_asm option.split_asm)
  have "x = i @ sfx"
    using x sx append_take_drop_id [of "length i" x] by simp
  then show ?thesis using l id x sx by (simp add: ss)
qed

lemma verify_sound:
  assumes "milena_bytecode_verify_data (Some bs) = Inr v"
  shows "plan_ok (plan_of_view v) \<and> bs = data_wire (plan_of_view v) \<and> v = view_of_plan (plan_of_view v)"
proof -
  from assms obtain bs' caps operation present sl sc ss where
    h: "data_check_header (Some bs) = Inr bs'" and r: "data_check_records bs' = Inr (caps, operation, present, sl, sc)"
    and s: "data_check_strings bs' operation = Inr ss"
    and v: "v = \<lparr>dv_source_path = ss ! 0, dv_export_path = ss ! 1, dv_input_column = ss ! 2,
       dv_result_column = ss ! 3, dv_operation = operation, dv_span_present = present,
       dv_source_line = sl, dv_source_column = sc, dv_limits = caps\<rparr>"
    by (auto simp: milena_bytecode_verify_data_def split: sum.splits prod.splits)
  note hs = check_header_sound [OF h]
  then have bs': "bs' = bs" and len: "104 \<le> length bs" by simp_all
  note rs = check_records_sound [OF r [unfolded bs'] len]
  then obtain sfx where sfx: "data_suffix operation = Some sfx" by blast
  obtain src ex inp where ss: "ss = [src, ex, inp, inp @ sfx]" and valid: "data_valid_string (Some src)"
    "data_valid_string (Some ex)" "data_valid_identifier (Some inp)" "length inp + length sfx \<le> 255"
    "length src + length ex + length inp + (length inp + length sfx) \<le> 16384"
    and rest: "drop 104 bs = concat (map data_write_string ss)"
    using check_strings_sound [OF s [unfolded bs'] len sfx] by blast
  define p where "p = plan_of_view v"
  have p: "dp_source_path p = Some src" "dp_export_path p = Some ex" "dp_input_column p = Some inp"
    "dp_operation p = operation" "dp_span_present p = present" "dp_source_line p = sl" "dp_source_column p = sc"
    "dp_limits p = caps"
    by (simp_all add: p_def plan_of_view_def v ss)
  have ok: "plan_ok p" using rs valid sfx by (auto simp: plan_ok_def p)
  have sf: "string_fields p = ss" by (simp add: string_fields_def p sfx ss)
  have "length bs = 104 + length (concat (map data_write_string ss))"
    using arg_cong [OF rest, of length] len by simp
  moreover have "length (data_wire p) = 104 + length (concat (map data_write_string ss))"
    using length_fixed [of p "16 + strings_size p"] by (simp add: data_wire_def sf)
  ultimately have sz: "length bs = 120 + strings_size p" using length_wire [OF ok] by simp
  let ?ws = "[4, 2, 2, 2, 2, 4, 4, 2, 2, 4, 4, 4, 4] @ [4, 4, 4, 4] @ [4, 4, 4, 4] @ [4, 1, 1, 2, 1, 1, 2, 4, 4, 4, 4, 4]"
  have "cut_fields 0 ?ws bs = fixed_fields p (16 + strings_size p)"
    using hs rs by (simp only: cut_fields_append) (simp add: fixed_fields_def p sz)
  then have "take 104 bs = concat (fixed_fields p (16 + strings_size p))"
    using concat_cut_fields [of 0 ?ws bs] by (simp add: peek_def)
  then have "bs = data_wire p"
    using append_take_drop_id [of 104 bs] rest by (simp add: data_wire_def sf)
  moreover have "v = view_of_plan p"
    by (simp add: view_of_plan_def p sfx v ss)
  ultimately have "plan_ok p \<and> bs = data_wire p \<and> v = view_of_plan p" using ok by blast
  then show ?thesis unfolding p_def .
qed

lemma encode_eq:
  "milena_bytecode_data_encode (Some p) (Some buf) capacity =
     (if \<not> plan_ok p then (Diag BC_BAD_FORMAT 0, 0, Some buf)
      else if capacity < length (data_wire p) then (Diag BC_BUFFER_TOO_SMALL 0, length (data_wire p), Some buf)
      else (Diag BC_OK 0, length (data_wire p), Some (poke 0 (data_wire p) buf)))"
  by (auto simp: milena_bytecode_data_encode_def plan_sizes image_wire length_wire Let_def)

definition milena_data_encode :: "data_plan \<Rightarrow> bytes" where
  "milena_data_encode p =
     (case milena_bytecode_data_encode (Some p) (Some (replicate data_max_module_bytes 0)) data_max_module_bytes of
        (_, w, out) \<Rightarrow> take w (the out))"

definition milena_data_decode :: "bytes \<Rightarrow> data_plan option" where
  "milena_data_decode bs =
     (case milena_bytecode_verify_data (Some bs) of Inl _ \<Rightarrow> None | Inr v \<Rightarrow> Some (plan_of_view v))"

lemma wire_fits: "plan_ok p \<Longrightarrow> length (data_wire p) \<le> data_max_module_bytes"
  using strings_bound [of p] by (simp add: length_wire data_max_module_bytes_def)

lemma data_encode_wire: "plan_ok p \<Longrightarrow> milena_data_encode p = data_wire p"
  using wire_fits [of p] by (simp add: milena_data_encode_def encode_eq take_poke_0)

lemma plan_of_view_of_plan: "plan_ok p \<Longrightarrow> plan_of_view (view_of_plan p) = p"
  by (cases p) (auto simp: plan_ok_def plan_of_view_def view_of_plan_def)

interpretation data_plan: canonical_codec milena_data_encode milena_data_decode plan_ok
proof
  fix p :: data_plan
  assume "plan_ok p"
  then show "milena_data_decode (milena_data_encode p) = Some p"
    by (simp add: milena_data_decode_def data_encode_wire verify_wire plan_of_view_of_plan)
next
  fix bs p
  assume "milena_data_decode bs = Some p"
  then obtain v where "milena_bytecode_verify_data (Some bs) = Inr v" "p = plan_of_view v"
    by (auto simp: milena_data_decode_def split: sum.splits)
  then show "plan_ok p \<and> milena_data_encode p = bs"
    using verify_sound [of bs v] by (simp add: data_encode_wire)
qed

section \<open>Properties\<close>

text \<open>
  C28.  The verifier reads back what the encoder wrote: every field of the plan, the result column
  derived with the suffix of the operation, and nothing of the buffer past the announced size
  is changed.
\<close>

theorem data_plan_roundtrip:
  assumes "milena_bytecode_data_encode (Some p) (Some buf) capacity = (d, w, Some buf')"
    and "d_status d = BC_OK" and "capacity \<le> length buf"
  shows "milena_bytecode_verify_data (Some (take w buf')) = Inr (view_of_plan p) \<and>
    w \<le> capacity \<and> milena_bytecode_data_encoded_size (Some p) = Some w \<and> drop w buf' = drop w buf"
proof -
  have ok: "plan_ok p" and w: "w = length (data_wire p)" "w \<le> capacity" and b: "buf' = poke 0 (data_wire p) buf"
    using assms(1,2) by (auto simp: encode_eq split: if_splits)
  have "take w buf' = data_wire p" "drop w buf' = drop w buf"
    using w assms(3) by (simp_all add: b take_poke_0 drop_poke)
  moreover have "milena_bytecode_data_encoded_size (Some p) = Some w"
    using ok w by (simp add: milena_bytecode_data_encoded_size_def plan_sizes length_wire)
  ultimately show ?thesis using verify_wire [OF ok] w by simp
qed

text \<open>
  C2.  An accepted data module has one spelling: encoding the returned view reproduces it byte for
  byte, so no reserved bit, gap or length is ignored; the result column is the input column with
  the suffix of the operation.
\<close>

theorem data_plan_canonical:
  assumes "milena_bytecode_verify_data (Some bs) = Inr v" and "length bs \<le> capacity" and "capacity \<le> length buf"
  shows "milena_bytecode_data_encode (Some (plan_of_view v)) (Some buf) capacity =
      (Diag BC_OK 0, length bs, Some (bs @ drop (length bs) buf)) \<and>
    data_suffix (dv_operation v) \<noteq> None \<and>
    dv_result_column v = dv_input_column v @ the (data_suffix (dv_operation v))"
proof -
  note s = verify_sound [OF assms(1)]
  have "milena_data_decode bs = Some (plan_of_view v)" using assms(1) by (simp add: milena_data_decode_def)
  then have "milena_data_encode (plan_of_view v) = bs"
    by (simp add: data_plan.dec_iff)
  moreover have "dv_result_column (view_of_plan p) = dv_input_column (view_of_plan p) @ the (data_suffix (dv_operation (view_of_plan p)))"
    for p by (simp add: view_of_plan_def)
  moreover have "data_suffix (dv_operation v) \<noteq> None"
    using s by (auto simp: plan_ok_def plan_of_view_def)
  moreover have "length (data_wire (plan_of_view v)) = length bs" "data_wire (plan_of_view v) = bs"
    using s by metis+
  ultimately show ?thesis
    using s assms by (metis encode_eq linorder_not_less poke_def take0 append_Nil add_0)
qed

definition demo_plan :: data_plan where
  "demo_plan = \<lparr>dp_source_path = Some (ascii ''in.csv''), dp_export_path = Some (ascii ''out.json''),
     dp_input_column = Some (ascii ''total''), dp_operation = 1, dp_span_present = True, dp_source_line = 3,
     dp_source_column = 7, dp_limits = \<lparr>max_input_file_bytes = 1000, max_input_data_rows = 50,
       max_input_columns = 8, max_csv_field_bytes = 100\<rparr>\<rparr>"

lemma demo_plan_ok: "plan_ok demo_plan"
  by (simp add: plan_ok_def demo_plan_def data_suffix_def data_valid_string_def data_valid_identifier_def
      data_valid_caps_def span_consistent_def ascii_def data_max_string_bytes_def utf8_all.simps identifier_all.simps
      utf8_next_ascii data_ascii_identifier_start_def data_ascii_identifier_continue_def)

theorem data_plan_roundtrip_witness:
  "milena_bytecode_verify_data (Some (take 149 (poke 0 (data_wire demo_plan) (replicate 200 9)))) = Inr (view_of_plan demo_plan)"
proof -
  have l: "length (data_wire demo_plan) = 149"
    using length_wire [OF demo_plan_ok]
    by (simp add: strings_size_def demo_plan_def ascii_def data_suffix_length_def data_suffix_def)
  have "milena_bytecode_data_encode (Some demo_plan) (Some (replicate 200 9)) 200 =
      (Diag BC_OK 0, 149, Some (poke 0 (data_wire demo_plan) (replicate 200 9)))"
    by (simp add: encode_eq demo_plan_ok l)
  from data_plan_roundtrip [OF this] show ?thesis by simp
qed

theorem data_plan_canonical_witness:
  "milena_bytecode_data_encode (Some (plan_of_view (view_of_plan demo_plan))) (Some (replicate 65536 9)) 65536 =
      (Diag BC_OK 0, length (data_wire demo_plan), Some (data_wire demo_plan @ drop (length (data_wire demo_plan)) (replicate 65536 9)))"
  by (rule conjunct1 [OF data_plan_canonical [OF verify_wire [OF demo_plan_ok]]])
    (use wire_fits [OF demo_plan_ok] in \<open>simp_all add: data_max_module_bytes_def\<close>)

end
