(* ===== verification/BytecodeUtf8.thy ===== *)
theory BytecodeUtf8
  imports BytecodeDataProps
begin

text \<open>
  \<open>data_utf8_next\<close> of bytecode_data.c decodes exactly UTF-8: the reference is the encoding of
  scalar values, with the byte and bit arithmetic of the C code read as arithmetic on naturals.
\<close>

section \<open>The reference encoding\<close>

definition scalar_value :: "nat \<Rightarrow> bool" where
  "scalar_value c \<longleftrightarrow> c < 0x110000 \<and> \<not> (0xD800 \<le> c \<and> c < 0xE000)"

definition u8_of :: "nat \<Rightarrow> u8" where
  "u8_of n = of_nat n"

lemma unat_u8_of: "n < 256 \<Longrightarrow> unat (u8_of n) = n"
  unfolding u8_of_def by (rule of_nat_unat_id) simp

definition utf8_encode :: "nat \<Rightarrow> bytes" where
  "utf8_encode c =
     (if c < 0x80 then [u8_of c]
      else if c < 0x800 then [u8_of (0xC0 + c div 64), u8_of (0x80 + c mod 64)]
      else if c < 0x10000 then [u8_of (0xE0 + c div 4096), u8_of (0x80 + c div 64 mod 64), u8_of (0x80 + c mod 64)]
      else [u8_of (0xF0 + c div 262144), u8_of (0x80 + c div 4096 mod 64), u8_of (0x80 + c div 64 mod 64),
            u8_of (0x80 + c mod 64)])"

section \<open>Bytes as numbers\<close>

lemma unat_low_bits: "unat ((b :: u8) AND mask k) = unat b mod 2 ^ k"
  by (simp flip: take_bit_eq_mask add: unsigned_take_bit_eq) (simp add: take_bit_eq_mod)

lemma unat_ucast_u8: "unat (ucast (b :: u8) :: u32) = unat b"
  using unat_u8_lt [of b] by (simp add: unsigned_ucast_eq take_bit_nat_eq_self)

lemma masks: "(0x1f :: u8) = mask 5" "(0x0f :: u8) = mask 4" "(0x07 :: u8) = mask 3" "(0x3f :: u8) = mask 6"
  by (simp_all add: mask_eq_exp_minus_1)

lemma low_bits:
  "unat ((b :: u8) AND 0x1f) = unat b mod 32" "unat (b AND 0x0f) = unat b mod 16" "unat (b AND 0x07) = unat b mod 8"
  by (simp_all only: masks unat_low_bits) simp_all

lemma lead_value:
  "unat (ucast ((b :: u8) AND 0x1f) :: u32) = unat b mod 32" "unat (ucast (b AND 0x0f) :: u32) = unat b mod 16"
  "unat (ucast (b AND 0x07) :: u32) = unat b mod 8" "unat (ucast (b AND 0x3f) :: u32) = unat b mod 64"
  by (simp_all only: unat_ucast_u8 masks unat_low_bits) simp_all

lemma bit_unat: "bit (b :: u8) k \<longleftrightarrow> odd (unat b div 2 ^ k)"
proof -
  have "bit (unat b) k = bit b k" by (auto simp: bit_unsigned_iff dest: bit_imp_le_length)
  then show ?thesis by (simp add: bit_iff_odd)
qed

lemma continuation_byte: "(b :: u8) AND 0xc0 = 0x80 \<longleftrightarrow> 128 \<le> unat b \<and> unat b < 192"
proof -
  have c: "(0xc0 :: u8) = push_bit 6 (mask 2)" "(0x80 :: u8) = push_bit 7 1"
    by (simp_all add: mask_eq_exp_minus_1 push_bit_eq_mult)
  have lt: "n < 8 \<Longrightarrow> 6 \<le> n \<Longrightarrow> n = 6 \<or> n = 7" for n :: nat by linarith
  have "b AND 0xc0 = 0x80 \<longleftrightarrow> (\<forall>n < 8. bit (b AND push_bit 6 (mask 2)) n = bit (push_bit 7 (1::u8)) n)"
    unfolding c by (auto intro: bit_word_eqI)
  also have "\<dots> \<longleftrightarrow> (\<forall>n < 8. (bit b n \<and> 6 \<le> n) = (n = 7))"
  proof -
    have "bit (push_bit 7 (1::u8)) n \<longleftrightarrow> n = 7" if "n < 8" for n
      using that by (auto simp only: bit_push_bit_iff bit_1_iff possible_bit_word) simp_all
    moreover have "bit (b AND push_bit 6 (mask 2)) n \<longleftrightarrow> bit b n \<and> 6 \<le> n" if "n < 8" for n
      using that by (auto simp only: bit_and_iff bit_push_bit_iff bit_mask_iff possible_bit_word) simp_all
    ultimately show ?thesis by simp
  qed
  also have "\<dots> \<longleftrightarrow> bit b 7 \<and> \<not> bit b 6"
    using lt by (auto dest: spec [of _ 6] spec [of _ 7])
  also have "\<dots> \<longleftrightarrow> odd (unat b div 128) \<and> even (unat b div 64)"
    by (simp add: bit_unat)
  also have "\<dots> \<longleftrightarrow> unat b div 64 = 2"
  proof -
    have "unat b div 64 < 4" using unat_u8_lt [of b] by linarith
    then have "unat b div 64 = 0 \<or> unat b div 64 = 1 \<or> unat b div 64 = 2 \<or> unat b div 64 = 3" by linarith
    moreover have "unat b div 128 = unat b div 64 div 2" using div_mult2_eq [of "unat b" 64 2] by simp
    ultimately show ?thesis by auto
  qed
  also have "\<dots> \<longleftrightarrow> 128 \<le> unat b \<and> unat b < 192" by auto
  finally show ?thesis .
qed

lemma shift_in:
  assumes "unat (cp :: u32) < 2 ^ 20"
  shows "unat (push_bit 6 cp OR ucast ((b :: u8) AND 0x3f)) = unat cp * 64 + unat b mod 64"
proof -
  have "unat (push_bit 6 cp) = unat cp * 64"
    using assms by (subst unsigned_push_bit_eq) (simp add: push_bit_eq_mult take_bit_nat_eq_self)
  then have "unat (push_bit 6 cp OR ucast (b AND 0x3f)) = push_bit 6 (unat cp) OR unat b mod 64"
    by (simp add: unsigned_or_eq lead_value push_bit_eq_mult)
  also have "\<dots> = push_bit 6 (unat cp) OR take_bit 6 (unat b)" by (simp add: take_bit_eq_mod)
  also have "\<dots> = push_bit 6 (unat cp) + take_bit 6 (unat b)"
    by (rule disjunctive_add_eq_or [symmetric]) (auto simp: bit_eq_iff bit_simps)
  finally show ?thesis by (simp add: take_bit_eq_mod push_bit_eq_mult)
qed

section \<open>The decoder on numbers\<close>

definition u32_of :: "nat \<Rightarrow> u32" where
  "u32_of n = of_nat n"

lemma unat_u32_of: "n < 4294967296 \<Longrightarrow> unat (u32_of n) = n"
  unfolding u32_of_def by (rule of_nat_unat_id) simp

lemma eq_u32_of: "n < 4294967296 \<Longrightarrow> w = u32_of n \<longleftrightarrow> unat w = n"
  using unat_u32_of by (metis word_unat_eq_iff)

lemma mod_window: "k \<le> n \<Longrightarrow> n < k + m \<Longrightarrow> m dvd k \<Longrightarrow> n mod m = n - (k::nat)"
  by (elim dvdE) (auto dest!: le_Suc_ex)

lemma lead_nat:
  "utf8_lead b =
     (if unat b < 128 then Some (u32_of (unat b), 1)
      else if 194 \<le> unat b \<and> unat b \<le> 223 then Some (u32_of (unat b - 192), 2)
      else if 224 \<le> unat b \<and> unat b \<le> 239 then Some (u32_of (unat b - 224), 3)
      else if 240 \<le> unat b \<and> unat b \<le> 244 then Some (u32_of (unat b - 240), 4)
      else None)"
proof -
  have m: "194 \<le> unat b \<Longrightarrow> unat b \<le> 223 \<Longrightarrow> unat b mod 32 = unat b - 192"
    "224 \<le> unat b \<Longrightarrow> unat b \<le> 239 \<Longrightarrow> unat b mod 16 = unat b - 224"
    "240 \<le> unat b \<Longrightarrow> unat b \<le> 244 \<Longrightarrow> unat b mod 8 = unat b - 240"
    by (rule mod_window; simp)+
  have l: "unat b < 4294967296" "unat b - k < 4294967296" for k using unat_u8_lt [of b] by simp_all
  show ?thesis
    by (simp add: utf8_lead_def word_le_nat_alt eq_u32_of [OF l(1)] eq_u32_of [OF l(2)] low_bits unat_ucast_u8 m)
qed

definition first_ok :: "u8 \<Rightarrow> u8 \<Rightarrow> bool" where
  "first_ok b x \<longleftrightarrow> \<not> (unat b = 224 \<and> unat x < 160) \<and> \<not> (unat b = 237 \<and> unat x \<ge> 160) \<and>
     \<not> (unat b = 240 \<and> unat x < 144) \<and> \<not> (unat b = 244 \<and> unat x \<ge> 144)"

definition cont :: "u8 \<Rightarrow> bool" where
  "cont x \<longleftrightarrow> 128 \<le> unat x \<and> unat x < 192"

lemma tail_nat:
  assumes "c < 2 ^ 20"
  shows "utf8_tail b k (u32_of c) (x # xs) =
    (if cont x \<and> (k = 1 \<longrightarrow> first_ok b x) then utf8_tail b (k + 1) (u32_of (c * 64 + (unat x - 128))) xs else None)"
proof -
  have c: "unat (u32_of c) = c" using assms by (simp add: unat_u32_of)
  have P: "push_bit 6 (u32_of c) OR ucast (x AND 0x3f) = u32_of (c * 64 + (unat x - 128))" if x: "cont x"
  proof -
    have "unat x mod 64 = unat x - 128" using x by (intro mod_window) (simp_all add: cont_def)
    moreover have "c * 64 + (unat x - 128) < 4294967296" using assms x unfolding cont_def by (simp, linarith)
    ultimately show ?thesis
      using shift_in [of "u32_of c" x] assms by (simp only: eq_u32_of c)
  qed
  have Q: "x AND 0xc0 = 0x80 \<longleftrightarrow> cont x" by (simp add: continuation_byte cont_def)
  have R: "((b = 0xe0 \<and> x < 0xa0) \<or> (b = 0xed \<and> x \<ge> 0xa0) \<or> (b = 0xf0 \<and> x < 0x90) \<or> (b = 0xf4 \<and> x \<ge> 0x90)) \<longleftrightarrow> \<not> first_ok b x"
    by (auto simp: first_ok_def word_le_nat_alt word_less_nat_alt word_unat_eq_iff)
  show ?thesis
    by (subst utf8_tail.simps(2), cases "cont x"; cases "first_ok b x")
      (simp_all only: P Q R simp_thms if_True if_False, simp_all)
qed

declare utf8_tail.simps(2) [simp del]

lemma next_1: "unat b < 128 \<Longrightarrow> data_utf8_next (b # r) = Some (u32_of (unat b), r)"
  by (simp add: data_utf8_next_def lead_nat)

lemma next_2:
  assumes "194 \<le> unat b" "unat b \<le> 223"
  shows "data_utf8_next (b # x # r) =
    (if cont x then Some (u32_of ((unat b - 192) * 64 + (unat x - 128)), r) else None)"
  using assms by (simp add: data_utf8_next_def lead_nat tail_nat first_ok_def)

lemma next_3:
  assumes "224 \<le> unat b" "unat b \<le> 239"
  shows "data_utf8_next (b # x # y # r) =
    (if cont x \<and> first_ok b x \<and> cont y
     then Some (u32_of (((unat b - 224) * 64 + (unat x - 128)) * 64 + (unat y - 128)), r) else None)"
proof -
  have "cont x \<Longrightarrow> (unat b - 224) * 64 + (unat x - 128) < 2 ^ 20" using assms unfolding cont_def by simp linarith
  then show ?thesis using assms by (auto simp: data_utf8_next_def lead_nat tail_nat)
qed

lemma next_4:
  assumes "240 \<le> unat b" "unat b \<le> 244"
  shows "data_utf8_next (b # x # y # z # r) =
    (if cont x \<and> first_ok b x \<and> cont y \<and> cont z
     then Some (u32_of ((((unat b - 240) * 64 + (unat x - 128)) * 64 + (unat y - 128)) * 64 + (unat z - 128)), r)
     else None)"
proof -
  have "cont x \<Longrightarrow> (unat b - 240) * 64 + (unat x - 128) < 2 ^ 20"
    "cont x \<Longrightarrow> cont y \<Longrightarrow> ((unat b - 240) * 64 + (unat x - 128)) * 64 + (unat y - 128) < 2 ^ 20"
    using assms unfolding cont_def by (simp, linarith)+
  then show ?thesis using assms by (auto simp: data_utf8_next_def lead_nat tail_nat)
qed

lemma decode_encode:
  assumes "scalar_value c"
  shows "data_utf8_next (utf8_encode c @ r) = Some (u32_of c, r)"
proof -
  consider "c < 0x80" | "0x80 \<le> c" "c < 0x800" | "0x800 \<le> c" "c < 0x10000" | "0x10000 \<le> c" "c < 0x110000"
    using assms by (force simp: scalar_value_def)
  then show ?thesis
  proof cases
    case 1
    then show ?thesis by (simp add: utf8_encode_def next_1 unat_u8_of)
  next
    case 2
    then have "c div 64 < 32" "2 \<le> c div 64" by linarith+
    then show ?thesis using 2 by (simp add: utf8_encode_def next_2 unat_u8_of cont_def)
  next
    case 3
    define x y z where "x = c div 4096" and "y = c div 64 mod 64" and "z = c mod 64"
    have b: "x < 16" "y < 64" "z < 64" using 3 by (simp_all add: x_def y_def z_def) 
    have "c div 4096 = c div 64 div 64" using div_mult2_eq [of c 64 64] by simp
    then have c: "c = (x * 64 + y) * 64 + z"
      unfolding x_def y_def z_def using div_mult_mod_eq [of c 64] div_mult_mod_eq [of "c div 64" 64] by simp
    have f: "first_ok (u8_of (224 + x)) (u8_of (128 + y))"
      using assms 3 b unfolding scalar_value_def c by (simp add: first_ok_def unat_u8_of) linarith
    have "utf8_encode c = [u8_of (224 + x), u8_of (128 + y), u8_of (128 + z)]"
      using 3 by (simp add: utf8_encode_def x_def y_def z_def)
    then have "data_utf8_next (utf8_encode c @ r) = Some (u32_of ((x * 64 + y) * 64 + z), r)"
      using b f by (simp add: next_3 unat_u8_of cont_def)
    then show ?thesis by (simp only: c [symmetric])
  next
    case 4
    define w x y z where "w = c div 262144" and "x = c div 4096 mod 64" and "y = c div 64 mod 64" and "z = c mod 64"
    have b: "w \<le> 4" "x < 64" "y < 64" "z < 64" using 4 by (simp_all add: w_def x_def y_def z_def)
    have "c div 4096 = c div 64 div 64" "c div 262144 = c div 64 div 64 div 64"
      using div_mult2_eq [of c 64 64] div_mult2_eq [of c 4096 64] by simp_all
    then have c: "c = ((w * 64 + x) * 64 + y) * 64 + z"
      unfolding w_def x_def y_def z_def
      using div_mult_mod_eq [of c 64] div_mult_mod_eq [of "c div 64" 64] div_mult_mod_eq [of "c div 64 div 64" 64] by simp
    have f: "first_ok (u8_of (240 + w)) (u8_of (128 + x))"
      using assms 4 b unfolding scalar_value_def c by (simp add: first_ok_def unat_u8_of) linarith
    have "utf8_encode c = [u8_of (240 + w), u8_of (128 + x), u8_of (128 + y), u8_of (128 + z)]"
      using 4 by (simp add: utf8_encode_def w_def x_def y_def z_def)
    then have "data_utf8_next (utf8_encode c @ r) = Some (u32_of (((w * 64 + x) * 64 + y) * 64 + z), r)"
      using b f by (simp add: next_4 unat_u8_of cont_def)
    then show ?thesis by (simp only: c [symmetric])
  qed
qed

lemma byte_eq: "n < 256 \<Longrightarrow> b = u8_of n \<longleftrightarrow> unat b = n"
  using unat_u8_of by (metis word_unat_eq_iff)

lemma digits2: "z < 64 \<Longrightarrow> (y * 64 + z) div 64 = y" "z < 64 \<Longrightarrow> (y * 64 + z) mod 64 = (z :: nat)"
  by (simp_all add: div_add1_eq)

lemma encode_2:
  assumes "194 \<le> unat b" "unat b \<le> 223" "cont x"
  shows "scalar_value ((unat b - 192) * 64 + (unat x - 128)) \<and>
    utf8_encode ((unat b - 192) * 64 + (unat x - 128)) = [b, x]"
proof -
  define u v where "u = unat b - 192" and "v = unat x - 128"
  have n: "unat b = 192 + u" "unat x = 128 + v" "2 \<le> u" "u < 32" "v < 64"
    using assms by (auto simp: u_def v_def cont_def)
  then have "b = u8_of (192 + u)" "x = u8_of (128 + v)" by (simp_all add: byte_eq)
  moreover have "128 \<le> u * 64 + v" "u * 64 + v < 2048" using n by linarith+
  ultimately show ?thesis
    using n by (simp add: u_def [symmetric] v_def [symmetric] scalar_value_def utf8_encode_def digits2)
qed

lemma encode_3:
  assumes "224 \<le> unat b" "unat b \<le> 239" "cont x" "first_ok b x" "cont y"
  defines "c \<equiv> ((unat b - 224) * 64 + (unat x - 128)) * 64 + (unat y - 128)"
  shows "scalar_value c \<and> utf8_encode c = [b, x, y]"
proof -
  define u v w where "u = unat b - 224" and "v = unat x - 128" and "w = unat y - 128"
  have n: "unat b = 224 + u" "unat x = 128 + v" "unat y = 128 + w" "u < 16" "v < 64" "w < 64"
    using assms by (auto simp: u_def v_def w_def cont_def)
  have ok: "u = 0 \<Longrightarrow> 32 \<le> v" "u = 13 \<Longrightarrow> v < 32" using assms(4) n by (auto simp: first_ok_def)
  have c: "c = (u * 64 + v) * 64 + w" by (simp add: c_def u_def v_def w_def)
  have r: "2048 \<le> c" "c < 65536"
    using n ok(1) by (cases "u = 0"; simp add: c; linarith)+
  have s: "scalar_value c"
  proof (cases "u = 13")
    case True
    then show ?thesis using n r ok by (simp add: scalar_value_def c)
  next
    case False
    then have "u \<le> 12 \<or> 14 \<le> u" by linarith
    then have "c < 55296 \<or> 57344 \<le> c" 
    proof
      assume "u \<le> 12"
      then have "c < 55296" using n unfolding c by (simp add: algebra_simps)
      then show ?thesis ..
    next
      assume "14 \<le> u"
      then have "57344 \<le> c" using n unfolding c by (simp add: algebra_simps)
      then show ?thesis ..
    qed
    then show ?thesis using r by (auto simp: scalar_value_def)
  qed
  have "c div 64 = u * 64 + v" "c mod 64 = w" using n by (simp_all only: c digits2)
  moreover have "c div 4096 = c div 64 div 64" using div_mult2_eq [of c 64 64] by simp
  ultimately have d: "c div 4096 = u" "c div 64 mod 64 = v" "c mod 64 = w" using n by (simp_all add: digits2)
  have "b = u8_of (224 + u)" "x = u8_of (128 + v)" "y = u8_of (128 + w)" using n by (simp_all add: byte_eq)
  then show ?thesis using r s by (simp add: utf8_encode_def d)
qed

lemma encode_4:
  assumes "240 \<le> unat b" "unat b \<le> 244" "cont x" "first_ok b x" "cont y" "cont z"
  defines "c \<equiv> (((unat b - 240) * 64 + (unat x - 128)) * 64 + (unat y - 128)) * 64 + (unat z - 128)"
  shows "scalar_value c \<and> utf8_encode c = [b, x, y, z]"
proof -
  define t u v w where "t = unat b - 240" and "u = unat x - 128" and "v = unat y - 128" and "w = unat z - 128"
  have n: "unat b = 240 + t" "unat x = 128 + u" "unat y = 128 + v" "unat z = 128 + w" "t \<le> 4" "u < 64" "v < 64" "w < 64"
    using assms by (auto simp: t_def u_def v_def w_def cont_def)
  have ok: "t = 0 \<Longrightarrow> 16 \<le> u" "t = 4 \<Longrightarrow> u < 16" using assms(4) n by (auto simp: first_ok_def)
  have c: "c = ((t * 64 + u) * 64 + v) * 64 + w" by (simp add: c_def t_def u_def v_def w_def)
  have r: "65536 \<le> c" using n ok(1) by (cases "t = 0"; simp add: c; linarith)
  have r2: "c < 0x110000" using n ok(2) by (cases "t = 4"; simp add: c; linarith)
  have "c div 64 = (t * 64 + u) * 64 + v" "c mod 64 = w" using n by (simp_all only: c digits2)
  moreover have "c div 4096 = c div 64 div 64" "c div 262144 = c div 64 div 64 div 64"
    using div_mult2_eq [of c 64 64] div_mult2_eq [of c 4096 64] by simp_all
  ultimately have d: "c div 262144 = t" "c div 4096 mod 64 = u" "c div 64 mod 64 = v" "c mod 64 = w"
    using n by (simp_all only: digits2)
  have "b = u8_of (240 + t)" "x = u8_of (128 + u)" "y = u8_of (128 + v)" "z = u8_of (128 + w)"
    using n by (simp_all add: byte_eq)
  then show ?thesis using r r2 by (simp add: utf8_encode_def scalar_value_def d)
qed

lemma encode_decode:
  assumes "data_utf8_next s = Some (cp, r)"
  shows "scalar_value (unat cp) \<and> s = utf8_encode (unat cp) @ r"
proof -
  from assms obtain b s' c w where s: "s = b # s'" and lead: "utf8_lead b = Some (c, w)" and w: "w \<le> length s"
    by (auto simp: utf8_next_cases)
  from lead consider "unat b < 128" "w = 1" | "194 \<le> unat b" "unat b \<le> 223" "w = 2"
    | "224 \<le> unat b" "unat b \<le> 239" "w = 3" | "240 \<le> unat b" "unat b \<le> 244" "w = 4"
    by (auto simp: lead_nat split: if_splits)
  then show ?thesis
  proof cases
    case 1
    then have "cp = u32_of (unat b)" "r = s'" using assms by (simp_all add: s next_1)
    moreover have "u8_of (unat b) = b" by (simp add: u8_of_def)
    ultimately show ?thesis using 1 by (simp add: s unat_u32_of scalar_value_def utf8_encode_def)
  next
    case 2
    then obtain x t where t: "s' = x # t" using w by (cases s') (auto simp: s)
    then show ?thesis
      using assms 2 encode_2 [of b x] unat_u8_lt [of b] unat_u8_lt [of x]
      by (auto simp: s next_2 unat_u32_of split: if_splits)
  next
    case 3
    then obtain x y t where t: "s' = x # y # t" using w by (cases s'; cases "tl s'") (auto simp: s)
    define c where "c = ((unat b - 224) * 64 + (unat x - 128)) * 64 + (unat y - 128)"
    have k: "cont x" "first_ok b x" "cont y" "cp = u32_of c" "r = t"
      using assms 3 by (auto simp: s t next_3 c_def split: if_splits)
    note e = encode_3 [OF 3(1,2) k(1,2,3), folded c_def]
    then have "unat cp = c" using k by (simp add: unat_u32_of scalar_value_def)
    then show ?thesis using e k by (simp add: s t)
  next
    case 4
    then obtain x y z t where t: "s' = x # y # z # t" using w by (cases s'; cases "tl s'"; cases "tl (tl s')") (auto simp: s)
    define c where "c = (((unat b - 240) * 64 + (unat x - 128)) * 64 + (unat y - 128)) * 64 + (unat z - 128)"
    have k: "cont x" "first_ok b x" "cont y" "cont z" "cp = u32_of c" "r = t"
      using assms 4 by (auto simp: s t next_4 c_def split: if_splits)
    note e = encode_4 [OF 4(1,2) k(1,2,3,4), folded c_def]
    then have "unat cp = c" using k by (simp add: unat_u32_of scalar_value_def)
    then show ?thesis using e k by (simp add: s t)
  qed
qed

lemma utf8_all_iff:
  "utf8_all s \<longleftrightarrow> (\<exists>cs. (\<forall>c \<in> set cs. scalar_value c \<and> c \<noteq> 0) \<and> s = concat (map utf8_encode cs))"
proof
  show "utf8_all s \<Longrightarrow> \<exists>cs. (\<forall>c \<in> set cs. scalar_value c \<and> c \<noteq> 0) \<and> s = concat (map utf8_encode cs)"
  proof (induction s rule: utf8_all.induct)
    case (1 s)
    show ?case
    proof (cases "s = []")
      case True
      then show ?thesis by (intro exI [of _ "[]"]) simp
    next
      case False
      then obtain cp r where n: "data_utf8_next s = Some (cp, r)" and c: "cp \<noteq> 0" "utf8_all r"
        using "1.prems" by (subst (asm) utf8_all.simps) (auto split: option.splits)
      then obtain cs where cs: "\<forall>c \<in> set cs. scalar_value c \<and> c \<noteq> 0" "r = concat (map utf8_encode cs)"
        using 1 False by blast
      have "unat cp \<noteq> 0" using c by (simp add: unat_eq_0)
      then show ?thesis
        using encode_decode [OF n] cs by (intro exI [of _ "unat cp # cs"]) simp
    qed
  qed
next
  assume "\<exists>cs. (\<forall>c \<in> set cs. scalar_value c \<and> c \<noteq> 0) \<and> s = concat (map utf8_encode cs)"
  then obtain cs where "\<forall>c \<in> set cs. scalar_value c \<and> c \<noteq> 0" "s = concat (map utf8_encode cs)" by blast
  then show "utf8_all s"
  proof (induction cs arbitrary: s)
    case Nil
    then show ?case by (simp add: utf8_all.simps)
  next
    case (Cons c cs)
    let ?r = "concat (map utf8_encode cs)"
    have "data_utf8_next s = Some (u32_of c, ?r)" using decode_encode [of c ?r] Cons.prems by simp
    moreover have "unat (u32_of c) = c" using Cons.prems by (simp add: unat_u32_of scalar_value_def)
    then have "u32_of c \<noteq> 0" using Cons.prems by auto
    moreover have "utf8_all ?r" using Cons by simp
    ultimately show ?case by (subst utf8_all.simps) auto
  qed
qed

section \<open>Property\<close>

text \<open>
  C29.  The string check accepts exactly the non-empty texts of at most 4096 bytes that are the
  UTF-8 encoding of a sequence of Unicode scalar values other than NUL: no overlong form, no
  surrogate, nothing above U+10FFFF and no truncated sequence.
\<close>

lemma data_valid_string_utf8:
  "data_valid_string (Some s) \<longleftrightarrow> s \<noteq> [] \<and> length s \<le> 4096 \<and>
     (\<exists>cs. list_all (\<lambda>c. scalar_value c \<and> c \<noteq> 0) cs \<and> s = concat (map utf8_encode cs))"
  by (simp add: data_valid_string_def data_max_string_bytes_def utf8_all_iff list_all_iff)

end
