(* ===== verification/PartitionPlan.thy ===== *)
theory PartitionPlan
  imports Common
begin

text \<open>
  partition_plan.c: the physical plan that cuts a source of \<open>input_bytes\<close> bytes into contiguous
  byte ranges, and its validation.  \<open>mem\<close> says whether the table of \<open>n\<close> partitions can be
  allocated.  A null plan or table pointer is \<open>None\<close>.
\<close>

definition partition_max_count :: nat where "partition_max_count = 4096"

record partition =
  pt_id :: nat
  pt_offset :: nat
  pt_length :: nat

record physical_plan =
  pl_input_bytes :: nat
  pl_target_bytes :: nat
  pl_count :: nat
  pl_partitions :: "partition list option"



text \<open>The validation loop from index \<open>i\<close>: the end of the last range, or \<open>None\<close> for a bad entry.\<close>

fun validate_partitions :: "nat \<Rightarrow> nat \<Rightarrow> nat \<Rightarrow> partition list \<Rightarrow> nat option" where
  "validate_partitions target i expected [] = Some expected"
| "validate_partitions target i expected (p # ps) =
     (if pt_id p \<noteq> i \<or> pt_offset p \<noteq> expected \<or> pt_length p = 0 \<or> pt_length p > target then None
      else case milena_size_add (pt_offset p) (pt_length p) of
             None \<Rightarrow> None
           | Some next' \<Rightarrow> validate_partitions target (i + 1) next' ps)"

definition plan_table :: "physical_plan \<Rightarrow> partition list" where
  "plan_table p = (case pl_partitions p of None \<Rightarrow> [] | Some ps \<Rightarrow> take (pl_count p) ps)"

definition milena_physical_plan_validate :: "physical_plan option \<Rightarrow> MilenaStatus" where
  "milena_physical_plan_validate plan =
     (case plan of None \<Rightarrow> MILENA_ERR_ARGUMENT | Some p \<Rightarrow>
      if pl_count p > 0 \<and> pl_partitions p = None then MILENA_ERR_ARGUMENT
      else if pl_count p > partition_max_count \<or> pl_target_bytes p = 0 then MILENA_ERR_OVERFLOW
      else case validate_partitions (pl_target_bytes p) 0 0 (plan_table p) of
             None \<Rightarrow> MILENA_ERR_DATA
           | Some expected \<Rightarrow> if expected \<noteq> pl_input_bytes p then MILENA_ERR_DATA else MILENA_OK)"




section \<open>Coverage\<close>

text \<open>\<open>covers ps a b\<close>: consecutive non-empty ranges from \<open>a\<close> to \<open>b\<close>.\<close>

fun covers :: "partition list \<Rightarrow> nat \<Rightarrow> nat \<Rightarrow> bool" where
  "covers [] a b \<longleftrightarrow> a = b"
| "covers (p # ps) a b \<longleftrightarrow> pt_offset p = a \<and> 0 < pt_length p \<and> covers ps (a + pt_length p) b"

lemma covers_le: "covers ps a b \<Longrightarrow> a \<le> b"
  by (induction ps arbitrary: a) fastforce+

lemma validate_covers:
  "a \<le> size_max \<Longrightarrow> validate_partitions target i a ps = Some b \<longleftrightarrow>
     covers ps a b \<and> b \<le> size_max \<and> (\<forall>p \<in> set ps. pt_length p \<le> target) \<and>
     map pt_id ps = [i..<i + length ps]"
proof (induction ps arbitrary: i a)
  case Nil
  then show ?case by auto
next
  case (Cons p ps)
  have up: "[i..<i + length (p # ps)] = i # [i + 1..<i + 1 + length ps]"
    by (subst upt_conv_Cons) simp_all
  have add: "milena_size_add (pt_offset p) (pt_length p) = (if a + pt_length p \<le> size_max then Some (a + pt_length p) else None)"
    if "pt_offset p = a" using milena_size_add_eq [of a "pt_length p"] that Cons.prems by simp
  show ?case
  proof (cases "pt_offset p = a \<and> a + pt_length p \<le> size_max")
    case True
    then show ?thesis using Cons.IH [of "a + pt_length p" "i + 1"] add unfolding up by auto
  next
    case False
    then show ?thesis using covers_le [of ps "a + pt_length p" b] add by (auto split: if_splits)
  qed
qed




section \<open>Properties\<close>



text \<open>
  C33.  A plan is valid exactly when its table tiles the source: identifiers are the positions,
  ranges are non-empty, at most the target size, contiguous, and end where the source ends.
\<close>

theorem physical_plan_validate_iff:
  "milena_physical_plan_validate (Some p) = MILENA_OK \<longleftrightarrow>
     \<not> (0 < pl_count p \<and> pl_partitions p = None) \<and> pl_count p \<le> partition_max_count \<and> 0 < pl_target_bytes p \<and>
     pl_input_bytes p \<le> size_max \<and> covers (plan_table p) 0 (pl_input_bytes p) \<and>
     list_all (\<lambda>r. pt_length r \<le> pl_target_bytes p) (plan_table p) \<and>
     map pt_id (plan_table p) = [0..<length (plan_table p)]"
proof -
  have "milena_physical_plan_validate (Some p) = MILENA_OK \<longleftrightarrow>
     \<not> (0 < pl_count p \<and> pl_partitions p = None) \<and> pl_count p \<le> partition_max_count \<and> 0 < pl_target_bytes p \<and>
     validate_partitions (pl_target_bytes p) 0 0 (plan_table p) = Some (pl_input_bytes p)"
    by (auto simp: milena_physical_plan_validate_def not_less split: option.splits)
  then show ?thesis
    using validate_covers [of 0 "pl_target_bytes p" 0 "plan_table p" "pl_input_bytes p"]
    by (auto simp: list_all_iff)
qed

end
