(* ===== verification/PartitionProtocol.thy ===== *)
theory PartitionProtocol
  imports PartitionPlan
begin

text \<open>
  partition_protocol.c: the 40-byte message that carries a partition's result, sealed by the low
  32 bits of an FNV-1a checksum; partition_reduce.c and partition_protocol_reduce.c: the ordered
  compensated sum of the partial results and its version over unordered messages.
\<close>

definition partition_wire_size :: nat where "partition_wire_size = 40"

record partition_result =
  pr_id :: nat
  pr_status :: MilenaStatus
  pr_valid :: bool
  pr_value :: f64

definition fnv_prime :: u64 where "fnv_prime = 1099511628211"

definition checksum :: "bytes \<Rightarrow> u64" where
  "checksum data = fold (\<lambda>b v. (v XOR ucast b) * fnv_prime) data 1469598103934665603"

definition put_u32 :: "u32 \<Rightarrow> bytes" where "put_u32 v = put_le 4 v"
definition put_u64 :: "u64 \<Rightarrow> bytes" where "put_u64 v = put_le 8 v"
definition get_u32 :: "bytes \<Rightarrow> nat \<Rightarrow> u32" where "get_u32 bs o' = get_le 4 (drop o' bs)"
definition get_u64 :: "bytes \<Rightarrow> nat \<Rightarrow> u64" where "get_u64 bs o' = get_le 8 (drop o' bs)"

text \<open>The result and the buffer; the pair is the buffer afterwards and the bytes written.\<close>

definition milena_partition_result_encode ::
  "partition_result option \<Rightarrow> bytes option \<Rightarrow> MilenaStatus + bytes \<times> nat"
where
  "milena_partition_result_encode result buffer =
     (case (result, buffer) of
        (Some r, Some buf) \<Rightarrow>
          if length buf < partition_wire_size \<or> (pr_valid r \<and> \<not> f_finite (pr_value r))
          then Inl MILENA_ERR_ARGUMENT
          else if pr_id r > uint64_max then Inl MILENA_ERR_OVERFLOW
          else
            let buf = poke 0 (replicate partition_wire_size 0) buf;
                buf = poke 0 (ascii ''MLP1'') buf;
                buf = poke 4 (put_u64 2) buf;
                buf = poke 12 (put_u64 (of_nat (pr_id r))) buf;
                buf = poke 20 (put_u64 (of_nat (status_code (pr_status r)) OR
                                        (if pr_valid r then push_bit 32 1 else 0))) buf;
                buf = poke 28 (put_u64 (pr_value r)) buf;
                buf = poke 36 (put_u32 (ucast (checksum (take 36 buf)))) buf
            in Inr (buf, partition_wire_size)
      | _ \<Rightarrow> Inl MILENA_ERR_ARGUMENT)"

definition milena_partition_result_decode ::
  "bytes option \<Rightarrow> MilenaStatus + partition_result"
where
  "milena_partition_result_decode buffer =
     (case buffer of None \<Rightarrow> Inl MILENA_ERR_ARGUMENT | Some bs \<Rightarrow>
      if length bs \<noteq> partition_wire_size then Inl MILENA_ERR_ARGUMENT
      else if take 4 bs \<noteq> ascii ''MLP1'' \<or> get_u64 bs 4 \<noteq> 2 then Inl MILENA_ERR_PARSE
      else if ucast (checksum (take 36 bs)) \<noteq> get_u32 bs 36 then Inl MILENA_ERR_DATA
      else
        let flags = get_u64 bs 20; raw_status = flags AND 0xffffffff;
            valid = (flags AND push_bit 32 1 \<noteq> 0); value = get_u64 bs 28
        in if unat raw_status > status_code MILENA_ERR_LIMIT then Inl MILENA_ERR_DATA
           else if unat (get_u64 bs 12) > size_max then Inl MILENA_ERR_OVERFLOW
           else if valid \<and> \<not> f_finite value then Inl MILENA_ERR_DATA
           else Inr \<lparr>pr_id = unat (get_u64 bs 12), pr_status = status_of_code (unat raw_status),
                     pr_valid = valid, pr_value = value\<rparr>)"

section \<open>Reduction\<close>

record partition_partial =
  pp_id :: nat
  pp_value :: f64
  pp_valid :: bool

text \<open>The loop of \<open>milena_partition_reduce_sum\<close> from index \<open>i\<close>.\<close>

fun reduce_loop :: "nat \<Rightarrow> f64 \<Rightarrow> f64 \<Rightarrow> partition_partial list \<Rightarrow> MilenaStatus + f64" where
  "reduce_loop i acc cmp [] = Inr acc"
| "reduce_loop i acc cmp (p # ps) =
     (if pp_id p \<noteq> i then Inl MILENA_ERR_DATA
      else if \<not> pp_valid p then reduce_loop (i + 1) acc cmp ps
      else if \<not> f_finite (pp_value p) then Inl MILENA_ERR_DATA
      else let corrected = f_sub (pp_value p) cmp;
               next' = f_add acc corrected
           in reduce_loop (i + 1) next' (f_sub (f_sub next' acc) corrected) ps)"

definition milena_partition_reduce_sum ::
  "physical_plan option \<Rightarrow> partition_partial list option \<Rightarrow> nat \<Rightarrow> MilenaStatus + f64"
where
  "milena_partition_reduce_sum plan partials partial_count =
     (if plan = None \<or> (partial_count > 0 \<and> partials = None) \<or> partial_count \<noteq> pl_count (the plan)
      then Inl MILENA_ERR_ARGUMENT
      else let status = milena_physical_plan_validate plan
           in if status \<noteq> MILENA_OK then Inl status
              else reduce_loop 0 0 0 (case partials of None \<Rightarrow> [] | Some ps \<Rightarrow> take partial_count ps))"

text \<open>
  The collection loop over the messages; \<open>ps\<close> and \<open>seen\<close> are the two arrays of \<open>n\<close> entries.
\<close>

fun collect_results ::
  "nat \<Rightarrow> bytes list \<Rightarrow> partition_partial list \<Rightarrow> bool list \<Rightarrow> MilenaStatus + partition_partial list \<times> bool list"
where
  "collect_results n [] ps seen = Inr (ps, seen)"
| "collect_results n (msg # msgs) ps seen =
     (case milena_partition_result_decode (Some msg) of
        Inl e \<Rightarrow> Inl e
      | Inr d \<Rightarrow>
          if pr_id d \<ge> n then Inl MILENA_ERR_DATA
          else if seen ! pr_id d then Inl MILENA_ERR_DATA
          else if pr_status d \<noteq> MILENA_OK then Inl (pr_status d)
          else collect_results n msgs
                 (ps[pr_id d := \<lparr>pp_id = pr_id d, pp_value = pr_value d, pp_valid = pr_valid d\<rparr>])
                 (seen[pr_id d := True]))"

definition wire_windows :: "nat \<Rightarrow> bytes \<Rightarrow> bytes list" where
  "wire_windows n bs = map (\<lambda>i. peek (i * partition_wire_size) partition_wire_size bs) [0..<n]"

definition milena_partition_results_reduce_sum ::
  "bool \<Rightarrow> physical_plan option \<Rightarrow> bytes option \<Rightarrow> nat \<Rightarrow> MilenaStatus + f64"
where
  "milena_partition_results_reduce_sum mem plan messages message_count =
     (if plan = None \<or> (message_count > 0 \<and> messages = None) \<or> message_count \<noteq> pl_count (the plan)
      then Inl MILENA_ERR_ARGUMENT
      else
        let n = pl_count (the plan)
        in if n = 0 then Inr 0
           else if \<not> mem then Inl MILENA_ERR_MEMORY
           else case collect_results n (wire_windows n (the messages))
                       (replicate n \<lparr>pp_id = 0, pp_value = 0, pp_valid = False\<rparr>) (replicate n False) of
                  Inl e \<Rightarrow> Inl e
                | Inr (ps, seen) \<Rightarrow>
                    if \<not> list_all (\<lambda>b. b) seen then Inl MILENA_ERR_DATA
                    else milena_partition_reduce_sum plan (Some ps) n)"

end
