(* ===== verification/Checksums.thy ===== *)
theory Checksums
  imports Prelude
begin

text \<open>
  FNV-1a checksums in 32 bits: \<open>value ^= byte; value *= prime\<close>.  The prime is odd, so each step is
  injective in the running value, and two runs that differ in one byte end in different values.
  The locale states that once; the spill records use it with the 32-bit prime and the partition
  messages with the low half of the 64-bit one.
\<close>

definition fnv_run :: "u32 \<Rightarrow> u32 \<Rightarrow> bytes \<Rightarrow> u32" where
  "fnv_run prime start data = fold (\<lambda>b v. (v XOR ucast b) * prime) data start"

lemma fnv_run_simps [simp]:
  "fnv_run p s [] = s" "fnv_run p s (b # data) = fnv_run p ((s XOR ucast b) * p) data"
  "fnv_run p s (xs @ ys) = fnv_run p (fnv_run p s xs) ys"
  by (simp_all add: fnv_run_def)

lemma xor_inject: "(a XOR b :: 'a::len word) = c XOR b \<longleftrightarrow> a = c" "(b XOR a) = (b XOR c) \<longleftrightarrow> a = c"
  by (metis xor.assoc xor.commute xor_self_eq xor.right_neutral)+

lemma ucast_byte_inject: "(ucast (a :: u8) :: u32) = ucast b \<longleftrightarrow> a = b"
proof
  assume "(ucast a :: u32) = ucast b"
  then have "unat (ucast a :: u32) = unat (ucast b :: u32)" by simp
  then show "a = b"
    using unat_u8_lt [of a] unat_u8_lt [of b]
    by (simp add: unsigned_ucast_eq take_bit_nat_eq_self word_unat_eq_iff)
qed simp

locale fnv32 =
  fixes prime inverse' start :: u32
  assumes prime_inverse: "prime * inverse' = 1"
begin

lemma step_inject: "v * prime = w * prime \<longleftrightarrow> v = w"
proof
  assume "v * prime = w * prime"
  then have "v * prime * inverse' = w * prime * inverse'" by simp
  then show "v = w" by (simp only: mult.assoc prime_inverse mult_1_right)
qed simp

lemma run_inject: "fnv_run prime v data = fnv_run prime w data \<longleftrightarrow> v = w"
  by (induction data arbitrary: v w) (simp_all add: step_inject xor_inject)

lemma one_byte:
  assumes "i < length data" and "b \<noteq> data ! i"
  shows "fnv_run prime start (data[i := b]) \<noteq> fnv_run prime start data"
proof -
  define s where "s = fnv_run prime start (take i data)"
  have at: "fnv_run prime start (take i data @ c # drop (Suc i) data) =
      fnv_run prime ((s XOR ucast c) * prime) (drop (Suc i) data)" for c
    by (simp add: s_def)
  have "fnv_run prime start (data[i := b]) = fnv_run prime ((s XOR ucast b) * prime) (drop (Suc i) data)"
    unfolding upd_conv_take_nth_drop [OF assms(1)] by (rule at)
  moreover have "fnv_run prime start data = fnv_run prime ((s XOR ucast (data ! i)) * prime) (drop (Suc i) data)"
    using at [of "data ! i"] id_take_nth_drop [OF assms(1)] by metis
  ultimately show ?thesis
    using assms(2) by (simp add: run_inject step_inject xor_inject ucast_byte_inject)
qed

end

end
