(* ===== verification/Binary64Round.thy ===== *)
theory Binary64Round
  imports Binary64
begin

text \<open>
  What rounding guarantees: a rounded result is never on the other side of a double that bounds the
  exact result.  \<open>pmag p\<close> is the magnitude of the bit pattern \<open>p\<close>, \<open>rnd\<close> the rounding of a rational
  at the level of magnitudes with sign; the arithmetic of Binary64 is \<open>rnd\<close> of the exact results.
\<close>

section \<open>Bit lengths\<close>

lemma bit_length_le: "n < 2 ^ bit_length n"
proof (induction n rule: bit_length.induct)
  case (1 n)
  show ?case
  proof (cases "n = 0")
    case False
    then have "n div 2 < 2 ^ bit_length (n div 2)" using 1 by simp
    then have "n < 2 * 2 ^ bit_length (n div 2)" by linarith
    then show ?thesis using False by (simp add: bit_length.simps [of n])
  qed (simp add: bit_length.simps)
qed

lemma bit_length_ge: "n \<noteq> 0 \<Longrightarrow> 2 ^ (bit_length n - 1) \<le> n"
proof (induction n rule: bit_length.induct)
  case (1 n)
  show ?case
  proof (cases "n div 2 = 0")
    case True
    then have "bit_length n = 1" using 1(2) by (simp add: bit_length.simps [of n] bit_length.simps [of 0])
    then show ?thesis using 1(2) by simp
  next
    case False
    then have i: "2 ^ (bit_length (n div 2) - 1) \<le> n div 2" using 1 by simp
    have "0 < bit_length (n div 2)" using False by (simp add: bit_length.simps [of "n div 2"])
    then have "(2::nat) ^ bit_length (n div 2) = 2 * 2 ^ (bit_length (n div 2) - 1)" by (simp add: power_eq_if)
    then have "2 ^ bit_length (n div 2) \<le> n" using i by linarith
    then show ?thesis using 1(2) by (simp add: bit_length.simps [of n])
  qed
qed

section \<open>Patterns\<close>

definition pmag :: "nat \<Rightarrow> nat" where
  "pmag p = (let e = p div 2 ^ 52; f = p mod 2 ^ 52 in if e = 0 then f else (2 ^ 52 + f) * 2 ^ (e - 1))"

lemma pmag_small: "p < 2 ^ 53 \<Longrightarrow> pmag p = p"
proof -
  assume p: "p < 2 ^ 53"
  have d: "p div 2 ^ 52 * 2 ^ 52 + p mod 2 ^ 52 = p" by (rule div_mult_mod_eq)
  have "p div 2 ^ 52 < 2" using p by (simp add: less_mult_imp_div_less)
  then consider "p div 2 ^ 52 = 0" | "p div 2 ^ 52 = 1" by linarith
  then show ?thesis
  proof cases
    case 1
    then show ?thesis using d unfolding pmag_def Let_def by simp
  next
    case 2
    then have "1 * 2 ^ 52 + p mod 2 ^ 52 = p" using d by simp
    then have "2 ^ 52 + p mod 2 ^ 52 = p" by (simp only: mult_1)
    then show ?thesis using 2 unfolding pmag_def Let_def by simp
  qed
qed

lemma pmag_binade:
  assumes "2 ^ 52 \<le> n" and "n \<le> 2 ^ 53"
  shows "pmag (n + k * 2 ^ 52) = n * 2 ^ k"
proof (cases "n = 2 ^ 53")
  case True
  then have "n + k * 2 ^ 52 = (k + 2) * 2 ^ 52" by simp
  then have "(n + k * 2 ^ 52) div 2 ^ 52 = k + 2" "(n + k * 2 ^ 52) mod 2 ^ 52 = 0" by simp_all
  then show ?thesis using True by (simp add: pmag_def Let_def)
next
  case False
  obtain f where f: "n = 2 ^ 52 + f" "f < 2 ^ 52" using assms False le_Suc_ex by fastforce
  then have e: "n + k * 2 ^ 52 = f + (k + 1) * 2 ^ 52" by simp
  have "(f + (k + 1) * 2 ^ 52) div 2 ^ 52 = k + 1" using f(2) by simp
  moreover have "(f + (k + 1) * 2 ^ 52) mod 2 ^ 52 = f" using f(2) by (simp only: mod_mult_self1 mod_less)
  ultimately show ?thesis unfolding e using f(1) by (simp add: pmag_def Let_def)
qed

lemma pmag_cases:
  obtains "p < 2 ^ 52" "pmag p = p"
  | f k where "p = f + (k + 1) * 2 ^ 52" "f < 2 ^ 52" "pmag p = (2 ^ 52 + f) * 2 ^ k"
proof (cases "p div 2 ^ 52 = 0")
  case True
  then have "p < 2 ^ 52" by (simp add: div_eq_0_iff)
  then show ?thesis using that(1) pmag_small [of p] by simp
next
  case False
  define k where "k = p div 2 ^ 52 - 1"
  have "p = p mod 2 ^ 52 + (k + 1) * 2 ^ 52" using False by (simp add: k_def)
  moreover have "p mod 2 ^ 52 < 2 ^ 52" by simp
  moreover have "pmag p = (2 ^ 52 + p mod 2 ^ 52) * 2 ^ k" using False by (simp add: pmag_def Let_def k_def)
  ultimately show ?thesis by (rule that(2))
qed

lemma pmag_Suc: "pmag p < pmag (Suc p)"
proof (cases p rule: pmag_cases)
  case 1
  then show ?thesis using pmag_small [of "Suc p"] by simp
next
  case (2 f k)
  have s: "Suc p = (2 ^ 52 + Suc f) + k * 2 ^ 52" using 2(1) by simp
  have "2 ^ 52 \<le> 2 ^ 52 + Suc f" "2 ^ 52 + Suc f \<le> 2 ^ 53" using 2(2) by simp_all
  from pmag_binade [OF this, of k, folded s] have "pmag (Suc p) = (2 ^ 52 + Suc f) * 2 ^ k" .
  then show ?thesis using 2(3) by simp
qed

lemma pmag_mono: "p < q \<Longrightarrow> pmag p < pmag q"
  using lift_Suc_mono_less [of pmag] pmag_Suc by blast

lemma pmag_le_iff: "pmag p \<le> pmag q \<longleftrightarrow> p \<le> q"
  using pmag_mono [of p q] pmag_mono [of q p] by (metis le_eq_less_or_eq linorder_not_le)

lemma pmag_0 [simp]: "pmag 0 = 0"
  by (simp add: pmag_def)

lemma pmag_eq_0 [simp]: "pmag p = 0 \<longleftrightarrow> p = 0"
  using pmag_mono [of 0 p] by (cases "p = 0") auto

lemma pmag_dvd:
  assumes "2 ^ (52 + k) \<le> pmag p"
  shows "2 ^ k dvd pmag p"
proof (cases p rule: pmag_cases)
  case 1
  have "(2::nat) ^ 52 \<le> 2 ^ (52 + k)" by (intro power_increasing) simp_all
  then have False using 1 assms by linarith
  then show ?thesis ..
next
  case (2 f j)
  have "pmag p < 2 ^ 53 * 2 ^ j" unfolding 2(3) using 2(2) by (intro mult_strict_right_mono) simp_all
  also have "\<dots> = 2 ^ (53 + j)" by (simp only: power_add)
  finally have "(2::nat) ^ (52 + k) < 2 ^ (53 + j)" using assms by (rule le_less_trans [rotated])
  then have "k \<le> j" using power_less_imp_less_exp [of "2::nat" "52 + k" "53 + j"] by simp
  then have "(2::nat) ^ k dvd 2 ^ j" by (rule le_imp_power_dvd)
  then show ?thesis using 2(3) by simp
qed

text \<open>Neighbours are within a factor of two.\<close>

lemma pmag_double: "0 < p \<Longrightarrow> pmag (Suc p) \<le> 2 * pmag p"
proof (cases p rule: pmag_cases)
  case 1
  then show "0 < p \<Longrightarrow> ?thesis" using pmag_small [of "Suc p"] by simp
next
  case (2 f k)
  have s: "Suc p = (2 ^ 52 + Suc f) + k * 2 ^ 52" using 2(1) by simp
  have "2 ^ 52 \<le> 2 ^ 52 + Suc f" "2 ^ 52 + Suc f \<le> 2 ^ 53" using 2(2) by simp_all
  from pmag_binade [OF this, of k, folded s] have "pmag (Suc p) = (2 ^ 52 + Suc f) * 2 ^ k" .
  also have "\<dots> \<le> (2 * (2 ^ 52 + f)) * 2 ^ k" by (intro mult_right_mono) simp_all
  also have "\<dots> = 2 * pmag p" by (simp only: 2(3) mult.assoc)
  finally show "0 < p \<Longrightarrow> ?thesis" .
qed

section \<open>Rounding to nearest\<close>

lemma half_even_cases:
  obtains "half_even num den = num div den" | "half_even num den = Suc (num div den)" "num mod den \<noteq> 0 \<or> den = 0"
proof -
  have "half_even num den = num div den \<or> half_even num den = Suc (num div den) \<and> (num mod den \<noteq> 0 \<or> den = 0)"
    by (auto simp: half_even_def Let_def)
  then show thesis using that by blast
qed

lemma round_parts:
  assumes "0 < den" and k: "k = bit_length (num div den) - 53" and n: "n = half_even num (den * 2 ^ k)"
  shows "pmag (n + k * 2 ^ 52) = n * 2 ^ k" and "0 < k \<Longrightarrow> 2 ^ (52 + k) \<le> num div (den * 2 ^ k) * 2 ^ k"
proof -
  define q where "q = num div den"
  define q' where "q' = num div (den * 2 ^ k)"
  have q': "q' = q div 2 ^ k" by (simp add: q_def q'_def div_mult2_eq)
  have le: "q < 2 ^ bit_length q" by (rule bit_length_le)
  have n_q: "q' \<le> n" "n \<le> Suc q'"
    unfolding n q'_def by (cases rule: half_even_cases [of num "den * 2 ^ k"]; simp)+
  have big: "2 ^ 52 \<le> q'" "q' < 2 ^ 53" if "0 < k"
  proof -
    have L: "bit_length q = 53 + k" using k that by (simp add: q_def)
    moreover have "bit_length 0 = 0" by (simp add: bit_length.simps [of 0])
    ultimately have "q \<noteq> 0" by (cases "q = 0") simp_all
    then have "2 ^ (bit_length q - 1) \<le> q" by (rule bit_length_ge)
    moreover have "bit_length q - 1 = 52 + k" using L by simp
    ultimately have "2 ^ 52 * 2 ^ k \<le> q" by (simp only: power_add)
    then show "2 ^ 52 \<le> q'" unfolding q' by (simp add: less_eq_div_iff_mult_less_eq)
    have "q < 2 ^ 53 * 2 ^ k" using le L by (simp only: power_add)
    then show "q' < 2 ^ 53" unfolding q' by (rule less_mult_imp_div_less)
  qed
  show "pmag (n + k * 2 ^ 52) = n * 2 ^ k"
  proof (cases "0 < k")
    case True
    have "2 ^ 52 \<le> n" "n \<le> 2 ^ 53" using big [OF True] n_q by linarith+
    then show ?thesis by (rule pmag_binade)
  next
    case False
    then have "bit_length q \<le> 53" using k by (simp add: q_def)
    then have "(2::nat) ^ bit_length q \<le> 2 ^ 53" by (intro power_increasing) simp_all
    then have "q' < 2 ^ 53" using le False q' by simp
    then have "n \<le> 2 ^ 53" using n_q by linarith
    then show ?thesis using False pmag_small [of n] pmag_binade [of "2 ^ 53" 0] by (cases "n = 2 ^ 53") simp_all
  qed
  show "2 ^ (52 + k) \<le> num div (den * 2 ^ k) * 2 ^ k" if "0 < k"
    using big(1) [OF that] unfolding q'_def power_add by (intro mult_right_mono) simp_all
qed

text \<open>No pattern lies strictly between the two neighbours that rounding chooses from.\<close>

lemma round_gap:
  assumes "0 < den" and k: "k = bit_length (num div den) - 53"
    and "num div (den * 2 ^ k) * 2 ^ k < pmag p" and "pmag p < Suc (num div (den * 2 ^ k)) * 2 ^ k"
  shows False
proof (cases "0 < k")
  case True
  define q where "q = num div (den * 2 ^ k)"
  have "2 ^ (52 + k) \<le> pmag p" using round_parts(2) [OF assms(1) k refl True] assms(3) by linarith
  then have "2 ^ k dvd pmag p" by (rule pmag_dvd)
  then obtain j where "pmag p = j * 2 ^ k" by (metis dvd_def mult.commute)
  then have "q * 2 ^ k < j * 2 ^ k" "j * 2 ^ k < Suc q * 2 ^ k" using assms(3,4) by (simp_all add: q_def)
  then have "q < j" "j < Suc q" by (metis mult_less_cancel2)+
  then show False by simp
next
  case False
  then show False using assms(3,4) by simp
qed

lemma round_mag_le:
  assumes "0 < den" and "num \<le> pmag p * den" and "p \<le> inf_bits"
  shows "round_mag num den \<le> p"
proof (rule ccontr)
  assume contr: "\<not> round_mag num den \<le> p"
  define k where "k = bit_length (num div den) - 53"
  define n where "n = half_even num (den * 2 ^ k)"
  define q where "q = num div (den * 2 ^ k)"
  have "p < n + k * 2 ^ 52"
    using contr assms(3) by (auto simp: round_mag_def Let_def k_def n_def split: if_splits)
  then have lt: "pmag p < n * 2 ^ k" using pmag_mono round_parts(1) [OF assms(1) k_def n_def] by metis
  have lo: "q * 2 ^ k * den \<le> num" unfolding q_def by (metis div_times_less_eq_dividend mult.assoc mult.commute)
  show False
  proof (cases rule: half_even_cases [of num "den * 2 ^ k"])
    case 1
    then have "pmag p * den < q * 2 ^ k * den" using lt assms(1) by (simp add: n_def q_def)
    then show False using lo assms(2) by linarith
  next
    case 2
    then have "num mod (den * 2 ^ k) \<noteq> 0" using assms(1) by simp
    then have "q * 2 ^ k * den < num"
      unfolding q_def by (metis div_mult_mod_eq less_add_same_cancel1 mult.assoc mult.commute neq0_conv)
    then have "q * 2 ^ k * den < pmag p * den" using assms(2) by linarith
    then have "q * 2 ^ k < pmag p" by simp
    moreover have "pmag p < Suc q * 2 ^ k" using lt 2(1) by (simp only: n_def q_def)
    ultimately show False using round_gap [OF assms(1) k_def] by (simp add: q_def)
  qed
qed

lemma round_mag_ge:
  assumes "0 < den" and "pmag p * den \<le> num" and "p \<le> inf_bits"
  shows "p \<le> round_mag num den"
proof (rule ccontr)
  assume contr: "\<not> p \<le> round_mag num den"
  define k where "k = bit_length (num div den) - 53"
  define n where "n = half_even num (den * 2 ^ k)"
  define q where "q = num div (den * 2 ^ k)"
  have "n + k * 2 ^ 52 < p"
    using contr assms(3) by (auto simp: round_mag_def Let_def k_def n_def split: if_splits)
  then have lt: "n * 2 ^ k < pmag p" using pmag_mono round_parts(1) [OF assms(1) k_def n_def] by metis
  have pos: "0 < den * 2 ^ k" using assms(1) by simp
  have hi: "num < Suc q * (den * 2 ^ k)" unfolding q_def using pos by (rule dividend_less_div_times [THEN order_less_le_trans]) simp
  then have hi: "num < Suc q * 2 ^ k * den" by (simp only: ac_simps)
  show False
  proof (cases rule: half_even_cases [of num "den * 2 ^ k"])
    case 1
    then have "q * 2 ^ k < pmag p" using lt by (simp only: n_def q_def)
    moreover have "pmag p * den < Suc q * 2 ^ k * den" using hi assms(2) by linarith
    then have "pmag p < Suc q * 2 ^ k" by (simp only: mult_less_cancel2)
    ultimately show False using round_gap [OF assms(1) k_def] by (simp add: q_def)
  next
    case 2
    then have "Suc q * 2 ^ k * den < pmag p * den" using lt assms(1) unfolding n_def q_def by (simp only: mult_less_cancel2)
    then show False using hi assms(2) by linarith
  qed
qed

lemma round_mag_inf: "round_mag num den \<le> inf_bits"
  by (simp add: round_mag_def Let_def)

lemma round_mag_exact: "0 < den \<Longrightarrow> p \<le> inf_bits \<Longrightarrow> round_mag (pmag p * den) den = p"
  by (intro antisym round_mag_le round_mag_ge) simp_all

section \<open>Doubles\<close>

definition one_mag :: nat where "one_mag = 2 ^ 1074"

lemma one_mag_pos [simp]: "0 < one_mag"
  unfolding one_mag_def by (rule zero_less_power) simp

definition f_pat :: "f64 \<Rightarrow> nat" where "f_pat x = unat x mod 2 ^ 63"

lemma f_mag_pat: "f_mag x = pmag (f_pat x)"
  by (simp add: f_mag_def pmag_def Let_def f_exp_low_bits f_frac_low_bits f_pat_def)

lemma f_class_pat: "f_finite x \<longleftrightarrow> f_pat x < inf_bits" "f_inf x \<longleftrightarrow> f_pat x = inf_bits" "f_nan x \<longleftrightarrow> inf_bits < f_pat x"
proof -
  define p where "p = f_pat x"
  have e: "f_exp x = p div 2 ^ 52" "f_frac x = p mod 2 ^ 52" by (simp_all add: f_exp_low_bits f_frac_low_bits f_pat_def p_def)
  have p: "p div 2 ^ 52 * 2 ^ 52 + p mod 2 ^ 52 = p" "p mod 2 ^ 52 < 2 ^ 52" by (rule div_mult_mod_eq) simp
  have "p < 2 ^ 63" by (simp add: p_def f_pat_def)
  then have top: "p div 2 ^ 52 \<le> 2047" by (simp add: div_le_dividend less_Suc_eq_le [symmetric] less_mult_imp_div_less)
  have "p div 2 ^ 52 < 2047 \<Longrightarrow> p < 2047 * 2 ^ 52"
    using p by (simp add: div_less_iff_less_mult)
  moreover have "p div 2 ^ 52 = 2047 \<Longrightarrow> p = 2047 * 2 ^ 52 + p mod 2 ^ 52" using p(1) by simp
  ultimately have "p div 2 ^ 52 = 2047 \<and> p = inf_bits + p mod 2 ^ 52 \<or> p div 2 ^ 52 \<noteq> 2047 \<and> p < inf_bits"
    using top by (auto simp: inf_bits_def)
  then show "f_finite x \<longleftrightarrow> f_pat x < inf_bits" "f_inf x \<longleftrightarrow> f_pat x = inf_bits" "f_nan x \<longleftrightarrow> inf_bits < f_pat x"
    by (auto simp: f_finite_def f_inf_def f_nan_def e p_def [symmetric])
qed

lemma with_sign_parts:
  assumes "m \<le> inf_bits"
  shows "f_sign (with_sign s m) = s" and "f_pat (with_sign s m) = m"
proof -
  have m: "m < 2 ^ 63" using assms by (simp add: inf_bits_def)
  have u: "unat (with_sign s m) = (if s then 2 ^ 63 + m else m)"
    using m by (simp add: with_sign_def unat_of_nat)
  show "f_pat (with_sign s m) = m" using m by (simp add: f_pat_def u)
  have "f_sign (with_sign s m) \<longleftrightarrow> odd (unat (with_sign s m) div 2 ^ 63)"
    unfolding f_sign_def bit_iff_odd [symmetric] by (simp add: bit_unsigned_iff)
  also have "\<dots> \<longleftrightarrow> s"
  proof (cases s)
    case True
    have "(2 ^ 63 + m) div 2 ^ 63 = 1" using m by (intro div_nat_eqI) simp_all
    moreover have "unat (with_sign s m) = 2 ^ 63 + m" unfolding u if_P [OF True] ..
    ultimately have "unat (with_sign s m) div 2 ^ 63 = 1" by (simp only:)
    then show ?thesis using True by simp
  qed (use m u in simp)
  finally show "f_sign (with_sign s m) = s" .
qed

definition signed :: "bool \<Rightarrow> nat \<Rightarrow> int" where "signed s m = (if s then - int m else int m)"

lemma f_int_signed: "f_int x = signed (f_sign x) (pmag (f_pat x))"
  by (simp add: f_int_def signed_def f_mag_pat)

lemma with_sign_facts:
  assumes "m \<le> inf_bits"
  shows "f_int (with_sign s m) = signed s (pmag m)" and "f_finite (with_sign s m) \<longleftrightarrow> m < inf_bits" and "\<not> f_nan (with_sign s m)"
  using with_sign_parts [OF assms] assms by (simp_all add: f_int_signed f_class_pat)

section \<open>Rounded results as integers\<close>

definition rnd :: "int \<Rightarrow> nat \<Rightarrow> int" where
  "rnd num den = signed (num < 0) (pmag (round_mag (nat \<bar>num\<bar>) den))"

definition rep :: "int \<Rightarrow> bool" where
  "rep c \<longleftrightarrow> (\<exists>p \<le> inf_bits. \<bar>c\<bar> = int (pmag p))"

lemma round_mag_0: "0 < den \<Longrightarrow> round_mag 0 den = 0"
  using round_mag_le [of den 0 0] by simp

lemma rnd_neg: "0 < den \<Longrightarrow> rnd (- num) den = - rnd num den"
  by (cases num "0 :: int" rule: linorder_cases) (simp_all add: rnd_def signed_def round_mag_0)

lemma rep_neg [simp]: "rep (- c) = rep c"
  by (simp add: rep_def)

lemma rep_f_int [simp]: "\<not> f_nan x \<Longrightarrow> rep (f_int x)"
  by (auto simp: rep_def f_int_signed signed_def f_class_pat intro!: exI [of _ "f_pat x"])

lemma rnd_rep [simp]: "rep (rnd num den)"
  using round_mag_inf by (auto simp: rep_def rnd_def signed_def)

lemma rnd_le:
  assumes "0 < den" and "rep c" and "num \<le> c * int den"
  shows "rnd num den \<le> c"
proof -
  obtain p where p: "p \<le> inf_bits" "\<bar>c\<bar> = int (pmag p)" using assms(2) by (auto simp: rep_def)
  show ?thesis
  proof (cases "0 \<le> num")
    case True
    then have "0 \<le> c" using assms(1,3) by (metis mult_le_0_iff nle_le of_nat_0_less_iff order_trans zero_le_mult_iff linorder_not_less mult_neg_pos)
    then have c: "c = int (pmag p)" using p(2) by simp
    then have "nat num \<le> pmag p * den" using assms(3) True by (simp add: nat_le_iff)
    then have "round_mag (nat num) den \<le> p" using round_mag_le assms(1) p(1) by blast
    then show ?thesis using True c by (simp add: rnd_def signed_def pmag_le_iff)
  next
    case False
    show ?thesis
    proof (cases "0 \<le> c")
      case True
      then show ?thesis using False by (simp add: rnd_def signed_def)
    next
      case neg: False
      then have c: "c = - int (pmag p)" using p(2) by simp
      then have "int (pmag p * den) \<le> - num" using assms(3) by simp
      then have "pmag p * den \<le> nat (- num)" by linarith
      then have "p \<le> round_mag (nat (- num)) den" using round_mag_ge assms(1) p(1) by blast
      then show ?thesis using False c by (simp add: rnd_def signed_def pmag_le_iff)
    qed
  qed
qed

lemma rnd_ge:
  assumes "0 < den" and "rep c" and "c * int den \<le> num"
  shows "c \<le> rnd num den"
  using rnd_le [of den "- c" "- num"] assms by (simp add: rnd_neg)

lemma rnd_eq: "0 < den \<Longrightarrow> rep c \<Longrightarrow> rnd (c * int den) den = c"
  by (intro antisym rnd_le rnd_ge) simp_all

lemma rep_0 [simp]: "rep 0"
  by (auto simp: rep_def intro!: exI [of _ 0])

lemma rnd_sign:
  assumes "0 < den"
  shows "0 \<le> num \<Longrightarrow> 0 \<le> rnd num den" and "num \<le> 0 \<Longrightarrow> rnd num den \<le> 0"
  using rnd_ge [of den 0 num] rnd_le [of den 0 num] assms by simp_all

section \<open>The arithmetic\<close>

lemma signed_abs: "signed (z < 0) (nat \<bar>z\<bar>) = z"
  by (simp add: signed_def)

lemma signed_mult: "signed s m * signed t n = signed (s \<noteq> t) (m * n)"
  by (simp add: signed_def)

lemma with_sign_round:
  assumes "0 < den" and "\<bar>z\<bar> = int num" and "z \<noteq> 0 \<longrightarrow> s = (z < 0)"
  shows "f_int (with_sign s (round_mag num den)) = rnd z den" and "\<not> f_nan (with_sign s (round_mag num den))"
proof -
  have "num = nat \<bar>z\<bar>" using assms(2) by simp
  then show "f_int (with_sign s (round_mag num den)) = rnd z den"
    using assms(3) round_mag_0 [OF assms(1)] by (cases "z = 0") (simp_all add: with_sign_facts(1) round_mag_inf rnd_def signed_def)
  show "\<not> f_nan (with_sign s (round_mag num den))" by (rule with_sign_facts(3) [OF round_mag_inf])
qed

lemma finite_parts: "f_finite x \<Longrightarrow> \<not> f_nan x \<and> \<not> f_inf x"
  by (simp add: f_class_pat)

lemma f_add_int:
  assumes "f_finite a" and "f_finite b"
  shows "f_int (f_add a b) = rnd (f_int a + f_int b) 1" and "\<not> f_nan (f_add a b)"
proof -
  have z: "\<not> f_nan (with_sign s 0)" "f_int (with_sign s 0) = 0" for s
    using with_sign_facts [of 0 s] by (simp_all add: signed_def)
  have r: "f_int (with_sign (z < 0) (round_mag (nat \<bar>z\<bar>) 1)) = rnd z 1" "\<not> f_nan (with_sign (z < 0) (round_mag (nat \<bar>z\<bar>) 1))" for z
    using with_sign_round [of 1 z "nat \<bar>z\<bar>" "z < 0"] by simp_all
  define z where "z = f_int a + f_int b"
  have "f_add a b = (if z = 0 then with_sign (f_sign a \<and> f_sign b) 0 else with_sign (z < 0) (round_mag (nat \<bar>z\<bar>) 1))"
    using finite_parts [OF assms(1)] finite_parts [OF assms(2)] by (simp only: f_add_def Let_def z_def simp_thms if_False)
  then have "f_int (f_add a b) = rnd z 1 \<and> \<not> f_nan (f_add a b)"
    using z r [of z] by (cases "z = 0") (simp_all add: rnd_def signed_def round_mag_0)
  then show "f_int (f_add a b) = rnd (f_int a + f_int b) 1" "\<not> f_nan (f_add a b)" by (simp_all add: z_def)
qed

lemma f_sub_int:
  assumes "f_finite a" and "f_finite b"
  shows "f_int (f_sub a b) = rnd (f_int a - f_int b) 1" and "\<not> f_nan (f_sub a b)"
  using f_add_int [of a "f_neg b"] assms finite_parts by (simp_all add: f_sub_def)

lemma f_mul_int:
  assumes "f_finite a" and "f_finite b"
  shows "f_int (f_mul a b) = rnd (f_int a * f_int b) one_mag" and "\<not> f_nan (f_mul a b)"
proof -
  let ?z = "f_int a * f_int b"
  have z: "?z = signed (f_sign a \<noteq> f_sign b) (f_mag a * f_mag b)"
    by (simp only: f_int_signed signed_mult f_mag_pat)
  have "f_mul a b = with_sign (f_sign a \<noteq> f_sign b) (round_mag (f_mag a * f_mag b) one_mag)"
    unfolding f_mul_def Let_def one_mag_def [symmetric]
    using finite_parts [OF assms(1)] finite_parts [OF assms(2)] by (simp only: simp_thms if_False)
  moreover have "\<bar>?z\<bar> = int (f_mag a * f_mag b)" "?z \<noteq> 0 \<longrightarrow> (f_sign a \<noteq> f_sign b) = (?z < 0)"
    unfolding z signed_def by (auto simp: of_nat_less_0_iff simp del: of_nat_mult)
  ultimately show "f_int (f_mul a b) = rnd ?z one_mag" "\<not> f_nan (f_mul a b)"
    using with_sign_round [of one_mag ?z "f_mag a * f_mag b" "f_sign a \<noteq> f_sign b"] by simp_all
qed

lemma f_div_int:
  assumes "f_finite a" and "f_finite b" and "0 < f_int b"
  shows "f_int (f_div a b) = rnd (f_int a * int one_mag) (nat (f_int b))" and "\<not> f_nan (f_div a b)"
proof -
  have b: "\<not> f_sign b" "f_int b = int (f_mag b)" "0 < f_mag b" using assms(3) by (auto simp: f_int_def split: if_splits)
  have "f_div a b = with_sign (f_sign a) (round_mag (f_mag a * one_mag) (f_mag b))"
    unfolding f_div_def Let_def one_mag_def [symmetric] f_zero_def
    using finite_parts [OF assms(1)] finite_parts [OF assms(2)] b(1,3) by simp
  moreover have "f_int a * int one_mag = signed (f_sign a) (f_mag a * one_mag)"
    by (simp add: f_int_def signed_def)
  then have "\<bar>f_int a * int one_mag\<bar> = int (f_mag a * one_mag)"
    "f_int a * int one_mag \<noteq> 0 \<longrightarrow> f_sign a = (f_int a * int one_mag < 0)"
    unfolding signed_def by (auto simp: of_nat_less_0_iff simp del: of_nat_mult)
  ultimately show "f_int (f_div a b) = rnd (f_int a * int one_mag) (nat (f_int b))" "\<not> f_nan (f_div a b)"
    using with_sign_round [of "f_mag b" "f_int a * int one_mag" "f_mag a * one_mag" "f_sign a"] b by simp_all
qed

lemma f_of_int_int: "f_int (f_of_int n) = rnd (n * int one_mag) 1" "\<not> f_nan (f_of_int n)"
proof -
  have "\<bar>n * int one_mag\<bar> = int (nat \<bar>n\<bar> * one_mag)" by (simp add: abs_mult)
  moreover have "n * int one_mag \<noteq> 0 \<longrightarrow> (n < 0) = (n * int one_mag < 0)" by (simp add: mult_less_0_iff)
  moreover have "f_of_int n = with_sign (n < 0) (round_mag (nat \<bar>n\<bar> * one_mag) 1)"
    unfolding f_of_int_def one_mag_def [symmetric] ..
  ultimately show "f_int (f_of_int n) = rnd (n * int one_mag) 1" "\<not> f_nan (f_of_int n)"
    using with_sign_round [of 1 "n * int one_mag" "nat \<bar>n\<bar> * one_mag" "n < 0"] by simp_all
qed

text \<open>A finite result has finite operands.\<close>

lemma not_finite: "\<not> f_finite x \<Longrightarrow> f_nan x \<or> f_inf x"
  by (auto simp: f_class_pat)

lemma special [simp]: "\<not> f_finite f_nan_value" "\<not> f_finite (with_sign s inf_bits)"
  using with_sign_facts(2) [of inf_bits s] by (simp_all add: f_finite_def f_exp_def f_nan_value_def)

lemma f_add_finite: "f_finite (f_add a b) \<Longrightarrow> f_finite a \<and> f_finite b"
  using not_finite [of a] not_finite [of b] finite_parts [of a] finite_parts [of b]
  by (auto simp: f_add_def split: if_splits)

lemma f_sub_finite: "f_finite (f_sub a b) \<Longrightarrow> f_finite a \<and> f_finite b"
  using f_add_finite [of a "f_neg b"] by (auto simp: f_sub_def split: if_splits)

lemma f_mul_finite: "f_finite (f_mul a b) \<Longrightarrow> f_finite a \<and> f_finite b"
  using not_finite [of a] not_finite [of b] by (auto simp: f_mul_def Let_def split: if_splits)

lemma f_div_finite: "f_finite (f_div a b) \<Longrightarrow> f_finite a"
  using not_finite [of a] by (auto simp: f_div_def Let_def split: if_splits)

section \<open>Square roots, minimum and maximum\<close>

text \<open>
  \<open>sqrt\<close> rounds the exact root once.  With \<open>n\<close> the radicand in units of \<open>2 ^ -2148\<close>, the root lies
  between two integers whenever it is not one itself, and every midpoint between neighbouring
  doubles of that size is an integer; so the half-integer \<open>isqrt n + 1/2\<close> rounds as the root does.
\<close>

fun isqrt :: "nat \<Rightarrow> nat" where
  "isqrt n = (if n = 0 then 0
     else let r = 2 * isqrt (n div 4) in if (r + 1) * (r + 1) \<le> n then r + 1 else r)"

declare isqrt.simps [simp del]

lemma isqrt_spec: "isqrt n * isqrt n \<le> n \<and> n < (isqrt n + 1) * (isqrt n + 1)"
proof (induction n rule: isqrt.induct)
  case (1 n)
  show ?case
  proof (cases "n = 0")
    case False
    define r where "r = isqrt (n div 4)"
    have ih: "r * r \<le> n div 4" "n div 4 < (r + 1) * (r + 1)" using 1 False by (simp_all add: r_def)
    have lo: "(2 * r) * (2 * r) \<le> n" using ih(1) by simp
    have "n < 4 * ((r + 1) * (r + 1))" using ih(2) by linarith
    then have hi: "n < (2 * r + 2) * (2 * r + 2)" by (simp add: algebra_simps)
    show ?thesis using lo hi False by (simp add: isqrt.simps [of n] r_def [symmetric] Let_def)
  qed (simp add: isqrt.simps)
qed

definition f_sqrt :: "f64 \<Rightarrow> f64" where
  "f_sqrt x =
     (if f_nan x then f_nan_value
      else if f_zero x then x
      else if f_sign x then f_nan_value
      else if f_inf x then x
      else let n = f_mag x * one_mag; r = isqrt n
           in with_sign False (round_mag (if r * r = n then 2 * r else 2 * r + 1) 2))"

lemma f_sqrt_nonneg: "\<not> f_nan x \<Longrightarrow> 0 \<le> f_int x \<Longrightarrow> \<not> f_nan (f_sqrt x) \<and> 0 \<le> f_int (f_sqrt x)"
  by (auto simp: f_sqrt_def Let_def f_zero_def with_sign_facts with_sign_parts(1) round_mag_inf signed_def f_int_def split: if_splits)

text \<open>\<open>fmin\<close> and \<open>fmax\<close>; of two zeros, between which C lets them choose, the first.\<close>

definition f_min :: "f64 \<Rightarrow> f64 \<Rightarrow> f64" where
  "f_min a b = (if f_nan a then b else if f_nan b then a else if f_lt b a then b else a)"

definition f_max :: "f64 \<Rightarrow> f64 \<Rightarrow> f64" where
  "f_max a b = (if f_nan a then b else if f_nan b then a else if f_lt a b then b else a)"

lemma f_min_finite: "f_finite a \<Longrightarrow> f_finite b \<Longrightarrow> f_finite (f_min a b) \<and> f_int (f_min a b) = min (f_int a) (f_int b)"
  using finite_parts by (auto simp: f_min_def f_lt_def)

lemma f_max_finite: "f_finite a \<Longrightarrow> f_finite b \<Longrightarrow> f_finite (f_max a b) \<and> f_int (f_max a b) = max (f_int a) (f_int b)"
  using finite_parts by (auto simp: f_max_def f_lt_def)

end
