(* ===== verification/PartitionProps.thy ===== *)
theory PartitionProps
  imports PartitionProtocol Checksums Binary64Round "HOL-Library.Multiset"
begin

text \<open>
  What the partition messages promise: they round-trip, a damaged byte is always noticed, and the
  reduction over messages does not depend on the order in which the partitions answer.

  The checksum is compared by its low 32 bits only, which are those of a 32-bit FNV
  run (theory \<open>Checksums\<close>) with the low half of the prime.  The reduction rests on the locale
  \<open>commuting_steps\<close>: a partial step function whose steps commute runs to the same state on
  every permutation of its inputs.
\<close>

section \<open>Checksum and corruption\<close>

lemma unat_low: "unat (ucast (x :: u64) :: u32) = unat x mod 4294967296"
  by (simp add: unsigned_ucast_eq take_bit_eq_mod)

lemma low_mult: "(ucast (a * b :: u64) :: u32) = ucast a * ucast b"
proof -
  have "unat a * unat b mod 18446744073709551616 mod 4294967296 = unat a * unat b mod 4294967296"
    by (rule mod_mod_cancel) (simp add: dvd_def)
  then show ?thesis
    by (simp add: word_unat_eq_iff unat_low unat_word_ariths mod_mult_eq)
qed

lemma low_xor: "(ucast (a XOR ucast (b :: u8) :: u64) :: u32) = ucast a XOR ucast b"
  by (rule bit_word_eqI) (auto simp: bit_ucast_iff bit_xor_iff)

lemma low_prime: "(ucast fnv_prime :: u32) = 435"
  by (simp only: word_unat_eq_iff unat_low) (simp add: fnv_prime_def)

lemma checksum_low: "ucast (checksum data) = fnv_run 435 (ucast (1469598103934665603 :: u64)) data"
proof -
  have "ucast (fold (\<lambda>b v. (v XOR ucast b) * fnv_prime) data v) = fnv_run 435 (ucast v) data" for v :: u64
  proof (induction data arbitrary: v)
    case Nil
    then show ?case by simp
  next
    case (Cons b data)
    have "(ucast ((v XOR ucast b) * fnv_prime) :: u32) = (ucast v XOR ucast b) * 435"
      by (simp add: low_mult low_xor low_prime)
    then show ?case by (simp add: Cons.IH)
  qed
  then show ?thesis by (simp add: checksum_def)
qed

interpretation message_fnv: fnv32 435 2952172923 "ucast (1469598103934665603 :: u64)"
proof
  show "(435 :: u32) * 2952172923 = 1" by (simp only: word_unat_eq_iff) simp
qed

text \<open>Changing one byte always changes the low half of the checksum.\<close>

lemma checksum_one_byte:
  "i < length data \<Longrightarrow> b \<noteq> data ! i \<Longrightarrow> (ucast (checksum (data[i := b])) :: u32) \<noteq> ucast (checksum data)"
  unfolding checksum_low by (rule message_fnv.one_byte)

section \<open>Round trip\<close>

definition wire_flags :: "partition_result \<Rightarrow> u64" where
  "wire_flags r = of_nat (status_code (pr_status r)) OR (if pr_valid r then push_bit 32 1 else 0)"

definition partition_head :: "partition_result \<Rightarrow> bytes" where
  "partition_head r = ascii ''MLP1'' @ put_u64 2 @ put_u64 (of_nat (pr_id r)) @ put_u64 (wire_flags r) @ put_u64 (pr_value r)"

definition partition_wire :: "partition_result \<Rightarrow> bytes" where
  "partition_wire r = partition_head r @ put_u32 (ucast (checksum (partition_head r)))"

definition partition_ok :: "partition_result \<Rightarrow> bool" where
  "partition_ok r \<longleftrightarrow> pr_id r \<le> uint64_max \<and> (pr_valid r \<longrightarrow> f_finite (pr_value r))"

lemma length_partition: "length (partition_head r) = 36" "length (partition_wire r) = 40"
  by (simp_all add: partition_head_def partition_wire_def ascii_def put_u64_def put_u32_def)

lemma encode_wire:
  "milena_partition_result_encode (Some r) (Some buf) =
     (if length buf < 40 \<or> (pr_valid r \<and> \<not> f_finite (pr_value r)) then Inl MILENA_ERR_ARGUMENT
      else if pr_id r > uint64_max then Inl MILENA_ERR_OVERFLOW
      else Inr (partition_wire r @ drop 40 buf, 40))"
proof (cases "length buf < 40")
  case True
  then show ?thesis by (simp add: milena_partition_result_encode_def partition_wire_size_def)
next
  case False
  define z where "z = poke 0 (replicate 40 0) buf"
  have z: "length z = length buf" "drop 40 z = drop 40 buf"
    using False by (simp_all add: z_def drop_poke)
  define h where "h = poke 28 (put_u64 (pr_value r)) (poke 20 (put_u64 (wire_flags r))
      (poke 12 (put_u64 (of_nat (pr_id r))) (poke 4 (put_u64 2) (poke 0 (ascii ''MLP1'') z))))"
  have h: "h = poke 0 (partition_head r) z"
    using False z by (simp add: h_def poke_poke partition_head_def put_u64_def ascii_def)
  have tk: "take 36 h = partition_head r"
    using take_poke_0 [of "partition_head r" z] False z by (simp add: h length_partition)
  have "poke 36 (put_u32 (ucast (checksum (take 36 h)))) h = poke 0 (partition_wire r) z"
    unfolding tk using z False by (simp add: h poke_poke length_partition partition_wire_def)
  also have "\<dots> = partition_wire r @ drop 40 buf"
    using z by (simp add: poke_def length_partition)
  finally show ?thesis
    using False
    by (simp add: milena_partition_result_encode_def partition_wire_size_def Let_def z_def [symmetric]
        wire_flags_def [symmetric] h_def [symmetric])
qed

lemma flags_decode:
  "unat (wire_flags r AND 0xffffffff) = status_code (pr_status r)"
  "wire_flags r AND push_bit 32 1 \<noteq> 0 \<longleftrightarrow> pr_valid r"
  by (cases "pr_status r"; cases "pr_valid r"; simp add: wire_flags_def)+

lemma wire_get:
  "get_u64 (partition_wire r) 4 = 2" "get_u64 (partition_wire r) 12 = of_nat (pr_id r)"
  "get_u64 (partition_wire r) 20 = wire_flags r" "get_u64 (partition_wire r) 28 = pr_value r"
  "get_u32 (partition_wire r) 36 = ucast (checksum (partition_head r))"
  "take 36 (partition_wire r) = partition_head r" "take 4 (partition_wire r) = ascii ''MLP1''"
  by (simp_all add: partition_wire_def partition_head_def get_u64_def get_u32_def put_u64_def put_u32_def ascii_def
      get_le_put_le get_le_put_le [of 4, simplified])


lemma status_of_flags:
  "status_of_code (unat (wire_flags r AND 0xffffffff)) = pr_status r"
  "unat (wire_flags r AND 0xffffffff) \<le> status_code MILENA_ERR_LIMIT"
  unfolding flags_decode using status_code_le [of "pr_status r"] by simp_all

lemma decode_wire:
  assumes "partition_ok r"
  shows "milena_partition_result_decode (Some (partition_wire r)) = Inr r"
proof -
  have id: "unat (of_nat (pr_id r) :: u64) = pr_id r" "unat (of_nat (pr_id r) :: u64) \<le> size_max"
    using assms by (simp_all add: partition_ok_def uint64_max_def size_max_def of_nat_unat_id)
  have fin: "pr_valid r \<longrightarrow> f_finite (pr_value r)" using assms by (simp add: partition_ok_def)
  show ?thesis
    unfolding milena_partition_result_decode_def option.case Let_def partition_wire_size_def wire_get length_partition
      id(1) flags_decode status_of_flags(1)
    using id fin status_of_flags(2) [of r, unfolded flags_decode] by auto
qed


definition partition_of_wire :: "bytes \<Rightarrow> partition_result option" where
  "partition_of_wire bs =
     (case milena_partition_result_decode (Some bs) of Inl _ \<Rightarrow> None | Inr r \<Rightarrow> Some r)"

interpretation message: wire_codec partition_wire partition_of_wire partition_ok
  by unfold_locales (simp add: partition_of_wire_def decode_wire)

lemma decode_facts:
  assumes "milena_partition_result_decode (Some m) = Inr r"
  shows "length m = 40" and "get_u32 m 36 = ucast (checksum (take 36 m))"
    and "pr_valid r \<Longrightarrow> f_finite (pr_value r)"
  using assms by (auto simp: milena_partition_result_decode_def partition_wire_size_def Let_def split: if_splits)

lemma get_le_inject:
  assumes "LENGTH('a) = 8 * n" and "length bs = n" and "length cs = n"
  shows "get_le n bs = (get_le n cs :: 'a::len word) \<longleftrightarrow> bs = cs"
  using put_le_get_le [OF assms(1,2)] put_le_get_le [OF assms(1,3)] by metis

lemma get_u32_tail:
  assumes "length m = 40" and "length m' = 40"
  shows "get_u32 m 36 = get_u32 m' 36 \<longleftrightarrow> drop 36 m = drop 36 m'"
  using assms by (simp add: get_u32_def get_le_inject)

text \<open>
  C24.  A message whose bytes differ in one place from a valid one is never accepted.
\<close>

theorem partition_corruption_detected:
  assumes "milena_partition_result_decode (Some m) = Inr r" and "i < length m" and "b \<noteq> m ! i"
  shows "\<exists>e. milena_partition_result_decode (Some (m[i := b])) = Inl e"
proof (rule ccontr)
  assume "\<nexists>e. milena_partition_result_decode (Some (m[i := b])) = Inl e"
  then obtain r' where r': "milena_partition_result_decode (Some (m[i := b])) = Inr r'"
    by (cases "milena_partition_result_decode (Some (m[i := b]))") auto
  note m = decode_facts(1,2) [OF assms(1)] and m' = decode_facts(1,2) [OF r']
  show False
  proof (cases "i < 36")
    case True
    have "ucast (checksum ((take 36 m)[i := b])) = (ucast (checksum (take 36 m)) :: u32)"
      using m m' True by (simp add: get_u32_def take_update_swap)
    then show False
      using checksum_one_byte [of i "take 36 m" b] True m(1) assms(3) by simp
  next
    case False
    then have "get_u32 m 36 = get_u32 (m[i := b]) 36"
      using m(2) m'(2) by simp
    then have "drop 36 m = drop 36 (m[i := b])" using get_u32_tail m(1) m'(1) by blast
    then have "drop 36 m ! (i - 36) = drop 36 (m[i := b]) ! (i - 36)" by simp
    then show False using False assms(2,3) m(1) by simp
  qed
qed

section \<open>Order of arrival\<close>

locale commuting_steps =
  fixes step :: "'m \<Rightarrow> 's \<Rightarrow> 'e + 's"
    and ok :: "'s \<Rightarrow> bool"
  assumes keeps: "step a s = Inr t \<Longrightarrow> ok s \<Longrightarrow> ok t"
    and commute: "step a s = Inr t \<Longrightarrow> step b t = Inr u \<Longrightarrow> ok s \<Longrightarrow> \<exists>t'. step b s = Inr t' \<and> step a t' = Inr u"
begin

fun run :: "'m list \<Rightarrow> 's \<Rightarrow> 'e + 's" where
  "run [] s = Inr s"
| "run (m # ms) s = (case step m s of Inl e \<Rightarrow> Inl e | Inr t \<Rightarrow> run ms t)"

lemma run_move: "run (a # xs @ ys) s = Inr u \<Longrightarrow> ok s \<Longrightarrow> run (xs @ a # ys) s = Inr u"
proof (induction xs arbitrary: s)
  case Nil
  then show ?case by simp
next
  case (Cons x xs)
  from Cons.prems obtain t v where tv: "step a s = Inr t" "step x t = Inr v" "run (xs @ ys) v = Inr u"
    by (auto simp: case_sum_Inr_iff)
  then obtain t' where t': "step x s = Inr t'" "step a t' = Inr v" using commute Cons.prems(2) by blast
  then show ?case using tv(3) Cons.IH [of t'] keeps [OF t'(1) Cons.prems(2)] by simp
qed

lemma run_permute: "run ms s = Inr u \<Longrightarrow> ok s \<Longrightarrow> mset ms' = mset ms \<Longrightarrow> run ms' s = Inr u"
proof (induction ms arbitrary: ms' s)
  case Nil
  then show ?case by simp
next
  case (Cons a ms)
  have "a \<in> set ms'" using Cons.prems(3) by (metis list.set_intros(1) set_mset_mset)
  then obtain xs ys where ms': "ms' = xs @ a # ys" by (meson split_list)
  obtain t where t: "step a s = Inr t" "run ms t = Inr u"
    using Cons.prems(1) by (auto simp: case_sum_Inr_iff)
  have "run (xs @ ys) t = Inr u" using Cons.IH [OF t(2)] Cons.prems(2,3) keeps [OF t(1)] ms' by simp
  then show ?case unfolding ms' using t(1) Cons.prems(2) by (intro run_move) simp_all
qed

end

text \<open>One iteration of the collection loop.\<close>

definition collect_step ::
  "nat \<Rightarrow> bytes \<Rightarrow> partition_partial list \<times> bool list \<Rightarrow> MilenaStatus + partition_partial list \<times> bool list"
where
  "collect_step n msg st = (case st of (ps, seen) \<Rightarrow> collect_results n [msg] ps seen)"

lemma collect_step_Inr:
  "collect_step n msg (ps, seen) = Inr st \<longleftrightarrow>
     (\<exists>d. milena_partition_result_decode (Some msg) = Inr d \<and> pr_id d < n \<and> \<not> seen ! pr_id d \<and>
          pr_status d = MILENA_OK \<and>
          st = (ps[pr_id d := \<lparr>pp_id = pr_id d, pp_value = pr_value d, pp_valid = pr_valid d\<rparr>], seen[pr_id d := True]))"
  by (auto simp: collect_step_def split: sum.splits)

interpretation collect: commuting_steps "collect_step n" "\<lambda>(ps, seen). length ps = length seen"
proof
  fix a b :: bytes and s t u :: "partition_partial list \<times> bool list"
  assume a: "collect_step n a s = Inr t" and s: "case s of (ps, seen) \<Rightarrow> length ps = length seen"
  then show "case t of (ps, seen) \<Rightarrow> length ps = length seen"
    by (cases s) (auto simp: collect_step_Inr)
  assume "collect_step n b t = Inr u"
  then show "\<exists>t'. collect_step n b s = Inr t' \<and> collect_step n a t' = Inr u"
    using a s
    by (cases s) (auto simp: collect_step_Inr nth_list_update_True list_update_swap list_update_beyond not_less)
qed

lemma collect_run: "collect_results n msgs ps seen = collect.run n msgs (ps, seen)"
  by (induction msgs arbitrary: ps seen) (auto simp: collect_step_def split: sum.splits)


section \<open>The reduction over messages\<close>

definition partial_of :: "partition_result \<Rightarrow> partition_partial" where
  "partial_of r = \<lparr>pp_id = pr_id r, pp_value = pr_value r, pp_valid = pr_valid r\<rparr>"

lemma partial_of_fields [simp]:
  "pp_id (partial_of r) = pr_id r" "pp_value (partial_of r) = pr_value r" "pp_valid (partial_of r) = pr_valid r"
  by (simp_all add: partial_of_def)

lemma collect_exact:
  assumes "collect_results n msgs ps seen = Inr (ps', seen')" and "length ps = n" and "length seen = n"
  shows "length ps' = n \<and> length seen' = n \<and>
    (\<exists>rs. list_all2 (\<lambda>w r. milena_partition_result_decode (Some w) = Inr r) msgs rs \<and> distinct (map pr_id rs) \<and>
      (\<forall>r \<in> set rs. pr_status r = MILENA_OK \<and> pr_id r < n \<and> \<not> seen ! pr_id r \<and> ps' ! pr_id r = partial_of r) \<and>
      (\<forall>i < n. seen' ! i \<longleftrightarrow> seen ! i \<or> i \<in> pr_id ` set rs) \<and>
      (\<forall>i < n. i \<notin> pr_id ` set rs \<longrightarrow> ps' ! i = ps ! i))"
  using assms
proof (induction msgs arbitrary: ps seen)
  case Nil
  then show ?case by (auto intro: exI [of _ "[]"])
next
  case (Cons w msgs)
  from Cons.prems obtain d where d: "milena_partition_result_decode (Some w) = Inr d" "pr_id d < n"
      "\<not> seen ! pr_id d" "pr_status d = MILENA_OK"
      "collect_results n msgs (ps[pr_id d := partial_of d]) (seen[pr_id d := True]) = Inr (ps', seen')"
    by (auto simp: partial_of_def case_sum_Inr_iff split: if_splits)
  from Cons.IH [OF d(5)] Cons.prems(2,3) obtain rs where
    rs: "list_all2 (\<lambda>w r. milena_partition_result_decode (Some w) = Inr r) msgs rs" "distinct (map pr_id rs)"
      "length ps' = n" "length seen' = n"
      "\<And>r. r \<in> set rs \<Longrightarrow> pr_status r = MILENA_OK \<and> pr_id r < n \<and> \<not> seen[pr_id d := True] ! pr_id r \<and>
        ps' ! pr_id r = partial_of r"
      "\<And>i. i < n \<Longrightarrow> seen' ! i \<longleftrightarrow> seen[pr_id d := True] ! i \<or> i \<in> pr_id ` set rs"
      "\<And>i. i < n \<Longrightarrow> i \<notin> pr_id ` set rs \<Longrightarrow> ps' ! i = ps[pr_id d := partial_of d] ! i"
    by auto
  have new: "pr_id d \<notin> pr_id ` set rs"
  proof
    assume "pr_id d \<in> pr_id ` set rs"
    then obtain r where r: "r \<in> set rs" "pr_id r = pr_id d" by auto
    then show False using rs(5) [OF r(1)] d(2) Cons.prems(3) by (simp add: nth_list_update_True)
  qed
  show ?case
  proof (intro conjI exI [of _ "d # rs"])
    show "\<forall>r \<in> set (d # rs). pr_status r = MILENA_OK \<and> pr_id r < n \<and> \<not> seen ! pr_id r \<and> ps' ! pr_id r = partial_of r"
      using d rs(5) rs(7) [OF d(2) new] Cons.prems(2) by (auto simp: nth_list_update_True)
    show "\<forall>i < n. seen' ! i \<longleftrightarrow> seen ! i \<or> i \<in> pr_id ` set (d # rs)"
      using rs(6) Cons.prems(3) by (auto simp: nth_list_update_True)
    show "\<forall>i < n. i \<notin> pr_id ` set (d # rs) \<longrightarrow> ps' ! i = ps ! i"
      using rs(7) by auto
  qed (use rs d new in auto)
qed

lemma ids_permutation:
  assumes "distinct (map f rs)" and "f ` set rs = {..<n}"
  shows "mset (map f rs) = mset [0..<n]" and "map f (sort_key f rs) = [0..<n]"
proof -
  have s: "set (map f rs) = set [0..<n]" using assms(2) by auto
  then show m: "mset (map f rs) = mset [0..<n]"
    using assms(1) set_eq_iff_mset_eq_distinct [of "map f rs" "[0..<n]"] by simp
  have "sorted (map f (sort_key f rs))" by simp
  moreover have "mset (map f (sort_key f rs)) = mset [0..<n]" using m by simp
  ultimately show "map f (sort_key f rs) = [0..<n]"
    by (metis properties_for_sort sorted_upt sort_upt)
qed

lemma collected_sorted:
  assumes "map pr_id (sort_key pr_id rs) = [0..<n]" and "length ps = n"
    and "\<And>r. r \<in> set rs \<Longrightarrow> ps ! pr_id r = partial_of r"
  shows "ps = map partial_of (sort_key pr_id rs)"
proof (rule nth_equalityI)
  have len: "length (sort_key pr_id rs) = n" using arg_cong [OF assms(1), of length] by simp
  then show "length ps = length (map partial_of (sort_key pr_id rs))" using assms(2) by simp
  fix i
  assume "i < length ps"
  then have i: "i < n" using assms(2) by simp
  have "map pr_id (sort_key pr_id rs) ! i = i" using assms(1) i by simp
  then have "pr_id (sort_key pr_id rs ! i) = i" using len i by simp
  moreover have "sort_key pr_id rs ! i \<in> set rs" using len i by (metis nth_mem set_sort)
  ultimately show "ps ! i = map partial_of (sort_key pr_id rs) ! i" using assms(3) len i by fastforce
qed

text \<open>
  The values that count, as integers in units of \<open>2 ^ -1074\<close>, and the sequences whose leading sums
  are all doubles: every sum the loop forms is then exact.
\<close>

definition valid_values :: "partition_result list \<Rightarrow> int list" where
  "valid_values rs = map (f_int \<circ> pr_value) (filter pr_valid rs)"

definition leading_sums_fit :: "int \<Rightarrow> int list \<Rightarrow> bool" where
  "leading_sums_fit s vs \<longleftrightarrow> (\<forall>k \<le> length vs. \<exists>x. f_finite x \<and> f_int x = s + sum_list (take k vs))"

lemma leading_sums_Cons: "leading_sums_fit s (v # vs) \<longleftrightarrow> (\<exists>x. f_finite x \<and> f_int x = s) \<and> leading_sums_fit (s + v) vs"
proof
  assume fit: "leading_sums_fit s (v # vs)"
  have "\<exists>x. f_finite x \<and> f_int x = s + v + sum_list (take k vs)" if "k \<le> length vs" for k
    using fit that unfolding leading_sums_fit_def by (auto dest!: spec [of _ "Suc k"] simp: add.assoc)
  then show "(\<exists>x. f_finite x \<and> f_int x = s) \<and> leading_sums_fit (s + v) vs"
    using fit unfolding leading_sums_fit_def by (auto dest!: spec [of _ "0 :: nat"])
next
  assume "(\<exists>x. f_finite x \<and> f_int x = s) \<and> leading_sums_fit (s + v) vs"
  then show "leading_sums_fit s (v # vs)"
    by (auto simp: leading_sums_fit_def take_Cons add.assoc split: nat.split)
qed

lemma finite_int_eq: "\<not> f_nan x \<Longrightarrow> f_finite y \<Longrightarrow> f_int x = f_int y \<Longrightarrow> f_finite x"
proof -
  assume x: "\<not> f_nan x" and y: "f_finite y" "f_int x = f_int y"
  have "pmag (f_pat x) = pmag (f_pat y)"
    using y(2) unfolding f_int_signed signed_def by (auto split: if_splits)
  then have "f_pat x = f_pat y" using pmag_le_iff by (metis antisym order_refl)
  then show "f_finite x" using y(1) by (simp add: f_class_pat)
qed

lemma rnd_int: "f_finite x \<Longrightarrow> rnd (f_int x) 1 = f_int x"
  using rnd_eq [of 1 "f_int x"] finite_parts by simp

lemma add_exact:
  assumes "f_finite a" and "f_finite b" and "f_finite x" and "f_int x = f_int a + f_int b"
  shows "f_finite (f_add a b) \<and> f_int (f_add a b) = f_int a + f_int b"
  using f_add_int [OF assms(1,2)] rnd_int [OF assms(3)] assms(3,4) finite_int_eq [of "f_add a b" x] by simp

lemma sub_exact:
  assumes "f_finite a" and "f_finite b" and "f_finite x" and "f_int x = f_int a - f_int b"
  shows "f_finite (f_sub a b) \<and> f_int (f_sub a b) = f_int a - f_int b"
  using f_sub_int [OF assms(1,2)] rnd_int [OF assms(3)] assms(3,4) finite_int_eq [of "f_sub a b" x] by simp

lemma reduce_loop_exact:
  assumes "reduce_loop i acc cmp (map partial_of rs) = Inr v" and "f_finite acc" and "f_finite cmp" and "f_int cmp = 0"
    and "leading_sums_fit (f_int acc) (valid_values rs)"
  shows "f_finite v \<and> f_int v = f_int acc + sum_list (valid_values rs)"
  using assms
proof (induction rs arbitrary: i acc cmp)
  case (Cons r rs)
  show ?case
  proof (cases "pr_valid r")
    case False
    then show ?thesis using Cons.IH [of "i + 1" acc cmp] Cons.prems by (simp add: valid_values_def split: if_splits)
  next
    case True
    let ?x = "pr_value r"
    define corrected where "corrected = f_sub ?x cmp"
    define sum where "sum = f_add acc corrected"
    have x: "f_finite ?x" and rec: "reduce_loop (i + 1) sum (f_sub (f_sub sum acc) corrected) (map partial_of rs) = Inr v"
      using Cons.prems(1) True by (simp_all add: Let_def corrected_def sum_def split: if_splits)
    have vals: "valid_values (r # rs) = f_int ?x # valid_values rs" using True by (simp add: valid_values_def)
    then have fit: "leading_sums_fit (f_int acc + f_int ?x) (valid_values rs)" using Cons.prems(5) by (simp add: leading_sums_Cons)
    then obtain y where y: "f_finite y" "f_int y = f_int acc + f_int ?x" by (auto simp: leading_sums_fit_def dest!: spec [of _ "0 :: nat"])
    have c: "f_finite corrected" "f_int corrected = f_int ?x"
      using sub_exact [OF x Cons.prems(3) x] Cons.prems(4) by (simp_all add: corrected_def)
    have s: "f_finite sum" "f_int sum = f_int acc + f_int ?x"
      using add_exact [OF Cons.prems(2) c(1) y(1)] y(2) c(2) by (simp_all add: sum_def)
    have d: "f_finite (f_sub sum acc)" "f_int (f_sub sum acc) = f_int ?x"
      using sub_exact [OF s(1) Cons.prems(2) x] s(2) by simp_all
    have e: "f_finite (f_sub (f_sub sum acc) corrected)" "f_int (f_sub (f_sub sum acc) corrected) = 0"
      using sub_exact [OF d(1) c(1), of 0] d(2) c(2) by simp_all
    from Cons.IH [OF rec s(1) e] fit s(2) show ?thesis unfolding vals by (simp add: add.assoc)
  qed
qed (simp add: valid_values_def)

text \<open>
  The textbook compensated summation: \<open>c\<close> is the excess that the last addition rounded into the sum.
\<close>

fun compensated_sum :: "f64 \<Rightarrow> f64 \<Rightarrow> f64 list \<Rightarrow> f64" where
  "compensated_sum s c [] = s"
| "compensated_sum s c (x # xs) =
     (let y = f_sub x c; t = f_add s y in compensated_sum t (f_sub (f_sub t s) y) xs)"

lemma reduce_loop_compensated:
  "reduce_loop i acc cmp (map partial_of rs) = Inr v \<Longrightarrow>
    list_all f_finite (map pr_value (filter pr_valid rs)) \<and> v = compensated_sum acc cmp (map pr_value (filter pr_valid rs))"
  by (induction rs arbitrary: i acc cmp) (auto simp: Let_def split: if_splits)

text \<open>
  C3.  A successful reduction has read one accepted message of every partition, all of them
  successful.  The valid partial results are finite, and the value is their compensated sum in the
  order of the partitions; when every leading sum of them is a double, it is their exact sum, here
  in units of \<open>2 ^ -1074\<close>.
\<close>

theorem results_reduce_exact:
  assumes "milena_partition_results_reduce_sum mem (Some plan) (Some bs) n = Inr v" and "0 < n"
  shows "\<exists>rs. list_all2 (\<lambda>w r. milena_partition_result_decode (Some w) = Inr r) (wire_windows n bs) rs \<and>
    list_all (\<lambda>r. pr_status r = MILENA_OK) rs \<and> mset (map pr_id rs) = mset [0..<pl_count plan] \<and>
    list_all (\<lambda>r. pr_valid r \<longrightarrow> f_finite (pr_value r)) rs \<and>
    v = compensated_sum 0 0 (map pr_value (filter pr_valid (sort_key pr_id rs))) \<and>
    (leading_sums_fit 0 (valid_values (sort_key pr_id rs)) \<longrightarrow>
       f_finite v \<and> f_int v = sum_list (map (f_int \<circ> pr_value) (filter pr_valid rs)))"
proof -
  from assms obtain ps seen where n: "n = pl_count plan"
    and c: "collect_results n (wire_windows n bs) (replicate n \<lparr>pp_id = 0, pp_value = 0, pp_valid = False\<rparr>)
        (replicate n False) = Inr (ps, seen)"
    and seen: "list_all (\<lambda>b. b) seen" and red: "milena_partition_reduce_sum (Some plan) (Some ps) n = Inr v"
    by (auto simp: milena_partition_results_reduce_sum_def Let_def case_sum_Inr_iff split: if_splits)
  from collect_exact [OF c] obtain rs where
    rs: "list_all2 (\<lambda>w r. milena_partition_result_decode (Some w) = Inr r) (wire_windows n bs) rs" "distinct (map pr_id rs)"
      "\<forall>r \<in> set rs. pr_status r = MILENA_OK \<and> pr_id r < n \<and> ps ! pr_id r = partial_of r"
      "length ps = n" "length seen = n" "\<forall>i < n. seen ! i \<longleftrightarrow> i \<in> pr_id ` set rs"
    by auto
  have "pr_id ` set rs = {..<n}"
    using rs(3,5,6) seen by (auto simp: list_all_length)
  note perm = ids_permutation [OF rs(2) this]
  have "ps = map partial_of (sort_key pr_id rs)" using collected_sorted [OF perm(2) rs(4)] rs(3) by blast
  then have sum: "milena_partition_reduce_sum (Some plan) (Some (map partial_of (sort_key pr_id rs))) n = Inr v" using red by simp
  have "length rs = n" using arg_cong [OF perm(2), of length] by simp
  then have loop: "reduce_loop 0 0 0 (map partial_of (sort_key pr_id rs)) = Inr v"
    using sum by (auto simp: milena_partition_reduce_sum_def Let_def split: if_splits)
  from reduce_loop_exact [OF loop]
  have "leading_sums_fit 0 (valid_values (sort_key pr_id rs)) \<longrightarrow> f_finite v \<and> f_int v = sum_list (valid_values (sort_key pr_id rs))" by simp
  moreover have "sum_list (valid_values (sort_key pr_id rs)) = sum_list (map (f_int \<circ> pr_value) (filter pr_valid rs))"
  proof -
    have "mset (valid_values (sort_key pr_id rs)) = mset (map (f_int \<circ> pr_value) (filter pr_valid rs))"
      by (simp add: valid_values_def)
    then show ?thesis by (metis sum_mset_sum_list)
  qed
  ultimately have exact: "leading_sums_fit 0 (valid_values (sort_key pr_id rs)) \<longrightarrow>
      f_finite v \<and> f_int v = sum_list (map (f_int \<circ> pr_value) (filter pr_valid rs))" by simp
  have "list_all (\<lambda>r. pr_status r = MILENA_OK) rs" using rs(3) by (simp add: list_all_iff)
  moreover have "mset (map pr_id rs) = mset [0..<pl_count plan]" using perm(1) n by simp
  moreover have "list_all (\<lambda>r. pr_valid r \<longrightarrow> f_finite (pr_value r)) rs"
    using reduce_loop_compensated [OF loop] by (auto simp: list_all_iff)
  ultimately show ?thesis using rs(1) reduce_loop_compensated [OF loop] exact by blast
qed

lemma windows_concat:
  "\<forall>m \<in> set ms. length m = partition_wire_size \<Longrightarrow> wire_windows (length ms) (concat ms) = ms"
  using peek_concat [of ms partition_wire_size _ "[]"] by (auto simp: wire_windows_def intro: nth_equalityI)

text \<open>
  C25.  The order in which the messages arrive does not matter: when a reduction succeeds, it
  succeeds with the same value on every permutation of its messages.
\<close>

theorem results_reduce_order:
  assumes "milena_partition_results_reduce_sum mem plan (Some (concat ms)) (length ms) = Inr v"
    and "list_all (\<lambda>m. length m = partition_wire_size) ms" and "mset ms' = mset ms"
  shows "milena_partition_results_reduce_sum mem plan (Some (concat ms')) (length ms') = Inr v"
proof -
  have len: "length ms' = length ms" using assms(3) by (metis size_mset)
  have "set ms' = set ms" using assms(3) by (metis set_mset_mset)
  then have w: "wire_windows (length ms) (concat ms) = ms" "wire_windows (length ms) (concat ms') = ms'"
    using assms(2) windows_concat [of ms] windows_concat [of ms'] len by (auto simp: list_all_iff)
  have "collect_results n ms' ps seen = Inr st"
    if "collect_results n ms ps seen = Inr st" "length ps = length seen" for n ps seen st
    using that collect.run_permute [OF _ _ assms(3)] by (simp add: collect_run)
  then show ?thesis
    using assms(1) len w
    by (fastforce simp: milena_partition_results_reduce_sum_def Let_def case_sum_Inr_iff split: if_splits)
qed


text \<open>
  Whatever the encoder accepts, the decoder reads back, and the encoder writes nothing past
  the 40 bytes of the message.
\<close>

theorem partition_message_roundtrip:
  assumes "milena_partition_result_encode (Some r) (Some buf) = Inr (buf', n)"
  shows "n = partition_wire_size \<and> milena_partition_result_decode (Some (take n buf')) = Inr r \<and>
    drop n buf' = drop n buf"
proof -
  have ok: "partition_ok r" and out: "buf' = partition_wire r @ drop 40 buf" "n = 40"
    using assms by (auto simp: encode_wire partition_ok_def split: if_splits)
  show ?thesis
    using message.dec_enc [OF ok] unfolding out
    by (simp add: length_partition partition_wire_size_def partition_of_wire_def decode_wire [OF ok])
qed

section \<open>Witnesses\<close>

definition pdemo_result :: "nat \<Rightarrow> f64 \<Rightarrow> partition_result" where
  "pdemo_result i x = \<lparr>pr_id = i, pr_status = MILENA_OK, pr_valid = True, pr_value = x\<rparr>"

definition pdemo_plan :: physical_plan where
  "pdemo_plan = \<lparr>pl_input_bytes = 10, pl_target_bytes = 5, pl_count = 2,
     pl_partitions = Some [\<lparr>pt_id = 0, pt_offset = 0, pt_length = 5\<rparr>, \<lparr>pt_id = 1, pt_offset = 5, pt_length = 5\<rparr>]\<rparr>"

lemma pdemo_ok: "f_finite x \<Longrightarrow> i \<le> 1 \<Longrightarrow> partition_ok (pdemo_result i x)"
  by (simp add: partition_ok_def pdemo_result_def uint64_max_def)

lemma pdemo_finite: "f_finite 0"
  by (simp add: f_finite_def f_exp_def)

lemma pdemo_collect:
  "collect_results 2 [partition_wire (pdemo_result 1 0), partition_wire (pdemo_result 0 0)] ps [False, False] =
     Inr (ps[1 := partial_of (pdemo_result 1 0), 0 := partial_of (pdemo_result 0 0)], [True, True])"
  using decode_wire [OF pdemo_ok [OF pdemo_finite, of 0]] decode_wire [OF pdemo_ok [OF pdemo_finite, of 1]]
  by (simp add: pdemo_result_def partial_of_def)

lemma pdemo_plan_valid: "milena_physical_plan_validate (Some pdemo_plan) = MILENA_OK"
  by (simp add: milena_physical_plan_validate_def pdemo_plan_def plan_table_def partition_max_count_def
      milena_size_add_def size_max_def)


lemma f_zero_sums: "f_sub 0 0 = 0" "f_add 0 0 = 0"
proof -
  have z: "\<not> f_nan 0" "\<not> f_inf 0" "f_int 0 = 0" "\<not> f_sign 0"
    by (simp_all add: f_nan_def f_inf_def f_exp_def f_frac_def f_int_def f_mag_def f_sign_def)
  have n: "f_neg 0 = 0x8000000000000000" by (simp add: f_neg_def)
  have "\<not> f_nan (f_neg 0)" "\<not> f_inf (f_neg 0)" "f_int (f_neg 0) = 0"
    by (simp_all add: n f_nan_def f_inf_def f_exp_def f_frac_def f_int_def f_mag_def)
  then show "f_sub 0 0 = 0" "f_add 0 0 = 0" using z by (simp_all add: f_sub_def f_add_def with_sign_def)
qed

lemma pdemo_sum:
  "milena_partition_reduce_sum (Some pdemo_plan) (Some [partial_of (pdemo_result 0 0), partial_of (pdemo_result 1 0)]) 2 = Inr 0"
proof -
  have "reduce_loop 0 0 0 [partial_of (pdemo_result 0 0), partial_of (pdemo_result 1 0)] = Inr 0"
    by (simp add: pdemo_result_def partial_of_def Let_def f_zero_sums pdemo_finite)
  then show ?thesis using pdemo_plan_valid
    by (simp add: milena_partition_reduce_sum_def pdemo_plan_def)
qed

abbreviation pdemo_messages :: "bytes list" where
  "pdemo_messages \<equiv> [partition_wire (pdemo_result 1 0), partition_wire (pdemo_result 0 0)]"

lemma pdemo_reduce:
  "milena_partition_results_reduce_sum True (Some pdemo_plan) (Some (concat pdemo_messages)) (length pdemo_messages) = Inr 0"
proof -
  have c: "pl_count pdemo_plan = 2" by (simp add: pdemo_plan_def)
  have w: "wire_windows 2 (concat pdemo_messages) = pdemo_messages"
    using windows_concat [of pdemo_messages] by (simp add: length_partition partition_wire_size_def numeral_2_eq_2)
  have "collect_results 2 (wire_windows 2 (concat pdemo_messages))
      (replicate 2 \<lparr>pp_id = 0, pp_value = 0, pp_valid = False\<rparr>) (replicate 2 False) =
    Inr ([partial_of (pdemo_result 0 0), partial_of (pdemo_result 1 0)], [True, True])"
    unfolding w using pdemo_collect by (simp add: numeral_2_eq_2)
  then show ?thesis
    using pdemo_sum c unfolding milena_partition_results_reduce_sum_def by (simp add: numeral_2_eq_2)
qed

theorem partition_corruption_detected_witness:
  "\<exists>e. milena_partition_result_decode (Some ((partition_wire (pdemo_result 1 0))[20 := 77])) = Inl e"
proof (rule partition_corruption_detected)
  show "milena_partition_result_decode (Some (partition_wire (pdemo_result 1 0))) = Inr (pdemo_result 1 0)"
    by (rule decode_wire) (simp add: pdemo_ok pdemo_finite)
  show "20 < length (partition_wire (pdemo_result 1 0))" by (simp add: length_partition)
  have "partition_wire (pdemo_result 1 0) ! 20 = 0"
    by (simp add: partition_wire_def partition_head_def put_u64_def ascii_def nth_append nth_put_le
        wire_flags_def pdemo_result_def)
  then show "77 \<noteq> partition_wire (pdemo_result 1 0) ! 20" by simp
qed

text \<open>The doubles 1, 2 and 3, and the reduction of the messages 1 and 2 of two partitions.\<close>

lemma small_doubles:
  "f_finite 0x3FF0000000000000" "f_int 0x3FF0000000000000 = 2 ^ 1074"
  "f_finite 0x4000000000000000" "f_int 0x4000000000000000 = 2 * 2 ^ 1074"
  "f_finite 0x4008000000000000" "f_int 0x4008000000000000 = 3 * 2 ^ 1074"
  using f_one_int f_one_finite
  by (simp_all add: f_one_def f_finite_def f_int_def f_mag_def f_exp_def f_frac_def f_sign_def)

abbreviation pdemo_first :: partition_result where "pdemo_first \<equiv> pdemo_result 0 0x3FF0000000000000"
abbreviation pdemo_second :: partition_result where "pdemo_second \<equiv> pdemo_result 1 0x4000000000000000"

definition pdemo_wire :: bytes where
  "pdemo_wire = partition_wire pdemo_second @ partition_wire pdemo_first"

lemma pdemo_ok_values: "partition_ok pdemo_first" "partition_ok pdemo_second"
  using pdemo_ok small_doubles by simp_all

lemma pdemo_windows: "wire_windows 2 pdemo_wire = [partition_wire pdemo_second, partition_wire pdemo_first]"
  using windows_concat [of "[partition_wire pdemo_second, partition_wire pdemo_first]"]
  by (simp add: pdemo_wire_def length_partition partition_wire_size_def numeral_2_eq_2)

lemma replicate_pair: "replicate 2 x = [x, x]"
  by (simp add: numeral_2_eq_2)

lemma pdemo_wire_reduce: "\<exists>v. milena_partition_results_reduce_sum True (Some pdemo_plan) (Some pdemo_wire) 2 = Inr v"
proof -
  have c: "collect_results 2 (wire_windows 2 pdemo_wire)
      (replicate 2 \<lparr>pp_id = 0, pp_value = 0, pp_valid = False\<rparr>) (replicate 2 False) =
    Inr ([partial_of pdemo_first, partial_of pdemo_second], [True, True])"
    using decode_wire [OF pdemo_ok_values(1)] decode_wire [OF pdemo_ok_values(2)]
    unfolding pdemo_windows replicate_pair by (simp add: pdemo_result_def partial_of_def)
  have "\<exists>v. reduce_loop 0 0 0 [partial_of pdemo_first, partial_of pdemo_second] = Inr v"
    using small_doubles by (simp add: pdemo_result_def Let_def)
  then show ?thesis using c pdemo_plan_valid
    by (simp add: milena_partition_results_reduce_sum_def milena_partition_reduce_sum_def pdemo_plan_def)
qed

theorem results_reduce_exact_witness:
  "\<exists>v. milena_partition_results_reduce_sum True (Some pdemo_plan) (Some pdemo_wire) 2 = Inr v \<and>
    f_int v = f_int 0x4008000000000000"
proof -
  obtain v where v: "milena_partition_results_reduce_sum True (Some pdemo_plan) (Some pdemo_wire) 2 = Inr v"
    using pdemo_wire_reduce by blast
  obtain rs where
    rs: "list_all2 (\<lambda>w r. milena_partition_result_decode (Some w) = Inr r) [partition_wire pdemo_second, partition_wire pdemo_first] rs"
      "leading_sums_fit 0 (valid_values (sort_key pr_id rs)) \<longrightarrow>
        f_finite v \<and> f_int v = sum_list (map (f_int \<circ> pr_value) (filter pr_valid rs))"
    using results_reduce_exact [OF v] unfolding pdemo_windows by auto
  then have eq: "rs = [pdemo_second, pdemo_first]"
    using decode_wire [OF pdemo_ok_values(1)] decode_wire [OF pdemo_ok_values(2)] by (auto simp: list_all2_Cons1)
  have "leading_sums_fit 0 [2 ^ 1074, 2 * 2 ^ 1074]"
    unfolding leading_sums_Cons using small_doubles f_zero_bits
    by (auto simp: leading_sums_fit_def intro: exI [of _ 0] exI [of _ "0x3FF0000000000000"] exI [of _ "0x4008000000000000"])
  moreover have "valid_values (sort_key pr_id rs) = [2 ^ 1074, 2 * 2 ^ 1074]"
    using small_doubles by (simp add: eq valid_values_def pdemo_result_def)
  ultimately have "f_int v = f_int 0x4008000000000000"
    using rs(2) small_doubles by (simp add: eq pdemo_result_def)
  then show ?thesis using v by blast
qed

theorem results_reduce_order_witness:
  "milena_partition_results_reduce_sum True (Some pdemo_plan) (Some (concat (rev pdemo_messages))) 2 = Inr 0"
proof -
  have "list_all (\<lambda>m. length m = partition_wire_size) pdemo_messages"
    by (simp add: length_partition partition_wire_size_def)
  then show ?thesis using results_reduce_order [OF pdemo_reduce _ mset_rev] by (simp add: numeral_2_eq_2)
qed

theorem partition_message_roundtrip_witness:
  "milena_partition_result_decode (Some (take 40 (partition_wire (pdemo_result 1 0) @ [9, 9]))) = Inr (pdemo_result 1 0)"
  using partition_message_roundtrip [of "pdemo_result 1 0" "replicate 42 9" "partition_wire (pdemo_result 1 0) @ [9, 9]" 40]
    pdemo_ok [OF pdemo_finite, of 1]
  by (simp add: encode_wire partition_ok_def replicate_eqI [symmetric] numeral_eq_Suc)

end
