(* ===== verification/MergeHeap.thy ===== *)
theory MergeHeap
  imports Common Binary64 "HOL-Library.Multiset" "HOL-Library.Product_Lexorder"
begin

text \<open>
  The binary heap of external_merge.c: an array of nodes, one per run, ordered by value and then by
  run.  Both sifts carry the node to place in a variable and move the others over the hole, as the
  source does.  The locale \<open>min_queue\<close> is what the merge relies on.
\<close>

record heap_node =
  hn_value :: f64
  hn_run :: nat
  hn_present :: bool

definition node_before :: "heap_node \<Rightarrow> heap_node \<Rightarrow> bool" where
  "node_before a b =
     (if f_lt (hn_value a) (hn_value b) then True
      else if f_lt (hn_value b) (hn_value a) then False
      else hn_run a < hn_run b)"

fun sift_up :: "heap_node list \<Rightarrow> nat \<Rightarrow> heap_node \<Rightarrow> heap_node list" where
  "sift_up heap i node =
     (if i > 0
      then let parent = (i - 1) div 2
           in if \<not> node_before node (heap ! parent) then heap[i := node]
              else sift_up (heap[i := heap ! parent]) parent node
      else heap[i := node])"

declare sift_up.simps [simp del]

definition heap_push :: "heap_node list \<Rightarrow> heap_node \<Rightarrow> heap_node list" where
  "heap_push heap node = sift_up (heap @ [node]) (length heap) node"

definition smaller_child :: "heap_node list \<Rightarrow> nat \<Rightarrow> nat" where
  "smaller_child heap i =
     (let left = i * 2 + 1; right = left + 1
      in if right < length heap \<and> node_before (heap ! right) (heap ! left) then right else left)"

function sift_down :: "heap_node list \<Rightarrow> nat \<Rightarrow> heap_node \<Rightarrow> heap_node list" where
  "sift_down heap i tail =
     (if i * 2 + 1 \<ge> length heap then heap[i := tail]
      else let child = smaller_child heap i
           in if \<not> node_before (heap ! child) tail then heap[i := tail]
              else sift_down (heap[i := heap ! child]) child tail)"
  by pat_completeness auto

termination
  by (relation "measure (\<lambda>(heap, i, tail). length heap - i)") (auto simp: smaller_child_def Let_def)

declare sift_down.simps [simp del]

definition heap_pop :: "heap_node list \<Rightarrow> heap_node \<times> heap_node list" where
  "heap_pop heap =
     (let top = heap ! 0; tail = last heap; heap = butlast heap
      in (top, if heap \<noteq> [] then sift_down heap 0 tail else heap))"

section \<open>Order\<close>

definition node_key :: "heap_node \<Rightarrow> int \<times> nat" where
  "node_key n = (f_int (hn_value n), hn_run n)"

definition node_ok :: "heap_node \<Rightarrow> bool" where
  "node_ok n \<longleftrightarrow> f_finite (hn_value n)"

lemma finite_not_nan: "f_finite x \<Longrightarrow> \<not> f_nan x"
  by (simp add: f_finite_def f_nan_def)

lemma node_before_key: "node_ok a \<Longrightarrow> node_ok b \<Longrightarrow> node_before a b \<longleftrightarrow> node_key a < node_key b"
  using finite_not_nan by (auto simp: node_before_def node_ok_def node_key_def f_lt_def less_prod_def)

section \<open>The heap property\<close>

definition heap_le :: "heap_node list \<Rightarrow> nat \<Rightarrow> nat \<Rightarrow> bool" where
  "heap_le h i j \<longleftrightarrow> node_key (h ! i) \<le> node_key (h ! j)"

definition parent' :: "nat \<Rightarrow> nat" where "parent' j = (j - 1) div 2"

lemma parent_less: "0 < j \<Longrightarrow> parent' j < j"
  by (simp add: parent'_def)

definition heap_ok :: "heap_node list \<Rightarrow> bool" where
  "heap_ok h \<longleftrightarrow> list_all node_ok h \<and> (\<forall>j. 0 < j \<and> j < length h \<longrightarrow> heap_le h (parent' j) j)"

text \<open>The heap property except above, or below, one index.\<close>

definition heap_but_up :: "heap_node list \<Rightarrow> nat \<Rightarrow> bool" where
  "heap_but_up h i \<longleftrightarrow> list_all node_ok h \<and>
     (\<forall>j. 0 < j \<and> j < length h \<and> j \<noteq> i \<longrightarrow> heap_le h (parent' j) j) \<and>
     (\<forall>j. 0 < j \<and> j < length h \<and> parent' j = i \<and> 0 < i \<longrightarrow> heap_le h (parent' i) j)"

definition heap_but_down :: "heap_node list \<Rightarrow> nat \<Rightarrow> bool" where
  "heap_but_down h i \<longleftrightarrow> list_all node_ok h \<and>
     (\<forall>j. 0 < j \<and> j < length h \<and> parent' j \<noteq> i \<longrightarrow> heap_le h (parent' j) j) \<and>
     (\<forall>j. 0 < j \<and> j < length h \<and> parent' j = i \<and> 0 < i \<longrightarrow> heap_le h (parent' i) j)"

lemma mset_move_hole:
  assumes "i < length h" and "p < length h" and "p \<noteq> i"
  shows "mset (h[i := h ! p, p := x]) = mset (h[i := x])"
proof -
  have "mset ((h[i := x])[i := h[i := x] ! p, p := h[i := x] ! i]) = mset (h[i := x])"
    using assms mset_swap [of p "h[i := x]" i] by (simp add: list_update_swap)
  then show ?thesis using assms by simp
qed

lemma list_all_update: "list_all P h \<Longrightarrow> P x \<Longrightarrow> list_all P (h[i := x])"
  by (auto simp: list_all_iff dest: subsetD [OF set_update_subset_insert])

lemma list_all_nth': "list_all P h \<Longrightarrow> i < length h \<Longrightarrow> P (h ! i)"
  by (simp add: list_all_length)

lemma sift_up_ok:
  assumes "i < length h" and "heap_but_up (h[i := x]) i" and "node_ok x"
  shows "heap_ok (sift_up h i x) \<and> mset (sift_up h i x) = mset (h[i := x])"
  using assms
proof (induction h i x rule: sift_up.induct)
  case (1 h i x)
  note up = "1.prems"(2) [unfolded heap_but_up_def]
  define p where "p = (i - 1) div 2"
  have stop: "heap_ok (h[i := x])" if "i = 0 \<or> \<not> node_before x (h ! p)"
  proof -
    have "heap_le (h[i := x]) (parent' i) i" if "0 < i"
    proof -
      have "p < i" and p': "parent' i = p" using that by (simp_all add: p_def parent'_def)
      moreover have "node_ok (h[i := x] ! p)" using up "1.prems"(1) \<open>p < i\<close> list_all_nth' [of node_ok "h[i := x]" p] by simp
      ultimately show ?thesis
        using \<open>i = 0 \<or> \<not> node_before x (h ! p)\<close> that "1.prems"(1,3) node_before_key [of x "h ! p"]
        by (auto simp: heap_le_def p')
    qed
    then show ?thesis using up by (auto simp: heap_ok_def)
  qed
  show ?case
  proof (cases "i = 0 \<or> \<not> node_before x (h ! p)")
    case True
    then have "sift_up h i x = h[i := x]" by (subst sift_up.simps) (auto simp: Let_def p_def)
    then show ?thesis using stop True by simp
  next
    case False
    then have i: "0 < i" and before: "node_before x (h ! p)" by simp_all
    have p: "p < i" "p < length h" "parent' i = p" using i "1.prems"(1) by (simp_all add: p_def parent'_def)
    have okp: "node_ok (h ! p)" using up list_all_nth' [of node_ok "h[i := x]" p] p by simp
    have xp: "node_key x < node_key (h ! p)" using before node_before_key "1.prems"(3) okp by simp
    define g where "g = h[i := h ! p]"
    have gx: "g[p := x] ! j = (if j = p then x else if j = i then h ! p else h ! j)" for j
      using p "1.prems"(1) by (simp add: g_def nth_list_update_if)
    have hx: "h[i := x] ! j = (if j = i then x else h ! j)" for j
      using "1.prems"(1) by (simp add: nth_list_update_if)
    have le1: "node_key (h[i := x] ! parent' j) \<le> node_key (h[i := x] ! j)" if "0 < j" "j < length h" "j \<noteq> i" for j
      using up that by (auto simp: heap_le_def)
    have le2: "node_key (h ! p) \<le> node_key (h ! j)" if "0 < j" "j < length h" "parent' j = i" for j
    proof -
      have "j \<noteq> i" using that parent_less [of j] by auto
      moreover have "heap_le (h[i := x]) (parent' i) j" using up that i by auto
      ultimately show ?thesis using p by (simp add: heap_le_def hx)
    qed
    have le3: "node_key (h ! p) \<le> node_key (h ! j)" if "0 < j" "j < length h" "parent' j = p" "j \<noteq> i" for j
      using le1 [of j] that p by (simp add: hx)
    have lep: "node_key (h ! parent' p) \<le> node_key (h ! p)" if "0 < p"
      using le1 [of p] that p parent_less [of p] by (simp add: hx)
    have "heap_but_up (g[p := x]) p"
      unfolding heap_but_up_def
    proof (intro conjI allI impI)
      show "list_all node_ok (g[p := x])"
        using up "1.prems"(3) okp list_all_update [of node_ok "h[i := x]" "h ! p" i]
        by (simp add: g_def list_all_update)
    next
      fix j
      assume j: "0 < j \<and> j < length (g[p := x]) \<and> j \<noteq> p"
      then have j': "j < length h" by (simp add: g_def)
      have "j \<noteq> i \<Longrightarrow> parent' j \<noteq> i \<Longrightarrow> parent' j \<noteq> p \<Longrightarrow> node_key (h ! parent' j) \<le> node_key (h ! j)"
        using le1 [of j] j j' by (simp add: hx)
      then show "heap_le (g[p := x]) (parent' j) j"
        using j j' p le2 [of j] le3 [of j] xp unfolding heap_le_def gx by (auto split: if_splits)
    next
      fix j
      assume j: "0 < j \<and> j < length (g[p := x]) \<and> parent' j = p \<and> 0 < p"
      then have j': "j < length h" "j \<noteq> p" using parent_less [of j] by (auto simp: g_def)
      then show "heap_le (g[p := x]) (parent' p) j"
        using j p lep le3 [of j] parent_less [of p] unfolding heap_le_def gx by (auto split: if_splits)
    qed
    then have "heap_ok (sift_up g p x) \<and> mset (sift_up g p x) = mset (g[p := x])"
      using "1.IH" [OF i refl, folded p_def] before p "1.prems"(3) by (simp add: g_def)
    moreover have "sift_up h i x = sift_up g p x"
      using i before by (subst sift_up.simps) (simp add: Let_def p_def g_def)
    moreover have "mset (g[p := x]) = mset (h[i := x])"
      using mset_move_hole [of i h p x] p "1.prems"(1) by (simp add: g_def)
    ultimately show ?thesis by simp
  qed
qed


lemma smaller_child_spec:
  assumes "list_all node_ok h" and "i * 2 + 1 < length h"
  defines "c \<equiv> smaller_child h i"
  shows "c < length h" and "0 < c" and "parent' c = i" and "i < c"
    and "\<And>j. 0 < j \<Longrightarrow> j < length h \<Longrightarrow> parent' j = i \<Longrightarrow> node_key (h ! c) \<le> node_key (h ! j)"
proof -
  have c: "c = i * 2 + 1 \<or> c = i * 2 + 2" "c < length h"
    using assms(2) by (auto simp: c_def smaller_child_def Let_def)
  then show "c < length h" "0 < c" "parent' c = i" "i < c" by (auto simp: parent'_def)
  fix j
  assume j: "0 < j" "j < length h" "parent' j = i"
  then have j': "j = i * 2 + 1 \<or> j = i * 2 + 2" by (auto simp: parent'_def)
  have "i * 2 + 2 < length h \<Longrightarrow> node_before (h ! (i * 2 + 2)) (h ! (i * 2 + 1)) \<longleftrightarrow>
      node_key (h ! (i * 2 + 2)) < node_key (h ! (i * 2 + 1))"
    using assms(1,2) list_all_nth' [of node_ok h] by (intro node_before_key) auto
  then show "node_key (h ! c) \<le> node_key (h ! j)"
    using j' j(2) by (auto simp: c_def smaller_child_def Let_def)
qed

lemma sift_down_ok:
  assumes "i < length h" and "heap_but_down (h[i := x]) i" and "node_ok x" and "list_all node_ok h"
    and "0 < i \<Longrightarrow> node_key (h ! parent' i) \<le> node_key x"
  shows "heap_ok (sift_down h i x) \<and> mset (sift_down h i x) = mset (h[i := x])"
  using assms
proof (induction h i x rule: sift_down.induct)
  case (1 h i x)
  note down = "1.prems"(2) [unfolded heap_but_down_def]
  have hx: "h[i := x] ! j = (if j = i then x else h ! j)" for j
    using "1.prems"(1) by (simp add: nth_list_update_if)
  have le1: "node_key (h[i := x] ! parent' j) \<le> node_key (h[i := x] ! j)" if "0 < j" "j < length h" "parent' j \<noteq> i" for j
    using down that by (auto simp: heap_le_def)
  have le2: "node_key (h ! parent' i) \<le> node_key (h ! j)" if "0 < j" "j < length h" "parent' j = i" "0 < i" for j
  proof -
    have "j \<noteq> i" using that parent_less [of j] by auto
    moreover have "heap_le (h[i := x]) (parent' i) j" using down that by auto
    ultimately show ?thesis using parent_less [OF that(4)] by (simp add: heap_le_def hx)
  qed
  have stop: "heap_ok (h[i := x])" if "\<And>j. 0 < j \<Longrightarrow> j < length h \<Longrightarrow> parent' j = i \<Longrightarrow> node_key x \<le> node_key (h ! j)"
    unfolding heap_ok_def
  proof (intro conjI allI impI)
    show "list_all node_ok (h[i := x])" using down by simp
    fix j
    assume j: "0 < j \<and> j < length (h[i := x])"
    then have "parent' j = i \<Longrightarrow> j \<noteq> i" using parent_less [of j] by auto
    then show "heap_le (h[i := x]) (parent' j) j"
      using j that [of j] le1 [of j] unfolding heap_le_def hx by (auto split: if_splits)
  qed
  show ?case
  proof (cases "i * 2 + 1 \<ge> length h")
    case True
    then have "sift_down h i x = h[i := x]" by (subst sift_down.simps) simp
    moreover have "parent' j = i \<Longrightarrow> 0 < j \<Longrightarrow> j < length h \<Longrightarrow> False" for j using True by (auto simp: parent'_def)
    ultimately show ?thesis using stop by auto
  next
    case False
    define c where "c = smaller_child h i"
    have lt: "i * 2 + 1 < length h" using False by simp
    note c = smaller_child_spec [OF "1.prems"(4) lt, folded c_def]
    have okc: "node_ok (h ! c)" using list_all_nth' [OF "1.prems"(4) c(1)] .
    note before = node_before_key [OF okc "1.prems"(3)]
    show ?thesis
    proof (cases "node_before (h ! c) x")
      case n: False
      then have "sift_down h i x = h[i := x]" using False by (subst sift_down.simps) (simp add: Let_def c_def [symmetric])
      moreover have "heap_ok (h[i := x])" using stop c(5) n before by (meson not_less order_trans)
      ultimately show ?thesis by simp
    next
      case True
      define g where "g = h[i := h ! c]"
      have gx: "g[c := x] ! j = (if j = c then x else if j = i then h ! c else h ! j)" for j
        using c(1) "1.prems"(1) by (simp add: g_def nth_list_update_if)
      have cx: "node_key (h ! c) < node_key x" using True before by simp
      have ok: "list_all node_ok g" using "1.prems"(4) okc by (simp add: g_def list_all_update)
      have "heap_but_down (g[c := x]) c"
        unfolding heap_but_down_def
      proof (intro conjI allI impI)
        show "list_all node_ok (g[c := x])" using ok "1.prems"(3) by (rule list_all_update)
      next
        fix j
        assume j: "0 < j \<and> j < length (g[c := x]) \<and> parent' j \<noteq> c"
        then have j': "j < length h" by (simp add: g_def)
        consider "j = c" | "j \<noteq> c" "parent' j = i" | "j = i" "j \<noteq> c" "parent' j \<noteq> i" | "j \<noteq> c" "j \<noteq> i" "parent' j \<noteq> i" by blast
        then show "heap_le (g[c := x]) (parent' j) j"
        proof cases
          case 1
          then show ?thesis using c cx by (simp add: heap_le_def gx)
        next
          case 2
          then show ?thesis using j j' c(4) c(5) [of j] parent_less [of j] by (simp add: heap_le_def gx)
        next
          case 3
          then show ?thesis using j le2 [of c] c by (simp add: heap_le_def gx)
        next
          case 4
          then show ?thesis using j j' le1 [of j] by (simp add: heap_le_def gx hx)
        qed
      next
        fix j
        assume j: "0 < j \<and> j < length (g[c := x]) \<and> parent' j = c \<and> 0 < c"
        then have "j < length h" "j \<noteq> c" "j \<noteq> i" using parent_less [of j] c(4) by (auto simp: g_def)
        then show "heap_le (g[c := x]) (parent' c) j"
          using j c le1 [of j] by (simp add: heap_le_def gx hx)
      qed
      moreover have "0 < c \<Longrightarrow> node_key (g ! parent' c) \<le> node_key x"
        using c cx "1.prems"(1) by (simp add: g_def)
      ultimately have "heap_ok (sift_down g c x) \<and> mset (sift_down g c x) = mset (g[c := x])"
        using "1.IH" [OF False c_def, folded g_def] True ok c(1) "1.prems"(3) by (simp add: g_def)
      moreover have "sift_down h i x = sift_down g c x"
        using False True by (subst sift_down.simps) (simp add: Let_def c_def [symmetric] g_def)
      moreover have "mset (g[c := x]) = mset (h[i := x])"
        using mset_move_hole [of i h c x] c "1.prems"(1) by (simp add: g_def)
      ultimately show ?thesis by simp
    qed
  qed
qed

lemma heap_push_ok:
  assumes "heap_ok h" and "node_ok x"
  shows "heap_ok (heap_push h x)" and "mset (heap_push h x) = add_mset x (mset h)"
proof -
  have "heap_but_up (h @ [x]) (length h)"
    unfolding heap_but_up_def
  proof (intro conjI allI impI)
    show "list_all node_ok (h @ [x])" using assms by (simp add: heap_ok_def)
  next
    fix j
    assume "0 < j \<and> j < length (h @ [x]) \<and> j \<noteq> length h"
    then have j: "0 < j" "j < length h" by simp_all
    then have "parent' j < length h" using parent_less [of j] by simp
    then show "heap_le (h @ [x]) (parent' j) j"
      using assms(1) j by (simp add: heap_ok_def heap_le_def nth_append)
  next
    fix j
    assume "0 < j \<and> j < length (h @ [x]) \<and> parent' j = length h \<and> 0 < length h"
    then show "heap_le (h @ [x]) (parent' (length h)) j" using parent_less [of j] by auto
  qed
  then have "heap_but_up ((h @ [x])[length h := x]) (length h)" by simp
  from sift_up_ok [OF _ this assms(2)] show "heap_ok (heap_push h x)" "mset (heap_push h x) = add_mset x (mset h)"
    by (simp_all add: heap_push_def)
qed

lemma heap_root: "heap_ok h \<Longrightarrow> j < length h \<Longrightarrow> node_key (h ! 0) \<le> node_key (h ! j)"
proof (induction j rule: less_induct)
  case (less j)
  show ?case
  proof (cases "j = 0")
    case False
    then have "node_key (h ! 0) \<le> node_key (h ! parent' j)"
      using less.prems parent_less [of j] by (intro less.IH) simp_all
    also have "\<dots> \<le> node_key (h ! j)" using less.prems False by (simp add: heap_ok_def heap_le_def)
    finally show ?thesis .
  qed simp
qed

lemma heap_pop_ok:
  assumes "heap_ok h" and "h \<noteq> []" and "heap_pop h = (x, h')"
  shows "heap_ok h'" and "mset h = add_mset x (mset h')" and "\<forall>y \<in># mset h'. node_key x \<le> node_key y" and "node_ok x"
proof -
  obtain b t where h: "h = b @ [t]" using assms(2) by (metis append_butlast_last_id)
  have x: "x = h ! 0" using assms(3) by (simp add: heap_pop_def Let_def)
  have h': "h' = (if b \<noteq> [] then sift_down b 0 t else b)" using assms(3) by (auto simp: heap_pop_def Let_def h)
  have ok: "list_all node_ok b" "node_ok t" using assms(1) by (simp_all add: heap_ok_def h)
  show "node_ok x" using assms(1,2) x list_all_nth' [of node_ok h 0] by (simp add: heap_ok_def)
  have res: "heap_ok h' \<and> mset h = add_mset x (mset h')"
  proof (cases "b = []")
    case True
    then show ?thesis using h h' x by (simp add: heap_ok_def)
  next
    case False
    have le: "heap_le b (parent' j) j" if "0 < j" "j < length b" for j
      using assms(1) that parent_less [of j] by (auto simp: heap_ok_def heap_le_def h nth_append dest!: spec [of _ j])
    have "heap_but_down (b[0 := t]) 0"
      unfolding heap_but_down_def
    proof (intro conjI allI impI)
      show "list_all node_ok (b[0 := t])" using ok by (rule list_all_update)
    next
      fix j
      assume "0 < j \<and> j < length (b[0 := t]) \<and> parent' j \<noteq> 0"
      then show "heap_le (b[0 := t]) (parent' j) j" using le [of j] by (simp add: heap_le_def)
    qed simp
    from sift_down_ok [OF _ this ok(2) ok(1)] False
    have "heap_ok (sift_down b 0 t) \<and> mset (sift_down b 0 t) = mset (b[0 := t])" by simp
    moreover have "add_mset (b ! 0) (mset (b[0 := t])) = mset h"
      using False by (simp add: h mset_update)
    moreover have "x = b ! 0" using False by (simp add: x h nth_append)
    ultimately show ?thesis using False h' by simp
  qed
  then show "heap_ok h'" "mset h = add_mset x (mset h')" by simp_all
  show "\<forall>y \<in># mset h'. node_key x \<le> node_key y"
  proof
    fix y
    assume "y \<in># mset h'"
    then have "y \<in># mset h" using res by simp
    then obtain j where "j < length h" "y = h ! j" by (auto simp: in_set_conv_nth)
    then show "node_key x \<le> node_key y" using heap_root [OF assms(1)] x by simp
  qed
qed


section \<open>The queue the merge relies on\<close>

locale min_queue =
  fixes push :: "'q \<Rightarrow> 'a \<Rightarrow> 'q"
    and pop :: "'q \<Rightarrow> 'a \<times> 'q"
    and items :: "'q \<Rightarrow> 'a multiset"
    and queue_ok :: "'q \<Rightarrow> bool"
    and item_ok :: "'a \<Rightarrow> bool"
    and key :: "'a \<Rightarrow> 'k::linorder"
  assumes push_ok: "queue_ok q \<Longrightarrow> item_ok x \<Longrightarrow> queue_ok (push q x) \<and> items (push q x) = add_mset x (items q)"
    and pop_ok: "queue_ok q \<Longrightarrow> items q \<noteq> {#} \<Longrightarrow> pop q = (x, q') \<Longrightarrow>
      queue_ok q' \<and> item_ok x \<and> items q = add_mset x (items q') \<and> (\<forall>y \<in># items q'. key x \<le> key y)"
begin

fun drain :: "nat \<Rightarrow> 'q \<Rightarrow> 'a list" where
  "drain 0 q = []"
| "drain (Suc n) q = (case pop q of (x, q') \<Rightarrow> x # drain n q')"

lemma drain_sorts:
  "queue_ok q \<Longrightarrow> size (items q) = n \<Longrightarrow> mset (drain n q) = items q \<and> sorted (map key (drain n q))"
proof (induction n arbitrary: q)
  case 0
  then show ?case by simp
next
  case (Suc n)
  obtain x q' where p: "pop q = (x, q')" by fastforce
  have ne: "items q \<noteq> {#}" using Suc.prems(2) by auto
  note pq = pop_ok [OF Suc.prems(1) ne p]
  have "mset (drain n q') = items q' \<and> sorted (map key (drain n q'))"
    using pq Suc.prems(2) by (intro Suc.IH) simp_all
  then show ?case using pq p by (simp flip: set_mset_mset)
qed

lemma push_pop: "queue_ok q \<Longrightarrow> item_ok x \<Longrightarrow> items q = {#} \<Longrightarrow> fst (pop (push q x)) = x"
  using push_ok [of q x] pop_ok [of "push q x"] by (cases "pop (push q x)") fastforce

end

interpretation merge_heap: min_queue heap_push heap_pop mset heap_ok node_ok node_key
  using heap_push_ok heap_pop_ok by unfold_locales auto

end
