(* ===== verification/FileIO.thy ===== *)
theory FileIO
  imports Prelude
begin

text \<open>
  The part of stdio that spill_store.c uses: files by path, streams, and an environment that may
  make any call fail.

  \<open>w_fault\<close> is the environment's plan: the answer to the \<open>i\<close>-th fallible call is \<open>None\<close> when the
  call works, and \<open>Some k\<close> when it fails; a failing read still delivers up to \<open>k\<close> bytes and sets the
  stream's error flag, a failing write or flush has passed up to \<open>k\<close> of the pending bytes to the
  file.  Theorems quantify over all plans.  Memory allocation draws from the same plan.

  An input stream is the bytes still to be read and its error flag (no function of the source
  writes a file it has open for reading); an output stream appends to its path and keeps written
  bytes pending until they are flushed.  \<open>w_serial\<close> is the static counter of temporary names and
  \<open>w_pid\<close> the process number.
\<close>

record world =
  w_files :: "string \<Rightarrow> bytes option"
  w_fault :: "nat \<Rightarrow> nat option"
  w_tick :: nat
  w_serial :: u64
  w_pid :: u64

record in_stream =
  is_rest :: bytes
  is_error :: bool

record out_stream =
  os_path :: string
  os_pending :: bytes

datatype 'a opened = Opened 'a | Open_missing | Open_exists | Open_failed

definition ask :: "world \<Rightarrow> nat option \<times> world" where
  "ask w = (w_fault w (w_tick w), w\<lparr>w_tick := Suc (w_tick w)\<rparr>)"

text \<open>A call that just works or fails: \<open>malloc\<close>, \<open>fclose\<close> of an input, \<open>fseek\<close>.\<close>

definition call_ok :: "world \<Rightarrow> bool \<times> world" where
  "call_ok w = (case ask w of (f, w) \<Rightarrow> (f = None, w))"

definition malloc_ok :: "nat \<Rightarrow> world \<Rightarrow> bool \<times> world" where
  "malloc_ok n w = (if n = 0 then (True, w) else call_ok w)"

definition file_bytes :: "world \<Rightarrow> string \<Rightarrow> bytes" where
  "file_bytes w path = (case w_files w path of None \<Rightarrow> [] | Some bs \<Rightarrow> bs)"

definition set_file :: "string \<Rightarrow> bytes option \<Rightarrow> world \<Rightarrow> world" where
  "set_file path c w = w\<lparr>w_files := (w_files w)(path := c)\<rparr>"

definition fopen_read :: "string \<Rightarrow> world \<Rightarrow> in_stream opened \<times> world" where
  "fopen_read path w =
     (case ask w of
        (Some _, w) \<Rightarrow> (Open_failed, w)
      | (None, w) \<Rightarrow> (case w_files w path of
                        None \<Rightarrow> (Open_missing, w)
                      | Some bs \<Rightarrow> (Opened \<lparr>is_rest = bs, is_error = False\<rparr>, w)))"

definition fopen_append :: "string \<Rightarrow> world \<Rightarrow> out_stream opened \<times> world" where
  "fopen_append path w =
     (case ask w of
        (Some _, w) \<Rightarrow> (Open_failed, w)
      | (None, w) \<Rightarrow> (Opened \<lparr>os_path = path, os_pending = []\<rparr>, set_file path (Some (file_bytes w path)) w))"

text \<open>Mode \<open>"wbx"\<close>, or \<open>open\<close> with \<open>O_CREAT | O_EXCL\<close>.\<close>

definition fopen_new :: "string \<Rightarrow> world \<Rightarrow> out_stream opened \<times> world" where
  "fopen_new path w =
     (case ask w of
        (Some _, w) \<Rightarrow> (Open_failed, w)
      | (None, w) \<Rightarrow> (if w_files w path \<noteq> None then (Open_exists, w)
                      else (Opened \<lparr>os_path = path, os_pending = []\<rparr>, set_file path (Some []) w)))"

definition fread :: "nat \<Rightarrow> in_stream \<Rightarrow> world \<Rightarrow> bytes \<times> in_stream \<times> world" where
  "fread n s w =
     (case ask w of
        (None, w) \<Rightarrow> (take n (is_rest s), s\<lparr>is_rest := drop n (is_rest s)\<rparr>, w)
      | (Some k, w) \<Rightarrow> let m = min k (n - 1)
                       in (take m (is_rest s), \<lparr>is_rest = drop m (is_rest s), is_error = True\<rparr>, w))"

text \<open>The count written, the stream and the world.\<close>

definition fwrite :: "bytes \<Rightarrow> out_stream \<Rightarrow> world \<Rightarrow> nat \<times> out_stream \<times> world" where
  "fwrite data s w =
     (case ask w of
        (None, w) \<Rightarrow> (length data, s\<lparr>os_pending := os_pending s @ data\<rparr>, w)
      | (Some k, w) \<Rightarrow> (min k (length data - 1), s\<lparr>os_pending := []\<rparr>,
                        set_file (os_path s) (Some (file_bytes w (os_path s) @ take k (os_pending s @ data))) w))"

text \<open>\<open>fflush\<close>, and \<open>fclose\<close> of an output stream.\<close>

definition fflush :: "out_stream \<Rightarrow> world \<Rightarrow> bool \<times> out_stream \<times> world" where
  "fflush s w =
     (case ask w of (f, w) \<Rightarrow>
        let n = (case f of None \<Rightarrow> length (os_pending s) | Some k \<Rightarrow> k)
        in (f = None, s\<lparr>os_pending := []\<rparr>,
            if os_pending s = [] then w
            else set_file (os_path s) (Some (file_bytes w (os_path s) @ take n (os_pending s))) w))"

definition rename :: "string \<Rightarrow> string \<Rightarrow> world \<Rightarrow> bool \<times> world" where
  "rename old new w =
     (case ask w of
        (Some _, w) \<Rightarrow> (False, w)
      | (None, w) \<Rightarrow> (case w_files w old of
                        None \<Rightarrow> (False, w)
                      | Some bs \<Rightarrow> (True, set_file old None (set_file new (Some bs) w))))"

definition unlink :: "string \<Rightarrow> world \<Rightarrow> world" where
  "unlink path w = (case call_ok w of (ok, w) \<Rightarrow> if ok then set_file path None w else w)"

section \<open>Positions\<close>

text \<open>file_position.h on POSIX; \<open>None\<close> stands for -1.\<close>

definition int64_max :: nat where "int64_max = 9223372036854775807"

definition milena_file_tell64 :: "nat \<Rightarrow> world \<Rightarrow> nat option \<times> world" where
  "milena_file_tell64 position w =
     (case call_ok w of (ok, w) \<Rightarrow>
        (if \<not> ok then None else if position > int64_max then None else Some position, w))"

definition milena_file_seek64 :: "world \<Rightarrow> bool \<times> world" where
  "milena_file_seek64 w = call_ok w"

section \<open>What a call can change\<close>

named_theorems io_simps \<open>the files after an operation\<close>

lemma ask_files [io_simps]: "ask w = (f, w') \<Longrightarrow> w_files w' = w_files w"
  by (auto simp: ask_def)

lemma call_ok_files [io_simps]: "call_ok w = (b, w') \<Longrightarrow> w_files w' = w_files w"
  by (auto simp: call_ok_def ask_def)

lemma malloc_ok_files [io_simps]: "malloc_ok n w = (b, w') \<Longrightarrow> w_files w' = w_files w"
  by (auto simp: malloc_ok_def call_ok_files split: if_splits)

lemma fopen_read_files [io_simps]: "fopen_read p w = (r, w') \<Longrightarrow> w_files w' = w_files w"
  by (auto simp: fopen_read_def ask_def split: option.splits)

lemma fread_files [io_simps]: "fread n s w = (bs, s', w') \<Longrightarrow> w_files w' = w_files w"
  by (auto simp: fread_def ask_def Let_def split: option.splits)

lemma tell_files [io_simps]: "milena_file_tell64 n w = (r, w') \<Longrightarrow> w_files w' = w_files w"
  by (auto simp: milena_file_tell64_def io_simps split: prod.splits)

lemma seek_files [io_simps]: "milena_file_seek64 w = (r, w') \<Longrightarrow> w_files w' = w_files w"
  by (auto simp: milena_file_seek64_def io_simps)

lemma set_file_files [simp]: "w_files (set_file p c w) q = (if q = p then c else w_files w q)"
  by (simp add: set_file_def)

text \<open>What a read delivers is the front of what was left.\<close>

lemma fread_front:
  assumes "fread n s w = (bs, s', w')"
  shows "is_rest s = bs @ is_rest s'" and "length bs \<le> n"
    and "\<not> is_error s' \<Longrightarrow> \<not> is_error s \<and> bs = take n (is_rest s)"
    and "is_error s \<Longrightarrow> is_error s'"
  using assms by (auto simp: fread_def ask_def Let_def split: option.splits)

lemma fread_full:
  assumes "fread n s w = (bs, s', w')" and "length bs = n" and "0 < n"
  shows "is_error s' = is_error s"
proof (cases "w_fault w (w_tick w)")
  case None
  then show ?thesis using assms by (auto simp: fread_def ask_def)
next
  case (Some k)
  then have "bs = take (min k (n - 1)) (is_rest s)" using assms(1) by (simp add: fread_def ask_def Let_def)
  then have "length bs \<le> n - 1" by simp
  then show ?thesis using assms(2,3) by simp
qed

section \<open>Calls that failed\<close>

text \<open>Whether one of the calls that led from one world to the other was made to fail.\<close>

definition failed_call :: "world \<Rightarrow> world \<Rightarrow> bool" where
  "failed_call w w' \<longleftrightarrow> (\<exists>i \<in> {w_tick w..<w_tick w'}. w_fault w i \<noteq> None)"

definition later :: "world \<Rightarrow> world \<Rightarrow> bool" where
  "later w w' \<longleftrightarrow> w_fault w' = w_fault w \<and> w_tick w \<le> w_tick w'"

lemma later_refl [simp]: "later w w"
  by (simp add: later_def)

lemma later_trans [trans]: "later w w' \<Longrightarrow> later w' w'' \<Longrightarrow> later w w''"
  by (simp add: later_def)

lemma failed_call_extend:
  assumes "failed_call w1 w2" and "later w w1" and "later w2 w'"
  shows "failed_call w w'"
  using assms by (fastforce simp: failed_call_def later_def)

named_theorems run_intros \<open>operations only consume the plan\<close>

lemma ask_later [run_intros]: "ask w = (f, w') \<Longrightarrow> later w w'"
  by (auto simp: ask_def later_def)

lemma set_file_later [simp]: "later w (set_file p c w') \<longleftrightarrow> later w w'"
  by (simp add: set_file_def later_def)

lemma call_ok_later [run_intros]: "call_ok w = (b, w') \<Longrightarrow> later w w'"
  by (auto simp: call_ok_def ask_later split: prod.splits)

lemma malloc_ok_later [run_intros]: "malloc_ok n w = (b, w') \<Longrightarrow> later w w'"
  by (auto simp: malloc_ok_def call_ok_later split: if_splits)

lemma fopen_read_later [run_intros]: "fopen_read p w = (r, w') \<Longrightarrow> later w w'"
  by (auto simp: fopen_read_def dest!: ask_later split: prod.splits option.splits)

lemma fopen_new_later [run_intros]: "fopen_new p w = (r, w') \<Longrightarrow> later w w'"
  by (auto simp: fopen_new_def dest!: ask_later split: prod.splits option.splits if_splits)

lemma fread_later [run_intros]: "fread n s w = (bs, s', w') \<Longrightarrow> later w w'"
  by (auto simp: fread_def Let_def dest!: ask_later split: prod.splits option.splits)

lemma fwrite_later [run_intros]: "fwrite bs out w = (n, out', w') \<Longrightarrow> later w w'"
  by (auto simp: fwrite_def dest!: ask_later split: prod.splits option.splits)

lemma fflush_later [run_intros]: "fflush out w = (b, out', w') \<Longrightarrow> later w w'"
  by (auto simp: fflush_def Let_def dest!: ask_later split: prod.splits if_splits)

lemma rename_later [run_intros]: "rename p q w = (b, w') \<Longrightarrow> later w w'"
  by (auto simp: rename_def dest!: ask_later split: prod.splits option.splits)

lemma unlink_later [simp]: "later w (unlink p w)"
  by (auto simp: unlink_def dest!: call_ok_later split: prod.splits)

lemma tell_later [run_intros]: "milena_file_tell64 n w = (r, w') \<Longrightarrow> later w w'"
  by (auto simp: milena_file_tell64_def dest!: call_ok_later split: prod.splits)

lemma seek_later [run_intros]: "milena_file_seek64 w = (r, w') \<Longrightarrow> later w w'"
  by (simp add: milena_file_seek64_def call_ok_later)

text \<open>A read that was not made to fail delivers what is there.\<close>

lemma fread_failed:
  "fread n s w = (bs, s', w') \<Longrightarrow> failed_call w w' \<or> bs = take n (is_rest s) \<and> is_rest s' = drop n (is_rest s)"
  by (auto simp: fread_def ask_def failed_call_def Let_def split: option.splits)

section \<open>A world without faults\<close>

definition calm :: "world \<Rightarrow> bool" where
  "calm w \<longleftrightarrow> (\<forall>i \<ge> w_tick w. w_fault w i = None)"

definition tick :: "world \<Rightarrow> world" where
  "tick w = w\<lparr>w_tick := Suc (w_tick w)\<rparr>"

lemma tick_world [simp]:
  "calm w \<Longrightarrow> calm (tick w)" "w_files (tick w) = w_files w" "w_serial (tick w) = w_serial w" "w_pid (tick w) = w_pid w"
  by (simp_all add: tick_def calm_def)

lemma calm_calls:
  assumes "calm w"
  shows "ask w = (None, tick w)" and "call_ok w = (True, tick w)"
    and "fread n s w = (take n (is_rest s), s\<lparr>is_rest := drop n (is_rest s)\<rparr>, tick w)"
    and "fwrite bs out w = (length bs, out\<lparr>os_pending := os_pending out @ bs\<rparr>, tick w)"
    and "fopen_read p w = ((case w_files w p of None \<Rightarrow> Open_missing | Some bs \<Rightarrow> Opened \<lparr>is_rest = bs, is_error = False\<rparr>), tick w)"
    and "milena_file_seek64 w = (True, tick w)"
    and "milena_file_tell64 k w = (if k > int64_max then None else Some k, tick w)"
  using assms
  by (auto simp: ask_def calm_def tick_def call_ok_def fread_def fwrite_def fopen_read_def milena_file_seek64_def
      milena_file_tell64_def split: option.splits)

lemma calm_malloc: "calm w \<Longrightarrow> \<exists>w'. malloc_ok n w = (True, w') \<and> calm w' \<and> w_files w' = w_files w \<and> w_serial w' = w_serial w \<and> w_pid w' = w_pid w"
  by (auto simp: malloc_ok_def calm_calls)

end
