(* ===== verification/SpillStore.thy ===== *)
theory SpillStore
  imports Common Checksums FileIO
begin

text \<open>
  spill_store.c: the append-only store of checksummed records behind external sorting and grouped
  aggregation.  A record is a 16-byte header (magic, version, length), the payload and a 4-byte
  checksum.  \<open>scan_store\<close> finds the longest valid prefix, recovery replaces a file with a damaged
  tail by that prefix, appending writes one record and marks the store failed when a write fails,
  and the reader replays the records.  POSIX branches of the conditional code.

  A function that fills its output only on success returns \<open>Inl\<close> the status or \<open>Inr\<close> the output.
\<close>

definition spill_version :: u32 where "spill_version = 1"
definition spill_header_size :: nat where "spill_header_size = 16"
definition spill_trailer_size :: nat where "spill_trailer_size = 4"

record spill_store =
  st_file :: "out_stream option"
  st_path :: "string option"
  st_quota :: nat
  st_max_record :: nat
  st_used :: nat
  st_count :: nat
  st_failed :: bool

record spill_reader =
  rd_file :: "in_stream option"
  rd_quota :: nat
  rd_max_record :: nat
  rd_bytes :: nat
  rd_count :: nat

record spill_recovery =
  rc_records :: nat
  rc_bytes :: nat
  rc_discarded :: nat
  rc_truncated :: bool

definition spill_magic :: bytes where "spill_magic = ascii ''MLS1''"

definition spill_checksum :: "bytes \<Rightarrow> u32" where
  "spill_checksum data = fnv_run 16777619 2166136261 data"

definition spill_put_u32 :: "u32 \<Rightarrow> bytes" where "spill_put_u32 v = put_le 4 v"
definition spill_put_u64 :: "u64 \<Rightarrow> bytes" where "spill_put_u64 v = put_le 8 v"
definition spill_get_u32 :: "bytes \<Rightarrow> u32" where "spill_get_u32 bs = get_le 4 bs"
definition spill_get_u64 :: "bytes \<Rightarrow> u64" where "spill_get_u64 bs = get_le 8 bs"

text \<open>The bytes read, or \<open>None\<close> when they are not all there.\<close>

definition read_exact :: "in_stream \<Rightarrow> nat \<Rightarrow> world \<Rightarrow> bytes option \<times> in_stream \<times> world" where
  "read_exact s n w =
     (if n = 0 then (Some [], s, w)
      else case fread n s w of (bs, s, w) \<Rightarrow> (if length bs = n then Some bs else None, s, w))"

text \<open>The size of a record of \<open>len\<close> payload bytes, and where it ends from \<open>offset\<close>.\<close>

definition spill_record_size :: "nat \<Rightarrow> nat option" where
  "spill_record_size len =
     (case milena_size_add spill_header_size len of None \<Rightarrow> None
      | Some n \<Rightarrow> milena_size_add n spill_trailer_size)"

definition spill_record_end :: "nat \<Rightarrow> nat \<Rightarrow> nat option" where
  "spill_record_end offset len =
     (case spill_record_size len of None \<Rightarrow> None | Some r \<Rightarrow> milena_size_add offset r)"

definition spill_header_bad :: "bytes \<Rightarrow> bool" where
  "spill_header_bad header \<longleftrightarrow> take 4 header \<noteq> spill_magic \<or> spill_get_u32 (drop 4 header) \<noteq> spill_version"

text \<open>
  Payload and trailer of a record: \<open>Inr\<close> the payload, or \<open>Inl\<close> whether all the bytes were there
  (and only the checksum differs).
\<close>

definition read_record :: "in_stream \<Rightarrow> nat \<Rightarrow> world \<Rightarrow> (bool + bytes) \<times> in_stream \<times> world" where
  "read_record s len w =
     (case read_exact s len w of
        (None, s, w) \<Rightarrow> (Inl False, s, w)
      | (Some payload, s, w) \<Rightarrow>
          (case read_exact s spill_trailer_size w of
             (None, s, w) \<Rightarrow> (Inl False, s, w)
           | (Some trailer, s, w) \<Rightarrow>
               (if spill_checksum payload = spill_get_u32 trailer then Inr payload else Inl True, s, w)))"

section \<open>Scanning\<close>

text \<open>
  One iteration of the loop of \<open>scan_store\<close>: it stops with an error, stops with or without a bad
  tail, or has passed a record that ends at the given offset.
\<close>

datatype scan_result = Scan_error MilenaStatus | Scan_stop bool | Scan_record bytes nat

definition scan_record ::
  "nat \<Rightarrow> nat \<Rightarrow> nat \<Rightarrow> nat \<Rightarrow> in_stream \<Rightarrow> world \<Rightarrow> scan_result \<times> in_stream \<times> world"
where
  "scan_record quota max_record offset records s w =
     (case fread spill_header_size s w of (header, s, w) \<Rightarrow>
      if header = [] then (if is_error s then Scan_error MILENA_ERR_IO else Scan_stop False, s, w)
      else if length header \<noteq> spill_header_size then (Scan_stop True, s, w)
      else if spill_header_bad header then (Scan_stop True, s, w)
      else
        let raw_length = unat (spill_get_u64 (drop 8 header))
        in if raw_length > size_max \<or> raw_length > max_record then (Scan_error MILENA_ERR_OVERFLOW, s, w)
           else case spill_record_end offset raw_length of
             None \<Rightarrow> (Scan_error MILENA_ERR_OVERFLOW, s, w)
           | Some end_offset \<Rightarrow>
              (case malloc_ok raw_length w of (ok, w) \<Rightarrow>
               if \<not> ok then (Scan_error MILENA_ERR_MEMORY, s, w)
               else (case read_record s raw_length w of
                  (Inl _, s, w) \<Rightarrow> (if is_error s then Scan_error MILENA_ERR_IO else Scan_stop True, s, w)
                | (Inr payload, s, w) \<Rightarrow>
                   (if end_offset > quota then Scan_error MILENA_ERR_OVERFLOW
                    else if records = size_max then Scan_error MILENA_ERR_OVERFLOW
                    else Scan_record payload end_offset, s, w))))"

lemma read_exact_rest:
  assumes "read_exact s n w = (r, s', w')"
  shows "\<exists>bs. is_rest s = bs @ is_rest s' \<and> (r = Some bs \<and> length bs = n \<or> r = None)"
    and "w_files w' = w_files w"
  using assms fread_front(1)
  by (auto simp: read_exact_def io_simps split: if_splits prod.splits)

lemma read_record_rest:
  assumes "read_record s n w = (r, s', w')"
  shows "\<exists>bs. is_rest s = bs @ is_rest s'" and "w_files w' = w_files w"
proof -
  from assms obtain r1 s1 w1 where 1: "read_exact s n w = (r1, s1, w1)" by (metis prod_cases3)
  obtain r2 s2 w2 where 2: "read_exact s1 spill_trailer_size w1 = (r2, s2, w2)" by (metis prod_cases3)
  have "(s' = s1 \<and> w' = w1) \<or> (s' = s2 \<and> w' = w2)"
    using assms 1 2 by (auto simp: read_record_def split: option.splits)
  then show "\<exists>bs. is_rest s = bs @ is_rest s'" and "w_files w' = w_files w"
    using read_exact_rest [OF 1] read_exact_rest [OF 2] by auto
qed

lemma scan_record_rest:
  assumes "scan_record q m off n s w = (r, s', w')"
  shows "\<exists>bs. is_rest s = bs @ is_rest s' \<and> (\<forall>p e. r = Scan_record p e \<longrightarrow> bs \<noteq> [])"
    and "w_files w' = w_files w"
  using assms fread_front(1) read_record_rest
  by (fastforce simp: scan_record_def Let_def io_simps split: prod.splits if_splits option.splits sum.splits)+

function scan_store_from ::
  "nat \<Rightarrow> nat \<Rightarrow> nat \<Rightarrow> nat \<Rightarrow> in_stream \<Rightarrow> world \<Rightarrow> (MilenaStatus + nat \<times> nat \<times> bool) \<times> in_stream \<times> world"
where
  "scan_store_from quota max_record offset records s w =
     (case scan_record quota max_record offset records s w of
        (Scan_error e, s', w') \<Rightarrow> (Inl e, s', w')
      | (Scan_stop bad, s', w') \<Rightarrow> (Inr (offset, records, bad), s', w')
      | (Scan_record _ end_offset, s', w') \<Rightarrow> scan_store_from quota max_record end_offset (records + 1) s' w')"
  by pat_completeness auto

termination
  by (relation "measure (\<lambda>(q, m, off, n, s, w). length (is_rest s))") (force dest!: sym [of "(_, _, _)"] scan_record_rest(1))+

declare scan_store_from.simps [simp del]

definition scan_store ::
  "nat \<Rightarrow> nat \<Rightarrow> in_stream \<Rightarrow> world \<Rightarrow> (MilenaStatus + nat \<times> nat \<times> bool) \<times> in_stream \<times> world"
where
  "scan_store quota max_record s w = scan_store_from quota max_record 0 0 s w"

section \<open>Recovery\<close>

fun decimal :: "nat \<Rightarrow> string" where
  "decimal n = (if n < 10 then [char_of (48 + n)] else decimal (n div 10) @ [char_of (48 + n mod 10)])"

declare decimal.simps [simp del]

definition recover_name :: "string \<Rightarrow> nat \<Rightarrow> nat \<Rightarrow> string" where
  "recover_name path pid serial = path @ ''.recover.'' @ decimal pid @ ''.'' @ decimal serial"

text \<open>The attempts to create the temporary file; \<open>None\<close> when there is no output.\<close>

fun open_recovered :: "nat \<Rightarrow> string \<Rightarrow> nat \<Rightarrow> world \<Rightarrow> (string \<times> out_stream) option \<times> world" where
  "open_recovered 0 path capacity w = (None, w)"
| "open_recovered (Suc attempts) path capacity w =
     (let serial = w_serial w + 1; w = w\<lparr>w_serial := serial\<rparr>;
          tmp = recover_name path (unat (w_pid w)) (unat serial)
      in if length tmp \<ge> capacity then (None, w)
         else case fopen_new tmp w of
                (Opened out, w) \<Rightarrow> (Some (tmp, out), w)
              | (Open_exists, w) \<Rightarrow> open_recovered attempts path capacity w
              | (_, w) \<Rightarrow> (None, w))"

definition copy_buffer_size :: nat where "copy_buffer_size = 8192"

function copy_prefix :: "nat \<Rightarrow> in_stream \<Rightarrow> out_stream \<Rightarrow> world \<Rightarrow> bool \<times> in_stream \<times> out_stream \<times> world" where
  "copy_prefix left input output w =
     (if left = 0 then (True, input, output, w)
      else
        let want = (if left < copy_buffer_size then left else copy_buffer_size)
        in case fread want input w of (bs, input, w) \<Rightarrow>
             if length bs \<noteq> want then (False, input, output, w)
             else case fwrite bs output w of (n, output, w) \<Rightarrow>
               if n \<noteq> want then (False, input, output, w)
               else copy_prefix (left - want) input output w)"
  by pat_completeness auto

termination by (relation "measure fst") (auto simp: copy_buffer_size_def)

declare copy_prefix.simps [simp del]

text \<open>The replacement of a file with a damaged tail by its valid prefix.\<close>

definition replace_by_prefix :: "string \<Rightarrow> nat \<Rightarrow> world \<Rightarrow> MilenaStatus \<times> world" where
  "replace_by_prefix path valid w =
     (if length path > size_max - 80 then (MILENA_ERR_OVERFLOW, w)
      else case malloc_ok (length path + 80) w of (ok, w) \<Rightarrow>
      if \<not> ok then (MILENA_ERR_MEMORY, w)
      else case open_recovered 16 path (length path + 80) w of
        (None, w) \<Rightarrow> (MILENA_ERR_IO, w)
      | (Some (tmp, output), w) \<Rightarrow>
          (case fopen_read path w of
             (Opened input, w) \<Rightarrow>
               (case copy_prefix valid input output w of (copied, input, output, w) \<Rightarrow>
                case call_ok w of (input_closed, w) \<Rightarrow>
                case fflush output w of (output_closed, output, w) \<Rightarrow>
                case (if copied \<and> input_closed \<and> output_closed then rename tmp path w else (False, w)) of
                  (True, w) \<Rightarrow> (MILENA_OK, w)
                | (False, w) \<Rightarrow> (MILENA_ERR_IO, unlink tmp w))
           | (_, w) \<Rightarrow> (case fflush output w of (_, _, w) \<Rightarrow> (MILENA_ERR_IO, unlink tmp w))))"

definition spill_limits_bad :: "string option \<Rightarrow> nat \<Rightarrow> nat \<Rightarrow> bool" where
  "spill_limits_bad path quota max_record \<longleftrightarrow>
     path = None \<or> path = Some [] \<or> max_record = 0 \<or> quota < spill_header_size + spill_trailer_size"

definition milena_spill_store_recover ::
  "string option \<Rightarrow> nat \<Rightarrow> nat \<Rightarrow> world \<Rightarrow> (MilenaStatus + spill_recovery) \<times> world"
where
  "milena_spill_store_recover path quota max_record w =
     (if spill_limits_bad path quota max_record then (Inl MILENA_ERR_ARGUMENT, w)
      else case fopen_read (the path) w of
        (Open_missing, w) \<Rightarrow> (Inr \<lparr>rc_records = 0, rc_bytes = 0, rc_discarded = 0, rc_truncated = False\<rparr>, w)
      | (Opened input, w) \<Rightarrow>
          (case milena_file_seek64 w of (ok, w) \<Rightarrow>
           if \<not> ok then (Inl MILENA_ERR_IO, snd (call_ok w))
           else case milena_file_tell64 (length (is_rest input)) w of
             (None, w) \<Rightarrow> (Inl MILENA_ERR_OVERFLOW, snd (call_ok w))
           | (Some end', w) \<Rightarrow>
               if end' > size_max then (Inl MILENA_ERR_OVERFLOW, snd (call_ok w))
               else case milena_file_seek64 w of (ok, w) \<Rightarrow>
               if \<not> ok then (Inl MILENA_ERR_IO, snd (call_ok w))
               else case scan_store quota max_record input w of (scan, input, w) \<Rightarrow>
               case call_ok w of (closed, w) \<Rightarrow>
               (case scan of
                  Inl e \<Rightarrow> (Inl e, w)
                | Inr (valid, records, bad_tail) \<Rightarrow>
                    if \<not> closed then (Inl MILENA_ERR_IO, w)
                    else
                      let discarded = (if end' \<ge> valid then end' - valid else 0);
                          truncated = (bad_tail \<and> discarded > 0);
                          recovery = \<lparr>rc_records = records, rc_bytes = valid, rc_discarded = discarded,
                                      rc_truncated = truncated\<rparr>
                      in if \<not> truncated then (Inr recovery, w)
                         else case replace_by_prefix (the path) valid w of (status, w) \<Rightarrow>
                           (if status = MILENA_OK then Inr recovery else Inl status, w)))
      | (_, w) \<Rightarrow> (Inl MILENA_ERR_IO, w))"

section \<open>Replay with a visitor\<close>

text \<open>
  One iteration of the loop of \<open>milena_spill_store_visit\<close> up to the call of the visitor.  The
  visitor is the caller's function on a payload, its index and a context of any type.
\<close>

definition visit_record ::
  "nat \<Rightarrow> nat \<Rightarrow> nat \<Rightarrow> in_stream \<Rightarrow> world \<Rightarrow> scan_result \<times> in_stream \<times> world"
where
  "visit_record quota max_record bytes_seen s w =
     (case fread spill_header_size s w of (header, s, w) \<Rightarrow>
      if header = [] then (if is_error s then Scan_error MILENA_ERR_IO else Scan_stop False, s, w)
      else if length header \<noteq> spill_header_size then (Scan_error MILENA_ERR_DATA, s, w)
      else
        let raw_length = unat (spill_get_u64 (drop 8 header))
        in if spill_header_bad header \<or> raw_length > size_max \<or> raw_length > max_record
           then (Scan_error MILENA_ERR_DATA, s, w)
           else case spill_record_end bytes_seen raw_length of
             None \<Rightarrow> (Scan_error MILENA_ERR_OVERFLOW, s, w)
           | Some end_offset \<Rightarrow>
              if end_offset > quota then (Scan_error MILENA_ERR_OVERFLOW, s, w)
              else (case malloc_ok raw_length w of (ok, w) \<Rightarrow>
               if \<not> ok then (Scan_error MILENA_ERR_MEMORY, s, w)
               else (case read_record s raw_length w of
                  (Inl _, s, w) \<Rightarrow> (Scan_error (if is_error s then MILENA_ERR_IO else MILENA_ERR_DATA), s, w)
                | (Inr payload, s, w) \<Rightarrow> (Scan_record payload end_offset, s, w))))"

lemma visit_record_rest:
  assumes "visit_record q m off s w = (r, s', w')"
  shows "\<exists>bs. is_rest s = bs @ is_rest s' \<and> (\<forall>p e. r = Scan_record p e \<longrightarrow> bs \<noteq> [])"
    and "w_files w' = w_files w"
  using assms fread_front(1) read_record_rest
  by (fastforce simp: visit_record_def Let_def io_simps split: prod.splits if_splits option.splits sum.splits)+

function visit_loop ::
  "nat \<Rightarrow> nat \<Rightarrow> (bytes \<Rightarrow> nat \<Rightarrow> 'c \<Rightarrow> MilenaStatus \<times> 'c) \<Rightarrow> nat \<Rightarrow> nat \<Rightarrow> 'c \<Rightarrow> in_stream \<Rightarrow> world \<Rightarrow>
     MilenaStatus \<times> 'c \<times> world"
where
  "visit_loop quota max_record visitor index bytes_seen context s w =
     (case visit_record quota max_record bytes_seen s w of
        (Scan_error e, s', w') \<Rightarrow> (e, context, w')
      | (Scan_stop _, s', w') \<Rightarrow> (MILENA_OK, context, w')
      | (Scan_record payload end_offset, s', w') \<Rightarrow>
          (case visitor payload index context of (status, context') \<Rightarrow>
           if status \<noteq> MILENA_OK then (status, context', w')
           else if index = size_max then (MILENA_ERR_OVERFLOW, context', w')
           else visit_loop quota max_record visitor (index + 1) end_offset context' s' w'))"
  by pat_completeness auto

termination
  by (relation "measure (\<lambda>(q, m, f, i, b, c, s, w). length (is_rest s))")
    (force dest!: sym [of "(_, _, _)"] visit_record_rest(1))+

declare visit_loop.simps [simp del]

definition milena_spill_store_visit ::
  "string option \<Rightarrow> nat \<Rightarrow> nat \<Rightarrow> (bytes \<Rightarrow> nat \<Rightarrow> 'c \<Rightarrow> MilenaStatus \<times> 'c) option \<Rightarrow> 'c \<Rightarrow> world \<Rightarrow>
     MilenaStatus \<times> 'c \<times> world"
where
  "milena_spill_store_visit path quota max_record visitor context w =
     (if path = None \<or> path = Some [] \<or> visitor = None then (MILENA_ERR_ARGUMENT, context, w)
      else case milena_spill_store_recover path quota max_record w of
        (Inl status, w) \<Rightarrow> (status, context, w)
      | (Inr _, w) \<Rightarrow>
          (case fopen_read (the path) w of
             (Opened s, w) \<Rightarrow>
               (case visit_loop quota max_record (the visitor) 0 0 context s w of (status, context, w) \<Rightarrow>
                case call_ok w of (closed, w) \<Rightarrow>
                (if \<not> closed \<and> status = MILENA_OK then MILENA_ERR_IO else status, context, w))
           | (Open_missing, w) \<Rightarrow> (MILENA_OK, context, w)
           | (_, w) \<Rightarrow> (MILENA_ERR_IO, context, w)))"

section \<open>The store\<close>

text \<open>\<open>fdopen\<close> after the exclusive \<open>open\<close>; when it fails the new file is removed.\<close>

definition spill_create_file_exclusive :: "string \<Rightarrow> world \<Rightarrow> out_stream opened \<times> world" where
  "spill_create_file_exclusive path w =
     (case fopen_new path w of
        (Opened out, w) \<Rightarrow> (case call_ok w of (ok, w) \<Rightarrow>
           if ok then (Opened out, w) else (Open_failed, unlink path (snd (call_ok w))))
      | (r, w) \<Rightarrow> (r, w))"

definition spill_closed :: spill_store where
  "spill_closed = \<lparr>st_file = None, st_path = None, st_quota = 0, st_max_record = 0, st_used = 0,
     st_count = 0, st_failed = False\<rparr>"

definition milena_spill_store_create_exclusive ::
  "string option \<Rightarrow> nat \<Rightarrow> nat \<Rightarrow> spill_store \<Rightarrow> world \<Rightarrow> MilenaStatus \<times> spill_store \<times> world"
where
  "milena_spill_store_create_exclusive path quota max_record store w =
     (if spill_limits_bad path quota max_record then (MILENA_ERR_ARGUMENT, store, w)
      else case spill_create_file_exclusive (the path) w of
        (Opened out, w) \<Rightarrow>
          (case malloc_ok (length (the path) + 1) w of (ok, w) \<Rightarrow>
           if \<not> ok then (case fflush out w of (_, _, w) \<Rightarrow> (MILENA_ERR_MEMORY, spill_closed, unlink (the path) w))
           else (MILENA_OK, \<lparr>st_file = Some out, st_path = path, st_quota = quota, st_max_record = max_record,
                              st_used = 0, st_count = 0, st_failed = False\<rparr>, w))
      | (Open_exists, w) \<Rightarrow> (MILENA_ERR_ARGUMENT, spill_closed, w)
      | (_, w) \<Rightarrow> (MILENA_ERR_IO, spill_closed, w))"

definition milena_spill_store_open ::
  "string option \<Rightarrow> nat \<Rightarrow> nat \<Rightarrow> spill_store \<Rightarrow> world \<Rightarrow> MilenaStatus \<times> spill_store \<times> world"
where
  "milena_spill_store_open path quota max_record store w =
     (if spill_limits_bad path quota max_record then (MILENA_ERR_ARGUMENT, store, w)
      else case milena_spill_store_recover path quota max_record w of
        (Inl status, w) \<Rightarrow> (status, store, w)
      | (Inr recovery, w) \<Rightarrow>
          (case fopen_append (the path) w of
             (Opened out, w) \<Rightarrow>
               (case malloc_ok (length (the path) + 1) w of (ok, w) \<Rightarrow>
                if \<not> ok then (case fflush out w of (_, _, w) \<Rightarrow> (MILENA_ERR_MEMORY, store, w))
                else (MILENA_OK, \<lparr>st_file = Some out, st_path = path, st_quota = quota, st_max_record = max_record,
                                   st_used = rc_bytes recovery, st_count = rc_records recovery, st_failed = False\<rparr>, w))
           | (_, w) \<Rightarrow> (MILENA_ERR_IO, store, w)))"

definition spill_header :: "nat \<Rightarrow> bytes" where
  "spill_header len = spill_magic @ spill_put_u32 spill_version @ spill_put_u64 (of_nat len)"

text \<open>The three writes and the flush of an append; each is reached only when the previous worked.\<close>

definition write_record :: "bytes \<Rightarrow> out_stream \<Rightarrow> world \<Rightarrow> bool \<times> out_stream \<times> world" where
  "write_record data s w =
     (case fwrite (spill_header (length data)) s w of (n, s, w) \<Rightarrow>
      if n \<noteq> spill_header_size then (False, s, w)
      else case (if data = [] then (0, s, w) else fwrite data s w) of (n, s, w) \<Rightarrow>
      if n \<noteq> length data then (False, s, w)
      else case fwrite (spill_put_u32 (spill_checksum data)) s w of (n, s, w) \<Rightarrow>
      if n \<noteq> spill_trailer_size then (False, s, w)
      else fflush s w)"

definition milena_spill_store_append ::
  "spill_store option \<Rightarrow> bytes option \<Rightarrow> nat \<Rightarrow> world \<Rightarrow> MilenaStatus \<times> spill_store option \<times> world"
where
  "milena_spill_store_append store data len w =
     (case store of None \<Rightarrow> (MILENA_ERR_ARGUMENT, store, w) | Some st \<Rightarrow>
      if st_file st = None \<or> st_failed st \<or> (len > 0 \<and> data = None) \<or> len > st_max_record st
      then (if st_failed st then MILENA_ERR_IO else MILENA_ERR_ARGUMENT, store, w)
      else case (if st_used st > st_quota st \<or> st_count st = size_max then None else spill_record_size len) of
        None \<Rightarrow> (MILENA_ERR_OVERFLOW, store, w)
      | Some size' \<Rightarrow>
          if size' > st_quota st - st_used st then (MILENA_ERR_OVERFLOW, store, w)
          else case write_record (if len = 0 then [] else take len (the data)) (the (st_file st)) w of (ok, s, w) \<Rightarrow>
            if ok then (MILENA_OK, Some (st\<lparr>st_file := Some s, st_used := st_used st + size',
                                            st_count := st_count st + 1\<rparr>), w)
            else (MILENA_ERR_IO, Some (st\<lparr>st_file := Some s, st_failed := True\<rparr>), w))"

definition milena_spill_store_close :: "spill_store option \<Rightarrow> world \<Rightarrow> MilenaStatus \<times> spill_store option \<times> world" where
  "milena_spill_store_close store w =
     (case store of None \<Rightarrow> (MILENA_ERR_ARGUMENT, store, w) | Some st \<Rightarrow>
      case st_file st of None \<Rightarrow> (MILENA_ERR_ARGUMENT, store, w) | Some s \<Rightarrow>
      (case fflush s w of (ok, s, w) \<Rightarrow>
       (if ok then MILENA_OK else MILENA_ERR_IO, Some (st\<lparr>st_path := None, st_file := None\<rparr>), w)))"

section \<open>The reader\<close>

definition milena_spill_reader_open ::
  "string option \<Rightarrow> nat \<Rightarrow> nat \<Rightarrow> spill_reader \<Rightarrow> world \<Rightarrow> MilenaStatus \<times> spill_reader \<times> world"
where
  "milena_spill_reader_open path quota max_record reader w =
     (if path = None \<or> path = Some [] \<or> max_record = 0 then (MILENA_ERR_ARGUMENT, reader, w)
      else case milena_spill_store_recover path quota max_record w of
        (Inl status, w) \<Rightarrow> (status, reader, w)
      | (Inr _, w) \<Rightarrow>
          (case fopen_read (the path) w of
             (Opened s, w) \<Rightarrow> (MILENA_OK, \<lparr>rd_file = Some s, rd_quota = quota, rd_max_record = max_record,
                                          rd_bytes = 0, rd_count = 0\<rparr>, w)
           | (_, w) \<Rightarrow> (MILENA_ERR_IO, reader, w)))"

text \<open>
  The payload is the one record delivered into a buffer of \<open>capacity\<close> bytes; \<open>Inr None\<close> is the end
  of the run (\<open>has_record\<close> false).
\<close>

definition milena_spill_reader_next ::
  "spill_reader option \<Rightarrow> bool \<Rightarrow> nat \<Rightarrow> world \<Rightarrow> (MilenaStatus + bytes option) \<times> spill_reader option \<times> world"
where
  "milena_spill_reader_next reader has_buffer capacity w =
     (case reader of None \<Rightarrow> (Inl MILENA_ERR_ARGUMENT, reader, w) | Some r \<Rightarrow>
      case rd_file r of None \<Rightarrow> (Inl MILENA_ERR_ARGUMENT, reader, w) | Some s \<Rightarrow>
      case fread spill_header_size s w of (header, s, w) \<Rightarrow>
      if header = [] then (if is_error s then Inl MILENA_ERR_IO else Inr None, Some (r\<lparr>rd_file := Some s\<rparr>), w)
      else if length header \<noteq> spill_header_size then (Inl MILENA_ERR_DATA, Some (r\<lparr>rd_file := Some s\<rparr>), w)
      else
        let raw_length = unat (spill_get_u64 (drop 8 header))
        in if spill_header_bad header \<or> raw_length > size_max \<or> raw_length > rd_max_record r
           then (Inl MILENA_ERR_DATA, Some (r\<lparr>rd_file := Some s\<rparr>), w)
           else case spill_record_end (rd_bytes r) raw_length of
             None \<Rightarrow> (Inl MILENA_ERR_OVERFLOW, Some (r\<lparr>rd_file := Some s\<rparr>), w)
           | Some next_bytes \<Rightarrow>
              if next_bytes > rd_quota r \<or> raw_length > capacity \<or> (raw_length > 0 \<and> \<not> has_buffer)
              then (Inl MILENA_ERR_OVERFLOW, Some (r\<lparr>rd_file := Some s\<rparr>), w)
              else case read_record s raw_length w of
                (Inl complete, s, w) \<Rightarrow> (Inl (if \<not> complete \<and> is_error s then MILENA_ERR_IO else MILENA_ERR_DATA),
                                          Some (r\<lparr>rd_file := Some s\<rparr>), w)
              | (Inr payload, s, w) \<Rightarrow>
                  if rd_count r = size_max then (Inl MILENA_ERR_OVERFLOW, Some (r\<lparr>rd_file := Some s\<rparr>), w)
                  else (Inr (Some payload),
                        Some (r\<lparr>rd_file := Some s, rd_bytes := next_bytes, rd_count := rd_count r + 1\<rparr>), w))"

definition milena_spill_reader_close :: "spill_reader option \<Rightarrow> world \<Rightarrow> MilenaStatus \<times> spill_reader option \<times> world" where
  "milena_spill_reader_close reader w =
     (case reader of None \<Rightarrow> (MILENA_ERR_ARGUMENT, reader, w) | Some r \<Rightarrow>
      case rd_file r of None \<Rightarrow> (MILENA_ERR_ARGUMENT, reader, w) | Some s \<Rightarrow>
      (case call_ok w of (ok, w) \<Rightarrow>
       (if ok then MILENA_OK else MILENA_ERR_IO, Some (r\<lparr>rd_file := None\<rparr>), w)))"

end
