(* ===== verification/SpillRecover.thy ===== *)
theory SpillRecover
  imports SpillStore "HOL-Library.Sublist"
begin

text \<open>
  The spill file as a run of records (\<open>spill_image\<close>), and what recovery does to it under every fault
  plan: the scan stops after complete records only, and the file is replaced, if at all, by that run.
\<close>

definition spill_frame :: "bytes \<Rightarrow> bytes" where
  "spill_frame p = spill_header (length p) @ p @ spill_put_u32 (spill_checksum p)"

definition spill_image :: "bytes list \<Rightarrow> bytes" where
  "spill_image ps = concat (map spill_frame ps)"

lemma spill_image_simps [simp]:
  "spill_image [] = []" "spill_image (p # ps) = spill_frame p @ spill_image ps"
  "spill_image (ps @ qs) = spill_image ps @ spill_image qs"
  by (simp_all add: spill_image_def)

lemma length_spill_header [simp]: "length (spill_header n) = 16"
  by (simp add: spill_header_def spill_magic_def ascii_def spill_put_u32_def spill_put_u64_def)

lemma length_spill_frame [simp]: "length (spill_frame p) = length p + 20"
  by (simp add: spill_frame_def spill_put_u32_def)

lemma spill_frame_not_Nil [simp]: "spill_frame p \<noteq> []"
  by (metis length_spill_frame add_is_0 list.size(3) zero_neq_numeral)

lemma spill_header_read:
  assumes "n \<le> size_max"
  shows "\<not> spill_header_bad (spill_header n)" and "unat (spill_get_u64 (drop 8 (spill_header n))) = n"
  using assms
  by (simp_all add: spill_header_bad_def spill_header_def spill_magic_def ascii_def spill_put_u32_def spill_put_u64_def
      spill_get_u32_def spill_get_u64_def get_le_put_le of_nat_unat_id size_max_def)

lemma spill_header_of:
  assumes "length h = 16" and "\<not> spill_header_bad h"
  shows "h = spill_header (unat (spill_get_u64 (drop 8 h)))"
proof -
  have m: "take 4 h = spill_magic" and v: "spill_get_u32 (drop 4 h) = spill_version"
    using assms(2) by (auto simp: spill_header_bad_def)
  have "take 4 (drop 4 h) = put_le 4 spill_version"
    using v get_le_eq_put_le [where 'a = 32 and n = 4 and bs = "drop 4 h" and w = spill_version] assms(1)
    by (simp add: spill_get_u32_def)
  moreover have "drop 8 h = put_le 8 (spill_get_u64 (drop 8 h))"
    using put_le_get_le [where 'a = 64 and n = 8 and bs = "drop 8 h"] assms(1) by (simp add: spill_get_u64_def)
  moreover have "h = take 4 h @ take 4 (drop 4 h) @ drop 8 h"
    using take_drop_split3 [of 4 8 h] by simp
  ultimately show ?thesis
    using m by (simp add: spill_header_def spill_put_u32_def spill_put_u64_def)
qed

lemma spill_record_end_eq:
  "off \<le> size_max \<Longrightarrow> spill_record_end off n = (if n + 20 + off \<le> size_max then Some (off + n + 20) else None)"
  by (auto simp: spill_record_end_def spill_record_size_def milena_size_add_def spill_header_size_def spill_trailer_size_def
      size_max_def split: if_splits)

lemma spill_record_end_Some: "spill_record_end off n = Some e \<Longrightarrow> e = off + n + 20"
  by (auto simp: spill_record_end_def spill_record_size_def milena_size_add_def spill_header_size_def spill_trailer_size_def
      split: option.splits if_splits)

section \<open>Reading under any faults\<close>

lemma read_exact_sound:
  assumes "read_exact s n w = (Some bs, s', w')"
  shows "is_rest s = bs @ is_rest s'" and "length bs = n" and "is_error s' = is_error s"
proof -
  have *: "is_rest s = bs @ is_rest s' \<and> length bs = n \<and> is_error s' = is_error s"
  proof (cases "n = 0")
    case False
    then obtain r where "fread n s w = (bs, s', w')" "length bs = n"
      using assms by (auto simp: read_exact_def split: prod.splits if_splits)
    then show ?thesis using False fread_front(1) fread_full by auto
  qed (use assms in \<open>auto simp: read_exact_def\<close>)
  then show "is_rest s = bs @ is_rest s'" and "length bs = n" and "is_error s' = is_error s" by simp_all
qed

lemma get_u32_put: "length t = 4 \<Longrightarrow> spill_get_u32 t = c \<longleftrightarrow> t = spill_put_u32 c"
  using get_le_eq_put_le [where 'a = 32 and n = 4 and bs = t and w = c]
  by (simp add: spill_get_u32_def spill_put_u32_def)

lemma read_record_sound:
  assumes "read_record s n w = (Inr p, s', w')"
  shows "is_rest s = p @ spill_put_u32 (spill_checksum p) @ is_rest s'" and "length p = n"
    and "is_error s' = is_error s"
proof -
  from assms obtain s1 w1 t where 1: "read_exact s n w = (Some p, s1, w1)"
    and 2: "read_exact s1 spill_trailer_size w1 = (Some t, s', w')" and c: "spill_checksum p = spill_get_u32 t"
    by (auto simp: read_record_def split: prod.splits option.splits if_splits)
  note 1 = read_exact_sound [OF 1] and 2 = read_exact_sound [OF 2]
  have "t = spill_put_u32 (spill_checksum p)"
    using get_u32_put [of t "spill_checksum p"] 2(2) c by (simp add: spill_trailer_size_def)
  then show "is_rest s = p @ spill_put_u32 (spill_checksum p) @ is_rest s'" and "length p = n"
    and "is_error s' = is_error s" using 1 2 by simp_all
qed

text \<open>Whatever is accepted as a record is a record.\<close>

lemma header_record_sound:
  assumes "fread spill_header_size s w = (h, s1, w1)" and "length h = spill_header_size" and "\<not> spill_header_bad h"
    and "read_record s1 (unat (spill_get_u64 (drop 8 h))) w2 = (Inr p, s', w')"
  shows "is_rest s = spill_frame p @ is_rest s'" and "length p = unat (spill_get_u64 (drop 8 h))"
    and "is_error s' = is_error s"
  using fread_front(1) [OF assms(1)] fread_full [OF assms(1,2)] spill_header_of [of h] assms(2,3)
    read_record_sound [OF assms(4)]
  by (simp_all add: spill_frame_def spill_header_size_def)

lemma scan_record_sound:
  assumes "scan_record q m off n s w = (Scan_record p e, s', w')"
  shows "is_rest s = spill_frame p @ is_rest s'" and "e = off + length (spill_frame p)" and "length p \<le> m"
    and "e \<le> q" and "n \<noteq> size_max" and "is_error s' = is_error s"
proof -
  from assms obtain h s1 w1 w2 where h: "fread spill_header_size s w = (h, s1, w1)" "length h = spill_header_size" "\<not> spill_header_bad h"
    and r: "read_record s1 (unat (spill_get_u64 (drop 8 h))) w2 = (Inr p, s', w')"
    and o': "unat (spill_get_u64 (drop 8 h)) \<le> m" "spill_record_end off (unat (spill_get_u64 (drop 8 h))) = Some e"
      "e \<le> q" "n \<noteq> size_max"
    by (auto simp: scan_record_def Let_def not_less split: prod.splits if_splits option.splits sum.splits)
  note s = header_record_sound [OF h r]
  show "is_rest s = spill_frame p @ is_rest s'" "is_error s' = is_error s" "length p \<le> m" using s o'(1) by simp_all
  show "e = off + length (spill_frame p)" "e \<le> q" "n \<noteq> size_max"
    using spill_record_end_Some [OF o'(2)] s(2) o'(3,4) by simp_all
qed

lemma scan_record_stop:
  assumes "scan_record q m off n s w = (Scan_stop bad, s', w')"
  shows "\<not> bad \<Longrightarrow> is_rest s = [] \<and> \<not> is_error s'"
  using assms fread_front(3) [of spill_header_size s w "[]"]
  by (auto simp: scan_record_def Let_def spill_header_size_def split: prod.splits if_splits option.splits sum.splits)

lemma scan_store_from_sound:
  assumes "scan_store_from q m off n s w = (Inr (v, k, bad), s', w')"
  shows "\<exists>ps tail. is_rest s = spill_image ps @ tail \<and> v = off + length (spill_image ps) \<and> k = n + length ps \<and>
    (\<forall>p \<in> set ps. length p \<le> m) \<and> (ps = [] \<or> v \<le> q) \<and> (\<not> bad \<longrightarrow> tail = []) \<and> w_files w' = w_files w"
  using assms
proof (induction q m off n s w arbitrary: s' rule: scan_store_from.induct)
  case (1 q m off n s w)
  obtain r s1 w1 where r: "scan_record q m off n s w = (r, s1, w1)" by (metis prod_cases3)
  note files = scan_record_rest(2) [OF r]
  show ?case
  proof (cases r)
    case (Scan_error e)
    then show ?thesis using "1.prems" r by (simp add: scan_store_from.simps)
  next
    case (Scan_stop b)
    then show ?thesis
      using "1.prems" r scan_record_stop [of q m off n s w b s1 w1] files
      by (auto simp: scan_store_from.simps intro!: exI [of _ "[]"])
  next
    case (Scan_record p e)
    then have rec: "scan_record q m off n s w = (Scan_record p e, s1, w1)" using r by simp
    have "scan_store_from q m e (n + 1) s1 w1 = (Inr (v, k, bad), s', w')"
      using "1.prems" rec by (simp add: scan_store_from.simps)
    from "1.IH" [OF rec [symmetric] refl refl this] obtain ps tail where
      "is_rest s1 = spill_image ps @ tail" "v = e + length (spill_image ps)" "k = n + 1 + length ps"
      "\<forall>p \<in> set ps. length p \<le> m" "ps = [] \<or> v \<le> q" "\<not> bad \<longrightarrow> tail = []" "w_files w' = w_files w1" by blast
    then show ?thesis
      using scan_record_sound [OF rec] files by (intro exI [of _ "p # ps"] exI [of _ tail]) auto
  qed
qed

section \<open>Records that are there\<close>

text \<open>A complete record is taken for a damaged tail only when a call failed.\<close>

lemma read_exact_later [run_intros]: "read_exact s n w = (r, s', w') \<Longrightarrow> later w w'"
  by (auto simp: read_exact_def dest!: fread_later split: if_splits prod.splits)

lemma read_exact_there:
  assumes "read_exact s n w = (r, s', w')" and "n \<le> length (is_rest s)"
  shows "failed_call w w' \<or> r = Some (take n (is_rest s)) \<and> is_rest s' = drop n (is_rest s)"
  using assms by (auto simp: read_exact_def dest: fread_failed split: if_splits prod.splits)

lemma read_record_later [run_intros]: "read_record s n w = (r, s', w') \<Longrightarrow> later w w'"
  by (auto simp: read_record_def dest!: read_exact_later intro: later_trans split: prod.splits option.splits)

lemma read_record_there:
  assumes "read_record s (length p) w = (r, s', w')" and "is_rest s = p @ spill_put_u32 (spill_checksum p) @ rest"
  shows "failed_call w w' \<or> r = Inr p"
proof -
  obtain r1 s1 w1 where 1: "read_exact s (length p) w = (r1, s1, w1)" by (metis prod_cases3)
  obtain r2 s2 w2 where 2: "read_exact s1 spill_trailer_size w1 = (r2, s2, w2)" by (metis prod_cases3)
  have w': "w' = (if r1 = None then w1 else w2)"
    using assms(1) 1 2 by (auto simp: read_record_def split: option.splits)
  show ?thesis
  proof (cases "failed_call w w1")
    case True
    then show ?thesis using failed_call_extend [of w w1 w w'] w' read_exact_later [OF 2] by (auto split: if_splits)
  next
    case False
    then have r1: "r1 = Some p" "is_rest s1 = spill_put_u32 (spill_checksum p) @ rest"
      using read_exact_there [OF 1] assms(2) by auto
    show ?thesis
    proof (cases "failed_call w1 w2")
      case True
      then show ?thesis using failed_call_extend [of w1 w2 w w'] w' read_exact_later [OF 1] r1 by auto
    next
      case False
      have "length (spill_put_u32 (spill_checksum p)) = 4" by (simp add: spill_put_u32_def)
      then have "r2 = Some (spill_put_u32 (spill_checksum p))"
        using read_exact_there [OF 2] r1(2) False by (simp add: spill_trailer_size_def)
      then show ?thesis
        using assms(1) 1 2 r1(1) get_u32_put [of "spill_put_u32 (spill_checksum p)" "spill_checksum p"]
        by (auto simp: read_record_def spill_put_u32_def)
    qed
  qed
qed

lemma scan_record_later [run_intros]: "scan_record q m off n s w = (r, s', w') \<Longrightarrow> later w w'"
  by (auto simp: scan_record_def Let_def dest!: fread_later malloc_ok_later read_record_later intro: later_trans
      split: prod.splits if_splits option.splits sum.splits)

lemma scan_record_there:
  assumes "scan_record q m off n s w = (Scan_stop bad, s', w')" and "is_rest s = spill_frame p @ rest"
    and "length p \<le> size_max"
  shows "failed_call w w'"
proof (rule ccontr)
  assume none: "\<not> failed_call w w'"
  obtain h s1 w1 where h: "fread spill_header_size s w = (h, s1, w1)" by (metis prod_cases3)
  have "later w1 w'"
    using assms(1) h by (auto simp: scan_record_def Let_def dest!: malloc_ok_later read_record_later intro: later_trans
      split: prod.splits if_splits option.splits sum.splits)
  then have "\<not> failed_call w w1" using none failed_call_extend [of w w1 w w'] by auto
  then have h': "h = spill_header (length p)" "is_rest s1 = p @ spill_put_u32 (spill_checksum p) @ rest"
    using fread_failed [OF h] assms(2) by (simp_all add: spill_frame_def spill_header_size_def)
  have "h \<noteq> []" "length h = spill_header_size" by (auto simp: h'(1) spill_header_size_def dest: arg_cong [of _ _ length])
  then obtain ok w2 r s2 where m: "malloc_ok (length p) w1 = (ok, w2)" "ok" and r: "read_record s1 (length p) w2 = (r, s2, w')" "\<not> isl r \<longrightarrow> False"
    using assms(1,3) h spill_header_read [OF assms(3)]
    by (auto simp: scan_record_def Let_def h'(1) split: prod.splits if_splits option.splits sum.splits)
  have "failed_call w2 w'" using read_record_there [OF r(1) h'(2)] r(2) by auto
  then show False
    using none failed_call_extend [of w2 w' w w'] fread_later [OF h] malloc_ok_later [OF m(1)] later_trans by auto
qed

lemma scan_store_from_later [run_intros]: "scan_store_from q m off n s w = (r, s', w') \<Longrightarrow> later w w'"
proof (induction q m off n s w rule: scan_store_from.induct)
  case (1 q m off n s w)
  obtain r1 s1 w1 where r: "scan_record q m off n s w = (r1, s1, w1)" by (metis prod_cases3)
  show ?case
  proof (cases r1)
    case (Scan_record p e)
    then show ?thesis
      using "1.IH" [OF r [symmetric] Scan_record refl] "1.prems" r scan_record_later [OF r] later_trans
      by (auto simp: scan_store_from.simps)
  qed (use "1.prems" r scan_record_later [OF r] in \<open>auto simp: scan_store_from.simps\<close>)
qed

definition starts_record :: "bytes \<Rightarrow> bool" where
  "starts_record bs \<longleftrightarrow> (\<exists>p rest. length p \<le> size_max \<and> bs = spill_frame p @ rest)"

lemma scan_store_from_there:
  assumes "scan_store_from q m off n s w = (Inr (v, k, bad), s', w')"
  shows "failed_call w w' \<or> \<not> starts_record (drop (v - off) (is_rest s))"
  using assms
proof (induction q m off n s w rule: scan_store_from.induct)
  case (1 q m off n s w)
  obtain r s1 w1 where r: "scan_record q m off n s w = (r, s1, w1)" by (metis prod_cases3)
  show ?case
  proof (cases r)
    case (Scan_record p e)
    then have rec: "scan_record q m off n s w = (Scan_record p e, s1, w1)" using r by simp
    have next': "scan_store_from q m e (n + 1) s1 w1 = (Inr (v, k, bad), s', w')"
      using "1.prems" rec by (simp add: scan_store_from.simps)
    have "e \<le> v" using scan_store_from_sound [OF next'] by auto
    then have "drop (v - off) (is_rest s) = drop (v - e) (is_rest s1)"
      using scan_record_sound(1,2) [OF rec] by simp
    then show ?thesis
      using "1.IH" [OF rec [symmetric] refl refl next'] failed_call_extend [of w1 w' w w'] scan_record_later [OF rec] by auto
  qed (use "1.prems" r scan_record_there [of q m off n s w _ s1 w1] in \<open>auto simp: scan_store_from.simps starts_record_def\<close>)
qed

section \<open>Writing under any faults\<close>

text \<open>Nothing changes but the file of the stream.\<close>

definition same_but :: "string \<Rightarrow> world \<Rightarrow> world \<Rightarrow> bool" where
  "same_but tmp w w' \<longleftrightarrow> (\<forall>q. q \<noteq> tmp \<longrightarrow> w_files w' q = w_files w q)"

lemma same_but_refl: "w_files w' = w_files w \<Longrightarrow> same_but tmp w w'"
  by (simp add: same_but_def)

lemma same_but_trans [trans]: "same_but tmp w w' \<Longrightarrow> same_but tmp w' w'' \<Longrightarrow> same_but tmp w w''"
  by (simp add: same_but_def)

lemma ask_same: "ask w = (f, w') \<Longrightarrow> w_files w' = w_files w"
  by (rule ask_files)

lemma fwrite_ok:
  assumes "fwrite bs out w = (length bs, out', w')" and "bs \<noteq> []"
  shows "out' = out\<lparr>os_pending := os_pending out @ bs\<rparr>" and "w_files w' = w_files w"
proof -
  have "length bs - 1 < length bs" using assms(2) by simp
  then have "w_fault w (w_tick w) = None"
    using assms(1) by (auto simp: fwrite_def ask_def min_def split: option.splits if_splits)
  then show "out' = out\<lparr>os_pending := os_pending out @ bs\<rparr>" and "w_files w' = w_files w"
    using assms(1) by (auto simp: fwrite_def ask_def)
qed

lemma fwrite_same:
  assumes "fwrite bs out w = (n, out', w')"
  shows "os_path out' = os_path out" and "same_but (os_path out) w w'"
  using assms by (auto simp: fwrite_def ask_def same_but_def split: option.splits)

lemma fflush_same:
  assumes "fflush out w = (b, out', w')"
  shows "os_path out' = os_path out" and "same_but (os_path out) w w'" and "os_pending out' = []"
  using assms by (auto simp: fflush_def ask_def same_but_def Let_def split: option.splits if_splits)

lemma fflush_ok:
  assumes "fflush out w = (True, out', w')"
  shows "file_bytes w' (os_path out) = file_bytes w (os_path out) @ os_pending out"
  using assms by (auto simp: fflush_def ask_def file_bytes_def Let_def split: option.splits if_splits)

lemma copy_prefix_same:
  assumes "copy_prefix left input out w = (b, input', out', w')"
  shows "os_path out' = os_path out \<and> same_but (os_path out) w w'"
  using assms
proof (induction left input out w rule: copy_prefix.induct)
  case (1 left input out w)
  show ?case
  proof (cases "left = 0")
    case True
    then show ?thesis using "1.prems" by (simp add: copy_prefix.simps same_but_refl)
  next
    case False
    define want where "want = (if left < copy_buffer_size then left else copy_buffer_size)"
    obtain bs i1 w1 where f: "fread want input w = (bs, i1, w1)" by (metis prod_cases3)
    obtain n o2 w2 where g: "fwrite bs out w1 = (n, o2, w2)" by (metis prod_cases3)
    have s1: "same_but (os_path out) w w1" using fread_files [OF f] by (rule same_but_refl)
    note s2 = fwrite_same [OF g]
    have step: "copy_prefix left input out w = (if length bs \<noteq> want then (False, i1, out, w1)
      else if n \<noteq> want then (False, i1, o2, w2) else copy_prefix (left - want) i1 o2 w2)"
      using False by (subst copy_prefix.simps) (simp add: want_def [symmetric] f g Let_def)
    show ?thesis
    proof (cases "length bs = want \<and> n = want")
      case True
      then have "copy_prefix (left - want) i1 o2 w2 = (b, input', out', w')" using step "1.prems" by simp
      moreover have "os_path out' = os_path o2 \<and> same_but (os_path o2) w2 w'"
        if "copy_prefix (left - want) i1 o2 w2 = (b, input', out', w')"
        using "1.IH" [OF False want_def f [symmetric] refl _ g [symmetric] refl] True that by simp
      ultimately show ?thesis using s1 s2 same_but_trans by metis
    next
      case False
      then show ?thesis using step "1.prems" s1 s2 same_but_trans by (auto split: if_splits)
    qed
  qed
qed

lemma copy_prefix_ok:
  assumes "copy_prefix left input out w = (True, input', out', w')"
  shows "out' = out\<lparr>os_pending := os_pending out @ take left (is_rest input)\<rparr> \<and> w_files w' = w_files w"
  using assms
proof (induction left input out w rule: copy_prefix.induct)
  case (1 left input out w)
  show ?case
  proof (cases "left = 0")
    case True
    then show ?thesis using "1.prems" by (simp add: copy_prefix.simps)
  next
    case False
    define want where "want = (if left < copy_buffer_size then left else copy_buffer_size)"
    have pos: "0 < want" "want \<le> left" using False by (auto simp: want_def copy_buffer_size_def)
    obtain bs i1 w1 where f: "fread want input w = (bs, i1, w1)" by (metis prod_cases3)
    obtain n o2 w2 where g: "fwrite bs out w1 = (n, o2, w2)" by (metis prod_cases3)
    have step: "copy_prefix left input out w = (if length bs \<noteq> want then (False, i1, out, w1)
      else if n \<noteq> want then (False, i1, o2, w2) else copy_prefix (left - want) i1 o2 w2)"
      using False by (subst copy_prefix.simps) (simp add: want_def [symmetric] f g Let_def)
    then have ok: "length bs = want" "n = want" and c: "copy_prefix (left - want) i1 o2 w2 = (True, input', out', w')"
      using "1.prems" by (auto split: if_splits)
    have o2: "o2 = out\<lparr>os_pending := os_pending out @ bs\<rparr>" "w_files w2 = w_files w1"
      using fwrite_ok [of bs out w1 o2 w2] g ok pos(1) by auto
    have "out' = o2\<lparr>os_pending := os_pending o2 @ take (left - want) (is_rest i1)\<rparr> \<and> w_files w' = w_files w2"
      using "1.IH" [OF False want_def f [symmetric] refl _ g [symmetric] refl] ok c by simp
    moreover have "take left (is_rest input) = bs @ take (left - want) (is_rest i1)"
      using fread_front(1) [OF f] ok(1) pos(2) by simp
    ultimately show ?thesis using o2 fread_files [OF f] by simp
  qed
qed

lemma open_recovered_new:
  assumes "open_recovered k path cap w = (Some (tmp, out), w')"
  shows "\<exists>serial. tmp = recover_name path (unat (w_pid w)) serial \<and> out = \<lparr>os_path = tmp, os_pending = []\<rparr> \<and>
    w_files w tmp = None \<and> w_files w' = (w_files w)(tmp := Some [])"
  using assms
proof (induction k arbitrary: w)
  case (Suc k)
  define w1 where "w1 = w\<lparr>w_serial := w_serial w + 1\<rparr>"
  define t where "t = recover_name path (unat (w_pid w1)) (unat (w_serial w1))"
  have w1: "w_files w1 = w_files w" "w_pid w1 = w_pid w" by (simp_all add: w1_def)
  obtain r w2 where r: "fopen_new t w1 = (r, w2)" by fastforce
  have step: "open_recovered (Suc k) path cap w =
     (if length t \<ge> cap then (None, w1) else case r of Opened out \<Rightarrow> (Some (t, out), w2)
        | Open_exists \<Rightarrow> open_recovered k path cap w2 | _ \<Rightarrow> (None, w2))"
    using r by (simp add: Let_def w1_def t_def split: opened.splits)
  show ?case
  proof (cases r)
    case (Opened o')
    then have "tmp = t" "out = o'" "w' = w2" using step Suc.prems by (auto split: if_splits)
    moreover have "o' = \<lparr>os_path = t, os_pending = []\<rparr> \<and> w_files w t = None \<and> w_files w2 = (w_files w)(t := Some [])"
      using r Opened w1 by (auto simp: fopen_new_def ask_def set_file_def split: option.splits if_splits)
    ultimately show ?thesis using w1(2) by (auto simp: t_def)
  next
    case Open_exists
    then have "open_recovered k path cap w2 = (Some (tmp, out), w')" using step Suc.prems by (auto split: if_splits)
    moreover have "w_files w2 = w_files w" "w_pid w2 = w_pid w"
      using r Open_exists w1 by (auto simp: fopen_new_def ask_def split: option.splits if_splits)
    ultimately show ?thesis using Suc.IH [of w2] by simp
  qed (use step Suc.prems in \<open>auto split: if_splits\<close>)
qed simp

lemma open_recovered_none:
  assumes "open_recovered k path cap w = (None, w')"
  shows "w_files w' = w_files w"
  using assms
proof (induction k arbitrary: w)
  case (Suc k)
  define w1 where "w1 = w\<lparr>w_serial := w_serial w + 1\<rparr>"
  define t where "t = recover_name path (unat (w_pid w1)) (unat (w_serial w1))"
  have w1: "w_files w1 = w_files w" by (simp add: w1_def)
  obtain r w2 where r: "fopen_new t w1 = (r, w2)" by fastforce
  have step: "open_recovered (Suc k) path cap w =
     (if length t \<ge> cap then (None, w1) else case r of Opened out \<Rightarrow> (Some (t, out), w2)
        | Open_exists \<Rightarrow> open_recovered k path cap w2 | _ \<Rightarrow> (None, w2))"
    using r by (simp add: Let_def w1_def t_def split: opened.splits)
  have "\<nexists>o'. r = Opened o' \<Longrightarrow> w_files w2 = w_files w1"
    using r by (auto simp: fopen_new_def ask_def split: option.splits if_splits)
  then show ?case using step Suc.prems Suc.IH [of w2] w1 by (cases r) (auto split: if_splits)
qed simp

text \<open>
  Files that existed before keep their content, apart from the one at \<open>path\<close>.
\<close>

definition others_kept :: "string \<Rightarrow> world \<Rightarrow> world \<Rightarrow> bool" where
  "others_kept path w w' \<longleftrightarrow> (\<forall>q. q \<noteq> path \<longrightarrow> w_files w q \<noteq> None \<longrightarrow> w_files w' q = w_files w q)"

lemma others_kept_files: "w_files w' = w_files w \<Longrightarrow> others_kept path w w'"
  by (simp add: others_kept_def)

lemma unlink_same: "same_but tmp w (unlink tmp w)"
  by (auto simp: unlink_def call_ok_def ask_def same_but_def)

lemma recover_name_neq: "recover_name path pid serial \<noteq> path"
proof
  assume "recover_name path pid serial = path"
  then have "length (recover_name path pid serial) = length path" by simp
  then show False by (simp add: recover_name_def)
qed

lemma rename_files:
  assumes "rename old new w = (b, w')" and "old \<noteq> new"
  shows "if b then w_files w' = (w_files w)(new := w_files w old, old := None) \<and> w_files w old \<noteq> None
         else w_files w' = w_files w"
  using assms by (auto simp: rename_def ask_def set_file_def split: option.splits)

lemma replace_by_prefix_spec:
  assumes r: "replace_by_prefix path v w = (st, w')" and c: "w_files w path = Some c"
  shows "w_files w' path = (if st = MILENA_OK then Some (take v c) else Some c) \<and> others_kept path w w'"
proof -
  have fail: "w_files w' path = (if st = MILENA_OK then Some (take v c) else Some c) \<and> others_kept path w w'"
    if "w_files w' = w_files w" "st \<noteq> MILENA_OK" using that c by (simp add: others_kept_def)
  obtain ok w1 where m: "malloc_ok (length path + 80) w = (ok, w1)" by fastforce
  obtain o' w2 where o': "open_recovered 16 path (length path + 80) w1 = (o', w2)" by fastforce
  note f1 = malloc_ok_files [OF m]
  show ?thesis
  proof (cases "length path > size_max - 80 \<or> \<not> ok \<or> o' = None")
    case True
    have "o' = None \<Longrightarrow> w_files w2 = w_files w1" using o' open_recovered_none by simp
    then show ?thesis
      using r m o' f1 True by (intro fail) (auto simp: replace_by_prefix_def split: if_splits option.splits)
  next
    case False
    then obtain tmp out where some: "o' = Some (tmp, out)" by auto
    obtain serial where tmp: "tmp = recover_name path (unat (w_pid w1)) serial" and out: "out = \<lparr>os_path = tmp, os_pending = []\<rparr>"
      and new: "w_files w tmp = None" and f2: "w_files w2 = (w_files w)(tmp := Some [])"
      using open_recovered_new [of 16 path "length path + 80" w1 tmp out w2] o' some f1 by auto
    have neq: "tmp \<noteq> path" by (simp add: tmp recover_name_neq)
    have kept: "w_files w'' path = Some c \<and> others_kept path w w''" if "same_but tmp w2 w''" for w''
    proof -
      have "q \<noteq> tmp" if "w_files w q \<noteq> None" for q using new that by auto
      then show ?thesis using that neq c f2 by (auto simp: same_but_def others_kept_def)
    qed
    obtain i w3 where i: "fopen_read path w2 = (i, w3)" by fastforce
    note f3 = fopen_read_files [OF i]
    show ?thesis
    proof (cases "\<exists>input. i = Opened input")
      case False
      obtain b o1 w4 where fl: "fflush out w3 = (b, o1, w4)" by (metis prod_cases3)
      have "w' = unlink tmp w4 \<and> st = MILENA_ERR_IO"
        using r m o' some i fl False \<open>\<not> (length path > size_max - 80 \<or> \<not> ok \<or> o' = None)\<close>
        by (auto simp: replace_by_prefix_def split: opened.splits)
      moreover have "same_but tmp w2 (unlink tmp w4)"
        using fflush_same(2) [OF fl] f3 unlink_same same_but_trans same_but_refl out by (metis out_stream.select_convs(1))
      ultimately show ?thesis using kept by simp
    next
      case True
      then obtain input where input: "i = Opened input" by blast
      have rest: "is_rest input = c"
        using i input c f2 neq by (auto simp: fopen_read_def ask_def split: option.splits)
      obtain cp i2 o2 w4 where cp: "copy_prefix v input out w3 = (cp, i2, o2, w4)" by (metis prod_cases4)
      obtain ic w5 where ic: "call_ok w4 = (ic, w5)" by fastforce
      obtain oc o3 w6 where oc: "fflush o2 w5 = (oc, o3, w6)" by (metis prod_cases3)
      define b where "b = (cp \<and> ic \<and> oc)"
      obtain rn w7 where rn: "(if b then rename tmp path w6 else (False, w6)) = (rn, w7)" by fastforce
      have res: "(st, w') = (if rn then (MILENA_OK, w7) else (MILENA_ERR_IO, unlink tmp w7))"
        using r m o' some i input cp ic oc rn \<open>\<not> (length path > size_max - 80 \<or> \<not> ok \<or> o' = None)\<close>
        by (auto simp: replace_by_prefix_def b_def split: bool.splits)
      have same: "same_but tmp w2 w6"
        using f3 copy_prefix_same [OF cp] call_ok_files [OF ic] fflush_same(2) [OF oc] out
        by (auto simp: same_but_def)
      show ?thesis
      proof (cases rn)
        case True
        then have b: b and ren: "rename tmp path w6 = (True, w7)" using rn by (auto split: if_splits)
        have copied: "o2 = out\<lparr>os_pending := take v c\<rparr>" "w_files w4 = w_files w3"
          using copy_prefix_ok [of v input out w3 i2 o2 w4] cp b out rest by (simp_all add: b_def)
        have "file_bytes w6 tmp = file_bytes w5 tmp @ take v c"
          using fflush_ok [of o2 w5 o3 w6] oc b copied(1) out by (simp add: b_def)
        moreover have "file_bytes w5 tmp = []"
          using copied(2) f3 f2 call_ok_files [OF ic] by (simp add: file_bytes_def)
        moreover have w7: "w_files w7 = (w_files w6)(path := w_files w6 tmp, tmp := None)" "w_files w6 tmp \<noteq> None"
          using rename_files [OF ren neq] by simp_all
        ultimately have "w_files w7 path = Some (take v c)" using neq by (auto simp: file_bytes_def)
        moreover have "others_kept path w w7"
          using same w7 f2 new by (auto simp: same_but_def others_kept_def)
        ultimately show ?thesis using res True by simp
      next
        case False
        have "w_files w7 = w_files w6"
          using rn False rename_files [OF _ neq, of w6 False w7] by (auto split: if_splits)
        then have "same_but tmp w2 (unlink tmp w7)"
          using same unlink_same same_but_trans same_but_refl by metis
        then show ?thesis using res False kept by simp
      qed
    qed
  qed
qed

lemma scan_store_from_files: "scan_store_from q m off n s w = (r, s', w') \<Longrightarrow> w_files w' = w_files w"
proof (induction q m off n s w rule: scan_store_from.induct)
  case (1 q m off n s w)
  obtain r1 s1 w1 where r: "scan_record q m off n s w = (r1, s1, w1)" by (metis prod_cases3)
  show ?case
  proof (cases r1)
    case (Scan_record p e)
    then show ?thesis
      using "1.IH" [OF r [symmetric] Scan_record refl] "1.prems" r scan_record_rest(2) [OF r]
      by (simp add: scan_store_from.simps)
  qed (use "1.prems" r scan_record_rest(2) [OF r] in \<open>auto simp: scan_store_from.simps\<close>)
qed

lemma open_recovered_later [run_intros]: "open_recovered k path cap w = (r, w') \<Longrightarrow> later w w'"
proof (induction k arbitrary: w)
  case (Suc k)
  define w1 where "w1 = w\<lparr>w_serial := w_serial w + 1\<rparr>"
  define t where "t = recover_name path (unat (w_pid w1)) (unat (w_serial w1))"
  have w1: "later w w1" by (simp add: w1_def later_def)
  obtain o' w2 where o': "fopen_new t w1 = (o', w2)" by fastforce
  have "later w w2" using w1 fopen_new_later [OF o'] by (rule later_trans)
  moreover have "open_recovered (Suc k) path cap w =
     (if length t \<ge> cap then (None, w1) else case o' of Opened out \<Rightarrow> (Some (t, out), w2)
      | Open_exists \<Rightarrow> open_recovered k path cap w2 | _ \<Rightarrow> (None, w2))"
    using o' by (simp add: Let_def w1_def t_def split: opened.splits)
  then have "w' = w1 \<or> w' = w2 \<or> open_recovered k path cap w2 = (r, w')"
    using Suc.prems by (auto split: if_splits opened.splits)
  ultimately show ?case using w1 Suc.IH [of w2] later_trans by blast
qed simp

lemma copy_prefix_later [run_intros]: "copy_prefix left input out w = (b, input', out', w') \<Longrightarrow> later w w'"
proof (induction left input out w rule: copy_prefix.induct)
  case (1 left input out w)
  show ?case
  proof (cases "left = 0")
    case True
    then show ?thesis using "1.prems" by (simp add: copy_prefix.simps)
  next
    case False
    define want where "want = (if left < copy_buffer_size then left else copy_buffer_size)"
    obtain bs i1 w1 where f: "fread want input w = (bs, i1, w1)" by (metis prod_cases3)
    obtain n o2 w2 where g: "fwrite bs out w1 = (n, o2, w2)" by (metis prod_cases3)
    have s: "later w w1" "later w w2" using fread_later [OF f] fwrite_later [OF g] later_trans by blast+
    have step: "copy_prefix left input out w = (if length bs \<noteq> want then (False, i1, out, w1)
      else if n \<noteq> want then (False, i1, o2, w2) else copy_prefix (left - want) i1 o2 w2)"
      using False by (subst copy_prefix.simps) (simp add: want_def [symmetric] f g Let_def)
    show ?thesis
    proof (cases "length bs = want \<and> n = want")
      case True
      then have "copy_prefix (left - want) i1 o2 w2 = (b, input', out', w')" using step "1.prems" by simp
      then show ?thesis
        using "1.IH" [OF False want_def f [symmetric] refl _ g [symmetric] refl] True s(2) later_trans by blast
    next
      case False
      then show ?thesis using step "1.prems" s by (auto split: if_splits)
    qed
  qed
qed

lemma replace_by_prefix_later [run_intros]: "replace_by_prefix path v w = (st, w') \<Longrightarrow> later w w'"
  by (auto simp: replace_by_prefix_def dest!: malloc_ok_later open_recovered_later fopen_read_later copy_prefix_later
      call_ok_later fflush_later rename_later intro: order_trans [OF _ unlink_later [unfolded later_def, THEN conjunct2]]
      simp: later_def unlink_later [unfolded later_def, THEN conjunct1]
      split: if_splits prod.splits option.splits opened.splits bool.splits)

lemma recover_run:
  assumes "milena_spill_store_recover (Some path) quota max_record w = (res, w')" and "w_files w path = Some c"
  shows "\<exists>ps tail. c = spill_image ps @ tail \<and> (w_files w' path = Some c \<or> w_files w' path = Some (spill_image ps)) \<and>
    (\<forall>q. q \<noteq> path \<longrightarrow> w_files w q \<noteq> None \<longrightarrow> w_files w' q = w_files w q) \<and>
    (case res of Inl e \<Rightarrow> w_files w' path = Some c
     | Inr rc \<Rightarrow> w_files w' path = Some (spill_image ps) \<and> rc_records rc = length ps \<and>
         rc_bytes rc = length (spill_image ps) \<and> rc_discarded rc = length tail \<and> list_all (\<lambda>p. length p \<le> max_record) ps \<and>
         (starts_record tail \<longrightarrow> failed_call w w'))"
proof (cases "spill_limits_bad (Some path) quota max_record")
  case True
  then show ?thesis using assms by (auto simp: milena_spill_store_recover_def intro!: exI [of _ "[]"] exI [of _ c])
next
  case False
  have fail: ?thesis if "w_files w' = w_files w" "res = Inl e" for e
    using that assms(2) by (auto intro!: exI [of _ "[]"] exI [of _ c])
  obtain i w1 where i: "fopen_read path w = (i, w1)" by fastforce
  note f1 = fopen_read_files [OF i]
  show ?thesis
  proof (cases "\<exists>input. i = Opened input")
    case False
    have "i \<noteq> Open_missing"
      using i assms(2) by (auto simp: fopen_read_def ask_def split: option.splits)
    then have "res = Inl MILENA_ERR_IO" "w' = w1"
      using assms(1) i False \<open>\<not> spill_limits_bad (Some path) quota max_record\<close>
      by (cases i; simp add: milena_spill_store_recover_def)+
    then show ?thesis using fail f1 by simp
  next
    case True
    then obtain input where input: "i = Opened input" by blast
    have rest: "is_rest input = c"
      using i input assms(2) by (auto simp: fopen_read_def ask_def split: option.splits)
    obtain ok1 w2 where s1: "milena_file_seek64 w1 = (ok1, w2)" by fastforce
    obtain t w3 where t: "milena_file_tell64 (length c) w2 = (t, w3)" by fastforce
    obtain ok2 w4 where s2: "milena_file_seek64 w3 = (ok2, w4)" by fastforce
    obtain sc i2 w5 where sc: "scan_store quota max_record input w4 = (sc, i2, w5)" by (metis prod_cases3)
    obtain cl w6 where cl: "call_ok w5 = (cl, w6)" by fastforce
    note f = f1 seek_files [OF s1] tell_files [OF t] seek_files [OF s2]
    have close: "w_files (snd (call_ok u)) = w_files u" for u using call_ok_files [of u] by (cases "call_ok u") simp
    have len: "t = Some n \<Longrightarrow> n = length c" for n
      using t by (auto simp: milena_file_tell64_def split: prod.splits if_splits)
    have f5: "w_files w6 = w_files w"
      using f scan_store_from_files [OF sc [unfolded scan_store_def]] call_ok_files [OF cl] by simp
    define good where "good end' a = (case a of (valid, records, bad) \<Rightarrow>
      let d = (if end' \<ge> valid then end' - valid else 0); tr = (bad \<and> d > 0);
          rc = \<lparr>rc_records = records, rc_bytes = valid, rc_discarded = d, rc_truncated = tr\<rparr>
      in if \<not> tr then (Inr rc, w6)
         else case replace_by_prefix path valid w6 of (status, w) \<Rightarrow>
           (if status = MILENA_OK then Inr rc else Inl status, w))" for end' :: nat and a
    have eq: "(res, w') =
      (if \<not> ok1 then (Inl MILENA_ERR_IO, snd (call_ok w2))
       else case t of None \<Rightarrow> (Inl MILENA_ERR_OVERFLOW, snd (call_ok w3))
       | Some end' \<Rightarrow>
         if end' > size_max then (Inl MILENA_ERR_OVERFLOW, snd (call_ok w3))
         else if \<not> ok2 then (Inl MILENA_ERR_IO, snd (call_ok w4))
         else case sc of Inl e \<Rightarrow> (Inl e, w6)
         | Inr a \<Rightarrow> if \<not> cl then (Inl MILENA_ERR_IO, w6) else good end' a)"
      unfolding assms(1) [symmetric] milena_spill_store_recover_def option.sel
      using False i input rest s1 t s2 sc cl by (cases t; cases sc; cases "projr sc") (simp_all add: good_def)
    show ?thesis
    proof (cases "ok1 \<and> t = Some (length c) \<and> length c \<le> size_max \<and> ok2 \<and> cl \<and> \<not> isl sc")
      case False
      have tc: "t = None \<or> t = Some (length c)" using len by (cases t) auto
      have "\<exists>e. res = Inl e \<and> (w' = snd (call_ok w2) \<or> w' = snd (call_ok w3) \<or> w' = snd (call_ok w4) \<or> w' = w6)"
        using tc
      proof
        assume "t = None"
        then show ?thesis using eq by (cases ok1) simp_all
      next
        assume "t = Some (length c)"
        then show ?thesis
          using eq False by (cases ok1; cases "size_max < length c"; cases ok2; cases sc; cases cl) simp_all
      qed
      then obtain e where e: "res = Inl e" and w': "w' = snd (call_ok w2) \<or> w' = snd (call_ok w3) \<or> w' = snd (call_ok w4) \<or> w' = w6"
        by blast
      have "w_files w' = w_files w" using w' by (elim disjE) (simp_all add: close f f5)
      then show ?thesis using e by (rule fail)
    next
      case True
      then obtain valid records bad where a: "sc = Inr (valid, records, bad)" by (cases sc) auto
      have sf: "scan_store_from quota max_record 0 0 input w4 = (Inr (valid, records, bad), i2, w5)"
        using sc a by (simp add: scan_store_def)
      from scan_store_from_sound [OF sc [unfolded scan_store_def a]] obtain ps tail where
        ps: "c = spill_image ps @ tail" "valid = length (spill_image ps)" "records = length ps" "\<not> bad \<longrightarrow> tail = []"
          and short: "\<forall>p \<in> set ps. length p \<le> max_record"
        using rest by auto
      have before: "later w w4"
        using fopen_read_later [OF i] seek_later [OF s1] tell_later [OF t] seek_later [OF s2] later_trans by metis
      have after: "later w5 w6" using call_ok_later [OF cl] .
      have dropped: "failed_call w w''" if "starts_record tail" "later w6 w''" for w''
        using scan_store_from_there [OF sf] ps(1,2) rest that before after later_trans failed_call_extend by (metis append_eq_conv_conj diff_zero)
      define rc where "rc = \<lparr>rc_records = records, rc_bytes = valid, rc_discarded = length tail,
        rc_truncated = (bad \<and> length tail > 0)\<rparr>"
      have d: "(if valid \<le> length c then length c - valid else 0) = length tail" using ps(1,2) by simp
      have "(res, w') = good (length c) (valid, records, bad)" using eq True a by simp
      then have eq2: "(res, w') = (if \<not> (bad \<and> length tail > 0) then (Inr rc, w6)
          else case replace_by_prefix path valid w6 of (status, w) \<Rightarrow>
            (if status = MILENA_OK then Inr rc else Inl status, w))"
        unfolding good_def prod.case Let_def d rc_def .
      show ?thesis
      proof (cases "bad \<and> length tail > 0")
        case False
        then have "tail = []" using ps(4) by auto
        then show ?thesis
          using eq2 False f5 assms(2) ps short dropped [of w6] by (auto simp: rc_def list_all_iff intro!: exI [of _ ps])
      next
        case True
        obtain st w7 where rp: "replace_by_prefix path valid w6 = (st, w7)" by fastforce
        have "w_files w6 path = Some c" using f5 assms(2) by simp
        note spec = replace_by_prefix_spec [OF rp this]
        have "others_kept path w w7" using spec f5 by (simp add: others_kept_def)
        then show ?thesis
          using eq2 True rp spec ps short dropped [OF _ replace_by_prefix_later [OF rp]]
          by (intro exI [of _ ps] exI [of _ tail]) (auto simp: rc_def others_kept_def list_all_iff)
      qed
    qed
  qed
qed

lemma recover_preserves:
  assumes "milena_spill_store_recover (Some path) quota max_record w = (res, w')" and "w_files w path = Some c"
  shows "\<exists>ps tail. c = spill_image ps @ tail \<and> (w_files w' path = Some c \<or> w_files w' path = Some (spill_image ps)) \<and>
    (\<forall>q. q \<noteq> path \<longrightarrow> w_files w q \<noteq> None \<longrightarrow> w_files w' q = w_files w q) \<and>
    (case res of Inl e \<Rightarrow> w_files w' path = Some c
     | Inr rc \<Rightarrow> w_files w' path = Some (spill_image ps) \<and> rc_records rc = length ps \<and>
         rc_bytes rc = length (spill_image ps) \<and> rc_discarded rc = length tail \<and> list_all (\<lambda>p. length p \<le> max_record) ps)"
  using recover_run [OF assms] by (cases res) (fastforce)+



end
