(* ===== verification/SpillCalm.thy ===== *)
theory SpillCalm
  imports SpillRecover
begin

text \<open>
  Recovery in a world where nothing fails: it completes, and a torn last record is all it removes.
\<close>

section \<open>Without faults\<close>

definition calm_step :: "world \<Rightarrow> world \<Rightarrow> bool" where
  "calm_step w w' \<longleftrightarrow> calm w' \<and> w_files w' = w_files w \<and> w_serial w' = w_serial w \<and> w_pid w' = w_pid w"

lemma calm_stepI: "calm w \<Longrightarrow> calm_step w (tick w)" "calm_step w w' \<Longrightarrow> calm_step w (tick w')"
  by (simp_all add: calm_step_def)

lemma calm_step_trans: "calm_step w w' \<Longrightarrow> calm_step w' w'' \<Longrightarrow> calm_step w w''"
  by (simp add: calm_step_def)

lemma malloc_calm: "calm w \<Longrightarrow> \<exists>w'. malloc_ok n w = (True, w') \<and> calm_step w w'"
  using calm_malloc by (auto simp: calm_step_def)

lemma read_exact_calm:
  assumes "calm w"
  shows "\<exists>s' w'. read_exact s n w = (if n \<le> length (is_rest s) then Some (take n (is_rest s)) else None, s', w') \<and> calm_step w w' \<and>
    s' = s\<lparr>is_rest := drop n (is_rest s)\<rparr>"
  using assms by (auto simp: read_exact_def calm_calls calm_step_def min_def)

lemma read_record_calm:
  assumes "calm w" and "is_rest s = p @ spill_put_u32 (spill_checksum p) @ rest"
  shows "\<exists>w'. read_record s (length p) w = (Inr p, s\<lparr>is_rest := rest\<rparr>, w') \<and> calm_step w w'"
proof -
  obtain s1 w1 where 1: "read_exact s (length p) w = (Some p, s1, w1)" "calm_step w w1"
    "s1 = s\<lparr>is_rest := spill_put_u32 (spill_checksum p) @ rest\<rparr>"
    using read_exact_calm [OF assms(1), of s "length p"] assms(2) by auto
  have l: "length (spill_put_u32 c) = 4" for c by (simp add: spill_put_u32_def)
  obtain s2 w2 where "read_exact s1 spill_trailer_size w1 = (Some (spill_put_u32 (spill_checksum p)), s2, w2)"
    "calm_step w1 w2" "s2 = s\<lparr>is_rest := rest\<rparr>"
    using read_exact_calm [of w1 s1 spill_trailer_size] 1(2,3) l by (auto simp: calm_step_def spill_trailer_size_def)
  then show ?thesis
    using 1 l get_u32_put [of "spill_put_u32 (spill_checksum p)" "spill_checksum p"] calm_step_trans
    by (auto simp: read_record_def)
qed

lemma read_record_short:
  assumes "calm w" and "length (is_rest s) < n + 4"
  shows "\<exists>s' w'. read_record s n w = (Inl False, s', w') \<and> calm_step w w' \<and> is_error s' = is_error s"
proof (cases "n \<le> length (is_rest s)")
  case False
  then show ?thesis using read_exact_calm [OF assms(1), of s n] by (auto simp: read_record_def)
next
  case True
  obtain s1 w1 where 1: "read_exact s n w = (Some (take n (is_rest s)), s1, w1)" "calm_step w w1"
    "s1 = s\<lparr>is_rest := drop n (is_rest s)\<rparr>"
    using read_exact_calm [OF assms(1), of s n] True by auto
  obtain s2 w2 where "read_exact s1 spill_trailer_size w1 = (None, s2, w2)" "calm_step w1 w2" "is_error s2 = is_error s"
    using read_exact_calm [of w1 s1 spill_trailer_size] 1(2,3) assms(2) True by (auto simp: calm_step_def spill_trailer_size_def)
  then show ?thesis using 1 calm_step_trans by (auto simp: read_record_def)
qed

lemma scan_record_calm:
  assumes "calm w" and "is_rest s = spill_frame p @ rest" and "length p \<le> m" and "off + length (spill_frame p) \<le> q"
    and "q \<le> size_max" and "n \<noteq> size_max"
  shows "\<exists>w'. scan_record q m off n s w = (Scan_record p (off + length (spill_frame p)), s\<lparr>is_rest := rest\<rparr>, w') \<and> calm_step w w'"
proof -
  define s1 where "s1 = s\<lparr>is_rest := p @ spill_put_u32 (spill_checksum p) @ rest\<rparr>"
  have f: "fread spill_header_size s w = (spill_header (length p), s1, tick w)"
    using assms(1,2) by (simp add: calm_calls spill_frame_def s1_def spill_header_size_def)
  obtain w2 where m: "malloc_ok (length p) (tick w) = (True, w2)" "calm_step (tick w) w2"
    using malloc_calm [of "tick w"] assms(1) by auto
  have s1: "is_rest s1 = p @ spill_put_u32 (spill_checksum p) @ rest" and c2: "calm w2"
    using m(2) by (simp_all add: s1_def calm_step_def)
  obtain w3 where r: "read_record s1 (length p) w2 = (Inr p, s1\<lparr>is_rest := rest\<rparr>, w3)" "calm_step w2 w3"
    using read_record_calm [OF c2 s1] by blast
  have e: "spill_record_end off (length p) = Some (off + length p + 20)"
    using assms(4,5) spill_record_end_eq [of off "length p"] by simp
  have hd: "spill_header (length p) \<noteq> []" "length (spill_header (length p)) = spill_header_size" "length p \<le> size_max"
    using length_spill_header [of "length p"] assms(4,5) by (auto simp: spill_header_size_def simp del: length_spill_header)
  have "calm_step w w3" using m(2) r(2) by (simp add: calm_step_def)
  then show ?thesis
    using hd spill_header_read [OF hd(3)] assms(3,4,6) e m(1) r(1)
    by (simp add: scan_record_def f s1_def)
qed

text \<open>A tail that an interrupted append can leave: part of a record, but not all of it.\<close>

definition torn :: "nat \<Rightarrow> bytes \<Rightarrow> bool" where
  "torn m t \<longleftrightarrow> (\<exists>p. length p \<le> m \<and> strict_prefix t (spill_frame p))"

lemma scan_record_torn:
  assumes "calm w" and "torn m (is_rest s)" and "off + m + 20 \<le> size_max" and "\<not> is_error s"
  shows "\<exists>s' w'. scan_record q m off n s w = (Scan_stop (is_rest s \<noteq> []), s', w') \<and> calm_step w w'"
proof -
  from assms(2) obtain p where p: "length p \<le> m" "prefix (is_rest s) (spill_frame p)" "is_rest s \<noteq> spill_frame p"
    by (auto simp: torn_def strict_prefix_def)
  have l: "length (is_rest s) < length p + 20"
    using p(2,3) prefix_length_less [of "is_rest s" "spill_frame p"] by (simp add: strict_prefix_def)
  show ?thesis
  proof (cases "length (is_rest s) < 16")
    case True
    then show ?thesis using assms(1,4)
      by (auto simp: scan_record_def calm_calls spill_header_size_def calm_step_def)
  next
    case False
    define h where "h = take 16 (is_rest s)"
    have h: "h = spill_header (length p)"
    proof -
      from p(2) obtain z where "spill_frame p = is_rest s @ z" by (auto elim: prefixE)
      then have "take 16 (spill_frame p) = h" using False by (simp add: h_def)
      then show ?thesis by (simp add: spill_frame_def)
    qed
    define s1 where "s1 = s\<lparr>is_rest := drop 16 (is_rest s)\<rparr>"
    have f: "fread spill_header_size s w = (h, s1, tick w)"
      using assms(1) by (simp add: calm_calls s1_def h_def spill_header_size_def)
    obtain w2 where m: "malloc_ok (length p) (tick w) = (True, w2)" "calm_step (tick w) w2"
      using malloc_calm [of "tick w"] assms(1) by auto
    have "length (is_rest s1) < length p + 4" using l False by (simp add: s1_def)
    then obtain s3 w3 where r: "read_record s1 (length p) w2 = (Inl False, s3, w3)" "calm_step w2 w3" "is_error s3 = is_error s1"
      using read_record_short [of w2 s1 "length p"] m(2) by (auto simp: calm_step_def)
    have e: "spill_record_end off (length p) = Some (off + length p + 20)"
      using assms(3) p(1) spill_record_end_eq [of off "length p"] by simp
    have hd: "spill_header (length p) \<noteq> []" "length (spill_header (length p)) = spill_header_size" "length p \<le> size_max"
      using length_spill_header [of "length p"] assms(3) p(1) by (auto simp: spill_header_size_def simp del: length_spill_header)
    have "calm_step w w3" "is_rest s \<noteq> []" using m(2) r(2) False by (auto simp: calm_step_def)
    then show ?thesis
      using hd spill_header_read [OF hd(3)] p(1) e m(1) r assms(4)
      by (simp add: scan_record_def f h s1_def)
  qed
qed

lemma scan_store_from_calm:
  assumes "calm w" and "is_rest s = spill_image ps @ t" and "\<forall>p \<in> set ps. length p \<le> m" and "torn m t"
    and "off + length (spill_image ps) \<le> q" and "q + m + 20 \<le> size_max" and "n + length ps < size_max" and "\<not> is_error s"
  shows "\<exists>s' w'. scan_store_from q m off n s w =
    (Inr (off + length (spill_image ps), n + length ps, t \<noteq> []), s', w') \<and> calm_step w w'"
  using assms
proof (induction ps arbitrary: off n s w)
  case Nil
  obtain s' w' where "scan_record q m off n s w = (Scan_stop (t \<noteq> []), s', w')" "calm_step w w'"
    using scan_record_torn [of w m s off q n] Nil.prems by auto
  then show ?case by (simp add: scan_store_from.simps)
next
  case (Cons p ps)
  define s1 where "s1 = s\<lparr>is_rest := spill_image ps @ t\<rparr>"
  obtain w1 where r: "scan_record q m off n s w = (Scan_record p (off + length (spill_frame p)), s1, w1)" "calm_step w w1"
    using scan_record_calm [of w s p "spill_image ps @ t" m off q n] Cons.prems by (auto simp: s1_def)
  have "\<exists>s' w'. scan_store_from q m (off + length (spill_frame p)) (n + 1) s1 w1 =
    (Inr (off + length (spill_frame p) + length (spill_image ps), n + 1 + length ps, t \<noteq> []), s', w') \<and> calm_step w1 w'"
    using Cons.prems r(2) by (intro Cons.IH) (simp_all add: s1_def calm_step_def)
  then show ?case using r calm_step_trans by (subst scan_store_from.simps) (fastforce simp: add.assoc)
qed


lemma length_decimal: "n < 10 ^ Suc k \<Longrightarrow> length (decimal n) \<le> Suc k"
proof (induction k arbitrary: n)
  case 0
  then show ?case by (simp add: decimal.simps [of n])
next
  case (Suc k)
  then have "n div 10 < 10 ^ Suc k" by (simp add: less_mult_imp_div_less)
  then show ?case using Suc.IH [of "n div 10"] by (subst decimal.simps) auto
qed

lemma length_recover_name: "length (recover_name path (unat (a :: u64)) (unat (b :: u64))) < length path + 80"
proof -
  have "unat x < 10 ^ Suc 19" for x :: u64 using unat_u64_lt [of x] by simp
  then have "length (decimal (unat x)) \<le> 20" for x :: u64 using length_decimal [of "unat x" 19] by simp
  from this [of a] this [of b] show ?thesis by (simp add: recover_name_def)
qed

text \<open>The environment lets a recovery create its temporary file: the first name is free.\<close>

definition recover_ready :: "string \<Rightarrow> world \<Rightarrow> bool" where
  "recover_ready path w \<longleftrightarrow> calm w \<and> length path \<le> size_max - 80 \<and>
     w_files w (recover_name path (unat (w_pid w)) (unat (w_serial w + 1))) = None"

lemma copy_prefix_calm:
  assumes "calm w" and "left \<le> length (is_rest input)"
  shows "\<exists>i' o' w'. copy_prefix left input out w = (True, i', o', w') \<and> calm_step w w'"
  using assms
proof (induction left arbitrary: input out w rule: less_induct)
  case (less left)
  show ?case
  proof (cases "left = 0")
    case True
    then show ?thesis using less.prems by (simp add: copy_prefix.simps calm_step_def)
  next
    case False
    define want where "want = (if left < copy_buffer_size then left else copy_buffer_size)"
    have pos: "0 < want" "want \<le> left" using False by (auto simp: want_def copy_buffer_size_def)
    have "\<exists>i' o' w'. copy_prefix (left - want) (input\<lparr>is_rest := drop want (is_rest input)\<rparr>)
        (out\<lparr>os_pending := os_pending out @ take want (is_rest input)\<rparr>) (tick (tick w)) = (True, i', o', w') \<and>
        calm_step (tick (tick w)) w'"
      using pos less.prems by (intro less.IH) simp_all
    then show ?thesis
      using False pos less.prems
      by (subst copy_prefix.simps) (simp add: want_def [symmetric] calm_calls Let_def calm_step_def)
  qed
qed

lemma replace_by_prefix_calm:
  assumes "recover_ready path w" and "w_files w path = Some c" and "v \<le> length c"
  shows "\<exists>w'. replace_by_prefix path v w = (MILENA_OK, w') \<and> calm w'"
proof -
  have calm: "calm w" and len: "length path \<le> size_max - 80" using assms(1) by (simp_all add: recover_ready_def)
  obtain w1 where m: "malloc_ok (length path + 80) w = (True, w1)" "calm w1" "w_files w1 = w_files w"
    "w_serial w1 = w_serial w" "w_pid w1 = w_pid w"
    using calm_malloc [OF calm] by blast
  define w2 where "w2 = w1\<lparr>w_serial := w_serial w1 + 1\<rparr>"
  define tmp where "tmp = recover_name path (unat (w_pid w1)) (unat (w_serial w1 + 1))"
  have p2: "w_pid w2 = w_pid w1" by (simp add: w2_def)
  have w2: "calm w2" "w_files w2 = w_files w" using m by (simp_all add: w2_def calm_def)
  have free: "w_files w tmp = None" using assms(1) m by (simp add: recover_ready_def tmp_def w2_def)
  define out where "out = \<lparr>os_path = tmp, os_pending = []\<rparr>"
  define w3 where "w3 = set_file tmp (Some []) (tick w2)"
  have w3: "calm w3" using w2(1) by (simp add: w3_def set_file_def calm_def tick_def)
  have o': "open_recovered 16 path (length path + 80) w1 = (Some (tmp, out), w3)"
  proof -
    have new: "fopen_new tmp w2 = (Opened out, w3)"
      using free w2 by (simp add: fopen_new_def calm_calls out_def w3_def)
    have "length tmp < length path + 80" by (simp add: tmp_def length_recover_name)
    then show ?thesis
      using open_recovered.simps(2) [of 15 path "length path + 80" w1] new
      unfolding Let_def w2_def [symmetric] p2 tmp_def [symmetric] by simp
  qed
  have neq: "tmp \<noteq> path" by (simp add: tmp_def recover_name_neq)
  have i: "fopen_read path w3 = (Opened \<lparr>is_rest = c, is_error = False\<rparr>, tick w3)"
    using w3 neq assms(2) w2(2) by (simp add: calm_calls w3_def)
  obtain i' o2 w4 where cp: "copy_prefix v \<lparr>is_rest = c, is_error = False\<rparr> out (tick w3) = (True, i', o2, w4)" "calm_step (tick w3) w4"
    using copy_prefix_calm [of "tick w3" v "\<lparr>is_rest = c, is_error = False\<rparr>" out] w3 assms(3) by auto
  have o2: "os_path o2 = tmp" using copy_prefix_same [OF cp(1)] by (simp add: out_def)
  have c4: "calm w4" "w_files w4 tmp = Some []" using cp(2) by (simp_all add: calm_step_def w3_def)
  obtain o3 w5 where fl: "fflush o2 (tick w4) = (True, o3, w5)" "calm w5" "w_files w5 tmp \<noteq> None"
    using c4 o2 by (auto simp: fflush_def calm_calls set_file_def calm_def tick_def)
  have rn: "fst (rename tmp path w5)" "calm (snd (rename tmp path w5))"
    using fl(2,3) by (auto simp: rename_def calm_calls set_file_def calm_def tick_def split: option.splits)
  then obtain w6 where rn: "rename tmp path w5 = (True, w6)" "calm w6" by (cases "rename tmp path w5") auto
  show ?thesis
    using len m(1) o' i cp(1) calm_calls(2) [OF c4(1)] fl(1) rn by (simp add: replace_by_prefix_def)
qed

text \<open>The scan of a store with a torn tail, and what recovery makes of it.\<close>

lemma recover_calm_eq:
  assumes "w_files w path = Some (spill_image ps @ t)" and "torn max_record t" and "\<forall>p \<in> set ps. length p \<le> max_record"
    and "length (spill_image ps) \<le> quota" and "\<not> spill_limits_bad (Some path) quota max_record"
    and "quota + max_record + 20 \<le> int64_max" and "length (spill_image ps @ t) \<le> int64_max" and calm: "calm w"
  shows "\<exists>w'. calm_step w w' \<and> milena_spill_store_recover (Some path) quota max_record w =
    (let rc = \<lparr>rc_records = length ps, rc_bytes = length (spill_image ps), rc_discarded = length t, rc_truncated = (t \<noteq> [])\<rparr>
     in if t = [] then (Inr rc, w')
        else case replace_by_prefix path (length (spill_image ps)) w' of (status, w) \<Rightarrow>
          (if status = MILENA_OK then Inr rc else Inl status, w))"
proof -
  have small: "quota + max_record + 20 \<le> size_max" "length (spill_image ps @ t) \<le> size_max"
    using assms(6,7) by (simp_all add: int64_max_def size_max_def)
  have count: "length xs \<le> length (spill_image xs)" for xs by (induction xs) simp_all
  define s where "s = \<lparr>is_rest = spill_image ps @ t, is_error = False\<rparr>"
  define w4 where "w4 = tick (tick (tick (tick w)))"
  obtain s' w5 where sc: "scan_store quota max_record s w4 = (Inr (length (spill_image ps), length ps, t \<noteq> []), s', w5)"
    and c5: "calm_step w4 w5"
    using scan_store_from_calm [of w4 s ps t max_record 0 quota 0] calm assms(2,3,4) small count [of ps]
    by (auto simp: scan_store_def s_def w4_def)
  define w6 where "w6 = tick w5"
  have w6: "calm w6" "w_files w6 = w_files w" using c5 by (simp_all add: w6_def calm_step_def w4_def)
  have fo: "fopen_read path w = (Opened s, tick w)" using assms(1) calm by (simp add: calm_calls s_def)
  have len: "length (is_rest s) = length (spill_image ps) + length t" "\<not> int64_max < length (spill_image ps) + length t"
    using assms(7) by (simp_all add: s_def)
  have cl: "call_ok w5 = (True, w6)" using c5 by (simp add: calm_calls calm_step_def w6_def)
  define rc where "rc = \<lparr>rc_records = length ps, rc_bytes = length (spill_image ps), rc_discarded = length t, rc_truncated = (0 < length t)\<rparr>"
  have eq: "milena_spill_store_recover (Some path) quota max_record w =
    (if t = [] then (Inr rc, w6)
     else case replace_by_prefix path (length (spill_image ps)) w6 of (status, w) \<Rightarrow>
       (if status = MILENA_OK then Inr rc else Inl status, w))"
    unfolding milena_spill_store_recover_def option.sel rc_def
    using assms(5) calm sc small cl fo len
    by (cases "t = []") (simp_all add: calm_calls(6,7) w4_def [symmetric] Let_def)
  have "calm_step w w6" using c5 by (simp add: w6_def calm_step_def w4_def)
  have rc: "rc = \<lparr>rc_records = length ps, rc_bytes = length (spill_image ps), rc_discarded = length t, rc_truncated = (t \<noteq> [])\<rparr>"
    by (simp add: rc_def)
  show ?thesis
    using \<open>calm_step w w6\<close> eq unfolding rc Let_def by (intro exI [of _ w6] conjI)
qed

lemma torn_Nil: "torn m []"
proof -
  have "length (spill_frame []) \<noteq> 0" by simp
  then have "[] \<noteq> spill_frame []" by fastforce
  then have "strict_prefix [] (spill_frame [])" by (intro strict_prefixI) simp_all
  moreover have "length [] \<le> m" by simp
  ultimately show ?thesis unfolding torn_def by blast
qed

text \<open>A complete store is left as it is.\<close>

lemma recover_whole:
  assumes "w_files w path = Some (spill_image ps)" and "\<forall>p \<in> set ps. length p \<le> max_record"
    and "length (spill_image ps) \<le> quota" and "\<not> spill_limits_bad (Some path) quota max_record"
    and "quota + max_record + 20 \<le> int64_max" and "calm w"
  shows "\<exists>rc w'. milena_spill_store_recover (Some path) quota max_record w = (Inr rc, w') \<and> calm_step w w'"
  using recover_calm_eq [of w path ps "[]" max_record quota] assms torn_Nil by (auto simp: Let_def)

lemma recover_torn:
  assumes "w_files w path = Some (spill_image ps @ t)" and "torn max_record t" and "\<forall>p \<in> set ps. length p \<le> max_record"
    and "length (spill_image ps) \<le> quota" and "\<not> spill_limits_bad (Some path) quota max_record"
    and "quota + max_record + 20 \<le> int64_max" and "length (spill_image ps @ t) \<le> int64_max" and "recover_ready path w"
  shows "\<exists>w'. milena_spill_store_recover (Some path) quota max_record w =
      (Inr \<lparr>rc_records = length ps, rc_bytes = length (spill_image ps), rc_discarded = length t, rc_truncated = (t \<noteq> [])\<rparr>, w') \<and>
    w_files w' path = Some (spill_image ps) \<and> calm w'"
proof -
  have calm: "calm w" using assms(8) by (simp add: recover_ready_def)
  obtain w6 where c6: "calm_step w w6" and eq: "milena_spill_store_recover (Some path) quota max_record w =
    (let rc = \<lparr>rc_records = length ps, rc_bytes = length (spill_image ps), rc_discarded = length t, rc_truncated = (t \<noteq> [])\<rparr>
     in if t = [] then (Inr rc, w6)
        else case replace_by_prefix path (length (spill_image ps)) w6 of (status, w) \<Rightarrow>
          (if status = MILENA_OK then Inr rc else Inl status, w))"
    using recover_calm_eq [OF assms(1-7) calm] by blast
  have w6: "calm w6" "w_files w6 = w_files w" using c6 by (simp_all add: calm_step_def)
  show ?thesis
  proof (cases "t = []")
    case True
    then show ?thesis using eq w6 assms(1) by simp
  next
    case False
    have ready: "recover_ready path w6" using assms(8) c6 by (simp add: recover_ready_def calm_step_def)
    have f6: "w_files w6 path = Some (spill_image ps @ t)" using w6 assms(1) by simp
    obtain w7 where r: "replace_by_prefix path (length (spill_image ps)) w6 = (MILENA_OK, w7)" "calm w7"
      using replace_by_prefix_calm [OF ready f6, of "length (spill_image ps)"] by auto
    have "w_files w7 path = Some (spill_image ps)" using replace_by_prefix_spec [OF r(1) f6] by simp
    then show ?thesis using eq False r by simp
  qed
qed

text \<open>
  C23.  A store whose last record was torn by an interrupted append recovers, when nothing else
  fails, to exactly its complete records, in order.
\<close>

theorem spill_recover_torn:
  assumes "w_files w path = Some (spill_image ps @ t)" and "torn max_record t" and "\<forall>p \<in> set ps. length p \<le> max_record"
    and "length (spill_image ps) \<le> quota" and "\<not> spill_limits_bad (Some path) quota max_record"
    and "quota + max_record + 20 \<le> int64_max" and "length (spill_image ps @ t) \<le> int64_max" and "recover_ready path w"
  shows "\<exists>w'. milena_spill_store_recover (Some path) quota max_record w =
      (Inr \<lparr>rc_records = length ps, rc_bytes = length (spill_image ps), rc_discarded = length t, rc_truncated = (t \<noteq> [])\<rparr>, w') \<and>
    w_files w' path = Some (spill_image ps) \<and> calm w'"
  using assms by (rule recover_torn)


end
