(* ===== verification/SpillProps.thy ===== *)
theory SpillProps
  imports SpillCalm
begin

text \<open>
  Appends and readers of the spill store: what an append leaves behind under every fault plan, what
  a later opening of the same file finds, replay by the reader, detection of damaged payloads, and the one
  fault that costs records (a read error inside a header during recovery).
\<close>

section \<open>Appending\<close>

lemma take_prefix_of: "prefix (take k xs) (xs @ ys)"
  by (metis append.assoc append_take_drop_id prefixI)

text \<open>Under any faults an append adds a leading part of the record, and all of it on success.\<close>

lemma fwrite_cases:
  assumes "fwrite bs out w = (n, out', w')" and "w_files w (os_path out) = Some c" and "bs \<noteq> []"
  shows "n = length bs \<and> out' = out\<lparr>os_pending := os_pending out @ bs\<rparr> \<and> w_files w' = w_files w \<or>
    n \<noteq> length bs \<and> os_pending out' = [] \<and> os_path out' = os_path out \<and>
    (\<exists>k. w_files w' (os_path out) = Some (c @ take k (os_pending out @ bs)))"
proof (cases "w_fault w (w_tick w)")
  case None
  then show ?thesis using assms(1) by (auto simp: fwrite_def ask_def)
next
  case (Some k)
  have "min k (length bs - 1) < length bs" using assms(3) by (cases bs) (auto simp: min_def)
  moreover have "n = min k (length bs - 1)" using assms(1) Some by (simp add: fwrite_def ask_def)
  ultimately show ?thesis using assms Some by (auto simp: fwrite_def ask_def file_bytes_def)
qed

lemma fflush_cases:
  assumes "fflush out w = (b, out', w')" and "w_files w (os_path out) = Some c"
  shows "os_pending out' = [] \<and> os_path out' = os_path out \<and>
    (\<exists>k. w_files w' (os_path out) = Some (c @ take k (os_pending out)) \<and> (b \<longrightarrow> length (os_pending out) \<le> k))"
proof (cases "w_fault w (w_tick w)")
  case None
  then show ?thesis using assms
    by (auto simp: fflush_def ask_def Let_def file_bytes_def split: if_splits intro!: exI [of _ "length (os_pending out)"])
next
  case (Some k)
  then show ?thesis using assms by (auto simp: fflush_def ask_def Let_def file_bytes_def split: if_splits)
qed

lemma write_record_cases:
  assumes "write_record d out w = (ok, out', w')" and "os_pending out = []" and "w_files w (os_path out) = Some c"
  shows "out' = out \<and> same_but (os_path out) w w' \<and>
    (\<exists>t. prefix t (spill_frame d) \<and> w_files w' (os_path out) = Some (c @ t) \<and> (ok \<longrightarrow> t = spill_frame d))"
proof -
  define H where "H = spill_header (length d)"
  define T where "T = spill_put_u32 (spill_checksum d)"
  have ne: "H \<noteq> []" "length H = spill_header_size" "T \<noteq> []" "length T = spill_trailer_size"
    using length_spill_header [of "length d"]
    by (auto simp: H_def T_def spill_put_u32_def spill_header_size_def spill_trailer_size_def put_le_def simp del: length_spill_header)
  have frame: "spill_frame d = H @ d @ T" by (simp add: spill_frame_def H_def T_def)
  have outI: "o' = out" if "os_path o' = os_path out" "os_pending o' = []" for o'
    using that assms(2) by simp
  obtain n1 o1 w1 where 1: "fwrite H out w = (n1, o1, w1)" by (metis prod_cases3)
  obtain n2 o2 w2 where 2: "(if d = [] then (0, o1, w1) else fwrite d o1 w1) = (n2, o2, w2)" by (metis prod_cases3)
  obtain n3 o3 w3 where 3: "fwrite T o2 w2 = (n3, o3, w3)" by (metis prod_cases3)
  obtain b o4 w4 where 4: "fflush o3 w3 = (b, o4, w4)" by (metis prod_cases3)
  have eq: "(ok, out', w') = (if n1 \<noteq> spill_header_size then (False, o1, w1) else if n2 \<noteq> length d then (False, o2, w2)
      else if n3 \<noteq> spill_trailer_size then (False, o3, w3) else (b, o4, w4))"
    unfolding assms(1) [symmetric] write_record_def H_def [symmetric] T_def [symmetric]
    using 1 2 3 4 by (cases "n1 = spill_header_size"; cases "n2 = length d"; cases "n3 = spill_trailer_size") simp_all
  have s1: "same_but (os_path out) w w1" "os_path o1 = os_path out" using fwrite_same [OF 1] by simp_all
  have s2: "same_but (os_path out) w1 w2" "os_path o2 = os_path out"
    using 2 s1(2) fwrite_same [of d o1 w1 n2 o2 w2] by (auto split: if_splits intro: same_but_refl)
  have s3: "same_but (os_path out) w2 w3" "os_path o3 = os_path out" using fwrite_same [OF 3] s2(2) by simp_all
  have s4: "same_but (os_path out) w3 w4" using fflush_same [OF 4] s3(2) by simp
  have same: "same_but (os_path out) w w'"
  proof -
    have "w' \<in> {w1, w2, w3, w4}" using eq by (auto split: if_splits)
    then show ?thesis using s1(1) s2(1) s3(1) s4 unfolding same_but_def by auto
  qed
  note c1 = fwrite_cases [OF 1 assms(3) ne(1)]
  show ?thesis
  proof (cases "n1 = length H")
    case False
    then show ?thesis using c1 eq ne same assms(2) outI take_prefix_of [of _ H "d @ T"] by (auto simp: frame)
  next
    case True
    then have o1: "o1 = out\<lparr>os_pending := H\<rparr>" "w_files w1 = w_files w" using c1 assms(2) by auto
    have c2: "n2 = length d \<and> o2 = out\<lparr>os_pending := H @ d\<rparr> \<and> w_files w2 = w_files w \<or>
        n2 \<noteq> length d \<and> os_pending o2 = [] \<and> os_path o2 = os_path out \<and>
        (\<exists>k. w_files w2 (os_path out) = Some (c @ take k (H @ d)))"
    proof (cases "d = []")
      case False
      then show ?thesis using 2 fwrite_cases [of d o1 w1 n2 o2 w2 c] o1 assms(3) by simp
    qed (use 2 o1 in auto)
    show ?thesis
    proof (cases "n2 = length d")
      case False
      then show ?thesis using c2 eq True ne same outI take_prefix_of [of _ "H @ d" T] by (auto simp: frame)
    next
      case True': True
      then have o2: "o2 = out\<lparr>os_pending := H @ d\<rparr>" "w_files w2 = w_files w" using c2 by auto
      have c3: "n3 = length T \<and> o3 = out\<lparr>os_pending := H @ d @ T\<rparr> \<and> w_files w3 = w_files w \<or>
        n3 \<noteq> length T \<and> os_pending o3 = [] \<and> os_path o3 = os_path out \<and>
        (\<exists>k. w_files w3 (os_path out) = Some (c @ take k (H @ d @ T)))"
        using fwrite_cases [OF 3 _ ne(3), of c] o2 assms(3) by simp
      show ?thesis
      proof (cases "n3 = length T")
        case False
        then show ?thesis using c3 eq True True' ne same outI take_is_prefix [of _ "H @ d @ T"] by (auto simp: frame)
      next
        case True'': True
        then have o3: "o3 = out\<lparr>os_pending := H @ d @ T\<rparr>" "w_files w3 = w_files w" using c3 by auto
        have f4: "os_pending o4 = [] \<and> os_path o4 = os_path out \<and>
          (\<exists>k. w_files w4 (os_path out) = Some (c @ take k (H @ d @ T)) \<and> (b \<longrightarrow> length (H @ d @ T) \<le> k))"
          using fflush_cases [OF 4, of c] o3 assms(3) by simp
        have "(ok, out', w') = (b, o4, w4)" using eq True True' True'' ne by simp
        then show ?thesis using f4 same outI take_is_prefix [of _ "H @ d @ T"] by (auto simp: frame)
      qed
    qed
  qed
qed

text \<open>An open store at \<open>path\<close> that holds exactly the records \<open>ps\<close>.\<close>

definition store_ok :: "string \<Rightarrow> bytes list \<Rightarrow> spill_store \<Rightarrow> world \<Rightarrow> bool" where
  "store_ok path ps st w \<longleftrightarrow>
     st_file st = Some \<lparr>os_path = path, os_pending = []\<rparr> \<and> st_path st = Some path \<and> \<not> st_failed st \<and>
     w_files w path = Some (spill_image ps) \<and> st_used st = length (spill_image ps) \<and> st_count st = length ps \<and>
     st_used st \<le> st_quota st \<and> (\<forall>p \<in> set ps. length p \<le> st_max_record st)"

lemma append_parts:
  assumes "store_ok path ps st w" and "milena_spill_store_append (Some st) (Some d) (length d) w = (status, st', w')"
  shows "status \<notin> {MILENA_OK, MILENA_ERR_IO} \<and> st' = Some st \<and> w' = w \<or>
    (length d \<le> st_max_record st \<and> length (spill_image (ps @ [d])) \<le> st_quota st \<and>
     (\<exists>t. prefix t (spill_frame d) \<and> w_files w' path = Some (spill_image ps @ t) \<and> same_but path w w' \<and>
       (status = MILENA_OK \<and> t = spill_frame d \<and>
          st' = Some (st\<lparr>st_used := st_used st + length (spill_frame d), st_count := st_count st + 1\<rparr>) \<or>
        status = MILENA_ERR_IO \<and> st' = Some (st\<lparr>st_failed := True\<rparr>))))"
proof -
  define out where "out = \<lparr>os_path = path, os_pending = []\<rparr>"
  have st: "st_file st = Some out" "\<not> st_failed st" "w_files w path = Some (spill_image ps)"
    "st_used st = length (spill_image ps)" "st_used st \<le> st_quota st"
    using assms(1) by (simp_all add: store_ok_def out_def)
  obtain ok out' w1 where wri: "write_record d out w = (ok, out', w1)" by (metis prod_cases3)
  have cs: "out' = out \<and> same_but path w w1 \<and>
    (\<exists>t. prefix t (spill_frame d) \<and> w_files w1 path = Some (spill_image ps @ t) \<and> (ok \<longrightarrow> t = spill_frame d))"
    using write_record_cases [OF wri] st(3) by (simp add: out_def)
  have st_eq: "st\<lparr>st_file := Some out\<rparr> = st" using st(1) by (cases st) simp
  have arg: "(if length d = 0 then [] else take (length d) (the (Some d))) = d" by simp
  show ?thesis
  proof (cases "length d > st_max_record st \<or> st_count st = size_max \<or> spill_record_size (length d) = None \<or>
      the (spill_record_size (length d)) > st_quota st - st_used st")
    case True
    then show ?thesis using assms(2) st by (auto simp: milena_spill_store_append_def split: option.splits if_splits)
  next
    case False
    then obtain n where n: "spill_record_size (length d) = Some n" "n \<le> st_quota st - st_used st" by auto
    have n': "n = length (spill_frame d)"
      using n(1) by (auto simp: spill_record_size_def milena_size_add_def spill_header_size_def spill_trailer_size_def split: option.splits if_splits)
    have "milena_spill_store_append (Some st) (Some d) (length d) w =
      (if ok then (MILENA_OK, Some (st\<lparr>st_file := Some out', st_used := st_used st + n, st_count := st_count st + 1\<rparr>), w1)
       else (MILENA_ERR_IO, Some (st\<lparr>st_file := Some out', st_failed := True\<rparr>), w1))"
      unfolding milena_spill_store_append_def arg using False n st wri by simp
    then show ?thesis
      using assms(2) cs n(2) n' False st(4,5) st_eq by (cases ok) (auto simp: prod_eq_iff)
  qed
qed

text \<open>
  Appending to an open store, under any faults: success adds exactly the record; an I/O error
  marks the store failed and leaves a leading part of the record behind; every other answer
  changes nothing; and no other file is touched.
\<close>

theorem spill_append_outcome:
  assumes "store_ok path ps st w" and "milena_spill_store_append (Some st) (Some d) (length d) w = (status, Some st', w')"
  shows "(\<forall>q. q \<noteq> path \<longrightarrow> w_files w' q = w_files w q) \<and>
    (if status = MILENA_OK then store_ok path (ps @ [d]) st' w'
     else if status = MILENA_ERR_IO
          then st_failed st' \<and> (\<exists>t. prefix t (spill_frame d) \<and> w_files w' path = Some (spill_image ps @ t))
          else st' = st \<and> w' = w)"
  using append_parts [OF assms] assms(1) by (auto simp: store_ok_def same_but_def)

lemma torn_frame:
  assumes "prefix t (spill_frame d)" and "length d \<le> m"
  shows "\<exists>qs t'. spill_image ps @ t = spill_image qs @ t' \<and> torn m t' \<and> (qs = ps \<or> qs = ps @ [d]) \<and>
    (t = spill_frame d \<longrightarrow> qs = ps @ [d])"
proof (cases "t = spill_frame d")
  case True
  have "torn m []" using assms(2) by (auto simp: torn_def strict_prefix_def spill_frame_not_Nil [symmetric] intro!: exI [of _ d])
  then show ?thesis using True by (intro exI [of _ "ps @ [d]"] exI [of _ "[]"]) simp
next
  case False
  then have "torn m t" using assms by (auto simp: torn_def strict_prefix_def)
  then show ?thesis using False by blast
qed

lemma open_calm:
  assumes "milena_spill_store_recover (Some path) quota m w = (Inr rc, w1)" and "calm w1"
    and "\<not> spill_limits_bad (Some path) quota m" and "w_files w1 path = Some (spill_image qs)"
    and "rc_bytes rc = length (spill_image qs)" and "rc_records rc = length qs"
    and "length (spill_image qs) \<le> quota" and "\<forall>p \<in> set qs. length p \<le> m"
  shows "\<exists>st w2. milena_spill_store_open (Some path) quota m old w = (MILENA_OK, st, w2) \<and> store_ok path qs st w2"
proof -
  define w2 where "w2 = set_file path (Some (spill_image qs)) (tick w1)"
  have c2: "calm w2" "w_files w2 path = Some (spill_image qs)"
    using assms(2) by (simp_all add: w2_def set_file_def calm_def tick_def)
  have o': "fopen_append path w1 = (Opened \<lparr>os_path = path, os_pending = []\<rparr>, w2)"
    using assms(2,4) by (simp add: fopen_append_def calm_calls file_bytes_def w2_def)
  obtain w3 where m: "malloc_ok (length path + 1) w2 = (True, w3)" "w_files w3 = w_files w2"
    using calm_malloc [OF c2(1)] by blast
  then show ?thesis
    using assms(1,3,5,6,7,8) o' c2(2) by (simp add: milena_spill_store_open_def store_ok_def)
qed

text \<open>
  C4.  Append a record to an open store under any faults, abandon the store without closing it, and
  open the path again with no call failing, while nothing else has written the file: the store holds
  the old records in order, plus the new one when the append reported success (and possibly also
  when it did not).  The file is what the flush handed to the system; nothing is said of a power
  failure, for which the store promises no durability.
\<close>

theorem spill_append_reopen:
  assumes "store_ok path ps st w"
    and "milena_spill_store_append (Some st) (Some d) (length d) w = (status, st', w1)"
    and "w_files w2 path = w_files w1 path" and "recover_ready path w2"
    and "\<not> spill_limits_bad (Some path) (st_quota st) (st_max_record st)"
    and "2 * st_quota st + st_max_record st + 20 \<le> int64_max"
  shows "\<exists>qs st2 w3. milena_spill_store_open (Some path) (st_quota st) (st_max_record st) old w2 = (MILENA_OK, st2, w3) \<and>
    store_ok path qs st2 w3 \<and> (qs = ps \<or> qs = ps @ [d]) \<and> (status = MILENA_OK \<longrightarrow> qs = ps @ [d])"
proof -
  have st: "w_files w path = Some (spill_image ps)" "length (spill_image ps) \<le> st_quota st"
    "\<forall>p \<in> set ps. length p \<le> st_max_record st"
    using assms(1) by (simp_all add: store_ok_def)
  have "\<exists>qs t. w_files w1 path = Some (spill_image qs @ t) \<and> torn (st_max_record st) t \<and> (qs = ps \<or> qs = ps @ [d]) \<and>
      (status = MILENA_OK \<longrightarrow> qs = ps @ [d]) \<and> length (spill_image qs) \<le> st_quota st \<and>
      (\<forall>p \<in> set qs. length p \<le> st_max_record st) \<and> length t \<le> length d + 20 \<and> length (spill_image qs @ t) \<le> 2 * st_quota st"
  proof (cases "status \<in> {MILENA_OK, MILENA_ERR_IO}")
    case False
    then have "w1 = w" using append_parts [OF assms(1,2)] by auto
    moreover have "torn (st_max_record st) []" by (auto simp: torn_def strict_prefix_def spill_frame_not_Nil [symmetric] intro!: exI [of _ "[]"])
    ultimately show ?thesis using False st by (intro exI [of _ ps] exI [of _ "[]"]) auto
  next
    case True
    then obtain t where t: "prefix t (spill_frame d)" "w_files w1 path = Some (spill_image ps @ t)"
      "status = MILENA_OK \<longrightarrow> t = spill_frame d" and d: "length d \<le> st_max_record st" "length (spill_image (ps @ [d])) \<le> st_quota st"
      using append_parts [OF assms(1,2)] by auto
    obtain qs t' where qs: "spill_image ps @ t = spill_image qs @ t'" "torn (st_max_record st) t'" "qs = ps \<or> qs = ps @ [d]"
      "t = spill_frame d \<longrightarrow> qs = ps @ [d]"
      using torn_frame [OF t(1) d(1), of ps] by blast
    have "length t \<le> length (spill_frame d)" using t(1) by (rule prefix_length_le)
    moreover have "length (spill_image ps) + length t = length (spill_image qs) + length t'"
      using arg_cong [OF qs(1), of length] by simp
    ultimately have "length t' \<le> length d + 20" "length (spill_image qs @ t') \<le> 2 * st_quota st"
      using qs(3) d(2) st(2) by auto
    moreover have "w_files w1 path = Some (spill_image qs @ t')" using t(2) qs(1) by simp
    moreover have "length (spill_image qs) \<le> st_quota st" "\<forall>p \<in> set qs. length p \<le> st_max_record st"
      using qs(3) d st(2,3) by auto
    ultimately show ?thesis using qs(2-4) t(3) by blast
  qed
  then obtain qs t where q: "w_files w2 path = Some (spill_image qs @ t)" "torn (st_max_record st) t" "qs = ps \<or> qs = ps @ [d]"
    "status = MILENA_OK \<longrightarrow> qs = ps @ [d]" "length (spill_image qs) \<le> st_quota st"
    "\<forall>p \<in> set qs. length p \<le> st_max_record st" "length (spill_image qs @ t) \<le> 2 * st_quota st"
    using assms(3) by auto
  have "st_quota st + st_max_record st + 20 \<le> int64_max" "length (spill_image qs @ t) \<le> int64_max"
    using assms(6) q(7) by linarith+
  from recover_torn [OF q(1,2,6,5) assms(5) this assms(4)] obtain w3 where
    r: "milena_spill_store_recover (Some path) (st_quota st) (st_max_record st) w2 =
      (Inr \<lparr>rc_records = length qs, rc_bytes = length (spill_image qs), rc_discarded = length t, rc_truncated = (t \<noteq> [])\<rparr>, w3)"
      "w_files w3 path = Some (spill_image qs)" "calm w3" by blast
  have "\<exists>st2 w4. milena_spill_store_open (Some path) (st_quota st) (st_max_record st) old w2 = (MILENA_OK, st2, w4) \<and>
    store_ok path qs st2 w4"
    using open_calm [OF r(1) r(3) assms(5) r(2) _ _ q(5,6), of old] by simp
  then show ?thesis using q(3,4) by blast
qed


section \<open>Reading\<close>

lemma reader_next_eq:
  assumes "rd_file r = Some s" and "fread spill_header_size s w = (h, s1, w1)"
    and "read_record s1 (unat (spill_get_u64 (drop 8 h))) w1 = (x, s2, w2)" and "n = unat (spill_get_u64 (drop 8 h))"
  shows "milena_spill_reader_next (Some r) buf cap w =
    (if h = [] then (if is_error s1 then Inl MILENA_ERR_IO else Inr None, Some (r\<lparr>rd_file := Some s1\<rparr>), w1)
     else if length h \<noteq> spill_header_size then (Inl MILENA_ERR_DATA, Some (r\<lparr>rd_file := Some s1\<rparr>), w1)
     else if spill_header_bad h \<or> n > size_max \<or> n > rd_max_record r
     then (Inl MILENA_ERR_DATA, Some (r\<lparr>rd_file := Some s1\<rparr>), w1)
     else case spill_record_end (rd_bytes r) n of
       None \<Rightarrow> (Inl MILENA_ERR_OVERFLOW, Some (r\<lparr>rd_file := Some s1\<rparr>), w1)
     | Some e \<Rightarrow>
        if e > rd_quota r \<or> n > cap \<or> (n > 0 \<and> \<not> buf) then (Inl MILENA_ERR_OVERFLOW, Some (r\<lparr>rd_file := Some s1\<rparr>), w1)
        else case x of
          Inl complete \<Rightarrow> (Inl (if \<not> complete \<and> is_error s2 then MILENA_ERR_IO else MILENA_ERR_DATA), Some (r\<lparr>rd_file := Some s2\<rparr>), w2)
        | Inr payload \<Rightarrow>
            if rd_count r = size_max then (Inl MILENA_ERR_OVERFLOW, Some (r\<lparr>rd_file := Some s2\<rparr>), w2)
            else (Inr (Some payload), Some (r\<lparr>rd_file := Some s2, rd_bytes := e, rd_count := rd_count r + 1\<rparr>), w2))"
  unfolding milena_spill_reader_next_def option.case assms(1,2) prod.case Let_def assms(4) assms(3) ..

lemma reader_next_sound:
  assumes "milena_spill_reader_next (Some r) buf cap w = (Inr (Some p), r', w')" and "rd_file r = Some s"
  shows "\<exists>s'. is_rest s = spill_frame p @ is_rest s' \<and> r' = Some (r\<lparr>rd_file := Some s', rd_bytes := rd_bytes r + length (spill_frame p),
      rd_count := rd_count r + 1\<rparr>)"
proof -
  obtain h s1 w1 where h: "fread spill_header_size s w = (h, s1, w1)" by (metis prod_cases3)
  obtain x s2 w2 where x: "read_record s1 (unat (spill_get_u64 (drop 8 h))) w1 = (x, s2, w2)" by (metis prod_cases3)
  define n where "n = unat (spill_get_u64 (drop 8 h))"
  have hd: "length h = spill_header_size" "\<not> spill_header_bad h" and
    e: "\<exists>e. spill_record_end (rd_bytes r) n = Some e \<and> x = Inr p \<and>
      r' = Some (r\<lparr>rd_file := Some s2, rd_bytes := e, rd_count := rd_count r + 1\<rparr>)"
    using assms(1) unfolding reader_next_eq [OF assms(2) h x n_def] by (auto split: if_splits option.splits sum.splits)
  from e obtain e' where e': "spill_record_end (rd_bytes r) n = Some e'" "x = Inr p"
      "r' = Some (r\<lparr>rd_file := Some s2, rd_bytes := e', rd_count := rd_count r + 1\<rparr>)" by blast
  note snd = header_record_sound [OF h hd x [unfolded e'(2)]]
  show ?thesis using snd spill_record_end_Some [OF e'(1)] e'(3) by (auto simp: n_def)
qed

lemma reader_next_end:
  assumes "milena_spill_reader_next (Some r) buf cap w = (Inr None, r', w')" and "rd_file r = Some s"
  shows "is_rest s = []"
proof -
  obtain h s1 w1 where h: "fread spill_header_size s w = (h, s1, w1)" by (metis prod_cases3)
  obtain x s2 w2 where x: "read_record s1 (unat (spill_get_u64 (drop 8 h))) w1 = (x, s2, w2)" by (metis prod_cases3)
  have "h = [] \<and> \<not> is_error s1"
    using assms(1) unfolding reader_next_eq [OF assms(2) h x refl] by (auto split: if_splits option.splits sum.splits)
  then show ?thesis using fread_front(3) [OF h] by (simp add: spill_header_size_def)
qed

text \<open>Reading a run to its end, or to the first refusal, with at most \<open>n\<close> calls.\<close>

fun read_run :: "nat \<Rightarrow> nat \<Rightarrow> spill_reader \<Rightarrow> world \<Rightarrow> bytes list" where
  "read_run 0 cap r w = []"
| "read_run (Suc n) cap r w =
     (case milena_spill_reader_next (Some r) True cap w of
        (Inr (Some p), Some r', w') \<Rightarrow> p # read_run n cap r' w'
      | _ \<Rightarrow> [])"

lemma frame_inject:
  assumes "spill_frame p @ x = spill_frame q @ y" and "length p \<le> size_max" and "length q \<le> size_max"
  shows "p = q \<and> x = y"
proof -
  have "take 16 (spill_frame p @ x) = spill_header (length p)" "take 16 (spill_frame q @ y) = spill_header (length q)"
    by (simp_all add: spill_frame_def)
  then have "spill_header (length p) = spill_header (length q)" using assms(1) by simp
  then have l: "length p = length q" using spill_header_read(2) assms(2,3) by metis
  then have "spill_frame p = spill_frame q" "x = y" using assms(1) append_eq_append_conv [of "spill_frame p" "spill_frame q" x y] by simp_all
  moreover have "take (length q) (drop 16 (spill_frame q)) = q" for q by (simp add: spill_frame_def)
  ultimately show ?thesis using l by metis
qed

lemma read_run_prefix:
  assumes "rd_file r = Some s" and "is_rest s = spill_image ps" and "\<forall>p \<in> set ps. length p \<le> size_max"
    and "length (spill_image ps) \<le> size_max"
  shows "prefix (read_run n cap r w) ps"
  using assms
proof (induction n arbitrary: ps r s w)
  case 0
  then show ?case by simp
next
  case (Suc n)
  obtain x r1 w1 where x: "milena_spill_reader_next (Some r) True cap w = (x, r1, w1)" by (metis prod_cases3)
  show ?case
  proof (cases "\<exists>p. x = Inr (Some p)")
    case False
    then show ?thesis using x by (auto split: sum.splits option.splits)
  next
    case True
    then obtain p where p: "x = Inr (Some p)" by blast
    from reader_next_sound [of r True cap w p r1 w1] x p Suc.prems(1) obtain s' where
      s': "is_rest s = spill_frame p @ is_rest s'" and r1: "r1 = Some (r\<lparr>rd_file := Some s', rd_bytes := rd_bytes r + length (spill_frame p),
      rd_count := rd_count r + 1\<rparr>)" by auto
    have lp: "length p \<le> size_max"
      using arg_cong [OF s', of length] Suc.prems(2,4) by simp
    obtain q qs where ps: "ps = q # qs" using s' Suc.prems(2) by (cases ps) auto
    have "p = q \<and> is_rest s' = spill_image qs"
      using frame_inject [of p "is_rest s'" q "spill_image qs"] s' Suc.prems(2,3) lp ps by simp
    then show ?thesis using Suc.IH [of _ s' qs w1] Suc.prems(3,4) x p r1 ps by simp
  qed
qed

lemma scan_error: "scan_store_from q m off n s w = (Inl e, s', w') \<Longrightarrow> e \<noteq> MILENA_OK"
proof (induction q m off n s w rule: scan_store_from.induct)
  case (1 q m off n s w)
  obtain r1 s1 w1 where r: "scan_record q m off n s w = (r1, s1, w1)" by (metis prod_cases3)
  show ?case
  proof (cases r1)
    case (Scan_error e')
    then have "e' \<noteq> MILENA_OK"
      using r by (auto simp: scan_record_def Let_def split: prod.splits if_splits option.splits sum.splits)
    then show ?thesis using "1.prems" r Scan_error by (simp add: scan_store_from.simps)
  next
    case (Scan_record p e)
    then show ?thesis using "1.IH" [OF r [symmetric] Scan_record refl] "1.prems" r by (simp add: scan_store_from.simps)
  qed (use "1.prems" r in \<open>simp add: scan_store_from.simps\<close>)
qed

lemma recover_error: "milena_spill_store_recover path quota m w = (Inl e, w') \<Longrightarrow> e \<noteq> MILENA_OK"
  by (auto simp: milena_spill_store_recover_def scan_store_def Let_def dest: scan_error
      split: if_splits prod.splits opened.splits option.splits sum.splits)

text \<open>
  Whatever fails, a reader opened on a file delivers a leading part of the file's complete
  records: never a damaged one, never one out of order.
\<close>

lemma spill_reader_safe:
  assumes "milena_spill_reader_open (Some path) quota max_record r0 w = (MILENA_OK, r, w')"
    and "w_files w path = Some c" and "length c \<le> size_max"
  shows "\<exists>ps tail. c = spill_image ps @ tail \<and> prefix (read_run n cap r w') ps"
proof -
  obtain rec w1 where rc: "milena_spill_store_recover (Some path) quota max_record w = (Inr rec, w1)"
    and o': "\<exists>s. fopen_read path w1 = (Opened s, w') \<and> rd_file r = Some s"
    using assms(1) recover_error [of "Some path" quota max_record w MILENA_OK]
    by (auto simp: milena_spill_reader_open_def split: if_splits prod.splits sum.splits opened.splits)
  from o' obtain s where s: "fopen_read path w1 = (Opened s, w')" "rd_file r = Some s" by blast
  from recover_preserves [OF rc assms(2)] obtain ps tail where
    ps: "c = spill_image ps @ tail" "w_files w1 path = Some (spill_image ps)" by auto
  have rest: "is_rest s = spill_image ps"
    using s(1) ps(2) by (auto simp: fopen_read_def ask_def split: option.splits)
  have len: "length p \<le> length (spill_image ps)" if "p \<in> set ps" for p using that by (induction ps) auto
  have tot: "length (spill_image ps) \<le> size_max" using assms(3) ps(1) by simp
  have "prefix (read_run n cap r w') ps"
    using read_run_prefix [OF s(2) rest _ tot] len tot le_trans by blast
  then show ?thesis using ps(1) by blast
qed

lemma reader_next_calm:
  assumes "calm w" and "rd_file r = Some s" and "is_rest s = spill_frame p @ rest" and "length p \<le> rd_max_record r"
    and "length p \<le> cap" and "rd_bytes r + length (spill_frame p) \<le> rd_quota r" and "rd_quota r \<le> size_max"
    and "rd_count r \<noteq> size_max"
  shows "\<exists>w'. milena_spill_reader_next (Some r) True cap w = (Inr (Some p),
      Some (r\<lparr>rd_file := Some (s\<lparr>is_rest := rest\<rparr>), rd_bytes := rd_bytes r + length (spill_frame p), rd_count := rd_count r + 1\<rparr>), w') \<and>
    calm w'"
proof -
  define s1 where "s1 = s\<lparr>is_rest := p @ spill_put_u32 (spill_checksum p) @ rest\<rparr>"
  have f: "fread spill_header_size s w = (spill_header (length p), s1, tick w)"
    using assms(1,3) by (simp add: calm_calls spill_frame_def s1_def spill_header_size_def)
  have s1: "is_rest s1 = p @ spill_put_u32 (spill_checksum p) @ rest" by (simp add: s1_def)
  obtain w3 where r: "read_record s1 (length p) (tick w) = (Inr p, s1\<lparr>is_rest := rest\<rparr>, w3)" "calm_step (tick w) w3"
    using read_record_calm [OF _ s1, of "tick w"] assms(1) by auto
  have e: "spill_record_end (rd_bytes r) (length p) = Some (rd_bytes r + length p + 20)"
    using assms(6,7) spill_record_end_eq [of "rd_bytes r" "length p"] by simp
  have hd: "spill_header (length p) \<noteq> []" "length (spill_header (length p)) = spill_header_size" "length p \<le> size_max"
    using length_spill_header [of "length p"] assms(6,7) by (auto simp: spill_header_size_def simp del: length_spill_header)
  show ?thesis
    using hd spill_header_read [OF hd(3)] assms(2,4,5,6,8) e r
    by (simp add: milena_spill_reader_next_def f s1_def calm_step_def)
qed

lemma read_run_calm:
  assumes "calm w" and "rd_file r = Some s" and "is_rest s = spill_image ps"
    and "\<forall>p \<in> set ps. length p \<le> rd_max_record r \<and> length p \<le> cap"
    and "rd_bytes r + length (spill_image ps) \<le> rd_quota r" and "rd_quota r \<le> size_max" and "rd_count r + length ps \<le> size_max"
  shows "read_run (length ps) cap r w = ps"
  using assms
proof (induction ps arbitrary: r s w)
  case Nil
  then show ?case by simp
next
  case (Cons p ps)
  obtain w1 where n: "milena_spill_reader_next (Some r) True cap w = (Inr (Some p),
      Some (r\<lparr>rd_file := Some (s\<lparr>is_rest := spill_image ps\<rparr>), rd_bytes := rd_bytes r + length (spill_frame p), rd_count := rd_count r + 1\<rparr>), w1)"
    and c: "calm w1"
    using reader_next_calm [of w r s p "spill_image ps" cap] Cons.prems by auto
  have "read_run (length ps) cap (r\<lparr>rd_file := Some (s\<lparr>is_rest := spill_image ps\<rparr>), rd_bytes := rd_bytes r + length (spill_frame p),
      rd_count := rd_count r + 1\<rparr>) w1 = ps"
    using Cons.prems by (intro Cons.IH [OF c, of _ "s\<lparr>is_rest := spill_image ps\<rparr>"]) simp_all
  then show ?case using n by simp
qed

lemma reader_replay:
  assumes "w_files w path = Some (spill_image ps @ t)" and "torn max_record t" and "\<forall>p \<in> set ps. length p \<le> max_record"
    and "length (spill_image ps) \<le> quota" and "\<not> spill_limits_bad (Some path) quota max_record"
    and "quota + max_record + 20 \<le> int64_max" and "length (spill_image ps @ t) \<le> int64_max" and "recover_ready path w"
  shows "\<exists>r w'. milena_spill_reader_open (Some path) quota max_record r0 w = (MILENA_OK, r, w') \<and>
    read_run (length ps) max_record r w' = ps"
proof -
  from recover_torn [OF assms] obtain w1 rc where
    r: "milena_spill_store_recover (Some path) quota max_record w = (Inr rc, w1)"
      "w_files w1 path = Some (spill_image ps)" "calm w1" by blast
  define s where "s = \<lparr>is_rest = spill_image ps, is_error = False\<rparr>"
  define rd where "rd = \<lparr>rd_file = Some s, rd_quota = quota, rd_max_record = max_record, rd_bytes = 0, rd_count = 0\<rparr>"
  have "milena_spill_reader_open (Some path) quota max_record r0 w = (MILENA_OK, rd, tick w1)"
    using r assms(5) by (simp add: milena_spill_reader_open_def spill_limits_bad_def calm_calls s_def rd_def)
  moreover have "read_run (length ps) max_record rd (tick w1) = ps"
  proof (rule read_run_calm [where s = s])
    have "length xs \<le> length (spill_image xs)" for xs by (induction xs) simp_all
    from this [of ps] show "rd_count rd + length ps \<le> size_max" using assms(4,6) by (simp add: rd_def int64_max_def size_max_def)
    show "rd_quota rd \<le> size_max" using assms(6) by (simp add: rd_def int64_max_def size_max_def)
  qed (use r(3) assms(3,4) in \<open>simp_all add: rd_def s_def\<close>)
  ultimately show ?thesis by blast
qed

text \<open>
  When nothing fails, a reader opened on a store, torn tail included, delivers every complete
  record in order.
\<close>

theorem spill_reader_replay:
  assumes "w_files w path = Some (spill_image ps @ t)" and "torn max_record t" and "\<forall>p \<in> set ps. length p \<le> max_record"
    and "length (spill_image ps) \<le> quota" and "\<not> spill_limits_bad (Some path) quota max_record"
    and "quota + max_record + 20 \<le> int64_max" and "length (spill_image ps @ t) \<le> int64_max" and "recover_ready path w"
  shows "\<exists>r w'. milena_spill_reader_open (Some path) quota max_record r0 w = (MILENA_OK, r, w') \<and>
    read_run (length ps) max_record r w' = ps"
  using assms by (rule reader_replay)

interpretation spill_fnv: fnv32 16777619 899433627 2166136261
proof
  show "(16777619 :: u32) * 899433627 = 1" by (simp only: word_unat_eq_iff) simp
qed

text \<open>
  A record with one payload byte changed on disk is never delivered, whatever else happens.
\<close>

theorem spill_reader_detects:
  assumes "rd_file r = Some s" and "is_rest s = (spill_frame p)[16 + i := b] @ rest" and "i < length p" and "b \<noteq> p ! i"
    and "length (is_rest s) \<le> size_max"
  shows "\<exists>e. fst (milena_spill_reader_next (Some r) buf cap w) = Inl e"
proof (rule ccontr)
  assume "\<nexists>e. fst (milena_spill_reader_next (Some r) buf cap w) = Inl e"
  then obtain v r' w' where v: "milena_spill_reader_next (Some r) buf cap w = (Inr v, r', w')"
    by (cases "milena_spill_reader_next (Some r) buf cap w"; cases "fst (milena_spill_reader_next (Some r) buf cap w)") auto
  have fr: "(spill_frame p)[16 + i := b] = spill_header (length p) @ p[i := b] @ spill_put_u32 (spill_checksum p)"
    using assms(3) by (simp add: spill_frame_def list_update_append)
  have "is_rest s \<noteq> []" using assms(2) fr length_spill_header [of "length p"] by auto
  then obtain q where q: "v = Some q" using reader_next_end [of r buf cap w r' w' s] v assms(1) by (cases v) auto
  obtain s' :: in_stream where s': "is_rest s = spill_frame q @ is_rest s'"
    using reader_next_sound [OF v [unfolded q] assms(1)] by blast
  have "spill_header (length q) = take 16 (is_rest s)" using s' by (simp add: spill_frame_def)
  also have "\<dots> = spill_header (length p)" using assms(2) fr by simp
  finally have "spill_header (length q) = spill_header (length p)" .
  moreover have "length q \<le> length (is_rest s)" unfolding s' by simp
  moreover have "length p \<le> length (is_rest s)" unfolding assms(2) by simp
  ultimately have l: "length q = length p" using spill_header_read(2) assms(5) le_trans by metis
  have eq: "p[i := b] @ spill_put_u32 (spill_checksum p) @ rest = q @ spill_put_u32 (spill_checksum q) @ is_rest s'"
  proof -
    have "is_rest s = spill_header (length p) @ p[i := b] @ spill_put_u32 (spill_checksum p) @ rest"
      using assms(2) fr by simp
    moreover have "is_rest s = spill_header (length p) @ q @ spill_put_u32 (spill_checksum q) @ is_rest s'"
      using s' l by (simp add: spill_frame_def)
    ultimately show ?thesis by (metis same_append_eq)
  qed
  have pq: "p[i := b] = q" using append_eq_append_conv [THEN iffD1, OF _ eq] l by simp
  have "spill_put_u32 (spill_checksum p) @ rest = spill_put_u32 (spill_checksum q) @ is_rest s'"
    using eq unfolding pq same_append_eq .
  then have "spill_put_u32 (spill_checksum p) = spill_put_u32 (spill_checksum q)"
    by (simp add: spill_put_u32_def append_eq_append_conv)
  then have "spill_checksum p = spill_checksum q"
    using get_u32_put [of "spill_put_u32 (spill_checksum p)"] by (metis get_u32_put length_put_le spill_put_u32_def)
  then show False using spill_fnv.one_byte [OF assms(3,4)] pq by (simp add: spill_checksum_def)
qed

text \<open>The store \<open>s\<close> holds two complete records; the sixth fallible call delivers 8 bytes and an error.\<close>

definition faulty_world :: world where
  "faulty_world = \<lparr>w_files = (\<lambda>q. if q = ''s'' then Some (spill_image [[], []]) else None),
     w_fault = (\<lambda>i. if i = 6 then Some 8 else None), w_tick = 0, w_serial = 0, w_pid = 1\<rparr>"

definition faulty_at :: "nat \<Rightarrow> world" where
  "faulty_at n = faulty_world\<lparr>w_tick := n\<rparr>"

lemma faulty_ask: "ask (faulty_at n) = (if n = 6 then Some 8 else None, faulty_at (Suc n))"
  by (simp add: ask_def faulty_at_def faulty_world_def)

lemma faulty_first:
  "scan_record 1000 10 0 0 \<lparr>is_rest = spill_image [[], []], is_error = False\<rparr> (faulty_at 4) =
    (Scan_record [] 20, \<lparr>is_rest = spill_image [[]], is_error = False\<rparr>, faulty_at 6)"
proof -
  define T where "T = spill_put_u32 (spill_checksum [])"
  have T: "length T = 4" "spill_get_u32 T = spill_checksum []" using get_u32_put [of T] by (simp_all add: T_def spill_put_u32_def)
  have frame: "spill_frame [] = spill_header 0 @ T" by (simp add: spill_frame_def T_def)
  have h: "spill_header 0 \<noteq> []" using length_spill_header [of 0] by (metis list.size(3) zero_neq_numeral)
  have f: "fread spill_header_size \<lparr>is_rest = spill_image [[], []], is_error = False\<rparr> (faulty_at 4) =
     (spill_header 0, \<lparr>is_rest = T @ spill_image [[]], is_error = False\<rparr>, faulty_at 5)"
    by (simp add: fread_def faulty_ask frame spill_header_size_def)
  have r: "read_record \<lparr>is_rest = T @ spill_image [[]], is_error = False\<rparr> 0 (faulty_at 5) =
     (Inr [], \<lparr>is_rest = spill_image [[]], is_error = False\<rparr>, faulty_at 6)"
    using T by (simp add: read_record_def read_exact_def spill_trailer_size_def fread_def faulty_ask)
  have e: "spill_record_end 0 0 = Some 20" using spill_record_end_eq [of 0 0] by (simp add: size_max_def)
  show ?thesis
    unfolding scan_record_def f prod.case Let_def
    using h spill_header_read [of 0] r e by (simp add: size_max_def spill_header_size_def malloc_ok_def)
qed

lemma faulty_second:
  "\<exists>s'. scan_record 1000 10 20 1 \<lparr>is_rest = spill_image [[]], is_error = False\<rparr> (faulty_at 6) = (Scan_stop True, s', faulty_at 7)"
proof -
  obtain h s' where f: "fread spill_header_size \<lparr>is_rest = spill_image [[]], is_error = False\<rparr> (faulty_at 6) = (h, s', faulty_at 7)"
    and h: "length h = 8"
    by (simp add: fread_def faulty_ask spill_header_size_def)
  then show ?thesis using h by (cases h) (auto simp: scan_record_def f spill_header_size_def)
qed

text \<open>
  A read error in the middle of a record header is taken for a damaged tail: recovery of a
  store of two complete records then reports success and has dropped the second from the file.
\<close>

lemma spill_recover_read_error:
  "\<exists>rc w'. milena_spill_store_recover (Some ''s'') 1000 10 faulty_world = (Inr rc, w') \<and>
     w_files faulty_world ''s'' = Some (spill_image [[], []]) \<and>
     rc_records rc = 1 \<and> rc_truncated rc \<and> w_files w' ''s'' = Some (spill_image [[]])"
proof -
  obtain s' where "scan_record 1000 10 20 1 \<lparr>is_rest = spill_image [[]], is_error = False\<rparr> (faulty_at 6) = (Scan_stop True, s', faulty_at 7)"
    using faulty_second by blast
  then have "scan_store_from 1000 10 20 1 \<lparr>is_rest = spill_image [[]], is_error = False\<rparr> (faulty_at 6) = (Inr (20, 1, True), s', faulty_at 7)"
    by (subst scan_store_from.simps) simp
  then have scan: "scan_store 1000 10 \<lparr>is_rest = spill_image [[], []], is_error = False\<rparr> (faulty_at 4) = (Inr (20, 1, True), s', faulty_at 7)"
    unfolding scan_store_def by (subst scan_store_from.simps) (simp add: faulty_first del: spill_image_simps)
  have calls: "fopen_read ''s'' (faulty_at 0) = (Opened \<lparr>is_rest = spill_image [[], []], is_error = False\<rparr>, faulty_at 1)"
    "milena_file_seek64 (faulty_at 1) = (True, faulty_at 2)" "milena_file_tell64 40 (faulty_at 2) = (Some 40, faulty_at 3)"
    "milena_file_seek64 (faulty_at 3) = (True, faulty_at 4)" "call_ok (faulty_at 7) = (True, faulty_at 8)"
    by (simp_all add: fopen_read_def milena_file_seek64_def milena_file_tell64_def call_ok_def faulty_ask int64_max_def,
        simp_all add: faulty_at_def faulty_world_def)
  have ready: "recover_ready ''s'' (faulty_at 8)"
    by (simp add: recover_ready_def calm_def faulty_at_def faulty_world_def recover_name_def size_max_def)
  have held: "w_files (faulty_at 8) ''s'' = Some (spill_image [[], []])" by (simp add: faulty_at_def faulty_world_def)
  obtain w' where r: "replace_by_prefix ''s'' 20 (faulty_at 8) = (MILENA_OK, w')"
    using replace_by_prefix_calm [OF ready held, of 20] by auto
  have "take 20 (spill_image [[], []]) = spill_image [[]]" by simp
  then have "w_files w' ''s'' = Some (spill_image [[]])" using replace_by_prefix_spec [OF r held] by simp
  moreover have "milena_spill_store_recover (Some ''s'') 1000 10 (faulty_at 0) =
    (Inr \<lparr>rc_records = 1, rc_bytes = 20, rc_discarded = 20, rc_truncated = True\<rparr>, w')"
    unfolding milena_spill_store_recover_def option.sel
    using calls scan r by (simp add: spill_limits_bad_def spill_header_size_def spill_trailer_size_def size_max_def)
  moreover have "faulty_at 0 = faulty_world" by (simp add: faulty_at_def faulty_world_def)
  ultimately show ?thesis using held by (simp add: faulty_at_def)
qed

section \<open>Witnesses\<close>

definition spill_world :: "(nat \<Rightarrow> nat option) \<Rightarrow> bytes \<Rightarrow> world" where
  "spill_world f c = \<lparr>w_files = (\<lambda>q. if q = ''s'' then Some c else None), w_fault = f, w_tick = 0, w_serial = 0, w_pid = 1\<rparr>"

abbreviation steady :: "nat \<Rightarrow> nat option" where "steady \<equiv> \<lambda>_. None"

lemma spill_world_files [simp]: "w_files (spill_world f c) ''s'' = Some c" "q \<noteq> ''s'' \<Longrightarrow> w_files (spill_world f c) q = None"
  by (simp_all add: spill_world_def)

lemma spill_world_ready: "recover_ready ''s'' (spill_world steady c)"
  by (simp add: recover_ready_def calm_def spill_world_def recover_name_def size_max_def)

lemma torn_take: "n < length p + 20 \<Longrightarrow> length p \<le> m \<Longrightarrow> torn m (take n (spill_frame p))"
  unfolding torn_def strict_prefix_def
  by (intro exI [of _ p]) (auto simp: take_is_prefix dest: arg_cong [of _ _ length])

lemma spill_limits_demo: "\<not> spill_limits_bad (Some ''s'') 1000 10"
  by (simp add: spill_limits_bad_def spill_header_size_def spill_trailer_size_def)


theorem spill_recover_torn_witness:
  "\<exists>w'. milena_spill_store_recover (Some ''s'') 1000 10
      (spill_world steady (spill_image [[1], [2, 3]] @ take 9 (spill_frame [7]))) =
      (Inr \<lparr>rc_records = 2, rc_bytes = 43, rc_discarded = 9, rc_truncated = True\<rparr>, w') \<and>
    w_files w' ''s'' = Some (spill_image [[1], [2, 3]])"
  using spill_recover_torn [of "spill_world steady (spill_image [[1], [2, 3]] @ take 9 (spill_frame [7]))" "''s''"
      "[[1], [2, 3]]" "take 9 (spill_frame [7])" 10 1000] torn_take [of 9 "[7]" 10] spill_limits_demo spill_world_ready
  by (simp add: int64_max_def take_eq_Nil2) (auto simp: spill_frame_not_Nil [symmetric])

definition spill_demo :: spill_store where
  "spill_demo = \<lparr>st_file = Some \<lparr>os_path = ''s'', os_pending = []\<rparr>, st_path = Some ''s'', st_quota = 1000, st_max_record = 10,
     st_used = 21, st_count = 1, st_failed = False\<rparr>"

lemma spill_demo_ok: "store_ok ''s'' [[1]] spill_demo (spill_world f (spill_image [[1]]))"
  by (simp add: store_ok_def spill_demo_def)

lemma spill_demo_append:
  "\<exists>status st' w'. milena_spill_store_append (Some spill_demo) (Some [4, 5]) (length [4, 5 :: u8]) (spill_world f (spill_image [[1]])) =
    (status, Some st', w')"
proof -
  obtain status st' w' where a: "milena_spill_store_append (Some spill_demo) (Some [4, 5]) (length [4, 5 :: u8])
    (spill_world f (spill_image [[1]])) = (status, st', w')" by (metis prod_cases3)
  then show ?thesis using append_parts [OF spill_demo_ok a] by auto
qed

theorem spill_append_outcome_witness:
  "\<exists>status st' w'. milena_spill_store_append (Some spill_demo) (Some [4, 5]) 2
      (spill_world (\<lambda>i. if i = 1 then Some 1 else None) (spill_image [[1]])) = (status, Some st', w') \<and>
    (if status = MILENA_OK then store_ok ''s'' [[1], [4, 5]] st' w'
     else if status = MILENA_ERR_IO
          then st_failed st' \<and> (\<exists>t. prefix t (spill_frame [4, 5]) \<and> w_files w' ''s'' = Some (spill_image [[1]] @ t))
          else st' = spill_demo)"
proof -
  obtain status st' w' where a: "milena_spill_store_append (Some spill_demo) (Some [4, 5]) (length [4, 5 :: u8])
    (spill_world (\<lambda>i. if i = 1 then Some 1 else None) (spill_image [[1]])) = (status, Some st', w')"
    using spill_demo_append by blast
  have "milena_spill_store_append (Some spill_demo) (Some [4, 5]) 2
    (spill_world (\<lambda>i. if i = 1 then Some 1 else None) (spill_image [[1]])) = (status, Some st', w')"
    using a by (simp add: numeral_2_eq_2)
  then show ?thesis using spill_append_outcome [OF spill_demo_ok a] by (auto split: if_splits)
qed

theorem spill_append_reopen_witness:
  "\<exists>w1 w2 qs st2 w3. snd (snd (milena_spill_store_append (Some spill_demo) (Some [4, 5]) 2
      (spill_world (\<lambda>i. if i = 2 then Some 30 else None) (spill_image [[1]])))) = w1 \<and>
    w_files w2 ''s'' = w_files w1 ''s'' \<and>
    milena_spill_store_open (Some ''s'') 1000 10 spill_closed w2 = (MILENA_OK, st2, w3) \<and>
    store_ok ''s'' qs st2 w3 \<and> qs \<in> {[[1]], [[1], [4, 5]]}"
proof -
  obtain status st' w1 where a: "milena_spill_store_append (Some spill_demo) (Some [4, 5]) (length [4, 5 :: u8])
    (spill_world (\<lambda>i. if i = 2 then Some 30 else None) (spill_image [[1]])) = (status, Some st', w1)"
    using spill_demo_append by blast
  obtain c where c: "w_files w1 ''s'' = Some c"
    using append_parts [OF spill_demo_ok a] by auto
  define w2 where "w2 = spill_world steady c"
  have "\<exists>qs st2 w3. milena_spill_store_open (Some ''s'') (st_quota spill_demo) (st_max_record spill_demo) spill_closed w2 = (MILENA_OK, st2, w3) \<and>
    store_ok ''s'' qs st2 w3 \<and> (qs = [[1]] \<or> qs = [[1]] @ [[4, 5]]) \<and> (status = MILENA_OK \<longrightarrow> qs = [[1]] @ [[4, 5]])"
    by (rule spill_append_reopen [OF spill_demo_ok a])
      (use c spill_world_ready spill_limits_demo in \<open>simp_all add: w2_def spill_demo_def int64_max_def\<close>)
  moreover have "st_quota spill_demo = 1000" "st_max_record spill_demo = 10" by (simp_all add: spill_demo_def)
  moreover have "snd (snd (milena_spill_store_append (Some spill_demo) (Some [4, 5]) 2
      (spill_world (\<lambda>i. if i = 2 then Some 30 else None) (spill_image [[1]])))) = w1"
    using a by (simp add: numeral_2_eq_2)
  moreover have "w_files w2 ''s'' = w_files w1 ''s''" using c by (simp add: w2_def)
  ultimately show ?thesis by auto
qed

definition no_reader :: spill_reader where
  "no_reader = \<lparr>rd_file = None, rd_quota = 0, rd_max_record = 0, rd_bytes = 0, rd_count = 0\<rparr>"

theorem spill_reader_safe_witness:
  "\<exists>r w' ps tail. milena_spill_reader_open (Some ''s'') 1000 10 no_reader (spill_world steady (spill_image [[1], [2]])) = (MILENA_OK, r, w') \<and>
    spill_image [[1], [2]] = spill_image ps @ tail \<and> prefix (read_run 5 10 r w') ps"
proof -
  have "torn 10 []" using torn_take [of 0 "[]" 10] by simp
  then obtain r w' where o': "milena_spill_reader_open (Some ''s'') 1000 10 no_reader (spill_world steady (spill_image [[1], [2]])) = (MILENA_OK, r, w')"
    using reader_replay [of "spill_world steady (spill_image [[1], [2]])" "''s''" "[[1], [2]]" "[]" 10 1000 no_reader]
      spill_limits_demo spill_world_ready by (auto simp: int64_max_def)
  have "length (spill_image [[1], [2]]) \<le> size_max" by (simp add: size_max_def)
  from o' spill_reader_safe [OF o' _ this, of 5 10] show ?thesis by auto
qed

theorem spill_reader_replay_witness:
  "\<exists>r w'. milena_spill_reader_open (Some ''s'') 1000 10 no_reader (spill_world steady (spill_image [[1], [2]] @ take 17 (spill_frame [9]))) =
      (MILENA_OK, r, w') \<and> read_run 2 10 r w' = [[1], [2]]"
  using spill_reader_replay [of "spill_world steady (spill_image [[1], [2]] @ take 17 (spill_frame [9]))" "''s''" "[[1], [2]]"
      "take 17 (spill_frame [9])" 10 1000 no_reader] torn_take [of 17 "[9]" 10] spill_limits_demo spill_world_ready
  by (simp add: int64_max_def numeral_2_eq_2 del: read_run.simps)

theorem spill_reader_detects_witness:
  "\<exists>e. fst (milena_spill_reader_next
     (Some (no_reader\<lparr>rd_file := Some \<lparr>is_rest = (spill_frame [5, 6])[16 + 1 := 9], is_error = False\<rparr>,
        rd_quota := 100, rd_max_record := 10\<rparr>)) True 10 (spill_world steady [])) = Inl e"
  by (rule spill_reader_detects [where s = "\<lparr>is_rest = (spill_frame [5, 6])[16 + 1 := 9], is_error = False\<rparr>" and p = "[5, 6]" and i = 1 and b = 9 and rest = "[]"]) (simp_all add: size_max_def)

end
