(* ===== verification/ExternalMerge.thy ===== *)
theory ExternalMerge
  imports MergeHeap SpillProps "HOL-Library.While_Combinator"
begin

text \<open>
  external_merge.c: the merge of sorted spill runs of binary64 values into a new spill file.

  \<open>merge_state\<close> is the local state of \<open>milena_external_merge_double_runs\<close> together with the world;
  \<open>merge_open\<close> is its first loop, \<open>merge_step\<close> one iteration of its main loop and \<open>merge_loop\<close> the
  loop, a \<open>while_option\<close>, whose value is \<open>None\<close> if it never ends.
\<close>

definition double_size :: nat where "double_size = 8"

definition decode_double :: "bytes \<Rightarrow> f64" where "decode_double bs = get_le 8 bs"
definition encode_double :: "f64 \<Rightarrow> bytes" where "encode_double v = put_le 8 v"

record merge_state =
  ms_heap :: "heap_node list"
  ms_previous :: "f64 list"
  ms_have :: "bool list"
  ms_readers :: "spill_reader list"
  ms_output :: spill_store
  ms_world :: world

text \<open>The next value of a run, checked for size and finiteness.\<close>

definition fetch_value :: "spill_reader \<Rightarrow> world \<Rightarrow> (MilenaStatus + f64 option) \<times> spill_reader \<times> world" where
  "fetch_value reader w =
     (case milena_spill_reader_next (Some reader) True double_size w of
        (Inl e, r, w) \<Rightarrow> (Inl e, the r, w)
      | (Inr None, r, w) \<Rightarrow> (Inr None, the r, w)
      | (Inr (Some bs), r, w) \<Rightarrow>
          (if length bs \<noteq> double_size then Inl MILENA_ERR_DATA
           else if \<not> f_finite (decode_double bs) then Inl MILENA_ERR_DATA
           else Inr (Some (decode_double bs)), the r, w))"

text \<open>Opening the runs from index \<open>i\<close>; the number is that of the opened readers.\<close>

fun merge_open :: "string option list \<Rightarrow> nat \<Rightarrow> nat \<Rightarrow> merge_state \<Rightarrow> MilenaStatus \<times> nat \<times> merge_state" where
  "merge_open [] quota i st = (MILENA_OK, i, st)"
| "merge_open (path # paths) quota i st =
     (case milena_spill_reader_open path quota double_size (ms_readers st ! i) (ms_world st) of (status, rd, w) \<Rightarrow>
      if status \<noteq> MILENA_OK then (status, i, st\<lparr>ms_readers := (ms_readers st)[i := rd], ms_world := w\<rparr>)
      else case fetch_value rd w of (res, rd, w) \<Rightarrow>
        let st = st\<lparr>ms_readers := (ms_readers st)[i := rd], ms_world := w\<rparr>
        in case res of
             Inl e \<Rightarrow> (e, i + 1, st)
           | Inr None \<Rightarrow> merge_open paths quota (i + 1) st
           | Inr (Some v) \<Rightarrow>
               merge_open paths quota (i + 1)
                 (st\<lparr>ms_heap := heap_push (ms_heap st) \<lparr>hn_value = v, hn_run = i, hn_present = True\<rparr>\<rparr>))"

definition merge_step :: "merge_state \<Rightarrow> MilenaStatus \<times> merge_state" where
  "merge_step st =
     (case heap_pop (ms_heap st) of (node, heap) \<Rightarrow>
      let r = hn_run node; st = st\<lparr>ms_heap := heap\<rparr>
      in if ms_have st ! r \<and> f_lt (hn_value node) (ms_previous st ! r) then (MILENA_ERR_DATA, st)
         else
           let st = st\<lparr>ms_previous := (ms_previous st)[r := hn_value node], ms_have := (ms_have st)[r := True]\<rparr>
           in case milena_spill_store_append (Some (ms_output st)) (Some (encode_double (hn_value node))) double_size (ms_world st) of
                (status, output, w) \<Rightarrow>
                let st = st\<lparr>ms_output := the output, ms_world := w\<rparr>
                in if status \<noteq> MILENA_OK then (status, st)
                   else case fetch_value (ms_readers st ! r) (ms_world st) of (res, rd, w) \<Rightarrow>
                     let st = st\<lparr>ms_readers := (ms_readers st)[r := rd], ms_world := w\<rparr>
                     in case res of
                          Inl e \<Rightarrow> (e, st)
                        | Inr None \<Rightarrow> (MILENA_OK, st)
                        | Inr (Some v) \<Rightarrow>
                            (MILENA_OK, st\<lparr>ms_heap := heap_push (ms_heap st) \<lparr>hn_value = v, hn_run = r, hn_present = True\<rparr>\<rparr>))"

definition merge_loop :: "merge_state \<Rightarrow> (MilenaStatus \<times> merge_state) option" where
  "merge_loop st =
     while_option (\<lambda>(status, st). status = MILENA_OK \<and> ms_heap st \<noteq> []) (\<lambda>(status, st). merge_step st) (MILENA_OK, st)"

text \<open>\<open>existing = fopen(path, "rb")\<close>, closed again when it opens.\<close>

definition path_exists :: "string \<Rightarrow> world \<Rightarrow> bool \<times> world" where
  "path_exists path w =
     (case fopen_read path w of
        (Opened _, w) \<Rightarrow> (True, snd (call_ok w))
      | (_, w) \<Rightarrow> (False, w))"

definition partial_name :: "string \<Rightarrow> string" where
  "partial_name path = path @ ''.partial''"

text \<open>From the opened runs to the empty output; then from the end of the loop to the finished output.\<close>

definition merge_prepare :: "string \<Rightarrow> nat \<Rightarrow> merge_state \<Rightarrow> MilenaStatus \<times> merge_state" where
  "merge_prepare path quota st =
     (case milena_size_add (length path) (length ''.partial'' + 1) of None \<Rightarrow> (MILENA_ERR_OVERFLOW, st) | Some capacity \<Rightarrow>
      case malloc_ok capacity (ms_world st) of (ok, w) \<Rightarrow>
      if \<not> ok then (MILENA_ERR_MEMORY, st\<lparr>ms_world := w\<rparr>)
      else case path_exists path w of (found, w) \<Rightarrow>
      if found then (MILENA_ERR_ARGUMENT, st\<lparr>ms_world := w\<rparr>)
      else case path_exists (partial_name path) w of (found, w) \<Rightarrow>
      if found then (MILENA_ERR_ARGUMENT, st\<lparr>ms_world := w\<rparr>)
      else case milena_spill_store_open (Some (partial_name path)) quota double_size spill_closed w of (status, output, w) \<Rightarrow>
      (status, st\<lparr>ms_output := output, ms_world := (if status \<noteq> MILENA_OK then unlink (partial_name path) w else w)\<rparr>))"

definition merge_finish :: "string \<Rightarrow> MilenaStatus \<Rightarrow> merge_state \<Rightarrow> MilenaStatus \<times> merge_state" where
  "merge_finish path status st =
     (case milena_spill_store_close (Some (ms_output st)) (ms_world st) of (close_status, output, w) \<Rightarrow>
      let status = (if status = MILENA_OK then close_status else status)
      in case (if status = MILENA_OK then rename (partial_name path) path w else (True, w)) of (renamed, w) \<Rightarrow>
      let status = (if status = MILENA_OK \<and> \<not> renamed then MILENA_ERR_IO else status)
      in (status, st\<lparr>ms_output := the output,
                     ms_world := (if status \<noteq> MILENA_OK then unlink (partial_name path) w else w)\<rparr>))"

definition merge_write :: "string \<Rightarrow> nat \<Rightarrow> merge_state \<Rightarrow> (MilenaStatus \<times> merge_state) option" where
  "merge_write path quota st =
     (case merge_prepare path quota st of (status, st) \<Rightarrow>
      if status \<noteq> MILENA_OK then Some (status, st)
      else case merge_loop st of
             None \<Rightarrow> None
           | Some (status, st) \<Rightarrow> Some (merge_finish path status st))"

fun close_readers :: "spill_reader list \<Rightarrow> world \<Rightarrow> world" where
  "close_readers [] w = w"
| "close_readers (r # rs) w = close_readers rs (snd (snd (milena_spill_reader_close (Some r) w)))"

definition merge_arguments_bad :: "string option list option \<Rightarrow> nat \<Rightarrow> string option \<Rightarrow> nat \<Rightarrow> bool" where
  "merge_arguments_bad paths n output max_fan_in \<longleftrightarrow>
     paths = None \<or> n = 0 \<or> output = None \<or> output = Some [] \<or> max_fan_in < 2 \<or> n > max_fan_in"

definition merge_path_bad :: "string option \<Rightarrow> string option \<Rightarrow> bool" where
  "merge_path_bad output path \<longleftrightarrow> path = None \<or> path = Some [] \<or> path = output"

text \<open>The sizes of a reader, a heap node, a double and a bool on a 64-bit host.\<close>

definition merge_sizes_fit :: "nat \<Rightarrow> bool" where
  "merge_sizes_fit n \<longleftrightarrow> milena_size_mul n 40 \<noteq> None \<and> milena_size_mul n 24 \<noteq> None \<and>
     milena_size_mul n double_size \<noteq> None \<and> milena_size_mul n 1 \<noteq> None"

definition zero_reader :: spill_reader where
  "zero_reader = \<lparr>rd_file = None, rd_quota = 0, rd_max_record = 0, rd_bytes = 0, rd_count = 0\<rparr>"

text \<open>The four allocations; then the body that works on them.\<close>

definition merge_start :: "nat \<Rightarrow> world \<Rightarrow> merge_state" where
  "merge_start n w = \<lparr>ms_heap = [], ms_previous = replicate n 0, ms_have = replicate n False,
     ms_readers = replicate n zero_reader, ms_output = spill_closed, ms_world = w\<rparr>"

definition merge_body :: "string option list \<Rightarrow> string \<Rightarrow> nat \<Rightarrow> world \<Rightarrow> (MilenaStatus \<times> world) option" where
  "merge_body paths output quota w =
     (case merge_open paths quota 0 (merge_start (length paths) w) of (status, opened, st) \<Rightarrow>
      case (if status \<noteq> MILENA_OK then Some (status, st) else merge_write output quota st) of
        None \<Rightarrow> None
      | Some (status, st) \<Rightarrow> Some (status, close_readers (take opened (ms_readers st)) (ms_world st)))"

definition milena_external_merge_double_runs ::
  "string option list option \<Rightarrow> nat \<Rightarrow> string option \<Rightarrow> nat \<Rightarrow> nat \<Rightarrow> world \<Rightarrow> (MilenaStatus \<times> world) option"
where
  "milena_external_merge_double_runs paths n output max_fan_in quota w =
     (if merge_arguments_bad paths n output max_fan_in then Some (MILENA_ERR_ARGUMENT, w)
      else if list_ex (merge_path_bad output) (take n (the paths)) then Some (MILENA_ERR_ARGUMENT, w)
      else if \<not> merge_sizes_fit n then Some (MILENA_ERR_OVERFLOW, w)
      else case call_ok w of (ok1, w) \<Rightarrow> case call_ok w of (ok2, w) \<Rightarrow>
           case call_ok w of (ok3, w) \<Rightarrow> case call_ok w of (ok4, w) \<Rightarrow>
      if \<not> (ok1 \<and> ok2 \<and> ok3 \<and> ok4) then Some (MILENA_ERR_MEMORY, w)
      else merge_body (take n (the paths)) (the output) quota w)"

end
