(* ===== verification/MergeFiles.thy ===== *)
theory MergeFiles
  imports ExternalMerge
begin

text \<open>
  What the calls of the merge do to the files: a reader moves over its own stream only, recovery
  creates no file but its temporary one, and opening a run leaves it with its complete records.
\<close>

section \<open>Readers\<close>

lemma reader_next_files:
  assumes "milena_spill_reader_next (Some r) buf cap w = (res, r', w')" and "rd_file r = Some s"
  shows "w_files w' = w_files w" and "res = Inl e \<Longrightarrow> e \<noteq> MILENA_OK"
proof -
  obtain h s1 w1 where h: "fread spill_header_size s w = (h, s1, w1)" by (metis prod_cases3)
  obtain x s2 w2 where x: "read_record s1 (unat (spill_get_u64 (drop 8 h))) w1 = (x, s2, w2)" by (metis prod_cases3)
  have f: "w_files w1 = w_files w" "w_files w2 = w_files w" using fread_files [OF h] read_record_rest(2) [OF x] by simp_all
  show "w_files w' = w_files w"
    using assms(1) f unfolding reader_next_eq [OF assms(2) h x refl] by (auto split: if_splits option.splits sum.splits)
  show "res = Inl e \<Longrightarrow> e \<noteq> MILENA_OK"
    using assms(1) unfolding reader_next_eq [OF assms(2) h x refl] by (auto split: if_splits option.splits sum.splits)
qed

lemma reader_next_stream:
  assumes "milena_spill_reader_next (Some r) buf cap w = (res, r', w')" and "rd_file r = Some s"
  shows "\<exists>r1 s1. r' = Some r1 \<and> rd_file r1 = Some s1 \<and> length (is_rest s1) \<le> length (is_rest s)"
proof -
  obtain h s1 w1 where h: "fread spill_header_size s w = (h, s1, w1)" by (metis prod_cases3)
  obtain x s2 w2 where x: "read_record s1 (unat (spill_get_u64 (drop 8 h))) w1 = (x, s2, w2)" by (metis prod_cases3)
  have l1: "length (is_rest s1) \<le> length (is_rest s)" using fread_front(1) [OF h] by simp
  have l2: "length (is_rest s2) \<le> length (is_rest s)" using l1 read_record_rest(1) [OF x] by auto
  show ?thesis
    using assms(1) l1 l2 unfolding reader_next_eq [OF assms(2) h x refl] by (auto split: if_splits option.splits sum.splits)
qed

lemma encode_decode_double: "length bs = 8 \<Longrightarrow> encode_double (decode_double bs) = bs"
  using put_le_get_le [where 'a = 64 and n = 8] by (simp add: encode_double_def decode_double_def)

lemma decode_encode_double: "decode_double (encode_double v) = v"
  using get_le_put_le [where 'a = 64 and n = 8 and w = v] by (simp add: encode_double_def decode_double_def)

lemma length_encode_double [simp]: "length (encode_double v) = 8"
  by (simp add: encode_double_def)

lemma fetch_value_cases:
  assumes "fetch_value r w = (res, r', w')" and "rd_file r = Some s"
  shows "w_files w' = w_files w \<and> (\<exists>s'. rd_file r' = Some s' \<and>
    (case res of Inl e \<Rightarrow> e \<noteq> MILENA_OK \<and> length (is_rest s') \<le> length (is_rest s)
     | Inr None \<Rightarrow> is_rest s = [] \<and> is_rest s' = []
     | Inr (Some v) \<Rightarrow> is_rest s = spill_frame (encode_double v) @ is_rest s' \<and> f_finite v))"
proof -
  obtain x r1 w1 where n: "milena_spill_reader_next (Some r) True double_size w = (x, r1, w1)" by (metis prod_cases3)
  note files = reader_next_files [OF n assms(2)]
  obtain r2 s2 where r2: "r1 = Some r2" "rd_file r2 = Some s2" "length (is_rest s2) \<le> length (is_rest s)"
    using reader_next_stream [OF n assms(2)] by blast
  have eq: "(res, r', w') = (case x of Inl e \<Rightarrow> (Inl e, r2, w1) | Inr None \<Rightarrow> (Inr None, r2, w1)
      | Inr (Some bs) \<Rightarrow> (if length bs \<noteq> double_size then Inl MILENA_ERR_DATA
         else if \<not> f_finite (decode_double bs) then Inl MILENA_ERR_DATA else Inr (Some (decode_double bs)), r2, w1))"
    using assms(1) n r2(1) by (auto simp: fetch_value_def split: sum.splits option.splits)
  show ?thesis
  proof (cases x)
    case (Inl e)
    then show ?thesis using eq files r2 by auto
  next
    case (Inr y)
    show ?thesis
    proof (cases y)
      case None
      then have "is_rest s = []" using reader_next_end [of r True double_size w r1 w1 s] n Inr assms(2) by simp
      then show ?thesis using eq files(1) r2 None Inr by auto
    next
      case (Some bs)
      obtain s' :: in_stream where s': "is_rest s = spill_frame bs @ is_rest s'" "rd_file r2 = Some s'"
        using reader_next_sound [of r True double_size w bs r1 w1 s] n Inr Some assms(2) r2(1) by auto
      have rest: "is_rest s = spill_frame bs @ is_rest s2" using s' r2(2) by simp
      have eq': "(res, r', w') = (if length bs \<noteq> double_size then Inl MILENA_ERR_DATA
         else if \<not> f_finite (decode_double bs) then Inl MILENA_ERR_DATA else Inr (Some (decode_double bs)), r2, w1)"
        using eq Some Inr by simp
      consider "length bs \<noteq> 8 \<or> \<not> f_finite (decode_double bs)" "res = Inl MILENA_ERR_DATA"
        | "length bs = 8" "f_finite (decode_double bs)" "res = Inr (Some (decode_double bs))"
        using eq' by (auto simp: double_size_def split: if_splits)
      then show ?thesis
      proof cases
        case 1
        then show ?thesis using eq' files(1) r2 by simp
      next
        case 2
        then show ?thesis using eq' files(1) r2(2) rest encode_decode_double [OF 2(1)] by simp
      qed
    qed
  qed
qed

section \<open>Files\<close>

lemma path_exists_files:
  assumes "path_exists p w = (b, w')"
  shows "w_files w' = w_files w"
proof -
  obtain r w1 where r: "fopen_read p w = (r, w1)" by fastforce
  obtain c w2 where c: "call_ok w1 = (c, w2)" by fastforce
  show ?thesis
    using assms r c fopen_read_files [OF r] call_ok_files [OF c] by (auto simp: path_exists_def split: opened.splits)
qed

lemma close_reader_files: "milena_spill_reader_close r w = (b, r', w') \<Longrightarrow> w_files w' = w_files w"
  by (auto simp: milena_spill_reader_close_def io_simps split: option.splits prod.splits)

lemma close_readers_files: "w_files (close_readers rs w) = w_files w"
proof (induction rs arbitrary: w)
  case (Cons r rs)
  obtain b r' w' where "milena_spill_reader_close (Some r) w = (b, r', w')" by (metis prod_cases3)
  then show ?case using Cons.IH [of w'] close_reader_files by simp
qed simp

lemma last_decimal: "decimal n \<noteq> [] \<and> last (decimal n) = char_of (48 + n mod 10)"
  by (subst (1 2) decimal.simps) auto

lemma partial_not_recover: "partial_name p \<noteq> recover_name q a b"
proof
  assume "partial_name p = recover_name q a b"
  then have "last (partial_name p) = last (recover_name q a b)" by simp
  then have "CHR ''l'' = (char_of (48 + b mod 10) :: char)"
    using last_decimal [of b] by (simp add: partial_name_def recover_name_def)
  then have "of_char CHR ''l'' = (of_char (char_of (48 + b mod 10) :: char) :: nat)" by simp
  moreover have "48 + b mod 10 < 256" by simp
  ultimately have "108 = 48 + b mod 10" by (simp add: of_char_of take_bit_eq_mod)
  then show False using mod_less_divisor [of 10 b] by linarith
qed

text \<open>The only names recovery may bring into being are its temporary ones.\<close>

definition no_new :: "string \<Rightarrow> string \<Rightarrow> world \<Rightarrow> world \<Rightarrow> bool" where
  "no_new path q w w' \<longleftrightarrow> (q \<noteq> path \<and> (\<forall>a b. q \<noteq> recover_name path a b) \<longrightarrow> w_files w' q = w_files w q)"

lemma replace_no_new:
  assumes r: "replace_by_prefix path v w = (st, w')"
  shows "no_new path q w w'"
proof -
  obtain ok w1 where m: "malloc_ok (length path + 80) w = (ok, w1)" by fastforce
  obtain o' w2 where o': "open_recovered 16 path (length path + 80) w1 = (o', w2)" by fastforce
  note f1 = malloc_ok_files [OF m]
  show ?thesis
  proof (cases "length path > size_max - 80 \<or> \<not> ok \<or> o' = None")
    case True
    have "o' = None \<Longrightarrow> w_files w2 = w_files w1" using o' open_recovered_none by simp
    then have "w_files w' = w_files w"
      using r m o' f1 True by (auto simp: replace_by_prefix_def split: if_splits option.splits)
    then show ?thesis by (simp add: no_new_def)
  next
    case False
    then obtain tmp out where some: "o' = Some (tmp, out)" by auto
    obtain serial where tmp: "tmp = recover_name path (unat (w_pid w1)) serial" and out: "out = \<lparr>os_path = tmp, os_pending = []\<rparr>"
      and f2: "w_files w2 = (w_files w)(tmp := Some [])"
      using open_recovered_new [of 16 path "length path + 80" w1 tmp out w2] o' some f1 by auto
    have fin: "no_new path q w w''" if "\<And>p. p \<noteq> path \<Longrightarrow> p \<noteq> tmp \<Longrightarrow> w_files w'' p = w_files w2 p" for w''
      using that [of q] f2 tmp by (auto simp: no_new_def)
    obtain i w3 where i: "fopen_read path w2 = (i, w3)" by fastforce
    note f3 = fopen_read_files [OF i]
    show ?thesis
    proof (cases "\<exists>input. i = Opened input")
      case False
      obtain b o1 w4 where fl: "fflush out w3 = (b, o1, w4)" by (metis prod_cases3)
      have "w' = unlink tmp w4"
        using r m o' some i fl False \<open>\<not> (length path > size_max - 80 \<or> \<not> ok \<or> o' = None)\<close>
        by (auto simp: replace_by_prefix_def split: opened.splits)
      then show ?thesis
        using fflush_same(2) [OF fl] f3 unlink_same [of tmp w4] out by (intro fin) (simp add: same_but_def)
    next
      case True
      then obtain input where input: "i = Opened input" by blast
      obtain cp i2 o2 w4 where cp: "copy_prefix v input out w3 = (cp, i2, o2, w4)" by (metis prod_cases4)
      obtain ic w5 where ic: "call_ok w4 = (ic, w5)" by fastforce
      obtain oc o3 w6 where oc: "fflush o2 w5 = (oc, o3, w6)" by (metis prod_cases3)
      obtain rn w7 where rn: "(if cp \<and> ic \<and> oc then rename tmp path w6 else (False, w6)) = (rn, w7)" by fastforce
      have res: "(st, w') = (if rn then (MILENA_OK, w7) else (MILENA_ERR_IO, unlink tmp w7))"
        using r m o' some i input cp ic oc rn \<open>\<not> (length path > size_max - 80 \<or> \<not> ok \<or> o' = None)\<close>
        by (auto simp: replace_by_prefix_def split: bool.splits)
      have same: "same_but tmp w2 w6"
        using f3 copy_prefix_same [OF cp] call_ok_files [OF ic] fflush_same(2) [OF oc] out
        by (auto simp: same_but_def)
      have "w_files w7 p = w_files w6 p" if "p \<noteq> path" "p \<noteq> tmp" for p
        using rn that rename_files [of tmp path w6 rn w7] recover_name_neq [of path] tmp by (auto split: if_splits)
      then show ?thesis using res same unlink_same [of tmp w7] by (intro fin) (auto simp: same_but_def split: if_splits)
    qed
  qed
qed

lemma snd_call_ok_files: "w_files (snd (call_ok w)) = w_files w"
  using call_ok_files [of w] by (cases "call_ok w") simp

lemma recover_no_new:
  assumes "milena_spill_store_recover (Some path) quota m w = (res, w')"
  shows "no_new path q w w'"
proof -
  obtain i w1 where i: "fopen_read path w = (i, w1)" by fastforce
  have same: "no_new path q w u" if "w_files u = w_files w" for u using that by (simp add: no_new_def)
  note f1 = fopen_read_files [OF i]
  show ?thesis
  proof (cases "spill_limits_bad (Some path) quota m \<or> (\<nexists>input. i = Opened input)")
    case True
    then have "w' = w \<or> w' = w1"
      using assms i by (cases i) (auto simp: milena_spill_store_recover_def split: if_splits)
    then show ?thesis using same f1 by auto
  next
    case False
    then obtain input where input: "i = Opened input" and lim: "\<not> spill_limits_bad (Some path) quota m" by blast
    obtain ok1 w2 where s1: "milena_file_seek64 w1 = (ok1, w2)" by fastforce
    obtain t w3 where t: "milena_file_tell64 (length (is_rest input)) w2 = (t, w3)" by fastforce
    obtain ok2 w4 where s2: "milena_file_seek64 w3 = (ok2, w4)" by fastforce
    obtain sc i2 w5 where sc: "scan_store quota m input w4 = (sc, i2, w5)" by (metis prod_cases3)
    obtain cl w6 where cl: "call_ok w5 = (cl, w6)" by fastforce
    note f = f1 seek_files [OF s1] tell_files [OF t] seek_files [OF s2]
    have f6: "w_files w6 = w_files w"
      using f scan_store_from_files [OF sc [unfolded scan_store_def]] call_ok_files [OF cl] by simp
    have "w' \<in> {snd (call_ok w2), snd (call_ok w3), snd (call_ok w4), w6} \<or>
      (\<exists>valid. w' = snd (replace_by_prefix path valid w6))"
    proof (cases t)
      case None
      then show ?thesis using assms i input lim s1 t by (auto simp: milena_spill_store_recover_def split: if_splits)
    next
      case (Some e)
      have eq: "(res, w') = (if \<not> ok1 then (Inl MILENA_ERR_IO, snd (call_ok w2))
        else if e > size_max then (Inl MILENA_ERR_OVERFLOW, snd (call_ok w3))
        else if \<not> ok2 then (Inl MILENA_ERR_IO, snd (call_ok w4))
        else case sc of Inl e \<Rightarrow> (Inl e, w6)
        | Inr (valid, records, bad_tail) \<Rightarrow>
          if \<not> cl then (Inl MILENA_ERR_IO, w6)
          else let discarded = (if e \<ge> valid then e - valid else 0);
                   truncated = (bad_tail \<and> discarded > 0);
                   recovery = \<lparr>rc_records = records, rc_bytes = valid, rc_discarded = discarded, rc_truncated = truncated\<rparr>
               in if \<not> truncated then (Inr recovery, w6)
                  else case replace_by_prefix path valid w6 of (status, w) \<Rightarrow>
                    (if status = MILENA_OK then Inr recovery else Inl status, w))"
        unfolding assms [symmetric] milena_spill_store_recover_def option.sel
        using i input lim s1 t s2 sc cl Some by simp
      show ?thesis
      proof (cases sc)
        case (Inl x)
        then show ?thesis using eq by (auto split: if_splits)
      next
        case (Inr y)
        obtain valid records bad where y: "y = (valid, records, bad)" by (metis prod_cases3)
        obtain status u where u: "replace_by_prefix path valid w6 = (status, u)" by fastforce
        have "w' \<in> {snd (call_ok w2), snd (call_ok w3), snd (call_ok w4), w6, u}"
          using eq unfolding Inr y u sum.case prod.case Let_def by (auto split: if_splits)
        then show ?thesis using u by (metis insert_iff snd_conv singletonD)
      qed
    qed
    then show ?thesis
    proof
      assume "w' \<in> {snd (call_ok w2), snd (call_ok w3), snd (call_ok w4), w6}"
      then have "w_files w' = w_files w" using f f6 by (auto simp: snd_call_ok_files)
      then show ?thesis by (rule same)
    next
      assume "\<exists>valid. w' = snd (replace_by_prefix path valid w6)"
      then obtain valid st where "replace_by_prefix path valid w6 = (st, w')" by (metis prod.collapse)
      from replace_no_new [OF this, of q] show ?thesis using f6 by (simp add: no_new_def)
    qed
  qed
qed

text \<open>Opening a run: the reader stands before its complete records, which are now the whole file.\<close>

lemma reader_open_sound:
  assumes "milena_spill_reader_open (Some path) quota m r0 w = (MILENA_OK, r, w')"
  shows "\<exists>c ps tail s. w_files w path = Some c \<and> c = spill_image ps @ tail \<and> w_files w' path = Some (spill_image ps) \<and>
    rd_file r = Some s \<and> is_rest s = spill_image ps \<and> list_all (\<lambda>p. length p \<le> m) ps \<and>
    (\<forall>q. q \<noteq> path \<longrightarrow> w_files w q \<noteq> None \<longrightarrow> w_files w' q = w_files w q) \<and> no_new path q w w'"
proof -
  obtain rec w1 where rc: "milena_spill_store_recover (Some path) quota m w = (Inr rec, w1)"
    and o': "\<exists>s. fopen_read path w1 = (Opened s, w') \<and> rd_file r = Some s"
    using assms recover_error [of "Some path" quota m w MILENA_OK]
    by (auto simp: milena_spill_reader_open_def split: if_splits prod.splits sum.splits opened.splits)
  from o' obtain s where s: "fopen_read path w1 = (Opened s, w')" "rd_file r = Some s" by blast
  note f = fopen_read_files [OF s(1)]
  have some: "w_files w1 path = Some (is_rest s)"
    using s(1) by (auto simp: fopen_read_def ask_def split: option.splits)
  have "w_files w path \<noteq> None"
  proof
    assume none: "w_files w path = None"
    obtain i w2 where i: "fopen_read path w = (i, w2)" by fastforce
    have i': "i = Open_missing \<or> i = Open_failed"
      using i none by (auto simp: fopen_read_def ask_def split: option.splits)
    have "w_files w1 = w_files w"
      using rc i i' fopen_read_files [OF i] by (auto simp: milena_spill_store_recover_def split: if_splits)
    then show False using some none by simp
  qed
  then obtain c where c: "w_files w path = Some c" by blast
  from recover_preserves [OF rc c] obtain ps tail where
    ps: "c = spill_image ps @ tail" "w_files w1 path = Some (spill_image ps)"
      "list_all (\<lambda>p. length p \<le> m) ps"
      "\<forall>q. q \<noteq> path \<longrightarrow> w_files w q \<noteq> None \<longrightarrow> w_files w1 q = w_files w q" by auto
  have "no_new path q w w'" using recover_no_new [OF rc, of q] f by (simp add: no_new_def)
  then show ?thesis using c ps some s(2) f by auto
qed

lemma open_fresh:
  assumes "milena_spill_store_open (Some path) quota m old w = (MILENA_OK, st, w')" and "w_files w path = None"
  shows "store_ok path [] st w' \<and> w_files w' = (w_files w)(path := Some [])"
proof -
  have lim: "\<not> spill_limits_bad (Some path) quota m" using assms(1) by (auto simp: milena_spill_store_open_def)
  obtain i w2 where i: "fopen_read path w = (i, w2)" by fastforce
  have i': "i = Open_missing \<or> i = Open_failed"
    using i assms(2) by (auto simp: fopen_read_def ask_def split: option.splits)
  note f2 = fopen_read_files [OF i]
  have rc: "milena_spill_store_recover (Some path) quota m w =
    (if i = Open_missing then Inr \<lparr>rc_records = 0, rc_bytes = 0, rc_discarded = 0, rc_truncated = False\<rparr> else Inl MILENA_ERR_IO, w2)"
    using lim i i' by (auto simp: milena_spill_store_recover_def)
  obtain a w3 where a: "fopen_append path w2 = (a, w3)" by fastforce
  obtain ok w4 where m: "malloc_ok (length path + 1) w3 = (ok, w4)" by fastforce
  have "\<exists>out. i = Open_missing \<and> a = Opened out \<and> ok \<and> w' = w4 \<and>
    st = \<lparr>st_file = Some out, st_path = Some path, st_quota = quota, st_max_record = m, st_used = 0, st_count = 0, st_failed = False\<rparr>"
    using assms(1) lim rc i' a m
    by (cases a) (auto simp: milena_spill_store_open_def split: if_splits prod.splits)
  then obtain out where o': "i = Open_missing" "a = Opened out" "w' = w4"
    "st = \<lparr>st_file = Some out, st_path = Some path, st_quota = quota, st_max_record = m, st_used = 0, st_count = 0, st_failed = False\<rparr>"
    by blast
  have "out = \<lparr>os_path = path, os_pending = []\<rparr> \<and> w_files w3 = (w_files w)(path := Some [])"
    using a o'(2) f2 assms(2) by (auto simp: fopen_append_def ask_def set_file_def file_bytes_def split: option.splits)
  then show ?thesis using o' malloc_ok_files [OF m] by (simp add: store_ok_def)
qed

end
