(* ===== verification/MergeSteps.thy ===== *)
theory MergeSteps
  imports MergeFiles
begin

text \<open>
  The merge step by step: the invariant of its loop (every record is in the output, in the heap or
  still in a run; the output is in order), the opening of the runs, and the end of the merge.
\<close>

section \<open>One iteration of the merge\<close>

text \<open>\<open>rs\<close> are the records each run has still to deliver after the one in the heap.\<close>

definition merge_inv :: "merge_state \<Rightarrow> bytes list list \<Rightarrow> bool" where
  "merge_inv st rs \<longleftrightarrow>
     heap_ok (ms_heap st) \<and> length (ms_readers st) = length rs \<and> length (ms_previous st) = length rs \<and>
     length (ms_have st) = length rs \<and> (\<forall>x \<in> set (ms_heap st). hn_run x < length rs) \<and>
     (\<forall>i < length rs. \<exists>s. rd_file (ms_readers st ! i) = Some s \<and> is_rest s = spill_image (rs ! i)) \<and>
     (\<forall>r \<in> set rs. \<forall>p \<in> set r. length p \<le> double_size)"

definition merge_live :: "merge_state \<Rightarrow> bytes list list \<Rightarrow> bool" where
  "merge_live st rs \<longleftrightarrow> (\<forall>i < length rs. rs ! i \<noteq> [] \<longrightarrow> (\<exists>x \<in> set (ms_heap st). hn_run x = i))"

definition merge_size :: "merge_state \<Rightarrow> bytes list list \<Rightarrow> nat" where
  "merge_size st rs = length (concat rs) + length (ms_heap st)"

definition merge_records :: "merge_state \<Rightarrow> bytes list list \<Rightarrow> bytes multiset" where
  "merge_records st rs = image_mset (\<lambda>x. encode_double (hn_value x)) (mset (ms_heap st)) + mset (concat rs)"

definition merge_out :: "string \<Rightarrow> merge_state \<Rightarrow> f64 list \<Rightarrow> bool" where
  "merge_out path st vs \<longleftrightarrow>
     store_ok path (map encode_double vs) (ms_output st) (ms_world st) \<and> sorted (map f_int vs) \<and> list_all f_finite vs \<and>
     (vs = [] \<or> (\<forall>y \<in> set (ms_heap st). f_int (last vs) \<le> f_int (hn_value y) \<or>
        (ms_have st ! hn_run y \<and> ms_previous st ! hn_run y = last vs)))"

lemma concat_update:
  assumes "i < length rs" and "rs ! i = x # xs"
  shows "mset (concat rs) = add_mset x (mset (concat (rs[i := xs])))" and "length (concat rs) = Suc (length (concat (rs[i := xs])))"
proof -
  have "rs = take i rs @ (x # xs) # drop (Suc i) rs" using id_take_nth_drop [OF assms(1)] assms(2) by simp
  moreover have "rs[i := xs] = take i rs @ xs # drop (Suc i) rs" by (rule upd_conv_take_nth_drop [OF assms(1)])
  ultimately have "concat rs = concat (take i rs) @ x # xs @ concat (drop (Suc i) rs)"
    "concat (rs[i := xs]) = concat (take i rs) @ xs @ concat (drop (Suc i) rs)"
    by (metis concat.simps(2) concat_append append_Cons)+
  then show "mset (concat rs) = add_mset x (mset (concat (rs[i := xs])))" "length (concat rs) = Suc (length (concat (rs[i := xs])))"
    by simp_all
qed

lemma store_ok_files: "store_ok p ps st w \<Longrightarrow> w_files w' = w_files w \<Longrightarrow> store_ok p ps st w'"
  by (simp add: store_ok_def)

lemma sorted_snoc: "sorted (map f_int vs) \<Longrightarrow> vs = [] \<or> f_int (last vs) \<le> f_int v \<Longrightarrow> sorted (map f_int (vs @ [v]))"
  by (cases vs rule: rev_cases) (auto simp: sorted_append intro: order_trans)

text \<open>What the parts of a successful iteration are.\<close>

lemma merge_step_parts:
  assumes "merge_step st = (MILENA_OK, st')" and "heap_pop (ms_heap st) = (node, h)" and "r = hn_run node"
    and fetch: "\<And>w w' rd. fetch_value (ms_readers st ! r) w \<noteq> (Inl MILENA_OK, rd, w')"
  shows "\<exists>out w1 res rd w2. \<not> (ms_have st ! r \<and> f_lt (hn_value node) (ms_previous st ! r)) \<and>
    milena_spill_store_append (Some (ms_output st)) (Some (encode_double (hn_value node))) double_size (ms_world st) = (MILENA_OK, out, w1) \<and>
    fetch_value (ms_readers st ! r) w1 = (Inr res, rd, w2) \<and>
    st' = \<lparr>ms_heap = (case res of None \<Rightarrow> h | Some v \<Rightarrow> heap_push h \<lparr>hn_value = v, hn_run = r, hn_present = True\<rparr>),
      ms_previous = (ms_previous st)[r := hn_value node], ms_have = (ms_have st)[r := True],
      ms_readers = (ms_readers st)[r := rd], ms_output = the out, ms_world = w2\<rparr>"
proof -
  obtain a out w1 where a: "milena_spill_store_append (Some (ms_output st)) (Some (encode_double (hn_value node))) double_size (ms_world st) = (a, out, w1)"
    by (metis prod_cases3)
  obtain res rd w2 where f: "fetch_value (ms_readers st ! r) w1 = (res, rd, w2)" by (metis prod_cases3)
  define st1 where "st1 = st\<lparr>ms_heap := h, ms_previous := (ms_previous st)[r := hn_value node], ms_have := (ms_have st)[r := True],
    ms_output := the out, ms_world := w1\<rparr>"
  have eq: "merge_step st =
    (if ms_have st ! r \<and> f_lt (hn_value node) (ms_previous st ! r) then (MILENA_ERR_DATA, st\<lparr>ms_heap := h\<rparr>)
     else if a \<noteq> MILENA_OK then (a, st1)
     else case res of Inl e \<Rightarrow> (e, st1\<lparr>ms_readers := (ms_readers st)[r := rd], ms_world := w2\<rparr>)
       | Inr None \<Rightarrow> (MILENA_OK, st1\<lparr>ms_readers := (ms_readers st)[r := rd], ms_world := w2\<rparr>)
       | Inr (Some v) \<Rightarrow> (MILENA_OK, st1\<lparr>ms_readers := (ms_readers st)[r := rd], ms_world := w2,
           ms_heap := heap_push h \<lparr>hn_value = v, hn_run = r, hn_present = True\<rparr>\<rparr>))"
  proof (cases res)
    case (Inl e)
    then show ?thesis using a f by (simp add: merge_step_def assms(2) assms(3) [symmetric] st1_def Let_def)
  next
    case (Inr y)
    then show ?thesis using a f by (cases y) (simp_all add: merge_step_def assms(2) assms(3) [symmetric] st1_def Let_def)
  qed
  have "res \<noteq> Inl MILENA_OK" using f fetch by auto
  then show ?thesis
    using assms(1) a f unfolding eq
    by (cases res) (auto simp: st1_def split: if_splits option.splits)
qed


text \<open>The state of the runs and the heap after a successful iteration.\<close>

lemma merge_step_inv:
  assumes step: "merge_step st = (MILENA_OK, st')" and inv: "merge_inv st rs" and ne: "ms_heap st \<noteq> []"
  shows "\<exists>rs' v. merge_inv st' rs' \<and> merge_size st' rs' < merge_size st rs \<and> (merge_live st rs \<longrightarrow> merge_live st' rs') \<and>
    add_mset (encode_double v) (merge_records st' rs') = merge_records st rs \<and>
    (\<forall>path vs. merge_out path st vs \<longrightarrow> merge_out path st' (vs @ [v]) \<and> same_but path (ms_world st) (ms_world st'))"
proof -
  obtain node h where pop: "heap_pop (ms_heap st) = (node, h)" by fastforce
  define r where "r = hn_run node"
  define v where "v = hn_value node"
  have i: "heap_ok (ms_heap st)" "length (ms_readers st) = length rs" "length (ms_previous st) = length rs"
    "length (ms_have st) = length rs" "\<forall>x \<in> set (ms_heap st). hn_run x < length rs"
    "\<forall>i < length rs. \<exists>s. rd_file (ms_readers st ! i) = Some s \<and> is_rest s = spill_image (rs ! i)"
    "\<forall>r \<in> set rs. \<forall>p \<in> set r. length p \<le> double_size"
    using inv by (simp_all add: merge_inv_def)
  note hp = heap_pop_ok [OF i(1) ne pop]
  have sub: "set (ms_heap st) = insert node (set h)"
    using arg_cong [OF hp(2), of set_mset] by simp
  have r: "r < length rs" using i(5) sub by (simp add: r_def)
  then obtain s where s: "rd_file (ms_readers st ! r) = Some s" "is_rest s = spill_image (rs ! r)" using i(6) by blast
  have nok: "fetch_value (ms_readers st ! r) w \<noteq> (Inl MILENA_OK, rd, w')" for w w' rd
    using fetch_value_cases [OF _ s(1), of w "Inl MILENA_OK" rd w'] by auto
  obtain out w1 res rd w2 where
    ord: "\<not> (ms_have st ! r \<and> f_lt v (ms_previous st ! r))"
    and app: "milena_spill_store_append (Some (ms_output st)) (Some (encode_double v)) double_size (ms_world st) = (MILENA_OK, out, w1)"
    and fetch: "fetch_value (ms_readers st ! r) w1 = (Inr res, rd, w2)"
    and st': "st' = \<lparr>ms_heap = (case res of None \<Rightarrow> h | Some v \<Rightarrow> heap_push h \<lparr>hn_value = v, hn_run = r, hn_present = True\<rparr>),
      ms_previous = (ms_previous st)[r := v], ms_have = (ms_have st)[r := True],
      ms_readers = (ms_readers st)[r := rd], ms_output = the out, ms_world = w2\<rparr>"
    using merge_step_parts [OF step pop r_def] nok by (auto simp: r_def v_def)
  from fetch_value_cases [OF fetch s(1)] obtain s' where
    s': "rd_file rd = Some s'" "w_files w2 = w_files w1"
      "case res of None \<Rightarrow> is_rest s = [] \<and> is_rest s' = []
       | Some v \<Rightarrow> is_rest s = spill_frame (encode_double v) @ is_rest s' \<and> f_finite v"
    by (auto split: option.splits)
  define new where "new = (case res of None \<Rightarrow> [] | Some x \<Rightarrow> [\<lparr>hn_value = x, hn_run = r, hn_present = True\<rparr>])"
  define qs where "qs = (case res of None \<Rightarrow> [] | Some x \<Rightarrow> tl (rs ! r))"
  have head: "rs ! r = map (\<lambda>x. encode_double (hn_value x)) new @ qs \<and> is_rest s' = spill_image qs \<and> list_all node_ok new"
  proof (cases res)
    case None
    then have "spill_image (rs ! r) = []" using s' s(2) by simp
    then have "rs ! r = []" by (cases "rs ! r") auto
    then show ?thesis using None s' by (simp add: new_def qs_def)
  next
    case (Some x)
    then have im: "spill_image (rs ! r) = spill_frame (encode_double x) @ is_rest s'" "f_finite x" using s' s(2) by simp_all
    then obtain q ps where q: "rs ! r = q # ps" by (cases "rs ! r") auto
    have "length q \<le> double_size" using i(7) r q by (metis list.set_intros(1) nth_mem)
    then have "encode_double x = q \<and> is_rest s' = spill_image ps"
      using frame_inject [of "encode_double x" "is_rest s'" q "spill_image ps"] im(1) q by (simp add: double_size_def size_max_def)
    then show ?thesis using Some im(2) q by (simp add: new_def qs_def node_ok_def)
  qed
  define rs' where "rs' = rs[r := qs]"
  have heap': "heap_ok (ms_heap st') \<and> mset (ms_heap st') = mset h + mset new"
    using hp(1) head heap_push_ok [OF hp(1)] by (cases res) (auto simp: st' new_def)
  have set': "set (ms_heap st') = set h \<union> set new" using arg_cong [OF conjunct2 [OF heap'], of set_mset] by simp
  have inv': "merge_inv st' rs'"
    unfolding merge_inv_def
  proof (intro conjI)
    show "\<forall>x \<in> set (ms_heap st'). hn_run x < length rs'"
      using i(5) sub set' r by (auto simp: rs'_def new_def split: option.splits)
    show "\<forall>i < length rs'. \<exists>s. rd_file (ms_readers st' ! i) = Some s \<and> is_rest s = spill_image (rs' ! i)"
      using i(2,6) head s'(1) r by (auto simp: st' rs'_def nth_list_update)
    show "\<forall>x \<in> set rs'. \<forall>p \<in> set x. length p \<le> double_size"
    proof
      fix x
      assume "x \<in> set rs'"
      then have "x \<in> set rs \<or> x = qs" using set_update_subset_insert [of rs r qs] by (auto simp: rs'_def)
      moreover have "rs ! r \<in> set rs" using r by simp
      then have "\<forall>p \<in> set (rs ! r). length p \<le> double_size" using i(7) by blast
      then have "\<forall>p \<in> set qs. length p \<le> double_size" using head by simp
      ultimately show "\<forall>p \<in> set x. length p \<le> double_size" using i(7) by blast
    qed
  qed (use heap' i in \<open>simp_all add: st' rs'_def\<close>)
  have rec: "mset (concat rs) = image_mset (\<lambda>x. encode_double (hn_value x)) (mset new) + mset (concat rs')"
    "length (concat rs) = length new + length (concat rs')"
  proof -
    have "mset (concat rs) = image_mset (\<lambda>x. encode_double (hn_value x)) (mset new) + mset (concat rs') \<and>
        length (concat rs) = length new + length (concat rs')"
    proof (cases res)
      case None
      then have "rs ! r = []" "qs = []" using head by (simp_all add: new_def qs_def)
      then have "rs' = rs" using list_update_id [of rs r] by (simp add: rs'_def)
      then show ?thesis using None by (simp add: new_def)
    next
      case (Some x)
      then have "rs ! r = encode_double x # qs" using head by (simp add: new_def)
      from concat_update [OF r this] show ?thesis using Some by (simp add: rs'_def new_def)
    qed
    then show "mset (concat rs) = image_mset (\<lambda>x. encode_double (hn_value x)) (mset new) + mset (concat rs')"
      "length (concat rs) = length new + length (concat rs')" by simp_all
  qed
  have size': "merge_size st' rs' < merge_size st rs"
    using rec(2) arg_cong [OF conjunct2 [OF heap'], of size] arg_cong [OF hp(2), of size] by (simp add: merge_size_def)
  have live': "merge_live st rs \<longrightarrow> merge_live st' rs'"
    unfolding merge_live_def
  proof (intro impI allI)
    fix k
    assume live: "\<forall>i < length rs. rs ! i \<noteq> [] \<longrightarrow> (\<exists>x \<in> set (ms_heap st). hn_run x = i)"
      and k: "k < length rs'" "rs' ! k \<noteq> []"
    show "\<exists>x \<in> set (ms_heap st'). hn_run x = k"
    proof (cases "k = r")
      case True
      then have "qs \<noteq> []" using k r by (simp add: rs'_def)
      then have "new \<noteq> []" by (auto simp: qs_def new_def split: option.splits)
      then show ?thesis using True set' by (auto simp: new_def split: option.splits)
    next
      case False
      then have "\<exists>x \<in> set (ms_heap st). hn_run x = k" using live k by (simp add: rs'_def)
      then show ?thesis using sub set' False by (auto simp: r_def)
    qed
  qed
  have recs: "add_mset (encode_double v) (merge_records st' rs') = merge_records st rs"
    using rec(1) heap' hp(2) by (simp add: merge_records_def v_def)
  have out': "merge_out path st' (vs @ [v]) \<and> same_but path (ms_world st) (ms_world st')" if o': "merge_out path st vs" for path vs
  proof -
    have so: "store_ok path (map encode_double vs) (ms_output st) (ms_world st)" using o' by (simp add: merge_out_def)
    have "milena_spill_store_append (Some (ms_output st)) (Some (encode_double v)) (length (encode_double v)) (ms_world st) = (MILENA_OK, out, w1)"
      using app by (simp add: double_size_def)
    note ap = append_parts [OF so this]
    have ap': "store_ok path (map encode_double vs @ [encode_double v]) (the out) w1 \<and> same_but path (ms_world st) w1"
      using ap so by (auto simp: store_ok_def)
    have vok: "f_finite v" using hp(4) by (simp add: node_ok_def v_def)
    have le: "vs = [] \<or> f_int (last vs) \<le> f_int v"
    proof (cases "vs = []")
      case False
      then have "f_int (last vs) \<le> f_int v \<or> (ms_have st ! r \<and> ms_previous st ! r = last vs)"
        using o' sub by (auto simp: merge_out_def r_def v_def)
      moreover have "f_finite (last vs)" using o' False by (simp add: merge_out_def list_all_iff)
      ultimately show ?thesis using ord vok finite_not_nan by (auto simp: f_lt_def)
    qed simp
    have min: "f_int v \<le> f_int (hn_value y)" if "y \<in> set h" for y
      using hp(3) that by (auto simp: node_key_def v_def less_eq_prod_def)
    have "\<forall>y \<in> set (ms_heap st'). f_int v \<le> f_int (hn_value y) \<or> (ms_have st' ! hn_run y \<and> ms_previous st' ! hn_run y = v)"
      using set' min r i(3,4) by (auto simp: new_def st' split: option.splits)
    then show ?thesis
      using ap' s'(2) sorted_snoc [of vs v] le o' vok
      by (auto simp: merge_out_def st' same_but_def intro: store_ok_files)
  qed
  show ?thesis using inv' size' live' recs out' by blast
qed

section \<open>Opening the runs\<close>

lemma fetch_run:
  assumes "fetch_value r w = (Inr res, rd, w2)" and "rd_file r = Some s" and "is_rest s = spill_image ps"
    and "\<forall>p \<in> set ps. length p \<le> double_size"
  shows "w_files w2 = w_files w \<and> (\<exists>qs s'. rd_file rd = Some s' \<and> is_rest s' = spill_image qs \<and>
    ps = (case res of None \<Rightarrow> [] | Some x \<Rightarrow> [encode_double x]) @ qs \<and> (res = None \<longrightarrow> qs = []) \<and> pred_option f_finite res)"
proof -
  from fetch_value_cases [OF assms(1,2)] obtain s' where
    s': "rd_file rd = Some s'" "w_files w2 = w_files w"
      "case res of None \<Rightarrow> is_rest s = [] \<and> is_rest s' = []
       | Some v \<Rightarrow> is_rest s = spill_frame (encode_double v) @ is_rest s' \<and> f_finite v"
    by (auto split: option.splits)
  show ?thesis
  proof (cases res)
    case None
    then have "ps = []" using s' assms(3) by (cases ps) auto
    then show ?thesis using None s' by (intro conjI exI [of _ "[]"] exI [of _ s']) simp_all
  next
    case (Some x)
    then have im: "spill_image ps = spill_frame (encode_double x) @ is_rest s'" "f_finite x" using s' assms(3) by simp_all
    then obtain q qs where q: "ps = q # qs" by (cases ps) auto
    then have "encode_double x = q \<and> is_rest s' = spill_image qs"
      using frame_inject [of "encode_double x" "is_rest s'" q "spill_image qs"] im(1) assms(4)
      by (simp add: double_size_def size_max_def)
    then show ?thesis using Some s' im(2) q by (intro conjI exI [of _ qs] exI [of _ s']) simp_all
  qed
qed

text \<open>The first \<open>length rs\<close> of \<open>n\<close> runs are open.\<close>

definition open_inv :: "nat \<Rightarrow> merge_state \<Rightarrow> bytes list list \<Rightarrow> bool" where
  "open_inv n st rs \<longleftrightarrow>
     heap_ok (ms_heap st) \<and> length (ms_readers st) = n \<and> length (ms_previous st) = n \<and>
     length (ms_have st) = n \<and> (\<forall>x \<in> set (ms_heap st). hn_run x < length rs) \<and>
     (\<forall>i < length rs. \<exists>s. rd_file (ms_readers st ! i) = Some s \<and> is_rest s = spill_image (rs ! i)) \<and>
     (\<forall>r \<in> set rs. \<forall>p \<in> set r. length p \<le> double_size) \<and> merge_live st rs"

text \<open>What opening the runs in \<open>paths\<close> does to the files: each is left with exactly the records \<open>recs\<close>.\<close>

definition lasting :: "string \<Rightarrow> bool" where
  "lasting q \<longleftrightarrow> (\<forall>p a b. q \<noteq> recover_name p a b)"

lemma partial_lasting: "lasting (partial_name q)"
  using partial_not_recover by (simp add: lasting_def)

definition runs_opened :: "string option list \<Rightarrow> bytes list list \<Rightarrow> world \<Rightarrow> world \<Rightarrow> bool" where
  "runs_opened paths recs w w' \<longleftrightarrow>
     list_all2 (\<lambda>p r. \<exists>q c. p = Some q \<and> w_files w q = Some c \<and> prefix (spill_image r) c \<and> w_files w' q = Some (spill_image r)) paths recs \<and>
     (\<forall>q. Some q \<notin> set paths \<longrightarrow> w_files w q \<noteq> None \<longrightarrow> w_files w' q = w_files w q) \<and>
     (\<forall>q. Some q \<notin> set paths \<longrightarrow> lasting q \<longrightarrow> w_files w' q = w_files w q)"

lemma runs_opened_Cons:
  assumes "w_files w path = Some c" and "prefix (spill_image ps) c" and "w_files w1 path = Some (spill_image ps)"
    and "\<forall>q. q \<noteq> path \<longrightarrow> w_files w q \<noteq> None \<longrightarrow> w_files w1 q = w_files w q" and "\<forall>q. no_new path q w w1"
    and "runs_opened paths recs w1 w'" and "Some path \<notin> set paths"
    and "\<forall>q. Some q \<in> set paths \<longrightarrow> w_files w q \<noteq> None"
  shows "runs_opened (Some path # paths) (ps # recs) w w'"
proof -
  have l: "list_all2 (\<lambda>p r. \<exists>q c. p = Some q \<and> w_files w1 q = Some c \<and> prefix (spill_image r) c \<and> w_files w' q = Some (spill_image r)) paths recs"
    and k: "\<forall>q. Some q \<notin> set paths \<longrightarrow> w_files w1 q \<noteq> None \<longrightarrow> w_files w' q = w_files w1 q"
    and n: "\<forall>q. Some q \<notin> set paths \<longrightarrow> lasting q \<longrightarrow> w_files w' q = w_files w1 q"
    using assms(6) by (simp_all add: runs_opened_def)
  have "list_all2 (\<lambda>p r. \<exists>q c. p = Some q \<and> w_files w q = Some c \<and> prefix (spill_image r) c \<and> w_files w' q = Some (spill_image r)) paths recs"
    using l
  proof (rule list.rel_mono_strong)
    fix p r
    assume "p \<in> set paths" and "r \<in> set recs" and e: "\<exists>q c. p = Some q \<and> w_files w1 q = Some c \<and> prefix (spill_image r) c \<and> w_files w' q = Some (spill_image r)"
    then obtain q where p: "p = Some q" by blast
    then have q: "q \<noteq> path" "w_files w q \<noteq> None" using \<open>p \<in> set paths\<close> assms(7,8) by auto
    show "\<exists>q c. p = Some q \<and> w_files w q = Some c \<and> prefix (spill_image r) c \<and> w_files w' q = Some (spill_image r)"
      using e p q assms(4) by auto
  qed
  then show ?thesis
    using assms(1,2,3,4,5,7) k n by (fastforce simp: runs_opened_def no_new_def lasting_def)
qed


text \<open>Run \<open>i\<close> is open: \<open>y\<close> is its first value, and \<open>qs\<close> are the records behind it.\<close>

definition first_nodes :: "nat \<Rightarrow> f64 option \<Rightarrow> heap_node list" where
  "first_nodes i y = (case y of None \<Rightarrow> [] | Some x \<Rightarrow> [\<lparr>hn_value = x, hn_run = i, hn_present = True\<rparr>])"

definition opened_state :: "merge_state \<Rightarrow> nat \<Rightarrow> spill_reader \<Rightarrow> f64 option \<Rightarrow> world \<Rightarrow> merge_state" where
  "opened_state st i rd y w =
     (let st = st\<lparr>ms_readers := (ms_readers st)[i := rd], ms_world := w\<rparr>
      in case y of None \<Rightarrow> st
         | Some x \<Rightarrow> st\<lparr>ms_heap := heap_push (ms_heap st) \<lparr>hn_value = x, hn_run = i, hn_present = True\<rparr>\<rparr>)"

lemma opened_state_parts [simp]:
  "ms_readers (opened_state st i rd y w) = (ms_readers st)[i := rd]" "ms_previous (opened_state st i rd y w) = ms_previous st"
  "ms_have (opened_state st i rd y w) = ms_have st" "ms_output (opened_state st i rd y w) = ms_output st"
  "ms_world (opened_state st i rd y w) = w"
  by (cases y; simp add: opened_state_def Let_def)+

lemma merge_open_next:
  assumes "milena_spill_reader_open path quota double_size (ms_readers st ! i) (ms_world st) = (MILENA_OK, rd, w1)"
    and "fetch_value rd w1 = (Inr y, rd2, w2)"
  shows "merge_open (path # paths) quota i st = merge_open paths quota (i + 1) (opened_state st i rd2 y w2)"
  using assms by (cases y) (simp_all add: opened_state_def Let_def)

lemma open_inv_step:
  assumes inv: "open_inv n st rs" and i: "i = length rs" "i < n" and rd: "rd_file rd = Some s'" "is_rest s' = spill_image qs"
    and qs: "\<forall>p \<in> set qs. length p \<le> double_size" and y: "y = None \<longrightarrow> qs = []" "pred_option f_finite y"
  shows "open_inv n (opened_state st i rd y w) (rs @ [qs])"
    and "mset (ms_heap (opened_state st i rd y w)) = mset (ms_heap st) + mset (first_nodes i y)"
proof -
  let ?st = "opened_state st i rd y w"
  have o': "heap_ok (ms_heap st)" "length (ms_readers st) = n" "length (ms_previous st) = n" "length (ms_have st) = n"
    "\<forall>x \<in> set (ms_heap st). hn_run x < length rs"
    "\<forall>j < length rs. \<exists>s. rd_file (ms_readers st ! j) = Some s \<and> is_rest s = spill_image (rs ! j)"
    "\<forall>r \<in> set rs. \<forall>p \<in> set r. length p \<le> double_size" "merge_live st rs"
    using inv by (simp_all add: open_inv_def)
  have heap: "heap_ok (ms_heap ?st) \<and> mset (ms_heap ?st) = mset (ms_heap st) + mset (first_nodes i y)"
    using o'(1) heap_push_ok [OF o'(1)] y(2) by (cases y) (auto simp: opened_state_def Let_def first_nodes_def node_ok_def)
  then show "mset (ms_heap ?st) = mset (ms_heap st) + mset (first_nodes i y)" by blast
  have set': "set (ms_heap ?st) = set (ms_heap st) \<union> set (first_nodes i y)" using arg_cong [OF conjunct2 [OF heap], of set_mset] by simp
  have readers: "\<exists>s. rd_file (ms_readers ?st ! j) = Some s \<and> is_rest s = spill_image ((rs @ [qs]) ! j)" if "j < length (rs @ [qs])" for j
  proof (cases "j = i")
    case True
    then show ?thesis using rd i o'(2) by (simp add: nth_append)
  next
    case False
    then show ?thesis using o'(6) that i(1) by (simp add: nth_append less_Suc_eq)
  qed
  have live: "\<exists>x \<in> set (ms_heap ?st). hn_run x = j" if j: "j < length (rs @ [qs])" "(rs @ [qs]) ! j \<noteq> []" for j
  proof (cases "j = i")
    case True
    then have "y \<noteq> None" using j y(1) i(1) by (auto simp: nth_append)
    then show ?thesis using True set' by (auto simp: first_nodes_def)
  next
    case False
    then show ?thesis using o'(8) j set' i(1) by (auto simp: merge_live_def nth_append less_Suc_eq)
  qed
  show "open_inv n ?st (rs @ [qs])"
    unfolding open_inv_def
  proof (intro conjI)
    show "\<forall>x \<in> set (ms_heap ?st). hn_run x < length (rs @ [qs])"
      using o'(5) set' i(1) by (auto simp: first_nodes_def less_Suc_eq split: option.splits)
    show "\<forall>j < length (rs @ [qs]). \<exists>s. rd_file (ms_readers ?st ! j) = Some s \<and> is_rest s = spill_image ((rs @ [qs]) ! j)"
      using readers by blast
    show "merge_live ?st (rs @ [qs])" using live by (simp add: merge_live_def)
  qed (use heap o' qs in auto)
qed


lemma merge_open_inv:
  assumes "merge_open paths quota i st = (MILENA_OK, k, st')" and "open_inv n st rs" and "i = length rs" and "i + length paths = n"
  shows "\<exists>rs' recs. open_inv n st' rs' \<and> length rs' = n \<and> k = n \<and> ms_output st' = ms_output st \<and> ms_have st' = ms_have st \<and>
    merge_records st' rs' = merge_records st rs + mset (concat recs) \<and>
    (distinct paths \<longrightarrow> (\<forall>q. Some q \<in> set paths \<longrightarrow> w_files (ms_world st) q \<noteq> None) \<longrightarrow>
       runs_opened paths recs (ms_world st) (ms_world st'))"
  using assms
proof (induction paths arbitrary: i st rs)
  case Nil
  then show ?case by (intro exI [of _ rs] exI [of _ "[]"]) (simp add: runs_opened_def)
next
  case (Cons path paths)
  obtain status rd w1 where o': "milena_spill_reader_open path quota double_size (ms_readers st ! i) (ms_world st) = (status, rd, w1)"
    by (metis prod_cases3)
  then have status: "status = MILENA_OK" using Cons.prems(1) by (auto split: if_splits)
  then obtain p where p: "path = Some p" using o' by (cases path) (auto simp: milena_spill_reader_open_def)
  obtain res rd2 w2 where f: "fetch_value rd w1 = (res, rd2, w2)" by (metis prod_cases3)
  have o2: "milena_spill_reader_open (Some p) quota double_size (ms_readers st ! i) (ms_world st) = (MILENA_OK, rd, w1)"
    using o' status p by simp
  have sound: "\<exists>c ps tail s. w_files (ms_world st) p = Some c \<and> c = spill_image ps @ tail \<and> w_files w1 p = Some (spill_image ps) \<and>
    rd_file rd = Some s \<and> is_rest s = spill_image ps \<and> list_all (\<lambda>p. length p \<le> double_size) ps \<and>
    (\<forall>q. q \<noteq> p \<longrightarrow> w_files (ms_world st) q \<noteq> None \<longrightarrow> w_files w1 q = w_files (ms_world st) q) \<and> no_new p q (ms_world st) w1" for q
    using reader_open_sound [OF o2] .
  from sound [of undefined] obtain c ps tail s where
    rs: "w_files (ms_world st) p = Some c" "c = spill_image ps @ tail" "w_files w1 p = Some (spill_image ps)"
      "rd_file rd = Some s" "is_rest s = spill_image ps" "\<forall>x \<in> set ps. length x \<le> double_size"
      "\<forall>q. q \<noteq> p \<longrightarrow> w_files (ms_world st) q \<noteq> None \<longrightarrow> w_files w1 q = w_files (ms_world st) q"
    unfolding list_all_iff by blast
  have nn: "\<forall>q. no_new p q (ms_world st) w1" using sound by blast
  have res: "res \<noteq> Inl e" for e
    using Cons.prems(1) o' status f fetch_value_cases [OF f rs(4)] by (auto split: sum.splits)
  then obtain y where y: "res = Inr y" by (cases res) auto
  from fetch_run [OF f [unfolded y] rs(4,5,6)] obtain qs s' where
    s': "w_files w2 = w_files w1" "rd_file rd2 = Some s'" "is_rest s' = spill_image qs"
      "ps = (case y of None \<Rightarrow> [] | Some x \<Rightarrow> [encode_double x]) @ qs" "y = None \<longrightarrow> qs = []" "pred_option f_finite y"
    by blast
  define st2 where "st2 = opened_state st i rd2 y w2"
  have rec: "merge_open paths quota (i + 1) st2 = (MILENA_OK, k, st')"
    using Cons.prems(1) unfolding p merge_open_next [OF o2 f [unfolded y]] st2_def .
  have lt: "i < n" and qs: "\<forall>p \<in> set qs. length p \<le> double_size" using Cons.prems(4) rs(6) s'(4) by auto
  note step = open_inv_step [OF Cons.prems(2,3) lt s'(2,3) qs s'(5,6), of w2, folded st2_def]
  have st2: "ms_have st2 = ms_have st" "ms_output st2 = ms_output st" "ms_world st2 = w2" by (simp_all add: st2_def)
  have recs2: "merge_records st2 (rs @ [qs]) = merge_records st rs + mset ps"
    using step(2) s'(4) by (cases y) (simp_all add: merge_records_def first_nodes_def)
  from Cons.IH [OF rec step(1)] Cons.prems(3,4) obtain rs' recs where
    ih: "open_inv n st' rs'" "length rs' = n" "k = n" "ms_output st' = ms_output st2" "ms_have st' = ms_have st2"
      "merge_records st' rs' = merge_records st2 (rs @ [qs]) + mset (concat recs)"
      "distinct paths \<longrightarrow> (\<forall>q. Some q \<in> set paths \<longrightarrow> w_files w2 q \<noteq> None) \<longrightarrow> runs_opened paths recs w2 (ms_world st')"
    by (auto simp: st2)
  have "runs_opened (path # paths) (ps # recs) (ms_world st) (ms_world st')"
    if d: "distinct (path # paths)" and e: "\<forall>q. Some q \<in> set (path # paths) \<longrightarrow> w_files (ms_world st) q \<noteq> None"
  proof -
    have np: "Some p \<notin> set paths" using d p by simp
    have ex: "\<forall>q. Some q \<in> set paths \<longrightarrow> w_files (ms_world st) q \<noteq> None" using e by simp
    then have "\<forall>q. Some q \<in> set paths \<longrightarrow> w_files w2 q \<noteq> None" using np rs(7) s'(1) by metis
    then have "runs_opened paths recs w2 (ms_world st')" using ih(7) d by simp
    then have "runs_opened paths recs w1 (ms_world st')" using s'(1) by (simp add: runs_opened_def)
    then show ?thesis unfolding p using runs_opened_Cons [OF rs(1) _ rs(3,7) nn _ np ex] rs(2) by simp
  qed
  then show ?case
    using ih recs2 st2 by (intro exI [of _ rs'] exI [of _ "ps # recs"]) simp
qed

section \<open>The loop\<close>

lemma merge_loop_ends:
  assumes "merge_inv st rs"
  shows "\<exists>x. merge_loop st = Some x"
  unfolding merge_loop_def
proof (rule measure_while_option_Some)
  let ?P = "\<lambda>(status, s). status = MILENA_OK \<longrightarrow> (\<exists>rs. merge_inv s rs)"
  let ?f = "\<lambda>(status, s). if status = MILENA_OK then Suc (LEAST k. \<exists>rs. merge_inv s rs \<and> k = merge_size s rs) else 0"
  show "?P (MILENA_OK, st)" using assms by auto
  fix x :: "MilenaStatus \<times> merge_state"
  assume px: "?P x" and bx: "case x of (status, s) \<Rightarrow> status = MILENA_OK \<and> ms_heap s \<noteq> []"
  obtain s where x: "x = (MILENA_OK, s)" and ne: "ms_heap s \<noteq> []" using bx by (cases x) auto
  obtain status s' where st: "merge_step s = (status, s')" by fastforce
  let ?m = "\<lambda>s. LEAST k. \<exists>rs. merge_inv s rs \<and> k = merge_size s rs"
  show "?P (case x of (status, s) \<Rightarrow> merge_step s) \<and> ?f (case x of (status, s) \<Rightarrow> merge_step s) < ?f x"
  proof (cases "status = MILENA_OK")
    case False
    then show ?thesis using st x by simp
  next
    case True
    have "\<exists>rs. merge_inv s rs \<and> ?m s = merge_size s rs"
      using px x LeastI_ex [of "\<lambda>k. \<exists>rs. merge_inv s rs \<and> k = merge_size s rs"] by auto
    then obtain rs where rs: "merge_inv s rs" "?m s = merge_size s rs" by blast
    from merge_step_inv [OF _ rs(1) ne] st True obtain rs' where rs': "merge_inv s' rs'" "merge_size s' rs' < merge_size s rs" by blast
    have "?m s' \<le> merge_size s' rs'" using rs'(1) by (intro Least_le) blast
    then show ?thesis using st x True rs rs' by auto
  qed
qed

lemma merge_loop_sound:
  assumes "merge_loop st = Some (MILENA_OK, st')" and "merge_inv st rs" and "merge_live st rs" and "merge_out path st []"
  shows "\<exists>vs. merge_out path st' vs \<and> mset (map encode_double vs) = merge_records st rs \<and> same_but path (ms_world st) (ms_world st')"
proof -
  let ?P = "\<lambda>(status, s). status = MILENA_OK \<longrightarrow> (\<exists>rs' vs. merge_inv s rs' \<and> merge_live s rs' \<and> merge_out path s vs \<and>
    mset (map encode_double vs) + merge_records s rs' = merge_records st rs \<and> same_but path (ms_world st) (ms_world s))"
  have "?P (MILENA_OK, st')"
  proof (rule while_option_rule [where P = ?P, OF _ assms(1) [unfolded merge_loop_def]])
    show "?P (MILENA_OK, st)"
    proof -
      have "merge_inv st rs \<and> merge_live st rs \<and> merge_out path st [] \<and>
        mset (map encode_double []) + merge_records st rs = merge_records st rs \<and> same_but path (ms_world st) (ms_world st)"
        using assms by (simp add: same_but_refl)
      then show ?thesis unfolding prod.case by blast
    qed
    fix x :: "MilenaStatus \<times> merge_state"
    assume px: "?P x" and bx: "case x of (status, s) \<Rightarrow> status = MILENA_OK \<and> ms_heap s \<noteq> []"
    obtain s where x: "x = (MILENA_OK, s)" and ne: "ms_heap s \<noteq> []" using bx by (cases x) auto
    obtain rs' vs where i: "merge_inv s rs'" "merge_live s rs'" "merge_out path s vs"
      "mset (map encode_double vs) + merge_records s rs' = merge_records st rs" "same_but path (ms_world st) (ms_world s)"
      using px x by auto
    obtain status s' where st: "merge_step s = (status, s')" by fastforce
    show "?P (case x of (status, s) \<Rightarrow> merge_step s)"
    proof (cases "status = MILENA_OK")
      case True
      then have "merge_step s = (MILENA_OK, s')" using st by simp
      from merge_step_inv [OF this i(1) ne] obtain rs2 v where
        2: "merge_inv s' rs2" "merge_live s rs' \<longrightarrow> merge_live s' rs2"
          "add_mset (encode_double v) (merge_records s' rs2) = merge_records s rs'"
          "\<forall>path vs. merge_out path s vs \<longrightarrow> merge_out path s' (vs @ [v]) \<and> same_but path (ms_world s) (ms_world s')" by blast
      have "mset (map encode_double (vs @ [v])) + merge_records s' rs2 = merge_records st rs"
        unfolding i(4) [symmetric] 2(3) [symmetric] by simp
      then have "merge_inv s' rs2 \<and> merge_live s' rs2 \<and> merge_out path s' (vs @ [v]) \<and>
        mset (map encode_double (vs @ [v])) + merge_records s' rs2 = merge_records st rs \<and> same_but path (ms_world st) (ms_world s')"
        using 2 i same_but_trans by blast
      then show ?thesis unfolding x prod.case st by blast
    qed (use x st in simp)
  qed
  then obtain rs' vs where i: "merge_live st' rs'" "merge_out path st' vs" "merge_inv st' rs'"
      "mset (map encode_double vs) + merge_records st' rs' = merge_records st rs" "same_but path (ms_world st) (ms_world st')"
    by auto
  have "ms_heap st' = []" using while_option_stop [OF assms(1) [unfolded merge_loop_def]] by simp
  moreover from this have "concat rs' = []" using i(1) by (auto simp: merge_live_def in_set_conv_nth)
  ultimately have "merge_records st' rs' = {#}" by (simp add: merge_records_def)
  then show ?thesis using i by auto
qed

lemma close_pending:
  assumes "milena_spill_store_close (Some st) w = (s, st', w')" and "store_ok path ps st w"
  shows "w_files w' = w_files w"
  using assms by (auto simp: milena_spill_store_close_def store_ok_def fflush_def ask_def split: option.splits)

lemma open_inv_merge:
  assumes "open_inv n st rs" and "length rs = n"
  shows "merge_inv (st\<lparr>ms_output := o', ms_world := w\<rparr>) rs \<and> merge_live (st\<lparr>ms_output := o', ms_world := w\<rparr>) rs \<and>
    merge_records (st\<lparr>ms_output := o', ms_world := w\<rparr>) rs = merge_records st rs"
  using assms by (simp add: open_inv_def merge_inv_def merge_live_def merge_records_def)

lemma merge_prepare_state:
  assumes "merge_prepare path quota st = (status, st')"
  shows "\<exists>out w. st' = st\<lparr>ms_output := out, ms_world := w\<rparr>"
proof -
  have upd: "\<exists>out' w'. st\<lparr>ms_world := w\<rparr> = st\<lparr>ms_output := out', ms_world := w'\<rparr>" for w
    by (intro exI [of _ "ms_output st"] exI [of _ w]) simp
  have upd0: "\<exists>out' w'. st = st\<lparr>ms_output := out', ms_world := w'\<rparr>"
    by (intro exI [of _ "ms_output st"] exI [of _ "ms_world st"]) simp
  obtain c where c: "milena_size_add (length path) (length ''.partial'' + 1) = c" by blast
  show ?thesis
  proof (cases c)
    case None
    then show ?thesis using assms c upd0 by (simp add: merge_prepare_def)
  next
    case (Some cap)
    obtain ok w1 where m: "malloc_ok cap (ms_world st) = (ok, w1)" by fastforce
    obtain f1 w2 where e1: "path_exists path w1 = (f1, w2)" by fastforce
    obtain f2 w3 where e2: "path_exists (partial_name path) w2 = (f2, w3)" by fastforce
    show ?thesis
      using assms upd unfolding merge_prepare_def c Some option.case m prod.case e1 e2
      by (auto split: if_splits prod.splits)
  qed
qed

lemma merge_prepare_ok:
  assumes "merge_prepare path quota st = (MILENA_OK, st')" and "w_files (ms_world st) (partial_name path) = None"
  shows "\<exists>out w. st' = st\<lparr>ms_output := out, ms_world := w\<rparr> \<and> store_ok (partial_name path) [] out w \<and>
    w_files w = (w_files (ms_world st))(partial_name path := Some [])"
proof -
  obtain cap where cap: "milena_size_add (length path) (length ''.partial'' + 1) = Some cap"
    using assms(1) by (auto simp: merge_prepare_def split: option.splits)
  obtain ok w1 where m: "malloc_ok cap (ms_world st) = (ok, w1)" by fastforce
  obtain f1 w2 where e1: "path_exists path w1 = (f1, w2)" by fastforce
  obtain f2 w3 where e2: "path_exists (partial_name path) w2 = (f2, w3)" by fastforce
  obtain so out w4 where o': "milena_spill_store_open (Some (partial_name path)) quota double_size spill_closed w3 = (so, out, w4)"
    by (metis prod_cases3)
  have ok: "so = MILENA_OK" "st' = st\<lparr>ms_output := out, ms_world := w4\<rparr>"
    using assms(1) unfolding merge_prepare_def cap option.case m prod.case e1 e2 o' by (auto split: if_splits)
  have fw3: "w_files w3 = w_files (ms_world st)"
    using malloc_ok_files [OF m] path_exists_files [OF e1] path_exists_files [OF e2] by simp
  have "store_ok (partial_name path) [] out w4 \<and> w_files w4 = (w_files w3)(partial_name path := Some [])"
    using open_fresh [of "partial_name path" quota double_size spill_closed w3 out w4] o' ok(1) assms(2) fw3 by simp
  then show ?thesis using ok(2) fw3 by auto
qed

lemma partial_neq: "partial_name p \<noteq> p"
  by (simp add: partial_name_def)

lemma merge_finish_ok:
  assumes "merge_finish path status st = (MILENA_OK, st')" and "store_ok (partial_name path) ps (ms_output st) (ms_world st)"
  shows "status = MILENA_OK \<and>
    w_files (ms_world st') = (w_files (ms_world st))(path := Some (spill_image ps), partial_name path := None)"
proof -
  obtain cs o2 w5 where c: "milena_spill_store_close (Some (ms_output st)) (ms_world st) = (cs, o2, w5)" by (metis prod_cases3)
  define s2 where "s2 = (if status = MILENA_OK then cs else status)"
  obtain rn w6 where rn: "(if s2 = MILENA_OK then rename (partial_name path) path w5 else (True, w5)) = (rn, w6)" by fastforce
  have fin: "s2 = MILENA_OK" "rn" "ms_world st' = w6"
    using assms(1) unfolding merge_finish_def c prod.case s2_def [symmetric] Let_def rn by (auto split: if_splits)
  have fw5: "w_files w5 = w_files (ms_world st)" by (rule close_pending [OF c assms(2)])
  have "rename (partial_name path) path w5 = (True, w6)" using rn fin by simp
  then have "w_files w6 = (w_files w5)(path := w_files w5 (partial_name path), partial_name path := None)"
    using rename_files [of "partial_name path" path w5 True w6] partial_neq by simp
  then show ?thesis using fin fw5 assms(2) by (auto simp: s2_def store_ok_def split: if_splits)
qed

lemma merge_write_ends:
  assumes "open_inv n st rs" and "length rs = n"
  shows "merge_write path quota st \<noteq> None"
proof -
  obtain status st1 where p: "merge_prepare path quota st = (status, st1)" by fastforce
  then obtain out w where "st1 = st\<lparr>ms_output := out, ms_world := w\<rparr>" using merge_prepare_state by blast
  then have "merge_inv st1 rs" using open_inv_merge [OF assms] by simp
  then obtain x where "merge_loop st1 = Some x" using merge_loop_ends by blast
  then show ?thesis using p by (cases x) (simp add: merge_write_def)
qed

lemma merge_write_sound:
  assumes "merge_write path quota st = Some (MILENA_OK, st')" and "open_inv n st rs" and "length rs = n"
    and "w_files (ms_world st) (partial_name path) = None"
  shows "\<exists>vs. w_files (ms_world st') path = Some (spill_image (map encode_double vs)) \<and>
    mset (map encode_double vs) = merge_records st rs \<and> sorted (map f_int vs) \<and> list_all f_finite vs \<and>
    (\<forall>q. q \<noteq> path \<longrightarrow> q \<noteq> partial_name path \<longrightarrow> w_files (ms_world st') q = w_files (ms_world st) q) \<and>
    w_files (ms_world st') (partial_name path) = None"
proof -
  obtain status s0 where p: "merge_prepare path quota st = (status, s0)" by fastforce
  then have ok: "status = MILENA_OK" using assms(1) by (auto simp: merge_write_def split: if_splits)
  from merge_prepare_ok [OF p [unfolded ok] assms(4)] obtain out w where
    s0: "s0 = st\<lparr>ms_output := out, ms_world := w\<rparr>" and so: "store_ok (partial_name path) [] out w"
      and fw: "w_files w = (w_files (ms_world st))(partial_name path := Some [])" by blast
  obtain ls s1 where l: "merge_loop s0 = Some (ls, s1)" and f: "merge_finish path ls s1 = (MILENA_OK, st')"
    using assms(1) p ok by (auto simp: merge_write_def split: option.splits)
  note inv = open_inv_merge [where o' = out and w = w, OF assms(2,3), folded s0]
  have mo: "merge_out (partial_name path) s0 []" using so by (simp add: merge_out_def s0)
  have "ls = MILENA_OK"
  proof (rule ccontr)
    assume "ls \<noteq> MILENA_OK"
    then show False using f by (auto simp: merge_finish_def Let_def split: prod.splits if_splits)
  qed
  with merge_loop_sound [OF _ _ _ mo] l inv obtain vs where
    vs: "merge_out (partial_name path) s1 vs" "mset (map encode_double vs) = merge_records st rs"
      "same_but (partial_name path) (ms_world s0) (ms_world s1)" by metis
  have "store_ok (partial_name path) (map encode_double vs) (ms_output s1) (ms_world s1)" using vs(1) by (simp add: merge_out_def)
  from merge_finish_ok [OF f this] have files: "w_files (ms_world st') =
    (w_files (ms_world s1))(path := Some (spill_image (map encode_double vs)), partial_name path := None)" by simp
  have "w_files (ms_world st') q = w_files (ms_world st) q" if "q \<noteq> path" "q \<noteq> partial_name path" for q
    using that files vs(3) fw by (simp add: same_but_def s0)
  then show ?thesis
    using vs files partial_neq [of path] by (intro exI [of _ vs]) (simp add: merge_out_def)
qed

lemma merge_start_inv: "open_inv n (merge_start n w) []"
  by (simp add: open_inv_def merge_start_def heap_ok_def merge_live_def)

section \<open>A successful merge\<close>

text \<open>
  Whatever failed on the way, success means a complete, ordered output, inputs cut to a leading part
  of their records, and every other file as it was.
\<close>

lemma merge_sound:
  assumes "milena_external_merge_double_runs (Some paths) (length paths) (Some output) max_fan_in quota w = Some (MILENA_OK, w')"
    and "distinct paths" and "\<forall>q. Some q \<in> set paths \<longrightarrow> w_files w q \<noteq> None" and "w_files w (partial_name output) = None"
  shows "\<exists>runs values. list_all2 (\<lambda>p r. \<exists>q c. p = Some q \<and> w_files w q = Some c \<and> prefix (spill_image r) c \<and>
      w_files w' q = Some (spill_image r)) paths runs \<and>
    w_files w' output = Some (spill_image (map encode_double values)) \<and>
    mset (map encode_double values) = mset (concat runs) \<and> sorted (map f_int values) \<and> list_all f_finite values \<and>
    (\<forall>q. Some q \<notin> set paths \<longrightarrow> q \<noteq> output \<longrightarrow> q \<noteq> partial_name output \<longrightarrow> lasting q \<or> w_files w q \<noteq> None \<longrightarrow> w_files w' q = w_files w q) \<and>
    w_files w' (partial_name output) = None"
proof -
  let ?n = "length paths"
  obtain ok1 w1 where 1: "call_ok w = (ok1, w1)" by fastforce
  obtain ok2 w2 where 2: "call_ok w1 = (ok2, w2)" by fastforce
  obtain ok3 w3 where 3: "call_ok w2 = (ok3, w3)" by fastforce
  obtain ok4 w4 where 4: "call_ok w3 = (ok4, w4)" by fastforce
  obtain status k st where op: "merge_open paths quota 0 (merge_start ?n w4) = (status, k, st)" by (metis prod_cases3)
  have files: "w_files w4 = w_files w"
    using call_ok_files [OF 1] call_ok_files [OF 2] call_ok_files [OF 3] call_ok_files [OF 4] by simp
  have args: "\<not> list_ex (merge_path_bad (Some output)) paths" and body: "merge_body paths output quota w4 = Some (MILENA_OK, w')"
    using assms(1) 1 2 3 4 by (auto simp: milena_external_merge_double_runs_def split: if_splits)
  have ok: "status = MILENA_OK"
    and "\<exists>st'. merge_write output quota st = Some (MILENA_OK, st') \<and> w' = close_readers (take k (ms_readers st')) (ms_world st')"
    using body op by (auto simp: merge_body_def split: if_splits option.splits prod.splits)
  then obtain st' where mw: "merge_write output quota st = Some (MILENA_OK, st')" and w': "w_files w' = w_files (ms_world st')"
    using close_readers_files by blast
  from merge_open_inv [OF op [unfolded ok] merge_start_inv] obtain rs runs where
    inv: "open_inv ?n st rs" "length rs = ?n" "merge_records st rs = merge_records (merge_start ?n w4) [] + mset (concat runs)"
      and opened: "runs_opened paths runs w4 (ms_world st)"
    using assms(2,3) files by (auto simp: merge_start_def)
  have notin: "Some output \<notin> set paths" using args by (auto simp: list_ex_iff merge_path_bad_def)
  have notmp: "Some (partial_name output) \<notin> set paths" using assms(3,4) by blast
  have tmp: "w_files (ms_world st) (partial_name output) = None"
    using opened notmp files assms(4) partial_lasting by (simp add: runs_opened_def)
  from merge_write_sound [OF mw inv(1,2) tmp] obtain vs where
    vs: "w_files (ms_world st') output = Some (spill_image (map encode_double vs))" "mset (map encode_double vs) = merge_records st rs"
      "sorted (map f_int vs)" "list_all f_finite vs"
      "\<forall>q. q \<noteq> output \<longrightarrow> q \<noteq> partial_name output \<longrightarrow> w_files (ms_world st') q = w_files (ms_world st) q"
      "w_files (ms_world st') (partial_name output) = None" by blast
  have "list_all2 (\<lambda>p r. \<exists>q c. p = Some q \<and> w_files w4 q = Some c \<and> prefix (spill_image r) c \<and> w_files (ms_world st) q = Some (spill_image r)) paths runs"
    using opened by (simp add: runs_opened_def)
  then have "list_all2 (\<lambda>p r. \<exists>q c. p = Some q \<and> w_files w q = Some c \<and> prefix (spill_image r) c \<and> w_files w' q = Some (spill_image r)) paths runs"
  proof (rule list.rel_mono_strong)
    fix p r
    assume "p \<in> set paths" and "r \<in> set runs" and "\<exists>q c. p = Some q \<and> w_files w4 q = Some c \<and> prefix (spill_image r) c \<and> w_files (ms_world st) q = Some (spill_image r)"
    then obtain q c where q: "p = Some q" "w_files w4 q = Some c" "prefix (spill_image r) c" "w_files (ms_world st) q = Some (spill_image r)"
      by blast
    then have "q \<noteq> output" "q \<noteq> partial_name output" using \<open>p \<in> set paths\<close> notin notmp by auto
    then show "\<exists>q c. p = Some q \<and> w_files w q = Some c \<and> prefix (spill_image r) c \<and> w_files w' q = Some (spill_image r)"
      using q vs(5) w' files by auto
  qed
  moreover have "w_files w' q = w_files w q"
    if "Some q \<notin> set paths" "q \<noteq> output" "q \<noteq> partial_name output" "lasting q \<or> w_files w q \<noteq> None" for q
    using opened vs(5) w' files that by (auto simp: runs_opened_def)
  ultimately show ?thesis using vs w' inv(3) by (intro exI [of _ runs] exI [of _ vs]) (simp add: merge_records_def merge_start_def)
qed

end
