(* ===== verification/MergeCalm.thy ===== *)
theory MergeCalm
  imports MergeSteps
begin

text \<open>
  The merge in a world where nothing fails: it succeeds on complete, ordered runs when the output
  has room.
\<close>

section \<open>Without faults\<close>

definition reader_ready :: "spill_reader \<Rightarrow> bytes list \<Rightarrow> nat \<Rightarrow> bool" where
  "reader_ready r ps q \<longleftrightarrow> (\<exists>s. rd_file r = Some s \<and> is_rest s = spill_image ps \<and> \<not> is_error s) \<and> rd_quota r = q \<and>
     rd_max_record r = double_size \<and> rd_bytes r + length (spill_image ps) \<le> q \<and> rd_count r + length ps < size_max"

definition encoded_run :: "bytes list \<Rightarrow> bool" where
  "encoded_run ps \<longleftrightarrow> (\<forall>p \<in> set ps. length p = 8 \<and> f_finite (decode_double p))"

lemma fetch_calm:
  assumes "calm w" and "reader_ready r ps q" and "q \<le> size_max" and "encoded_run ps"
  shows "\<exists>r' w'. fetch_value r w = (Inr (case ps of [] \<Rightarrow> None | p # _ \<Rightarrow> Some (decode_double p)), r', w') \<and>
    calm w' \<and> w_files w' = w_files w \<and> reader_ready r' (tl ps) q"
proof -
  from assms(2) obtain s where s: "rd_file r = Some s" "is_rest s = spill_image ps" "\<not> is_error s"
    by (auto simp: reader_ready_def)
  have rr: "rd_quota r = q" "rd_max_record r = double_size" "rd_bytes r + length (spill_image ps) \<le> q" "rd_count r + length ps < size_max"
    using assms(2) by (simp_all add: reader_ready_def)
  show ?thesis
  proof (cases ps)
    case Nil
    have "milena_spill_reader_next (Some r) True double_size w = (Inr None, Some (r\<lparr>rd_file := Some (s\<lparr>is_rest := []\<rparr>)\<rparr>), tick w)"
      using assms(1) s Nil by (simp add: milena_spill_reader_next_def calm_calls)
    then show ?thesis using Nil assms(1) s rr by (simp add: fetch_value_def reader_ready_def)
  next
    case (Cons p qs)
    have p: "length p = 8" "f_finite (decode_double p)" using assms(4) Cons by (simp_all add: encoded_run_def)
    obtain w' where n: "milena_spill_reader_next (Some r) True double_size w = (Inr (Some p),
      Some (r\<lparr>rd_file := Some (s\<lparr>is_rest := spill_image qs\<rparr>), rd_bytes := rd_bytes r + length (spill_frame p), rd_count := rd_count r + 1\<rparr>), w')"
      "calm w'"
      using reader_next_calm [of w r s p "spill_image qs" double_size] assms(1,3) s rr p Cons by (auto simp: double_size_def)
    have "w_files w' = w_files w" using reader_next_files(1) [OF n(1) s(1)] .
    then show ?thesis using Cons n p rr s by (simp add: fetch_value_def reader_ready_def double_size_def)
  qed
qed

lemma append_calm:
  assumes "calm w" and "store_ok path ps st w" and "length d \<le> st_max_record st" and "st_used st + length d + 20 \<le> st_quota st"
    and "st_quota st \<le> size_max" and "st_count st < size_max"
  shows "\<exists>st' w'. milena_spill_store_append (Some st) (Some d) (length d) w = (MILENA_OK, Some st', w') \<and> calm w' \<and>
    store_ok path (ps @ [d]) st' w' \<and> st_quota st' = st_quota st \<and> st_max_record st' = st_max_record st \<and>
    st_used st' = st_used st + length d + 20 \<and> st_count st' = st_count st + 1"
proof -
  define out where "out = \<lparr>os_path = path, os_pending = []\<rparr>"
  have st: "st_file st = Some out" "\<not> st_failed st" using assms(2) by (simp_all add: store_ok_def out_def)
  have sz: "spill_record_size (length d) = Some (length d + 20)"
    using assms(4,5) by (simp add: spill_record_size_def milena_size_add_def spill_header_size_def spill_trailer_size_def size_max_def)
  have arg: "(if length d = 0 then [] else take (length d) (the (Some d))) = d" by simp
  have wr: "\<exists>o' w'. write_record d out w = (True, o', w') \<and> calm w'"
    using assms(1) length_spill_header [of "length d"]
    by (auto simp: write_record_def calm_calls spill_header_size_def spill_trailer_size_def spill_put_u32_def fflush_def
        set_file_def calm_def tick_def ask_def Let_def simp del: length_spill_header split: prod.splits)
  then obtain o' w' where w': "write_record d out w = (True, o', w')" "calm w'" by blast
  have a: "milena_spill_store_append (Some st) (Some d) (length d) w =
    (MILENA_OK, Some (st\<lparr>st_file := Some o', st_used := st_used st + (length d + 20), st_count := st_count st + 1\<rparr>), w')"
    unfolding milena_spill_store_append_def arg using assms(3,4,6) st sz w'(1) by simp
  then show ?thesis
    using append_parts [OF assms(2) a] assms(2) w'(2) a by (auto simp: store_ok_def)
qed

text \<open>Runs in order, one heap node per run, room in the output.\<close>

definition merge_ready :: "string \<Rightarrow> nat \<Rightarrow> merge_state \<Rightarrow> bytes list list \<Rightarrow> bool" where
  "merge_ready path q st rs \<longleftrightarrow>
     calm (ms_world st) \<and> q \<le> size_max \<and> distinct (map hn_run (ms_heap st)) \<and>
     (\<forall>i < length rs. reader_ready (ms_readers st ! i) (rs ! i) q \<and> encoded_run (rs ! i)) \<and>
     (\<forall>x \<in> set (ms_heap st). sorted (f_int (hn_value x) # map (f_int \<circ> decode_double) (rs ! hn_run x)) \<and>
        (ms_have st ! hn_run x \<longrightarrow> f_int (ms_previous st ! hn_run x) \<le> f_int (hn_value x))) \<and>
     (\<exists>ps. store_ok path ps (ms_output st) (ms_world st)) \<and> st_quota (ms_output st) = q \<and>
     st_max_record (ms_output st) = double_size \<and> st_used (ms_output st) + 28 * merge_size st rs \<le> q \<and>
     st_count (ms_output st) + merge_size st rs < size_max"

lemma merge_step_calm:
  assumes inv: "merge_inv st rs" and ne: "ms_heap st \<noteq> []" and ready: "merge_ready path q st rs"
  shows "\<exists>st' rs'. merge_step st = (MILENA_OK, st') \<and> merge_inv st' rs' \<and> merge_ready path q st' rs'"
proof -
  obtain node h where pop: "heap_pop (ms_heap st) = (node, h)" by fastforce
  define r where "r = hn_run node"
  define v where "v = hn_value node"
  have i: "heap_ok (ms_heap st)" "length (ms_readers st) = length rs" "length (ms_previous st) = length rs"
    "length (ms_have st) = length rs" "\<forall>x \<in> set (ms_heap st). hn_run x < length rs"
    using inv by (simp_all add: merge_inv_def)
  note hp = heap_pop_ok [OF i(1) ne pop]
  have sub: "set (ms_heap st) = insert node (set h)" using arg_cong [OF hp(2), of set_mset] by simp
  have dist: "r \<notin> hn_run ` set h" "distinct (map hn_run h)"
  proof -
    have "mset (map hn_run (ms_heap st)) = mset (r # map hn_run h)" using hp(2) by (simp add: r_def)
    moreover have "distinct (map hn_run (ms_heap st))" using ready by (simp add: merge_ready_def)
    ultimately have "distinct (r # map hn_run h)" by (metis mset_eq_imp_distinct_iff)
    then show "r \<notin> hn_run ` set h" "distinct (map hn_run h)" by simp_all
  qed
  have r: "r < length rs" using i(5) sub by (simp add: r_def)
  have rd: "reader_ready (ms_readers st ! r) (rs ! r) q" "encoded_run (rs ! r)" and q: "q \<le> size_max" and calm: "calm (ms_world st)"
    using ready r by (simp_all add: merge_ready_def)
  have nd: "sorted (f_int v # map (f_int \<circ> decode_double) (rs ! r))" "ms_have st ! r \<longrightarrow> f_int (ms_previous st ! r) \<le> f_int v"
    using ready sub by (simp_all add: merge_ready_def r_def v_def)
  obtain ps where so: "store_ok path ps (ms_output st) (ms_world st)" using ready by (auto simp: merge_ready_def)
  have sz: "merge_size st rs = Suc (length (concat rs) + length h)"
    using arg_cong [OF hp(2), of size] by (simp add: merge_size_def)
  have room: "st_used (ms_output st) + length (encode_double v) + 20 \<le> st_quota (ms_output st)"
    "length (encode_double v) \<le> st_max_record (ms_output st)" "st_quota (ms_output st) \<le> size_max" "st_count (ms_output st) < size_max"
    using ready sz by (simp_all add: merge_ready_def double_size_def)
  obtain out w1 where app: "milena_spill_store_append (Some (ms_output st)) (Some (encode_double v)) double_size (ms_world st) = (MILENA_OK, Some out, w1)"
    and w1: "calm w1" "store_ok path (ps @ [encode_double v]) out w1" "st_quota out = q" "st_max_record out = double_size"
      "st_used out = st_used (ms_output st) + 28" "st_count out = st_count (ms_output st) + 1"
    using append_calm [OF calm so room(2,1,3,4)] ready by (auto simp: merge_ready_def double_size_def)
  define res where "res = (case rs ! r of [] \<Rightarrow> None | p # _ \<Rightarrow> Some (decode_double p))"
  obtain rd' w2 where fetch: "fetch_value (ms_readers st ! r) w1 = (Inr res, rd', w2)"
    and w2: "calm w2" "w_files w2 = w_files w1" "reader_ready rd' (tl (rs ! r)) q"
    using fetch_calm [OF w1(1) rd(1) q rd(2)] by (auto simp: res_def)
  define st' where "st' = \<lparr>ms_heap = (case res of None \<Rightarrow> h | Some x \<Rightarrow> heap_push h \<lparr>hn_value = x, hn_run = r, hn_present = True\<rparr>),
      ms_previous = (ms_previous st)[r := v], ms_have = (ms_have st)[r := True],
      ms_readers = (ms_readers st)[r := rd'], ms_output = out, ms_world = w2\<rparr>"
  have ord: "\<not> (ms_have st ! r \<and> f_lt v (ms_previous st ! r))" using nd(2) by (auto simp: f_lt_def)
  have step: "merge_step st = (MILENA_OK, st')"
    using pop ord app fetch
    by (cases res) (simp_all add: merge_step_def r_def [symmetric] v_def [symmetric] st'_def Let_def)
  define qs where "qs = tl (rs ! r)"
  define rs' where "rs' = rs[r := qs]"
  define new where "new = (case res of None \<Rightarrow> [] | Some x \<Rightarrow> [\<lparr>hn_value = x, hn_run = r, hn_present = True\<rparr>])"
  have "list_all node_ok new" using rd(2) by (cases "rs ! r") (simp_all add: new_def res_def node_ok_def encoded_run_def)
  then have heap': "heap_ok (ms_heap st') \<and> mset (ms_heap st') = mset h + mset new"
    using hp(1) heap_push_ok [OF hp(1)] by (cases res) (auto simp: st'_def new_def)
  have set': "set (ms_heap st') = set h \<union> set new" using arg_cong [OF conjunct2 [OF heap'], of set_mset] by simp
  have conc: "length (concat rs) = length new + length (concat rs')"
  proof (cases "rs ! r")
    case Nil
    then have "rs' = rs" using list_update_id [of rs r] by (simp add: rs'_def qs_def)
    then show ?thesis using Nil by (simp add: new_def res_def)
  next
    case (Cons p ps')
    then show ?thesis using concat_update(2) [OF r Cons] by (simp add: rs'_def qs_def new_def res_def)
  qed
  have size': "merge_size st rs = Suc (merge_size st' rs')"
    using sz conc arg_cong [OF conjunct2 [OF heap'], of size] by (simp add: merge_size_def)
  have runs: "reader_ready (ms_readers st' ! k) (rs' ! k) q \<and> encoded_run (rs' ! k)" if "k < length rs'" for k
  proof (cases "k = r")
    case True
    have "encoded_run qs" using rd(2) by (cases "rs ! r") (auto simp: qs_def encoded_run_def)
    then show ?thesis using True w2(3) r i(2) by (simp add: st'_def rs'_def qs_def)
  next
    case False
    then show ?thesis using ready that by (simp add: merge_ready_def st'_def rs'_def)
  qed
  have "\<forall>k < length rs'. \<exists>s. rd_file (ms_readers st' ! k) = Some s \<and> is_rest s = spill_image (rs' ! k)"
    using runs by (auto simp: reader_ready_def)
  moreover have "\<forall>x \<in> set (ms_heap st'). hn_run x < length rs'"
    using i(5) sub set' r by (auto simp: rs'_def new_def split: option.splits)
  moreover have "\<forall>x \<in> set rs'. \<forall>p \<in> set x. length p \<le> double_size"
    using runs by (fastforce simp: encoded_run_def in_set_conv_nth [of _ rs'] double_size_def)
  ultimately have inv': "merge_inv st' rs'" using heap' i by (simp add: merge_inv_def st'_def rs'_def)
  have order: "sorted (f_int (hn_value x) # map (f_int \<circ> decode_double) (rs' ! hn_run x)) \<and>
      (ms_have st' ! hn_run x \<longrightarrow> f_int (ms_previous st' ! hn_run x) \<le> f_int (hn_value x))" if x: "x \<in> set (ms_heap st')" for x
  proof (cases "x \<in> set h")
    case True
    then have "hn_run x \<noteq> r" using dist(1) by blast
    then show ?thesis using ready True sub by (simp add: merge_ready_def st'_def rs'_def)
  next
    case False
    then have "x \<in> set new" using x set' by blast
    then obtain p ps' where p: "rs ! r = p # ps'" "x = \<lparr>hn_value = decode_double p, hn_run = r, hn_present = True\<rparr>"
      by (cases "rs ! r") (auto simp: new_def res_def)
    then show ?thesis using nd(1) r i(3,4) by (simp add: st'_def rs'_def qs_def)
  qed
  have dist': "distinct (map hn_run (ms_heap st'))"
  proof -
    have "mset (map hn_run (ms_heap st')) = mset (map hn_run h @ map hn_run new)" using heap' by simp
    moreover have "distinct (map hn_run h @ map hn_run new)" using dist by (cases res) (auto simp: new_def)
    ultimately show ?thesis by (metis mset_eq_imp_distinct_iff)
  qed
  have "merge_ready path q st' rs'"
    unfolding merge_ready_def
  proof (intro conjI)
    show "st_used (ms_output st') + 28 * merge_size st' rs' \<le> q" "st_count (ms_output st') + merge_size st' rs' < size_max"
      using ready w1(5,6) size' by (simp_all add: merge_ready_def st'_def)
    show "\<exists>ps. store_ok path ps (ms_output st') (ms_world st')" using store_ok_files [OF w1(2) w2(2)] by (auto simp: st'_def)
    show "\<forall>k < length rs'. reader_ready (ms_readers st' ! k) (rs' ! k) q \<and> encoded_run (rs' ! k)" using runs by blast
    show "\<forall>x \<in> set (ms_heap st'). sorted (f_int (hn_value x) # map (f_int \<circ> decode_double) (rs' ! hn_run x)) \<and>
      (ms_have st' ! hn_run x \<longrightarrow> f_int (ms_previous st' ! hn_run x) \<le> f_int (hn_value x))" using order by blast
  qed (use w1 w2 q dist' in \<open>simp_all add: st'_def\<close>)
  then show ?thesis using step inv' by blast
qed

lemma merge_loop_calm:
  assumes "merge_inv st rs" and "merge_ready path q st rs"
  shows "\<exists>st' rs'. merge_loop st = Some (MILENA_OK, st') \<and> merge_ready path q st' rs'"
proof -
  obtain x where x: "merge_loop st = Some x" using merge_loop_ends [OF assms(1)] by blast
  let ?P = "\<lambda>(status, s). status = MILENA_OK \<and> (\<exists>rs'. merge_inv s rs' \<and> merge_ready path q s rs')"
  have "?P x"
  proof (rule while_option_rule [where P = ?P, OF _ x [unfolded merge_loop_def]])
    show "?P (MILENA_OK, st)" using assms by blast
    fix y :: "MilenaStatus \<times> merge_state"
    assume py: "?P y" and b: "case y of (status, s) \<Rightarrow> status = MILENA_OK \<and> ms_heap s \<noteq> []"
    obtain s where y: "y = (MILENA_OK, s)" and ne: "ms_heap s \<noteq> []" using b by (cases y) auto
    obtain rs' where i: "merge_inv s rs'" "merge_ready path q s rs'" using py y by auto
    show "?P (case y of (status, s) \<Rightarrow> merge_step s)" using merge_step_calm [OF i(1) ne i(2)] y by auto
  qed
  then show ?thesis using x by (cases x) auto
qed

section \<open>Opening without faults\<close>

lemma size_merge_records: "size (merge_records st rs) = merge_size st rs"
  by (simp add: merge_records_def merge_size_def)

lemma length_image_ge: "length ps \<le> length (spill_image ps)"
  by (induction ps) simp_all

lemma reader_open_calm:
  assumes "calm w" and "w_files w p = Some (spill_image ps)" and "encoded_run ps" and "length (spill_image ps) \<le> q"
    and "q + 28 \<le> int64_max" and "p \<noteq> []" and "20 \<le> q"
  shows "\<exists>r w'. milena_spill_reader_open (Some p) q double_size r0 w = (MILENA_OK, r, w') \<and> calm w' \<and> w_files w' = w_files w \<and>
    reader_ready r ps q"
proof -
  have lim: "\<not> spill_limits_bad (Some p) q double_size"
    using assms(6,7) by (simp add: spill_limits_bad_def double_size_def spill_header_size_def spill_trailer_size_def)
  have l: "\<forall>x \<in> set ps. length x \<le> double_size" using assms(3) by (simp add: encoded_run_def double_size_def)
  have q: "q + double_size + 20 \<le> int64_max" using assms(5) by (simp add: double_size_def)
  obtain rc w1 where rc: "milena_spill_store_recover (Some p) q double_size w = (Inr rc, w1)" "calm_step w w1"
    using recover_whole [OF assms(2) l assms(4) lim q assms(1)] by blast
  have w1: "calm w1" "w_files w1 = w_files w" using rc(2) by (simp_all add: calm_step_def)
  have n: "length ps < size_max" using length_image_ge [of ps] assms(4,5) by (simp add: int64_max_def size_max_def)
  have "milena_spill_reader_open (Some p) q double_size r0 w = (MILENA_OK,
    \<lparr>rd_file = Some \<lparr>is_rest = spill_image ps, is_error = False\<rparr>, rd_quota = q, rd_max_record = double_size, rd_bytes = 0, rd_count = 0\<rparr>, tick w1)"
    using rc w1 assms(2,6) by (simp add: milena_spill_reader_open_def calm_calls double_size_def)
  then show ?thesis using w1 assms(4) n by (simp add: reader_ready_def)
qed

text \<open>An input of the merge: a complete store of doubles in order.\<close>

definition merge_run :: "world \<Rightarrow> nat \<Rightarrow> string option \<Rightarrow> bytes list \<Rightarrow> bool" where
  "merge_run w q path ps \<longleftrightarrow> (\<exists>p. path = Some p \<and> p \<noteq> [] \<and> w_files w p = Some (spill_image ps)) \<and>
     encoded_run ps \<and> sorted (map (f_int \<circ> decode_double) ps) \<and> length (spill_image ps) \<le> q"

definition open_ready :: "nat \<Rightarrow> merge_state \<Rightarrow> bytes list list \<Rightarrow> bool" where
  "open_ready q st rs \<longleftrightarrow> calm (ms_world st) \<and> distinct (map hn_run (ms_heap st)) \<and>
     (\<forall>i < length rs. reader_ready (ms_readers st ! i) (rs ! i) q \<and> encoded_run (rs ! i)) \<and>
     (\<forall>x \<in> set (ms_heap st). sorted (f_int (hn_value x) # map (f_int \<circ> decode_double) (rs ! hn_run x)))"

lemma open_ready_step:
  assumes "open_inv n st rs" and "open_ready q st rs" and "i = length rs" and "i < n" and "calm w" and "reader_ready rd (tl ps) q"
    and "encoded_run ps" and "sorted (map (f_int \<circ> decode_double) ps)"
    and heap: "mset (ms_heap st') = mset (ms_heap st) + mset (first_nodes i (case ps of [] \<Rightarrow> None | p # _ \<Rightarrow> Some (decode_double p)))"
    and st': "ms_readers st' = (ms_readers st)[i := rd]" "ms_world st' = w"
  shows "open_ready q st' (rs @ [tl ps])"
proof -
  have o': "length (ms_readers st) = n" "\<forall>x \<in> set (ms_heap st). hn_run x < length rs"
    using assms(1) by (simp_all add: open_inv_def)
  let ?new = "first_nodes i (case ps of [] \<Rightarrow> None | p # _ \<Rightarrow> Some (decode_double p))"
  have set': "set (ms_heap st') = set (ms_heap st) \<union> set ?new" using arg_cong [OF heap, of set_mset] by simp
  have new: "hn_run x = i \<and> sorted (f_int (hn_value x) # map (f_int \<circ> decode_double) (tl ps))" if "x \<in> set ?new" for x
    using that assms(8) by (cases ps) (auto simp: first_nodes_def)
  have dist: "distinct (map hn_run (ms_heap st'))"
  proof -
    have "mset (map hn_run (ms_heap st')) = mset (map hn_run (ms_heap st) @ map hn_run ?new)" using heap by simp
    moreover have "distinct (map hn_run (ms_heap st) @ map hn_run ?new)"
      using assms(2,3) o'(2) by (cases ps) (auto simp: open_ready_def first_nodes_def)
    ultimately show ?thesis by (metis mset_eq_imp_distinct_iff)
  qed
  have "encoded_run (tl ps)" using assms(7) by (cases ps) (simp_all add: encoded_run_def)
  then have readers: "reader_ready (ms_readers st' ! j) ((rs @ [tl ps]) ! j) q \<and> encoded_run ((rs @ [tl ps]) ! j)"
    if "j < length (rs @ [tl ps])" for j
    using that assms(2,3,4,6) o'(1) st'(1) by (cases "j = i") (simp_all add: open_ready_def nth_append less_Suc_eq)
  have "sorted (f_int (hn_value x) # map (f_int \<circ> decode_double) ((rs @ [tl ps]) ! hn_run x))" if x: "x \<in> set (ms_heap st')" for x
  proof (cases "x \<in> set ?new")
    case True
    then show ?thesis using new [OF True] assms(3) by (simp add: nth_append)
  next
    case False
    then have "x \<in> set (ms_heap st)" using x set' by blast
    then show ?thesis using assms(2) o'(2) by (simp add: open_ready_def nth_append)
  qed
  then show ?thesis using dist readers assms(5) st'(2) unfolding open_ready_def by blast
qed

lemma merge_open_calm:
  assumes "list_all2 (merge_run w0 q) paths runs" and "open_inv n st rs" and "open_ready q st rs" and "i = length rs"
    and "i + length paths = n" and "w_files (ms_world st) = w_files w0" and "20 \<le> q" and "q + 28 \<le> int64_max"
  shows "\<exists>st' rs'. merge_open paths q i st = (MILENA_OK, n, st') \<and> open_inv n st' rs' \<and> length rs' = n \<and> open_ready q st' rs' \<and>
    w_files (ms_world st') = w_files w0 \<and> ms_have st' = ms_have st \<and>
    merge_records st' rs' = merge_records st rs + mset (concat runs)"
  using assms
proof (induction paths runs arbitrary: i st rs rule: list_all2_induct)
  case Nil
  then show ?case by auto
next
  case (Cons path paths ps runs)
  from Cons.hyps(1) obtain p where p: "path = Some p" "p \<noteq> []" "w_files w0 p = Some (spill_image ps)"
    and run: "encoded_run ps" "sorted (map (f_int \<circ> decode_double) ps)" "length (spill_image ps) \<le> q"
    by (auto simp: merge_run_def)
  have calm: "calm (ms_world st)" using Cons.prems(2) by (simp add: open_ready_def)
  have f0: "w_files (ms_world st) p = Some (spill_image ps)" using p(3) Cons.prems(5) by simp
  obtain rd w1 where o': "milena_spill_reader_open (Some p) q double_size (ms_readers st ! i) (ms_world st) = (MILENA_OK, rd, w1)"
    "calm w1" "w_files w1 = w_files (ms_world st)" "reader_ready rd ps q"
    using reader_open_calm [OF calm f0 run(1,3) Cons.prems(7) p(2) Cons.prems(6)] by blast
  define y where "y = (case ps of [] \<Rightarrow> None | p # _ \<Rightarrow> Some (decode_double p))"
  have q: "q \<le> size_max" using Cons.prems(7) by (simp add: int64_max_def size_max_def)
  obtain rd2 w2 where f: "fetch_value rd w1 = (Inr y, rd2, w2)" "calm w2" "w_files w2 = w_files w1" "reader_ready rd2 (tl ps) q"
    using fetch_calm [OF o'(2,4) q run(1)] by (auto simp: y_def)
  define st1 where "st1 = opened_state st i rd2 y w2"
  have lt: "i < n" using Cons.prems(4) by simp
  obtain s' where s': "rd_file rd2 = Some s'" "is_rest s' = spill_image (tl ps)" using f(4) by (auto simp: reader_ready_def)
  have qs: "\<forall>p \<in> set (tl ps). length p \<le> double_size" using run(1) by (cases ps) (simp_all add: encoded_run_def double_size_def)
  have y: "y = None \<longrightarrow> tl ps = []" "pred_option f_finite y" using run(1) by (cases ps; simp add: y_def encoded_run_def)+
  note step = open_inv_step [OF Cons.prems(1,3) lt s' qs y, of w2, folded st1_def]
  have st1: "ms_readers st1 = (ms_readers st)[i := rd2]" "ms_world st1 = w2" "ms_have st1 = ms_have st" by (simp_all add: st1_def)
  have ready: "open_ready q st1 (rs @ [tl ps])"
    using open_ready_step [OF Cons.prems(1,2,3) lt f(2,4) run(1,2) step(2) [unfolded y_def] st1(1,2)] .
  have "\<exists>st' rs'. merge_open paths q (i + 1) st1 = (MILENA_OK, n, st') \<and> open_inv n st' rs' \<and> length rs' = n \<and> open_ready q st' rs' \<and>
    w_files (ms_world st') = w_files w0 \<and> ms_have st' = ms_have st1 \<and>
    merge_records st' rs' = merge_records st1 (rs @ [tl ps]) + mset (concat runs)"
    using Cons.prems o'(3) f(3) st1 by (intro Cons.IH [OF step(1) ready]) simp_all
  moreover have "merge_records st1 (rs @ [tl ps]) = merge_records st rs + mset ps"
  proof (cases ps)
    case Nil
    then show ?thesis using step(2) by (simp add: merge_records_def first_nodes_def y_def)
  next
    case (Cons p' ps')
    then have "encode_double (decode_double p') = p'" using run(1) encode_decode_double by (simp add: encoded_run_def)
    then show ?thesis using Cons step(2) by (simp add: merge_records_def first_nodes_def y_def)
  qed
  moreover have "merge_open (path # paths) q i st = merge_open paths q (i + 1) st1"
    unfolding p(1) st1_def by (rule merge_open_next [OF o'(1) f(1)])
  ultimately show ?case using st1(3) by (auto simp: add.assoc)
qed

section \<open>The output without faults\<close>

lemma path_exists_calm: "calm w \<Longrightarrow> w_files w p = None \<Longrightarrow> path_exists p w = (False, tick w)"
  by (simp add: path_exists_def calm_calls)

lemma store_open_calm:
  assumes "calm w" and "w_files w p = None" and "p \<noteq> []" and "20 \<le> q"
  shows "\<exists>st w'. milena_spill_store_open (Some p) q double_size old w = (MILENA_OK, st, w') \<and> calm w' \<and>
    st_quota st = q \<and> st_max_record st = double_size \<and> st_used st = 0 \<and> st_count st = 0"
proof -
  have lim: "\<not> spill_limits_bad (Some p) q double_size"
    using assms(3,4) by (simp add: spill_limits_bad_def double_size_def spill_header_size_def spill_trailer_size_def)
  have rc: "milena_spill_store_recover (Some p) q double_size w =
    (Inr \<lparr>rc_records = 0, rc_bytes = 0, rc_discarded = 0, rc_truncated = False\<rparr>, tick w)"
    using assms(1,2) lim by (simp add: milena_spill_store_recover_def calm_calls)
  define w1 where "w1 = set_file p (Some (file_bytes (tick (tick w)) p)) (tick (tick w))"
  have a: "fopen_append p (tick w) = (Opened \<lparr>os_path = p, os_pending = []\<rparr>, w1)"
    using assms(1) by (simp add: fopen_append_def calm_calls w1_def)
  have "calm w1" using assms(1) by (simp add: w1_def set_file_def calm_def tick_def)
  then obtain w2 where "malloc_ok (length p + 1) w1 = (True, w2)" "calm w2" using calm_malloc by blast
  then show ?thesis using lim rc a by (simp add: milena_spill_store_open_def)
qed

lemma merge_prepare_calm:
  assumes "calm (ms_world st)" and "w_files (ms_world st) path = None" and "w_files (ms_world st) (partial_name path) = None"
    and "20 \<le> q" and "length path + 9 \<le> size_max"
  shows "\<exists>out w. merge_prepare path q st = (MILENA_OK, st\<lparr>ms_output := out, ms_world := w\<rparr>) \<and> calm w \<and>
    st_quota out = q \<and> st_max_record out = double_size \<and> st_used out = 0 \<and> st_count out = 0"
proof -
  have cap: "milena_size_add (length path) (length ''.partial'' + 1) = Some (length path + 9)"
    using assms(5) by (simp add: milena_size_add_def)
  obtain w1 where m: "malloc_ok (length path + 9) (ms_world st) = (True, w1)" "calm w1" "w_files w1 = w_files (ms_world st)"
    using calm_malloc [OF assms(1)] by blast
  have e: "path_exists path w1 = (False, tick w1)" "path_exists (partial_name path) (tick w1) = (False, tick (tick w1))"
    using path_exists_calm m(2,3) assms(2,3) by simp_all
  have "partial_name path \<noteq> []" by (simp add: partial_name_def)
  then obtain out w2 where "milena_spill_store_open (Some (partial_name path)) q double_size spill_closed (tick (tick w1)) = (MILENA_OK, out, w2)"
    "calm w2" "st_quota out = q" "st_max_record out = double_size" "st_used out = 0" "st_count out = 0"
    using store_open_calm [of "tick (tick w1)" "partial_name path" q spill_closed] m(2,3) assms(3,4) by auto
  then show ?thesis using cap m(1) e by (auto simp: merge_prepare_def)
qed

lemma calm_set_file: "calm (set_file p c w) = calm w"
  by (simp add: set_file_def calm_def)

lemma close_readers_calm: "calm w \<Longrightarrow> calm (close_readers rs w)"
proof (induction rs arbitrary: w)
  case (Cons r rs)
  have "calm (snd (snd (milena_spill_reader_close (Some r) w)))"
    using Cons.prems by (auto simp: milena_spill_reader_close_def calm_calls split: option.splits)
  then show ?case using Cons.IH by simp
qed simp

lemma merge_finish_calm:
  assumes "calm (ms_world st)" and "store_ok (partial_name path) ps (ms_output st) (ms_world st)"
  shows "\<exists>st'. merge_finish path MILENA_OK st = (MILENA_OK, st') \<and> calm (ms_world st')"
proof -
  obtain out where out: "st_file (ms_output st) = Some out" "os_pending out = []" "w_files (ms_world st) (partial_name path) \<noteq> None"
    using assms(2) by (auto simp: store_ok_def)
  have c: "milena_spill_store_close (Some (ms_output st)) (ms_world st) =
    (MILENA_OK, Some ((ms_output st)\<lparr>st_path := None, st_file := None\<rparr>), tick (ms_world st))"
    using out assms(1) by (simp add: milena_spill_store_close_def fflush_def calm_calls)
  have "fst (rename (partial_name path) path (tick (ms_world st)))"
    using out(3) assms(1) by (auto simp: rename_def calm_calls)
  moreover have "calm (snd (rename (partial_name path) path (tick (ms_world st))))"
    using out(3) assms(1) by (auto simp: rename_def calm_calls calm_set_file)
  ultimately show ?thesis using c by (cases "rename (partial_name path) path (tick (ms_world st))") (simp add: merge_finish_def)
qed

lemma merge_write_calm:
  assumes inv: "open_inv n st rs" "length rs = n" and ready: "open_ready q st rs" and have': "ms_have st = replicate n False"
    and "w_files (ms_world st) path = None" and "w_files (ms_world st) (partial_name path) = None"
    and "20 \<le> q" and "q + 28 \<le> int64_max" and "length path + 9 \<le> size_max" and room: "28 * size (merge_records st rs) \<le> q"
  shows "\<exists>st'. merge_write path q st = Some (MILENA_OK, st') \<and> calm (ms_world st')"
proof -
  have calm: "calm (ms_world st)" using ready by (simp add: open_ready_def)
  obtain out w where p: "merge_prepare path q st = (MILENA_OK, st\<lparr>ms_output := out, ms_world := w\<rparr>)" and w: "calm w"
    and out: "st_quota out = q" "st_max_record out = double_size" "st_used out = 0" "st_count out = 0"
    using merge_prepare_calm [OF calm assms(5,6,7,9)] by blast
  define s0 where "s0 = st\<lparr>ms_output := out, ms_world := w\<rparr>"
  have so: "store_ok (partial_name path) [] out w"
    using merge_prepare_ok [OF p assms(6)] s0_def by (metis (no_types, lifting) merge_state.select_convs(5,6)
        merge_state.surjective merge_state.update_convs(5,6))
  have s0: "merge_inv s0 rs" "merge_live s0 rs" "merge_size s0 rs = size (merge_records st rs)"
    using open_inv_merge [where o' = out and w = w, OF inv, folded s0_def] size_merge_records [of s0 rs] by simp_all
  have "\<forall>x \<in> set (ms_heap st). hn_run x < n" using inv by (simp add: open_inv_def)
  then have order: "\<forall>x \<in> set (ms_heap s0). sorted (f_int (hn_value x) # map (f_int \<circ> decode_double) (rs ! hn_run x)) \<and>
      (ms_have s0 ! hn_run x \<longrightarrow> f_int (ms_previous s0 ! hn_run x) \<le> f_int (hn_value x))"
    using ready have' by (auto simp: open_ready_def s0_def)
  have mr: "merge_ready (partial_name path) q s0 rs"
    unfolding merge_ready_def
  proof (intro conjI)
    show "\<exists>ps. store_ok (partial_name path) ps (ms_output s0) (ms_world s0)" using so by (auto simp: s0_def)
    show "\<forall>x \<in> set (ms_heap s0). sorted (f_int (hn_value x) # map (f_int \<circ> decode_double) (rs ! hn_run x)) \<and>
      (ms_have s0 ! hn_run x \<longrightarrow> f_int (ms_previous s0 ! hn_run x) \<le> f_int (hn_value x))" by (rule order)
    show "\<forall>i < length rs. reader_ready (ms_readers s0 ! i) (rs ! i) q \<and> encoded_run (rs ! i)"
      "distinct (map hn_run (ms_heap s0))" using ready by (simp_all add: open_ready_def s0_def)
  qed (use w out s0(3) room assms(8) in \<open>simp_all add: s0_def int64_max_def size_max_def\<close>)
  then obtain s1 rs1 where l: "merge_loop s0 = Some (MILENA_OK, s1)" "merge_ready (partial_name path) q s1 rs1"
    using merge_loop_calm [OF s0(1) mr] by blast
  then obtain ps where "store_ok (partial_name path) ps (ms_output s1) (ms_world s1)" "calm (ms_world s1)"
    by (auto simp: merge_ready_def)
  then obtain st' where "merge_finish path MILENA_OK s1 = (MILENA_OK, st')" "calm (ms_world st')" using merge_finish_calm by blast
  then show ?thesis using p l(1) by (simp add: merge_write_def s0_def [symmetric])
qed

lemma merge_complete:
  assumes "calm w" and runs: "list_all2 (merge_run w q) paths runs" and "paths \<noteq> []" and "2 \<le> max_fan_in" and "length paths \<le> max_fan_in"
    and "output \<noteq> []" and "Some output \<notin> set paths" and "w_files w output = None" and "w_files w (partial_name output) = None"
    and "merge_sizes_fit (length paths)" and "length output + 9 \<le> size_max"
    and "20 \<le> q" and "q + 28 \<le> int64_max" and "28 * length (concat runs) \<le> q"
  shows "\<exists>values w'. milena_external_merge_double_runs (Some paths) (length paths) (Some output) max_fan_in q w = Some (MILENA_OK, w') \<and>
    w_files w' output = Some (spill_image (map encode_double values)) \<and>
    mset (map encode_double values) = mset (concat runs) \<and> sorted (map f_int values) \<and> calm w'"
proof -
  let ?n = "length paths"
  define w4 where "w4 = tick (tick (tick (tick w)))"
  have w4: "calm w4" "w_files w4 = w_files w" using assms(1) by (simp_all add: w4_def)
  have ready: "open_ready q (merge_start ?n w4) []" using w4 by (simp add: open_ready_def merge_start_def)
  have "merge_run w4 q = merge_run w q" using w4(2) by (intro ext) (simp add: merge_run_def)
  then have "list_all2 (merge_run w4 q) paths runs" using runs by simp
  from merge_open_calm [OF this merge_start_inv ready, of 0] obtain st rs where
    op: "merge_open paths q 0 (merge_start ?n w4) = (MILENA_OK, ?n, st)" and
    inv: "open_inv ?n st rs" "length rs = ?n" "open_ready q st rs" "w_files (ms_world st) = w_files w4"
      "ms_have st = replicate ?n False" "merge_records st rs = mset (concat runs)"
    using assms(12,13) by (auto simp: merge_start_def merge_records_def)
  have room: "28 * size (merge_records st rs) \<le> q" using inv(6) assms(14) by (simp add: size_mset)
  have free: "w_files (ms_world st) output = None" "w_files (ms_world st) (partial_name output) = None"
    using inv(4) w4(2) assms(8,9) by simp_all
  obtain st' where mw: "merge_write output q st = Some (MILENA_OK, st')" and mc: "calm (ms_world st')"
    using merge_write_calm [OF inv(1,2,3,5) free assms(12,13,11) room] by blast
  from merge_write_sound [OF mw inv(1,2) free(2)] obtain vs where
    vs: "w_files (ms_world st') output = Some (spill_image (map encode_double vs))" "mset (map encode_double vs) = mset (concat runs)"
      "sorted (map f_int vs)" using inv(6) by auto
  have body: "merge_body paths output q w4 = Some (MILENA_OK, close_readers (take ?n (ms_readers st')) (ms_world st'))"
    using op mw by (simp add: merge_body_def)
  have "\<not> merge_path_bad (Some output) x" if "x \<in> set paths" for x
    using that runs assms(7) by (auto simp: merge_path_bad_def merge_run_def list_all2_conv_all_nth in_set_conv_nth)
  then have "\<not> list_ex (merge_path_bad (Some output)) paths" by (auto simp: list_ex_iff)
  then have "milena_external_merge_double_runs (Some paths) ?n (Some output) max_fan_in q w =
    Some (MILENA_OK, close_readers (take ?n (ms_readers st')) (ms_world st'))"
    using body assms(1,3,4,5,6,10) calm_calls(2)
    by (simp add: milena_external_merge_double_runs_def merge_arguments_bad_def w4_def)
  then show ?thesis using vs close_readers_files close_readers_calm [OF mc] by metis
qed

end
