(* ===== verification/MergeProps.thy ===== *)
theory MergeProps
  imports MergeCalm
begin

text \<open>
  The properties of the external merge: it always returns, whatever it returns with success is
  sorted and complete, and without faults it does return with success.
\<close>

text \<open>
  C21.  The merge returns for every input, whatever fails: its loop ends because every iteration
  either consumes a record or shrinks the heap.
\<close>

theorem external_merge_returns:
  "milena_external_merge_double_runs (Some paths) (length paths) output max_fan_in quota w \<noteq> None"
proof -
  have "merge_body paths p quota w \<noteq> None" for p w
  proof -
    obtain status k st where op: "merge_open paths quota 0 (merge_start (length paths) w) = (status, k, st)" by (metis prod_cases3)
    have "status = MILENA_OK \<Longrightarrow> merge_write p quota st \<noteq> None"
      using merge_open_inv [OF _ merge_start_inv, of paths quota 0 "length paths" w k st] merge_write_ends op by fastforce
    then show ?thesis using op by (auto simp: merge_body_def split: option.splits)
  qed
  then show ?thesis
    by (simp add: milena_external_merge_double_runs_def split: prod.splits)
qed


text \<open>
  C20.  When nothing fails, sorted complete runs of finite doubles merge: given room in the output,
  two or more ways of fan-in and unused output names, the merge succeeds, and its output holds
  every record of the runs, once, in order.
\<close>

theorem external_merge_complete:
  assumes "calm w" and "list_all2 (merge_run w q) paths runs" and "paths \<noteq> []" and "2 \<le> max_fan_in" and "length paths \<le> max_fan_in"
    and "output \<noteq> []" and "Some output \<notin> set paths" and "w_files w output = None" and "w_files w (partial_name output) = None"
    and "merge_sizes_fit (length paths)" and "length output + 9 \<le> size_max"
    and "20 \<le> q" and "q + 28 \<le> int64_max" and "28 * length (concat runs) \<le> q"
  shows "\<exists>values w'. milena_external_merge_double_runs (Some paths) (length paths) (Some output) max_fan_in q w = Some (MILENA_OK, w') \<and>
    w_files w' output = Some (spill_image (map encode_double values)) \<and>
    mset (map encode_double values) = mset (concat runs) \<and> sorted (map f_int values)"
  using merge_complete [OF assms] by blast

section \<open>Witnesses\<close>

text \<open>Two runs, 1.0 3.0 and 2.0.\<close>

definition two_runs :: "bytes list list" where
  "two_runs = [map encode_double [0x3FF0000000000000, 0x4008000000000000], map encode_double [0x4000000000000000]]"

definition merge_world :: world where
  "merge_world = \<lparr>w_files = [''a'' \<mapsto> spill_image (two_runs ! 0), ''b'' \<mapsto> spill_image (two_runs ! 1)],
     w_fault = (\<lambda>_. None), w_tick = 0, w_serial = 0, w_pid = 1\<rparr>"

lemma two_runs_ready:
  "calm merge_world" "list_all2 (merge_run merge_world 200) [Some ''a'', Some ''b''] two_runs"
  "Some ''out'' \<notin> set [Some ''a'', Some ''b'']" "w_files merge_world ''out'' = None" "w_files merge_world (partial_name ''out'') = None"
  "merge_sizes_fit 2" "length (concat two_runs) = 3"
proof -
  have f: "f_int 0x3FF0000000000000 \<le> f_int 0x4008000000000000" "f_finite 0x3FF0000000000000" "f_finite 0x4008000000000000"
    "f_finite 0x4000000000000000"
    by (simp_all add: f_int_def f_sign_def f_mag_def f_exp_def f_frac_def f_finite_def)
  then show "list_all2 (merge_run merge_world 200) [Some ''a'', Some ''b''] two_runs"
    by (simp add: two_runs_def merge_run_def merge_world_def encoded_run_def decode_encode_double)
  show "calm merge_world" by (simp add: calm_def merge_world_def)
  show "Some ''out'' \<notin> set [Some ''a'', Some ''b'']" "w_files merge_world ''out'' = None" "w_files merge_world (partial_name ''out'') = None"
    "merge_sizes_fit 2" "length (concat two_runs) = 3"
    by (simp_all add: merge_world_def partial_name_def merge_sizes_fit_def milena_size_mul_def double_size_def size_max_def two_runs_def)
qed

lemma two_paths: "length [Some ''a'', Some ''b''] = 2"
  by simp

lemma external_merge_complete_witness:
  "\<exists>values w'. milena_external_merge_double_runs (Some [Some ''a'', Some ''b'']) 2 (Some ''out'') 4 200 merge_world = Some (MILENA_OK, w') \<and>
    w_files w' ''out'' = Some (spill_image (map encode_double values)) \<and>
    mset (map encode_double values) = mset (concat two_runs) \<and> sorted (map f_int values)"
  using external_merge_complete [OF two_runs_ready(1,2), unfolded two_paths, of 4 "''out''"] two_runs_ready(3-7)
  by (simp add: size_max_def int64_max_def)


end
