(* ===== verification/MergeableAggregate.thy ===== *)
theory MergeableAggregate
  imports Common Binary64Round Checksums
begin

text \<open>
  mergeable_aggregate.c: running statistics of a column (count, missing values, exact integer sum,
  compensated sum, mean, second moment, extrema) that can be merged and sent over the wire.

  A \<open>uint64_t\<close> is a \<open>u64\<close>; an \<open>int64_t\<close> is a 64-bit word read with \<open>sint\<close>.  The value kind is kept
  as the 32 bits of its enum, because the decoder casts whatever the message holds.  Doubles are
  binary64 with one rounding per operation, as on the hosts that evaluate \<open>double\<close> in its own
  format.  A pointer argument that may be null is an option; on an error the state is returned as
  it was.
\<close>

definition MILENA_AGGREGATE_WIRE_VERSION :: u32 where "MILENA_AGGREGATE_WIRE_VERSION = 4"
definition MILENA_AGGREGATE_WIRE_SIZE :: nat where "MILENA_AGGREGATE_WIRE_SIZE = 96"

definition MILENA_AGGREGATE_VALUE_NONE :: u32 where "MILENA_AGGREGATE_VALUE_NONE = 0"
definition MILENA_AGGREGATE_VALUE_FLOAT64 :: u32 where "MILENA_AGGREGATE_VALUE_FLOAT64 = 1"
definition MILENA_AGGREGATE_VALUE_INT64 :: u32 where "MILENA_AGGREGATE_VALUE_INT64 = 2"

lemmas value_kinds = MILENA_AGGREGATE_VALUE_NONE_def MILENA_AGGREGATE_VALUE_FLOAT64_def MILENA_AGGREGATE_VALUE_INT64_def

record MilenaAggregateState =
  ag_count :: u64
  ag_null_count :: u64
  ag_invalid_count :: u64
  ag_integer_sum :: "64 word"
  ag_value_kind :: u32
  ag_sum :: f64
  ag_sum_compensation :: f64
  ag_mean :: f64
  ag_m2 :: f64
  ag_min :: f64
  ag_max :: f64

record MilenaAggregateResult =
  ar_count :: u64
  ar_null_count :: u64
  ar_invalid_count :: u64
  ar_integer_sum :: "64 word"
  ar_sum :: f64
  ar_mean :: f64
  ar_variance_population :: f64
  ar_stddev_population :: f64
  ar_variance_sample :: f64
  ar_stddev_sample :: f64
  ar_min :: f64
  ar_max :: f64
  ar_has_values :: bool
  ar_has_sample_variance :: bool
  ar_has_integer_sum :: bool

definition int64_max_value :: int where "int64_max_value = 9223372036854775807"
definition int64_min_value :: int where "int64_min_value = - 9223372036854775808"

definition int64_add_checked :: "64 word \<Rightarrow> 64 word \<Rightarrow> 64 word option" where
  "int64_add_checked left right =
     (if (sint right > 0 \<and> sint left > int64_max_value - sint right) \<or>
         (sint right < 0 \<and> sint left < int64_min_value - sint right) then None
      else Some (left + right))"

definition state_total_count :: "MilenaAggregateState \<Rightarrow> u64 option" where
  "state_total_count s =
     (if ag_null_count s > - 1 - ag_count s then None
      else let partial = ag_count s + ag_null_count s
           in if ag_invalid_count s > - 1 - partial then None
              else Some (partial + ag_invalid_count s))"

definition state_is_valid :: "MilenaAggregateState \<Rightarrow> bool" where
  "state_is_valid s =
     (case state_total_count s of None \<Rightarrow> False | Some tot \<Rightarrow>
      if ag_value_kind s < MILENA_AGGREGATE_VALUE_NONE \<or> ag_value_kind s > MILENA_AGGREGATE_VALUE_INT64 \<or>
         \<not> f_finite (ag_sum s) \<or> \<not> f_finite (ag_sum_compensation s) \<or>
         \<not> f_finite (f_add (ag_sum s) (ag_sum_compensation s)) \<or> \<not> f_finite (ag_mean s) \<or>
         \<not> f_finite (ag_m2 s) \<or> \<not> f_finite (ag_min s) \<or> \<not> f_finite (ag_max s) then False
      else if ag_count s = 0 then
        ag_value_kind s = MILENA_AGGREGATE_VALUE_NONE \<and> ag_integer_sum s = 0 \<and> f_eq (ag_sum s) 0 \<and>
        f_eq (ag_sum_compensation s) 0 \<and> f_eq (ag_mean s) 0 \<and> f_eq (ag_m2 s) 0 \<and> f_eq (ag_min s) 0 \<and> f_eq (ag_max s) 0
      else if ag_value_kind s = MILENA_AGGREGATE_VALUE_NONE \<or>
              (ag_value_kind s = MILENA_AGGREGATE_VALUE_FLOAT64 \<and> ag_integer_sum s \<noteq> 0) then False
      else tot \<ge> ag_count s \<and> f_le (ag_min s) (ag_max s) \<and> f_le 0 (ag_m2 s))"

text \<open>Neumaier's summation.\<close>

definition compensated_add :: "MilenaAggregateState \<Rightarrow> f64 \<Rightarrow> MilenaAggregateState option" where
  "compensated_add s v =
     (let next' = f_add (ag_sum s) v
      in if \<not> f_finite next' then None
         else let adjustment = (if f_le (f_abs v) (f_abs (ag_sum s))
                                then f_add (f_sub (ag_sum s) next') v
                                else f_add (f_sub v next') (ag_sum s));
                  compensation = f_add (ag_sum_compensation s) adjustment
              in if \<not> f_finite adjustment \<or> \<not> f_finite compensation \<or> \<not> f_finite (f_add next' compensation) then None
                 else Some (s\<lparr>ag_sum := next', ag_sum_compensation := compensation\<rparr>))"

definition zero_state :: MilenaAggregateState where
  "zero_state = \<lparr>ag_count = 0, ag_null_count = 0, ag_invalid_count = 0, ag_integer_sum = 0,
     ag_value_kind = MILENA_AGGREGATE_VALUE_NONE, ag_sum = 0, ag_sum_compensation = 0, ag_mean = 0, ag_m2 = 0, ag_min = 0, ag_max = 0\<rparr>"

definition milena_aggregate_state_init :: "MilenaAggregateState option \<Rightarrow> MilenaAggregateState option" where
  "milena_aggregate_state_init s = (case s of None \<Rightarrow> None | Some _ \<Rightarrow> Some zero_state)"

text \<open>The step of Welford's mean and second moment that both kinds of values share.\<close>

definition next_mean :: "MilenaAggregateState \<Rightarrow> u64 \<Rightarrow> f64 \<Rightarrow> f64" where
  "next_mean s new_count v = f_add (ag_mean s) (f_div (f_sub v (ag_mean s)) (f_of_int (uint new_count)))"

definition next_m2 :: "MilenaAggregateState \<Rightarrow> f64 \<Rightarrow> f64 \<Rightarrow> f64" where
  "next_m2 s new_mean v = f_add (ag_m2 s) (f_mul (f_sub v (ag_mean s)) (f_sub v new_mean))"

definition milena_aggregate_state_add :: "MilenaAggregateState option \<Rightarrow> f64 \<Rightarrow> MilenaStatus \<times> MilenaAggregateState option" where
  "milena_aggregate_state_add state v =
     (case state of None \<Rightarrow> (MILENA_ERR_ARGUMENT, state) | Some s \<Rightarrow>
      if \<not> f_finite v \<or> \<not> state_is_valid s then (MILENA_ERR_ARGUMENT, state)
      else if ag_count s \<noteq> 0 \<and> ag_value_kind s \<noteq> MILENA_AGGREGATE_VALUE_FLOAT64 then (MILENA_ERR_TYPE, state)
      else if state_total_count s = None \<or> state_total_count s = Some (- 1) then (MILENA_ERR_OVERFLOW, state)
      else let new_count = ag_count s + 1; new_mean = next_mean s new_count v; new_m2 = next_m2 s new_mean v
           in if \<not> f_finite new_mean \<or> \<not> f_finite new_m2 then (MILENA_ERR_OVERFLOW, state)
              else case compensated_add s v of
                None \<Rightarrow> (MILENA_ERR_OVERFLOW, state)
              | Some n \<Rightarrow> (MILENA_OK, Some (n\<lparr>ag_count := new_count, ag_value_kind := MILENA_AGGREGATE_VALUE_FLOAT64,
                  ag_mean := new_mean, ag_m2 := new_m2,
                  ag_min := (if ag_count s = 0 \<or> f_lt v (ag_min n) then v else ag_min n),
                  ag_max := (if ag_count s = 0 \<or> f_lt (ag_max n) v then v else ag_max n)\<rparr>)))"

definition milena_aggregate_state_add_int64 ::
  "MilenaAggregateState option \<Rightarrow> 64 word \<Rightarrow> MilenaStatus \<times> MilenaAggregateState option"
where
  "milena_aggregate_state_add_int64 state i =
     (case state of None \<Rightarrow> (MILENA_ERR_ARGUMENT, state) | Some s \<Rightarrow>
      if \<not> state_is_valid s then (MILENA_ERR_ARGUMENT, state)
      else if ag_count s \<noteq> 0 \<and> ag_value_kind s \<noteq> MILENA_AGGREGATE_VALUE_INT64 then (MILENA_ERR_TYPE, state)
      else if state_total_count s = None \<or> state_total_count s = Some (- 1) then (MILENA_ERR_OVERFLOW, state)
      else case int64_add_checked (if ag_count s \<noteq> 0 then ag_integer_sum s else 0) i of
        None \<Rightarrow> (MILENA_ERR_OVERFLOW, state)
      | Some exact_sum \<Rightarrow>
          let new_count = ag_count s + 1; v = f_of_int (sint i);
              new_mean = next_mean s new_count v; new_m2 = next_m2 s new_mean v
          in if \<not> f_finite new_mean \<or> \<not> f_finite new_m2 then (MILENA_ERR_OVERFLOW, state)
             else case compensated_add s v of
               None \<Rightarrow> (MILENA_ERR_OVERFLOW, state)
             | Some n \<Rightarrow> (MILENA_OK, Some (n\<lparr>ag_count := new_count, ag_value_kind := MILENA_AGGREGATE_VALUE_INT64,
                 ag_integer_sum := exact_sum, ag_mean := new_mean, ag_m2 := new_m2,
                 ag_min := (if ag_count s = 0 \<or> f_lt v (ag_min n) then v else ag_min n),
                 ag_max := (if ag_count s = 0 \<or> f_lt (ag_max n) v then v else ag_max n)\<rparr>)))"

definition aggregate_state_add_missing :: "MilenaAggregateState option \<Rightarrow> bool \<Rightarrow> MilenaStatus \<times> MilenaAggregateState option" where
  "aggregate_state_add_missing state invalid =
     (case state of None \<Rightarrow> (MILENA_ERR_ARGUMENT, state) | Some s \<Rightarrow>
      if \<not> state_is_valid s then (MILENA_ERR_ARGUMENT, state)
      else if state_total_count s = None \<or> state_total_count s = Some (- 1) \<or>
              (if invalid then ag_invalid_count s else ag_null_count s) = - 1 then (MILENA_ERR_OVERFLOW, state)
      else if invalid then (MILENA_OK, Some (s\<lparr>ag_invalid_count := ag_invalid_count s + 1\<rparr>))
      else (MILENA_OK, Some (s\<lparr>ag_null_count := ag_null_count s + 1\<rparr>)))"

definition milena_aggregate_state_add_null :: "MilenaAggregateState option \<Rightarrow> MilenaStatus \<times> MilenaAggregateState option" where
  "milena_aggregate_state_add_null state = aggregate_state_add_missing state False"

definition milena_aggregate_state_add_invalid :: "MilenaAggregateState option \<Rightarrow> MilenaStatus \<times> MilenaAggregateState option" where
  "milena_aggregate_state_add_invalid state = aggregate_state_add_missing state True"

text \<open>The combined mean and second moment of two non-empty states.\<close>

definition merged_mean :: "MilenaAggregateState \<Rightarrow> MilenaAggregateState \<Rightarrow> u64 \<Rightarrow> f64" where
  "merged_mean t r count =
     (let delta = f_sub (ag_mean r) (ag_mean t);
          ratio = f_div (f_of_int (uint (ag_count r))) (f_of_int (uint count))
      in f_add (ag_mean t) (f_mul delta ratio))"

definition merged_m2 :: "MilenaAggregateState \<Rightarrow> MilenaAggregateState \<Rightarrow> u64 \<Rightarrow> f64" where
  "merged_m2 t r count =
     (let delta = f_sub (ag_mean r) (ag_mean t);
          cross = f_mul (f_mul delta delta)
            (f_div (f_mul (f_of_int (uint (ag_count t))) (f_of_int (uint (ag_count r)))) (f_of_int (uint count)))
      in f_add (f_add (ag_m2 t) (ag_m2 r)) cross)"

definition milena_aggregate_state_merge ::
  "MilenaAggregateState option \<Rightarrow> MilenaAggregateState option \<Rightarrow> MilenaStatus \<times> MilenaAggregateState option"
where
  "milena_aggregate_state_merge target other =
     (case (target, other) of (Some t, Some r) \<Rightarrow>
        if \<not> state_is_valid t \<or> \<not> state_is_valid r then (MILENA_ERR_ARGUMENT, target)
        else if ag_count t \<noteq> 0 \<and> ag_count r \<noteq> 0 \<and> ag_value_kind t \<noteq> ag_value_kind r then (MILENA_ERR_TYPE, target)
        else if ag_count r > - 1 - ag_count t \<or> ag_null_count r > - 1 - ag_null_count t \<or>
                ag_invalid_count r > - 1 - ag_invalid_count t then (MILENA_ERR_OVERFLOW, target)
        else
          let count = ag_count t + ag_count r; null_count = ag_null_count t + ag_null_count r;
              invalid_count = ag_invalid_count t + ag_invalid_count r
          in if null_count > - 1 - count \<or> invalid_count > - 1 - count - null_count then (MILENA_ERR_OVERFLOW, target)
             else if ag_count r = 0 then (MILENA_OK, Some (t\<lparr>ag_null_count := null_count, ag_invalid_count := invalid_count\<rparr>))
             else if ag_count t = 0 then (MILENA_OK, Some (r\<lparr>ag_null_count := null_count, ag_invalid_count := invalid_count\<rparr>))
             else
               let mean = merged_mean t r count; m2 = merged_m2 t r count;
                   exact = (if ag_value_kind t \<noteq> MILENA_AGGREGATE_VALUE_INT64 then Some 0
                            else int64_add_checked (ag_integer_sum t) (ag_integer_sum r))
               in case exact of None \<Rightarrow> (MILENA_ERR_OVERFLOW, target) | Some exact_sum \<Rightarrow>
                  if \<not> f_finite mean \<or> \<not> f_finite m2 then (MILENA_ERR_OVERFLOW, target)
                  else case compensated_add t (ag_sum r) of None \<Rightarrow> (MILENA_ERR_OVERFLOW, target) | Some m \<Rightarrow>
                       case compensated_add m (ag_sum_compensation r) of None \<Rightarrow> (MILENA_ERR_OVERFLOW, target) | Some m \<Rightarrow>
                       (MILENA_OK, Some (m\<lparr>ag_count := count, ag_value_kind := ag_value_kind t,
                          ag_integer_sum := (if ag_value_kind t = MILENA_AGGREGATE_VALUE_INT64 then exact_sum else 0),
                          ag_null_count := null_count, ag_invalid_count := invalid_count, ag_mean := mean, ag_m2 := m2,
                          ag_min := f_min (ag_min t) (ag_min r), ag_max := f_max (ag_max t) (ag_max r)\<rparr>))
      | _ \<Rightarrow> (MILENA_ERR_ARGUMENT, target))"

text \<open>The result of an empty column, and \<open>memset\<close>.\<close>

definition zero_result :: MilenaAggregateResult where
  "zero_result = \<lparr>ar_count = 0, ar_null_count = 0, ar_invalid_count = 0, ar_integer_sum = 0, ar_sum = 0, ar_mean = 0,
     ar_variance_population = 0, ar_stddev_population = 0, ar_variance_sample = 0, ar_stddev_sample = 0, ar_min = 0, ar_max = 0,
     ar_has_values = False, ar_has_sample_variance = False, ar_has_integer_sum = False\<rparr>"

definition milena_aggregate_state_finalize ::
  "MilenaAggregateState option \<Rightarrow> MilenaAggregateResult option \<Rightarrow> MilenaStatus \<times> MilenaAggregateResult option"
where
  "milena_aggregate_state_finalize state result =
     (case (state, result) of (Some s, Some _) \<Rightarrow>
        if \<not> state_is_valid s then (MILENA_ERR_ARGUMENT, result)
        else
          let r = zero_result\<lparr>ar_count := ag_count s, ar_null_count := ag_null_count s, ar_invalid_count := ag_invalid_count s,
                ar_integer_sum := ag_integer_sum s, ar_has_integer_sum := (ag_value_kind s = MILENA_AGGREGATE_VALUE_INT64),
                ar_has_values := (ag_count s > 0)\<rparr>
          in if ag_count s = 0 then (MILENA_OK, Some r)
             else
               let variance = f_div (ag_m2 s) (f_of_int (uint (ag_count s)));
                   r = r\<lparr>ar_sum := f_add (ag_sum s) (ag_sum_compensation s), ar_mean := ag_mean s,
                     ar_variance_population := variance, ar_stddev_population := f_sqrt variance,
                     ar_min := ag_min s, ar_max := ag_max s\<rparr>;
                   sample = f_div (ag_m2 s) (f_of_int (uint (ag_count s - 1)));
                   r = (if ag_count s \<ge> 2 then r\<lparr>ar_variance_sample := sample, ar_stddev_sample := f_sqrt sample,
                          ar_has_sample_variance := True\<rparr> else r)
               in if \<not> f_finite (ar_variance_population r) \<or> \<not> f_finite (ar_stddev_population r) \<or>
                     (ar_has_sample_variance r \<and> (\<not> f_finite (ar_variance_sample r) \<or> \<not> f_finite (ar_stddev_sample r)))
                  then (MILENA_ERR_OVERFLOW, Some zero_result)
                  else (MILENA_OK, Some r)
      | _ \<Rightarrow> (MILENA_ERR_ARGUMENT, result))"

section \<open>The wire form\<close>

definition aggregate_magic :: bytes where "aggregate_magic = ascii ''MAG1''"

definition ag_put_u32 :: "u32 \<Rightarrow> bytes" where "ag_put_u32 v = put_le 4 v"
definition ag_get_u32 :: "bytes \<Rightarrow> u32" where "ag_get_u32 bs = get_le 4 bs"
definition ag_put_u64 :: "u64 \<Rightarrow> bytes" where "ag_put_u64 v = put_le 8 v"
definition ag_get_u64 :: "bytes \<Rightarrow> u64" where "ag_get_u64 bs = get_le 8 bs"
definition ag_put_i64 :: "64 word \<Rightarrow> bytes" where "ag_put_i64 v = ag_put_u64 v"

definition ag_get_i64 :: "bytes \<Rightarrow> 64 word" where
  "ag_get_i64 bs =
     (let bits = ag_get_u64 bs
      in if uint bits \<le> int64_max_value then bits
         else let magnitude = NOT bits + 1
              in if uint magnitude = int64_max_value + 1 then word_of_int int64_min_value
                 else - magnitude)"

definition ag_put_double :: "f64 \<Rightarrow> bytes" where "ag_put_double v = ag_put_u64 v"
definition ag_get_double :: "bytes \<Rightarrow> f64" where "ag_get_double bs = ag_get_u64 bs"

definition ag_checksum :: "bytes \<Rightarrow> u32" where
  "ag_checksum data = fnv_run 16777619 2166136261 data"

text \<open>The encoder returns the buffer it wrote into and the length of the message.\<close>

definition milena_aggregate_state_encode ::
  "MilenaAggregateState option \<Rightarrow> bytes option \<Rightarrow> MilenaStatus + bytes \<times> nat"
where
  "milena_aggregate_state_encode state buffer =
     (case (state, buffer) of (Some s, Some buf) \<Rightarrow>
        if \<not> state_is_valid s \<or> length buf < MILENA_AGGREGATE_WIRE_SIZE then Inl MILENA_ERR_ARGUMENT
        else
          let buf = poke 0 aggregate_magic buf; buf = poke 4 (ag_put_u32 MILENA_AGGREGATE_WIRE_VERSION) buf;
              buf = poke 8 (ag_put_u64 (ag_count s)) buf; buf = poke 16 (ag_put_u64 (ag_null_count s)) buf;
              buf = poke 24 (ag_put_u64 (ag_invalid_count s)) buf;
              buf = poke 32 (ag_put_double (ag_sum s)) buf; buf = poke 40 (ag_put_double (ag_sum_compensation s)) buf;
              buf = poke 48 (ag_put_double (ag_mean s)) buf; buf = poke 56 (ag_put_double (ag_m2 s)) buf;
              buf = poke 64 (ag_put_double (ag_min s)) buf; buf = poke 72 (ag_put_double (ag_max s)) buf;
              buf = poke 80 (ag_put_u32 (ag_value_kind s)) buf; buf = poke 84 (ag_put_i64 (ag_integer_sum s)) buf;
              buf = poke 92 (ag_put_u32 (ag_checksum (take 92 buf))) buf
          in Inr (buf, MILENA_AGGREGATE_WIRE_SIZE)
      | _ \<Rightarrow> Inl MILENA_ERR_ARGUMENT)"

definition milena_aggregate_state_decode :: "bytes option \<Rightarrow> MilenaStatus + MilenaAggregateState" where
  "milena_aggregate_state_decode buffer =
     (case buffer of None \<Rightarrow> Inl MILENA_ERR_ARGUMENT | Some buf \<Rightarrow>
      if length buf \<noteq> MILENA_AGGREGATE_WIRE_SIZE then Inl MILENA_ERR_ARGUMENT
      else if take 4 buf \<noteq> aggregate_magic \<or> ag_get_u32 (drop 4 buf) \<noteq> MILENA_AGGREGATE_WIRE_VERSION then Inl MILENA_ERR_PARSE
      else if ag_get_u32 (drop 92 buf) \<noteq> ag_checksum (take 92 buf) then Inl MILENA_ERR_DATA
      else
        let decoded = \<lparr>ag_count = ag_get_u64 (drop 8 buf), ag_null_count = ag_get_u64 (drop 16 buf),
              ag_invalid_count = ag_get_u64 (drop 24 buf), ag_integer_sum = ag_get_i64 (drop 84 buf),
              ag_value_kind = ag_get_u32 (drop 80 buf), ag_sum = ag_get_double (drop 32 buf),
              ag_sum_compensation = ag_get_double (drop 40 buf), ag_mean = ag_get_double (drop 48 buf),
              ag_m2 = ag_get_double (drop 56 buf), ag_min = ag_get_double (drop 64 buf), ag_max = ag_get_double (drop 72 buf)\<rparr>
        in if \<not> state_is_valid decoded then Inl MILENA_ERR_DATA else Inr decoded)"

end
