(* ===== verification/AggregateWelford.thy ===== *)
theory AggregateWelford
  imports MergeableAggregate
begin

text \<open>
  Welford's step under rounding: the new mean is never beyond the new value, so the term it adds to
  the second moment is never negative.
\<close>

section \<open>Welford's step\<close>

lemma rep_pow: "k \<le> 2045 \<Longrightarrow> rep (2 ^ (52 + k))"
proof -
  assume k: "k \<le> 2045"
  have "pmag (2 ^ 52 + k * 2 ^ 52) = 2 ^ 52 * 2 ^ k" by (rule pmag_binade) simp_all
  then have "\<bar>2 ^ (52 + k)\<bar> = int (pmag (2 ^ 52 + k * 2 ^ 52))" by (simp add: power_add)
  moreover have "2 ^ 52 + k * 2 ^ 52 \<le> inf_bits" using k by (simp add: inf_bits_def)
  ultimately show ?thesis unfolding rep_def by blast
qed

lemma one_mag_pow: "int one_mag = 2 ^ (52 + 1022)" "2 * int one_mag = 2 ^ (52 + 1023)" "2 ^ 64 * int one_mag = 2 ^ (52 + 1086)"
  unfolding one_mag_def of_nat_power of_nat_numeral by (simp_all only: power_add [symmetric] power_Suc [symmetric]) simp_all

lemma rep_one_mag: "rep (int one_mag)" "rep (2 * int one_mag)" "rep (2 ^ 64 * int one_mag)"
proof -
  show "rep (int one_mag)" unfolding one_mag_pow(1) by (rule rep_pow) simp
  show "rep (2 * int one_mag)" unfolding one_mag_pow(2) by (rule rep_pow) simp
  show "rep (2 ^ 64 * int one_mag)" unfolding one_mag_pow(3) by (rule rep_pow) simp
qed

lemma finite_if_le: "\<not> f_nan x \<Longrightarrow> \<bar>f_int x\<bar> \<le> 2 ^ (52 + k) \<Longrightarrow> k < 2046 \<Longrightarrow> f_finite x"
proof -
  assume x: "\<not> f_nan x" "\<bar>f_int x\<bar> \<le> 2 ^ (52 + k)" "k < 2046"
  have "int (pmag (f_pat x)) \<le> 2 ^ (52 + k)" using x(2) by (simp add: f_int_signed signed_def split: if_splits)
  also have "\<dots> = int (pmag (2 ^ 52 + k * 2 ^ 52))" using pmag_binade [of "2 ^ 52" k] by (simp add: power_add)
  finally have "f_pat x \<le> 2 ^ 52 + k * 2 ^ 52" by (simp only: of_nat_le_iff pmag_le_iff)
  then show ?thesis using x(3) by (simp add: f_class_pat inf_bits_def)
qed

lemma count_double:
  assumes "0 < c"
  shows "f_finite (f_of_int (uint (c :: u64)))" and "int one_mag \<le> f_int (f_of_int (uint c))"
    and "2 \<le> c \<Longrightarrow> 2 * int one_mag \<le> f_int (f_of_int (uint c))"
proof -
  have c: "1 \<le> uint c" "uint c \<le> 2 ^ 64"
    using assms uint_bounded [of c] by (simp_all add: word_less_def int_one_le_iff_zero_less)
  have eq: "f_int (f_of_int (uint c)) = rnd (uint c * int one_mag) 1" "\<not> f_nan (f_of_int (uint c))"
    by (rule f_of_int_int)+
  show lo: "int one_mag \<le> f_int (f_of_int (uint c))"
    unfolding eq using c(1) by (intro rnd_ge rep_one_mag) simp_all
  show "2 * int one_mag \<le> f_int (f_of_int (uint c))" if "2 \<le> c"
    unfolding eq using that by (intro rnd_ge rep_one_mag) (simp_all add: word_le_def)
  have "f_int (f_of_int (uint c)) \<le> 2 ^ 64 * int one_mag"
    unfolding eq using c(2) by (intro rnd_le rep_one_mag) simp_all
  then show "f_finite (f_of_int (uint c))" using lo eq(2) finite_if_le [of _ 1086] unfolding one_mag_pow(3) by simp
qed

text \<open>The new mean lies between the old one and the new value, rounding included.\<close>

lemma mean_between:
  assumes reps: "rep v" "rep m" and le: "m \<le> v" and N: "2 * int one_mag \<le> int N \<or> m = 0 \<and> int one_mag \<le> int N"
    and D: "D = rnd (v - m) 1" and Q: "Q = rnd (D * int one_mag) N"
  shows "0 \<le> D" and "m \<le> rnd (m + Q) 1" and "rnd (m + Q) 1 \<le> v"
proof -
  have pos: "0 < N" "int one_mag \<le> int N" using N one_mag_pos by linarith+
  show D0: "0 \<le> D" unfolding D using le by (intro rnd_sign) simp_all
  then have Q0: "0 \<le> Q" unfolding Q using pos(1) by (intro rnd_sign) simp_all
  show "m \<le> rnd (m + Q) 1" using Q0 reps(2) by (intro rnd_ge) simp_all
  have "Q \<le> v - m"
  proof (cases "D \<le> v - m")
    case True
    have "Q \<le> D" unfolding Q using pos D0 by (intro rnd_le) (simp_all add: D mult_left_mono)
    then show ?thesis using True by simp
  next
    case False
    have "m \<noteq> 0" using False reps(1) rnd_eq [of 1 v] by (auto simp: D)
    then have N: "2 * int one_mag \<le> int N" using N by blast
    obtain p where p: "p \<le> inf_bits" "D = int (pmag p)" using D0 rnd_rep [of "v - m" 1] by (auto simp: rep_def D)
    have d: "1 \<le> v - m" using False le rnd_eq [of 1 0] by (cases "v = m") (auto simp: D)
    have "pmag p \<noteq> 0" "pmag p \<noteq> 1" using p(2) False d by linarith+
    moreover have "pmag 1 = 1" by (rule pmag_small) simp
    ultimately have "p \<noteq> 0" "p \<noteq> 1" by auto
    then obtain r where r: "p = Suc r" "0 < r" by (cases p) auto
    have rr: "rep (int (pmag r))" unfolding rep_def using p(1) r(1) by (intro exI [of _ r]) simp
    have "int (pmag r) < v - m"
    proof (rule ccontr)
      assume "\<not> int (pmag r) < v - m"
      then have "D \<le> int (pmag r)" unfolding D using rr by (intro rnd_le) simp_all
      then show False using p(2) r(1) pmag_Suc [of r] by simp
    qed
    moreover have "Q \<le> int (pmag r)"
      unfolding Q
    proof (rule rnd_le [OF pos(1)])
      show "rep (int (pmag r))" by (rule rr)
      have "D \<le> 2 * int (pmag r)" using p(2) r pmag_double [of r] by simp
      then have "D * int one_mag \<le> 2 * int (pmag r) * int one_mag" by (intro mult_right_mono) simp_all
      also have "\<dots> = int (pmag r) * (2 * int one_mag)" by (simp only: ac_simps)
      also have "\<dots> \<le> int (pmag r) * int N" using N by (intro mult_left_mono) simp_all
      finally show "D * int one_mag \<le> int (pmag r) * int N" .
    qed
    ultimately show ?thesis by simp
  qed
  then show "rnd (m + Q) 1 \<le> v" using reps(1) by (intro rnd_le) simp_all
qed

lemma welford_sign:
  assumes reps: "rep v" "rep m" and N: "2 * int one_mag \<le> int N \<or> m = 0 \<and> int one_mag \<le> int N"
    and D: "D = rnd (v - m) 1" and Q: "Q = rnd (D * int one_mag) N"
  shows "0 \<le> D * rnd (v - rnd (m + Q) 1) 1"
proof (cases "m \<le> v")
  case True
  note b = mean_between [OF reps True N D Q]
  have "0 \<le> rnd (v - rnd (m + Q) 1) 1" using b(3) by (intro rnd_sign) simp_all
  then show ?thesis using b(1) by simp
next
  case False
  have pos: "0 < N" using N one_mag_pos by linarith
  have neg: "- D = rnd (- v - - m) 1" "- Q = rnd (- D * int one_mag) N"
    using rnd_neg [of 1 "v - m"] rnd_neg [OF pos, of "D * int one_mag"] by (simp_all add: D Q)
  have N': "2 * int one_mag \<le> int N \<or> - m = 0 \<and> int one_mag \<le> int N" using N by simp
  note b = mean_between [OF _ _ _ N' neg(1,2)]
  have "0 \<le> - D" "rnd (- m + - Q) 1 \<le> - v" using b(1,3) reps False by simp_all
  moreover have "rnd (- m + - Q) 1 = - rnd (m + Q) 1" using rnd_neg [of 1 "m + Q"] by (simp add: add.commute)
  ultimately have "D \<le> 0" "v - rnd (m + Q) 1 \<le> 0" by simp_all
  then show ?thesis using rnd_sign(2) [of 1 "v - rnd (m + Q) 1"] by (simp add: mult_nonpos_nonpos)
qed

lemma next_m2_nonneg:
  assumes "f_finite (ag_mean s)" "0 \<le> f_int (ag_m2 s)" "f_finite v" and c: "2 \<le> c \<or> f_int (ag_mean s) = 0 \<and> 0 < c"
    and "f_finite (next_mean s c v)" and "f_finite (next_m2 s (next_mean s c v) v)"
  shows "0 \<le> f_int (next_m2 s (next_mean s c v) v)"
proof -
  define n where "n = f_of_int (uint c)"
  define d where "d = f_sub v (ag_mean s)"
  define q where "q = f_div d n"
  define m where "m = next_mean s c v"
  define e where "e = f_sub v m"
  have c0: "0 < c" using c by (auto simp: word_le_nat_alt word_less_nat_alt)
  note n = count_double [OF c0, folded n_def]
  have m: "m = f_add (ag_mean s) q" by (simp add: m_def next_mean_def q_def d_def n_def)
  have fin: "f_finite q" "f_finite d" using assms(5) f_add_finite [of "ag_mean s" q] f_div_finite [of d n]
    by (simp_all add: m_def [symmetric] m q_def)
  have m2: "next_m2 s m v = f_add (ag_m2 s) (f_mul d e)" by (simp add: next_m2_def d_def e_def)
  then have fin2: "f_finite (ag_m2 s)" "f_finite (f_mul d e)" "f_finite e"
    using assms(6) f_add_finite [of "ag_m2 s" "f_mul d e"] f_mul_finite [of d e] by (simp_all add: m_def [symmetric])
  have fm: "f_finite m" using assms(5) by (simp add: m_def)
  have n0: "0 < f_int n" using n(2) one_mag_pos by linarith
  have eqs: "f_int d = rnd (f_int v - f_int (ag_mean s)) 1" "f_int q = rnd (f_int d * int one_mag) (nat (f_int n))"
    "f_int m = rnd (f_int (ag_mean s) + f_int q) 1" "f_int e = rnd (f_int v - f_int m) 1"
    using f_sub_int [OF assms(3,1)] f_div_int [OF fin(2) n(1) n0] f_add_int [OF assms(1) fin(1)] f_sub_int [OF assms(3) fm]
    by (simp_all add: d_def [symmetric] q_def [symmetric] m [symmetric] e_def [symmetric])
  have N: "2 * int one_mag \<le> int (nat (f_int n)) \<or> f_int (ag_mean s) = 0 \<and> int one_mag \<le> int (nat (f_int n))"
    using c n(2,3) n0 by auto
  have "0 \<le> f_int d * f_int e"
    using welford_sign [OF _ _ N eqs(1,2)] assms(1,3) finite_parts by (simp add: eqs(3,4))
  then have "0 \<le> f_int (f_mul d e)" using f_mul_int(1) [OF fin(2) fin2(3)] rnd_sign(1) by simp
  then have "0 \<le> f_int (f_add (ag_m2 s) (f_mul d e))" using f_add_int(1) [OF fin2(1,2)] rnd_sign(1) assms(2) by simp
  then show ?thesis using m2 by (simp add: m_def)
qed

end
