(* ===== verification/AggregateSteps.thy ===== *)
theory AggregateSteps
  imports AggregateWelford
begin

text \<open>
  What each operation does to a state: it keeps the state valid, and the state goes on summarising
  the observations (the predicate \<open>summarises\<close>).
\<close>

section \<open>Counters\<close>

lemma unat_minus_1: "unat (- 1 :: u64) = 2 ^ 64 - 1"
  by (simp add: unsigned_minus_1_eq_mask mask_eq_exp_minus_1)

lemma word_room: "(a :: u64) > - 1 - b \<longleftrightarrow> \<not> unat a + unat b < 2 ^ 64"
proof -
  have "unat (- 1 - b) = 2 ^ 64 - 1 - unat b"
    using unat_sub [of b "- 1 :: u64"] by (simp add: unat_minus_1)
  then show ?thesis using unat_u64_lt [of a] unat_u64_lt [of b] by (auto simp: word_less_nat_alt)
qed

lemma unat_plus: "unat (a :: u64) + unat b < 2 ^ 64 \<Longrightarrow> unat (a + b) = unat a + unat b"
  by (simp add: unat_word_ariths)

definition observations :: "MilenaAggregateState \<Rightarrow> nat" where
  "observations s = unat (ag_count s) + unat (ag_null_count s) + unat (ag_invalid_count s)"

lemma state_total_count_eq:
  "state_total_count s = (if observations s < 2 ^ 64 then Some (of_nat (observations s)) else None)"
proof (cases "unat (ag_null_count s) + unat (ag_count s) < 2 ^ 64")
  case True
  have p: "unat (ag_count s + ag_null_count s) = unat (ag_count s) + unat (ag_null_count s)"
    using True by (intro unat_plus) (simp add: add.commute)
  have "ag_count s + ag_null_count s + ag_invalid_count s = of_nat (observations s)"
    by (simp add: observations_def)
  moreover have "unat (ag_invalid_count s) + (unat (ag_count s) + unat (ag_null_count s)) = observations s"
    by (simp add: observations_def)
  ultimately show ?thesis using True unfolding state_total_count_def word_room p Let_def by simp
next
  case False
  then show ?thesis unfolding state_total_count_def word_room observations_def by simp
qed

lemma total_full: "observations s < 2 ^ 64 \<Longrightarrow>
  state_total_count s = None \<or> state_total_count s = Some (- 1) \<longleftrightarrow> observations s = 2 ^ 64 - 1"
proof -
  assume o': "observations s < 2 ^ 64"
  have "unat (of_nat (observations s) :: u64) = observations s" using o' by (intro of_nat_unat_id) simp
  moreover have "unat (- 1 :: u64) = 2 ^ 64 - 1" by (simp add: unat_minus_1)
  ultimately have "of_nat (observations s) = (- 1 :: u64) \<longleftrightarrow> observations s = 2 ^ 64 - 1" by (metis word_unat_eq_iff)
  then show ?thesis using o' by (simp add: state_total_count_eq)
qed

section \<open>Validity\<close>

definition finite_parts_of :: "MilenaAggregateState \<Rightarrow> bool" where
  "finite_parts_of s \<longleftrightarrow> f_finite (ag_sum s) \<and> f_finite (ag_sum_compensation s) \<and> f_finite (f_add (ag_sum s) (ag_sum_compensation s)) \<and>
     f_finite (ag_mean s) \<and> f_finite (ag_m2 s) \<and> f_finite (ag_min s) \<and> f_finite (ag_max s)"

lemma kinds_cases: "k \<le> MILENA_AGGREGATE_VALUE_INT64 \<longleftrightarrow>
  k = MILENA_AGGREGATE_VALUE_NONE \<or> k = MILENA_AGGREGATE_VALUE_FLOAT64 \<or> k = MILENA_AGGREGATE_VALUE_INT64"
proof
  assume "k \<le> MILENA_AGGREGATE_VALUE_INT64"
  then have "unat k \<le> 2" by (simp add: value_kinds word_le_nat_alt)
  then have "unat k = unat (0 :: u32) \<or> unat k = unat (1 :: u32) \<or> unat k = unat (2 :: u32)" by auto
  then show "k = MILENA_AGGREGATE_VALUE_NONE \<or> k = MILENA_AGGREGATE_VALUE_FLOAT64 \<or> k = MILENA_AGGREGATE_VALUE_INT64"
    unfolding value_kinds word_unat_eq_iff .
qed (auto simp: value_kinds word_le_nat_alt)

lemma state_is_valid_iff:
  "state_is_valid s \<longleftrightarrow> observations s < 2 ^ 64 \<and> ag_value_kind s \<le> MILENA_AGGREGATE_VALUE_INT64 \<and> finite_parts_of s \<and>
     (if ag_count s = 0 then ag_value_kind s = MILENA_AGGREGATE_VALUE_NONE \<and> ag_integer_sum s = 0 \<and> f_int (ag_sum s) = 0 \<and>
        f_int (ag_sum_compensation s) = 0 \<and> f_int (ag_mean s) = 0 \<and> f_int (ag_m2 s) = 0 \<and> f_int (ag_min s) = 0 \<and> f_int (ag_max s) = 0
      else ag_value_kind s \<noteq> MILENA_AGGREGATE_VALUE_NONE \<and>
        (ag_value_kind s = MILENA_AGGREGATE_VALUE_FLOAT64 \<longrightarrow> ag_integer_sum s = 0) \<and>
        f_int (ag_min s) \<le> f_int (ag_max s) \<and> 0 \<le> f_int (ag_m2 s))"
proof (cases "observations s < 2 ^ 64")
  case True
  have "unat (of_nat (observations s) :: u64) = observations s" using True by (intro of_nat_unat_id) simp
  then have "ag_count s \<le> of_nat (observations s)" by (simp add: word_le_nat_alt observations_def)
  moreover have "\<not> ag_value_kind s < MILENA_AGGREGATE_VALUE_NONE" by (simp add: value_kinds)
  ultimately show ?thesis
    using True by (auto simp: state_is_valid_def state_total_count_eq finite_parts_of_def f_eq_finite f_le_finite not_less)
next
  case False
  then show ?thesis by (simp add: state_is_valid_def state_total_count_eq)
qed

lemma compensated_add_sound:
  assumes "compensated_add s v = Some n"
  shows "\<exists>a c. n = s\<lparr>ag_sum := a, ag_sum_compensation := c\<rparr> \<and> f_finite a \<and> f_finite c \<and> f_finite (f_add a c)"
  using assms by (auto simp: compensated_add_def Let_def split: if_splits)

lemma int64_add_checked_iff:
  "int64_add_checked a b = Some c \<longleftrightarrow>
     int64_min_value \<le> sint a + sint b \<and> sint a + sint b \<le> int64_max_value \<and> c = a + b \<and> sint c = sint a + sint b"
proof -
  have r: "int64_min_value \<le> sint (x :: 64 word)" "sint x \<le> int64_max_value" for x
    using sint_ge [of x] sint_lt [of x] by (simp_all add: int64_min_value_def int64_max_value_def)
  have "sint (a + b) = sint a + sint b" if "int64_min_value \<le> sint a + sint b" "sint a + sint b \<le> int64_max_value"
    using that by (simp add: int64_min_value_def int64_max_value_def signed_take_bit_int_eq_self sint_word_ariths(1))
  then show ?thesis
    using r [of a] r [of b] by (auto simp: int64_add_checked_def)
qed

section \<open>Observations\<close>

datatype observation = Obs_float f64 | Obs_int "64 word" | Obs_null | Obs_invalid

fun obs_value :: "observation \<Rightarrow> f64 list" where
  "obs_value (Obs_float v) = [v]"
| "obs_value (Obs_int i) = [f_of_int (sint i)]"
| "obs_value _ = []"

fun obs_int :: "observation \<Rightarrow> int list" where
  "obs_int (Obs_int i) = [sint i]"
| "obs_int _ = []"

fun obs_float :: "observation \<Rightarrow> f64 list" where
  "obs_float (Obs_float v) = [v]"
| "obs_float _ = []"

definition values_of :: "observation list \<Rightarrow> f64 list" where "values_of xs = concat (map obs_value xs)"
definition ints_of :: "observation list \<Rightarrow> int list" where "ints_of xs = concat (map obs_int xs)"
definition floats_of :: "observation list \<Rightarrow> f64 list" where "floats_of xs = concat (map obs_float xs)"

lemma observed [simp]:
  "values_of [] = []" "ints_of [] = []" "floats_of [] = []"
  "values_of (xs @ ys) = values_of xs @ values_of ys" "ints_of (xs @ ys) = ints_of xs @ ints_of ys"
  "floats_of (xs @ ys) = floats_of xs @ floats_of ys"
  "values_of [x] = obs_value x" "ints_of [x] = obs_int x" "floats_of [x] = obs_float x"
  by (simp_all add: values_of_def ints_of_def floats_of_def)

lemma no_values: "values_of xs = [] \<longleftrightarrow> ints_of xs = [] \<and> floats_of xs = []"
proof (induction xs)
  case (Cons x xs)
  then show ?case by (cases x) (auto simp: values_of_def ints_of_def floats_of_def)
qed simp

text \<open>What a state says of the observations that went into it.\<close>

definition summarises :: "MilenaAggregateState \<Rightarrow> observation list \<Rightarrow> bool" where
  "summarises s xs \<longleftrightarrow>
     unat (ag_count s) = length (values_of xs) \<and> unat (ag_null_count s) = count_list xs Obs_null \<and>
     unat (ag_invalid_count s) = count_list xs Obs_invalid \<and> sint (ag_integer_sum s) = sum_list (ints_of xs) \<and>
     (ag_value_kind s = MILENA_AGGREGATE_VALUE_FLOAT64 \<longrightarrow> ints_of xs = []) \<and>
     (ag_value_kind s = MILENA_AGGREGATE_VALUE_INT64 \<longrightarrow> floats_of xs = []) \<and>
     (values_of xs \<noteq> [] \<longrightarrow> f_int (ag_min s) = Min (f_int ` set (values_of xs)) \<and> f_int (ag_max s) = Max (f_int ` set (values_of xs)))"

lemma count_zero: "summarises s xs \<Longrightarrow> ag_count s = 0 \<longleftrightarrow> values_of xs = []"
  unfolding summarises_def unat_eq_zero [symmetric] by simp

lemma zero_state_good: "state_is_valid zero_state" "summarises zero_state []"
proof -
  have "f_finite (f_add 0 0)"
    using f_add_int [of 0 0] rnd_eq [of 1 0] by (intro finite_if_le [of _ 0]) simp_all
  then have f: "finite_parts_of zero_state" by (simp add: zero_state_def finite_parts_of_def)
  have o': "observations zero_state < 2 ^ 64" by (simp add: observations_def zero_state_def)
  show "state_is_valid zero_state"
    unfolding state_is_valid_iff kinds_cases using f o' by (simp add: zero_state_def)
  show "summarises zero_state []" by (simp add: summarises_def zero_state_def)
qed

lemma unat_suc: "unat (c :: u64) + 1 < 2 ^ 64 \<Longrightarrow> unat (c + 1) = unat c + 1"
  using unat_plus [of c 1] by simp

text \<open>One more value of either kind.\<close>

definition with_value :: "MilenaAggregateState \<Rightarrow> u32 \<Rightarrow> 64 word \<Rightarrow> f64 \<Rightarrow> f64 \<Rightarrow> f64 \<Rightarrow> MilenaAggregateState" where
  "with_value s kind isum v a c =
     s\<lparr>ag_sum := a, ag_sum_compensation := c, ag_count := ag_count s + 1, ag_value_kind := kind, ag_integer_sum := isum,
       ag_mean := next_mean s (ag_count s + 1) v, ag_m2 := next_m2 s (next_mean s (ag_count s + 1) v) v,
       ag_min := (if ag_count s = 0 \<or> f_lt v (ag_min s) then v else ag_min s),
       ag_max := (if ag_count s = 0 \<or> f_lt (ag_max s) v then v else ag_max s)\<rparr>"

lemma with_value_good:
  assumes valid: "state_is_valid s" and sum: "summarises s xs" and room: "observations s < 2 ^ 64 - 1"
    and v: "f_finite v" "values_of [x] = [v]" and x: "x \<noteq> Obs_null" "x \<noteq> Obs_invalid"
    and kind: "kind = MILENA_AGGREGATE_VALUE_FLOAT64 \<and> isum = 0 \<and> ints_of (xs @ [x]) = [] \<or>
      kind = MILENA_AGGREGATE_VALUE_INT64 \<and> floats_of (xs @ [x]) = []"
    and isum: "sint isum = sum_list (ints_of (xs @ [x]))"
    and fin: "f_finite (next_mean s (ag_count s + 1) v)" "f_finite (next_m2 s (next_mean s (ag_count s + 1) v) v)"
      "f_finite a" "f_finite c" "f_finite (f_add a c)"
  shows "state_is_valid (with_value s kind isum v a c) \<and> summarises (with_value s kind isum v a c) (xs @ [x])"
proof -
  let ?s = "with_value s kind isum v a c"
  have fp: "f_finite (ag_mean s)" "f_finite (ag_m2 s)" "f_finite (ag_min s)" "f_finite (ag_max s)"
    using valid by (simp_all add: state_is_valid_iff finite_parts_of_def)
  have c1: "unat (ag_count s + 1) = unat (ag_count s) + 1" using room by (intro unat_suc) (simp add: observations_def)
  then have cnz: "ag_count s + 1 \<noteq> 0" by (metis add_is_0 unat_0 zero_neq_one)
  have zero: "ag_count s = 0 \<longleftrightarrow> values_of xs = []" by (rule count_zero [OF sum])
  have m2: "0 \<le> f_int (ag_m2 s)" "2 \<le> ag_count s + 1 \<or> f_int (ag_mean s) = 0 \<and> 0 < ag_count s + 1"
  proof -
    show "0 \<le> f_int (ag_m2 s)" using valid by (auto simp: state_is_valid_iff split: if_splits)
    have "unat (ag_count s) \<noteq> 0 \<Longrightarrow> 2 \<le> ag_count s + 1" using c1 by (simp add: word_le_nat_alt)
    moreover have "ag_count s = 0 \<Longrightarrow> f_int (ag_mean s) = 0" using valid by (simp add: state_is_valid_iff)
    ultimately show "2 \<le> ag_count s + 1 \<or> f_int (ag_mean s) = 0 \<and> 0 < ag_count s + 1"
      using cnz by (metis unat_eq_zero word_neq_0_conv)
  qed
  have mm: "f_int (ag_min ?s) = Min (f_int ` set (values_of (xs @ [x]))) \<and> f_int (ag_max ?s) = Max (f_int ` set (values_of (xs @ [x])))"
  proof (cases "values_of xs = []")
    case True
    then show ?thesis using zero v(2) by (simp add: with_value_def)
  next
    case False
    then have "f_int (ag_min s) = Min (f_int ` set (values_of xs))" "f_int (ag_max s) = Max (f_int ` set (values_of xs))"
      using sum by (simp_all add: summarises_def)
    moreover have "f_int ` set (values_of (xs @ [x])) = insert (f_int v) (f_int ` set (values_of xs))" using v(2) by simp
    moreover have "Min (insert (f_int v) (f_int ` set (values_of xs))) = min (f_int v) (Min (f_int ` set (values_of xs)))"
      "Max (insert (f_int v) (f_int ` set (values_of xs))) = max (f_int v) (Max (f_int ` set (values_of xs)))"
      using False by simp_all
    moreover have "f_int (ag_min ?s) = min (f_int v) (f_int (ag_min s))" "f_int (ag_max ?s) = max (f_int v) (f_int (ag_max s))"
      using False zero v(1) fp by (simp_all add: with_value_def f_lt_finite)
    ultimately show ?thesis by (simp only: simp_thms)
  qed
  have "state_is_valid ?s"
    unfolding state_is_valid_iff
  proof (intro conjI)
    show "observations ?s < 2 ^ 64" using room c1 by (simp add: observations_def with_value_def)
    show "ag_value_kind ?s \<le> MILENA_AGGREGATE_VALUE_INT64" using kind kinds_cases by (auto simp: with_value_def)
    show "finite_parts_of ?s" using fin fp v(1) by (simp add: finite_parts_of_def with_value_def)
    have "Min (f_int ` set (values_of (xs @ [x]))) \<le> Max (f_int ` set (values_of (xs @ [x])))"
      using v(2) Min_le [of "f_int ` set (values_of (xs @ [x]))" "f_int v"] Max_ge [of "f_int ` set (values_of (xs @ [x]))" "f_int v"]
      by (simp del: Min_le Max_ge Min_insert Max_insert image_insert)
    moreover have "kind \<noteq> MILENA_AGGREGATE_VALUE_NONE" "kind = MILENA_AGGREGATE_VALUE_FLOAT64 \<longrightarrow> isum = 0"
      using kind by (auto simp: value_kinds)
    moreover have "0 \<le> f_int (ag_m2 ?s)"
      using next_m2_nonneg [OF fp(1) m2(1) v(1) m2(2) fin(1,2)] by (simp add: with_value_def)
    moreover have "ag_count ?s \<noteq> 0" "ag_value_kind ?s = kind" "ag_integer_sum ?s = isum" using cnz by (simp_all add: with_value_def)
    ultimately show "if ag_count ?s = 0 then ag_value_kind ?s = MILENA_AGGREGATE_VALUE_NONE \<and> ag_integer_sum ?s = 0 \<and> f_int (ag_sum ?s) = 0 \<and>
        f_int (ag_sum_compensation ?s) = 0 \<and> f_int (ag_mean ?s) = 0 \<and> f_int (ag_m2 ?s) = 0 \<and> f_int (ag_min ?s) = 0 \<and> f_int (ag_max ?s) = 0
      else ag_value_kind ?s \<noteq> MILENA_AGGREGATE_VALUE_NONE \<and>
        (ag_value_kind ?s = MILENA_AGGREGATE_VALUE_FLOAT64 \<longrightarrow> ag_integer_sum ?s = 0) \<and>
        f_int (ag_min ?s) \<le> f_int (ag_max ?s) \<and> 0 \<le> f_int (ag_m2 ?s)"
      using mm by (simp only: if_False simp_thms)
  qed
  moreover have "summarises ?s (xs @ [x])"
    unfolding summarises_def
  proof (intro conjI impI)
    show "unat (ag_count ?s) = length (values_of (xs @ [x]))" using c1 sum v(2) by (simp add: with_value_def summarises_def)
    show "unat (ag_null_count ?s) = count_list (xs @ [x]) Obs_null" "unat (ag_invalid_count ?s) = count_list (xs @ [x]) Obs_invalid"
      using sum x by (simp_all add: with_value_def summarises_def)
    show "sint (ag_integer_sum ?s) = sum_list (ints_of (xs @ [x]))" using isum by (simp add: with_value_def)
    show "ag_value_kind ?s = MILENA_AGGREGATE_VALUE_FLOAT64 \<Longrightarrow> ints_of (xs @ [x]) = []"
      "ag_value_kind ?s = MILENA_AGGREGATE_VALUE_INT64 \<Longrightarrow> floats_of (xs @ [x]) = []"
      using kind by (auto simp: with_value_def value_kinds)
  qed (use mm in blast)+
  ultimately show ?thesis by blast
qed

section \<open>The operations\<close>

lemma add_good:
  assumes "milena_aggregate_state_add (Some s) v = (MILENA_OK, Some s')" and "summarises s xs"
  shows "state_is_valid s' \<and> summarises s' (xs @ [Obs_float v])"
proof -
  have g: "f_finite v" "state_is_valid s" "ag_count s = 0 \<or> ag_value_kind s = MILENA_AGGREGATE_VALUE_FLOAT64"
    "state_total_count s \<noteq> None \<and> state_total_count s \<noteq> Some (- 1)"
    "f_finite (next_mean s (ag_count s + 1) v)" "f_finite (next_m2 s (next_mean s (ag_count s + 1) v) v)"
    using assms(1) by (auto simp: milena_aggregate_state_add_def Let_def split: if_splits option.splits)
  obtain n where n: "compensated_add s v = Some n"
    using assms(1) g by (auto simp: milena_aggregate_state_add_def Let_def split: if_splits option.splits)
  then obtain a c where ac: "n = s\<lparr>ag_sum := a, ag_sum_compensation := c\<rparr>" "f_finite a" "f_finite c" "f_finite (f_add a c)"
    using compensated_add_sound by blast
  have isum: "ag_integer_sum s = 0" using g(2,3) by (auto simp: state_is_valid_iff split: if_splits)
  have s': "s' = with_value s MILENA_AGGREGATE_VALUE_FLOAT64 0 v a c"
    using assms(1) g n isum by (auto simp: milena_aggregate_state_add_def Let_def with_value_def ac(1) split: if_splits)
  have room: "observations s < 2 ^ 64 - 1" using g(2,4) total_full [of s] by (auto simp: state_is_valid_iff)
  have ints: "ints_of xs = []" using g(3) assms(2) count_zero [OF assms(2)] no_values [of xs] by (auto simp: summarises_def)
  show ?thesis
    unfolding s' using g ac ints by (intro with_value_good [OF g(2) assms(2) room g(1)]) simp_all
qed

lemma f_of_int64_finite: "f_finite (f_of_int (sint (i :: 64 word)))"
proof -
  have i: "- (2 ^ 64) \<le> sint i" "sint i \<le> 2 ^ 64" using sint_ge [of i] sint_lt [of i] by simp_all
  have "- (2 ^ 64 * int one_mag) \<le> sint i * int one_mag" using mult_right_mono [OF i(1), of "int one_mag"] by simp
  moreover have "sint i * int one_mag \<le> 2 ^ 64 * int one_mag" using mult_right_mono [OF i(2), of "int one_mag"] by simp
  ultimately have "- (2 ^ 64 * int one_mag) \<le> rnd (sint i * int one_mag) 1" "rnd (sint i * int one_mag) 1 \<le> 2 ^ 64 * int one_mag"
    using rnd_ge [of 1 "- (2 ^ 64 * int one_mag)" "sint i * int one_mag"] rnd_le [of 1 "2 ^ 64 * int one_mag" "sint i * int one_mag"] rep_one_mag(3)
    by (simp_all only: rep_neg of_nat_1 mult_1_right zero_less_one simp_thms)
  then have "\<bar>f_int (f_of_int (sint i))\<bar> \<le> 2 ^ (52 + 1086)" unfolding f_of_int_int(1) one_mag_pow(3) [symmetric] by linarith
  then show ?thesis using f_of_int_int(2) by (intro finite_if_le [of _ 1086]) simp_all
qed

lemma add_int64_good:
  assumes "milena_aggregate_state_add_int64 (Some s) i = (MILENA_OK, Some s')" and "summarises s xs"
  shows "state_is_valid s' \<and> summarises s' (xs @ [Obs_int i])"
proof -
  define v where "v = f_of_int (sint i)"
  have g: "state_is_valid s" "ag_count s = 0 \<or> ag_value_kind s = MILENA_AGGREGATE_VALUE_INT64"
    "state_total_count s \<noteq> None \<and> state_total_count s \<noteq> Some (- 1)"
    "f_finite (next_mean s (ag_count s + 1) v)" "f_finite (next_m2 s (next_mean s (ag_count s + 1) v) v)"
    using assms(1) by (auto simp: milena_aggregate_state_add_int64_def Let_def v_def split: if_splits option.splits)
  obtain e where e: "int64_add_checked (if ag_count s \<noteq> 0 then ag_integer_sum s else 0) i = Some e"
    using assms(1) g by (auto simp: milena_aggregate_state_add_int64_def Let_def split: if_splits option.splits)
  obtain n where n: "compensated_add s v = Some n"
    using assms(1) g e by (auto simp: milena_aggregate_state_add_int64_def Let_def v_def split: if_splits option.splits)
  then obtain a c where ac: "n = s\<lparr>ag_sum := a, ag_sum_compensation := c\<rparr>" "f_finite a" "f_finite c" "f_finite (f_add a c)"
    using compensated_add_sound by blast
  have s': "s' = with_value s MILENA_AGGREGATE_VALUE_INT64 e v a c"
    using assms(1) g e n by (auto simp: milena_aggregate_state_add_int64_def Let_def v_def [symmetric] with_value_def ac(1) split: if_splits)
  have "ag_count s = 0 \<Longrightarrow> ag_integer_sum s = 0" using g(1) by (simp add: state_is_valid_iff)
  then have "sint e = sint (ag_integer_sum s) + sint i" using e by (auto simp: int64_add_checked_iff split: if_splits)
  then have isum: "sint e = sum_list (ints_of (xs @ [Obs_int i]))" using assms(2) by (simp add: summarises_def)
  have room: "observations s < 2 ^ 64 - 1" using g(1,3) total_full [of s] by (auto simp: state_is_valid_iff)
  have fl: "floats_of xs = []" using g(2) assms(2) count_zero [OF assms(2)] no_values [of xs] by (auto simp: summarises_def)
  have "f_finite v" unfolding v_def by (rule f_of_int64_finite)
  then show ?thesis
    unfolding s' using g ac fl by (intro with_value_good [OF g(1) assms(2) room _ _ _ _ _ isum]) (simp_all add: v_def)
qed

lemma observations_null: "observations (s\<lparr>ag_null_count := n\<rparr>) = unat (ag_count s) + unat n + unat (ag_invalid_count s)"
  and observations_invalid: "observations (s\<lparr>ag_invalid_count := n\<rparr>) = unat (ag_count s) + unat (ag_null_count s) + unat n"
  by (simp_all add: observations_def)

lemma add_missing_good:
  assumes "aggregate_state_add_missing (Some s) invalid = (MILENA_OK, Some s')" and "summarises s xs"
  shows "state_is_valid s' \<and> summarises s' (xs @ [if invalid then Obs_invalid else Obs_null])"
proof -
  have g: "state_is_valid s" "state_total_count s \<noteq> None \<and> state_total_count s \<noteq> Some (- 1)"
    "s' = (if invalid then s\<lparr>ag_invalid_count := ag_invalid_count s + 1\<rparr> else s\<lparr>ag_null_count := ag_null_count s + 1\<rparr>)"
    using assms(1) by (auto simp: aggregate_state_add_missing_def split: if_splits)
  have room: "observations s < 2 ^ 64 - 1" using g(1,2) total_full [of s] by (auto simp: state_is_valid_iff)
  have u: "unat (ag_invalid_count s + 1) = unat (ag_invalid_count s) + 1" "unat (ag_null_count s + 1) = unat (ag_null_count s) + 1"
    using room by (simp_all add: observations_def unat_suc)
  have "observations s' < 2 ^ 64" using room u g(3) by (simp add: observations_def)
  then have "state_is_valid s'" using g(1,3) by (simp add: state_is_valid_iff finite_parts_of_def)
  moreover have "summarises s' (xs @ [if invalid then Obs_invalid else Obs_null])"
    using assms(2) u g(3) by (simp add: summarises_def)
  ultimately show ?thesis by blast
qed

lemma merged_m2_nonneg:
  assumes "0 \<le> f_int (ag_m2 t)" "0 \<le> f_int (ag_m2 r)" and c: "0 < ag_count t" "0 < ag_count r" "0 < c"
    and fin: "f_finite (merged_m2 t r c)"
  shows "0 \<le> f_int (merged_m2 t r c)"
proof -
  define d where "d = f_sub (ag_mean r) (ag_mean t)"
  define n where "n = f_mul (f_of_int (uint (ag_count t))) (f_of_int (uint (ag_count r)))"
  define k where "k = f_of_int (uint c)"
  have eq: "merged_m2 t r c = f_add (f_add (ag_m2 t) (ag_m2 r)) (f_mul (f_mul d d) (f_div n k))"
    by (simp add: merged_m2_def Let_def d_def n_def k_def)
  then have f: "f_finite (f_add (ag_m2 t) (ag_m2 r))" "f_finite (f_mul (f_mul d d) (f_div n k))"
    using fin f_add_finite by metis+
  then have g: "f_finite (ag_m2 t)" "f_finite (ag_m2 r)" "f_finite (f_mul d d)" "f_finite (f_div n k)" "f_finite d" "f_finite n"
    using f_add_finite f_mul_finite f_div_finite by blast+
  note ct = count_double [OF c(1)] and cr = count_double [OF c(2)] and ck = count_double [OF c(3), folded k_def]
  have "0 \<le> f_int n" unfolding n_def f_mul_int(1) [OF ct(1) cr(1)]
    using ct(2) cr(2) one_mag_pos by (intro rnd_sign) simp_all
  moreover have k0: "0 < f_int k" using ck(2) one_mag_pos by linarith
  ultimately have "0 \<le> f_int (f_div n k)" unfolding f_div_int(1) [OF g(6) ck(1) k0] by (intro rnd_sign) simp_all
  moreover have "0 \<le> f_int (f_mul d d)" unfolding f_mul_int(1) [OF g(5,5)] by (intro rnd_sign) simp_all
  ultimately have "0 \<le> f_int (f_mul (f_mul d d) (f_div n k))" unfolding f_mul_int(1) [OF g(3,4)] by (intro rnd_sign) simp_all
  moreover have "0 \<le> f_int (f_add (ag_m2 t) (ag_m2 r))" unfolding f_add_int(1) [OF g(1,2)] using assms(1,2) by (intro rnd_sign) simp_all
  ultimately show ?thesis unfolding eq f_add_int(1) [OF f] by (intro rnd_sign) simp_all
qed

text \<open>The counters of a merged state, and the two ways of taking one side over.\<close>

definition with_counts :: "MilenaAggregateState \<Rightarrow> MilenaAggregateState \<Rightarrow> MilenaAggregateState \<Rightarrow> MilenaAggregateState" where
  "with_counts s t r = s\<lparr>ag_null_count := ag_null_count t + ag_null_count r, ag_invalid_count := ag_invalid_count t + ag_invalid_count r\<rparr>"

lemma merge_room:
  assumes "\<not> ag_count r > - 1 - ag_count t" "\<not> ag_null_count r > - 1 - ag_null_count t" "\<not> ag_invalid_count r > - 1 - ag_invalid_count t"
    and "\<not> ag_null_count t + ag_null_count r > - 1 - (ag_count t + ag_count r)"
    and "\<not> ag_invalid_count t + ag_invalid_count r > - 1 - (ag_count t + ag_count r) - (ag_null_count t + ag_null_count r)"
  shows "observations t + observations r < 2 ^ 64 \<and> unat (ag_count t + ag_count r) = unat (ag_count t) + unat (ag_count r) \<and>
    unat (ag_null_count t + ag_null_count r) = unat (ag_null_count t) + unat (ag_null_count r) \<and>
    unat (ag_invalid_count t + ag_invalid_count r) = unat (ag_invalid_count t) + unat (ag_invalid_count r)"
proof -
  have u: "unat (ag_count t + ag_count r) = unat (ag_count t) + unat (ag_count r)"
    "unat (ag_null_count t + ag_null_count r) = unat (ag_null_count t) + unat (ag_null_count r)"
    "unat (ag_invalid_count t + ag_invalid_count r) = unat (ag_invalid_count t) + unat (ag_invalid_count r)"
    using assms(1-3) unfolding word_room by (intro unat_plus; simp add: add.commute)+
  have c: "unat (ag_count t + ag_count r) + unat (ag_null_count t + ag_null_count r) < 2 ^ 64"
    using assms(4) unfolding word_room by simp
  have "- 1 - (ag_count t + ag_count r) - (ag_null_count t + ag_null_count r) =
    - 1 - ((ag_count t + ag_count r) + (ag_null_count t + ag_null_count r))" by simp
  then have "unat (ag_invalid_count t + ag_invalid_count r) + unat ((ag_count t + ag_count r) + (ag_null_count t + ag_null_count r)) < 2 ^ 64"
    using assms(5) word_room by metis
  then show ?thesis using u unat_plus [OF c] by (simp add: observations_def)
qed

lemma side_good:
  assumes "state_is_valid s" and "summarises s xs" and room: "observations t + observations r < 2 ^ 64"
    and u: "unat (ag_null_count t + ag_null_count r) = unat (ag_null_count t) + unat (ag_null_count r)"
      "unat (ag_invalid_count t + ag_invalid_count r) = unat (ag_invalid_count t) + unat (ag_invalid_count r)"
    and t: "summarises t ts" and r: "summarises r rs" and side: "s = t \<or> s = r"
    and same: "values_of xs = values_of (ts @ rs)" "ints_of xs = ints_of (ts @ rs)" "floats_of xs = floats_of (ts @ rs)"
  shows "state_is_valid (with_counts s t r) \<and> summarises (with_counts s t r) (ts @ rs)"
proof -
  have "observations (with_counts s t r) < 2 ^ 64" using room u side by (auto simp: observations_def with_counts_def)
  then have "state_is_valid (with_counts s t r)"
    using assms(1) by (simp add: state_is_valid_iff finite_parts_of_def with_counts_def)
  moreover have "summarises (with_counts s t r) (ts @ rs)"
    using assms(2) t r u same by (simp add: summarises_def with_counts_def)
  ultimately show ?thesis by blast
qed

lemma kind_of_values:
  assumes "state_is_valid s" and "summarises s xs" and "values_of xs \<noteq> []"
  shows "ag_value_kind s = MILENA_AGGREGATE_VALUE_FLOAT64 \<and> ag_integer_sum s = 0 \<and> ints_of xs = [] \<or>
    ag_value_kind s = MILENA_AGGREGATE_VALUE_INT64 \<and> floats_of xs = []"
  using assms count_zero [OF assms(2)] by (auto simp: state_is_valid_iff summarises_def kinds_cases split: if_splits)

lemma both_good:
  assumes t: "state_is_valid t" "summarises t ts" and r: "state_is_valid r" "summarises r rs"
    and ne: "values_of ts \<noteq> []" "values_of rs \<noteq> []" and kinds: "ag_value_kind t = ag_value_kind r"
    and u: "observations t + observations r < 2 ^ 64 \<and> unat (ag_count t + ag_count r) = unat (ag_count t) + unat (ag_count r) \<and>
      unat (ag_null_count t + ag_null_count r) = unat (ag_null_count t) + unat (ag_null_count r) \<and>
      unat (ag_invalid_count t + ag_invalid_count r) = unat (ag_invalid_count t) + unat (ag_invalid_count r)"
    and exact: "(if ag_value_kind t \<noteq> MILENA_AGGREGATE_VALUE_INT64 then Some 0 else int64_add_checked (ag_integer_sum t) (ag_integer_sum r)) = Some e"
    and fin: "f_finite mean" "f_finite (merged_m2 t r (ag_count t + ag_count r))" "f_finite a" "f_finite c" "f_finite (f_add a c)"
    and s: "s = with_counts t t r\<lparr>ag_sum := a, ag_sum_compensation := c, ag_count := ag_count t + ag_count r,
      ag_integer_sum := (if ag_value_kind t = MILENA_AGGREGATE_VALUE_INT64 then e else 0), ag_mean := mean,
      ag_m2 := merged_m2 t r (ag_count t + ag_count r), ag_min := f_min (ag_min t) (ag_min r), ag_max := f_max (ag_max t) (ag_max r)\<rparr>"
  shows "state_is_valid s \<and> summarises s (ts @ rs)"
proof -
  have nz: "0 < ag_count t" "0 < ag_count r" "0 < ag_count t + ag_count r"
  proof -
    have "unat (ag_count t) \<noteq> 0" "unat (ag_count r) \<noteq> 0"
      unfolding unat_eq_zero using count_zero [OF t(2)] count_zero [OF r(2)] ne by simp_all
    then show "0 < ag_count t" "0 < ag_count r" "0 < ag_count t + ag_count r" using u by (simp_all add: word_less_nat_alt)
  qed
  have fp: "f_finite (ag_min t)" "f_finite (ag_max t)" "f_finite (ag_min r)" "f_finite (ag_max r)"
    and m2: "0 \<le> f_int (ag_m2 t)" "0 \<le> f_int (ag_m2 r)"
    using t(1) r(1) nz by (auto simp: state_is_valid_iff finite_parts_of_def)
  define V where "V = f_int ` set (values_of ts)"
  define W where "W = f_int ` set (values_of rs)"
  have VW: "finite V" "finite W" "V \<noteq> {}" "W \<noteq> {}" "f_int ` set (values_of (ts @ rs)) = V \<union> W"
    using ne by (auto simp: V_def W_def)
  have ex: "f_int (ag_min t) = Min V" "f_int (ag_max t) = Max V" "f_int (ag_min r) = Min W" "f_int (ag_max r) = Max W"
    using t(2) r(2) ne by (simp_all add: summarises_def V_def W_def)
  have mm: "f_int (ag_min s) = Min (V \<union> W)" "f_int (ag_max s) = Max (V \<union> W)"
    using VW ex f_min_finite [OF fp(1,3)] f_max_finite [OF fp(2,4)] by (simp_all add: s Min_Un Max_Un)
  have le: "Min (V \<union> W) \<le> Max (V \<union> W)"
    using VW by (metis Max_ge Min_le Un_empty ex_in_conv finite_Un order_trans)
  have isum: "sint (ag_integer_sum s) = sum_list (ints_of (ts @ rs))" "ag_value_kind s \<noteq> MILENA_AGGREGATE_VALUE_NONE"
    "ag_value_kind s = MILENA_AGGREGATE_VALUE_FLOAT64 \<longrightarrow> ag_integer_sum s = 0 \<and> ints_of (ts @ rs) = []"
    "ag_value_kind s = MILENA_AGGREGATE_VALUE_INT64 \<longrightarrow> floats_of (ts @ rs) = []"
    "ag_value_kind s \<le> MILENA_AGGREGATE_VALUE_INT64"
    using kind_of_values [OF t ne(1)] kind_of_values [OF r ne(2)] kinds exact t(2) r(2) kinds_cases
    by (auto simp: s with_counts_def value_kinds int64_add_checked_iff summarises_def)
  have "state_is_valid s"
    unfolding state_is_valid_iff
  proof (intro conjI)
    show "observations s < 2 ^ 64" using u by (simp add: observations_def s with_counts_def)
    show "ag_value_kind s \<le> MILENA_AGGREGATE_VALUE_INT64" by (rule isum(5))
    show "finite_parts_of s" using fin fp f_min_finite [OF fp(1,3)] f_max_finite [OF fp(2,4)]
      by (simp add: finite_parts_of_def s)
    have "0 \<le> f_int (ag_m2 s)" using merged_m2_nonneg [OF m2 nz fin(2)] by (simp add: s)
    moreover have "ag_count s \<noteq> 0" using nz(3) by (simp add: s)
    ultimately show "if ag_count s = 0 then ag_value_kind s = MILENA_AGGREGATE_VALUE_NONE \<and> ag_integer_sum s = 0 \<and> f_int (ag_sum s) = 0 \<and>
        f_int (ag_sum_compensation s) = 0 \<and> f_int (ag_mean s) = 0 \<and> f_int (ag_m2 s) = 0 \<and> f_int (ag_min s) = 0 \<and> f_int (ag_max s) = 0
      else ag_value_kind s \<noteq> MILENA_AGGREGATE_VALUE_NONE \<and>
        (ag_value_kind s = MILENA_AGGREGATE_VALUE_FLOAT64 \<longrightarrow> ag_integer_sum s = 0) \<and>
        f_int (ag_min s) \<le> f_int (ag_max s) \<and> 0 \<le> f_int (ag_m2 s)"
      using isum(2,3) mm le by simp
  qed
  moreover have "summarises s (ts @ rs)"
    unfolding summarises_def
  proof (intro conjI impI)
    show "unat (ag_count s) = length (values_of (ts @ rs))" "unat (ag_null_count s) = count_list (ts @ rs) Obs_null"
      "unat (ag_invalid_count s) = count_list (ts @ rs) Obs_invalid"
      using u t(2) r(2) by (simp_all add: s with_counts_def summarises_def)
  qed (use isum mm VW(5) in auto)
  ultimately show ?thesis by blast
qed

lemma merge_good:
  assumes m: "milena_aggregate_state_merge (Some t) (Some r) = (MILENA_OK, Some s)" and t: "summarises t ts" and r: "summarises r rs"
  shows "state_is_valid s \<and> summarises s (ts @ rs)"
proof -
  let ?count = "ag_count t + ag_count r"
  have g: "state_is_valid t" "state_is_valid r" "ag_count t \<noteq> 0 \<Longrightarrow> ag_count r \<noteq> 0 \<Longrightarrow> ag_value_kind t = ag_value_kind r"
    "\<not> ag_count r > - 1 - ag_count t" "\<not> ag_null_count r > - 1 - ag_null_count t" "\<not> ag_invalid_count r > - 1 - ag_invalid_count t"
    "\<not> ag_null_count t + ag_null_count r > - 1 - ?count"
    "\<not> ag_invalid_count t + ag_invalid_count r > - 1 - ?count - (ag_null_count t + ag_null_count r)"
    using m by (auto simp: milena_aggregate_state_merge_def Let_def split: if_splits)
  note u = merge_room [OF g(4-8)]
  consider "ag_count r = 0" "s = with_counts t t r" | "ag_count r \<noteq> 0" "ag_count t = 0" "s = with_counts r t r"
    | "ag_count r \<noteq> 0" "ag_count t \<noteq> 0"
    using m g by (fastforce simp: milena_aggregate_state_merge_def Let_def with_counts_def split: if_splits)
  then show ?thesis
  proof cases
    case 1
    then have "values_of rs = []" "ints_of rs = []" "floats_of rs = []" using count_zero [OF r] no_values by blast+
    then show ?thesis unfolding 1(2) using u t r g(1) by (intro side_good [OF g(1) t]) simp_all
  next
    case 2
    then have "values_of ts = []" "ints_of ts = []" "floats_of ts = []" using count_zero [OF t] no_values by blast+
    then show ?thesis unfolding 2(3) using u t r g(2) by (intro side_good [OF g(2) r]) simp_all
  next
    case 3
    obtain e where e: "(if ag_value_kind t \<noteq> MILENA_AGGREGATE_VALUE_INT64 then Some 0 else int64_add_checked (ag_integer_sum t) (ag_integer_sum r)) = Some e"
      using m g 3 by (auto simp: milena_aggregate_state_merge_def Let_def split: if_splits option.splits)
    have m1: "(if \<not> f_finite (merged_mean t r ?count) \<or> \<not> f_finite (merged_m2 t r ?count) then (MILENA_ERR_OVERFLOW, Some t)
      else case compensated_add t (ag_sum r) of None \<Rightarrow> (MILENA_ERR_OVERFLOW, Some t) | Some m \<Rightarrow>
           case compensated_add m (ag_sum_compensation r) of None \<Rightarrow> (MILENA_ERR_OVERFLOW, Some t) | Some m \<Rightarrow>
           (MILENA_OK, Some (m\<lparr>ag_count := ?count, ag_value_kind := ag_value_kind t,
              ag_integer_sum := (if ag_value_kind t = MILENA_AGGREGATE_VALUE_INT64 then e else 0),
              ag_null_count := ag_null_count t + ag_null_count r, ag_invalid_count := ag_invalid_count t + ag_invalid_count r,
              ag_mean := merged_mean t r ?count, ag_m2 := merged_m2 t r ?count,
              ag_min := f_min (ag_min t) (ag_min r), ag_max := f_max (ag_max t) (ag_max r)\<rparr>))) = (MILENA_OK, Some s)"
      using m g(1,2) g(3) [OF 3(2,1)] g(4-8) 3 unfolding milena_aggregate_state_merge_def Let_def e prod.case option.case by (simp only: if_False simp_thms)
    then obtain m1 m2 where c: "compensated_add t (ag_sum r) = Some m1" "compensated_add m1 (ag_sum_compensation r) = Some m2"
      and fin: "f_finite (merged_mean t r ?count)" "f_finite (merged_m2 t r ?count)"
      by (auto split: if_splits option.splits)
    obtain a c' where m2: "m2 = m1\<lparr>ag_sum := a, ag_sum_compensation := c'\<rparr>" "f_finite a" "f_finite c'" "f_finite (f_add a c')"
      using compensated_add_sound [OF c(2)] by blast
    obtain a0 c0 where "m1 = t\<lparr>ag_sum := a0, ag_sum_compensation := c0\<rparr>" using compensated_add_sound [OF c(1)] by blast
    then have m2': "m2 = t\<lparr>ag_sum := a, ag_sum_compensation := c'\<rparr>" using m2(1) by simp
    have ne: "values_of ts \<noteq> []" "values_of rs \<noteq> []" using 3 count_zero [OF t] count_zero [OF r] by blast+
    show ?thesis
      using m1 c fin m2'
      by (intro both_good [OF g(1) t g(2) r ne g(3) [OF 3(2,1)] u e fin m2(2-4)])
        (auto simp: with_counts_def intro!: MilenaAggregateState.equality)
  qed
qed

end
