(* ===== verification/AggregateProps.thy ===== *)
theory AggregateProps
  imports AggregateSteps "HOL-Library.Multiset"
begin

text \<open>
  The wire form, the states a program can build, and the properties of the aggregates: however the
  observations were split, merged and sent, their counts, exact sum and extrema come out right.
\<close>

section \<open>The wire form\<close>

lemma ag_get_i64_eq: "ag_get_i64 bs = ag_get_u64 bs"
proof -
  define b where "b = ag_get_u64 bs"
  have neg: "- (NOT b + 1) = b" by (simp add: not_eq_complement)
  have "word_of_int int64_min_value = - (NOT b + 1)" if "uint (NOT b + 1) = int64_max_value + 1"
  proof -
    have "NOT b + 1 = word_of_int (int64_max_value + 1)" using that by (metis word_of_int_uint)
    then show ?thesis by (simp add: int64_max_value_def int64_min_value_def)
  qed
  then show ?thesis unfolding ag_get_i64_def Let_def b_def [symmetric] using neg by simp
qed

lemmas ag_wire_defs = ag_put_u32_def ag_put_u64_def ag_put_i64_def ag_put_double_def ag_get_u32_def ag_get_u64_def ag_get_double_def

definition aggregate_head :: "MilenaAggregateState \<Rightarrow> bytes" where
  "aggregate_head s = aggregate_magic @ put_le 4 MILENA_AGGREGATE_WIRE_VERSION @ put_le 8 (ag_count s) @ put_le 8 (ag_null_count s) @
     put_le 8 (ag_invalid_count s) @ put_le 8 (ag_sum s) @ put_le 8 (ag_sum_compensation s) @ put_le 8 (ag_mean s) @
     put_le 8 (ag_m2 s) @ put_le 8 (ag_min s) @ put_le 8 (ag_max s) @ put_le 4 (ag_value_kind s) @ put_le 8 (ag_integer_sum s)"

definition aggregate_wire :: "MilenaAggregateState \<Rightarrow> bytes" where
  "aggregate_wire s = aggregate_head s @ put_le 4 (ag_checksum (aggregate_head s))"

lemma length_aggregate [simp]: "length aggregate_magic = 4" "length (aggregate_head s) = 92" "length (aggregate_wire s) = 96"
  by (simp_all add: aggregate_magic_def ascii_def aggregate_head_def aggregate_wire_def)

lemma aggregate_encode_eq:
  assumes "state_is_valid s" and "96 \<le> length buf"
  shows "milena_aggregate_state_encode (Some s) (Some buf) = Inr (poke 0 (aggregate_wire s) buf, 96)"
proof -
  have t: "take 92 (poke 0 (aggregate_head s) buf) = aggregate_head s"
    using assms(2) take_poke_0 [of "aggregate_head s" buf] by simp
  have p: "poke 92 x (poke 0 (aggregate_head s) buf) = poke 0 (aggregate_head s @ x) buf" for x
    by (intro poke_poke) simp_all
  show ?thesis
    using assms
    by (simp add: milena_aggregate_state_encode_def MILENA_AGGREGATE_WIRE_SIZE_def ag_wire_defs Let_def poke_poke
        aggregate_head_def [symmetric] t p aggregate_wire_def)
qed

lemma peek_wire:
  "take 4 (aggregate_wire s) = aggregate_magic" "peek 4 4 (aggregate_wire s) = put_le 4 MILENA_AGGREGATE_WIRE_VERSION"
  "peek 8 8 (aggregate_wire s) = put_le 8 (ag_count s)" "peek 16 8 (aggregate_wire s) = put_le 8 (ag_null_count s)"
  "peek 24 8 (aggregate_wire s) = put_le 8 (ag_invalid_count s)" "peek 32 8 (aggregate_wire s) = put_le 8 (ag_sum s)"
  "peek 40 8 (aggregate_wire s) = put_le 8 (ag_sum_compensation s)" "peek 48 8 (aggregate_wire s) = put_le 8 (ag_mean s)"
  "peek 56 8 (aggregate_wire s) = put_le 8 (ag_m2 s)" "peek 64 8 (aggregate_wire s) = put_le 8 (ag_min s)"
  "peek 72 8 (aggregate_wire s) = put_le 8 (ag_max s)" "peek 80 4 (aggregate_wire s) = put_le 4 (ag_value_kind s)"
  "peek 84 8 (aggregate_wire s) = put_le 8 (ag_integer_sum s)" "peek 92 4 (aggregate_wire s) = put_le 4 (ag_checksum (aggregate_head s))"
  "take 92 (aggregate_wire s) = aggregate_head s"
  by (simp_all add: aggregate_wire_def peek_append_right) (simp_all add: aggregate_head_def peek_def)

lemma get_le_wire: "peek i n bs = put_le n (w :: 'a::len word) \<Longrightarrow> LENGTH('a) = 8 * n \<Longrightarrow> get_le n (drop i bs) = w"
  by (metis get_le_peek_cong get_le_put_le)

lemma state_eta: "\<lparr>ag_count = ag_count s, ag_null_count = ag_null_count s, ag_invalid_count = ag_invalid_count s,
  ag_integer_sum = ag_integer_sum s, ag_value_kind = ag_value_kind s, ag_sum = ag_sum s, ag_sum_compensation = ag_sum_compensation s,
  ag_mean = ag_mean s, ag_m2 = ag_m2 s, ag_min = ag_min s, ag_max = ag_max s\<rparr> = s"
  by simp

lemma aggregate_decode_wire:
  assumes "state_is_valid s"
  shows "milena_aggregate_state_decode (Some (aggregate_wire s)) = Inr s"
  using assms get_le_wire [OF peek_wire(2)] get_le_wire [OF peek_wire(3)] get_le_wire [OF peek_wire(4)] get_le_wire [OF peek_wire(5)]
    get_le_wire [OF peek_wire(6)] get_le_wire [OF peek_wire(7)] get_le_wire [OF peek_wire(8)] get_le_wire [OF peek_wire(9)]
    get_le_wire [OF peek_wire(10)] get_le_wire [OF peek_wire(11)] get_le_wire [OF peek_wire(12)] get_le_wire [OF peek_wire(13)]
    get_le_wire [OF peek_wire(14)]
  by (simp add: milena_aggregate_state_decode_def MILENA_AGGREGATE_WIRE_SIZE_def ag_get_i64_eq ag_wire_defs peek_wire(1,15) Let_def state_eta)

lemma put_get_peek: "LENGTH('a) = 8 * n \<Longrightarrow> i + n \<le> length bs \<Longrightarrow> put_le n (get_le n (drop i bs) :: 'a::len word) = peek i n bs"
  by (metis get_le_peek_cong length_peek put_le_get_le)

lemma aggregate_decode_sound:
  assumes "milena_aggregate_state_decode (Some bs) = Inr s"
  shows "state_is_valid s \<and> bs = aggregate_wire s"
proof -
  have len: "length bs = 96" and magic: "peek 0 4 bs = aggregate_magic" and ver: "get_le 4 (drop 4 bs) = MILENA_AGGREGATE_WIRE_VERSION"
    and chk: "get_le 4 (drop 92 bs) = ag_checksum (take 92 bs)" and valid: "state_is_valid s"
    and s: "s = \<lparr>ag_count = get_le 8 (drop 8 bs), ag_null_count = get_le 8 (drop 16 bs),
              ag_invalid_count = get_le 8 (drop 24 bs), ag_integer_sum = get_le 8 (drop 84 bs),
              ag_value_kind = get_le 4 (drop 80 bs), ag_sum = get_le 8 (drop 32 bs),
              ag_sum_compensation = get_le 8 (drop 40 bs), ag_mean = get_le 8 (drop 48 bs),
              ag_m2 = get_le 8 (drop 56 bs), ag_min = get_le 8 (drop 64 bs), ag_max = get_le 8 (drop 72 bs)\<rparr>"
    using assms by (auto simp: milena_aggregate_state_decode_def MILENA_AGGREGATE_WIRE_SIZE_def ag_get_i64_eq ag_wire_defs Let_def
        peek_def split: if_splits)
  have rest: "drop 4 bs = peek 4 4 bs @ peek 8 8 bs @ peek 16 8 bs @ peek 24 8 bs @ peek 32 8 bs @ peek 40 8 bs @
    peek 48 8 bs @ peek 56 8 bs @ peek 64 8 bs @ peek 72 8 bs @ peek 80 4 bs @ peek 84 8 bs @ peek 92 4 bs"
    using drop_peek [of 4 bs 4] drop_peek [of 8 bs 8] drop_peek [of 16 bs 8] drop_peek [of 24 bs 8] drop_peek [of 32 bs 8]
      drop_peek [of 40 bs 8] drop_peek [of 48 bs 8] drop_peek [of 56 bs 8] drop_peek [of 64 bs 8] drop_peek [of 72 bs 8]
      drop_peek [of 80 bs 4] drop_peek [of 84 bs 8] drop_peek [of 92 bs 4] len by simp
  have bs: "bs = peek 0 4 bs @ drop 4 bs" using drop_peek [of 0 bs 4] by simp
  have split: "bs = aggregate_head s @ peek 92 4 bs"
    by (subst bs, subst rest) (use len in \<open>simp add: aggregate_head_def s put_get_peek magic flip: ver\<close>)
  then have head: "take 92 bs = aggregate_head s" by (metis append_eq_conv_conj length_aggregate(2))
  have "bs = aggregate_head s @ peek 92 4 bs" by (rule split)
  moreover have "peek 92 4 bs = put_le 4 (ag_checksum (aggregate_head s))"
    using put_get_peek [where 'a = 32, of 4 92 bs] len chk head by simp
  ultimately show ?thesis using valid head by (simp add: aggregate_wire_def)
qed

definition aggregate_encoded :: "MilenaAggregateState \<Rightarrow> bytes" where
  "aggregate_encoded s =
     (case milena_aggregate_state_encode (Some s) (Some (replicate 96 0)) of Inl _ \<Rightarrow> [] | Inr (buf, n) \<Rightarrow> take n buf)"

definition aggregate_decoded :: "bytes \<Rightarrow> MilenaAggregateState option" where
  "aggregate_decoded bs = (case milena_aggregate_state_decode (Some bs) of Inl _ \<Rightarrow> None | Inr s \<Rightarrow> Some s)"

lemma aggregate_encoded_eq: "state_is_valid s \<Longrightarrow> aggregate_encoded s = aggregate_wire s"
  using take_poke_0 [of "aggregate_wire s" "replicate 96 0"] by (simp add: aggregate_encoded_def aggregate_encode_eq)

interpretation aggregate: canonical_codec aggregate_encoded aggregate_decoded state_is_valid
proof
  show "aggregate_decoded (aggregate_encoded s) = Some s" if "state_is_valid s" for s
    using that by (simp add: aggregate_encoded_eq aggregate_decoded_def aggregate_decode_wire)
  show "state_is_valid s \<and> aggregate_encoded s = bs" if "aggregate_decoded bs = Some s" for bs s
    using that aggregate_decode_sound [of bs s] by (auto simp: aggregate_decoded_def aggregate_encoded_eq split: sum.splits)
qed

section \<open>Properties\<close>

text \<open>The states a program can build: additions, missing values, merges and transfers over the wire.\<close>

inductive aggregates :: "MilenaAggregateState \<Rightarrow> observation list \<Rightarrow> bool" where
  init: "milena_aggregate_state_init (Some s) = Some s' \<Longrightarrow> aggregates s' []"
| add: "aggregates s xs \<Longrightarrow> milena_aggregate_state_add (Some s) v = (MILENA_OK, Some s') \<Longrightarrow> aggregates s' (xs @ [Obs_float v])"
| add_int64: "aggregates s xs \<Longrightarrow> milena_aggregate_state_add_int64 (Some s) i = (MILENA_OK, Some s') \<Longrightarrow> aggregates s' (xs @ [Obs_int i])"
| add_null: "aggregates s xs \<Longrightarrow> milena_aggregate_state_add_null (Some s) = (MILENA_OK, Some s') \<Longrightarrow> aggregates s' (xs @ [Obs_null])"
| add_invalid: "aggregates s xs \<Longrightarrow> milena_aggregate_state_add_invalid (Some s) = (MILENA_OK, Some s') \<Longrightarrow> aggregates s' (xs @ [Obs_invalid])"
| merge: "aggregates t xs \<Longrightarrow> aggregates r ys \<Longrightarrow> milena_aggregate_state_merge (Some t) (Some r) = (MILENA_OK, Some s) \<Longrightarrow> aggregates s (xs @ ys)"
| transfer: "aggregates s xs \<Longrightarrow> milena_aggregate_state_encode (Some s) (Some buf) = Inr (buf', n) \<Longrightarrow>
    milena_aggregate_state_decode (Some (take n buf')) = Inr s' \<Longrightarrow> aggregates s' xs"

lemma encode_shape:
  assumes "milena_aggregate_state_encode (Some s) (Some buf) = Inr (buf', n)"
  shows "state_is_valid s \<and> 96 \<le> length buf \<and> n = 96 \<and> buf' = poke 0 (aggregate_wire s) buf \<and> take n buf' = aggregate_wire s"
proof -
  have g: "state_is_valid s" "96 \<le> length buf"
    using assms by (auto simp: milena_aggregate_state_encode_def MILENA_AGGREGATE_WIRE_SIZE_def split: if_splits)
  then show ?thesis using assms aggregate_encode_eq [OF g] take_poke_0 [of "aggregate_wire s" buf] by auto
qed

lemma aggregates_good: "aggregates s xs \<Longrightarrow> state_is_valid s \<and> summarises s xs"
proof (induction rule: aggregates.induct)
  case (transfer s xs buf buf' n s')
  have "milena_aggregate_state_decode (Some (take n buf')) = Inr s"
    using encode_shape [OF transfer(2)] aggregate_decode_wire [of s] by metis
  then show ?case using transfer by simp
qed (use zero_state_good add_good add_int64_good add_missing_good [where invalid = False] add_missing_good [where invalid = True] merge_good in
  \<open>auto simp: milena_aggregate_state_init_def milena_aggregate_state_add_null_def milena_aggregate_state_add_invalid_def\<close>)

lemma compensated_or_none: "compensated_add s v = None \<or> (\<exists>n. compensated_add s v = Some n)"
  by (cases "compensated_add s v") simp_all

interpretation aggregate_fnv: fnv32 16777619 899433627 2166136261
  by unfold_locales simp

lemma concat_mset: "mset xs = mset ys \<Longrightarrow> mset (concat (map f xs)) = mset (concat (map f ys))"
proof -
  assume "mset xs = mset ys"
  moreover have "mset (concat (map f zs)) = sum_mset (image_mset (\<lambda>z. mset (f z)) (mset zs))" for zs :: "'a list"
    by (induction zs) simp_all
  ultimately show ?thesis by simp
qed

lemma summaries_agree:
  assumes s: "state_is_valid s" "summarises s xs" and t: "state_is_valid t" "summarises t ys" and m: "mset xs = mset ys"
  shows "ag_count s = ag_count t \<and> ag_null_count s = ag_null_count t \<and> ag_invalid_count s = ag_invalid_count t \<and>
    ag_integer_sum s = ag_integer_sum t \<and> f_int (ag_min s) = f_int (ag_min t) \<and> f_int (ag_max s) = f_int (ag_max t)"
proof -
  have v: "mset (values_of xs) = mset (values_of ys)" "mset (ints_of xs) = mset (ints_of ys)"
    using concat_mset [OF m] by (simp_all add: values_of_def ints_of_def)
  have c: "count_list xs a = count_list ys a" for a using m by (metis count_mset)
  have l: "length (values_of xs) = length (values_of ys)" using v(1) by (rule mset_eq_length)
  have e: "set (values_of xs) = set (values_of ys)" using v(1) by (rule mset_eq_setD)
  have n: "values_of xs = [] \<longleftrightarrow> values_of ys = []" using l by (metis length_0_conv)
  have i: "sum_list (ints_of xs) = sum_list (ints_of ys)" using v(2) by (metis sum_mset_sum_list)
  have w: "unat (ag_count s) = unat (ag_count t)" "unat (ag_null_count s) = unat (ag_null_count t)"
    "unat (ag_invalid_count s) = unat (ag_invalid_count t)" "sint (ag_integer_sum s) = sint (ag_integer_sum t)"
    using s(2) t(2) l c i by (simp_all add: summarises_def)
  have "f_int (ag_min s) = f_int (ag_min t) \<and> f_int (ag_max s) = f_int (ag_max t)"
  proof (cases "values_of xs = []")
    case True
    then show ?thesis using s t n count_zero [OF s(2)] count_zero [OF t(2)] by (simp add: state_is_valid_iff)
  next
    case False
    then show ?thesis using s(2) t(2) n e by (simp add: summarises_def)
  qed
  moreover have "ag_integer_sum s = ag_integer_sum t" using w(4) by (rule signed_word_eqI)
  ultimately show ?thesis using w(1-3) by (simp add: word_unat_eq_iff)
qed

lemma wire_one_byte:
  assumes "i < 96" and "b \<noteq> aggregate_wire s ! i"
  shows "milena_aggregate_state_decode (Some ((aggregate_wire s)[i := b])) \<noteq> Inr s'"
proof
  assume "milena_aggregate_state_decode (Some ((aggregate_wire s)[i := b])) = Inr s'"
  then have eq: "(aggregate_wire s)[i := b] = aggregate_wire s'" using aggregate_decode_sound by blast
  define h where "h = aggregate_head s"
  define c where "c = put_le 4 (ag_checksum h)"
  have w: "aggregate_wire s = h @ c" "length h = 92" by (simp_all add: aggregate_wire_def h_def c_def)
  show False
  proof (cases "i < 92")
    case True
    then have "h[i := b] @ c = aggregate_head s' @ put_le 4 (ag_checksum (aggregate_head s'))"
      using eq w by (simp add: list_update_append aggregate_wire_def)
    then have s': "aggregate_head s' = h[i := b]" "put_le 4 (ag_checksum (h[i := b])) = c"
      using w(2) append_eq_append_conv [of "h[i := b]" "aggregate_head s'"] by auto
    then have "ag_checksum (h[i := b]) = ag_checksum h"
      using get_le_put_le [where 'a = 32 and n = 4, of "ag_checksum h"] get_le_put_le [where 'a = 32 and n = 4, of "ag_checksum (h[i := b])"]
      unfolding c_def by simp
    moreover have "b \<noteq> h ! i" using assms(2) True w by (simp add: nth_append)
    ultimately show False using aggregate_fnv.one_byte [of i h b] True w(2) by (simp add: ag_checksum_def)
  next
    case False
    have "(h @ c)[i := b] = h @ c[i - 92 := b]" using False w(2) by (simp add: list_update_append)
    then have e: "h @ c[i - 92 := b] = aggregate_head s' @ put_le 4 (ag_checksum (aggregate_head s'))"
      using eq unfolding w(1) aggregate_wire_def [of s'] by (simp only:)
    have l: "length h = length (aggregate_head s')" using w(2) by simp
    have hs: "h = aggregate_head s' \<and> c[i - 92 := b] = put_le 4 (ag_checksum (aggregate_head s'))"
      by (rule iffD1 [OF append_eq_append_conv [OF disjI1 [OF l]] e])
    have "put_le 4 (ag_checksum (aggregate_head s')) = c" unfolding c_def conjunct1 [OF hs] ..
    then have "c[i - 92 := b] = c" using conjunct2 [OF hs] by (rule trans [rotated])
    then have "c ! (i - 92) = b" using assms(1) False nth_list_update_eq [of "i - 92" c b] by (simp add: c_def)
    then show False using assms(2) False w by (simp add: nth_append)
  qed
qed

lemma variance_nonneg:
  assumes "f_finite m" and "0 \<le> f_int m" and "0 < (n :: u64)"
  shows "\<not> f_nan (f_div m (f_of_int (uint n)))" and "0 \<le> f_int (f_div m (f_of_int (uint n)))"
proof -
  note c = count_double [OF assms(3)]
  have pos: "0 < f_int (f_of_int (uint n))" using c(2) one_mag_pos by linarith
  show "\<not> f_nan (f_div m (f_of_int (uint n)))" by (rule f_div_int(2) [OF assms(1) c(1) pos])
  show "0 \<le> f_int (f_div m (f_of_int (uint n)))"
    unfolding f_div_int(1) [OF assms(1) c(1) pos] using assms(2) pos by (intro rnd_sign) simp_all
qed

text \<open>
  C11.  A state is what its observations say, however they were split into partial aggregates,
  merged and sent over the wire: it is valid, its counters and its integer sum are exact, integers
  and doubles never mix in it, and its extrema are those of the values.
\<close>

theorem aggregate_exact:
  assumes "aggregates s xs"
  shows "state_is_valid s \<and> unat (ag_count s) = length (values_of xs) \<and> unat (ag_null_count s) = count_list xs Obs_null \<and>
    unat (ag_invalid_count s) = count_list xs Obs_invalid \<and> sint (ag_integer_sum s) = sum_list (ints_of xs) \<and>
    \<not> (ints_of xs \<noteq> [] \<and> floats_of xs \<noteq> []) \<and>
    (values_of xs \<noteq> [] \<longrightarrow> f_int (ag_min s) = Min (f_int ` set (values_of xs)) \<and> f_int (ag_max s) = Max (f_int ` set (values_of xs)))"
proof -
  have g: "state_is_valid s" "summarises s xs" using aggregates_good [OF assms] by simp_all
  moreover have "\<not> (ints_of xs \<noteq> [] \<and> floats_of xs \<noteq> [])"
    using kind_of_values [OF g] no_values [of xs] g(2) by (auto simp: summarises_def)
  ultimately show ?thesis unfolding summarises_def by blast
qed

text \<open>C19.  Two aggregations of the same observations, split and ordered in any two ways, agree in all that is exact.\<close>

theorem aggregate_partition_independent:
  assumes "aggregates s xs" and "aggregates t ys" and "mset xs = mset ys"
  shows "ag_count s = ag_count t \<and> ag_null_count s = ag_null_count t \<and> ag_invalid_count s = ag_invalid_count t \<and>
    ag_integer_sum s = ag_integer_sum t \<and> f_int (ag_min s) = f_int (ag_min t) \<and> f_int (ag_max s) = f_int (ag_max t)"
  using aggregates_good [OF assms(1)] aggregates_good [OF assms(2)] assms(3) by (intro summaries_agree [of s xs t ys]) simp_all

text \<open>
  C32.  The integer sum never wraps: an integer that would take the exact sum of the integers so
  far out of the 64-bit range is refused as an overflow, and the state stays as it was.
\<close>

theorem aggregate_integer_bounds:
  assumes "aggregates s xs" and "floats_of xs = []"
    and "\<not> (int64_min_value \<le> sum_list (ints_of xs) + sint i \<and> sum_list (ints_of xs) + sint i \<le> int64_max_value)"
  shows "milena_aggregate_state_add_int64 (Some s) i = (MILENA_ERR_OVERFLOW, Some s)"
proof -
  have g: "state_is_valid s" "summarises s xs" using aggregates_good [OF assms(1)] by simp_all
  have k: "ag_count s = 0 \<or> ag_value_kind s = MILENA_AGGREGATE_VALUE_INT64"
    using kind_of_values [OF g] count_zero [OF g(2)] no_values [of xs] assms(2) by auto
  have "(if ag_count s \<noteq> 0 then ag_integer_sum s else 0) = ag_integer_sum s" using g(1) by (simp add: state_is_valid_iff)
  moreover have "int64_add_checked (ag_integer_sum s) i = None"
    using assms(3) g(2) int64_add_checked_iff [of "ag_integer_sum s" i] by (cases "int64_add_checked (ag_integer_sum s) i") (auto simp: summarises_def)
  ultimately have "int64_add_checked (if ag_count s \<noteq> 0 then ag_integer_sum s else 0) i = None" by simp
  then show ?thesis
    unfolding milena_aggregate_state_add_int64_def option.case using g(1) k by simp
qed

text \<open>
  Decoding what the encoder wrote gives back the state, 96 bytes are written and the caller's
  bytes after them are untouched.
\<close>

theorem aggregate_wire_roundtrip:
  assumes "milena_aggregate_state_encode (Some s) (Some buf) = Inr (buf', n)"
  shows "milena_aggregate_state_decode (Some (take n buf')) = Inr s \<and> n = 96 \<and> drop n buf' = drop n buf"
proof -
  note e = encode_shape [OF assms]
  then have "drop 96 (poke 0 (aggregate_wire s) buf) = drop 96 buf" by (intro drop_poke) simp_all
  then show ?thesis using e aggregate_decode_wire [of s] by metis
qed

text \<open>
  Only what the encoder writes is accepted, and the checksum sees every change of one byte: a
  message with one byte changed decodes to an error.
\<close>

lemma aggregate_wire_safe:
  assumes "milena_aggregate_state_decode (Some bs) = Inr s" and "i < length bs" and "b \<noteq> bs ! i"
  shows "state_is_valid s \<and> aggregate_encoded s = bs \<and> (\<exists>e. milena_aggregate_state_decode (Some (bs[i := b])) = Inl e)"
proof -
  have s: "state_is_valid s" "bs = aggregate_wire s" using aggregate_decode_sound [OF assms(1)] by simp_all
  then have "milena_aggregate_state_decode (Some (bs[i := b])) \<noteq> Inr s'" for s'
    using wire_one_byte [of i b s s'] assms(2,3) by simp
  then have "\<exists>e. milena_aggregate_state_decode (Some (bs[i := b])) = Inl e"
    by (cases "milena_aggregate_state_decode (Some (bs[i := b]))") (auto)
  then show ?thesis using s aggregate_encoded_eq [OF s(1)] by simp
qed

lemma finalize_parts:
  assumes v: "state_is_valid s" and f: "milena_aggregate_state_finalize (Some s) (Some r0) = (st, r)"
  shows "st = MILENA_OK \<and> (\<exists>q. r = Some q \<and> ar_count q = ag_count s \<and> ar_null_count q = ag_null_count s \<and> ar_invalid_count q = ag_invalid_count s \<and>
      ar_integer_sum q = ag_integer_sum s \<and> ar_has_integer_sum q = (ag_value_kind s = MILENA_AGGREGATE_VALUE_INT64) \<and>
      ar_has_values q = (ag_count s \<noteq> 0) \<and> ar_has_sample_variance q = (2 \<le> ag_count s) \<and>
      f_finite (ar_variance_population q) \<and> 0 \<le> f_int (ar_variance_population q) \<and>
      f_finite (ar_variance_sample q) \<and> 0 \<le> f_int (ar_variance_sample q) \<and>
      f_finite (ar_stddev_population q) \<and> 0 \<le> f_int (ar_stddev_population q)) \<or>
    st = MILENA_ERR_OVERFLOW \<and> r = Some zero_result"
proof (cases "ag_count s = 0")
  case True
  have two: "(2 \<le> ag_count s) = False" using True by (simp add: word_le_nat_alt)
  have "(st, r) = (MILENA_OK, Some (zero_result\<lparr>ar_count := ag_count s, ar_null_count := ag_null_count s, ar_invalid_count := ag_invalid_count s,
      ar_integer_sum := ag_integer_sum s, ar_has_integer_sum := (ag_value_kind s = MILENA_AGGREGATE_VALUE_INT64), ar_has_values := (ag_count s > 0)\<rparr>))"
    unfolding f [symmetric] milena_aggregate_state_finalize_def Let_def using v True by simp
  then show ?thesis unfolding two using True by (simp add: zero_result_def)
next
  case False
  define n where "n = f_of_int (uint (ag_count s))"
  have m2: "f_finite (ag_m2 s)" "0 \<le> f_int (ag_m2 s)" using v False by (auto simp: state_is_valid_iff finite_parts_of_def)
  have c: "0 < ag_count s" using False by (simp add: word_neq_0_conv)
  note p = variance_nonneg [OF m2 c] and ps = f_sqrt_nonneg [OF variance_nonneg [OF m2 c]]
  have q: "0 \<le> f_int (f_div (ag_m2 s) (f_of_int (uint (ag_count s - 1))))" if "2 \<le> ag_count s"
  proof -
    have "unat (ag_count s - 1) = unat (ag_count s) - 1" using that unat_sub [of 1 "ag_count s"] by (simp add: word_le_nat_alt)
    then have "0 < ag_count s - 1" using that by (simp add: word_le_nat_alt word_less_nat_alt)
    then show ?thesis by (rule variance_nonneg(2) [OF m2])
  qed
  define variance where "variance = f_div (ag_m2 s) (f_of_int (uint (ag_count s)))"
  define sample where "sample = f_div (ag_m2 s) (f_of_int (uint (ag_count s - 1)))"
  define r2 where "r2 = zero_result\<lparr>ar_count := ag_count s, ar_null_count := ag_null_count s, ar_invalid_count := ag_invalid_count s,
      ar_integer_sum := ag_integer_sum s, ar_has_integer_sum := (ag_value_kind s = MILENA_AGGREGATE_VALUE_INT64), ar_has_values := (ag_count s > 0),
      ar_sum := f_add (ag_sum s) (ag_sum_compensation s), ar_mean := ag_mean s,
      ar_variance_population := variance, ar_stddev_population := f_sqrt variance, ar_min := ag_min s, ar_max := ag_max s\<rparr>"
  define r3 where "r3 = (if ag_count s \<ge> 2 then r2\<lparr>ar_variance_sample := sample, ar_stddev_sample := f_sqrt sample, ar_has_sample_variance := True\<rparr> else r2)"
  have eq: "(st, r) = (if \<not> f_finite (ar_variance_population r3) \<or> \<not> f_finite (ar_stddev_population r3) \<or>
      (ar_has_sample_variance r3 \<and> (\<not> f_finite (ar_variance_sample r3) \<or> \<not> f_finite (ar_stddev_sample r3)))
    then (MILENA_ERR_OVERFLOW, Some zero_result) else (MILENA_OK, Some r3))"
    unfolding f [symmetric] milena_aggregate_state_finalize_def Let_def r3_def r2_def variance_def sample_def
    by (simp only: v False prod.case option.case simp_thms if_False)
  have q': "2 \<le> ag_count s \<Longrightarrow> 0 \<le> f_int sample" using q by (simp add: sample_def)
  have r2: "ar_count r2 = ag_count s" "ar_null_count r2 = ag_null_count s" "ar_invalid_count r2 = ag_invalid_count s"
    "ar_integer_sum r2 = ag_integer_sum s" "ar_has_integer_sum r2 = (ag_value_kind s = MILENA_AGGREGATE_VALUE_INT64)"
    "ar_has_values r2 = (ag_count s > 0)" "ar_variance_population r2 = variance" "ar_stddev_population r2 = f_sqrt variance"
    "ar_variance_sample r2 = 0" "\<not> ar_has_sample_variance r2"
    by (simp_all add: r2_def zero_result_def)
  have r3: "ar_count r3 = ag_count s" "ar_null_count r3 = ag_null_count s" "ar_invalid_count r3 = ag_invalid_count s"
    "ar_integer_sum r3 = ag_integer_sum s" "ar_has_integer_sum r3 = (ag_value_kind s = MILENA_AGGREGATE_VALUE_INT64)"
    "ar_has_values r3 = (ag_count s \<noteq> 0)" "ar_variance_population r3 = variance" "ar_stddev_population r3 = f_sqrt variance"
    "ar_variance_sample r3 = (if 2 \<le> ag_count s then sample else 0)" "ar_has_sample_variance r3 = (2 \<le> ag_count s)"
    using r2 c False by (simp_all add: r3_def)
  have s: "0 \<le> f_int variance" "0 \<le> f_int (f_sqrt variance)" using p ps by (simp_all add: variance_def)
  show ?thesis
  proof (cases "st = MILENA_OK")
    case True
    then have "r = Some r3" "f_finite variance" "f_finite (f_sqrt variance)" "2 \<le> ag_count s \<Longrightarrow> f_finite sample"
      using eq r3 by (auto split: if_splits)
    then show ?thesis using True r3 s q' by simp
  next
    case False
    then show ?thesis using eq by (simp split: if_splits)
  qed
qed

text \<open>
  Finalising an aggregate gives its exact counts, sum and flags with variances and a deviation
  that are finite and never negative, or reports an overflow and a cleared result.
\<close>

theorem aggregate_finalize:
  assumes "aggregates s xs" and "milena_aggregate_state_finalize (Some s) (Some r0) = (st, r)"
  shows "st = MILENA_OK \<and> (\<exists>q. r = Some q \<and> unat (ar_count q) = length (values_of xs) \<and> sint (ar_integer_sum q) = sum_list (ints_of xs) \<and>
      ar_has_values q = (values_of xs \<noteq> []) \<and> ar_has_integer_sum q = (ints_of xs \<noteq> []) \<and>
      ar_has_sample_variance q = (2 \<le> length (values_of xs)) \<and>
      f_finite (ar_variance_population q) \<and> 0 \<le> f_int (ar_variance_population q) \<and>
      f_finite (ar_variance_sample q) \<and> 0 \<le> f_int (ar_variance_sample q) \<and>
      f_finite (ar_stddev_population q) \<and> 0 \<le> f_int (ar_stddev_population q)) \<or>
    st = MILENA_ERR_OVERFLOW \<and> r = Some zero_result"
proof -
  have g: "state_is_valid s" "summarises s xs" using aggregates_good [OF assms(1)] by simp_all
  have "(ag_value_kind s = MILENA_AGGREGATE_VALUE_INT64) = (ints_of xs \<noteq> [])"
  proof (cases "values_of xs = []")
    case True
    then show ?thesis using g(1) count_zero [OF g(2)] no_values [of xs] by (simp add: state_is_valid_iff value_kinds)
  next
    case False
    then show ?thesis using kind_of_values [OF g False] no_values [of xs] by (auto simp: value_kinds)
  qed
  moreover have "unat (ag_count s) = length (values_of xs)" "sint (ag_integer_sum s) = sum_list (ints_of xs)"
    using g(2) by (simp_all add: summarises_def)
  moreover from this have "(2 \<le> ag_count s) = (2 \<le> length (values_of xs))" by (simp add: word_le_nat_alt)
  ultimately show ?thesis
    using finalize_parts [OF g(1) assms(2)] count_zero [OF g(2)] by auto
qed

section \<open>The first value\<close>

lemma finite_same: "f_finite y \<Longrightarrow> \<not> f_nan x \<Longrightarrow> \<bar>f_int x\<bar> \<le> \<bar>f_int y\<bar> \<Longrightarrow> f_finite x"
  by (auto simp: f_class_pat f_int_signed signed_def pmag_le_iff split: if_splits)

lemma rnd_id: "rep c \<Longrightarrow> rnd c 1 = c"
  using rnd_eq [of 1 c] by simp

lemma first_mean:
  assumes "f_finite v"
  shows "f_finite (next_mean zero_state 1 v)" and "f_int (next_mean zero_state 1 v) = f_int v" and "f_finite (next_m2 zero_state (next_mean zero_state 1 v) v)"
proof -
  have rv: "rep (f_int v)" using finite_parts [OF assms] by simp
  define n where "n = f_of_int (uint (1 :: u64))"
  have n: "f_finite n" "f_int n = int one_mag" using count_double(1) [of 1] f_of_int_int(1) [of 1] rnd_id [OF rep_one_mag(1)] by (simp_all add: n_def)
  define d where "d = f_sub v 0"
  have d: "f_int d = f_int v" "\<not> f_nan d" using f_sub_int [OF assms, of 0] rnd_id [OF rv] by (simp_all add: d_def)
  then have fd: "f_finite d" using finite_same [OF assms] by simp
  define q where "q = f_div d n"
  have q: "f_int q = f_int v" "\<not> f_nan q"
    using f_div_int [OF fd n(1)] n(2) rnd_eq [OF one_mag_pos rv] d by (simp_all add: q_def)
  then have fq: "f_finite q" using finite_same [OF assms] by simp
  define m where "m = f_add 0 q"
  have m: "f_int m = f_int v" "\<not> f_nan m" using f_add_int [of 0 q] fq rnd_id [OF rv] q by (simp_all add: m_def)
  then have fm: "f_finite m" using finite_same [OF assms] by simp
  have nm: "next_mean zero_state 1 v = m" by (simp add: next_mean_def zero_state_def m_def q_def d_def n_def)
  show "f_finite (next_mean zero_state 1 v)" "f_int (next_mean zero_state 1 v) = f_int v" using fm m nm by simp_all
  define e where "e = f_sub v m"
  have e: "f_int e = 0" "\<not> f_nan e" using f_sub_int [OF assms fm] m rnd_id [OF rep_0] by (simp_all add: e_def)
  then have fe: "f_finite e" using finite_same [of 0 e] by simp
  have p: "f_int (f_mul d e) = 0" "\<not> f_nan (f_mul d e)" using f_mul_int [OF fd fe] e rnd_eq [OF one_mag_pos rep_0] by simp_all
  then have fp: "f_finite (f_mul d e)" using finite_same [of 0 "f_mul d e"] by simp
  have "f_int (f_add 0 (f_mul d e)) = 0" "\<not> f_nan (f_add 0 (f_mul d e))" using f_add_int [of 0 "f_mul d e"] fp p rnd_id [OF rep_0] by simp_all
  then have "f_finite (f_add 0 (f_mul d e))" using finite_same [of 0 "f_add 0 (f_mul d e)"] by simp
  moreover have "next_m2 zero_state m v = f_add 0 (f_mul d e)" by (simp add: next_m2_def zero_state_def d_def e_def)
  ultimately show "f_finite (next_m2 zero_state (next_mean zero_state 1 v) v)" by (simp only: nm)
qed

lemma add_calc:
  assumes "f_finite a" "f_finite b" "f_finite y" "f_int a + f_int b = f_int y"
  shows "f_finite (f_add a b)" "f_int (f_add a b) = f_int y"
  using f_add_int [OF assms(1,2)] rnd_id [of "f_int y"] assms(3,4) finite_parts finite_same [of y "f_add a b"] by simp_all

lemma sub_calc:
  assumes "f_finite a" "f_finite b" "f_finite y" "f_int a - f_int b = f_int y"
  shows "f_finite (f_sub a b)" "f_int (f_sub a b) = f_int y"
  using f_sub_int [OF assms(1,2)] rnd_id [of "f_int y"] assms(3,4) finite_parts finite_same [of y "f_sub a b"] by simp_all

lemma first_sum:
  assumes "f_finite v"
  shows "compensated_add zero_state v \<noteq> None"
proof -
  define x where "x = f_add 0 v"
  have x: "f_finite x" "f_int x = f_int v" using add_calc [of 0 v v] assms by (simp_all add: x_def)
  define a where "a = (if f_le (f_abs v) (f_abs 0) then f_add (f_sub 0 x) v else f_add (f_sub v x) 0)"
  have "f_finite (f_sub 0 x)" "f_int (f_sub 0 x) = - f_int v" "f_finite (f_sub v x)" "f_int (f_sub v x) = 0"
    using sub_calc [of 0 x "f_neg v"] sub_calc [of v x 0] x assms by simp_all
  then have a: "f_finite a" "f_int a = 0" using add_calc [of "f_sub 0 x" v 0] add_calc [of "f_sub v x" 0 0] assms by (simp_all add: a_def)
  define c where "c = f_add 0 a"
  have c: "f_finite c" "f_int c = 0" using add_calc [of 0 a 0] a by (simp_all add: c_def)
  have "f_finite (f_add x c)" using add_calc(1) [of x c v] x c assms by simp
  moreover have "ag_sum zero_state = 0" "ag_sum_compensation zero_state = 0" by (simp_all add: zero_state_def)
  ultimately show ?thesis
    using x(1) a(1) c(1) unfolding compensated_add_def Let_def by (simp only: x_def [symmetric] a_def [symmetric] c_def [symmetric]) simp
qed

lemma first_int: "\<exists>s. aggregates s [Obs_int i]"
proof -
  define v where "v = f_of_int (sint i)"
  have v: "f_finite v" unfolding v_def by (rule f_of_int64_finite)
  obtain n where n: "compensated_add zero_state v = Some n" using first_sum [OF v] by blast
  have t: "state_total_count zero_state = Some 0" by (simp add: state_total_count_eq observations_def zero_state_def)
  have e: "int64_add_checked 0 i = Some i" using sint_ge [of i] sint_lt [of i]
    by (auto simp: int64_add_checked_def int64_max_value_def int64_min_value_def)
  have z: "ag_count zero_state = 0" "aggregates zero_state []"
    using aggregates.init [of zero_state zero_state] by (simp_all add: zero_state_def milena_aggregate_state_init_def)
  have "\<exists>s. milena_aggregate_state_add_int64 (Some zero_state) i = (MILENA_OK, Some s)"
    using zero_state_good(1) t e n first_mean [OF v] z(1)
    by (simp add: milena_aggregate_state_add_int64_def v_def [symmetric] Let_def)
  then show ?thesis using aggregates.add_int64 [OF z(2), of i] by auto
qed

lemma length_values: "length (values_of ys) \<le> length ys"
proof (induction ys)
  case (Cons y ys)
  then show ?case by (cases y) (simp_all add: values_of_def)
qed simp

lemma few_observations:
  assumes "aggregates z ys"
  shows "unat (ag_count z) \<le> length ys" "unat (ag_null_count z) \<le> length ys" "unat (ag_invalid_count z) \<le> length ys"
  using aggregates_good [OF assms] length_values [of ys] count_le_length [of ys Obs_null] count_le_length [of ys Obs_invalid]
  by (simp_all add: summarises_def)

lemma merge_into_empty:
  assumes t: "aggregates t ts" "values_of ts = []" and r: "aggregates r rs" and small: "length ts < 2 ^ 60" "length rs < 2 ^ 60"
  shows "\<exists>s. milena_aggregate_state_merge (Some t) (Some r) = (MILENA_OK, Some s)"
proof -
  have g: "state_is_valid t" "state_is_valid r" "ag_count t = 0"
    using aggregates_good [OF t(1)] aggregates_good [OF r] count_zero [of t ts] t(2) by simp_all
  note le = few_observations [OF t(1)] few_observations [OF r]
  have room: "\<not> ag_count r > - 1 - ag_count t" "\<not> ag_null_count r > - 1 - ag_null_count t" "\<not> ag_invalid_count r > - 1 - ag_invalid_count t"
    unfolding word_room using le small by simp_all
  have u: "unat (ag_null_count t + ag_null_count r) = unat (ag_null_count t) + unat (ag_null_count r)"
    "unat (ag_invalid_count t + ag_invalid_count r) = unat (ag_invalid_count t) + unat (ag_invalid_count r)"
    using le small by (intro unat_plus; simp)+
  have n: "\<not> ag_null_count t + ag_null_count r > - 1 - ag_count r" unfolding word_room u using le small by simp
  have c: "unat (ag_count r + (ag_null_count t + ag_null_count r)) = unat (ag_count r) + (unat (ag_null_count t) + unat (ag_null_count r))"
    using le small unat_plus [of "ag_count r" "ag_null_count t + ag_null_count r"] u(1) by simp
  have "\<not> ag_invalid_count t + ag_invalid_count r > - 1 - (ag_count r + (ag_null_count t + ag_null_count r))"
    unfolding word_room u c using le small by simp
  moreover have "- 1 - ag_count r - (ag_null_count t + ag_null_count r) = - 1 - (ag_count r + (ag_null_count t + ag_null_count r))"
    by simp
  ultimately have i: "\<not> ag_invalid_count t + ag_invalid_count r > - 1 - ag_count r - (ag_null_count t + ag_null_count r)"
    by metis
  show ?thesis
    using g room n i by (simp add: milena_aggregate_state_merge_def Let_def)
qed

lemma add_null_room:
  assumes "aggregates z ys" and "length ys \<le> 1"
  shows "\<exists>z'. milena_aggregate_state_add_null (Some z) = (MILENA_OK, Some z')"
proof -
  have g: "state_is_valid z" "summarises z ys" using aggregates_good [OF assms(1)] by simp_all
  have o': "observations z \<le> 3"
    using few_observations [OF assms(1)] assms(2) by (simp add: observations_def)
  then have "unat (ag_null_count z) \<noteq> unat (- 1 :: u64)" by (simp add: observations_def unat_minus_1)
  then have "ag_null_count z \<noteq> - 1" by auto
  moreover have "state_total_count z \<noteq> None \<and> state_total_count z \<noteq> Some (- 1)" using total_full [of z] o' by auto
  ultimately show ?thesis using g(1) by (simp add: milena_aggregate_state_add_null_def aggregate_state_add_missing_def)
qed

lemma aggregate_exact_witness:
  "\<exists>s. aggregates s [Obs_int 7] \<and> unat (ag_count s) = 1 \<and> sint (ag_integer_sum s) = 7 \<and> f_int (ag_min s) = f_int (f_of_int 7)"
proof -
  obtain s where s: "aggregates s [Obs_int 7]" using first_int by blast
  have "sint (7 :: 64 word) = 7" by simp
  then show ?thesis using aggregate_exact [OF s] s by (auto simp: values_of_def ints_of_def)
qed

lemma aggregate_partition_independent_witness:
  "\<exists>s t. aggregates s [Obs_int 7, Obs_null] \<and> aggregates t [Obs_null, Obs_int 7] \<and> ag_integer_sum s = ag_integer_sum t"
proof -
  obtain s where s: "aggregates s [Obs_int 7]" using first_int by blast
  obtain z where z: "aggregates z []" using aggregates.init [of zero_state] by (simp add: milena_aggregate_state_init_def)
  have n: "\<exists>z'. milena_aggregate_state_add_null (Some z) = (MILENA_OK, Some z')" if "aggregates z ys" "length ys \<le> 1" for z ys
    using add_null_room [OF that] .
  obtain s' where s': "aggregates s' ([Obs_int 7] @ [Obs_null])" using n [OF s] aggregates.add_null [OF s] by auto
  obtain z' where z': "aggregates z' ([] @ [Obs_null])" using n [OF z] aggregates.add_null [OF z] by auto
  have "\<exists>t. milena_aggregate_state_merge (Some z') (Some s) = (MILENA_OK, Some t)" using merge_into_empty [OF z' _ s] by simp
  then obtain t where t: "aggregates t ([Obs_null] @ [Obs_int 7])" using aggregates.merge [OF z' s] by auto
  show ?thesis using aggregate_partition_independent [OF s' t] s' t by auto
qed

lemma aggregate_integer_bounds_witness:
  "\<exists>s. milena_aggregate_state_add_int64 (Some s) 0x7FFFFFFFFFFFFFFF = (MILENA_ERR_OVERFLOW, Some s) \<and> aggregates s [Obs_int 7]"
proof -
  obtain s where s: "aggregates s [Obs_int 7]" using first_int by blast
  have "sint (7 :: 64 word) = 7" "sint (0x7FFFFFFFFFFFFFFF :: 64 word) = 0x7FFFFFFFFFFFFFFF" by simp_all
  then show ?thesis using aggregate_integer_bounds [OF s, of "0x7FFFFFFFFFFFFFFF"] s
    by (auto simp: floats_of_def ints_of_def int64_max_value_def)
qed

lemma aggregate_finalize_witness:
  "\<exists>s st r. aggregates s [Obs_int 7] \<and> milena_aggregate_state_finalize (Some s) (Some zero_result) = (st, r) \<and>
    (st = MILENA_OK \<or> st = MILENA_ERR_OVERFLOW)"
proof -
  obtain s where s: "aggregates s [Obs_int 7]" using first_int by blast
  obtain st r where f: "milena_aggregate_state_finalize (Some s) (Some zero_result) = (st, r)" by fastforce
  then show ?thesis using aggregate_finalize [OF s f] s by blast
qed

lemma aggregate_wire_roundtrip_witness:
  "\<exists>buf'. milena_aggregate_state_encode (Some zero_state) (Some (replicate 100 1)) = Inr (buf', 96) \<and>
    milena_aggregate_state_decode (Some (take 96 buf')) = Inr zero_state \<and> drop 96 buf' = [1, 1, 1, 1]"
proof -
  have e: "milena_aggregate_state_encode (Some zero_state) (Some (replicate 100 1)) = Inr (poke 0 (aggregate_wire zero_state) (replicate 100 1), 96)"
    by (rule aggregate_encode_eq [OF zero_state_good(1)]) simp
  have "drop 96 (replicate 100 (1 :: u8)) = [1, 1, 1, 1]" by (simp add: eval_nat_numeral)
  then show ?thesis using aggregate_wire_roundtrip [OF e] e by simp
qed

lemma aggregate_wire_safe_witness:
  "aggregate_encoded zero_state = aggregate_wire zero_state \<and>
    (\<exists>e. milena_aggregate_state_decode (Some ((aggregate_wire zero_state)[0 := 9])) = Inl e)"
proof -
  have "9 \<noteq> aggregate_wire zero_state ! 0" by (simp add: aggregate_wire_def aggregate_head_def aggregate_magic_def ascii_def)
  with aggregate_wire_safe [OF aggregate_decode_wire [OF zero_state_good(1)], of 0 9] show ?thesis by simp
qed

end
