(* ===== verification/PartitionExecutor.thy ===== *)
theory PartitionExecutor
  imports PartitionPlan "HOL-Library.Multiset"
begin

text \<open>
  partition_executor.c: worker threads that take the partitions of a plan one by one under a mutex
  and run a callback on each.

  A critical section is one atomic step, because its thread holds the mutex throughout; between the
  sections a thread is at the top of its loop, inside the callback, or back from it.  The callback
  and the cancel callback belong to the caller: they may answer anything, and so the steps are a
  relation.  \<open>mtx_lock\<close> may fail unless the run is \<open>reliable\<close>; the creation of a thread may always
  fail.  \<open>mtx_unlock\<close>, whose answer the source ignores, gives the mutex back.  When a thread cannot
  be created the main thread sets \<open>failed\<close> without the lock; this write too is one step, although in
  C it races with the workers that read the flag.  \<open>ex_calls\<close> and \<open>ex_returns\<close> record the calls of the callback (partition and worker) and
  its answers (partition and status).  Of an error record only the code is kept.
\<close>

record executor_options =
  eo_max_workers :: nat
  eo_fail_fast :: bool
  eo_max_bytes_per_worker :: nat
  eo_cancel :: bool

definition milena_partition_executor_options_default :: executor_options where
  "milena_partition_executor_options_default =
     \<lparr>eo_max_workers = 1, eo_fail_fast = True, eo_max_bytes_per_worker = 0, eo_cancel = False\<rparr>"

record execution_report =
  er_total :: nat
  er_completed :: nat
  er_failed :: nat
  er_workers_used :: nat
  er_bytes_assigned :: nat
  er_cancelled :: bool
  er_deterministic_order :: bool

datatype worker_pc =
    Not_created
  | At_top
  | In_callback nat
  | Back nat MilenaStatus MilenaStatus
  | Exited bool

datatype main_pc = Creating nat | Joining nat | Returned MilenaStatus

record local_execution =
  ex_report :: execution_report
  ex_first_error :: MilenaStatus
  ex_next :: nat
  ex_bytes :: "nat list"
  ex_failed :: bool
  ex_error :: MilenaStatus
  ex_threads :: "worker_pc list"
  ex_main :: main_pc
  ex_calls :: "(nat \<times> nat) list"
  ex_returns :: "(nat \<times> MilenaStatus) list"

definition set_pc :: "nat \<Rightarrow> worker_pc \<Rightarrow> local_execution \<Rightarrow> local_execution" where
  "set_pc i pc x = x\<lparr>ex_threads := (ex_threads x)[i := pc]\<rparr>"

text \<open>The first critical section of \<open>local_worker\<close>; the argument \<open>cancel\<close> is the cancel callback's answer.\<close>

definition over_budget :: "executor_options \<Rightarrow> nat \<Rightarrow> nat \<Rightarrow> bool" where
  "over_budget opts used len \<longleftrightarrow> eo_max_bytes_per_worker opts \<noteq> 0 \<and>
     (len > eo_max_bytes_per_worker opts \<or> used > eo_max_bytes_per_worker opts - len)"

definition take_partition :: "physical_plan \<Rightarrow> executor_options \<Rightarrow> nat \<Rightarrow> bool \<Rightarrow> bool \<Rightarrow> local_execution \<Rightarrow> local_execution" where
  "take_partition plan opts i lock_ok cancel x =
     (if \<not> lock_ok then set_pc i (Exited False) x
      else if ex_next x \<ge> pl_count plan \<or> (ex_failed x \<and> eo_fail_fast opts) then set_pc i (Exited True) x
      else if eo_cancel opts \<and> cancel then
        set_pc i (Exited True) (x\<lparr>ex_report := (ex_report x)\<lparr>er_cancelled := True\<rparr>, ex_failed := True, ex_first_error := MILENA_ERR_INTERNAL\<rparr>)
      else
        let index = ex_next x; x = x\<lparr>ex_next := ex_next x + 1\<rparr>; len = pt_length (plan_table plan ! index)
        in if over_budget opts (ex_bytes x ! i) len
           then set_pc i (Exited True) (x\<lparr>ex_failed := True, ex_first_error := MILENA_ERR_OVERFLOW\<rparr>)
           else set_pc i (In_callback index)
             (x\<lparr>ex_bytes := (ex_bytes x)[i := ex_bytes x ! i + len],
                ex_report := (ex_report x)\<lparr>er_bytes_assigned := er_bytes_assigned (ex_report x) + len\<rparr>,
                ex_calls := ex_calls x @ [(index, i)]\<rparr>))"

text \<open>The callback answers: a status, and the code it left in the worker's error record.\<close>

definition callback_returns :: "nat \<Rightarrow> nat \<Rightarrow> MilenaStatus \<Rightarrow> MilenaStatus \<Rightarrow> local_execution \<Rightarrow> local_execution" where
  "callback_returns i index status err x = set_pc i (Back index status err) (x\<lparr>ex_returns := ex_returns x @ [(index, status)]\<rparr>)"

text \<open>The second critical section.\<close>

definition report_partition :: "nat \<Rightarrow> MilenaStatus \<Rightarrow> MilenaStatus \<Rightarrow> bool \<Rightarrow> local_execution \<Rightarrow> local_execution" where
  "report_partition i status err lock_ok x =
     (if \<not> lock_ok then set_pc i (Exited False) x
      else if status \<noteq> MILENA_OK then
        set_pc i At_top (x\<lparr>ex_failed := True, ex_first_error := (if ex_first_error x = MILENA_OK then err else ex_first_error x),
          ex_report := (ex_report x)\<lparr>er_failed := er_failed (ex_report x) + 1\<rparr>\<rparr>)
      else set_pc i At_top (x\<lparr>ex_report := (ex_report x)\<lparr>er_completed := er_completed (ex_report x) + 1\<rparr>\<rparr>))"

text \<open>The end of \<open>milena_partition_execute_local\<close>: \<open>created\<close> threads have been joined.\<close>

definition execution_status :: "nat \<Rightarrow> local_execution \<Rightarrow> MilenaStatus" where
  "execution_status created x =
     (if created \<noteq> er_workers_used (ex_report x) then MILENA_ERR_INTERNAL
      else if ex_failed x then (if er_cancelled (ex_report x) then MILENA_ERR_INTERNAL else MILENA_ERR_DATA)
      else MILENA_OK)"

definition execution_error :: "nat \<Rightarrow> local_execution \<Rightarrow> MilenaStatus" where
  "execution_error created x =
     (if created = er_workers_used (ex_report x) \<and> ex_failed x
      then (if ex_first_error x \<noteq> MILENA_OK then ex_first_error x else MILENA_ERR_DATA)
      else ex_error x)"

text \<open>One step of some thread.\<close>

inductive exec_step :: "physical_plan \<Rightarrow> executor_options \<Rightarrow> bool \<Rightarrow> local_execution \<Rightarrow> local_execution \<Rightarrow> bool"
  for plan opts reliable where
  create: "ex_main x = Creating k \<Longrightarrow> k < er_workers_used (ex_report x) \<Longrightarrow>
     exec_step plan opts reliable x (set_pc k At_top (x\<lparr>ex_main := Creating (k + 1)\<rparr>))"
| create_fails: "ex_main x = Creating k \<Longrightarrow> k < er_workers_used (ex_report x) \<Longrightarrow>
     exec_step plan opts reliable x (x\<lparr>ex_failed := True, ex_error := MILENA_ERR_INTERNAL, ex_main := Joining k\<rparr>)"
| created: "ex_main x = Creating k \<Longrightarrow> k = er_workers_used (ex_report x) \<Longrightarrow>
     exec_step plan opts reliable x (x\<lparr>ex_main := Joining k\<rparr>)"
| joined: "ex_main x = Joining k \<Longrightarrow> (\<forall>i < k. \<exists>b. ex_threads x ! i = Exited b) \<Longrightarrow>
     exec_step plan opts reliable x (x\<lparr>ex_main := Returned (execution_status k x), ex_error := execution_error k x\<rparr>)"
| take_one: "i < length (ex_threads x) \<Longrightarrow> ex_threads x ! i = At_top \<Longrightarrow> (reliable \<Longrightarrow> lock_ok) \<Longrightarrow>
     exec_step plan opts reliable x (take_partition plan opts i lock_ok cancel x)"
| callback: "i < length (ex_threads x) \<Longrightarrow> ex_threads x ! i = In_callback index \<Longrightarrow>
     exec_step plan opts reliable x (callback_returns i index status err x)"
| report: "i < length (ex_threads x) \<Longrightarrow> ex_threads x ! i = Back index status err \<Longrightarrow> (reliable \<Longrightarrow> lock_ok) \<Longrightarrow>
     exec_step plan opts reliable x (report_partition i status err lock_ok x)"

text \<open>
  The beginning: an early return with its status and report, or the state in which the first thread
  is about to be created.
\<close>

definition zero_report :: execution_report where
  "zero_report = \<lparr>er_total = 0, er_completed = 0, er_failed = 0, er_workers_used = 0, er_bytes_assigned = 0,
     er_cancelled = False, er_deterministic_order = False\<rparr>"

definition effective_options :: "executor_options option \<Rightarrow> executor_options" where
  "effective_options requested = (case requested of None \<Rightarrow> milena_partition_executor_options_default | Some opts \<Rightarrow> opts)"

definition initial_report :: "physical_plan \<Rightarrow> executor_options \<Rightarrow> execution_report" where
  "initial_report plan opts = zero_report\<lparr>er_total := pl_count plan,
     er_workers_used := (if pl_count plan = 0 then 0
       else if eo_max_workers opts < pl_count plan then eo_max_workers opts else pl_count plan),
     er_deterministic_order := True\<rparr>"

definition execute_start ::
  "physical_plan option \<Rightarrow> executor_options option \<Rightarrow> bool \<Rightarrow> bool \<Rightarrow> (MilenaStatus \<times> execution_report option) + local_execution"
where
  "execute_start plan requested worker mutex_ok =
     (let opts = effective_options requested
      in if plan = None \<or> \<not> worker \<or> eo_max_workers opts = 0 \<or> eo_max_workers opts > partition_max_count then Inl (MILENA_ERR_ARGUMENT, None)
         else let status = milena_physical_plan_validate plan
              in if status \<noteq> MILENA_OK then Inl (status, None)
                 else let report = initial_report (the plan) opts
                      in if pl_count (the plan) = 0 then Inl (MILENA_OK, Some report)
                         else if \<not> mutex_ok then Inl (MILENA_ERR_INTERNAL, Some report)
                         else Inr \<lparr>ex_report = report, ex_first_error = MILENA_OK, ex_next = 0,
                                   ex_bytes = replicate partition_max_count 0, ex_failed = False, ex_error = MILENA_OK,
                                   ex_threads = replicate (er_workers_used report) Not_created, ex_main = Creating 0,
                                   ex_calls = [], ex_returns = []\<rparr>)"

inductive executes :: "physical_plan \<Rightarrow> executor_options option \<Rightarrow> bool \<Rightarrow> local_execution \<Rightarrow> bool" for plan requested reliable where
  begin_execution: "execute_start (Some plan) requested True True = Inr x \<Longrightarrow> executes plan requested reliable x"
| step: "executes plan requested reliable x \<Longrightarrow> exec_step plan (effective_options requested) reliable x y \<Longrightarrow>
    executes plan requested reliable y"

end
