(* ===== verification/ExecutorProps.thy ===== *)
theory ExecutorProps
  imports PartitionExecutor
begin

text \<open>
  Every interleaving of the partition executor: no partition is handed out twice, budgets hold, and
  a successful run without mutex failures has run every partition; every step brings the end nearer.
\<close>

section \<open>Threads as a multiset\<close>

fun running :: "worker_pc \<Rightarrow> nat list" where
  "running (In_callback k) = [k]"
| "running _ = []"

fun unreported :: "worker_pc \<Rightarrow> (nat \<times> MilenaStatus) list" where
  "unreported (Back k st err) = [(k, st)]"
| "unreported _ = []"

lemma threads_update:
  assumes "i < length ts"
  shows "mset (concat (map f (ts[i := t]))) + mset (f (ts ! i)) = mset (concat (map f ts)) + mset (f t)"
proof -
  have "ts = take i ts @ ts ! i # drop (Suc i) ts" by (rule id_take_nth_drop [OF assms])
  then have "map f ts = map f (take i ts) @ f (ts ! i) # map f (drop (Suc i) ts)" by (metis list.simps(9) map_append)
  moreover have "map f (ts[i := t]) = map f (take i ts) @ f t # map f (drop (Suc i) ts)"
    unfolding upd_conv_take_nth_drop [OF assms] by simp
  ultimately show ?thesis by simp
qed

definition pending :: "local_execution \<Rightarrow> nat multiset" where
  "pending x = mset (concat (map running (ex_threads x)))"

definition reports_due :: "local_execution \<Rightarrow> (nat \<times> MilenaStatus) multiset" where
  "reports_due x = mset (concat (map unreported (ex_threads x)))"

lemma set_pc_fields [simp]:
  "ex_report (set_pc i pc x) = ex_report x" "ex_first_error (set_pc i pc x) = ex_first_error x" "ex_next (set_pc i pc x) = ex_next x"
  "ex_bytes (set_pc i pc x) = ex_bytes x" "ex_failed (set_pc i pc x) = ex_failed x" "ex_error (set_pc i pc x) = ex_error x"
  "ex_main (set_pc i pc x) = ex_main x" "ex_calls (set_pc i pc x) = ex_calls x" "ex_returns (set_pc i pc x) = ex_returns x"
  "ex_threads (set_pc i pc x) = (ex_threads x)[i := pc]"
  by (simp_all add: set_pc_def)

lemma pending_set_pc:
  assumes "i < length (ex_threads x)" and "running (ex_threads x ! i) = []"
  shows "pending (set_pc i pc x) = pending x + mset (running pc)"
  using threads_update [OF assms(1), of running pc] assms(2) by (simp add: pending_def)

lemma reports_set_pc:
  assumes "i < length (ex_threads x)" and "unreported (ex_threads x ! i) = []"
  shows "reports_due (set_pc i pc x) = reports_due x + mset (unreported pc)"
  using threads_update [OF assms(1), of unreported pc] assms(2) by (simp add: reports_due_def)

section \<open>The invariant\<close>

definition bytes_of :: "physical_plan \<Rightarrow> (nat \<times> nat) list \<Rightarrow> nat" where
  "bytes_of plan calls = sum_list (map (\<lambda>c. pt_length (plan_table plan ! fst c)) calls)"

definition bytes_by :: "physical_plan \<Rightarrow> nat \<Rightarrow> (nat \<times> nat) list \<Rightarrow> nat" where
  "bytes_by plan i calls = bytes_of plan (filter (\<lambda>c. snd c = i) calls)"

lemma bytes_of_simps [simp]:
  "bytes_of plan [] = 0" "bytes_of plan (cs @ ds) = bytes_of plan cs + bytes_of plan ds"
  "bytes_of plan [c] = pt_length (plan_table plan ! fst c)"
  "bytes_by plan i [] = 0" "bytes_by plan i (cs @ ds) = bytes_by plan i cs + bytes_by plan i ds"
  "bytes_by plan i [c] = (if snd c = i then pt_length (plan_table plan ! fst c) else 0)"
  by (simp_all add: bytes_of_def bytes_by_def)

definition calls_ok :: "physical_plan \<Rightarrow> executor_options \<Rightarrow> local_execution \<Rightarrow> bool" where
  "calls_ok plan opts x \<longleftrightarrow>
     ex_next x \<le> pl_count plan \<and> distinct (map fst (ex_calls x)) \<and> set (map fst (ex_calls x)) \<subseteq> {..<ex_next x} \<and>
     (\<not> ex_failed x \<longrightarrow> set (map fst (ex_calls x)) = {..<ex_next x}) \<and>
     (\<forall>c \<in> set (ex_calls x). snd c < length (ex_threads x)) \<and>
     length (ex_threads x) \<le> length (ex_bytes x) \<and>
     (\<forall>i < length (ex_threads x). ex_bytes x ! i = bytes_by plan i (ex_calls x) \<and>
        (eo_max_bytes_per_worker opts \<noteq> 0 \<longrightarrow> ex_bytes x ! i \<le> eo_max_bytes_per_worker opts)) \<and>
     er_bytes_assigned (ex_report x) = bytes_of plan (ex_calls x) \<and>
     mset (map fst (ex_calls x)) = mset (map fst (ex_returns x)) + pending x"

definition reports_ok :: "physical_plan \<Rightarrow> bool \<Rightarrow> local_execution \<Rightarrow> bool" where
  "reports_ok plan reliable x \<longleftrightarrow>
     er_completed (ex_report x) + er_failed (ex_report x) + size (reports_due x) \<le> length (ex_returns x) \<and>
     (0 < er_failed (ex_report x) \<longrightarrow> ex_failed x) \<and>
     (reliable \<longrightarrow>
        er_completed (ex_report x) + er_failed (ex_report x) + size (reports_due x) = length (ex_returns x) \<and>
        (\<not> ex_failed x \<longrightarrow> (\<forall>r \<in> set (ex_returns x). snd r = MILENA_OK \<or> r \<in># reports_due x) \<and>
           (\<forall>b. Exited b \<in> set (ex_threads x) \<longrightarrow> ex_next x = pl_count plan)))"

definition main_ok :: "local_execution \<Rightarrow> bool" where
  "main_ok x \<longleftrightarrow>
     length (ex_threads x) = er_workers_used (ex_report x) \<and>
     (case ex_main x of
        Creating k \<Rightarrow> k \<le> length (ex_threads x) \<and> (\<forall>i < length (ex_threads x). ex_threads x ! i = Not_created \<longleftrightarrow> k \<le> i)
      | Joining k \<Rightarrow> k \<le> length (ex_threads x) \<and> (\<forall>i < k. ex_threads x ! i \<noteq> Not_created)
      | Returned st \<Rightarrow> st = MILENA_OK \<longrightarrow> \<not> ex_failed x \<and> (\<forall>t \<in> set (ex_threads x). \<exists>b. t = Exited b))"

lemma distinct_snoc_le: "distinct xs \<Longrightarrow> set xs \<subseteq> {..<n :: nat} \<Longrightarrow> distinct (xs @ [n]) \<and> set (xs @ [n]) \<subseteq> {..<Suc n}"
  by auto

lemma take_calls:
  assumes "calls_ok plan opts x" and i: "i < length (ex_threads x)" "ex_threads x ! i = At_top"
  shows "calls_ok plan opts (take_partition plan opts i lock_ok cancel x)"
proof -
  have p: "pending (set_pc i pc y) = pending x + mset (running pc)" if "ex_threads y = ex_threads x" for pc y
    using pending_set_pc [of i y pc] that i by (simp add: pending_def)
  consider "\<not> lock_ok \<or> ex_next x \<ge> pl_count plan \<or> ex_failed x \<and> eo_fail_fast opts \<or> eo_cancel opts \<and> cancel"
    | "lock_ok" "ex_next x < pl_count plan" "\<not> (ex_failed x \<and> eo_fail_fast opts)" "\<not> (eo_cancel opts \<and> cancel)" by linarith
  then show ?thesis
  proof cases
    case 1
    then show ?thesis using assms(1) p by (auto simp: take_partition_def calls_ok_def)
  next
    case 2
    define len where "len = pt_length (plan_table plan ! ex_next x)"
    have e: "(ex_failed x \<and> eo_fail_fast opts) = False" "(eo_cancel opts \<and> cancel) = False" "(pl_count plan \<le> ex_next x) = False"
      "(\<not> lock_ok) = False" using 2 by auto
    show ?thesis
    proof (cases "over_budget opts (ex_bytes x ! i) len")
      case True
      then have "take_partition plan opts i lock_ok cancel x =
        set_pc i (Exited True) (x\<lparr>ex_next := ex_next x + 1, ex_failed := True, ex_first_error := MILENA_ERR_OVERFLOW\<rparr>)"
        unfolding take_partition_def e Let_def by (simp add: len_def)
      then show ?thesis using assms(1) p 2(2) by (auto simp: calls_ok_def)
    next
      case False
      define y where "y = x\<lparr>ex_next := ex_next x + 1, ex_bytes := (ex_bytes x)[i := ex_bytes x ! i + len],
        ex_report := (ex_report x)\<lparr>er_bytes_assigned := er_bytes_assigned (ex_report x) + len\<rparr>, ex_calls := ex_calls x @ [(ex_next x, i)]\<rparr>"
      have t: "take_partition plan opts i lock_ok cancel x = set_pc i (In_callback (ex_next x)) y"
        using False unfolding take_partition_def e Let_def by (simp add: len_def y_def)
      have b: "eo_max_bytes_per_worker opts \<noteq> 0 \<Longrightarrow> ex_bytes x ! i + len \<le> eo_max_bytes_per_worker opts"
        using False by (auto simp: over_budget_def)
      have d: "distinct (map fst (ex_calls x) @ [ex_next x])" "set (map fst (ex_calls x) @ [ex_next x]) \<subseteq> {..<Suc (ex_next x)}"
        "\<not> ex_failed x \<longrightarrow> set (map fst (ex_calls x) @ [ex_next x]) = {..<Suc (ex_next x)}"
        using assms(1) by (auto simp: calls_ok_def)
      have by': "ex_bytes y ! j = bytes_by plan j (ex_calls y) \<and>
          (eo_max_bytes_per_worker opts \<noteq> 0 \<longrightarrow> ex_bytes y ! j \<le> eo_max_bytes_per_worker opts)" if j: "j < length (ex_threads x)" for j
        using assms(1) b i j by (cases "j = i") (auto simp: calls_ok_def y_def len_def)
      show ?thesis
        unfolding t calls_ok_def
      proof (intro conjI)
        have ly: "length (ex_threads y) = length (ex_threads x)" by (simp add: y_def)
        have m: "map fst (ex_calls (set_pc i (In_callback (ex_next x)) y)) = map fst (ex_calls x) @ [ex_next x]" by (simp add: y_def)
        show "distinct (map fst (ex_calls (set_pc i (In_callback (ex_next x)) y)))"
          "set (map fst (ex_calls (set_pc i (In_callback (ex_next x)) y))) \<subseteq> {..<ex_next (set_pc i (In_callback (ex_next x)) y)}"
          "\<not> ex_failed (set_pc i (In_callback (ex_next x)) y) \<longrightarrow>
            set (map fst (ex_calls (set_pc i (In_callback (ex_next x)) y))) = {..<ex_next (set_pc i (In_callback (ex_next x)) y)}"
          unfolding m using d by (simp_all add: y_def)
        show "\<forall>j < length (ex_threads (set_pc i (In_callback (ex_next x)) y)).
          ex_bytes (set_pc i (In_callback (ex_next x)) y) ! j = bytes_by plan j (ex_calls (set_pc i (In_callback (ex_next x)) y)) \<and>
          (eo_max_bytes_per_worker opts \<noteq> 0 \<longrightarrow> ex_bytes (set_pc i (In_callback (ex_next x)) y) ! j \<le> eo_max_bytes_per_worker opts)"
          unfolding set_pc_fields length_list_update ly using by' by blast
        have "mset (map fst (ex_calls x)) = mset (map fst (ex_returns x)) + pending x" using assms(1) by (simp add: calls_ok_def)
        then show "mset (map fst (ex_calls (set_pc i (In_callback (ex_next x)) y))) =
          mset (map fst (ex_returns (set_pc i (In_callback (ex_next x)) y))) + pending (set_pc i (In_callback (ex_next x)) y)"
          unfolding m using p [of y] by (simp add: y_def)
        show "er_bytes_assigned (ex_report (set_pc i (In_callback (ex_next x)) y)) = bytes_of plan (ex_calls (set_pc i (In_callback (ex_next x)) y))"
          using assms(1) by (simp add: y_def calls_ok_def len_def)
      qed (use assms(1) i 2(2) in \<open>auto simp: calls_ok_def y_def\<close>)
    qed
  qed
qed

lemma callback_calls:
  assumes "calls_ok plan opts x" and i: "i < length (ex_threads x)" "ex_threads x ! i = In_callback k"
  shows "calls_ok plan opts (callback_returns i k status err x)"
proof -
  have "pending (callback_returns i k status err x) + {#k#} = pending x"
    using threads_update [OF i(1), of running "Back k status err"] i(2) by (simp add: pending_def callback_returns_def)
  then have "mset (map fst (ex_returns x @ [(k, status)])) + pending (callback_returns i k status err x) = mset (map fst (ex_returns x)) + pending x"
    by (metis add.assoc add.commute fst_conv list.simps(8,9) map_append mset.simps mset_append)
  then show ?thesis using assms(1) by (auto simp: calls_ok_def callback_returns_def)
qed

lemma report_calls:
  assumes "calls_ok plan opts x" and i: "i < length (ex_threads x)" "ex_threads x ! i = Back k status err"
  shows "calls_ok plan opts (report_partition i status err lock_ok x)"
proof -
  have p: "pending (set_pc i pc y) = pending x + mset (running pc)" if "ex_threads y = ex_threads x" for pc y
    using pending_set_pc [of i y pc] that i by (simp add: pending_def)
  show ?thesis using assms(1) p by (auto simp: report_partition_def calls_ok_def)
qed

section \<open>Reports\<close>

lemma take_threads: "ex_threads (take_partition plan opts i lock_ok cancel x) =
    (ex_threads x)[i := (if ex_calls (take_partition plan opts i lock_ok cancel x) = ex_calls x then Exited lock_ok else In_callback (ex_next x))]"
  by (simp add: take_partition_def Let_def)

lemma take_report: "er_completed (ex_report (take_partition plan opts i lock_ok cancel x)) = er_completed (ex_report x)"
  "er_failed (ex_report (take_partition plan opts i lock_ok cancel x)) = er_failed (ex_report x)"
  "er_workers_used (ex_report (take_partition plan opts i lock_ok cancel x)) = er_workers_used (ex_report x)"
  "ex_returns (take_partition plan opts i lock_ok cancel x) = ex_returns x" "ex_main (take_partition plan opts i lock_ok cancel x) = ex_main x"
  "ex_failed x \<Longrightarrow> ex_failed (take_partition plan opts i lock_ok cancel x)"
  by (simp_all add: take_partition_def Let_def)

lemma take_reports:
  assumes "reports_ok plan reliable x" and i: "i < length (ex_threads x)" "ex_threads x ! i = At_top" and "reliable \<Longrightarrow> lock_ok"
    and "ex_next x \<le> pl_count plan"
  shows "reports_ok plan reliable (take_partition plan opts i lock_ok cancel x)"
proof -
  let ?y = "take_partition plan opts i lock_ok cancel x"
  have r: "reports_due ?y = reports_due x"
    using threads_update [OF i(1), of unreported] i(2) by (simp add: reports_due_def take_threads)
  have "ex_next ?y = pl_count plan" if rel: "reliable" and f: "\<not> ex_failed ?y" and e: "Exited b \<in> set (ex_threads ?y)" for b
  proof -
    have nf: "\<not> ex_failed x" using f take_report(6) by blast
    have lock: "lock_ok" using rel assms(4) by blast
    consider "Exited b \<in> set (ex_threads x)" | "ex_threads ?y = (ex_threads x)[i := Exited lock_ok]"
      using e unfolding take_threads by (auto dest!: set_update_subset_insert [THEN subsetD] split: if_splits)
    then show ?thesis
    proof cases
      case 1
      then have "ex_next x = pl_count plan" using assms(1) rel nf unfolding reports_ok_def by blast
      then show ?thesis by (simp add: take_partition_def)
    next
      case 2
      then have "(ex_threads x)[i := Exited lock_ok] ! i = (ex_threads x)[i := (if ex_calls ?y = ex_calls x then Exited lock_ok else In_callback (ex_next x))] ! i"
        by (simp only: take_threads)
      then have "ex_calls ?y = ex_calls x" using i(1) by (simp split: if_splits)
      then have "pl_count plan \<le> ex_next x" using f nf lock by (auto simp: take_partition_def Let_def split: if_splits)
      then show ?thesis using assms(5) by (simp add: take_partition_def)
    qed
  qed
  then show ?thesis using assms(1) take_report(6) by (auto simp: reports_ok_def take_report r)
qed

lemma callback_reports:
  assumes "reports_ok plan reliable x" and i: "i < length (ex_threads x)" "ex_threads x ! i = In_callback k"
  shows "reports_ok plan reliable (callback_returns i k status err x)"
proof -
  have r: "reports_due (callback_returns i k status err x) = reports_due x + {#(k, status)#}"
    using threads_update [OF i(1), of unreported "Back k status err"] i(2) by (simp add: reports_due_def callback_returns_def)
  have "Exited b \<in> set (ex_threads (callback_returns i k status err x)) \<Longrightarrow> Exited b \<in> set (ex_threads x)" for b
    by (auto simp: callback_returns_def dest!: set_update_subset_insert [THEN subsetD])
  then show ?thesis using assms(1) r by (auto simp: reports_ok_def callback_returns_def)
qed

lemma report_reports:
  assumes "reports_ok plan reliable x" and i: "i < length (ex_threads x)" "ex_threads x ! i = Back k status err" and "reliable \<Longrightarrow> lock_ok"
  shows "reports_ok plan reliable (report_partition i status err lock_ok x)"
proof -
  let ?y = "report_partition i status err lock_ok x"
  have t: "ex_threads ?y = (ex_threads x)[i := (if lock_ok then At_top else Exited False)]" by (simp add: report_partition_def)
  have r: "reports_due ?y + {#(k, status)#} = reports_due x"
    using threads_update [OF i(1), of unreported "if lock_ok then At_top else Exited False"] i(2) by (simp add: reports_due_def t)
  then have size: "size (reports_due x) = Suc (size (reports_due ?y))" by (metis size_add_mset add_mset_add_single)
  have ex: "Exited b \<in> set (ex_threads x)" if "lock_ok" "Exited b \<in> set (ex_threads ?y)" for b
    using that unfolding t by (auto dest!: set_update_subset_insert [THEN subsetD])
  show ?thesis
  proof (cases "lock_ok")
    case False
    then have "\<not> reliable" using assms(4) by blast
    then show ?thesis using assms(1) size False by (simp add: reports_ok_def report_partition_def)
  next
    case True
    have bad: "status \<noteq> MILENA_OK \<Longrightarrow> ex_failed ?y" using True by (simp add: report_partition_def)
    have due: "snd q = MILENA_OK \<or> q \<in># reports_due ?y" if "snd q = MILENA_OK \<or> q \<in># reports_due x" "\<not> ex_failed ?y" for q
      using that bad r by (metis UnE set_mset_union set_mset_single singletonD snd_conv)
    have f: "ex_next ?y = ex_next x" "ex_returns ?y = ex_returns x" "ex_failed x \<Longrightarrow> ex_failed ?y"
      "er_completed (ex_report ?y) + er_failed (ex_report ?y) = Suc (er_completed (ex_report x) + er_failed (ex_report x))"
      "0 < er_failed (ex_report ?y) \<Longrightarrow> ex_failed ?y \<or> 0 < er_failed (ex_report x)"
      using True by (cases "status = MILENA_OK"; simp add: report_partition_def)+
    have fin: "ex_next x = pl_count plan" if "reliable" "\<not> ex_failed ?y" "Exited b \<in> set (ex_threads ?y)" for b
      using assms(1) that ex [OF True that(3)] f(3) unfolding reports_ok_def by blast
    show ?thesis
      unfolding reports_ok_def f(1,2,4)
    proof (intro conjI impI allI ballI)
      show "Suc (er_completed (ex_report x) + er_failed (ex_report x)) + size (reports_due ?y) \<le> length (ex_returns x)"
        using assms(1) size by (simp add: reports_ok_def)
      show "reliable \<Longrightarrow> Suc (er_completed (ex_report x) + er_failed (ex_report x)) + size (reports_due ?y) = length (ex_returns x)"
        using assms(1) size by (simp add: reports_ok_def)
      show "0 < er_failed (ex_report ?y) \<Longrightarrow> ex_failed ?y" using f(3,5) assms(1) by (auto simp: reports_ok_def)
      show "reliable \<Longrightarrow> \<not> ex_failed ?y \<Longrightarrow> q \<in> set (ex_returns x) \<Longrightarrow> snd q = MILENA_OK \<or> q \<in># reports_due ?y" for q
        using assms(1) f(3) due [of q] unfolding reports_ok_def by blast
      show "reliable \<Longrightarrow> \<not> ex_failed ?y \<Longrightarrow> Exited b \<in> set (ex_threads ?y) \<Longrightarrow> ex_next x = pl_count plan" for b by (rule fin)
    qed
  qed
qed

section \<open>All steps\<close>

definition exec_ok :: "physical_plan \<Rightarrow> executor_options \<Rightarrow> bool \<Rightarrow> local_execution \<Rightarrow> bool" where
  "exec_ok plan opts reliable x \<longleftrightarrow> calls_ok plan opts x \<and> reports_ok plan reliable x \<and> main_ok x \<and> 0 < pl_count plan \<and>
     0 < er_workers_used (ex_report x) \<and> er_total (ex_report x) = pl_count plan"

lemma not_exited_main:
  assumes "main_ok x" and "i < length (ex_threads x)" and "\<forall>b. ex_threads x ! i \<noteq> Exited b"
  shows "ex_main x \<noteq> Returned MILENA_OK"
proof
  assume "ex_main x = Returned MILENA_OK"
  then have "\<forall>t \<in> set (ex_threads x). \<exists>b. t = Exited b" using assms(1) by (simp add: main_ok_def)
  then show False using nth_mem [OF assms(2)] assms(3) by blast
qed

lemma main_thread_step:
  assumes "main_ok x" and i: "i < length (ex_threads x)" "\<forall>b. ex_threads x ! i \<noteq> Exited b" "pc \<noteq> Not_created" "ex_threads x ! i \<noteq> Not_created"
    and y: "ex_threads y = (ex_threads x)[i := pc]" "ex_main y = ex_main x" "er_workers_used (ex_report y) = er_workers_used (ex_report x)"
  shows "main_ok y"
proof -
  have "ex_main x \<noteq> Returned MILENA_OK" using not_exited_main [OF assms(1) i(1,2)] .
  moreover have "ex_threads y ! j = Not_created \<longleftrightarrow> ex_threads x ! j = Not_created" for j
    using i by (cases "j = i") (simp_all add: y(1))
  ultimately show ?thesis using assms(1) y by (auto simp: main_ok_def split: main_pc.splits)
qed

lemma exec_okI:
  assumes "exec_ok plan opts reliable x" and "calls_ok plan opts y" and "reports_ok plan reliable y" and "main_ok y"
    and "er_total (ex_report y) = er_total (ex_report x)" and "er_workers_used (ex_report y) = er_workers_used (ex_report x)"
  shows "exec_ok plan opts reliable y"
  using assms by (simp add: exec_ok_def)

lemma main_calls: "calls_ok plan opts x \<Longrightarrow> calls_ok plan opts (x\<lparr>ex_main := m\<rparr>)"
  "calls_ok plan opts x \<Longrightarrow> calls_ok plan opts (x\<lparr>ex_main := m, ex_error := e\<rparr>)"
  "calls_ok plan opts x \<Longrightarrow> calls_ok plan opts (x\<lparr>ex_failed := True, ex_error := e, ex_main := m\<rparr>)"
  by (auto simp: calls_ok_def pending_def)

lemma main_reports: "reports_ok plan reliable x \<Longrightarrow> reports_ok plan reliable (x\<lparr>ex_main := m\<rparr>)"
  "reports_ok plan reliable x \<Longrightarrow> reports_ok plan reliable (x\<lparr>ex_main := m, ex_error := e\<rparr>)"
  "reports_ok plan reliable x \<Longrightarrow> reports_ok plan reliable (x\<lparr>ex_failed := True, ex_error := e, ex_main := m\<rparr>)"
  by (auto simp: reports_ok_def reports_due_def)

lemma start_calls:
  assumes "calls_ok plan opts x" and "k < length (ex_threads x)" and "ex_threads x ! k = Not_created"
  shows "calls_ok plan opts (set_pc k At_top (x\<lparr>ex_main := m\<rparr>))"
proof -
  have "pending (set_pc k At_top (x\<lparr>ex_main := m\<rparr>)) = pending x"
    using pending_set_pc [of k "x\<lparr>ex_main := m\<rparr>" At_top] assms(2,3) by (simp add: pending_def)
  then show ?thesis using assms(1) by (auto simp: calls_ok_def)
qed

lemma start_reports:
  assumes "reports_ok plan reliable x" and "k < length (ex_threads x)" and "ex_threads x ! k = Not_created"
  shows "reports_ok plan reliable (set_pc k At_top (x\<lparr>ex_main := m\<rparr>))"
proof -
  have "reports_due (set_pc k At_top (x\<lparr>ex_main := m\<rparr>)) = reports_due x"
    using reports_set_pc [of k "x\<lparr>ex_main := m\<rparr>" At_top] assms(2,3) by (simp add: reports_due_def)
  moreover have "Exited b \<in> set (ex_threads (set_pc k At_top (x\<lparr>ex_main := m\<rparr>))) \<Longrightarrow> Exited b \<in> set (ex_threads x)" for b
    by (auto dest!: set_update_subset_insert [THEN subsetD])
  ultimately show ?thesis using assms(1) by (auto simp: reports_ok_def)
qed

lemma exec_step_ok:
  assumes "exec_step plan opts reliable x y" and "exec_ok plan opts reliable x"
  shows "exec_ok plan opts reliable y"
  using assms
proof (induction rule: exec_step.induct)
  case (create x k)
  then have k: "k < length (ex_threads x)" "ex_threads x ! k = Not_created" by (auto simp: exec_ok_def main_ok_def)
  have "main_ok (set_pc k At_top (x\<lparr>ex_main := Creating (k + 1)\<rparr>))"
    using create k by (auto simp: exec_ok_def main_ok_def nth_list_update_if)
  then show ?case using create start_calls [OF _ k] start_reports [OF _ k] by (simp add: exec_ok_def)
next
  case (create_fails x k)
  then show ?case using main_calls(3) main_reports(3) by (auto simp: exec_ok_def main_ok_def)
next
  case (created x k)
  then show ?case using main_calls(1) main_reports(1) by (auto simp: exec_ok_def main_ok_def)
next
  case (joined x k)
  have "main_ok (x\<lparr>ex_main := Returned (execution_status k x), ex_error := execution_error k x\<rparr>)"
    using joined by (auto simp: exec_ok_def main_ok_def execution_status_def in_set_conv_nth split: if_splits)
  then show ?case using joined main_calls(2) main_reports(2) by (simp add: exec_ok_def)
next
  case (take_one i x lock_ok cancel)
  let ?y = "take_partition plan opts i lock_ok cancel x"
  have "main_ok ?y"
    using take_one by (intro main_thread_step [OF _ _ _ _ _ take_threads]) (auto simp: exec_ok_def take_report)
  moreover have "er_total (ex_report ?y) = er_total (ex_report x)" by (simp add: take_partition_def Let_def)
  moreover have "reports_ok plan reliable ?y"
    using take_one by (intro take_reports) (auto simp: exec_ok_def calls_ok_def)
  moreover have "calls_ok plan opts ?y" using take_one by (intro take_calls) (auto simp: exec_ok_def)
  ultimately show ?case using take_report(3) by (intro exec_okI [OF take_one(4)])
next
  case (callback i x k status err)
  have m: "main_ok x" using callback(3) by (simp add: exec_ok_def)
  have "main_ok (callback_returns i k status err x)"
    by (rule main_thread_step [OF m callback(1), of "Back k status err"]) (simp_all add: callback(2) callback_returns_def)
  moreover have "calls_ok plan opts (callback_returns i k status err x)"
    using callback by (intro callback_calls) (auto simp: exec_ok_def)
  moreover have "reports_ok plan reliable (callback_returns i k status err x)"
    using callback by (intro callback_reports) (auto simp: exec_ok_def)
  ultimately show ?case by (intro exec_okI [OF callback(3)]) (simp_all add: callback_returns_def)
next
  case (report i x k status err lock_ok)
  let ?y = "report_partition i status err lock_ok x"
  have m: "main_ok x" using report(4) by (simp add: exec_ok_def)
  have "main_ok ?y"
    by (rule main_thread_step [OF m report(1), of "if lock_ok then At_top else Exited False"]) (simp_all add: report(2) report_partition_def)
  moreover have "er_total (ex_report ?y) = er_total (ex_report x)" "er_workers_used (ex_report ?y) = er_workers_used (ex_report x)"
    by (simp_all add: report_partition_def)
  moreover have "calls_ok plan opts ?y" using report by (intro report_calls) (auto simp: exec_ok_def)
  moreover have "reports_ok plan reliable ?y" using report by (intro report_reports) (auto simp: exec_ok_def)
  ultimately show ?case by (intro exec_okI [OF report(4)])
qed

lemma executes_ok:
  assumes "executes plan requested reliable x"
  shows "exec_ok plan (effective_options requested) reliable x"
  using assms
proof (induction rule: executes.induct)
  case (begin_execution x)
  let ?W = "er_workers_used (initial_report plan (effective_options requested))"
  have g: "eo_max_workers (effective_options requested) \<noteq> 0" "eo_max_workers (effective_options requested) \<le> partition_max_count"
    "pl_count plan \<noteq> 0"
    "x = \<lparr>ex_report = initial_report plan (effective_options requested), ex_first_error = MILENA_OK, ex_next = 0,
       ex_bytes = replicate partition_max_count 0, ex_failed = False, ex_error = MILENA_OK,
       ex_threads = replicate ?W Not_created, ex_main = Creating 0, ex_calls = [], ex_returns = []\<rparr>"
    using begin_execution by (auto simp: execute_start_def Let_def split: if_splits)
  have w: "?W \<le> partition_max_count" "0 < ?W" using g(1-3) by (auto simp: initial_report_def)
  have "concat (map f (replicate ?W Not_created)) = []" if "f Not_created = []" for f :: "worker_pc \<Rightarrow> 'b list"
    using that by simp
  then have "pending x = {#}" "reports_due x = {#}" by (simp_all add: pending_def reports_due_def g(4))
  then show ?case
    using w g(3) by (simp add: exec_ok_def calls_ok_def reports_ok_def main_ok_def g(4) initial_report_def zero_report_def)
next
  case (step x y)
  then show ?case using exec_step_ok by blast
qed

section \<open>Progress\<close>

fun pc_weight :: "worker_pc \<Rightarrow> nat" where
  "pc_weight Not_created = 2"
| "pc_weight At_top = 1"
| "pc_weight (In_callback k) = 3"
| "pc_weight (Back k st err) = 2"
| "pc_weight (Exited b) = 0"

fun main_weight :: "nat \<Rightarrow> main_pc \<Rightarrow> nat" where
  "main_weight n (Creating k) = n - k + 2"
| "main_weight n (Joining k) = 1"
| "main_weight n (Returned st) = 0"

definition exec_weight :: "physical_plan \<Rightarrow> local_execution \<Rightarrow> nat" where
  "exec_weight plan x = 4 * (pl_count plan - ex_next x) + sum_list (map pc_weight (ex_threads x)) +
     main_weight (er_workers_used (ex_report x)) (ex_main x)"

lemma threads_weight_update:
  assumes "i < length ts"
  shows "sum_list (map pc_weight (ts[i := t])) + pc_weight (ts ! i) = sum_list (map pc_weight ts) + pc_weight t"
proof -
  have "ts = take i ts @ ts ! i # drop (Suc i) ts" by (rule id_take_nth_drop [OF assms])
  then have "sum_list (map pc_weight ts) = sum_list (map pc_weight (take i ts)) + (pc_weight (ts ! i) + sum_list (map pc_weight (drop (Suc i) ts)))"
    by (metis list.simps(9) map_append sum_list.Cons sum_list_append)
  then show ?thesis unfolding upd_conv_take_nth_drop [OF assms] by simp
qed

lemma exec_step_weight:
  assumes "exec_step plan opts reliable x y" and "exec_ok plan opts reliable x"
  shows "exec_weight plan y < exec_weight plan x"
  using assms
proof (induction rule: exec_step.induct)
  case (create x k)
  then have k: "k < length (ex_threads x)" "ex_threads x ! k = Not_created" by (auto simp: exec_ok_def main_ok_def)
  then show ?case using create threads_weight_update [of k "ex_threads x" At_top] by (simp add: exec_weight_def)
next
  case (take_one i x lock_ok cancel)
  show ?case
  proof (cases "ex_calls (take_partition plan opts i lock_ok cancel x) = ex_calls x")
    case True
    then show ?thesis using take_one threads_weight_update [of i "ex_threads x" "Exited lock_ok"]
      by (simp add: exec_weight_def take_threads take_report) (auto simp: take_partition_def Let_def)
  next
    case False
    then have "ex_next x < pl_count plan" "ex_next (take_partition plan opts i lock_ok cancel x) = ex_next x + 1"
      by (auto simp: take_partition_def Let_def split: if_splits)
    then show ?thesis using False take_one threads_weight_update [of i "ex_threads x" "In_callback (ex_next x)"]
      by (simp add: exec_weight_def take_threads take_report)
  qed
next
  case (callback i x k status err)
  then show ?case using threads_weight_update [of i "ex_threads x" "Back k status err"] by (simp add: exec_weight_def callback_returns_def)
next
  case (report i x k status err lock_ok)
  then show ?case using threads_weight_update [of i "ex_threads x" "if lock_ok then At_top else Exited False"]
    by (simp add: exec_weight_def report_partition_def split: if_splits)
qed (simp_all add: exec_weight_def)

lemma exec_progress:
  assumes "exec_ok plan opts reliable x" and "\<nexists>st. ex_main x = Returned st"
  shows "\<exists>y. exec_step plan opts reliable x y"
proof (cases "ex_main x")
  case (Creating k)
  then have "k \<le> er_workers_used (ex_report x)" using assms(1) by (simp add: exec_ok_def main_ok_def)
  then show ?thesis using exec_step.create [OF Creating] exec_step.created [OF Creating] by (cases "k = er_workers_used (ex_report x)") auto
next
  case (Joining k)
  show ?thesis
  proof (cases "\<forall>i < k. \<exists>b. ex_threads x ! i = Exited b")
    case True
    then show ?thesis using exec_step.joined [OF Joining] by blast
  next
    case False
    then obtain i where i: "i < k" "\<forall>b. ex_threads x ! i \<noteq> Exited b" by blast
    then have l: "i < length (ex_threads x)" "ex_threads x ! i \<noteq> Not_created" using assms(1) Joining by (auto simp: exec_ok_def main_ok_def)
    then show ?thesis
    proof (cases "ex_threads x ! i")
      case At_top
      then show ?thesis using exec_step.take_one [OF l(1), of reliable True] by blast
    next
      case (In_callback k)
      then show ?thesis using exec_step.callback [OF l(1)] by blast
    next
      case (Back k st err)
      then show ?thesis using exec_step.report [OF l(1) Back, of reliable True] by blast
    qed (use l i in auto)
  qed
next
  case (Returned st)
  then show ?thesis using assms(2) by blast
qed

end
