(* ===== verification/ExecutorRuns.thy ===== *)
theory ExecutorRuns
  imports ExecutorProps
begin

text \<open>The properties of whole executions.\<close>

section \<open>The end of an execution\<close>

lemma covers_sum: "covers ps a b \<Longrightarrow> sum_list (map pt_length ps) = b - a"
proof (induction ps arbitrary: a)
  case (Cons p ps)
  then have "sum_list (map pt_length ps) = b - (a + pt_length p)" "a + pt_length p \<le> b" using covers_le [of ps "a + pt_length p" b] by auto
  then show ?case by simp
qed simp

lemma valid_plan_sum:
  assumes "milena_physical_plan_validate (Some plan) = MILENA_OK"
  shows "sum_list (map pt_length (plan_table plan)) = pl_input_bytes plan"
proof -
  have "validate_partitions (pl_target_bytes plan) 0 0 (plan_table plan) = Some (pl_input_bytes plan)"
    using assms by (auto simp: milena_physical_plan_validate_def split: if_splits option.splits)
  then have "covers (plan_table plan) 0 (pl_input_bytes plan)" using validate_covers [of 0] by simp
  then show ?thesis using covers_sum by fastforce
qed

lemma bytes_of_mset: "bytes_of plan calls = sum_mset (image_mset (\<lambda>k. pt_length (plan_table plan ! k)) (mset (map fst calls)))"
  by (induction calls) (simp_all add: bytes_of_def)

lemma sum_table: "sum_mset (image_mset (\<lambda>k. pt_length (ps ! k)) (mset_set {..<length ps})) = sum_list (map pt_length ps)"
proof -
  have "mset_set {..<length ps} = mset [0..<length ps]" by (simp add: mset_upt atLeast0LessThan)
  then have "sum_mset (image_mset (\<lambda>k. pt_length (ps ! k)) (mset_set {..<length ps})) = sum_list (map (\<lambda>k. pt_length (ps ! k)) [0..<length ps])"
    by (metis mset_map sum_mset_sum_list)
  then show ?thesis by (metis (no_types, lifting) map_equality_iff map_nth length_map length_upt nth_map nth_upt add_0 diff_zero list.map_comp comp_def map_cong)
qed

lemma executes_valid: "executes plan requested reliable x \<Longrightarrow> milena_physical_plan_validate (Some plan) = MILENA_OK"
  by (induction rule: executes.induct) (auto simp: execute_start_def Let_def split: if_splits)

lemma distinct_mset_set: "distinct xs \<Longrightarrow> mset xs = mset_set (set xs)"
  by (simp add: mset_set_set)

lemma calls_bytes_le:
  assumes "distinct (map fst calls)" and "set (map fst calls) \<subseteq> {..<length (plan_table plan)}"
  shows "bytes_of plan calls \<le> sum_list (map pt_length (plan_table plan))"
proof -
  have "mset (map fst calls) = mset_set (set (map fst calls))" by (rule distinct_mset_set [OF assms(1)])
  also have "\<dots> \<subseteq># mset_set {..<length (plan_table plan)}" using assms(2) by (intro subset_imp_msubset_mset_set) simp_all
  finally obtain r where "mset_set {..<length (plan_table plan)} = mset (map fst calls) + r" by (metis subset_mset.le_iff_add)
  then show ?thesis unfolding bytes_of_mset sum_table [symmetric] by simp
qed

lemma threads_exited:
  assumes "\<forall>t \<in> set ts. \<exists>b. t = Exited b"
  shows "concat (map running ts) = [] \<and> concat (map unreported ts) = []"
  using assms by (induction ts) auto

text \<open>
  C10.  When the mutex works and the execution reports success, whatever the interleaving: every
  partition was handed to the callback exactly once and the callback succeeded on it, the report
  counts them all as completed, and the bytes assigned are those of the source.
\<close>

theorem execution_complete:
  assumes "executes plan requested True x" and "ex_main x = Returned MILENA_OK" and "length (plan_table plan) = pl_count plan"
  shows "mset (map fst (ex_calls x)) = mset [0..<pl_count plan] \<and> mset (map fst (ex_returns x)) = mset [0..<pl_count plan] \<and>
    list_all (\<lambda>r. snd r = MILENA_OK) (ex_returns x) \<and> er_completed (ex_report x) = er_total (ex_report x) \<and>
    er_failed (ex_report x) = 0 \<and> er_bytes_assigned (ex_report x) = pl_input_bytes plan"
proof -
  have ok: "calls_ok plan (effective_options requested) x" "reports_ok plan True x" "main_ok x" "0 < er_workers_used (ex_report x)"
    "er_total (ex_report x) = pl_count plan"
    using executes_ok [OF assms(1)] by (simp_all add: exec_ok_def)
  have fin: "\<not> ex_failed x" "\<forall>t \<in> set (ex_threads x). \<exists>b. t = Exited b" "ex_threads x \<noteq> []"
    using ok(3,4) assms(2) by (auto simp: main_ok_def)
  obtain b where b: "Exited b \<in> set (ex_threads x)" using fin(2,3) by (metis list.set_sel(1))
  have n: "ex_next x = pl_count plan" using ok(2) fin(1) b by (auto simp: reports_ok_def)
  have none: "pending x = {#}" "reports_due x = {#}" using threads_exited [OF fin(2)] by (simp_all add: pending_def reports_due_def)
  have calls: "mset (map fst (ex_calls x)) = mset_set {..<pl_count plan}"
    using ok(1) fin(1) n distinct_mset_set [of "map fst (ex_calls x)"] by (simp add: calls_ok_def)
  have upt: "mset_set {..<pl_count plan} = mset [0..<pl_count plan]" by (simp add: mset_upt atLeast0LessThan)
  have returns: "mset (map fst (ex_returns x)) = mset (map fst (ex_calls x))" using ok(1) none by (simp add: calls_ok_def)
  then have len: "length (ex_returns x) = pl_count plan" using calls by (metis length_map size_mset size_mset_set card_lessThan)
  have "er_failed (ex_report x) = 0" "er_completed (ex_report x) + er_failed (ex_report x) = pl_count plan"
    "list_all (\<lambda>r. snd r = MILENA_OK) (ex_returns x)"
    using ok(2) fin(1) none len by (auto simp: reports_ok_def list_all_iff)
  moreover have "er_bytes_assigned (ex_report x) = bytes_of plan (ex_calls x)" using ok(1) by (simp add: calls_ok_def)
  moreover have "bytes_of plan (ex_calls x) = pl_input_bytes plan"
    unfolding bytes_of_mset calls
    using sum_table [of "plan_table plan"] assms(3) valid_plan_sum [OF executes_valid [OF assms(1)]] by simp
  ultimately show ?thesis using calls returns upt ok(5) by simp
qed

text \<open>
  C17.  At every moment of every execution, even when threads and mutexes fail: no partition was
  handed out twice, no worker is beyond its byte budget, no more bytes are assigned than the source
  has, and the report never counts more partitions than were handed out.
\<close>

theorem execution_safe:
  assumes "executes plan requested reliable x" and "length (plan_table plan) = pl_count plan"
  shows "distinct (map fst (ex_calls x)) \<and> set (map fst (ex_calls x)) \<subseteq> {..<pl_count plan} \<and>
    (eo_max_bytes_per_worker (effective_options requested) \<noteq> 0 \<longrightarrow>
       (\<forall>i < length (ex_threads x). bytes_by plan i (ex_calls x) \<le> eo_max_bytes_per_worker (effective_options requested))) \<and>
    er_bytes_assigned (ex_report x) \<le> pl_input_bytes plan \<and>
    er_completed (ex_report x) + er_failed (ex_report x) \<le> length (ex_calls x)"
proof -
  have ok: "calls_ok plan (effective_options requested) x" "reports_ok plan reliable x"
    using executes_ok [OF assms(1)] by (simp_all add: exec_ok_def)
  have d: "distinct (map fst (ex_calls x))" "set (map fst (ex_calls x)) \<subseteq> {..<pl_count plan}" using ok(1) by (auto simp: calls_ok_def)
  have "mset (map fst (ex_calls x)) = mset (map fst (ex_returns x)) + pending x" using ok(1) by (simp add: calls_ok_def)
  then have "length (ex_returns x) \<le> length (ex_calls x)" by (metis length_map size_mset size_union le_add1)
  moreover have "bytes_of plan (ex_calls x) \<le> pl_input_bytes plan"
    using calls_bytes_le [OF d(1), of plan] d(2) assms(2) valid_plan_sum [OF executes_valid [OF assms(1)]] by simp
  ultimately show ?thesis using ok d by (auto simp: calls_ok_def reports_ok_def)
qed

text \<open>
  C16.  An execution ends: it has at most four steps per partition and three per worker besides two
  of the caller, and as long as it has not returned some thread can step, provided the callback
  answers.
\<close>

theorem execution_terminates:
  assumes "execute_start (Some plan) requested True True = Inr x" and "(exec_step plan (effective_options requested) reliable ^^ m) x y"
  shows "m \<le> 4 * pl_count plan + 3 * er_workers_used (ex_report x) + 2 \<and>
    ((\<exists>st. ex_main y = Returned st) \<or> (\<exists>z. exec_step plan (effective_options requested) reliable y z))"
proof -
  have x: "executes plan requested reliable x" by (rule executes.begin_execution [OF assms(1)])
  have run: "executes plan requested reliable y \<and> m + exec_weight plan y \<le> exec_weight plan x"
    using assms(2)
  proof (induction m arbitrary: y)
    case 0
    then show ?case using x by simp
  next
    case (Suc m)
    then obtain z where z: "(exec_step plan (effective_options requested) reliable ^^ m) x z" "exec_step plan (effective_options requested) reliable z y"
      by auto
    have "executes plan requested reliable z \<and> m + exec_weight plan z \<le> exec_weight plan x" by (rule Suc.IH [OF z(1)])
    then show ?case using z(2) exec_step_weight [OF z(2)] executes_ok [of plan requested reliable z] executes.step [OF _ z(2)] by fastforce
  qed
  have "exec_weight plan x = 4 * pl_count plan + 3 * er_workers_used (ex_report x) + 2"
    using assms(1) by (auto simp: execute_start_def Let_def exec_weight_def sum_list_replicate split: if_splits)
  then show ?thesis using run exec_progress executes_ok by fastforce
qed

text \<open>
  C18.  Once a failure is recorded in a fail-fast execution, no partition is handed out any more,
  however the execution goes on.
\<close>

theorem execution_fail_fast:
  assumes "(exec_step plan opts reliable)\<^sup>*\<^sup>* x y" and "ex_failed x" and "eo_fail_fast opts"
  shows "ex_failed y \<and> ex_calls y = ex_calls x"
  using assms
proof (induction rule: rtranclp_induct)
  case (step y z)
  then have "ex_failed y" "ex_calls y = ex_calls x" by simp_all
  with step(2) show ?case
    using assms(3) by (induction rule: exec_step.induct) (auto simp: take_partition_def callback_returns_def report_partition_def)
qed simp

section \<open>Witnesses and a lost partition\<close>

text \<open>A source of five bytes in one partition, run by one worker.\<close>

definition one_plan :: physical_plan where
  "one_plan = \<lparr>pl_input_bytes = 5, pl_target_bytes = 8, pl_count = 1, pl_partitions = Some [\<lparr>pt_id = 0, pt_offset = 0, pt_length = 5\<rparr>]\<rparr>"

definition one_start :: local_execution where
  "one_start = \<lparr>ex_report = zero_report\<lparr>er_total := 1, er_workers_used := 1, er_deterministic_order := True\<rparr>, ex_first_error = MILENA_OK,
     ex_next = 0, ex_bytes = replicate partition_max_count 0, ex_failed = False, ex_error = MILENA_OK,
     ex_threads = [Not_created], ex_main = Creating 0, ex_calls = [], ex_returns = []\<rparr>"

lemma one_begin: "execute_start (Some one_plan) None True True = Inr one_start"
  by (simp add: execute_start_def effective_options_def milena_partition_executor_options_default_def Let_def partition_max_count_def
      milena_physical_plan_validate_def one_plan_def plan_table_def milena_size_add_def size_max_def initial_report_def one_start_def)

lemma one_table: "length (plan_table one_plan) = pl_count one_plan"
  by (simp add: plan_table_def one_plan_def)

text \<open>The worker is created, the caller waits, the worker takes the partition and the callback answers \<open>st\<close>.\<close>

definition one_back :: "MilenaStatus \<Rightarrow> local_execution" where
  "one_back st = one_start\<lparr>ex_main := Joining 1, ex_next := 1, ex_bytes := (replicate partition_max_count 0)[0 := 5],
     ex_report := zero_report\<lparr>er_total := 1, er_workers_used := 1, er_deterministic_order := True, er_bytes_assigned := 5\<rparr>,
     ex_calls := [(0, 0)], ex_returns := [(0, st)], ex_threads := [Back 0 st st]\<rparr>"

lemma one_executes: "executes one_plan None reliable (one_back st)"
proof -
  let ?ex = "executes one_plan None reliable"
  let ?opts = "effective_options None"
  have opts: "?opts = milena_partition_executor_options_default" by (simp add: effective_options_def)
  note step = executes.step [where plan = one_plan and requested = None and reliable = reliable]
  have "?ex one_start" by (rule executes.begin_execution [OF one_begin])
  then have "?ex (set_pc 0 At_top (one_start\<lparr>ex_main := Creating (0 + 1)\<rparr>))"
    by (rule step) (rule exec_step.create; simp add: one_start_def)
  then have "?ex ((set_pc 0 At_top (one_start\<lparr>ex_main := Creating (0 + 1)\<rparr>))\<lparr>ex_main := Joining 1\<rparr>)"
    by (rule step) (rule exec_step.created; simp add: one_start_def set_pc_def)
  then have "?ex (take_partition one_plan ?opts 0 True False ((set_pc 0 At_top (one_start\<lparr>ex_main := Creating (0 + 1)\<rparr>))\<lparr>ex_main := Joining 1\<rparr>))"
    by (rule step) (rule exec_step.take_one; simp add: one_start_def set_pc_def)
  moreover have t: "take_partition one_plan ?opts 0 True False ((set_pc 0 At_top (one_start\<lparr>ex_main := Creating (0 + 1)\<rparr>))\<lparr>ex_main := Joining 1\<rparr>) =
    one_start\<lparr>ex_main := Joining 1, ex_next := 1, ex_bytes := (replicate partition_max_count 0)[0 := 5],
     ex_report := zero_report\<lparr>er_total := 1, er_workers_used := 1, er_deterministic_order := True, er_bytes_assigned := 5\<rparr>,
     ex_calls := [(0, 0)], ex_threads := [In_callback 0]\<rparr>" (is "_ = ?t")
    by (simp add: opts Let_def set_pc_def one_start_def take_partition_def one_plan_def plan_table_def over_budget_def
      milena_partition_executor_options_default_def zero_report_def partition_max_count_def)
  ultimately have "?ex ?t" by simp
  then have "?ex (callback_returns 0 0 st st ?t)"
    by (rule step) (rule exec_step.callback; simp)
  then show ?thesis by (simp add: callback_returns_def set_pc_def one_back_def one_start_def)
qed

lemma one_success:
  "\<exists>x. executes one_plan None True x \<and> ex_main x = Returned MILENA_OK"
proof -
  let ?ex = "executes one_plan None True"
  note step = executes.step [where plan = one_plan and requested = None and reliable = True]
  define x where "x = report_partition 0 MILENA_OK MILENA_OK True (one_back MILENA_OK)"
  have x: "?ex x" unfolding x_def
    by (rule step [OF one_executes]) (rule exec_step.report [where lock_ok = True]; simp add: one_back_def one_start_def)
  define y where "y = take_partition one_plan (effective_options None) 0 True False x"
  have y: "?ex y" unfolding y_def
    by (rule step [OF x]) (rule exec_step.take_one [where lock_ok = True]; simp add: x_def report_partition_def one_back_def one_start_def)
  have y': "ex_main y = Joining 1" "ex_threads y = [Exited True]" "er_workers_used (ex_report y) = 1" "\<not> ex_failed y"
    by (simp_all add: y_def x_def report_partition_def take_partition_def one_back_def one_start_def zero_report_def one_plan_def set_pc_def)
  have "?ex (y\<lparr>ex_main := Returned (execution_status 1 y), ex_error := execution_error 1 y\<rparr>)"
    by (rule step [OF y]) (rule exec_step.joined; use y' in \<open>auto simp: ex_bool_eq\<close>)
  then show ?thesis using y' by (auto simp: execution_status_def)
qed

lemma execution_complete_witness:
  "\<exists>x. executes one_plan None True x \<and> ex_main x = Returned MILENA_OK \<and> mset (map fst (ex_calls x)) = {#0#} \<and> er_bytes_assigned (ex_report x) = 5"
proof -
  obtain x where x: "executes one_plan None True x" "ex_main x = Returned MILENA_OK" using one_success by blast
  then show ?thesis using execution_complete [OF x one_table] by (auto simp: one_plan_def)
qed

lemma execution_safe_witness:
  "executes one_plan None False (one_back MILENA_ERR_DATA) \<and> distinct (map fst (ex_calls (one_back MILENA_ERR_DATA))) \<and>
    er_bytes_assigned (ex_report (one_back MILENA_ERR_DATA)) \<le> 5"
  using execution_safe [OF one_executes one_table, of MILENA_ERR_DATA] one_executes by (simp add: one_plan_def)

lemma execution_terminates_witness:
  "(exec_step one_plan (effective_options None) True ^^ 0) one_start one_start \<and> (\<exists>z. exec_step one_plan (effective_options None) True one_start z)"
proof -
  have z: "(exec_step one_plan (effective_options None) True ^^ 0) one_start one_start" by simp
  from execution_terminates [OF one_begin z] show ?thesis by (auto simp: one_start_def)
qed

lemma execution_fail_fast_witness:
  "\<exists>y. (exec_step one_plan milena_partition_executor_options_default True)\<^sup>*\<^sup>* (one_back MILENA_OK\<lparr>ex_failed := True\<rparr>) y \<and> ex_calls y = [(0, 0)]"
proof -
  have "(exec_step one_plan milena_partition_executor_options_default True)\<^sup>*\<^sup>* (one_back MILENA_OK\<lparr>ex_failed := True\<rparr>)
    (report_partition 0 MILENA_OK MILENA_OK True (one_back MILENA_OK\<lparr>ex_failed := True\<rparr>))"
    by (rule r_into_rtranclp, rule exec_step.report; simp add: one_back_def one_start_def)
  with execution_fail_fast [OF this] show ?thesis
    by (intro exI [of _ "report_partition 0 MILENA_OK MILENA_OK True (one_back MILENA_OK\<lparr>ex_failed := True\<rparr>)"])
      (simp add: one_back_def milena_partition_executor_options_default_def)
qed

text \<open>
  A worker whose second \<open>mtx_lock\<close> fails leaves with -1, and nobody reads what a thread returns, so
  an execution may report success although a partition failed: this run of one partition does.
\<close>

lemma execution_lost_partition:
  "\<exists>x. executes one_plan None False x \<and> ex_main x = Returned MILENA_OK \<and> ex_returns x = [(0, MILENA_ERR_DATA)] \<and>
    er_completed (ex_report x) = 0 \<and> er_failed (ex_report x) = 0"
proof -
  note step = executes.step [where plan = one_plan and requested = None and reliable = False]
  define x where "x = report_partition 0 MILENA_ERR_DATA MILENA_ERR_DATA False (one_back MILENA_ERR_DATA)"
  have x: "executes one_plan None False x" unfolding x_def
    by (rule step [OF one_executes]) (rule exec_step.report [where lock_ok = False]; simp add: one_back_def one_start_def)
  have x': "ex_main x = Joining 1" "ex_threads x = [Exited False]" "er_workers_used (ex_report x) = 1" "\<not> ex_failed x"
    "ex_returns x = [(0, MILENA_ERR_DATA)]" "er_completed (ex_report x) = 0" "er_failed (ex_report x) = 0"
    by (simp_all add: x_def report_partition_def one_back_def one_start_def zero_report_def set_pc_def)
  have "executes one_plan None False (x\<lparr>ex_main := Returned (execution_status 1 x), ex_error := execution_error 1 x\<rparr>)"
    by (rule step [OF x]) (rule exec_step.joined; use x' in \<open>auto simp: ex_bool_eq\<close>)
  then show ?thesis using x' by (intro exI [of _ "x\<lparr>ex_main := Returned (execution_status 1 x), ex_error := execution_error 1 x\<rparr>"])
    (simp add: execution_status_def)
qed

end
