(* ===== verification/TypedIR.thy ===== *)
theory TypedIR
  imports Common
begin

text \<open>
  The typed IR of typed_ir.h and its builder, the first part of canonical_ir.c: instructions, basic
  blocks, block parameters and the arguments that edges pass to them.

  An array is its list of entries with the capacity of its allocation; a capacity of zero stands for
  a null pointer, which is what the builder and the bytecode reader keep.  An enum holds one of its
  enumerators.  The borrowed \<open>module_context\<close> of a body is not part of a program: whatever
  reads through it takes the signatures of its functions as an argument.
\<close>

section \<open>Data\<close>

datatype ir_opcode =
    MILENA_IR_CONST_I64 | MILENA_IR_CONST_F64 | MILENA_IR_ADD_I64 | MILENA_IR_ADD_F64 | MILENA_IR_EQ_I64
  | MILENA_IR_BRANCH | MILENA_IR_COND_BRANCH | MILENA_IR_RETURN | MILENA_IR_CONST_BOOL
  | MILENA_IR_SUB_F64 | MILENA_IR_MUL_F64 | MILENA_IR_DIV_F64
  | MILENA_IR_EQ_F64 | MILENA_IR_NE_F64 | MILENA_IR_LT_F64 | MILENA_IR_LE_F64 | MILENA_IR_GT_F64 | MILENA_IR_GE_F64
  | MILENA_IR_CALL | MILENA_IR_OPCODE_COUNT

datatype ir_type =
    MILENA_IR_TYPE_INVALID | MILENA_IR_TYPE_I64 | MILENA_IR_TYPE_F64 | MILENA_IR_TYPE_BOOL | MILENA_IR_TYPE_VOID

text \<open>The types a value can have: beyond \<open>INVALID\<close> and below \<open>VOID\<close>.\<close>

definition ir_value_type :: "ir_type \<Rightarrow> bool" where
  "ir_value_type t \<longleftrightarrow> t \<noteq> MILENA_IR_TYPE_INVALID \<and> t \<noteq> MILENA_IR_TYPE_VOID"

record ir_span =
  sp_line :: u64
  sp_column :: u64
  sp_end_line :: u64
  sp_end_column :: u64
  sp_start_offset :: u64
  sp_end_offset :: u64
  sp_has_source_span :: bool

definition empty_span :: ir_span where
  "empty_span = \<lparr>sp_line = 0, sp_column = 0, sp_end_line = 0, sp_end_column = 0, sp_start_offset = 0, sp_end_offset = 0,
     sp_has_source_span = False\<rparr>"

record ir_instruction =
  in_opcode :: ir_opcode
  in_result_type :: ir_type
  in_result_id :: u32
  in_operand1_id :: u32
  in_operand2_id :: u32
  in_call_offset :: nat
  in_call_count :: nat
  in_block_id :: u32
  in_integer :: u64
  in_float :: f64
  in_target_true :: u32
  in_target_false :: u32
  in_span :: ir_span

record ir_block =
  bk_id :: u32
  bk_first :: nat
  bk_count :: nat
  bk_successor_true :: u32
  bk_successor_false :: u32
  bk_terminated :: bool

record ir_parameter =
  pm_block_id :: u32
  pm_value_id :: u32
  pm_type :: ir_type

record ir_edge =
  ed_source :: u32
  ed_target :: u32
  ed_index :: u32
  ed_value :: u32

record ir_signature =
  sg_parameters :: "ir_type list"
  sg_return :: ir_type

record ir_program =
  ip_instructions :: "ir_instruction list"
  ip_capacity :: nat
  ip_call_arguments :: "u32 list"
  ip_call_capacity :: nat
  ip_blocks :: "ir_block list"
  ip_block_capacity :: nat
  ip_parameters :: "ir_parameter list"
  ip_parameter_capacity :: nat
  ip_edges :: "ir_edge list"
  ip_edge_capacity :: nat
  ip_signature :: ir_signature
  ip_has_signature :: bool

text \<open>
  A function of a module; \<open>fn_bound\<close> says that its body's \<open>module_context\<close> is this module
  (otherwise it has none).  Name and body may be null.
\<close>

record ir_function =
  fn_name :: "bytes option"
  fn_symbol :: u32
  fn_parameters :: "ir_type list"
  fn_return :: ir_type
  fn_body :: "ir_program option"
  fn_bound :: bool

type_synonym ir_module = "ir_function list"

section \<open>Building a program\<close>

definition milena_ir_program_create :: ir_program where
  "milena_ir_program_create =
     \<lparr>ip_instructions = [], ip_capacity = 0, ip_call_arguments = [], ip_call_capacity = 0, ip_blocks = [], ip_block_capacity = 0,
      ip_parameters = [], ip_parameter_capacity = 0, ip_edges = [], ip_edge_capacity = 0,
      ip_signature = \<lparr>sg_parameters = [], sg_return = MILENA_IR_TYPE_INVALID\<rparr>, ip_has_signature = False\<rparr>"

text \<open>
  Every operation takes the outcome of the allocations it may ask for, one flag each, and gives the
  program it leaves and what it returns.
\<close>

definition milena_ir_program_set_function_signature ::
  "bool \<Rightarrow> ir_type list \<Rightarrow> ir_type \<Rightarrow> ir_program \<Rightarrow> ir_program \<times> bool"
where
  "milena_ir_program_set_function_signature alloc types ret p =
     (if ip_has_signature p \<or> ip_capacity p \<noteq> 0 \<or> ip_call_capacity p \<noteq> 0 \<or> ip_block_capacity p \<noteq> 0 \<or>
         ip_parameter_capacity p \<noteq> 0 \<or> ip_edge_capacity p \<noteq> 0 \<or> ip_instructions p \<noteq> [] \<or> ip_call_arguments p \<noteq> [] \<or>
         ip_blocks p \<noteq> [] \<or> ip_parameters p \<noteq> [] \<or> ip_edges p \<noteq> [] \<or>
         sg_parameters (ip_signature p) \<noteq> [] \<or> sg_return (ip_signature p) \<noteq> MILENA_IR_TYPE_INVALID \<or>
         length types > size_max div 4 \<or> \<not> ir_value_type ret
      then (p, False)
      else if \<not> list_all ir_value_type types then (p, False)
      else if types \<noteq> [] \<and> \<not> alloc then (p, False)
      else (p\<lparr>ip_signature := \<lparr>sg_parameters = types, sg_return = ret\<rparr>, ip_has_signature := True\<rparr>, True))"

text \<open>Growing an array of \<open>count\<close> entries of \<open>size\<close> bytes by doubling: the new capacity.\<close>

definition ir_grow :: "nat \<Rightarrow> nat \<Rightarrow> bool \<Rightarrow> nat \<Rightarrow> nat \<Rightarrow> nat option" where
  "ir_grow first entry_size alloc count capacity =
     (if count < capacity then Some capacity
      else let grown = (if capacity = 0 then first else (capacity * 2) mod (size_max + 1))
           in if grown < capacity \<or> grown > size_max div entry_size \<or> \<not> alloc then None else Some grown)"

definition sizeof_instruction :: nat where "sizeof_instruction = 128"
definition sizeof_block :: nat where "sizeof_block = 40"
definition sizeof_parameter :: nat where "sizeof_parameter = 12"
definition sizeof_edge :: nat where "sizeof_edge = 16"

definition ir_reserve_instructions :: "bool \<Rightarrow> ir_program \<Rightarrow> nat option" where
  "ir_reserve_instructions alloc p = ir_grow 8 sizeof_instruction alloc (length (ip_instructions p)) (ip_capacity p)"

text \<open>The doubling loop for the call arguments, which starts at a positive capacity.\<close>

function ir_double_until :: "nat \<Rightarrow> nat \<Rightarrow> nat" where
  "ir_double_until required capacity =
     (if capacity \<ge> required \<or> capacity = 0 then capacity
      else if capacity > size_max div 2 then required
      else ir_double_until required (capacity * 2))"
  by pat_completeness auto

termination by (relation "measure (\<lambda>(required, capacity). required - capacity)") auto

declare ir_double_until.simps [simp del]

definition ir_reserve_call_arguments :: "bool \<Rightarrow> nat \<Rightarrow> ir_program \<Rightarrow> nat option" where
  "ir_reserve_call_arguments alloc required p =
     (if required \<le> ip_call_capacity p then Some (ip_call_capacity p)
      else let capacity = ir_double_until required (if ip_call_capacity p = 0 then 8 else ip_call_capacity p)
           in if capacity < required \<or> capacity > size_max div 4 \<or> \<not> alloc then None else Some capacity)"

definition milena_ir_program_add_block :: "bool \<Rightarrow> u32 \<Rightarrow> ir_program \<Rightarrow> ir_program \<times> bool" where
  "milena_ir_program_add_block alloc block_id p =
     (if block_id = 0 \<or> (ip_blocks p \<noteq> [] \<and> \<not> bk_terminated (last (ip_blocks p))) \<or> block_id \<in> set (map bk_id (ip_blocks p))
      then (p, False)
      else case ir_grow 4 sizeof_block alloc (length (ip_blocks p)) (ip_block_capacity p) of
             None \<Rightarrow> (p, False)
           | Some capacity \<Rightarrow>
               (p\<lparr>ip_block_capacity := capacity,
                  ip_blocks := ip_blocks p @ [\<lparr>bk_id = block_id, bk_first = length (ip_instructions p), bk_count = 0,
                    bk_successor_true = 0, bk_successor_false = 0, bk_terminated = False\<rparr>]\<rparr>, True))"

definition milena_ir_program_add_block_parameter ::
  "bool \<Rightarrow> u32 \<Rightarrow> u32 \<Rightarrow> ir_type \<Rightarrow> ir_program \<Rightarrow> ir_program \<times> bool"
where
  "milena_ir_program_add_block_parameter alloc block_id value_id t p =
     (if ip_blocks p = [] \<or> value_id = 0 \<or> \<not> ir_value_type t then (p, False)
      else let block = last (ip_blocks p)
           in if bk_id block \<noteq> block_id \<or> bk_count block \<noteq> 0 \<or> bk_terminated block then (p, False)
              else if (block_id, value_id) \<in> set (map (\<lambda>q. (pm_block_id q, pm_value_id q)) (ip_parameters p)) then (p, False)
              else case ir_grow 4 sizeof_parameter alloc (length (ip_parameters p)) (ip_parameter_capacity p) of
                     None \<Rightarrow> (p, False)
                   | Some capacity \<Rightarrow>
                       (p\<lparr>ip_parameter_capacity := capacity,
                          ip_parameters := ip_parameters p @ [\<lparr>pm_block_id = block_id, pm_value_id = value_id, pm_type = t\<rparr>]\<rparr>, True))"

definition milena_ir_block_add_edge_argument ::
  "bool \<Rightarrow> u32 \<Rightarrow> u32 \<Rightarrow> u32 \<Rightarrow> u32 \<Rightarrow> ir_program \<Rightarrow> ir_program \<times> bool"
where
  "milena_ir_block_add_edge_argument alloc source target index value_id p =
     (if source = 0 \<or> target = 0 \<or> value_id = 0 then (p, False)
      else case ir_grow 8 sizeof_edge alloc (length (ip_edges p)) (ip_edge_capacity p) of
             None \<Rightarrow> (p, False)
           | Some capacity \<Rightarrow>
               (p\<lparr>ip_edge_capacity := capacity,
                  ip_edges := ip_edges p @ [\<lparr>ed_source = source, ed_target = target, ed_index = index, ed_value = value_id\<rparr>]\<rparr>, True))"

definition ir_terminator :: "ir_opcode \<Rightarrow> bool" where
  "ir_terminator opcode \<longleftrightarrow> opcode = MILENA_IR_BRANCH \<or> opcode = MILENA_IR_COND_BRANCH \<or> opcode = MILENA_IR_RETURN"

definition milena_ir_block_append_instruction ::
  "bool \<Rightarrow> u32 \<Rightarrow> ir_opcode \<Rightarrow> u32 \<Rightarrow> ir_type \<Rightarrow> u32 \<Rightarrow> u32 \<Rightarrow> u64 \<Rightarrow> f64 \<Rightarrow> u32 \<Rightarrow> u32 \<Rightarrow> ir_program \<Rightarrow> ir_program \<times> bool"
where
  "milena_ir_block_append_instruction alloc block_id opcode result_id result_type operand1 operand2 integer float
     target_true target_false p =
     (if ip_blocks p = [] then (p, False)
      else let block = last (ip_blocks p)
           in if bk_id block \<noteq> block_id \<or> bk_terminated block \<or> bk_first block + bk_count block \<noteq> length (ip_instructions p)
              then (p, False)
              else case ir_reserve_instructions alloc p of
                     None \<Rightarrow> (p, False)
                   | Some capacity \<Rightarrow>
                       let instruction = \<lparr>in_opcode = opcode, in_result_type = result_type, in_result_id = result_id,
                             in_operand1_id = operand1, in_operand2_id = operand2, in_call_offset = 0, in_call_count = 0,
                             in_block_id = block_id, in_integer = integer, in_float = float,
                             in_target_true = target_true, in_target_false = target_false, in_span = empty_span\<rparr>;
                           counted = block\<lparr>bk_count := bk_count block + 1\<rparr>;
                           ended = (if ir_terminator opcode
                             then counted\<lparr>bk_terminated := True, bk_successor_true := target_true, bk_successor_false := target_false\<rparr>
                             else counted)
                       in (p\<lparr>ip_capacity := capacity, ip_instructions := ip_instructions p @ [instruction],
                             ip_blocks := butlast (ip_blocks p) @ [ended]\<rparr>, True))"

text \<open>
  The three allocations of a call: the copy of its arguments, the argument array, the instruction
  array.  The grown argument array stays when the instruction is refused.
\<close>

definition milena_ir_block_append_call ::
  "bool \<Rightarrow> bool \<Rightarrow> bool \<Rightarrow> u32 \<Rightarrow> u32 \<Rightarrow> ir_type \<Rightarrow> u32 \<Rightarrow> u32 list \<Rightarrow> ir_program \<Rightarrow> ir_program \<times> bool"
where
  "milena_ir_block_append_call alloc_copy alloc_arguments alloc block_id result_id result_type target arguments p =
     (let start = length (ip_call_arguments p); required = start + length arguments
      in if target = 0 \<or> length arguments > size_max div 4 \<or> start > size_max - length arguments \<or>
            ip_call_capacity p < start \<or> ip_call_capacity p > size_max div 4
         then (p, False)
         else if arguments \<noteq> [] \<and> \<not> alloc_copy then (p, False)
         else case ir_reserve_call_arguments alloc_arguments required p of
                None \<Rightarrow> (p, False)
              | Some capacity \<Rightarrow>
                  let p = p\<lparr>ip_call_capacity := capacity\<rparr>
                  in case milena_ir_block_append_instruction alloc block_id MILENA_IR_CALL result_id result_type 0 0
                            (ucast target) 0 0 0 p of
                       (p, False) \<Rightarrow> (p, False)
                     | (p, True) \<Rightarrow>
                         let instruction = (last (ip_instructions p))\<lparr>in_call_offset := start, in_call_count := length arguments\<rparr>
                         in (p\<lparr>ip_call_arguments := ip_call_arguments p @ arguments,
                               ip_instructions := butlast (ip_instructions p) @ [instruction]\<rparr>, True))"

text \<open>The six operations, as steps of a caller.\<close>

inductive ir_build_step :: "ir_program \<Rightarrow> ir_program \<Rightarrow> bool" where
  signature: "milena_ir_program_set_function_signature alloc types ret p = (q, ok) \<Longrightarrow> ir_build_step p q"
| block: "milena_ir_program_add_block alloc block_id p = (q, ok) \<Longrightarrow> ir_build_step p q"
| parameter: "milena_ir_program_add_block_parameter alloc block_id value_id t p = (q, ok) \<Longrightarrow> ir_build_step p q"
| edge: "milena_ir_block_add_edge_argument alloc source target index value_id p = (q, ok) \<Longrightarrow> ir_build_step p q"
| instruction: "milena_ir_block_append_instruction alloc block_id opcode result_id result_type operand1 operand2 integer float
    target_true target_false p = (q, ok) \<Longrightarrow> ir_build_step p q"
| call: "milena_ir_block_append_call alloc_copy alloc_arguments alloc block_id result_id result_type target arguments p = (q, ok) \<Longrightarrow>
    ir_build_step p q"

section \<open>Reading a program\<close>

text \<open>What the validator sees of the functions of a module.\<close>

record ir_callee =
  cl_symbol :: u32
  cl_parameters :: "ir_type list"
  cl_return :: ir_type

definition module_callees :: "ir_module \<Rightarrow> ir_callee list" where
  "module_callees = map (\<lambda>f. \<lparr>cl_symbol = fn_symbol f, cl_parameters = fn_parameters f, cl_return = fn_return f\<rparr>)"

definition ir_module_find_function :: "ir_callee list option \<Rightarrow> u32 \<Rightarrow> ir_callee option" where
  "ir_module_find_function context symbol =
     (case context of None \<Rightarrow> None | Some cs \<Rightarrow> if symbol = 0 then None else find (\<lambda>c. cl_symbol c = symbol) cs)"

text \<open>The index of the first block with an identifier.\<close>

fun find_index :: "('a \<Rightarrow> bool) \<Rightarrow> 'a list \<Rightarrow> nat option" where
  "find_index P [] = None"
| "find_index P (x # xs) = (if P x then Some 0 else map_option Suc (find_index P xs))"

definition ir_find_block_index :: "ir_program \<Rightarrow> u32 \<Rightarrow> nat option" where
  "ir_find_block_index p block_id = find_index (\<lambda>b. bk_id b = block_id) (ip_blocks p)"

text \<open>The 32-bit counter \<open>seen\<close> of the C loop wraps as a word.\<close>

fun nth_parameter :: "u32 \<Rightarrow> u32 \<Rightarrow> u32 \<Rightarrow> ir_parameter list \<Rightarrow> ir_parameter option" where
  "nth_parameter block_id index seen [] = None"
| "nth_parameter block_id index seen (q # qs) =
     (if pm_block_id q = block_id then if seen = index then Some q else nth_parameter block_id index (seen + 1) qs
      else nth_parameter block_id index seen qs)"

definition ir_nth_parameter :: "ir_program \<Rightarrow> u32 \<Rightarrow> u32 \<Rightarrow> ir_parameter option" where
  "ir_nth_parameter p block_id index = nth_parameter block_id index 0 (ip_parameters p)"

definition ir_source_span_valid :: "ir_span \<Rightarrow> bool" where
  "ir_source_span_valid s =
     (if \<not> sp_has_source_span s
      then sp_line s = 0 \<and> sp_column s = 0 \<and> sp_end_line s = 0 \<and> sp_end_column s = 0 \<and> sp_start_offset s = 0 \<and> sp_end_offset s = 0
      else if sp_line s = 0 \<or> sp_column s = 0 \<or> sp_end_line s = 0 \<or> sp_end_column s = 0 \<or> sp_end_line s < sp_line s \<or>
              sp_end_offset s < sp_start_offset s
      then False
      else sp_end_line s \<noteq> sp_line s \<or> sp_end_column s \<ge> sp_column s)"

end
