(* ===== verification/IRValidate.thy ===== *)
theory IRValidate
  imports TypedIR "HOL-Library.While_Combinator"
begin

text \<open>
  The validator of canonical_ir.c: layout of the blocks, definitions and their shapes, reachability,
  dominators, uses, edge arguments; then \<open>milena_ir_module_validate\<close> with its search for recursion.

  The two loops that are bounded by no counter (the reachability queue and the dominator iteration)
  are \<open>while_option\<close>, so a validation gives \<open>None\<close> if it does not return; that it
  always returns is a theorem.  \<open>mem\<close> says which of the allocations succeed: number 0 is the
  group made at the start, the others are the rows of the dominator iteration in order.
\<close>

record ir_validated_value =
  vv_id :: u32
  vv_type :: ir_type
  vv_block :: nat
  vv_instruction :: nat
  vv_parameter :: bool

definition ir_find_value :: "ir_validated_value list \<Rightarrow> u32 \<Rightarrow> ir_validated_value option" where
  "ir_find_value values i = find (\<lambda>v. vv_id v = i) values"

definition ir_add_validated_value :: "nat \<Rightarrow> ir_validated_value \<Rightarrow> ir_validated_value list \<Rightarrow> ir_validated_value list option" where
  "ir_add_validated_value capacity v values =
     (if vv_id v = 0 \<or> \<not> ir_value_type (vv_type v) \<or> length values \<ge> capacity then None
      else if ir_find_value values (vv_id v) \<noteq> None then None
      else Some (values @ [v]))"

definition ir_use_is_valid :: "ir_validated_value list \<Rightarrow> u32 \<Rightarrow> ir_type \<Rightarrow> nat \<Rightarrow> nat \<Rightarrow> bool list list \<Rightarrow> bool" where
  "ir_use_is_valid values i expected use_block use_instruction dominators =
     (case ir_find_value values i of
        None \<Rightarrow> False
      | Some v \<Rightarrow>
          if vv_type v \<noteq> expected then False
          else if vv_block v = use_block then vv_parameter v \<or> vv_instruction v < use_instruction
          else dominators ! use_block ! vv_block v)"

section \<open>Layout\<close>

definition ir_header_ok :: "ir_program \<Rightarrow> bool" where
  "ir_header_ok p \<longleftrightarrow>
     ip_instructions p \<noteq> [] \<and> ip_capacity p \<noteq> 0 \<and> ip_blocks p \<noteq> [] \<and> ip_block_capacity p \<noteq> 0 \<and>
     \<not> (ip_parameters p \<noteq> [] \<and> ip_parameter_capacity p = 0) \<and> \<not> (ip_edges p \<noteq> [] \<and> ip_edge_capacity p = 0) \<and>
     length (ip_call_arguments p) \<le> ip_call_capacity p \<and> ip_call_capacity p \<le> size_max div 4 \<and>
     (if ip_has_signature p then ir_value_type (sg_return (ip_signature p)) \<and> list_all ir_value_type (sg_parameters (ip_signature p))
      else sg_parameters (ip_signature p) = [] \<and> sg_return (ip_signature p) = MILENA_IR_TYPE_INVALID) \<and>
     length (ip_parameters p) \<le> size_max - length (ip_instructions p) \<and>
     length (ip_blocks p) \<le> size_max div length (ip_blocks p)"

text \<open>\<open>prior\<close> holds the identifiers of the earlier blocks; the result is the end of the last block.\<close>

fun ir_blocks_ok :: "nat \<Rightarrow> u32 list \<Rightarrow> nat \<Rightarrow> ir_block list \<Rightarrow> nat option" where
  "ir_blocks_ok count prior expected [] = Some expected"
| "ir_blocks_ok count prior expected (b # bs) =
     (if bk_id b = 0 \<or> bk_first b \<noteq> expected \<or> expected > count \<or> bk_count b = 0 \<or> bk_count b > count - expected \<or> \<not> bk_terminated b
      then None
      else if bk_id b \<in> set prior then None
      else ir_blocks_ok count (prior @ [bk_id b]) (bk_first b + bk_count b) bs)"

section \<open>Definitions\<close>

text \<open>
  The block parameters, in order: the values they define and the number of parameters of the entry
  block.  \<open>prior\<close> holds the earlier parameters.
\<close>

fun ir_collect_parameters ::
  "ir_program \<Rightarrow> nat \<Rightarrow> ir_parameter list \<Rightarrow> nat \<Rightarrow> ir_validated_value list \<Rightarrow> ir_parameter list \<Rightarrow> (ir_validated_value list \<times> nat) option"
where
  "ir_collect_parameters p capacity prior entries values [] = Some (values, entries)"
| "ir_collect_parameters p capacity prior entries values (q # qs) =
     (case ir_find_block_index p (pm_block_id q) of
        None \<Rightarrow> None
      | Some bi \<Rightarrow>
          if \<not> ir_value_type (pm_type q) then None
          else if bi = 0 \<and> (\<not> ip_has_signature p \<or> entries \<ge> length (sg_parameters (ip_signature p)) \<or>
                            pm_type q \<noteq> sg_parameters (ip_signature p) ! entries) then None
          else case ir_add_validated_value capacity
                      \<lparr>vv_id = pm_value_id q, vv_type = pm_type q, vv_block = bi, vv_instruction = 0, vv_parameter = True\<rparr> values of
                 None \<Rightarrow> None
               | Some values \<Rightarrow>
                   if \<exists>r \<in> set prior. pm_block_id r = pm_block_id q \<and> pm_value_id r = pm_value_id q then None
                   else ir_collect_parameters p capacity (prior @ [q]) (if bi = 0 then entries + 1 else entries) values qs)"

definition ir_entry_count_ok :: "ir_program \<Rightarrow> nat \<Rightarrow> bool" where
  "ir_entry_count_ok p entries \<longleftrightarrow>
     \<not> ((ip_has_signature p \<and> entries \<noteq> length (sg_parameters (ip_signature p))) \<or> (\<not> ip_has_signature p \<and> entries \<noteq> 0))"

definition ir_defines :: "ir_opcode \<Rightarrow> bool" where
  "ir_defines opcode \<longleftrightarrow> \<not> ir_terminator opcode \<and> opcode \<noteq> MILENA_IR_OPCODE_COUNT"

definition ir_binary_shape :: "ir_type \<Rightarrow> ir_instruction \<Rightarrow> bool" where
  "ir_binary_shape t ins \<longleftrightarrow> in_result_type ins = t \<and> in_operand1_id ins \<noteq> 0 \<and> in_operand2_id ins \<noteq> 0 \<and> in_integer ins = 0 \<and>
     f_eq (in_float ins) 0 \<and> in_target_true ins = 0 \<and> in_target_false ins = 0"

definition ir_constant_shape :: "ir_type \<Rightarrow> ir_instruction \<Rightarrow> bool" where
  "ir_constant_shape t ins \<longleftrightarrow> in_result_type ins = t \<and> in_operand1_id ins = 0 \<and> in_operand2_id ins = 0 \<and>
     in_target_true ins = 0 \<and> in_target_false ins = 0"

text \<open>The shape of an instruction: operands, types, immediates and targets that its opcode allows.\<close>

fun ir_shape_ok :: "ir_program \<Rightarrow> ir_callee list option \<Rightarrow> bool \<Rightarrow> ir_opcode \<Rightarrow> ir_instruction \<Rightarrow> bool" where
  "ir_shape_ok p context is_last MILENA_IR_CONST_I64 ins \<longleftrightarrow> ir_constant_shape MILENA_IR_TYPE_I64 ins \<and> f_eq (in_float ins) 0"
| "ir_shape_ok p context is_last MILENA_IR_CONST_F64 ins \<longleftrightarrow>
     ir_constant_shape MILENA_IR_TYPE_F64 ins \<and> in_integer ins = 0 \<and> f_finite (in_float ins)"
| "ir_shape_ok p context is_last MILENA_IR_CONST_BOOL ins \<longleftrightarrow>
     ir_constant_shape MILENA_IR_TYPE_BOOL ins \<and> (in_integer ins = 0 \<or> in_integer ins = 1) \<and> f_eq (in_float ins) 0"
| "ir_shape_ok p context is_last MILENA_IR_ADD_I64 ins \<longleftrightarrow> ir_binary_shape MILENA_IR_TYPE_I64 ins"
| "ir_shape_ok p context is_last MILENA_IR_ADD_F64 ins \<longleftrightarrow> ir_binary_shape MILENA_IR_TYPE_F64 ins"
| "ir_shape_ok p context is_last MILENA_IR_SUB_F64 ins \<longleftrightarrow> ir_binary_shape MILENA_IR_TYPE_F64 ins"
| "ir_shape_ok p context is_last MILENA_IR_MUL_F64 ins \<longleftrightarrow> ir_binary_shape MILENA_IR_TYPE_F64 ins"
| "ir_shape_ok p context is_last MILENA_IR_DIV_F64 ins \<longleftrightarrow> ir_binary_shape MILENA_IR_TYPE_F64 ins"
| "ir_shape_ok p context is_last MILENA_IR_EQ_I64 ins \<longleftrightarrow> ir_binary_shape MILENA_IR_TYPE_BOOL ins"
| "ir_shape_ok p context is_last MILENA_IR_EQ_F64 ins \<longleftrightarrow> ir_binary_shape MILENA_IR_TYPE_BOOL ins"
| "ir_shape_ok p context is_last MILENA_IR_NE_F64 ins \<longleftrightarrow> ir_binary_shape MILENA_IR_TYPE_BOOL ins"
| "ir_shape_ok p context is_last MILENA_IR_LT_F64 ins \<longleftrightarrow> ir_binary_shape MILENA_IR_TYPE_BOOL ins"
| "ir_shape_ok p context is_last MILENA_IR_LE_F64 ins \<longleftrightarrow> ir_binary_shape MILENA_IR_TYPE_BOOL ins"
| "ir_shape_ok p context is_last MILENA_IR_GT_F64 ins \<longleftrightarrow> ir_binary_shape MILENA_IR_TYPE_BOOL ins"
| "ir_shape_ok p context is_last MILENA_IR_GE_F64 ins \<longleftrightarrow> ir_binary_shape MILENA_IR_TYPE_BOOL ins"
| "ir_shape_ok p context is_last MILENA_IR_CALL ins \<longleftrightarrow>
     context \<noteq> None \<and> in_integer ins \<noteq> 0 \<and> sint (in_integer ins) \<le> int uint32_max \<and> in_operand1_id ins = 0 \<and> in_operand2_id ins = 0 \<and>
     in_target_true ins = 0 \<and> in_target_false ins = 0 \<and> f_eq (in_float ins) 0 \<and>
     in_call_offset ins \<le> length (ip_call_arguments p) \<and> in_call_count ins \<le> length (ip_call_arguments p) - in_call_offset ins"
| "ir_shape_ok p context is_last MILENA_IR_BRANCH ins \<longleftrightarrow>
     is_last \<and> in_result_id ins = 0 \<and> in_result_type ins = MILENA_IR_TYPE_VOID \<and> in_operand1_id ins = 0 \<and> in_operand2_id ins = 0 \<and>
     in_integer ins = 0 \<and> f_eq (in_float ins) 0 \<and> in_target_true ins \<noteq> 0 \<and> in_target_false ins = 0"
| "ir_shape_ok p context is_last MILENA_IR_COND_BRANCH ins \<longleftrightarrow>
     is_last \<and> in_result_id ins = 0 \<and> in_result_type ins = MILENA_IR_TYPE_VOID \<and> in_operand1_id ins \<noteq> 0 \<and> in_operand2_id ins = 0 \<and>
     in_integer ins = 0 \<and> f_eq (in_float ins) 0 \<and> in_target_true ins \<noteq> 0 \<and> in_target_false ins \<noteq> 0"
| "ir_shape_ok p context is_last MILENA_IR_RETURN ins \<longleftrightarrow>
     is_last \<and> in_result_id ins = 0 \<and> in_operand2_id ins = 0 \<and> in_integer ins = 0 \<and> f_eq (in_float ins) 0 \<and>
     in_target_true ins = 0 \<and> in_target_false ins = 0 \<and> in_result_type ins \<noteq> MILENA_IR_TYPE_INVALID \<and>
     \<not> (in_operand1_id ins = 0 \<and> in_result_type ins \<noteq> MILENA_IR_TYPE_VOID) \<and>
     \<not> (in_operand1_id ins \<noteq> 0 \<and> in_result_type ins = MILENA_IR_TYPE_VOID) \<and>
     \<not> (ip_has_signature p \<and> in_result_type ins \<noteq> sg_return (ip_signature p))"
| "ir_shape_ok p context is_last MILENA_IR_OPCODE_COUNT ins \<longleftrightarrow> False"

definition ir_instruction_shape :: "ir_program \<Rightarrow> ir_callee list option \<Rightarrow> ir_block \<Rightarrow> bool \<Rightarrow> ir_instruction \<Rightarrow> bool" where
  "ir_instruction_shape p context block is_last ins \<longleftrightarrow>
     in_block_id ins = bk_id block \<and> in_opcode ins \<noteq> MILENA_IR_OPCODE_COUNT \<and> ir_source_span_valid (in_span ins) \<and>
     \<not> (in_opcode ins \<noteq> MILENA_IR_CALL \<and> (in_call_offset ins \<noteq> 0 \<or> in_call_count ins \<noteq> 0)) \<and>
     ir_shape_ok p context is_last (in_opcode ins) ins \<and> is_last = ir_terminator (in_opcode ins)"

text \<open>The instructions \<open>ii\<close> up to \<open>end\<close> of block \<open>bi\<close>, then every block.\<close>

fun ir_collect_block ::
  "ir_program \<Rightarrow> ir_callee list option \<Rightarrow> nat \<Rightarrow> nat \<Rightarrow> ir_block \<Rightarrow> nat \<Rightarrow> ir_instruction list \<Rightarrow> ir_validated_value list \<Rightarrow>
     ir_validated_value list option"
where
  "ir_collect_block p context capacity bi block ii [] values = Some values"
| "ir_collect_block p context capacity bi block ii (ins # rest) values =
     (if \<not> ir_instruction_shape p context block (rest = []) ins then None
      else if ir_defines (in_opcode ins)
           then (case ir_add_validated_value capacity
                        \<lparr>vv_id = in_result_id ins, vv_type = in_result_type ins, vv_block = bi, vv_instruction = ii, vv_parameter = False\<rparr> values of
                   None \<Rightarrow> None
                 | Some values \<Rightarrow> ir_collect_block p context capacity bi block (ii + 1) rest values)
           else ir_collect_block p context capacity bi block (ii + 1) rest values)"

definition block_instructions :: "ir_program \<Rightarrow> ir_block \<Rightarrow> ir_instruction list" where
  "block_instructions p block = take (bk_count block) (drop (bk_first block) (ip_instructions p))"

definition ir_successors_agree :: "ir_program \<Rightarrow> ir_block \<Rightarrow> bool" where
  "ir_successors_agree p block \<longleftrightarrow>
     (let term = ip_instructions p ! (bk_first block + bk_count block - 1)
      in bk_successor_true block = in_target_true term \<and> bk_successor_false block = in_target_false term)"

fun ir_collect_blocks ::
  "ir_program \<Rightarrow> ir_callee list option \<Rightarrow> nat \<Rightarrow> nat \<Rightarrow> ir_block list \<Rightarrow> ir_validated_value list \<Rightarrow> ir_validated_value list option"
where
  "ir_collect_blocks p context capacity bi [] values = Some values"
| "ir_collect_blocks p context capacity bi (b # bs) values =
     (case ir_collect_block p context capacity bi b (bk_first b) (block_instructions p b) values of
        None \<Rightarrow> None
      | Some values \<Rightarrow> if \<not> ir_successors_agree p b then None else ir_collect_blocks p context capacity (bi + 1) bs values)"

section \<open>Reachability and dominators\<close>

definition ir_targets_exist :: "ir_program \<Rightarrow> bool" where
  "ir_targets_exist p \<longleftrightarrow> list_all (\<lambda>b. \<not> ((bk_successor_true b \<noteq> 0 \<and> ir_find_block_index p (bk_successor_true b) = None) \<or>
      (bk_successor_false b \<noteq> 0 \<and> ir_find_block_index p (bk_successor_false b) = None))) (ip_blocks p)"

text \<open>
  The targets of a block that the C loops visit: both successors, the second only when it differs.
  A target is a block by the test above; an index beyond the blocks cannot occur.
\<close>

definition block_targets :: "ir_block \<Rightarrow> u32 list" where
  "block_targets b = (if bk_successor_true b = 0 then [] else [bk_successor_true b]) @
     (if bk_successor_false b = 0 \<or> bk_successor_false b = bk_successor_true b then [] else [bk_successor_false b])"

definition ir_mark :: "ir_program \<Rightarrow> u32 \<Rightarrow> bool list \<times> nat list \<Rightarrow> bool list \<times> nat list" where
  "ir_mark p target = (\<lambda>(reachable, queue). case ir_find_block_index p target of
       None \<Rightarrow> (reachable, queue)
     | Some ti \<Rightarrow> if reachable ! ti then (reachable, queue) else (reachable[ti := True], queue @ [ti]))"

definition ir_visit :: "ir_program \<Rightarrow> bool list \<times> nat list \<Rightarrow> bool list \<times> nat list" where
  "ir_visit p = (\<lambda>(reachable, queue). fold (ir_mark p) (block_targets (ip_blocks p ! hd queue)) (reachable, tl queue))"

definition ir_reachable :: "ir_program \<Rightarrow> bool list option" where
  "ir_reachable p = map_option fst (while_option (\<lambda>(reachable, queue). queue \<noteq> []) (ir_visit p)
     ((replicate (length (ip_blocks p)) False)[0 := True], [0]))"

text \<open>The r of a block from the rows of its predecessors, in layout order.\<close>

definition ir_predecessor :: "ir_program \<Rightarrow> nat \<Rightarrow> nat \<Rightarrow> bool" where
  "ir_predecessor p bi pi \<longleftrightarrow> bk_successor_true (ip_blocks p ! pi) = bk_id (ip_blocks p ! bi) \<or>
     bk_successor_false (ip_blocks p ! pi) = bk_id (ip_blocks p ! bi)"

fun ir_intersect :: "bool list list \<Rightarrow> nat list \<Rightarrow> bool list option \<Rightarrow> bool list option" where
  "ir_intersect rows [] next = next"
| "ir_intersect rows (q # qs) None = ir_intersect rows qs (Some (rows ! q))"
| "ir_intersect rows (q # qs) (Some r) = ir_intersect rows qs (Some (map2 (\<and>) r (rows ! q)))"

definition ir_next_row :: "ir_program \<Rightarrow> bool list list \<Rightarrow> nat \<Rightarrow> bool list option" where
  "ir_next_row p rows bi =
     map_option (\<lambda>r. r[bi := True]) (ir_intersect rows (filter (ir_predecessor p bi) [0..<length (ip_blocks p)]) None)"

text \<open>One pass over the blocks after the entry; the state is the rows, \<open>changed\<close> and the number of the next allocation.\<close>

type_synonym dominator_state = "bool list list \<times> bool \<times> nat"

fun ir_dominator_pass :: "ir_program \<Rightarrow> (nat \<Rightarrow> bool) \<Rightarrow> nat list \<Rightarrow> dominator_state \<Rightarrow> dominator_state option" where
  "ir_dominator_pass p mem [] st = Some st"
| "ir_dominator_pass p mem (bi # bis) (rows, changed, k) =
     (if \<not> mem k then None
      else case ir_next_row p rows bi of
             None \<Rightarrow> None
           | Some r \<Rightarrow>
               ir_dominator_pass p mem bis
                 (if rows ! bi \<noteq> r then (rows[bi := r], True, k + 1) else (rows, changed, k + 1)))"

text \<open>
  The iteration: \<open>None\<close> inside is a rejection, which also ends the loop.  The first row is the
  entry block alone, the others start with every block.
\<close>

definition ir_first_rows :: "ir_program \<Rightarrow> bool list list" where
  "ir_first_rows p = (let n = length (ip_blocks p) in (replicate n False)[0 := True] # replicate (n - 1) (replicate n True))"

definition ir_dominator_round :: "ir_program \<Rightarrow> (nat \<Rightarrow> bool) \<Rightarrow> dominator_state option \<Rightarrow> dominator_state option" where
  "ir_dominator_round p mem st =
     (case st of None \<Rightarrow> None | Some (rows, changed, k) \<Rightarrow> ir_dominator_pass p mem [1..<length (ip_blocks p)] (rows, False, k))"

definition round_changed :: "dominator_state option \<Rightarrow> bool" where
  "round_changed st \<longleftrightarrow> (case st of None \<Rightarrow> False | Some (rows, changed, k) \<Rightarrow> changed)"

definition ir_dominators :: "ir_program \<Rightarrow> (nat \<Rightarrow> bool) \<Rightarrow> bool list list option option" where
  "ir_dominators p mem = map_option (map_option fst)
     (while_option round_changed (ir_dominator_round p mem) (Some (ir_first_rows p, True, 1)))"

section \<open>Uses\<close>

definition ir_operand_type :: "ir_instruction \<Rightarrow> ir_type" where
  "ir_operand_type ins =
     (if in_opcode ins = MILENA_IR_ADD_I64 \<or> in_opcode ins = MILENA_IR_EQ_I64 then MILENA_IR_TYPE_I64
      else if in_opcode ins \<in> {MILENA_IR_ADD_F64, MILENA_IR_SUB_F64, MILENA_IR_MUL_F64, MILENA_IR_DIV_F64, MILENA_IR_EQ_F64,
                MILENA_IR_NE_F64, MILENA_IR_LT_F64, MILENA_IR_LE_F64, MILENA_IR_GT_F64, MILENA_IR_GE_F64}
      then MILENA_IR_TYPE_F64
      else if in_opcode ins = MILENA_IR_COND_BRANCH then MILENA_IR_TYPE_BOOL
      else if in_opcode ins = MILENA_IR_RETURN \<and> in_operand1_id ins \<noteq> 0 then in_result_type ins
      else MILENA_IR_TYPE_INVALID)"

definition ir_binary :: "ir_opcode \<Rightarrow> bool" where
  "ir_binary opcode \<longleftrightarrow> opcode \<in> {MILENA_IR_ADD_I64, MILENA_IR_EQ_I64, MILENA_IR_ADD_F64, MILENA_IR_SUB_F64, MILENA_IR_MUL_F64,
     MILENA_IR_DIV_F64, MILENA_IR_EQ_F64, MILENA_IR_NE_F64, MILENA_IR_LT_F64, MILENA_IR_LE_F64, MILENA_IR_GT_F64, MILENA_IR_GE_F64}"

definition ir_call_ok :: "ir_program \<Rightarrow> ir_callee list option \<Rightarrow> (u32 \<Rightarrow> ir_type \<Rightarrow> bool) \<Rightarrow> ir_instruction \<Rightarrow> bool" where
  "ir_call_ok p context use ins \<longleftrightarrow>
     (case ir_module_find_function context (ucast (in_integer ins)) of
        None \<Rightarrow> False
      | Some callee \<Rightarrow>
          in_call_count ins = length (cl_parameters callee) \<and> in_result_type ins = cl_return callee \<and>
          list_all (\<lambda>ai. use (ip_call_arguments p ! (in_call_offset ins + ai)) (cl_parameters callee ! ai)) [0..<length (cl_parameters callee)])"

definition ir_instruction_uses_ok :: "ir_program \<Rightarrow> ir_callee list option \<Rightarrow> (u32 \<Rightarrow> ir_type \<Rightarrow> bool) \<Rightarrow> ir_instruction \<Rightarrow> bool" where
  "ir_instruction_uses_ok p context use ins \<longleftrightarrow>
     (in_opcode ins = MILENA_IR_CALL \<longrightarrow> ir_call_ok p context use ins) \<and>
     (ir_operand_type ins \<noteq> MILENA_IR_TYPE_INVALID \<longrightarrow> use (in_operand1_id ins) (ir_operand_type ins)) \<and>
     (ir_binary (in_opcode ins) \<longrightarrow>
        use (in_operand2_id ins)
          (if in_opcode ins = MILENA_IR_ADD_I64 \<or> in_opcode ins = MILENA_IR_EQ_I64 then MILENA_IR_TYPE_I64 else MILENA_IR_TYPE_F64))"

definition ir_uses_ok :: "ir_program \<Rightarrow> ir_callee list option \<Rightarrow> ir_validated_value list \<Rightarrow> bool list list \<Rightarrow> bool" where
  "ir_uses_ok p context values dominators \<longleftrightarrow>
     list_all (\<lambda>bi. let block = ip_blocks p ! bi
       in list_all (\<lambda>ii. ir_instruction_uses_ok p context (\<lambda>i t. ir_use_is_valid values i t bi ii dominators) (ip_instructions p ! ii))
            [bk_first block..<bk_first block + bk_count block]) [0..<length (ip_blocks p)]"

section \<open>Edge arguments\<close>

fun ir_edge_arguments_ok ::
  "ir_program \<Rightarrow> ir_validated_value list \<Rightarrow> bool list list \<Rightarrow> ir_edge list \<Rightarrow> ir_edge list \<Rightarrow> bool"
where
  "ir_edge_arguments_ok p values dominators prior [] \<longleftrightarrow> True"
| "ir_edge_arguments_ok p values dominators prior (a # as) \<longleftrightarrow>
     (case (ir_find_block_index p (ed_source a), ir_find_block_index p (ed_target a)) of
        (Some si, Some ti) \<Rightarrow>
          let source = ip_blocks p ! si
          in (bk_successor_true source = ed_target a \<or> bk_successor_false source = ed_target a) \<and>
             (case ir_nth_parameter p (ed_target a) (ed_index a) of
                None \<Rightarrow> False
              | Some parameter \<Rightarrow>
                  \<not> (\<exists>b \<in> set prior. ed_source b = ed_source a \<and> ed_target b = ed_target a \<and> ed_index b = ed_index a) \<and>
                  ir_use_is_valid values (ed_value a) (pm_type parameter) si (bk_first source + bk_count source - 1) dominators) \<and>
             ir_edge_arguments_ok p values dominators (prior @ [a]) as
      | _ \<Rightarrow> False)"

text \<open>
  The parameters of a target block, from index \<open>i\<close>: each is supplied by exactly one argument of
  the edge.  The loop ends at the first index without a parameter, after at most as many turns as
  there are parameters.
\<close>

definition edge_matches :: "ir_program \<Rightarrow> u32 \<Rightarrow> u32 \<Rightarrow> u32 \<Rightarrow> ir_edge list" where
  "edge_matches p source target i = filter (\<lambda>a. ed_source a = source \<and> ed_target a = target \<and> ed_index a = i) (ip_edges p)"

definition ir_edge_complete :: "ir_program \<Rightarrow> u32 \<Rightarrow> u32 \<Rightarrow> bool option" where
  "ir_edge_complete p source target = map_option snd (while_option
     (\<lambda>(i, ok). ok \<and> ir_nth_parameter p target i \<noteq> None)
     (\<lambda>(i, ok). if length (edge_matches p source target i) \<noteq> 1 then (i, False) else (i + 1, True)) (0, True))"

fun ir_edges_complete :: "ir_program \<Rightarrow> (u32 \<times> u32) list \<Rightarrow> bool option" where
  "ir_edges_complete p [] = Some True"
| "ir_edges_complete p ((source, target) # edges) =
     (case ir_edge_complete p source target of
        None \<Rightarrow> None
      | Some False \<Rightarrow> Some False
      | Some True \<Rightarrow> ir_edges_complete p edges)"

definition ir_edges :: "ir_program \<Rightarrow> (u32 \<times> u32) list" where
  "ir_edges p = concat (map (\<lambda>b. map (Pair (bk_id b)) (block_targets b)) (ip_blocks p))"

section \<open>The validator\<close>

definition milena_ir_program_validate :: "ir_callee list option \<Rightarrow> (nat \<Rightarrow> bool) \<Rightarrow> ir_program \<Rightarrow> bool option" where
  "milena_ir_program_validate context mem p =
     (let capacity = length (ip_parameters p) + length (ip_instructions p)
      in if \<not> ir_header_ok p then Some False
         else if \<not> mem 0 then Some False
         else if ir_blocks_ok (length (ip_instructions p)) [] 0 (ip_blocks p) \<noteq> Some (length (ip_instructions p)) then Some False
         else case ir_collect_parameters p capacity [] 0 [] (ip_parameters p) of
                None \<Rightarrow> Some False
              | Some (values, entries) \<Rightarrow>
                  if \<not> ir_entry_count_ok p entries then Some False
                  else case ir_collect_blocks p context capacity 0 (ip_blocks p) values of
                         None \<Rightarrow> Some False
                       | Some values \<Rightarrow>
                           if \<not> ir_targets_exist p then Some False
                           else case ir_reachable p of
                                  None \<Rightarrow> None
                                | Some reachable \<Rightarrow>
                                    if \<not> list_all id reachable then Some False
                                    else case ir_dominators p mem of
                                           None \<Rightarrow> None
                                         | Some None \<Rightarrow> Some False
                                         | Some (Some dominators) \<Rightarrow>
                                             if \<not> ir_uses_ok p context values dominators then Some False
                                             else if \<not> ir_edge_arguments_ok p values dominators [] (ip_edges p) then Some False
                                             else ir_edges_complete p (ir_edges p))"

section \<open>Modules\<close>

text \<open>The identities and signatures of the functions, and the body of each; \<open>prior\<close> holds the earlier functions.\<close>

definition ir_function_ok :: "ir_function list \<Rightarrow> ir_function \<Rightarrow> bool" where
  "ir_function_ok prior f \<longleftrightarrow>
     (case (fn_name f, fn_body f) of
        (Some name, Some body) \<Rightarrow>
          fn_symbol f \<noteq> 0 \<and> length (fn_parameters f) \<le> size_max div 4 \<and> ip_has_signature body \<and>
          sg_parameters (ip_signature body) = fn_parameters f \<and> sg_return (ip_signature body) = fn_return f \<and>
          \<not> (\<exists>g \<in> set prior. fn_symbol g = fn_symbol f \<or> fn_name g = fn_name f)
      | _ \<Rightarrow> False)"

fun ir_functions_ok :: "ir_callee list \<Rightarrow> (nat \<Rightarrow> nat \<Rightarrow> bool) \<Rightarrow> ir_function list \<Rightarrow> ir_function list \<Rightarrow> bool option" where
  "ir_functions_ok callees mem prior [] = Some True"
| "ir_functions_ok callees mem prior (f # fs) =
     (if \<not> ir_function_ok prior f then Some False
      else case milena_ir_program_validate (if fn_bound f then Some callees else None) (mem (length prior)) (the (fn_body f)) of
             None \<Rightarrow> None
           | Some False \<Rightarrow> Some False
           | Some True \<Rightarrow> ir_functions_ok callees mem (prior @ [f]) fs)"

text \<open>The functions that a function calls, by symbol; a symbol names the last function that has it.\<close>

definition ir_called_symbols :: "ir_function \<Rightarrow> u32 list" where
  "ir_called_symbols f = map (\<lambda>ins. ucast (in_integer ins))
     (filter (\<lambda>ins. in_opcode ins = MILENA_IR_CALL) (ip_instructions (the (fn_body f))))"

definition ir_callee_index :: "ir_module \<Rightarrow> u32 \<Rightarrow> nat option" where
  "ir_callee_index m symbol = fold (\<lambda>ci found. if fn_symbol (m ! ci) = symbol then Some ci else found) [0..<length m] None"

text \<open>
  The search for recursion: 1 marks a function that is being visited, 2 one that is done.  The outer
  \<open>None\<close> stands for a recursion deeper than the fuel, the inner one for a rejection.
\<close>

fun ir_module_visit_function :: "nat \<Rightarrow> ir_module \<Rightarrow> nat \<Rightarrow> nat list \<Rightarrow> nat list option option"
and ir_module_visit_calls :: "nat \<Rightarrow> ir_module \<Rightarrow> u32 list \<Rightarrow> nat list \<Rightarrow> nat list option option" where
  "ir_module_visit_function 0 m index st = None"
| "ir_module_visit_function (Suc fuel) m index st =
     (if st ! index = 1 then Some None
      else if st ! index = 2 then Some (Some st)
      else case ir_module_visit_calls fuel m (ir_called_symbols (m ! index)) (st[index := 1]) of
             None \<Rightarrow> None
           | Some None \<Rightarrow> Some None
           | Some (Some st) \<Rightarrow> Some (Some (st[index := 2])))"
| "ir_module_visit_calls fuel m [] st = Some (Some st)"
| "ir_module_visit_calls fuel m (c # cs) st =
     (case ir_callee_index m c of
        None \<Rightarrow> Some None
      | Some ci \<Rightarrow>
          (case ir_module_visit_function fuel m ci st of
             None \<Rightarrow> None
           | Some None \<Rightarrow> Some None
           | Some (Some st) \<Rightarrow> ir_module_visit_calls fuel m cs st))"

fun ir_module_visit_all :: "nat \<Rightarrow> ir_module \<Rightarrow> nat list \<Rightarrow> nat list \<Rightarrow> nat list option option" where
  "ir_module_visit_all fuel m [] st = Some (Some st)"
| "ir_module_visit_all fuel m (i # is) st =
     (case ir_module_visit_function fuel m i st of
        None \<Rightarrow> None
      | Some None \<Rightarrow> Some None
      | Some (Some st) \<Rightarrow> ir_module_visit_all fuel m is st)"

text \<open>\<open>mem\<close> also gives the allocation of the visit states (request 0 past the last function).\<close>

definition milena_ir_module_validate :: "(nat \<Rightarrow> nat \<Rightarrow> bool) \<Rightarrow> ir_module \<Rightarrow> bool option" where
  "milena_ir_module_validate mem m =
     (if m = [] then Some False
      else if \<not> mem (length m) 0 then Some False
      else case ir_functions_ok (module_callees m) mem [] m of
             None \<Rightarrow> None
           | Some False \<Rightarrow> Some False
           | Some True \<Rightarrow>
               map_option (\<lambda>r. r \<noteq> None) (ir_module_visit_all (length m + 1) m [0..<length m] (replicate (length m) 0)))"

end
