(* ===== verification/IRDominators.thy ===== *)
theory IRDominators
  imports IRValidate
begin

text \<open>
  The layout check, the reachability search and the dominator iteration against paths of blocks.
\<close>

section \<open>Layout\<close>

named_theorems layout_simps \<open>what the layout check of the validator gives\<close>

lemma blocks_ok_iff:
  "ir_blocks_ok count prior expected bs = Some e \<Longrightarrow> expected \<le> count \<Longrightarrow>
    distinct (map bk_id bs) \<and> set (map bk_id bs) \<inter> set prior = {} \<and> 0 \<notin> set (map bk_id bs) \<and>
    list_all (\<lambda>b. bk_count b \<noteq> 0 \<and> bk_terminated b \<and> expected \<le> bk_first b \<and> bk_first b + bk_count b \<le> e) bs \<and> expected \<le> e \<and> e \<le> count"
proof (induction bs arbitrary: prior expected)
  case (Cons b bs)
  have h: "bk_id b \<noteq> 0" "bk_first b = expected" "bk_count b \<noteq> 0" "bk_count b \<le> count - expected" "bk_terminated b"
    "bk_id b \<notin> set prior" "ir_blocks_ok count (prior @ [bk_id b]) (expected + bk_count b) bs = Some e"
    using Cons.prems by (auto split: if_splits)
  have "expected + bk_count b \<le> count" using h(4) Cons.prems(2) by simp
  from Cons.IH [OF h(7) this] show ?case using h by (auto simp: list_all_iff)
qed simp

definition layout_ok :: "ir_program \<Rightarrow> bool" where
  "layout_ok p \<longleftrightarrow> ir_blocks_ok (length (ip_instructions p)) [] 0 (ip_blocks p) = Some (length (ip_instructions p)) \<and> ip_blocks p \<noteq> []"

lemma layout_block:
  assumes "layout_ok p" and "i < length (ip_blocks p)"
  shows "bk_count (ip_blocks p ! i) \<noteq> 0" "bk_terminated (ip_blocks p ! i)" "bk_id (ip_blocks p ! i) \<noteq> 0"
    "bk_first (ip_blocks p ! i) + bk_count (ip_blocks p ! i) \<le> length (ip_instructions p)"
proof -
  have "ir_blocks_ok (length (ip_instructions p)) [] 0 (ip_blocks p) = Some (length (ip_instructions p))"
    using assms(1) by (simp add: layout_ok_def)
  from blocks_ok_iff [OF this] have *: "0 \<notin> set (map bk_id (ip_blocks p))"
    "list_all (\<lambda>b. bk_count b \<noteq> 0 \<and> bk_terminated b \<and> 0 \<le> bk_first b \<and> bk_first b + bk_count b \<le> length (ip_instructions p)) (ip_blocks p)"
    by simp_all
  show "bk_count (ip_blocks p ! i) \<noteq> 0" "bk_terminated (ip_blocks p ! i)"
    "bk_first (ip_blocks p ! i) + bk_count (ip_blocks p ! i) \<le> length (ip_instructions p)"
    using *(2) assms(2) by (auto simp: list_all_length)
  show "bk_id (ip_blocks p ! i) \<noteq> 0" using *(1) assms(2) by (metis length_map nth_map nth_mem)
qed

lemma layout_distinct: "layout_ok p \<Longrightarrow> distinct (map bk_id (ip_blocks p))"
  using blocks_ok_iff [of "length (ip_instructions p)" "[]" 0 "ip_blocks p"] by (simp add: layout_ok_def)

lemma find_index_Some: "find_index P xs = Some i \<Longrightarrow> i < length xs \<and> P (xs ! i) \<and> (\<forall>j < i. \<not> P (xs ! j))"
proof (induction xs arbitrary: i)
  case (Cons x xs)
  then show ?case by (cases i) (auto split: if_splits simp: less_Suc_eq_0_disj)
qed simp

lemma find_index_None: "find_index P xs = None \<longleftrightarrow> (\<forall>x \<in> set xs. \<not> P x)"
  by (induction xs) auto

lemma block_index_Some: "ir_find_block_index p j = Some i \<Longrightarrow> i < length (ip_blocks p) \<and> bk_id (ip_blocks p ! i) = j"
  unfolding ir_find_block_index_def by (drule find_index_Some) simp

lemma block_index_nth:
  assumes "layout_ok p" and "i < length (ip_blocks p)"
  shows "ir_find_block_index p (bk_id (ip_blocks p ! i)) = Some i"
proof -
  have "ir_find_block_index p (bk_id (ip_blocks p ! i)) \<noteq> None"
    using nth_mem [OF assms(2)] by (auto simp: ir_find_block_index_def find_index_None)
  then obtain j where j: "ir_find_block_index p (bk_id (ip_blocks p ! i)) = Some j" by auto
  note k = block_index_Some [OF j]
  then have "j = i" using nth_eq_iff_index_eq [OF layout_distinct [OF assms(1)], of j i] assms(2) by simp
  then show ?thesis using j by simp
qed

section \<open>Paths\<close>

text \<open>A path of block indices from the entry block.\<close>

inductive ir_path :: "ir_program \<Rightarrow> nat list \<Rightarrow> bool" for p where
  entry: "ir_path p [0]"
| extend: "ir_path p path \<Longrightarrow> b < length (ip_blocks p) \<Longrightarrow> ir_predecessor p b (last path) \<Longrightarrow> ir_path p (path @ [b])"

lemma path_bounds: "ir_path p path \<Longrightarrow> ip_blocks p \<noteq> [] \<Longrightarrow> path \<noteq> [] \<and> hd path = 0 \<and> set path \<subseteq> {..<length (ip_blocks p)}"
  by (induction rule: ir_path.induct) auto

definition ir_dominates :: "ir_program \<Rightarrow> nat \<Rightarrow> nat \<Rightarrow> bool" where
  "ir_dominates p a b \<longleftrightarrow> (\<forall>path. ir_path p path \<longrightarrow> last path = b \<longrightarrow> a \<in> set path)"

lemma dominates_step:
  assumes "ir_dominates p a b" and "a \<noteq> b" and "ir_predecessor p b q" and "b < length (ip_blocks p)"
  shows "ir_dominates p a q"
  unfolding ir_dominates_def
proof (intro allI impI)
  fix path
  assume "ir_path p path" "last path = q"
  then have "ir_path p (path @ [b])" using assms(3,4) by (intro ir_path.extend) auto
  then have "a \<in> set (path @ [b])" using assms(1) by (fastforce simp: ir_dominates_def)
  then show "a \<in> set path" using assms(2) by simp
qed

section \<open>Reachability\<close>

definition reach_inv :: "ir_program \<Rightarrow> bool list \<times> nat list \<Rightarrow> bool" where
  "reach_inv p = (\<lambda>(marks, queue). length marks = length (ip_blocks p) \<and> set queue \<subseteq> {i. i < length marks \<and> marks ! i} \<and>
     (\<forall>i < length marks. marks ! i \<longrightarrow> (\<exists>path. ir_path p path \<and> last path = i)))"

definition reach_weight :: "bool list \<times> nat list \<Rightarrow> nat" where
  "reach_weight = (\<lambda>(marks, queue). length queue + length (filter Not marks))"

lemma mark_inv:
  assumes "reach_inv p (marks, queue)" and "ir_path p path" and "\<And>i. ir_find_block_index p target = Some i \<Longrightarrow> ir_predecessor p i (last path)"
  shows "reach_inv p (ir_mark p target (marks, queue)) \<and> reach_weight (ir_mark p target (marks, queue)) = reach_weight (marks, queue)"
proof (cases "ir_find_block_index p target")
  case None
  then show ?thesis using assms(1) by (simp add: ir_mark_def)
next
  case (Some ti)
  show ?thesis
  proof (cases "marks ! ti")
    case True
    then show ?thesis using assms(1) Some by (simp add: ir_mark_def)
  next
    case False
    have ti: "ti < length (ip_blocks p)" using block_index_Some [OF Some] by simp
    have path: "ir_path p (path @ [ti])" by (rule ir_path.extend [OF assms(2) ti assms(3) [OF Some]])
    have len: "length marks = length (ip_blocks p)" using assms(1) by (simp add: reach_inv_def)
    have "reach_inv p (marks[ti := True], queue @ [ti])"
      unfolding reach_inv_def prod.case
    proof (intro conjI allI impI)
      fix i
      assume i: "i < length (marks[ti := True])" "(marks[ti := True]) ! i"
      show "\<exists>path. ir_path p path \<and> last path = i"
      proof (cases "i = ti")
        case True
        then show ?thesis using path by (intro exI [of _ "path @ [ti]"]) simp
      next
        case False
        then show ?thesis using i assms(1) by (auto simp: reach_inv_def)
      qed
    qed (use assms(1) ti len in \<open>auto simp: reach_inv_def nth_list_update_if\<close>)
    moreover have "reach_weight (marks[ti := True], queue @ [ti]) = reach_weight (marks, queue)"
      using count_false_update [of ti marks] False ti len by (simp add: reach_weight_def)
    ultimately show ?thesis using Some False by (simp add: ir_mark_def)
  qed
qed

lemma visit_inv:
  assumes "reach_inv p (marks, queue)" and "queue \<noteq> []"
  shows "reach_inv p (ir_visit p (marks, queue)) \<and> reach_weight (ir_visit p (marks, queue)) < reach_weight (marks, queue)"
proof -
  let ?b = "ip_blocks p ! hd queue"
  obtain path where path: "ir_path p path" "last path = hd queue"
    using assms by (cases queue) (auto simp: reach_inv_def)
  have fold: "set ts \<subseteq> set (block_targets ?b) \<Longrightarrow> reach_inv p st \<Longrightarrow>
      reach_inv p (fold (ir_mark p) ts st) \<and> reach_weight (fold (ir_mark p) ts st) = reach_weight st" for ts st
  proof (induction ts arbitrary: st)
    case (Cons t ts)
    obtain ms q where st: "st = (ms, q)" by (cases st)
    have "reach_inv p (ir_mark p t st) \<and> reach_weight (ir_mark p t st) = reach_weight st"
      unfolding st
    proof (rule mark_inv [OF _ path(1)])
      show "reach_inv p (ms, q)" using Cons.prems(2) st by simp
      fix i
      assume "ir_find_block_index p t = Some i"
      then have "bk_id (ip_blocks p ! i) = t" using block_index_Some by simp
      then show "ir_predecessor p i (last path)"
        using Cons.prems(1) path(2) by (auto simp: ir_predecessor_def block_targets_def split: if_splits)
    qed
    then show ?case using Cons.IH [of "ir_mark p t st"] Cons.prems by simp
  qed simp
  have "reach_inv p (marks, tl queue)" using assms by (cases queue) (auto simp: reach_inv_def)
  moreover have "reach_weight (marks, tl queue) < reach_weight (marks, queue)" using assms(2) by (cases queue) (simp_all add: reach_weight_def)
  ultimately show ?thesis using fold [OF order_refl, of "(marks, tl queue)"] by (simp add: ir_visit_def)
qed

lemma reach_start:
  "ip_blocks p \<noteq> [] \<Longrightarrow> reach_inv p ((replicate (length (ip_blocks p)) False)[0 := True], [0])"
  unfolding reach_inv_def by (auto simp: nth_list_update_if split: if_splits intro!: exI [of _ "[0]"] ir_path.entry)

lemma reachable_returns:
  assumes "ip_blocks p \<noteq> []"
  shows "\<exists>r. ir_reachable p = Some r"
proof -
  have "\<exists>t. while_option (\<lambda>(reachable, queue). queue \<noteq> []) (ir_visit p) ((replicate (length (ip_blocks p)) False)[0 := True], [0]) = Some t"
    by (rule measure_while_option_Some [where P = "reach_inv p" and f = reach_weight])
      (use visit_inv reach_start [OF assms] in auto)
  then show ?thesis by (auto simp: ir_reachable_def)
qed

lemma reachable_sound:
  assumes "ir_reachable p = Some marks" and "ip_blocks p \<noteq> []"
  shows "length marks = length (ip_blocks p) \<and> (\<forall>i < length marks. marks ! i \<longrightarrow> (\<exists>path. ir_path p path \<and> last path = i))"
proof -
  obtain queue where w: "while_option (\<lambda>(reachable, queue). queue \<noteq> []) (ir_visit p) ((replicate (length (ip_blocks p)) False)[0 := True], [0]) =
      Some (marks, queue)"
    using assms(1) by (auto simp: ir_reachable_def)
  have "reach_inv p (marks, queue)"
    by (rule while_option_rule [where P = "reach_inv p", OF _ w reach_start [OF assms(2)]]) (use visit_inv in auto)
  then show ?thesis by (simp add: reach_inv_def)
qed

section \<open>Dominators\<close>

definition rows_ok :: "ir_program \<Rightarrow> bool list list \<Rightarrow> bool" where
  "rows_ok p rows \<longleftrightarrow> length rows = length (ip_blocks p) \<and> (\<forall>r \<in> set rows. length r = length (ip_blocks p))"

lemma rows_length [simp]: "rows_ok p rows \<Longrightarrow> b < length (ip_blocks p) \<Longrightarrow> length (rows ! b) = length (ip_blocks p)"
  by (simp add: rows_ok_def)

lemma intersect_Some:
  assumes "rows_ok p rows" and "set qs \<subseteq> {..<length (ip_blocks p)}" and "length r = length (ip_blocks p)"
  shows "\<exists>r'. ir_intersect rows qs (Some r) = Some r' \<and> length r' = length (ip_blocks p) \<and>
    (\<forall>k < length (ip_blocks p). r' ! k \<longleftrightarrow> r ! k \<and> (\<forall>q \<in> set qs. rows ! q ! k))"
  using assms(2,3)
proof (induction qs arbitrary: r)
  case (Cons q qs)
  let ?r = "map2 (\<and>) r (rows ! q)"
  have "length (rows ! q) = length (ip_blocks p)" using assms(1) Cons.prems(1) by simp
  then have "length ?r = length (ip_blocks p)" "\<And>k. k < length (ip_blocks p) \<Longrightarrow> ?r ! k \<longleftrightarrow> r ! k \<and> rows ! q ! k"
    using Cons.prems(2) by simp_all
  with Cons.IH [of ?r] Cons.prems(1) show ?case by fastforce
qed simp

lemma next_row_Some:
  assumes "rows_ok p rows" and "bi < length (ip_blocks p)" and "ir_next_row p rows bi = Some r"
  shows "length r = length (ip_blocks p) \<and> (\<exists>q < length (ip_blocks p). ir_predecessor p bi q) \<and>
    (\<forall>k < length (ip_blocks p). r ! k \<longleftrightarrow> k = bi \<or> (\<forall>q < length (ip_blocks p). ir_predecessor p bi q \<longrightarrow> rows ! q ! k))"
proof -
  let ?n = "length (ip_blocks p)"
  let ?qs = "filter (ir_predecessor p bi) [0..<?n]"
  obtain q qs where qs: "?qs = q # qs" using assms(3) by (cases ?qs) (auto simp: ir_next_row_def)
  have set: "set (q # qs) = {x. x < ?n \<and> ir_predecessor p bi x}" unfolding qs [symmetric] by auto
  have mem: "q < ?n" "set qs \<subseteq> {..<?n}" "ir_predecessor p bi q" using set by auto
  obtain r' where r': "ir_intersect rows qs (Some (rows ! q)) = Some r'" "length r' = ?n"
    "\<forall>k < ?n. r' ! k \<longleftrightarrow> rows ! q ! k \<and> (\<forall>x \<in> set qs. rows ! x ! k)"
    using intersect_Some [OF assms(1) mem(2)] rows_length [OF assms(1) mem(1)] by blast
  have r: "r = r'[bi := True]" using assms(3) r'(1) by (simp add: ir_next_row_def qs)
  have "\<forall>k < ?n. r' ! k \<longleftrightarrow> (\<forall>x \<in> set (q # qs). rows ! x ! k)" using r'(3) by simp
  then have "\<forall>k < ?n. r' ! k \<longleftrightarrow> (\<forall>x < ?n. ir_predecessor p bi x \<longrightarrow> rows ! x ! k)" unfolding set by auto
  then show ?thesis using r r'(2) mem(1,3) assms(2) by (auto simp: nth_list_update_if)
qed

text \<open>
  The invariant of the iteration: a row contains what its predecessors share and itself, and every
  dominator is still there.
\<close>

definition dom_inv :: "ir_program \<Rightarrow> bool list list \<Rightarrow> bool" where
  "dom_inv p rows \<longleftrightarrow> rows_ok p rows \<and> (\<forall>k < length (ip_blocks p). rows ! 0 ! k \<longleftrightarrow> k = 0) \<and>
     (\<forall>b k. 0 < b \<longrightarrow> b < length (ip_blocks p) \<longrightarrow> k < length (ip_blocks p) \<longrightarrow>
        (k = b \<or> (\<forall>q < length (ip_blocks p). ir_predecessor p b q \<longrightarrow> rows ! q ! k)) \<longrightarrow> rows ! b ! k) \<and>
     (\<forall>b k. b < length (ip_blocks p) \<longrightarrow> k < length (ip_blocks p) \<longrightarrow> ir_dominates p k b \<longrightarrow> rows ! b ! k)"

lemma dom_inv_closed:
  assumes "dom_inv p rows" and "0 < b" and "b < length (ip_blocks p)" and "k < length (ip_blocks p)"
    and "k = b \<or> (\<forall>q < length (ip_blocks p). ir_predecessor p b q \<longrightarrow> rows ! q ! k)"
  shows "rows ! b ! k"
  using assms(1) [unfolded dom_inv_def, THEN conjunct2, THEN conjunct2, THEN conjunct1, rule_format, OF assms(2-4)] assms(5) by blast

definition row_weight :: "bool list list \<Rightarrow> nat" where
  "row_weight rows = sum_list (map (\<lambda>r. length (filter (\<lambda>x. x) r)) rows)"

lemma filter_id_le:
  "length a = length b \<Longrightarrow> (\<And>k. k < length a \<Longrightarrow> a ! k \<Longrightarrow> b ! k) \<Longrightarrow>
    length (filter (\<lambda>x. x) a) \<le> length (filter (\<lambda>x. x) b) \<and> (a \<noteq> b \<longrightarrow> length (filter (\<lambda>x. x) a) < length (filter (\<lambda>x. x) b))"
proof (induction a b rule: list_induct2)
  case (Cons x xs y ys)
  have "\<And>k. k < length xs \<Longrightarrow> xs ! k \<Longrightarrow> ys ! k" using Cons.prems by fastforce
  with Cons.IH have "length (filter (\<lambda>x. x) xs) \<le> length (filter (\<lambda>x. x) ys) \<and> (xs \<noteq> ys \<longrightarrow> length (filter (\<lambda>x. x) xs) < length (filter (\<lambda>x. x) ys))" by blast
  moreover have "x \<longrightarrow> y" using Cons.prems [of 0] by simp
  ultimately show ?case by (auto simp: less_Suc_eq_le)
qed simp

lemma sum_list_update_less:
  "i < length xs \<Longrightarrow> f v < (f (xs ! i) :: nat) \<Longrightarrow> sum_list (map f (xs[i := v])) < sum_list (map f xs)"
proof (induction xs arbitrary: i)
  case (Cons x xs)
  then show ?case by (cases i) auto
qed simp

lemma row_update:
  assumes inv: "dom_inv p rows" and bi: "0 < bi" "bi < length (ip_blocks p)" and r: "ir_next_row p rows bi = Some r" and ne: "rows ! bi \<noteq> r"
  shows "dom_inv p (rows[bi := r]) \<and> row_weight (rows[bi := r]) < row_weight rows"
proof -
  let ?n = "length (ip_blocks p)" and ?rows = "rows[bi := r]"
  have ok: "rows_ok p rows" using inv by (simp add: dom_inv_def)
  note nr = next_row_Some [OF ok bi(2) r]
  have len: "length rows = ?n" using ok by (simp add: rows_ok_def)
  have sub: "rows ! bi ! k" if "k < ?n" "r ! k" for k
    by (rule dom_inv_closed [OF inv bi that(1)]) (use nr that in simp)
  have mono: "rows ! b ! k" if "b < ?n" "k < ?n" "?rows ! b ! k" for b k
    using that sub len by (cases "b = bi") auto
  have ok': "rows_ok p ?rows" using ok nr by (auto simp: rows_ok_def dest: set_update_subset_insert [THEN subsetD])
  have closed: "?rows ! b ! k" if "0 < b" "b < ?n" "k < ?n" "k = b \<or> (\<forall>q < ?n. ir_predecessor p b q \<longrightarrow> ?rows ! q ! k)" for b k
  proof -
    have "k = b \<or> (\<forall>q < ?n. ir_predecessor p b q \<longrightarrow> rows ! q ! k)" using that mono by blast
    then show ?thesis using inv nr that len by (cases "b = bi") (auto simp: dom_inv_def)
  qed
  have dom: "?rows ! b ! k" if "b < ?n" "k < ?n" "ir_dominates p k b" for b k
  proof (cases "b = bi")
    case True
    have "k = bi \<or> (\<forall>q < ?n. ir_predecessor p bi q \<longrightarrow> rows ! q ! k)"
      using dominates_step [of p k bi] that bi inv True by (fastforce simp: dom_inv_def)
    then show ?thesis using nr that True len by simp
  qed (use inv that in \<open>auto simp: dom_inv_def\<close>)
  have zero: "\<forall>k < ?n. ?rows ! 0 ! k \<longleftrightarrow> k = 0" using inv bi(1) by (simp add: dom_inv_def)
  have "dom_inv p ?rows" unfolding dom_inv_def using ok' zero closed dom by blast
  moreover have "length r = length (rows ! bi)" using nr rows_length [OF ok bi(2)] by simp
  then have "length (filter (\<lambda>x. x) r) < length (filter (\<lambda>x. x) (rows ! bi))"
    using filter_id_le [of r "rows ! bi"] sub ne nr by auto
  then have "row_weight ?rows < row_weight rows" unfolding row_weight_def using bi(2) len by (intro sum_list_update_less) simp_all
  ultimately show ?thesis by blast
qed

lemma pass_inv:
  assumes "ir_dominator_pass p mem bis (rows, changed, k) = Some (rows', changed', k')" and "dom_inv p rows"
    and "set bis \<subseteq> {1..<length (ip_blocks p)}"
  shows "dom_inv p rows' \<and>
    (rows' = rows \<and> changed' = changed \<and> (\<forall>bi \<in> set bis. ir_next_row p rows bi = Some (rows ! bi)) \<or>
     changed' \<and> row_weight rows' < row_weight rows)"
  using assms
proof (induction bis arbitrary: rows changed k)
  case (Cons bi bis)
  have bi: "0 < bi" "bi < length (ip_blocks p)" "set bis \<subseteq> {1..<length (ip_blocks p)}" using Cons.prems(3) by auto
  obtain r where r: "ir_next_row p rows bi = Some r" using Cons.prems(1) by (auto split: if_splits option.splits)
  show ?case
  proof (cases "rows ! bi = r")
    case True
    then have "ir_dominator_pass p mem bis (rows, changed, k + 1) = Some (rows', changed', k')"
      using Cons.prems(1) r by (simp split: if_splits)
    from Cons.IH [OF this Cons.prems(2) bi(3)] show ?thesis using r True by auto
  next
    case False
    then have "ir_dominator_pass p mem bis (rows[bi := r], True, k + 1) = Some (rows', changed', k')"
      using Cons.prems(1) r by (simp split: if_splits)
    note up = row_update [OF Cons.prems(2) bi(1,2) r False]
    from Cons.IH [OF \<open>ir_dominator_pass p mem bis (rows[bi := r], True, k + 1) = _\<close> conjunct1 [OF up] bi(3)] up
    show ?thesis by auto
  qed
qed simp

text \<open>A rejection or a state of the iteration.  When nothing changed, every row is its own next row.\<close>

definition round_inv :: "ir_program \<Rightarrow> dominator_state option \<Rightarrow> bool" where
  "round_inv p st \<longleftrightarrow> (case st of None \<Rightarrow> True | Some (rows, changed, k) \<Rightarrow>
     dom_inv p rows \<and> (changed \<or> (\<forall>bi \<in> {1..<length (ip_blocks p)}. ir_next_row p rows bi = Some (rows ! bi))))"

definition round_weight :: "dominator_state option \<Rightarrow> nat" where
  "round_weight st = (case st of None \<Rightarrow> 0 | Some (rows, changed, k) \<Rightarrow> 2 * row_weight rows + (if changed then 2 else 1))"

lemma round_step:
  assumes "round_inv p st" and "round_changed st"
  shows "round_inv p (ir_dominator_round p mem st) \<and> round_weight (ir_dominator_round p mem st) < round_weight st"
proof -
  obtain rows k where st: "st = Some (rows, True, k)" using assms(2) by (auto simp: round_changed_def split: option.splits)
  have inv: "dom_inv p rows" using assms(1) st by (simp add: round_inv_def)
  show ?thesis
  proof (cases "ir_dominator_pass p mem [1..<length (ip_blocks p)] (rows, False, k)")
    case None
    then show ?thesis by (simp add: st ir_dominator_round_def round_inv_def round_weight_def)
  next
    case (Some st')
    obtain rows' changed' k' where st': "st' = (rows', changed', k')" by (cases st')
    have "dom_inv p rows' \<and> (rows' = rows \<and> changed' = False \<and> (\<forall>bi \<in> set [1..<length (ip_blocks p)]. ir_next_row p rows bi = Some (rows ! bi)) \<or>
        changed' \<and> row_weight rows' < row_weight rows)"
      by (rule pass_inv [OF Some [unfolded st'] inv]) simp
    moreover have "ir_dominator_round p mem st = Some (rows', changed', k')" using Some by (simp add: ir_dominator_round_def st st')
    ultimately show ?thesis by (auto simp: st round_inv_def round_weight_def)
  qed
qed

lemma first_rows_inv:
  assumes "ip_blocks p \<noteq> []"
  shows "dom_inv p (ir_first_rows p)"
proof -
  let ?n = "length (ip_blocks p)"
  have n: "0 < ?n" using assms by simp
  have rows: "ir_first_rows p ! b ! k \<longleftrightarrow> b \<noteq> 0 \<or> k = 0" if "b < ?n" "k < ?n" for b k
    using that by (cases b) (auto simp: ir_first_rows_def Let_def nth_list_update_if)
  have "k = 0" if "ir_dominates p k 0" for k using that ir_path.entry [of p] by (fastforce simp: ir_dominates_def)
  moreover have "rows_ok p (ir_first_rows p)" using n by (auto simp: rows_ok_def ir_first_rows_def Let_def)
  ultimately show ?thesis using rows n by (auto simp: dom_inv_def)
qed

lemma dominators_return:
  assumes "ip_blocks p \<noteq> []"
  shows "\<exists>r. ir_dominators p mem = Some r"
proof -
  have "\<exists>t. while_option round_changed (ir_dominator_round p mem) (Some (ir_first_rows p, True, 1)) = Some t"
    by (rule measure_while_option_Some [where P = "round_inv p" and f = round_weight])
      (use round_step first_rows_inv [OF assms] in \<open>auto simp: round_inv_def\<close>)
  then show ?thesis by (auto simp: ir_dominators_def)
qed

lemma dominators_fixed:
  assumes "ip_blocks p \<noteq> []" and "ir_dominators p mem = Some (Some rows)"
  shows "dom_inv p rows \<and> (\<forall>bi \<in> {1..<length (ip_blocks p)}. ir_next_row p rows bi = Some (rows ! bi))"
proof -
  obtain changed k where w: "while_option round_changed (ir_dominator_round p mem) (Some (ir_first_rows p, True, 1)) = Some (Some (rows, changed, k))"
    using assms(2) by (auto simp: ir_dominators_def)
  have "round_inv p (Some (rows, changed, k))"
    by (rule while_option_rule [where P = "round_inv p", OF _ w]) (use round_step first_rows_inv [OF assms(1)] in \<open>auto simp: round_inv_def\<close>)
  moreover have "\<not> changed" using while_option_stop [OF w] by (simp add: round_changed_def)
  ultimately show ?thesis by (simp add: round_inv_def)
qed

lemma fixed_sound:
  assumes "ir_path p path" and "dom_inv p rows" and "\<forall>bi \<in> {1..<length (ip_blocks p)}. ir_next_row p rows bi = Some (rows ! bi)"
    and "ip_blocks p \<noteq> []" and "a < length (ip_blocks p)" and "rows ! last path ! a"
  shows "a \<in> set path"
  using assms(1,6)
proof (induction rule: ir_path.induct)
  case entry
  then show ?case using assms(2,5) by (simp add: dom_inv_def)
next
  case (extend path b)
  note pb = path_bounds [OF extend(1) assms(4)]
  have l: "last path < length (ip_blocks p)" using pb last_in_set [of path] by blast
  show ?case
  proof (cases "b = 0")
    case True
    then have "a = 0" using extend.prems assms(2,5) by (simp add: dom_inv_def)
    then show ?thesis using pb by (metis UnCI hd_in_set set_append)
  next
    case False
    have "rows_ok p rows" using assms(2) by (simp add: dom_inv_def)
    from next_row_Some [OF this extend.hyps(2), of "rows ! b"] have "a = b \<or> rows ! last path ! a"
      using assms(3,5) False extend.hyps(2,3) extend.prems l by auto
    then show ?thesis using extend.IH by auto
  qed
qed

end
