(* ===== verification/IRTypes.thy ===== *)
theory IRTypes
  imports IRDominators
begin

text \<open>
  What acceptance by the validator means for an execution: the definitions it collects, the loop over
  edge arguments, and a typed run along a path of blocks, in which an instruction whose operand is
  not defined with the type it needs is stuck.
\<close>

section \<open>The collected definitions\<close>

definition parameter_value :: "ir_program \<Rightarrow> ir_parameter \<Rightarrow> ir_validated_value" where
  "parameter_value p q = \<lparr>vv_id = pm_value_id q, vv_type = pm_type q, vv_block = the (ir_find_block_index p (pm_block_id q)),
     vv_instruction = 0, vv_parameter = True\<rparr>"

definition instruction_value :: "nat \<Rightarrow> nat \<Rightarrow> ir_instruction \<Rightarrow> ir_validated_value" where
  "instruction_value bi ii ins = \<lparr>vv_id = in_result_id ins, vv_type = in_result_type ins, vv_block = bi, vv_instruction = ii,
     vv_parameter = False\<rparr>"

definition block_values :: "nat \<Rightarrow> nat \<Rightarrow> ir_instruction list \<Rightarrow> ir_validated_value list" where
  "block_values bi ii body = map (\<lambda>(ii, ins). instruction_value bi ii ins) (filter (\<lambda>(ii, ins). ir_defines (in_opcode ins)) (enumerate ii body))"

definition blocks_values :: "ir_program \<Rightarrow> nat \<Rightarrow> ir_block list \<Rightarrow> ir_validated_value list" where
  "blocks_values p bi bs = concat (map (\<lambda>(bi, b). block_values bi (bk_first b) (block_instructions p b)) (enumerate bi bs))"

definition ir_values :: "ir_program \<Rightarrow> ir_validated_value list" where
  "ir_values p = map (parameter_value p) (ip_parameters p) @ blocks_values p 0 (ip_blocks p)"

lemma find_None: "find P xs = None \<longleftrightarrow> (\<forall>x \<in> set xs. \<not> P x)"
  by (induction xs) auto

lemma add_value:
  "ir_add_validated_value capacity v vals = Some vals' \<Longrightarrow>
    vals' = vals @ [v] \<and> vv_id v \<notin> vv_id ` set vals \<and> vv_id v \<noteq> 0 \<and> ir_value_type (vv_type v)"
  by (auto simp: ir_add_validated_value_def ir_find_value_def find_None split: if_splits)

lemma collect_parameters_values:
  "ir_collect_parameters p capacity prior entries vals qs = Some (vals', entries') \<Longrightarrow> distinct (map vv_id vals) \<Longrightarrow>
    vals' = vals @ map (parameter_value p) qs \<and> distinct (map vv_id vals') \<and>
    (\<forall>q \<in> set qs. ir_find_block_index p (pm_block_id q) \<noteq> None)"
proof (induction qs arbitrary: prior entries vals)
  case (Cons q qs)
  obtain bi where bi: "ir_find_block_index p (pm_block_id q) = Some bi" using Cons.prems(1) by (auto split: option.splits)
  obtain vs where vs: "ir_add_validated_value capacity (parameter_value p q) vals = Some vs"
    "ir_collect_parameters p capacity (prior @ [q]) (if bi = 0 then entries + 1 else entries) vs qs = Some (vals', entries')"
    using Cons.prems(1) bi by (auto simp: parameter_value_def split: if_splits option.splits)
  have "distinct (map vv_id vs)" using add_value [OF vs(1)] Cons.prems(2) by auto
  note rest = Cons.IH [OF vs(2) this]
  show ?case
  proof (intro conjI)
    show "distinct (map vv_id vals')" using rest by blast
  qed (use rest add_value [OF vs(1)] bi in auto)
qed simp

lemma collect_block_values:
  "ir_collect_block p context capacity bi b ii body vals = Some vals' \<Longrightarrow> distinct (map vv_id vals) \<Longrightarrow>
    vals' = vals @ block_values bi ii body \<and> distinct (map vv_id vals') \<and>
    (\<forall>k < length body. ir_instruction_shape p context b (k + 1 = length body) (body ! k))"
proof (induction body arbitrary: ii vals)
  case (Cons ins rest)
  have shape: "ir_instruction_shape p context b (rest = []) ins" using Cons.prems(1) by (simp split: if_splits)
  have "\<exists>vs. ir_collect_block p context capacity bi b (ii + 1) rest vs = Some vals' \<and> distinct (map vv_id vs) \<and>
      vs @ block_values bi (ii + 1) rest = vals @ block_values bi ii (ins # rest)"
  proof (cases "ir_defines (in_opcode ins)")
    case True
    then obtain vs where vs: "ir_add_validated_value capacity (instruction_value bi ii ins) vals = Some vs"
      "ir_collect_block p context capacity bi b (ii + 1) rest vs = Some vals'"
      using Cons.prems(1) by (auto simp: instruction_value_def split: if_splits option.splits)
    then show ?thesis using add_value [OF vs(1)] Cons.prems(2) True by (intro exI [of _ vs]) (auto simp: block_values_def)
  qed (use Cons.prems shape in \<open>auto simp: block_values_def\<close>)
  then obtain vs where vs: "ir_collect_block p context capacity bi b (ii + 1) rest vs = Some vals'" "distinct (map vv_id vs)"
    "vs @ block_values bi (ii + 1) rest = vals @ block_values bi ii (ins # rest)" by blast
  note all = Cons.IH [OF vs(1,2)]
  show ?case
  proof (intro conjI)
    show "distinct (map vv_id vals')" using all by blast
    show "vals' = vals @ block_values bi ii (ins # rest)" using all vs(3) by simp
  qed (use all shape in \<open>auto simp: less_Suc_eq_0_disj\<close>)
qed (simp add: block_values_def)

lemma collect_blocks_values:
  "ir_collect_blocks p context capacity bi bs vals = Some vals' \<Longrightarrow> distinct (map vv_id vals) \<Longrightarrow>
    vals' = vals @ blocks_values p bi bs \<and> distinct (map vv_id vals') \<and>
    (\<forall>b \<in> set bs. ir_successors_agree p b \<and>
      (\<forall>k < length (block_instructions p b).
         ir_instruction_shape p context b (k + 1 = length (block_instructions p b)) (block_instructions p b ! k)))"
proof (induction bs arbitrary: bi vals)
  case (Cons b bs)
  obtain vs where vs: "ir_collect_block p context capacity bi b (bk_first b) (block_instructions p b) vals = Some vs"
    "ir_collect_blocks p context capacity (bi + 1) bs vs = Some vals'" "ir_successors_agree p b"
    using Cons.prems(1) by (auto split: option.splits if_splits)
  note one = collect_block_values [OF vs(1) Cons.prems(2)]
  then have "distinct (map vv_id vs)" by blast
  note rest = Cons.IH [OF vs(2) this]
  show ?case
  proof (intro conjI)
    show "distinct (map vv_id vals')" using rest by blast
    show "vals' = vals @ blocks_values p bi (b # bs)" using rest one by (simp add: blocks_values_def)
  qed (use rest one vs(3) in auto)
qed (simp add: blocks_values_def)

lemma find_value_iff:
  assumes "distinct (map vv_id vs)"
  shows "ir_find_value vs i = Some v \<longleftrightarrow> v \<in> set vs \<and> vv_id v = i"
  using assms by (induction vs) (auto simp: ir_find_value_def)

section \<open>Parameters and edge arguments\<close>

definition block_parameters :: "ir_program \<Rightarrow> u32 \<Rightarrow> ir_parameter list" where
  "block_parameters p block_id = filter (\<lambda>q. pm_block_id q = block_id) (ip_parameters p)"

lemma unat_plus_one: "unat (w :: u32) + 1 < 4294967296 \<Longrightarrow> unat (w + 1) = unat w + 1"
  by (simp add: unat_word_ariths)

lemma nth_parameter_filter:
  "unat seen \<le> unat i \<Longrightarrow> unat seen + length qs < 4294967296 \<Longrightarrow>
    nth_parameter block_id i seen qs =
      (let ms = filter (\<lambda>q. pm_block_id q = block_id) qs
       in if unat i - unat seen < length ms then Some (ms ! (unat i - unat seen)) else None)"
proof (induction qs arbitrary: seen)
  case (Cons q qs)
  show ?case
  proof (cases "pm_block_id q = block_id \<and> seen \<noteq> i")
    case True
    have u: "unat (seen + 1) = unat seen + 1" using Cons.prems(2) by (intro unat_plus_one) simp
    have lt: "unat seen < unat i" using True Cons.prems(1) by (metis le_neq_implies_less word_unat_eq_iff)
    then have "unat i - unat seen = Suc (unat i - unat (seen + 1))" using u by simp
    then show ?thesis using Cons.IH [of "seen + 1"] Cons.prems(2) True u lt by (simp add: Let_def)
  next
    case False
    then show ?thesis using Cons.IH [of seen] Cons.prems by (auto simp: Let_def)
  qed
qed simp

lemma nth_parameter_eq:
  assumes "length (ip_parameters p) < 4294967296"
  shows "ir_nth_parameter p block_id i =
    (if unat i < length (block_parameters p block_id) then Some (block_parameters p block_id ! unat i) else None)"
  using nth_parameter_filter [of 0 i "ip_parameters p" block_id] assms by (simp add: ir_nth_parameter_def block_parameters_def Let_def)

definition supplied_once :: "ir_program \<Rightarrow> u32 \<Rightarrow> u32 \<Rightarrow> nat \<Rightarrow> bool" where
  "supplied_once p source target i \<longleftrightarrow> length (edge_matches p source target (of_nat i)) = 1"

definition edge_inv :: "ir_program \<Rightarrow> u32 \<Rightarrow> u32 \<Rightarrow> u32 \<times> bool \<Rightarrow> bool" where
  "edge_inv p source target = (\<lambda>(i, ok). unat i \<le> length (block_parameters p target) \<and> (\<forall>j < unat i. supplied_once p source target j) \<and>
     (\<not> ok \<longrightarrow> (\<exists>j < length (block_parameters p target). \<not> supplied_once p source target j)))"

lemma parameters_length: "length (block_parameters p target) \<le> length (ip_parameters p)"
  by (simp add: block_parameters_def)

lemma edge_step:
  assumes "length (ip_parameters p) < 4294967296" and "edge_inv p source target (i, True)" and "unat i < length (block_parameters p target)"
  shows "edge_inv p source target (if length (edge_matches p source target i) \<noteq> 1 then (i, False) else (i + 1, True))"
    and "length (edge_matches p source target i) = 1 \<Longrightarrow> unat (i + 1) = unat i + 1"
proof -
  show u: "unat (i + 1) = unat i + 1" using assms(1,3) parameters_length [of p target] by (intro unat_plus_one) simp
  have "supplied_once p source target (unat i) \<longleftrightarrow> length (edge_matches p source target i) = 1" by (simp add: supplied_once_def)
  then show "edge_inv p source target (if length (edge_matches p source target i) \<noteq> 1 then (i, False) else (i + 1, True))"
    using assms(2,3) u by (auto simp: edge_inv_def less_Suc_eq)
qed

lemma edge_complete:
  assumes "length (ip_parameters p) < 4294967296"
  shows "ir_edge_complete p source target = Some (\<forall>j < length (block_parameters p target). supplied_once p source target j)"
proof -
  let ?b = "\<lambda>(i, ok). ok \<and> ir_nth_parameter p target i \<noteq> None"
  let ?c = "\<lambda>(i :: u32, ok). if length (edge_matches p source target i) \<noteq> 1 then (i, False) else (i + 1, True)"
  let ?n = "length (block_parameters p target)"
  have b: "?b (i, ok) \<longleftrightarrow> ok \<and> unat i < ?n" for i ok by (simp add: nth_parameter_eq [OF assms])
  have start: "edge_inv p source target (0, True)" by (simp add: edge_inv_def)
  have "\<exists>t. while_option ?b ?c (0, True) = Some t"
  proof (rule measure_while_option_Some [where P = "edge_inv p source target" and f = "\<lambda>(i, ok). ?n - unat i + (if ok then 1 else 0)"])
    fix s :: "u32 \<times> bool"
    assume s: "edge_inv p source target s" "?b s"
    obtain i ok where i: "s = (i, ok)" by (cases s)
    have "ok" "unat i < ?n" using s(2) b i by auto
    then show "edge_inv p source target (?c s) \<and> (\<lambda>(i, ok). ?n - unat i + (if ok then 1 else 0)) (?c s) <
        (\<lambda>(i, ok). ?n - unat i + (if ok then 1 else 0)) s"
      using edge_step [OF assms, of source target i] s(1) i by auto
  qed (rule start)
  then obtain i ok where w: "while_option ?b ?c (0, True) = Some (i, ok)" by auto
  have "edge_inv p source target (i, ok)"
  proof (rule while_option_rule [where P = "edge_inv p source target", OF _ w start])
    fix s :: "u32 \<times> bool"
    assume s: "edge_inv p source target s" "?b s"
    obtain i ok where i: "s = (i, ok)" by (cases s)
    have "ok" "unat i < ?n" using s(2) b i by auto
    then show "edge_inv p source target (?c s)" using edge_step(1) [OF assms, of source target i] s(1) i by simp
  qed
  moreover have "\<not> (ok \<and> unat i < ?n)" using while_option_stop [OF w] b [of i ok] by auto
  ultimately have "ok \<longleftrightarrow> (\<forall>j < ?n. supplied_once p source target j)" by (fastforce simp: edge_inv_def)
  then show ?thesis using w by (simp add: ir_edge_complete_def)
qed

lemma edges_complete:
  assumes "length (ip_parameters p) < 4294967296"
  shows "ir_edges_complete p es =
    Some (\<forall>(source, target) \<in> set es. \<forall>j < length (block_parameters p target). supplied_once p source target j)"
proof (induction es)
  case (Cons e es)
  then show ?case by (cases e) (auto simp: edge_complete [OF assms] split: option.splits bool.splits)
qed simp

lemma edge_arguments_ok:
  "ir_edge_arguments_ok p vals dominators prior as \<Longrightarrow> a \<in> set as \<Longrightarrow>
    \<exists>si parameter. ir_find_block_index p (ed_source a) = Some si \<and> ir_nth_parameter p (ed_target a) (ed_index a) = Some parameter \<and>
      ir_use_is_valid vals (ed_value a) (pm_type parameter) si (bk_first (ip_blocks p ! si) + bk_count (ip_blocks p ! si) - 1) dominators"
proof (induction as arbitrary: prior)
  case (Cons x xs)
  then show ?case by (auto simp: Let_def split: option.splits)
qed simp

section \<open>The type system\<close>

text \<open>
  The operand types and the result type of each opcode with fixed types, written down here apart
  from the tests of the validator; a call takes its types from the callee and a return from itself.
\<close>

fun opcode_signature :: "ir_opcode \<Rightarrow> (ir_type list \<times> ir_type) option" where
  "opcode_signature MILENA_IR_CONST_I64 = Some ([], MILENA_IR_TYPE_I64)"
| "opcode_signature MILENA_IR_CONST_F64 = Some ([], MILENA_IR_TYPE_F64)"
| "opcode_signature MILENA_IR_CONST_BOOL = Some ([], MILENA_IR_TYPE_BOOL)"
| "opcode_signature MILENA_IR_ADD_I64 = Some ([MILENA_IR_TYPE_I64, MILENA_IR_TYPE_I64], MILENA_IR_TYPE_I64)"
| "opcode_signature MILENA_IR_ADD_F64 = Some ([MILENA_IR_TYPE_F64, MILENA_IR_TYPE_F64], MILENA_IR_TYPE_F64)"
| "opcode_signature MILENA_IR_SUB_F64 = Some ([MILENA_IR_TYPE_F64, MILENA_IR_TYPE_F64], MILENA_IR_TYPE_F64)"
| "opcode_signature MILENA_IR_MUL_F64 = Some ([MILENA_IR_TYPE_F64, MILENA_IR_TYPE_F64], MILENA_IR_TYPE_F64)"
| "opcode_signature MILENA_IR_DIV_F64 = Some ([MILENA_IR_TYPE_F64, MILENA_IR_TYPE_F64], MILENA_IR_TYPE_F64)"
| "opcode_signature MILENA_IR_EQ_I64 = Some ([MILENA_IR_TYPE_I64, MILENA_IR_TYPE_I64], MILENA_IR_TYPE_BOOL)"
| "opcode_signature MILENA_IR_EQ_F64 = Some ([MILENA_IR_TYPE_F64, MILENA_IR_TYPE_F64], MILENA_IR_TYPE_BOOL)"
| "opcode_signature MILENA_IR_NE_F64 = Some ([MILENA_IR_TYPE_F64, MILENA_IR_TYPE_F64], MILENA_IR_TYPE_BOOL)"
| "opcode_signature MILENA_IR_LT_F64 = Some ([MILENA_IR_TYPE_F64, MILENA_IR_TYPE_F64], MILENA_IR_TYPE_BOOL)"
| "opcode_signature MILENA_IR_LE_F64 = Some ([MILENA_IR_TYPE_F64, MILENA_IR_TYPE_F64], MILENA_IR_TYPE_BOOL)"
| "opcode_signature MILENA_IR_GT_F64 = Some ([MILENA_IR_TYPE_F64, MILENA_IR_TYPE_F64], MILENA_IR_TYPE_BOOL)"
| "opcode_signature MILENA_IR_GE_F64 = Some ([MILENA_IR_TYPE_F64, MILENA_IR_TYPE_F64], MILENA_IR_TYPE_BOOL)"
| "opcode_signature MILENA_IR_BRANCH = Some ([], MILENA_IR_TYPE_VOID)"
| "opcode_signature MILENA_IR_COND_BRANCH = Some ([MILENA_IR_TYPE_BOOL], MILENA_IR_TYPE_VOID)"
| "opcode_signature _ = None"

type_synonym ir_env = "u32 \<Rightarrow> ir_type option"

definition call_arguments :: "ir_program \<Rightarrow> ir_instruction \<Rightarrow> u32 list" where
  "call_arguments p ins = take (in_call_count ins) (drop (in_call_offset ins) (ip_call_arguments p))"

definition ir_well_typed :: "ir_program \<Rightarrow> ir_callee list option \<Rightarrow> ir_env \<Rightarrow> ir_instruction \<Rightarrow> bool" where
  "ir_well_typed p context env ins \<longleftrightarrow>
     (if in_opcode ins = MILENA_IR_CALL
      then \<exists>callee \<in> set (case context of None \<Rightarrow> [] | Some cs \<Rightarrow> cs). cl_symbol callee = ucast (in_integer ins) \<and>
             map env (call_arguments p ins) = map Some (cl_parameters callee) \<and> in_result_type ins = cl_return callee
      else if in_opcode ins = MILENA_IR_RETURN
      then (if in_operand1_id ins = 0 then in_result_type ins = MILENA_IR_TYPE_VOID
            else env (in_operand1_id ins) = Some (in_result_type ins)) \<and>
           (ip_has_signature p \<longrightarrow> in_result_type ins = sg_return (ip_signature p))
      else case opcode_signature (in_opcode ins) of
             None \<Rightarrow> False
           | Some (operands, result) \<Rightarrow>
               map env (take (length operands) [in_operand1_id ins, in_operand2_id ins]) = map Some operands \<and>
               in_result_type ins = result)"

text \<open>What the validator tests of an instruction makes it well typed.\<close>

lemma call_well_typed:
  assumes "ir_call_ok p context (\<lambda>i t. env i = Some t) ins"
    and "in_call_offset ins \<le> length (ip_call_arguments p)" and "in_call_count ins \<le> length (ip_call_arguments p) - in_call_offset ins"
  shows "\<exists>callee \<in> set (case context of None \<Rightarrow> [] | Some cs \<Rightarrow> cs). cl_symbol callee = ucast (in_integer ins) \<and>
    map env (call_arguments p ins) = map Some (cl_parameters callee) \<and> in_result_type ins = cl_return callee"
proof -
  obtain callee where callee: "ir_module_find_function context (ucast (in_integer ins)) = Some callee"
    "in_call_count ins = length (cl_parameters callee)" "in_result_type ins = cl_return callee"
    "\<forall>i < length (cl_parameters callee). env (ip_call_arguments p ! (in_call_offset ins + i)) = Some (cl_parameters callee ! i)"
    using assms(1) by (auto simp: ir_call_ok_def list_all_iff split: option.splits)
  have "callee \<in> set (case context of None \<Rightarrow> [] | Some cs \<Rightarrow> cs)" "cl_symbol callee = ucast (in_integer ins)"
    using callee(1) by (auto simp: ir_module_find_function_def find_Some_iff split: option.splits if_splits)
  moreover have "map env (call_arguments p ins) = map Some (cl_parameters callee)"
    using callee(2,4) assms(2,3) by (intro nth_equalityI) (auto simp: call_arguments_def)
  ultimately show ?thesis using callee(3) by blast
qed

lemma uses_well_typed:
  assumes "ir_instruction_shape p context block is_last ins" and "ir_instruction_uses_ok p context (\<lambda>i t. env i = Some t) ins"
  shows "ir_well_typed p context env ins"
proof (cases "in_opcode ins = MILENA_IR_CALL")
  case True
  then show ?thesis using assms call_well_typed [of p _ env ins]
    by (auto simp: ir_well_typed_def ir_instruction_shape_def ir_instruction_uses_ok_def)
next
  case False
  then show ?thesis using assms
    by (cases "in_opcode ins")
      (auto simp: ir_well_typed_def ir_instruction_shape_def ir_instruction_uses_ok_def ir_operand_type_def ir_binary_def
        ir_binary_shape_def ir_constant_shape_def)
qed

section \<open>A typed run along a path\<close>

text \<open>
  The type of every value defined so far.  Entering a block from another defines its parameters,
  provided the edge supplies exactly one value of the right type for each; an instruction runs when
  it is well typed in what is defined so far, and defines its result.
\<close>

definition define_parameters :: "ir_program \<Rightarrow> nat \<Rightarrow> ir_env \<Rightarrow> ir_env" where
  "define_parameters p b env = env ++ map_of (map (\<lambda>q. (pm_value_id q, pm_type q)) (block_parameters p (bk_id (ip_blocks p ! b))))"

definition enter_block :: "ir_program \<Rightarrow> nat \<Rightarrow> nat \<Rightarrow> ir_env \<Rightarrow> ir_env option" where
  "enter_block p a b env =
     (let ms = block_parameters p (bk_id (ip_blocks p ! b))
      in if \<forall>i < length ms. \<exists>e. edge_matches p (bk_id (ip_blocks p ! a)) (bk_id (ip_blocks p ! b)) (of_nat i) = [e] \<and>
              env (ed_value e) = Some (pm_type (ms ! i))
         then Some (define_parameters p b env) else None)"

fun run_instructions :: "ir_program \<Rightarrow> ir_callee list option \<Rightarrow> ir_instruction list \<Rightarrow> ir_env \<Rightarrow> ir_env option" where
  "run_instructions p context [] env = Some env"
| "run_instructions p context (ins # rest) env =
     (if ir_well_typed p context env ins
      then run_instructions p context rest (if ir_defines (in_opcode ins) then env(in_result_id ins \<mapsto> in_result_type ins) else env)
      else None)"

definition run_block :: "ir_program \<Rightarrow> ir_callee list option \<Rightarrow> nat \<Rightarrow> ir_env \<Rightarrow> ir_env option" where
  "run_block p context b = run_instructions p context (block_instructions p (ip_blocks p ! b))"

fun run_path :: "ir_program \<Rightarrow> ir_callee list option \<Rightarrow> nat list \<Rightarrow> nat \<Rightarrow> ir_env \<Rightarrow> ir_env option" where
  "run_path p context [] a env = Some env"
| "run_path p context (b # bs) a env =
     (case enter_block p a b env of
        None \<Rightarrow> None
      | Some env \<Rightarrow> (case run_block p context b env of None \<Rightarrow> None | Some env \<Rightarrow> run_path p context bs b env))"

definition ir_run :: "ir_program \<Rightarrow> ir_callee list option \<Rightarrow> nat list \<Rightarrow> ir_env option" where
  "ir_run p context path =
     (case run_block p context (hd path) (define_parameters p (hd path) Map.empty) of
        None \<Rightarrow> None
      | Some env \<Rightarrow> run_path p context (tl path) (hd path) env)"

text \<open>What the validator has established of an accepted program.\<close>

definition ir_accepted :: "ir_program \<Rightarrow> ir_callee list option \<Rightarrow> bool list list \<Rightarrow> bool" where
  "ir_accepted p context rows \<longleftrightarrow> layout_ok p \<and> distinct (map vv_id (ir_values p)) \<and>
     (\<forall>q \<in> set (ip_parameters p). ir_find_block_index p (pm_block_id q) \<noteq> None) \<and>
     (\<forall>b \<in> set (ip_blocks p). ir_successors_agree p b \<and> (\<forall>k < bk_count b.
        ir_instruction_shape p context b (k + 1 = bk_count b) (ip_instructions p ! (bk_first b + k)))) \<and>
     ir_targets_exist p \<and>
     (\<forall>b < length (ip_blocks p). \<forall>a < length (ip_blocks p). rows ! b ! a \<longrightarrow> ir_dominates p a b) \<and>
     ir_uses_ok p context (ir_values p) rows \<and> ir_edge_arguments_ok p (ir_values p) rows [] (ip_edges p) \<and>
     length (ip_parameters p) < 4294967296 \<and>
     (\<forall>(source, target) \<in> set (ir_edges p). \<forall>j < length (block_parameters p target). supplied_once p source target j)"

lemma block_instructions_nth:
  assumes "layout_ok p" and "b < length (ip_blocks p)"
  shows "length (block_instructions p (ip_blocks p ! b)) = bk_count (ip_blocks p ! b)"
    and "k < bk_count (ip_blocks p ! b) \<Longrightarrow> block_instructions p (ip_blocks p ! b) ! k = ip_instructions p ! (bk_first (ip_blocks p ! b) + k)"
  using layout_block(4) [OF assms] by (simp_all add: block_instructions_def)

lemma validate_accepted:
  assumes "milena_ir_program_validate context mem p = Some True" and "length (ip_parameters p) < 4294967296"
  shows "\<exists>rows. ir_accepted p context rows \<and> ir_header_ok p"
proof -
  let ?cap = "length (ip_parameters p) + length (ip_instructions p)"
  have h: "ir_header_ok p" "ir_blocks_ok (length (ip_instructions p)) [] 0 (ip_blocks p) = Some (length (ip_instructions p))"
    using assms(1) by (auto simp: milena_ir_program_validate_def Let_def split: if_splits)
  obtain pvals entries where pvals: "ir_collect_parameters p ?cap [] 0 [] (ip_parameters p) = Some (pvals, entries)"
    using assms(1) by (auto simp: milena_ir_program_validate_def Let_def split: if_splits option.splits)
  obtain vals where vals: "ir_collect_blocks p context ?cap 0 (ip_blocks p) pvals = Some vals"
    using assms(1) pvals by (auto simp: milena_ir_program_validate_def Let_def split: if_splits option.splits)
  obtain rows where rows: "ir_dominators p mem = Some (Some rows)" "ir_targets_exist p" "ir_uses_ok p context vals rows"
    "ir_edge_arguments_ok p vals rows [] (ip_edges p)" "ir_edges_complete p (ir_edges p) = Some True"
    using assms(1) pvals vals by (auto simp: milena_ir_program_validate_def Let_def split: if_splits option.splits)
  have lay: "layout_ok p" "ip_blocks p \<noteq> []" using h by (simp_all add: layout_ok_def ir_header_ok_def)
  have "distinct (map vv_id ([] :: ir_validated_value list))" by simp
  note pv = collect_parameters_values [OF pvals this]
  have "distinct (map vv_id pvals)" using pv by blast
  note bv = collect_blocks_values [OF vals this]
  have v: "vals = ir_values p" using pv bv by (simp add: ir_values_def)
  have d: "distinct (map vv_id (ir_values p))" using bv unfolding v by blast
  have shapes: "\<forall>b \<in> set (ip_blocks p). ir_successors_agree p b \<and> (\<forall>k < bk_count b.
        ir_instruction_shape p context b (k + 1 = bk_count b) (ip_instructions p ! (bk_first b + k)))"
    using bv block_instructions_nth [OF lay(1)] by (fastforce simp: in_set_conv_nth)
  note fixed = dominators_fixed [OF lay(2) rows(1)]
  have "\<forall>b < length (ip_blocks p). \<forall>a < length (ip_blocks p). rows ! b ! a \<longrightarrow> ir_dominates p a b"
    using fixed_sound [OF _ _ _ lay(2)] fixed by (auto simp: ir_dominates_def)
  then have "ir_accepted p context rows"
    unfolding ir_accepted_def
    using lay(1) v d pv shapes rows assms(2) edges_complete [OF assms(2)] by simp
  then show ?thesis using h(1) by blast
qed

end
