(* ===== verification/IRSafety.thy ===== *)
theory IRSafety
  imports IRTypes
begin

text \<open>A run of an accepted program along any path is never stuck.\<close>

section \<open>Values and environments\<close>

definition env_has :: "ir_program \<Rightarrow> ir_env \<Rightarrow> (ir_validated_value \<Rightarrow> bool) \<Rightarrow> bool" where
  "env_has p env P \<longleftrightarrow> (\<forall>v \<in> set (ir_values p). P v \<longrightarrow> env (vv_id v) = Some (vv_type v))"

lemma env_has_mono: "env_has p env P \<Longrightarrow> (\<And>v. v \<in> set (ir_values p) \<Longrightarrow> Q v \<Longrightarrow> P v) \<Longrightarrow> env_has p env Q"
  by (auto simp: env_has_def)

lemma value_unique: "distinct (map vv_id (ir_values p)) \<Longrightarrow> v \<in> set (ir_values p) \<Longrightarrow> w \<in> set (ir_values p) \<Longrightarrow> vv_id v = vv_id w \<Longrightarrow> v = w"
  by (auto simp: distinct_map inj_on_def)

lemma env_has_update:
  assumes "env_has p env P" and "distinct (map vv_id (ir_values p))" and "v \<in> set (ir_values p)"
  shows "env_has p (env(vv_id v \<mapsto> vv_type v)) (\<lambda>w. w = v \<or> P w)"
  using assms(1) value_unique [OF assms(2) _ assms(3)] by (auto simp: env_has_def)

lemma values_cases:
  assumes "v \<in> set (ir_values p)" and "layout_ok p"
  obtains (parameter) q where "q \<in> set (ip_parameters p)" "v = parameter_value p q"
  | (instruction) b k where "b < length (ip_blocks p)" "k < bk_count (ip_blocks p ! b)"
      "ir_defines (in_opcode (ip_instructions p ! (bk_first (ip_blocks p ! b) + k)))"
      "v = instruction_value b (bk_first (ip_blocks p ! b) + k) (ip_instructions p ! (bk_first (ip_blocks p ! b) + k))"
proof (cases "v \<in> parameter_value p ` set (ip_parameters p)")
  case True
  then show ?thesis using parameter by blast
next
  case False
  then have "v \<in> set (blocks_values p 0 (ip_blocks p))" using assms(1) by (auto simp: ir_values_def)
  then obtain b ii ins where v: "b < length (ip_blocks p)"
      "(ii, ins) \<in> set (enumerate (bk_first (ip_blocks p ! b)) (block_instructions p (ip_blocks p ! b)))"
      "ir_defines (in_opcode ins)" "v = instruction_value b ii ins"
    by (auto simp: blocks_values_def block_values_def in_set_enumerate_eq)
  define k where "k = ii - bk_first (ip_blocks p ! b)"
  have "ii = bk_first (ip_blocks p ! b) + k" "k < length (block_instructions p (ip_blocks p ! b))" "block_instructions p (ip_blocks p ! b) ! k = ins"
    using v(2) by (auto simp: in_set_enumerate_eq k_def)
  then show ?thesis using v block_instructions_nth [OF assms(2) v(1)] instruction [of b k] by simp
qed

lemma instruction_in_values:
  assumes "layout_ok p" and "b < length (ip_blocks p)" and "k < bk_count (ip_blocks p ! b)"
    and "ir_defines (in_opcode (ip_instructions p ! (bk_first (ip_blocks p ! b) + k)))"
  shows "instruction_value b (bk_first (ip_blocks p ! b) + k) (ip_instructions p ! (bk_first (ip_blocks p ! b) + k)) \<in> set (ir_values p)"
proof -
  let ?b = "ip_blocks p ! b"
  note bn = block_instructions_nth [OF assms(1,2)]
  have mem: "(bk_first ?b + k, ip_instructions p ! (bk_first ?b + k)) \<in> set (enumerate (bk_first ?b) (block_instructions p ?b))"
    using bn assms(3) by (simp add: in_set_enumerate_eq)
  have "instruction_value b (bk_first ?b + k) (ip_instructions p ! (bk_first ?b + k)) \<in> set (block_values b (bk_first ?b) (block_instructions p ?b))"
    unfolding block_values_def set_map set_filter
    by (rule image_eqI [where x = "(bk_first ?b + k, ip_instructions p ! (bk_first ?b + k))"]) (use mem assms(4) in auto)
  moreover have "(b, ?b) \<in> set (enumerate 0 (ip_blocks p))" using assms(2) by (simp add: in_set_enumerate_eq)
  ultimately show ?thesis unfolding ir_values_def blocks_values_def by force
qed

lemma value_block:
  assumes "ir_accepted p context rows" and "v \<in> set (ir_values p)"
  shows "vv_block v < length (ip_blocks p)"
proof -
  have "layout_ok p" using assms(1) by (simp add: ir_accepted_def)
  with assms(2) show ?thesis
  proof (cases rule: values_cases)
    case (parameter q)
    then show ?thesis using assms(1) block_index_Some [of p "pm_block_id q"] by (fastforce simp: ir_accepted_def parameter_value_def)
  qed (simp add: instruction_value_def)
qed

lemma parameter_in_values: "q \<in> set (ip_parameters p) \<Longrightarrow> parameter_value p q \<in> set (ir_values p)"
  by (simp add: ir_values_def)

lemma parameter_of_block:
  assumes "ir_accepted p context rows" and "v \<in> set (ir_values p)" and "vv_parameter v" and "vv_block v = b"
  shows "\<exists>q \<in> set (block_parameters p (bk_id (ip_blocks p ! b))). v = parameter_value p q"
proof -
  have lay: "layout_ok p" using assms(1) by (simp add: ir_accepted_def)
  from assms(2) lay show ?thesis
  proof (cases rule: values_cases)
    case (parameter q)
    then have "ir_find_block_index p (pm_block_id q) = Some b"
      using assms(1,4) by (fastforce simp: ir_accepted_def parameter_value_def)
    then show ?thesis using parameter block_index_Some by (force simp: block_parameters_def)
  qed (use assms(3) in \<open>simp add: instruction_value_def\<close>)
qed

lemma define_parameters_has:
  assumes acc: "ir_accepted p context rows" and "env_has p env P"
  shows "env_has p (define_parameters p b env) (\<lambda>v. P v \<or> vv_block v = b \<and> vv_parameter v)"
  unfolding env_has_def
proof (intro ballI impI)
  fix v
  assume v: "v \<in> set (ir_values p)" "P v \<or> vv_block v = b \<and> vv_parameter v"
  let ?ms = "map (\<lambda>q. (pm_value_id q, pm_type q)) (block_parameters p (bk_id (ip_blocks p ! b)))"
  have d: "distinct (map vv_id (ir_values p))" using acc by (simp add: ir_accepted_def)
  show "define_parameters p b env (vv_id v) = Some (vv_type v)"
  proof (cases "map_of ?ms (vv_id v)")
    case None
    have "\<not> (vv_block v = b \<and> vv_parameter v)"
    proof
      assume "vv_block v = b \<and> vv_parameter v"
      then obtain q where "q \<in> set (block_parameters p (bk_id (ip_blocks p ! b)))" "v = parameter_value p q"
        using parameter_of_block [OF acc v(1)] by blast
      then show False using None by (force simp: map_of_eq_None_iff parameter_value_def)
    qed
    then show ?thesis using v None assms(2) by (auto simp: define_parameters_def env_has_def map_add_def)
  next
    case (Some t)
    then obtain q where q: "q \<in> set (ip_parameters p)" "pm_value_id q = vv_id v" "t = pm_type q"
      by (auto simp: block_parameters_def dest!: map_of_SomeD)
    have "parameter_value p q = v"
      by (rule value_unique [OF d parameter_in_values [OF q(1)] v(1)]) (simp add: parameter_value_def q(2))
    then have "vv_type v = t" using q(3) by (auto simp: parameter_value_def)
    then show ?thesis using Some by (simp add: define_parameters_def map_add_def)
  qed
qed

section \<open>Uses and blocks\<close>

lemma use_defined:
  assumes acc: "ir_accepted p context rows" and "ir_path p path" and "last path = b" and "b < length (ip_blocks p)"
    and has: "env_has p env (\<lambda>v. vv_block v \<in> set (butlast path) \<and> vv_block v \<noteq> b \<or> vv_block v = b \<and> (vv_parameter v \<or> vv_instruction v < ii))"
    and use: "ir_use_is_valid (ir_values p) i t b ii rows"
  shows "env i = Some t"
proof -
  have d: "distinct (map vv_id (ir_values p))" using acc by (simp add: ir_accepted_def)
  obtain v where v: "v \<in> set (ir_values p)" "vv_id v = i" "vv_type v = t"
      "vv_block v = b \<and> (vv_parameter v \<or> vv_instruction v < ii) \<or> vv_block v \<noteq> b \<and> rows ! b ! vv_block v"
    using use by (auto simp: ir_use_is_valid_def find_value_iff [OF d] split: option.splits if_splits)
  have "vv_block v \<in> set (butlast path)" if "vv_block v \<noteq> b" "rows ! b ! vv_block v"
  proof -
    have "ir_dominates p (vv_block v) b" using acc value_block [OF acc v(1)] assms(4) that by (simp add: ir_accepted_def)
    then have "vv_block v \<in> set path" using assms(2,3) by (simp add: ir_dominates_def)
    then show ?thesis using that(1) assms(3) by (metis append_butlast_last_id empty_iff list.set(1) rotate1.simps(2) set_ConsD set_rotate1)
  qed
  then show ?thesis using v has by (auto simp: env_has_def)
qed

lemma run_suffix:
  assumes acc: "ir_accepted p context rows" and path: "ir_path p path" "last path = b" "b < length (ip_blocks p)"
    and "k \<le> bk_count (ip_blocks p ! b)"
    and "env_has p env (\<lambda>v. vv_block v \<in> set (butlast path) \<and> vv_block v \<noteq> b \<or>
           vv_block v = b \<and> (vv_parameter v \<or> vv_instruction v < bk_first (ip_blocks p ! b) + k))"
  shows "\<exists>env'. run_instructions p context (drop k (block_instructions p (ip_blocks p ! b))) env = Some env' \<and>
    env_has p env' (\<lambda>v. vv_block v \<in> set path)"
  using assms(5,6)
proof (induction k arbitrary: env rule: inc_induct)
  case base
  let ?b = "ip_blocks p ! b"
  have lay: "layout_ok p" using acc by (simp add: ir_accepted_def)
  have "env_has p env (\<lambda>v. vv_block v \<in> set path)"
  proof (rule env_has_mono [OF base])
    fix v
    assume v: "v \<in> set (ir_values p)" "vv_block v \<in> set path"
    have "vv_parameter v \<or> vv_instruction v < bk_first (ip_blocks p ! vv_block v) + bk_count (ip_blocks p ! vv_block v)"
      using v(1) lay by (cases rule: values_cases) (simp_all add: parameter_value_def instruction_value_def)
    moreover have "vv_block v \<in> set (butlast path)" if "vv_block v \<noteq> b"
      using v(2) that path(2) by (metis append_butlast_last_id empty_iff list.set(1) rotate1.simps(2) set_ConsD set_rotate1)
    ultimately show "vv_block v \<in> set (butlast path) \<and> vv_block v \<noteq> b \<or>
        vv_block v = b \<and> (vv_parameter v \<or> vv_instruction v < bk_first ?b + bk_count ?b)" by auto
  qed
  then show ?case using block_instructions_nth(1) [OF lay path(3)] by simp
next
  case (step k)
  let ?b = "ip_blocks p ! b"
  let ?ins = "ip_instructions p ! (bk_first ?b + k)"
  let ?env = "if ir_defines (in_opcode ?ins) then env(in_result_id ?ins \<mapsto> in_result_type ?ins) else env"
  have lay: "layout_ok p" and d: "distinct (map vv_id (ir_values p))" using acc by (simp_all add: ir_accepted_def)
  note bn = block_instructions_nth [OF lay path(3)]
  have drop: "drop k (block_instructions p ?b) = ?ins # drop (Suc k) (block_instructions p ?b)"
    using bn step(2) by (metis Cons_nth_drop_Suc)
  have "bk_first ?b + k \<in> set [bk_first ?b..<bk_first ?b + bk_count ?b]" using step(2) by simp
  then have uses: "ir_instruction_uses_ok p context (\<lambda>i t. ir_use_is_valid (ir_values p) i t b (bk_first ?b + k) rows) ?ins"
    using acc path(3) by (auto simp: ir_accepted_def ir_uses_ok_def list_all_iff Let_def)
  have *: "ir_use_is_valid (ir_values p) i t b (bk_first ?b + k) rows \<Longrightarrow> env i = Some t" for i t
    by (rule use_defined [OF acc path step.prems])
  have "ir_instruction_uses_ok p context (\<lambda>i t. env i = Some t) ?ins"
    using uses * by (auto simp: ir_instruction_uses_ok_def ir_call_ok_def list_all_iff split: option.splits)
  moreover have "ir_instruction_shape p context ?b (k + 1 = bk_count ?b) ?ins"
    using acc path(3) step(2) by (simp add: ir_accepted_def)
  ultimately have ok: "ir_well_typed p context env ?ins" by (rule uses_well_typed [rotated])
  have "env_has p ?env (\<lambda>v. vv_block v \<in> set (butlast path) \<and> vv_block v \<noteq> b \<or>
      vv_block v = b \<and> (vv_parameter v \<or> vv_instruction v < bk_first ?b + Suc k))"
  proof (cases "ir_defines (in_opcode ?ins)")
    case True
    let ?v = "instruction_value b (bk_first ?b + k) ?ins"
    have m: "?v \<in> set (ir_values p)" by (rule instruction_in_values [OF lay path(3) step(2) True])
    from env_has_update [OF step.prems d m] have "env_has p ?env (\<lambda>w. w = ?v \<or>
        (vv_block w \<in> set (butlast path) \<and> vv_block w \<noteq> b \<or> vv_block w = b \<and> (vv_parameter w \<or> vv_instruction w < bk_first ?b + k)))"
      using True by (simp add: instruction_value_def)
    then show ?thesis
    proof (rule env_has_mono)
      fix v
      assume v: "v \<in> set (ir_values p)" "vv_block v \<in> set (butlast path) \<and> vv_block v \<noteq> b \<or>
          vv_block v = b \<and> (vv_parameter v \<or> vv_instruction v < bk_first ?b + Suc k)"
      have "v = ?v" if "vv_block v = b" "\<not> vv_parameter v" "vv_instruction v = bk_first ?b + k"
        using v(1) lay by (cases rule: values_cases) (use that in \<open>auto simp: parameter_value_def instruction_value_def\<close>)
      then show "v = ?v \<or> (vv_block v \<in> set (butlast path) \<and> vv_block v \<noteq> b \<or> vv_block v = b \<and> (vv_parameter v \<or> vv_instruction v < bk_first ?b + k))"
        using v(2) by (auto simp: less_Suc_eq)
    qed
  next
    case False
    then have "env_has p ?env (\<lambda>v. vv_block v \<in> set (butlast path) \<and> vv_block v \<noteq> b \<or>
      vv_block v = b \<and> (vv_parameter v \<or> vv_instruction v < bk_first ?b + k))" using step.prems by simp
    then show ?thesis
    proof (rule env_has_mono)
      fix v
      assume v: "v \<in> set (ir_values p)" "vv_block v \<in> set (butlast path) \<and> vv_block v \<noteq> b \<or>
          vv_block v = b \<and> (vv_parameter v \<or> vv_instruction v < bk_first ?b + Suc k)"
      have "\<not> (vv_block v = b \<and> \<not> vv_parameter v \<and> vv_instruction v = bk_first ?b + k)"
        using v(1) lay by (cases rule: values_cases) (use False in \<open>auto simp: parameter_value_def instruction_value_def\<close>)
      then show "vv_block v \<in> set (butlast path) \<and> vv_block v \<noteq> b \<or> vv_block v = b \<and> (vv_parameter v \<or> vv_instruction v < bk_first ?b + k)"
        using v(2) by (auto simp: less_Suc_eq)
    qed
  qed
  from step.IH [OF this] show ?case using ok by (simp add: drop)
qed

end
