(* ===== verification/IRProps.thy ===== *)
theory IRProps
  imports IRSafety
begin

text \<open>The properties of the validator of one program, with a function that loops as witness.\<close>

section \<open>Paths\<close>






section \<open>Properties\<close>






text \<open>
  C15.  The dominator iteration computes dominance: when it ends without a rejection, its table says
  of two blocks that the first is on every path from the entry to the second, and nothing else.
\<close>

theorem ir_dominators_exact:
  assumes "ir_dominators p mem = Some (Some rows)" and "ip_blocks p \<noteq> []" and "a < length (ip_blocks p)" and "b < length (ip_blocks p)"
  shows "rows ! b ! a \<longleftrightarrow> (\<forall>path. ir_path p path \<longrightarrow> last path = b \<longrightarrow> a \<in> set path)"
proof -
  note fixed = dominators_fixed [OF assms(2,1)]
  have "rows ! b ! a" if "ir_dominates p a b" using fixed assms(3,4) that by (simp add: dom_inv_def)
  moreover have "ir_dominates p a b" if "rows ! b ! a"
    using fixed_sound [OF _ _ _ assms(2,3)] fixed that by (auto simp: ir_dominates_def)
  ultimately show ?thesis by (auto simp: ir_dominates_def)
qed

text \<open>The validator returns on every program: the queue, the iteration and the search for the parameters of an edge end.\<close>

lemma ir_validate_returns:
  assumes "length (ip_parameters p) < 4294967296"
  shows "\<exists>answer. milena_ir_program_validate context mem p = Some answer"
proof (cases "ip_blocks p = []")
  case True
  then show ?thesis by (intro exI [of _ False]) (simp add: milena_ir_program_validate_def ir_header_ok_def Let_def)
next
  case False
  obtain r where "ir_reachable p = Some r" using reachable_returns [OF False] by blast
  moreover obtain d where "ir_dominators p mem = Some d" using dominators_return [OF False] by blast
  ultimately show ?thesis
    by (auto simp: milena_ir_program_validate_def Let_def edges_complete [OF assms] split: option.splits)
qed

section \<open>A function with a loop\<close>

text \<open>\<open>f (x) = while x < 1 do x := x + 1; return x\<close>: the entry, the test, the body and the exit.\<close>

definition f64_instruction :: "ir_opcode \<Rightarrow> ir_type \<Rightarrow> u32 \<Rightarrow> u32 \<Rightarrow> u32 \<Rightarrow> u32 \<Rightarrow> f64 \<Rightarrow> u32 \<Rightarrow> u32 \<Rightarrow> ir_instruction" where
  "f64_instruction opcode t block result a b float yes no = \<lparr>in_opcode = opcode, in_result_type = t, in_result_id = result,
     in_operand1_id = a, in_operand2_id = b, in_call_offset = 0, in_call_count = 0, in_block_id = block, in_integer = 0,
     in_float = float, in_target_true = yes, in_target_false = no, in_span = empty_span\<rparr>"

definition loop_program :: ir_program where
  "loop_program = \<lparr>ip_instructions = [
       f64_instruction MILENA_IR_CONST_F64 MILENA_IR_TYPE_F64 1 2 0 0 0x3FF0000000000000 0 0,
       f64_instruction MILENA_IR_BRANCH MILENA_IR_TYPE_VOID 1 0 0 0 0 2 0,
       f64_instruction MILENA_IR_LT_F64 MILENA_IR_TYPE_BOOL 2 4 3 2 0 0 0,
       f64_instruction MILENA_IR_COND_BRANCH MILENA_IR_TYPE_VOID 2 0 4 0 0 3 4,
       f64_instruction MILENA_IR_ADD_F64 MILENA_IR_TYPE_F64 3 5 3 2 0 0 0,
       f64_instruction MILENA_IR_BRANCH MILENA_IR_TYPE_VOID 3 0 0 0 0 2 0,
       f64_instruction MILENA_IR_RETURN MILENA_IR_TYPE_F64 4 0 3 0 0 0 0],
     ip_capacity = 8, ip_call_arguments = [], ip_call_capacity = 0,
     ip_blocks = [\<lparr>bk_id = 1, bk_first = 0, bk_count = 2, bk_successor_true = 2, bk_successor_false = 0, bk_terminated = True\<rparr>,
       \<lparr>bk_id = 2, bk_first = 2, bk_count = 2, bk_successor_true = 3, bk_successor_false = 4, bk_terminated = True\<rparr>,
       \<lparr>bk_id = 3, bk_first = 4, bk_count = 2, bk_successor_true = 2, bk_successor_false = 0, bk_terminated = True\<rparr>,
       \<lparr>bk_id = 4, bk_first = 6, bk_count = 1, bk_successor_true = 0, bk_successor_false = 0, bk_terminated = True\<rparr>],
     ip_block_capacity = 4,
     ip_parameters = [\<lparr>pm_block_id = 1, pm_value_id = 1, pm_type = MILENA_IR_TYPE_F64\<rparr>, \<lparr>pm_block_id = 2, pm_value_id = 3, pm_type = MILENA_IR_TYPE_F64\<rparr>],
     ip_parameter_capacity = 4,
     ip_edges = [\<lparr>ed_source = 1, ed_target = 2, ed_index = 0, ed_value = 1\<rparr>, \<lparr>ed_source = 3, ed_target = 2, ed_index = 0, ed_value = 5\<rparr>],
     ip_edge_capacity = 8, ip_signature = \<lparr>sg_parameters = [MILENA_IR_TYPE_F64], sg_return = MILENA_IR_TYPE_F64\<rparr>, ip_has_signature = True\<rparr>"


lemma loop_dominators: "ir_dominators loop_program (\<lambda>k. True) = Some (Some [[True, False, False, False], [True, True, False, False],
    [True, True, True, False], [True, True, False, True]])"
  by code_simp



lemma ir_dominators_exact_witness: "\<not> (\<exists>path. ir_path loop_program path \<and> last path = 3 \<and> 1 \<notin> set path)"
  using ir_dominators_exact [OF loop_dominators, of 1 3] by (simp add: loop_program_def)

end
