(* ===== verification/IRModule.thy ===== *)
theory IRModule
  imports IRProps
begin

text \<open>
  Modules: the search for recursion returns and finds exactly the cycles of calls that matter, and
  an accepted module calls only its own functions, with their signatures.
\<close>

section \<open>Calls\<close>

definition ir_calls :: "ir_module \<Rightarrow> nat \<Rightarrow> nat \<Rightarrow> bool" where
  "ir_calls m i j \<longleftrightarrow> i < length m \<and> (\<exists>c \<in> set (ir_called_symbols (m ! i)). ir_callee_index m c = Some j)"

lemma callee_index_fold:
  "fold (\<lambda>ci found. if fn_symbol (m ! ci) = c then Some ci else found) is start = Some j \<Longrightarrow>
    start = Some j \<or> j \<in> set is \<and> fn_symbol (m ! j) = c"
proof (induction "is" arbitrary: start)
  case (Cons i ks)
  then show ?case by (fastforce split: if_splits)
qed simp

lemma callee_index_Some: "ir_callee_index m c = Some j \<Longrightarrow> j < length m \<and> fn_symbol (m ! j) = c"
  unfolding ir_callee_index_def by (drule callee_index_fold) simp

section \<open>The states of the search\<close>

definition unvisited :: "nat list \<Rightarrow> nat" where
  "unvisited st = length (filter (\<lambda>x. x \<noteq> 1 \<and> x \<noteq> 2) st)"

lemma unvisited_mark: "i < length st \<Longrightarrow> st ! i \<noteq> 1 \<Longrightarrow> st ! i \<noteq> 2 \<Longrightarrow> Suc (unvisited (st[i := 1])) = unvisited st"
proof (induction st arbitrary: i)
  case (Cons x st)
  then show ?case by (cases i) (auto simp: unvisited_def)
qed simp

lemma unvisited_done: "unvisited (st[i := 2]) \<le> unvisited st"
proof (induction st arbitrary: i)
  case (Cons x st)
  show ?case
  proof (cases i)
    case (Suc j)
    then show ?thesis using Cons.IH [of j] by (simp add: unvisited_def)
  qed (simp add: unvisited_def)
qed (simp add: unvisited_def)

lemmas visit_induct = ir_module_visit_function_ir_module_visit_calls.induct

lemma visit_unvisited:
  "(\<forall>st'. ir_module_visit_function fuel m i st = Some (Some st') \<longrightarrow> i < length st \<longrightarrow> length m = length st \<longrightarrow>
      length st' = length st \<and> unvisited st' \<le> unvisited st)"
  "(\<forall>st'. ir_module_visit_calls fuel m cs st = Some (Some st') \<longrightarrow> length m = length st \<longrightarrow>
      length st' = length st \<and> unvisited st' \<le> unvisited st)"
proof (induction fuel m i st and fuel m cs st rule: visit_induct)
  case (2 fuel m index st)
  show ?case
  proof (intro allI impI)
    fix st'
    assume h: "ir_module_visit_function (Suc fuel) m index st = Some (Some st')" "index < length st" "length m = length st"
    show "length st' = length st \<and> unvisited st' \<le> unvisited st"
    proof (cases "st ! index = 1 \<or> st ! index = 2")
      case True
      then show ?thesis using h(1) by auto
    next
      case False
      then obtain st2 where st2: "ir_module_visit_calls fuel m (ir_called_symbols (m ! index)) (st[index := 1]) = Some (Some st2)" "st' = st2[index := 2]"
        using h(1) by (auto split: option.splits)
      then have "length st2 = length st" "unvisited st2 \<le> unvisited (st[index := 1])" using 2 False h(3) by auto
      moreover have "Suc (unvisited (st[index := 1])) = unvisited st" using unvisited_mark h(2) False by blast
      ultimately show ?thesis using st2(2) unvisited_done [of st2 index] by simp
    qed
  qed
next
  case (4 fuel m c cs st)
  show ?case
  proof (intro allI impI)
    fix st'
    assume h: "ir_module_visit_calls fuel m (c # cs) st = Some (Some st')" "length m = length st"
    then obtain ci st1 where s: "ir_callee_index m c = Some ci" "ir_module_visit_function fuel m ci st = Some (Some st1)"
      "ir_module_visit_calls fuel m cs st1 = Some (Some st')" by (auto split: option.splits)
    have "length st1 = length st \<and> unvisited st1 \<le> unvisited st" using 4(1) s callee_index_Some [OF s(1)] h(2) by auto
    then show "length st' = length st \<and> unvisited st' \<le> unvisited st" using 4(2) s h(2) by fastforce
  qed
qed auto

lemma visit_returns:
  "i < length st \<longrightarrow> length m = length st \<longrightarrow> unvisited st < fuel \<longrightarrow> ir_module_visit_function fuel m i st \<noteq> None"
  "length m = length st \<longrightarrow> unvisited st < fuel \<longrightarrow> ir_module_visit_calls fuel m cs st \<noteq> None"
proof (induction fuel m i st and fuel m cs st rule: visit_induct)
  case (2 fuel m index st)
  show ?case
  proof (intro impI)
    assume h: "index < length st" "length m = length st" "unvisited st < Suc fuel"
    show "ir_module_visit_function (Suc fuel) m index st \<noteq> None"
    proof (cases "st ! index = 1 \<or> st ! index = 2")
      case False
      then have "unvisited (st[index := 1]) < fuel" using unvisited_mark [of index st] h(1,3) by simp
      then have "ir_module_visit_calls fuel m (ir_called_symbols (m ! index)) (st[index := 1]) \<noteq> None" using 2 False h(2) by simp
      then show ?thesis by (auto split: option.splits)
    qed auto
  qed
next
  case (4 fuel m c cs st)
  show ?case
  proof (intro impI)
    assume h: "length m = length st" "unvisited st < fuel"
    show "ir_module_visit_calls fuel m (c # cs) st \<noteq> None"
    proof (cases "ir_callee_index m c")
      case (Some ci)
      have ci: "ci < length st" using callee_index_Some [OF Some] h(1) by simp
      then have "ir_module_visit_function fuel m ci st \<noteq> None" using 4(1) [OF Some] h by blast
      moreover have "ir_module_visit_calls fuel m cs st1 \<noteq> None" if "ir_module_visit_function fuel m ci st = Some (Some st1)" for st1
      proof -
        have "length st1 = length st \<and> unvisited st1 \<le> unvisited st" using visit_unvisited(1) that ci h(1) by blast
        then show ?thesis using 4(2) [OF Some that refl] h by simp
      qed
      ultimately show ?thesis using Some by (auto split: option.splits)
    qed simp
  qed
qed auto

text \<open>The functions that are done call only functions that are done, and without a cycle.\<close>

definition done_calls :: "ir_module \<Rightarrow> nat list \<Rightarrow> (nat \<times> nat) set" where
  "done_calls m st = {(i, j). ir_calls m i j \<and> st ! i = 2}"

definition search_ok :: "ir_module \<Rightarrow> nat list \<Rightarrow> bool" where
  "search_ok m st \<longleftrightarrow> length st = length m \<and> (\<forall>i j. ir_calls m i j \<longrightarrow> st ! i = 2 \<longrightarrow> st ! j = 2) \<and> acyclic (done_calls m st) \<and>
     (\<forall>i < length m. st ! i = 2 \<longrightarrow> (\<forall>c \<in> set (ir_called_symbols (m ! i)). ir_callee_index m c \<noteq> None))"

definition search_grows :: "nat list \<Rightarrow> nat list \<Rightarrow> bool" where
  "search_grows st st' \<longleftrightarrow> (\<forall>i < length st. (st' ! i = 1 \<longleftrightarrow> st ! i = 1) \<and> (st ! i = 2 \<longrightarrow> st' ! i = 2))"

lemma acyclic_source:
  assumes "acyclic E" and "i \<notin> Range E" and "i \<notin> S"
  shows "acyclic (E \<union> {i} \<times> S)"
proof (rule acyclicI, intro allI notI)
  fix x
  assume "(x, x) \<in> (E \<union> {i} \<times> S)\<^sup>+"
  moreover have "z \<noteq> i \<and> ((x, z) \<in> E\<^sup>+ \<or> x = i)" if "(x, z) \<in> (E \<union> {i} \<times> S)\<^sup>+" for z
    using that
  proof (induction rule: trancl_induct)
    case (base y)
    then show ?case using assms by auto
  next
    case (step y z)
    then have "(y, z) \<in> E" by auto
    then show ?case using step.IH assms(2) by (auto intro: trancl_into_trancl)
  qed
  ultimately show False using assms(1) by (auto simp: acyclic_def)
qed

lemma search_done:
  assumes ok: "search_ok m st2" and "index < length m" and i: "st2 ! index = 1"
    and callees: "\<forall>c \<in> set (ir_called_symbols (m ! index)). \<exists>j. ir_callee_index m c = Some j \<and> st2 ! j = 2"
  shows "search_ok m (st2[index := 2])"
proof -
  have len: "length st2 = length m" using ok by (simp add: search_ok_def)
  have closed: "ir_calls m a b \<Longrightarrow> st2 ! a = 2 \<Longrightarrow> st2 ! b = 2" for a b using ok by (simp add: search_ok_def)
  have out: "ir_calls m index j \<Longrightarrow> st2 ! j = 2" for j using callees by (auto simp: ir_calls_def)
  have "done_calls m (st2[index := 2]) = done_calls m st2 \<union> {index} \<times> {j. ir_calls m index j}"
    using assms(2) len i by (auto simp: done_calls_def nth_list_update_if split: if_splits)
  moreover have "acyclic (done_calls m st2 \<union> {index} \<times> {j. ir_calls m index j})"
  proof (rule acyclic_source)
    show "acyclic (done_calls m st2)" using ok by (simp add: search_ok_def)
    show "index \<notin> Range (done_calls m st2)" using closed i by (fastforce simp: done_calls_def)
    show "index \<notin> {j. ir_calls m index j}" using out i by fastforce
  qed
  moreover have "(st2[index := 2]) ! b = 2" if "ir_calls m a b" "(st2[index := 2]) ! a = 2" for a b
    using that closed out len assms(2) by (auto simp: nth_list_update_if split: if_splits)
  moreover have "ir_callee_index m c \<noteq> None" if "a < length m" "(st2[index := 2]) ! a = 2" "c \<in> set (ir_called_symbols (m ! a))" for a c
    using that ok callees by (fastforce simp: search_ok_def nth_list_update_if split: if_splits)
  ultimately show ?thesis using len by (auto simp: search_ok_def)
qed

lemma visit_ok:
  "(\<forall>st'. ir_module_visit_function fuel m i st = Some (Some st') \<longrightarrow> search_ok m st \<longrightarrow> i < length m \<longrightarrow>
      search_ok m st' \<and> search_grows st st' \<and> st' ! i = 2)"
  "(\<forall>st'. ir_module_visit_calls fuel m cs st = Some (Some st') \<longrightarrow> search_ok m st \<longrightarrow>
      search_ok m st' \<and> search_grows st st' \<and> (\<forall>c \<in> set cs. \<exists>j. ir_callee_index m c = Some j \<and> st' ! j = 2))"
proof (induction fuel m i st and fuel m cs st rule: visit_induct)
  case (2 fuel m index st)
  show ?case
  proof (intro allI impI)
    fix st'
    assume h: "ir_module_visit_function (Suc fuel) m index st = Some (Some st')" "search_ok m st" "index < length m"
    have len: "length st = length m" using h(2) by (simp add: search_ok_def)
    show "search_ok m st' \<and> search_grows st st' \<and> st' ! index = 2"
    proof (cases "st ! index = 1 \<or> st ! index = 2")
      case True
      then show ?thesis using h by (auto simp: search_grows_def)
    next
      case False
      then obtain st2 where st2: "ir_module_visit_calls fuel m (ir_called_symbols (m ! index)) (st[index := 1]) = Some (Some st2)" "st' = st2[index := 2]"
        using h(1) by (auto split: option.splits)
      have "done_calls m (st[index := 1]) = done_calls m st"
        using False h(3) len by (auto simp: done_calls_def nth_list_update_if split: if_splits)
      then have ok1: "search_ok m (st[index := 1])"
        using h(2) False by (auto simp: search_ok_def nth_list_update_if split: if_splits)
      have r: "search_ok m st2" "search_grows (st[index := 1]) st2"
        "\<forall>c \<in> set (ir_called_symbols (m ! index)). \<exists>j. ir_callee_index m c = Some j \<and> st2 ! j = 2"
        using 2 False st2(1) ok1 by auto
      have i: "st2 ! index = 1" using r(2) h(3) len by (auto simp: search_grows_def)
      have len2: "length st2 = length m" using r(1) by (simp add: search_ok_def)
      have "search_grows st (st2[index := 2])"
        using r(2) False h(3) len len2 by (auto simp: search_grows_def nth_list_update_if)
      then show ?thesis using search_done [OF r(1) h(3) i r(3)] st2(2) h(3) len2 by simp
    qed
  qed
next
  case (4 fuel m c cs st)
  show ?case
  proof (intro allI impI)
    fix st'
    assume h: "ir_module_visit_calls fuel m (c # cs) st = Some (Some st')" "search_ok m st"
    then obtain ci st1 where s: "ir_callee_index m c = Some ci" "ir_module_visit_function fuel m ci st = Some (Some st1)"
      "ir_module_visit_calls fuel m cs st1 = Some (Some st')" by (auto split: option.splits)
    have ci: "ci < length m" using callee_index_Some [OF s(1)] by simp
    have one: "search_ok m st1" "search_grows st st1" "st1 ! ci = 2" using 4(1) s h(2) ci by auto
    have two: "search_ok m st'" "search_grows st1 st'" "\<forall>c \<in> set cs. \<exists>j. ir_callee_index m c = Some j \<and> st' ! j = 2"
      using 4(2) s one(1) by auto
    have len: "length st = length m" "length st1 = length m" using h(2) one(1) by (simp_all add: search_ok_def)
    then have "search_grows st st'" "st' ! ci = 2" using one two(2) ci by (auto simp: search_grows_def)
    then show "search_ok m st' \<and> search_grows st st' \<and> (\<forall>c \<in> set (c # cs). \<exists>j. ir_callee_index m c = Some j \<and> st' ! j = 2)"
      using two s(1) by auto
  qed
qed (auto simp: search_grows_def)

lemma visit_all_ok:
  "ir_module_visit_all fuel m is st = Some (Some st') \<Longrightarrow> search_ok m st \<Longrightarrow> set is \<subseteq> {..<length m} \<Longrightarrow>
    search_ok m st' \<and> (\<forall>i < length m. st ! i = 2 \<longrightarrow> st' ! i = 2) \<and> (\<forall>i \<in> set is. st' ! i = 2)"
proof (induction "is" arbitrary: st)
  case (Cons i ks)
  obtain st1 where s: "ir_module_visit_function fuel m i st = Some (Some st1)" "ir_module_visit_all fuel m ks st1 = Some (Some st')"
    using Cons.prems(1) by (auto split: option.splits)
  have one: "search_ok m st1" "search_grows st st1" "st1 ! i = 2" using visit_ok(1) s(1) Cons.prems(2,3) by auto
  have "length st = length m" using Cons.prems(2) by (simp add: search_ok_def)
  then show ?case using Cons.IH [OF s(2) one(1)] Cons.prems(3) one by (auto simp: search_grows_def)
qed simp

lemma visit_all_returns:
  "length st = length m \<Longrightarrow> unvisited st < fuel \<Longrightarrow> set is \<subseteq> {..<length m} \<Longrightarrow> ir_module_visit_all fuel m is st \<noteq> None"
proof (induction "is" arbitrary: st)
  case (Cons i ks)
  have "ir_module_visit_function fuel m i st \<noteq> None" using visit_returns(1) Cons.prems by auto
  moreover have "ir_module_visit_all fuel m ks st1 \<noteq> None" if "ir_module_visit_function fuel m i st = Some (Some st1)" for st1
  proof -
    have "length st1 = length st \<and> unvisited st1 \<le> unvisited st" using visit_unvisited(1) that Cons.prems by auto
    then show ?thesis using Cons.IH [of st1] Cons.prems by auto
  qed
  ultimately show ?case by (auto split: option.splits)
qed simp

end
