(* ===== verification/IRModuleProps.thy ===== *)
theory IRModuleProps
  imports IRModule
begin

text \<open>The properties of modules and of the builder.\<close>

section \<open>Modules\<close>

lemma functions_ok:
  "ir_functions_ok callees mem prior fs = Some True \<Longrightarrow> distinct (map fn_symbol prior) \<Longrightarrow>
    distinct (map fn_symbol (prior @ fs)) \<and>
    (\<forall>f \<in> set fs. fn_symbol f \<noteq> 0 \<and> (\<exists>body k. fn_body f = Some body \<and>
       milena_ir_program_validate (if fn_bound f then Some callees else None) (mem k) body = Some True))"
proof (induction fs arbitrary: prior)
  case (Cons f fs)
  have f: "ir_function_ok prior f" using Cons.prems(1) by (auto split: if_splits)
  then obtain body where body: "fn_body f = Some body" by (auto simp: ir_function_ok_def split: option.splits)
  have v: "milena_ir_program_validate (if fn_bound f then Some callees else None) (mem (length prior)) body = Some True"
    and rest: "ir_functions_ok callees mem (prior @ [f]) fs = Some True"
    using Cons.prems(1) f body by (auto split: option.splits bool.splits if_splits)
  have "distinct (map fn_symbol (prior @ [f]))" "fn_symbol f \<noteq> 0"
    using f Cons.prems(2) by (fastforce simp: ir_function_ok_def split: option.splits)+
  then show ?case using Cons.IH [OF rest] body v by auto
qed simp

lemma functions_return:
  "(\<forall>f \<in> set fs. length (ip_parameters (the (fn_body f))) < 4294967296) \<Longrightarrow> \<exists>r. ir_functions_ok callees mem prior fs = Some r"
proof (induction fs arbitrary: prior)
  case (Cons f fs)
  obtain r where "milena_ir_program_validate (if fn_bound f then Some callees else None) (mem (length prior)) (the (fn_body f)) = Some r"
    using ir_validate_returns Cons.prems by fastforce
  moreover obtain r' where "ir_functions_ok callees mem (prior @ [f]) fs = Some r'" using Cons by fastforce
  ultimately show ?case by (cases r) auto
qed (intro exI [of _ True], simp)

lemma blocks_cover:
  "ir_blocks_ok count prior expected bs = Some e \<Longrightarrow> expected \<le> ii \<Longrightarrow> ii < e \<Longrightarrow>
    \<exists>b \<in> set bs. bk_first b \<le> ii \<and> ii < bk_first b + bk_count b"
proof (induction bs arbitrary: prior expected)
  case (Cons b bs)
  have h: "bk_first b = expected" "ir_blocks_ok count (prior @ [bk_id b]) (expected + bk_count b) bs = Some e"
    using Cons.prems(1) by (auto split: if_splits)
  show ?case
  proof (cases "ii < expected + bk_count b")
    case False
    then show ?thesis using Cons.IH [OF h(2)] Cons.prems(3) by auto
  qed (use h(1) Cons.prems(2) in auto)
qed simp

lemma call_immediate:
  assumes "sint (w :: 64 word) \<le> int uint32_max" and "0 \<le> sint w"
  shows "sint w = uint (ucast w :: u32)"
proof -
  have "(ucast w :: u32) = word_of_int (sint w)" by transfer (simp add: take_bit_signed_take_bit)
  then have "uint (ucast w :: u32) = take_bit 32 (sint w)" by (simp only: uint_word_of_int_eq) simp
  also have "\<dots> = sint w"
    using assms by (intro take_bit_int_eq_self) (simp_all add: uint32_max_def)
  finally show ?thesis by simp
qed

text \<open>The values that a body declares, with their types: its block parameters and its results.\<close>

definition declares :: "ir_program \<Rightarrow> u32 \<Rightarrow> ir_type \<Rightarrow> bool" where
  "declares p i t \<longleftrightarrow>
     (\<exists>q \<in> set (ip_parameters p). pm_value_id q = i \<and> pm_type q = t) \<or>
     (\<exists>ins \<in> set (ip_instructions p). ir_defines (in_opcode ins) \<and> in_result_id ins = i \<and> in_result_type ins = t)"

lemma found_value: "ir_find_value vs i = Some v \<Longrightarrow> v \<in> set vs \<and> vv_id v = i"
  by (induction vs) (auto simp: ir_find_value_def split: if_splits)

lemma used_declared:
  assumes "layout_ok p" and "ir_use_is_valid (ir_values p) i t bi ii rows"
  shows "declares p i t"
proof -
  obtain v where "ir_find_value (ir_values p) i = Some v" "vv_type v = t"
    using assms(2) by (auto simp: ir_use_is_valid_def split: option.splits if_splits)
  then have v: "v \<in> set (ir_values p)" "vv_id v = i" "vv_type v = t" by (auto dest: found_value)
  from v(1) assms(1) show ?thesis
  proof (cases rule: values_cases)
    case (parameter q)
    then show ?thesis using v by (auto simp: declares_def parameter_value_def)
  next
    case (instruction b k)
    have "bk_first (ip_blocks p ! b) + k < length (ip_instructions p)"
      using layout_block(4) [OF assms(1) instruction(1)] instruction(2) by linarith
    then show ?thesis using v instruction by (auto simp: declares_def instruction_value_def)
  qed
qed

text \<open>A call of an accepted body, against the signatures of its callees.\<close>

lemma validated_call:
  assumes "milena_ir_program_validate context mem p = Some True" and "ins \<in> set (ip_instructions p)" and "in_opcode ins = MILENA_IR_CALL"
  shows "\<exists>callee. ir_module_find_function context (ucast (in_integer ins)) = Some callee \<and>
    sint (in_integer ins) \<le> int uint32_max \<and> in_result_type ins = cl_return callee \<and>
    list_all2 (declares p) (call_arguments p ins) (cl_parameters callee)"
proof -
  let ?cap = "length (ip_parameters p) + length (ip_instructions p)"
  have lay: "layout_ok p"
    using assms(1) by (auto simp: milena_ir_program_validate_def Let_def layout_ok_def ir_header_ok_def split: if_splits)
  obtain pvals entries vals rows where pvals: "ir_collect_parameters p ?cap [] 0 [] (ip_parameters p) = Some (pvals, entries)"
    and vals: "ir_collect_blocks p context ?cap 0 (ip_blocks p) pvals = Some vals" and uses: "ir_uses_ok p context vals rows"
    using assms(1) by (auto simp: milena_ir_program_validate_def Let_def split: if_splits option.splits)
  have "distinct (map vv_id ([] :: ir_validated_value list))" by simp
  note pv = collect_parameters_values [OF pvals this]
  have "distinct (map vv_id pvals)" using pv by blast
  note bv = collect_blocks_values [OF vals this]
  have v: "vals = ir_values p" using pv bv by (simp add: ir_values_def)
  obtain ii where ii: "ii < length (ip_instructions p)" "ip_instructions p ! ii = ins" using assms(2) by (auto simp: in_set_conv_nth)
  obtain b where b: "b < length (ip_blocks p)" "bk_first (ip_blocks p ! b) \<le> ii" "ii < bk_first (ip_blocks p ! b) + bk_count (ip_blocks p ! b)"
    using blocks_cover [of _ _ _ _ _ ii] lay ii(1) by (fastforce simp: layout_ok_def in_set_conv_nth)
  define k where "k = ii - bk_first (ip_blocks p ! b)"
  have k: "k < bk_count (ip_blocks p ! b)" "bk_first (ip_blocks p ! b) + k = ii" using b(2,3) by (auto simp: k_def)
  have "ip_blocks p ! b \<in> set (ip_blocks p)" using b(1) by simp
  then have "ir_instruction_shape p context (ip_blocks p ! b) (k + 1 = length (block_instructions p (ip_blocks p ! b)))
      (block_instructions p (ip_blocks p ! b) ! k)"
    using bv k(1) block_instructions_nth(1) [OF lay b(1)] by (metis (no_types, lifting))
  then obtain is_last where shape: "ir_shape_ok p context is_last MILENA_IR_CALL ins"
    using block_instructions_nth [OF lay b(1)] k ii(2) assms(3) by (auto simp: ir_instruction_shape_def simp del: ir_shape_ok.simps)
  have "ir_instruction_uses_ok p context (\<lambda>i t. ir_use_is_valid vals i t b ii rows) ins"
    using uses ii(2) b by (auto simp: ir_uses_ok_def list_all_iff Let_def)
  then obtain callee where callee: "ir_module_find_function context (ucast (in_integer ins)) = Some callee"
    "in_call_count ins = length (cl_parameters callee)" "in_result_type ins = cl_return callee"
    "\<forall>ai < length (cl_parameters callee).
       ir_use_is_valid vals (ip_call_arguments p ! (in_call_offset ins + ai)) (cl_parameters callee ! ai) b ii rows"
    using assms(3) by (auto simp: ir_instruction_uses_ok_def ir_call_ok_def list_all_iff split: option.splits)
  have "list_all2 (declares p) (call_arguments p ins) (cl_parameters callee)"
    using callee(2,4) shape used_declared [OF lay] v by (auto simp: list_all2_conv_all_nth call_arguments_def)
  then show ?thesis using callee(1,3) shape by auto
qed

text \<open>
  C6.  In an accepted module no function reaches itself by calls, and every body is accepted against
  the signatures of the module.  Every call names, by the low 32 bits of its immediate, a function of
  the module; it takes the return type of that function and passes one argument for each of its
  parameters, a value which the body declares with the type of the parameter.  The immediate is the
  symbol itself unless it is negative.
\<close>

theorem ir_module_sound:
  assumes "milena_ir_module_validate mem m = Some True"
  shows "acyclic {(i, j). ir_calls m i j} \<and>
    (\<forall>f \<in> set m. \<exists>body mem'. fn_body f = Some body \<and>
       milena_ir_program_validate (if fn_bound f then Some (module_callees m) else None) mem' body = Some True \<and>
       (\<forall>ins \<in> set (ip_instructions body). in_opcode ins = MILENA_IR_CALL \<longrightarrow>
          (\<exists>g \<in> set m. fn_symbol g = ucast (in_integer ins) \<and>
             (0 \<le> sint (in_integer ins) \<longrightarrow> sint (in_integer ins) = uint (fn_symbol g)) \<and>
             in_result_type ins = fn_return g \<and> list_all2 (declares body) (call_arguments body ins) (fn_parameters g))))"
proof -
  have fs: "ir_functions_ok (module_callees m) mem [] m = Some True"
    using assms by (auto simp: milena_ir_module_validate_def split: if_splits option.splits bool.splits)
  obtain st' where "ir_module_visit_all (length m + 1) m [0..<length m] (replicate (length m) 0) = Some (Some st')"
    using assms fs by (auto simp: milena_ir_module_validate_def split: if_splits option.splits)
  note visited = visit_all_ok [OF this]
  have "done_calls m (replicate (length m) 0) = {}" by (auto simp: done_calls_def ir_calls_def)
  then have "search_ok m (replicate (length m) 0)" by (auto simp: search_ok_def ir_calls_def acyclic_def)
  then have st': "search_ok m st'" "\<forall>i < length m. st' ! i = 2" using visited by (auto simp: lessThan_atLeast0)
  have "{(i, j). ir_calls m i j} = done_calls m st'" using st'(2) by (auto simp: done_calls_def ir_calls_def)
  then have "acyclic {(i, j). ir_calls m i j}" using st'(1) by (simp add: search_ok_def)
  moreover have "\<exists>body mem'. fn_body f = Some body \<and>
       milena_ir_program_validate (if fn_bound f then Some (module_callees m) else None) mem' body = Some True \<and>
       (\<forall>ins \<in> set (ip_instructions body). in_opcode ins = MILENA_IR_CALL \<longrightarrow>
          (\<exists>g \<in> set m. fn_symbol g = ucast (in_integer ins) \<and>
             (0 \<le> sint (in_integer ins) \<longrightarrow> sint (in_integer ins) = uint (fn_symbol g)) \<and>
             in_result_type ins = fn_return g \<and> list_all2 (declares body) (call_arguments body ins) (fn_parameters g)))"
    if f: "f \<in> set m" for f
  proof -
    obtain body k where body: "fn_body f = Some body"
      "milena_ir_program_validate (if fn_bound f then Some (module_callees m) else None) (mem k) body = Some True"
      using functions_ok [OF fs] f by auto
    have "\<exists>g \<in> set m. fn_symbol g = ucast (in_integer ins) \<and>
        (0 \<le> sint (in_integer ins) \<longrightarrow> sint (in_integer ins) = uint (fn_symbol g)) \<and>
        in_result_type ins = fn_return g \<and> list_all2 (declares body) (call_arguments body ins) (fn_parameters g)"
      if call: "ins \<in> set (ip_instructions body)" "in_opcode ins = MILENA_IR_CALL" for ins
    proof -
      obtain callee where callee: "ir_module_find_function (if fn_bound f then Some (module_callees m) else None) (ucast (in_integer ins)) = Some callee"
        "sint (in_integer ins) \<le> int uint32_max" "in_result_type ins = cl_return callee"
        "list_all2 (declares body) (call_arguments body ins) (cl_parameters callee)"
        using validated_call [OF body(2) call] by blast
      then have "callee \<in> set (module_callees m)" "cl_symbol callee = ucast (in_integer ins)"
        by (auto simp: ir_module_find_function_def find_Some_iff split: if_splits)
      then show ?thesis using callee(2-4) call_immediate by (auto simp: module_callees_def)
    qed
    then show ?thesis using body by blast
  qed
  ultimately show ?thesis by blast
qed

text \<open>
  The validation of a module returns, whatever its control flow, its calls and the allocations
  that fail: the loops over each body end, and the search for recursion is never deeper than one
  level per function and one more.
\<close>

lemma module_validate_returns:
  assumes "\<forall>f \<in> set m. length (ip_parameters (the (fn_body f))) < 4294967296"
  shows "\<exists>answer. milena_ir_module_validate mem m = Some answer"
proof -
  obtain r where "ir_functions_ok (module_callees m) mem [] m = Some r" using functions_return [OF assms] by blast
  moreover have "unvisited (replicate (length m) 0) < length m + 1" by (simp add: unvisited_def)
  then obtain st where "ir_module_visit_all (length m + 1) m [0..<length m] (replicate (length m) 0) = Some st"
    using visit_all_returns [of "replicate (length m) 0" m "length m + 1" "[0..<length m]"] by (auto simp: lessThan_atLeast0)
  ultimately show ?thesis by (cases r) (auto simp: milena_ir_module_validate_def ex_bool_eq)
qed

section \<open>The builder\<close>

text \<open>A block whose instructions are in place, and the finished blocks before the last one.\<close>

definition block_built :: "ir_instruction list \<Rightarrow> ir_block \<Rightarrow> bool" where
  "block_built instrs b \<longleftrightarrow> bk_id b \<noteq> 0 \<and> bk_first b + bk_count b \<le> length instrs \<and>
     (\<forall>k < bk_count b. in_block_id (instrs ! (bk_first b + k)) = bk_id b \<and>
        (ir_terminator (in_opcode (instrs ! (bk_first b + k))) \<longleftrightarrow> bk_terminated b \<and> k + 1 = bk_count b)) \<and>
     (bk_terminated b \<longrightarrow> bk_count b \<noteq> 0 \<and>
        bk_successor_true b = in_target_true (instrs ! (bk_first b + bk_count b - 1)) \<and>
        bk_successor_false b = in_target_false (instrs ! (bk_first b + bk_count b - 1)))"

fun blocks_built :: "ir_instruction list \<Rightarrow> nat \<Rightarrow> ir_block list \<Rightarrow> nat \<Rightarrow> bool" where
  "blocks_built instrs e [] e' \<longleftrightarrow> e = e'"
| "blocks_built instrs e (b # bs) e' \<longleftrightarrow> bk_first b = e \<and> block_built instrs b \<and> bk_terminated b \<and> blocks_built instrs (e + bk_count b) bs e'"

definition build_ok :: "ir_program \<Rightarrow> bool" where
  "build_ok p \<longleftrightarrow> distinct (map bk_id (ip_blocks p)) \<and>
     (if ip_blocks p = [] then ip_instructions p = []
      else blocks_built (ip_instructions p) 0 (butlast (ip_blocks p)) (bk_first (last (ip_blocks p))) \<and>
           block_built (ip_instructions p) (last (ip_blocks p)) \<and>
           bk_first (last (ip_blocks p)) + bk_count (last (ip_blocks p)) = length (ip_instructions p))"

lemma block_built_append: "block_built instrs b \<Longrightarrow> block_built (instrs @ rest) b"
  by (auto simp: block_built_def nth_append)

lemma blocks_built_append: "blocks_built instrs e bs e' \<Longrightarrow> blocks_built (instrs @ rest) e bs e'"
  by (induction bs arbitrary: e) (auto intro: block_built_append)

lemma blocks_built_snoc: "blocks_built instrs e (bs @ [b]) e' \<longleftrightarrow>
    blocks_built instrs e bs (bk_first b) \<and> block_built instrs b \<and> bk_terminated b \<and> bk_first b + bk_count b = e'"
  by (induction bs arbitrary: e) auto

lemma build_append:
  assumes ok: "build_ok p" and bs: "ip_blocks p \<noteq> []" and b: "b = last (ip_blocks p)" and "\<not> bk_terminated b" and "in_block_id ins = bk_id b"
    and end': "end' = (let c = b\<lparr>bk_count := bk_count b + 1\<rparr>
      in if ir_terminator (in_opcode ins)
         then c\<lparr>bk_terminated := True, bk_successor_true := in_target_true ins, bk_successor_false := in_target_false ins\<rparr> else c)"
    and q: "ip_instructions q = ip_instructions p @ [ins]" "ip_blocks q = butlast (ip_blocks p) @ [end']"
  shows "build_ok q"
proof -
  have e: "bk_id end' = bk_id b" "bk_first end' = bk_first b" "bk_count end' = bk_count b + 1"
    "bk_terminated end' = ir_terminator (in_opcode ins)" using assms(4) by (auto simp: end' Let_def)
  have p: "blocks_built (ip_instructions p) 0 (butlast (ip_blocks p)) (bk_first b)" "block_built (ip_instructions p) b"
    "bk_first b + bk_count b = length (ip_instructions p)" using ok bs b by (simp_all add: build_ok_def)
  have "map bk_id (ip_blocks q) = map bk_id (butlast (ip_blocks p) @ [last (ip_blocks p)])" using q(2) e(1) b by simp
  then have d: "distinct (map bk_id (ip_blocks q))" using ok bs by (simp add: build_ok_def)
  have "block_built (ip_instructions q) end'"
    using p(2,3) assms(4,5) e unfolding q(1)
    by (auto simp: block_built_def nth_append less_Suc_eq end' Let_def)
  then show ?thesis using p blocks_built_append [OF p(1)] d e by (simp add: build_ok_def q)
qed

lemma append_instruction_cases:
  assumes "milena_ir_block_append_instruction alloc block_id opcode result_id result_type operand1 operand2 integer float
    target_true target_false p = (q, ok)"
  shows "(ok = False \<and> q = p) \<or> (ok = True \<and> ip_blocks p \<noteq> [] \<and> \<not> bk_terminated (last (ip_blocks p)) \<and>
    (\<exists>ins. in_block_id ins = bk_id (last (ip_blocks p)) \<and> in_opcode ins = opcode \<and> in_target_true ins = target_true \<and> in_target_false ins = target_false \<and>
      ip_instructions q = ip_instructions p @ [ins] \<and>
      ip_blocks q = butlast (ip_blocks p) @ [let c = (last (ip_blocks p))\<lparr>bk_count := bk_count (last (ip_blocks p)) + 1\<rparr>
        in if ir_terminator opcode then c\<lparr>bk_terminated := True, bk_successor_true := target_true, bk_successor_false := target_false\<rparr> else c]))"
  using assms by (auto simp: milena_ir_block_append_instruction_def Let_def split: if_splits option.splits)

lemma build_ok_cong: "build_ok p \<Longrightarrow> ip_blocks q = ip_blocks p \<Longrightarrow> ip_instructions q = ip_instructions p \<Longrightarrow> build_ok q"
  by (simp add: build_ok_def)

lemma build_add_block:
  assumes ok: "build_ok p" and "block_id \<noteq> 0" and "ip_blocks p \<noteq> [] \<longrightarrow> bk_terminated (last (ip_blocks p))"
    and "block_id \<notin> set (map bk_id (ip_blocks p))"
    and q: "ip_instructions q = ip_instructions p" "ip_blocks q = ip_blocks p @ [\<lparr>bk_id = block_id, bk_first = length (ip_instructions p), bk_count = 0,
      bk_successor_true = 0, bk_successor_false = 0, bk_terminated = False\<rparr>]"
  shows "build_ok q"
proof -
  have "blocks_built (ip_instructions p) 0 (ip_blocks p) (length (ip_instructions p))"
  proof (cases "ip_blocks p = []")
    case False
    then have "blocks_built (ip_instructions p) 0 (butlast (ip_blocks p) @ [last (ip_blocks p)]) (length (ip_instructions p))"
      using ok assms(3) unfolding blocks_built_snoc by (simp add: build_ok_def)
    then show ?thesis using False by simp
  qed (use ok in \<open>simp add: build_ok_def\<close>)
  then show ?thesis using ok assms(2,4) by (simp add: build_ok_def q block_built_def)
qed

lemma build_step_ok:
  assumes "ir_build_step p q" and "build_ok p"
  shows "build_ok q"
  using assms
proof (induction rule: ir_build_step.induct)
  case (signature alloc types ret p q ok)
  then show ?case by (auto simp: milena_ir_program_set_function_signature_def split: if_splits intro: build_ok_cong)
next
  case (block alloc block_id p q ok)
  then show ?case
    by (auto simp: milena_ir_program_add_block_def split: if_splits option.splits intro: build_add_block)
next
  case (parameter alloc block_id value_id t p q ok)
  then show ?case
    by (auto simp: milena_ir_program_add_block_parameter_def Let_def split: if_splits option.splits intro: build_ok_cong)
next
  case (edge alloc source target index value_id p q ok)
  then show ?case by (auto simp: milena_ir_block_add_edge_argument_def split: if_splits option.splits intro: build_ok_cong)
next
  case (instruction alloc block_id opcode result_id result_type operand1 operand2 integer float target_true target_false p q ok)
  from append_instruction_cases [OF instruction(1)] show ?case
    using instruction(2) by (auto intro: build_append [where p = p])
next
  case (call alloc_copy alloc_arguments alloc block_id result_id result_type target arguments p q ok)
  have "q = p \<or> (\<exists>cap r ok'. milena_ir_block_append_instruction alloc block_id MILENA_IR_CALL result_id result_type 0 0 (ucast target) 0 0 0
      (p\<lparr>ip_call_capacity := cap\<rparr>) = (r, ok') \<and> (q = r \<and> \<not> ok' \<or> ok' \<and>
      q = r\<lparr>ip_call_arguments := ip_call_arguments r @ arguments, ip_instructions := butlast (ip_instructions r) @
        [(last (ip_instructions r))\<lparr>in_call_offset := length (ip_call_arguments p), in_call_count := length arguments\<rparr>]\<rparr>))"
    using call(1) by (auto simp: milena_ir_block_append_call_def Let_def split: if_splits option.splits prod.splits bool.splits)
  then show ?case
  proof (elim disjE exE conjE)
    fix cap r ok'
    assume r: "milena_ir_block_append_instruction alloc block_id MILENA_IR_CALL result_id result_type 0 0 (ucast target) 0 0 0
      (p\<lparr>ip_call_capacity := cap\<rparr>) = (r, ok')" and "ok'"
      and q: "q = r\<lparr>ip_call_arguments := ip_call_arguments r @ arguments, ip_instructions := butlast (ip_instructions r) @
        [(last (ip_instructions r))\<lparr>in_call_offset := length (ip_call_arguments p), in_call_count := length arguments\<rparr>]\<rparr>"
    let ?p = "p\<lparr>ip_call_capacity := cap\<rparr>"
    have "build_ok ?p" by (rule build_ok_cong [OF call(2)]) simp_all
    obtain ins where ins: "ip_blocks ?p \<noteq> []" "\<not> bk_terminated (last (ip_blocks ?p))" "in_block_id ins = bk_id (last (ip_blocks ?p))"
      "in_opcode ins = MILENA_IR_CALL" "ip_instructions r = ip_instructions ?p @ [ins]"
      "ip_blocks r = butlast (ip_blocks ?p) @ [(last (ip_blocks ?p))\<lparr>bk_count := bk_count (last (ip_blocks ?p)) + 1\<rparr>]"
      using append_instruction_cases [OF r] \<open>ok'\<close> by (auto simp: Let_def ir_terminator_def)
    let ?ins = "ins\<lparr>in_call_offset := length (ip_call_arguments p), in_call_count := length arguments\<rparr>"
    show "build_ok q"
      by (rule build_append [OF \<open>build_ok ?p\<close>, where ins = ?ins and b = "last (ip_blocks ?p)"])
        (use ins in \<open>simp_all add: Let_def ir_terminator_def q\<close>)
  next
    fix cap r ok'
    assume "milena_ir_block_append_instruction alloc block_id MILENA_IR_CALL result_id result_type 0 0 (ucast target) 0 0 0
      (p\<lparr>ip_call_capacity := cap\<rparr>) = (r, ok')" "\<not> ok'" "q = r"
    then show "build_ok q" using append_instruction_cases build_ok_cong [OF call(2)] by fastforce
  qed (use call(2) in simp)
qed

lemma built_blocks_ok:
  "blocks_built instrs e bs e' \<Longrightarrow> e' \<le> length instrs \<Longrightarrow> distinct (prior @ map bk_id bs) \<Longrightarrow> ir_blocks_ok (length instrs) prior e bs = Some e'"
proof (induction bs arbitrary: e prior)
  case (Cons b bs)
  have b: "bk_first b = e" "block_built instrs b" "bk_terminated b" "blocks_built instrs (e + bk_count b) bs e'" using Cons.prems(1) by simp_all
  have "ir_blocks_ok (length instrs) (prior @ [bk_id b]) (e + bk_count b) bs = Some e'"
    by (rule Cons.IH [OF b(4) Cons.prems(2)]) (use Cons.prems(3) in simp)
  then show ?case using b Cons.prems(3) by (auto simp: block_built_def)
qed simp

lemma built_blocks_all: "blocks_built instrs e bs e' \<Longrightarrow> b \<in> set bs \<Longrightarrow> block_built instrs b \<and> bk_terminated b"
  by (induction bs arbitrary: e) auto

text \<open>
  C35.  Whatever sequence of calls a client makes of the builder, whichever of them fail and
  whichever allocations are refused: once the last block has its terminator, the blocks are laid
  out as the validator demands, every instruction belongs to its block, a terminator ends every block
  and is nowhere else, and the successors of a block are the targets of its terminator.
\<close>

theorem ir_builder_layout:
  assumes "ir_build_step\<^sup>*\<^sup>* milena_ir_program_create p" and "ip_blocks p \<noteq> []" and "bk_terminated (last (ip_blocks p))"
  shows "ir_blocks_ok (length (ip_instructions p)) [] 0 (ip_blocks p) = Some (length (ip_instructions p)) \<and>
    list_all (\<lambda>b. ir_successors_agree p b \<and> list_all (\<lambda>ins. in_block_id ins = bk_id b) (block_instructions p b) \<and>
      map (\<lambda>ins. ir_terminator (in_opcode ins)) (block_instructions p b) = replicate (bk_count b - 1) False @ [True]) (ip_blocks p)"
proof -
  have "build_ok p"
    using assms(1)
  proof (induction rule: rtranclp_induct)
    case base
    then show ?case by (simp add: build_ok_def milena_ir_program_create_def)
  qed (rule build_step_ok)
  then have d: "distinct (map bk_id (ip_blocks p))"
    and "blocks_built (ip_instructions p) 0 (butlast (ip_blocks p) @ [last (ip_blocks p)]) (length (ip_instructions p))"
    using assms(2,3) unfolding blocks_built_snoc by (simp_all add: build_ok_def)
  then have built: "blocks_built (ip_instructions p) 0 (ip_blocks p) (length (ip_instructions p))" using assms(2) by simp
  have "ir_successors_agree p b \<and> list_all (\<lambda>ins. in_block_id ins = bk_id b) (block_instructions p b) \<and>
      map (\<lambda>ins. ir_terminator (in_opcode ins)) (block_instructions p b) = replicate (bk_count b - 1) False @ [True]"
    if "b \<in> set (ip_blocks p)" for b
  proof -
    have b: "block_built (ip_instructions p) b" "bk_terminated b" using built_blocks_all [OF built that] by simp_all
    then have len: "length (block_instructions p b) = bk_count b" "bk_count b \<noteq> 0" by (auto simp: block_built_def block_instructions_def min_def)
    have nth: "k < bk_count b \<Longrightarrow> block_instructions p b ! k = ip_instructions p ! (bk_first b + k)" for k
      using b(1) by (simp add: block_instructions_def block_built_def)
    have "map (\<lambda>ins. ir_terminator (in_opcode ins)) (block_instructions p b) = replicate (bk_count b - 1) False @ [True]"
      by (rule nth_equalityI) (use b len nth in \<open>auto simp: block_built_def nth_append\<close>)
    then show ?thesis using b len nth by (auto simp: ir_successors_agree_def Let_def block_built_def list_all_length)
  qed
  then show ?thesis using built_blocks_ok [OF built order_refl, of "[]"] d by (auto simp: list_all_iff)
qed

section \<open>A module of two functions\<close>

text \<open>\<open>g (x) = f (x)\<close>, where \<open>f\<close> returns its argument; and \<open>g\<close> built by the builder.\<close>

definition identity_program :: ir_program where
  "identity_program = loop_program\<lparr>ip_instructions := [f64_instruction MILENA_IR_RETURN MILENA_IR_TYPE_F64 1 0 1 0 0 0 0],
     ip_blocks := [\<lparr>bk_id = 1, bk_first = 0, bk_count = 1, bk_successor_true = 0, bk_successor_false = 0, bk_terminated = True\<rparr>],
     ip_parameters := [\<lparr>pm_block_id = 1, pm_value_id = 1, pm_type = MILENA_IR_TYPE_F64\<rparr>], ip_edges := [], ip_edge_capacity := 0\<rparr>"

definition call_instruction :: "ir_instruction" where
  "call_instruction = (f64_instruction MILENA_IR_CALL MILENA_IR_TYPE_F64 1 2 0 0 0 0 0)\<lparr>in_call_count := 1, in_integer := 7\<rparr>"

definition call_program :: ir_program where
  "call_program = loop_program\<lparr>ip_instructions := [call_instruction, f64_instruction MILENA_IR_RETURN MILENA_IR_TYPE_F64 1 0 2 0 0 0 0],
     ip_call_arguments := [1], ip_call_capacity := 8,
     ip_blocks := [\<lparr>bk_id = 1, bk_first = 0, bk_count = 2, bk_successor_true = 0, bk_successor_false = 0, bk_terminated = True\<rparr>],
     ip_parameters := [\<lparr>pm_block_id = 1, pm_value_id = 1, pm_type = MILENA_IR_TYPE_F64\<rparr>], ip_edges := [], ip_edge_capacity := 0\<rparr>"

definition two_functions :: ir_module where
  "two_functions = [
     \<lparr>fn_name = Some [0x66], fn_symbol = 7, fn_parameters = [MILENA_IR_TYPE_F64], fn_return = MILENA_IR_TYPE_F64, fn_body = Some identity_program, fn_bound = True\<rparr>,
     \<lparr>fn_name = Some [0x67], fn_symbol = 9, fn_parameters = [MILENA_IR_TYPE_F64], fn_return = MILENA_IR_TYPE_F64, fn_body = Some call_program, fn_bound = True\<rparr>]"

lemma two_functions_valid: "milena_ir_module_validate (\<lambda>f k. True) two_functions = Some True"
  by code_simp

lemma ir_module_sound_witness:
  "acyclic {(i, j). ir_calls two_functions i j} \<and>
    (\<exists>g \<in> set two_functions. fn_symbol g = 7 \<and> fn_return g = MILENA_IR_TYPE_F64 \<and> list_all2 (declares call_program) [1] (fn_parameters g))"
proof -
  have "call_instruction \<in> set (ip_instructions call_program)" by (simp add: call_program_def)
  moreover have args: "call_arguments call_program call_instruction = [1]"
    by (simp add: call_arguments_def call_program_def call_instruction_def f64_instruction_def)
  have c: "in_opcode call_instruction = MILENA_IR_CALL" "in_integer call_instruction = 7"
    "in_result_type call_instruction = MILENA_IR_TYPE_F64"
    by (simp_all add: call_instruction_def f64_instruction_def)
  define f where "f = two_functions ! 1"
  have f: "f \<in> set two_functions" "fn_body f = Some call_program" by (simp_all add: f_def two_functions_def)
  note sound = ir_module_sound [OF two_functions_valid]
  from conjunct2 [OF sound, rule_format, OF f(1)] f(2) have "\<forall>ins \<in> set (ip_instructions call_program). in_opcode ins = MILENA_IR_CALL \<longrightarrow>
      (\<exists>g \<in> set two_functions. fn_symbol g = ucast (in_integer ins) \<and> in_result_type ins = fn_return g \<and>
        list_all2 (declares call_program) (call_arguments call_program ins) (fn_parameters g))" by auto
  ultimately obtain g where "g \<in> set two_functions" "fn_symbol g = ucast (in_integer call_instruction)"
    "in_result_type call_instruction = fn_return g" "list_all2 (declares call_program) [1] (fn_parameters g)"
    using c(1) args by metis
  then show ?thesis using sound c by (intro conjI bexI [of _ g]) simp_all
qed

definition built_program :: ir_program where
  "built_program = fst (milena_ir_block_append_instruction True 1 MILENA_IR_RETURN 0 MILENA_IR_TYPE_F64 2 0 0 0 0 0
     (fst (milena_ir_block_append_call True True True 1 2 MILENA_IR_TYPE_F64 7 [1]
       (fst (milena_ir_program_add_block_parameter True 1 1 MILENA_IR_TYPE_F64
         (fst (milena_ir_program_add_block True 1
           (fst (milena_ir_program_set_function_signature True [MILENA_IR_TYPE_F64] MILENA_IR_TYPE_F64 milena_ir_program_create)))))))))"

lemma built_steps: "ir_build_step\<^sup>*\<^sup>* milena_ir_program_create built_program"
proof -
  have one: "ir_build_step p (fst (milena_ir_program_set_function_signature alloc types ret p))"
    "ir_build_step p (fst (milena_ir_program_add_block alloc block_id p))"
    "ir_build_step p (fst (milena_ir_program_add_block_parameter alloc block_id value_id t p))"
    "ir_build_step p (fst (milena_ir_block_append_call alloc_copy alloc_arguments alloc block_id result_id t target arguments p))"
    "ir_build_step p (fst (milena_ir_block_append_instruction alloc block_id opcode result_id t operand1 operand2 integer float yes no p))"
    for p alloc types ret block_id value_id t alloc_copy alloc_arguments result_id target arguments opcode operand1 operand2 integer float yes no
    by (rule ir_build_step.intros, rule surjective_pairing)+
  show ?thesis unfolding built_program_def by (intro rtranclp.rtrancl_into_rtrancl [where r = ir_build_step, OF _ one(5)] rtranclp.rtrancl_into_rtrancl [where r = ir_build_step, OF _ one(4)]
      rtranclp.rtrancl_into_rtrancl [where r = ir_build_step, OF _ one(3)] rtranclp.rtrancl_into_rtrancl [where r = ir_build_step, OF _ one(2)] rtranclp.rtrancl_into_rtrancl [where r = ir_build_step, OF _ one(1)]
      rtranclp.rtrancl_refl)
qed

lemma built_blocks: "ip_blocks built_program =
    [\<lparr>bk_id = 1, bk_first = 0, bk_count = 2, bk_successor_true = 0, bk_successor_false = 0, bk_terminated = True\<rparr>]"
  by code_simp

lemma ir_builder_layout_witness: "ir_blocks_ok (length (ip_instructions built_program)) [] 0 (ip_blocks built_program) = Some (length (ip_instructions built_program))"
  using ir_builder_layout [OF built_steps] by (simp add: built_blocks)

end
