(* ===== verification/TypedBytecode.thy ===== *)
theory TypedBytecode
  imports IRModuleProps "HOL-Library.Monad_Syntax"
begin

text \<open>
  typed_bytecode.c: the serialised form of a validated IR module, version 1.1 with source spans, and
  its reader, which also takes version 1.0.

  A writer is its bytes with its capacity and the number of reallocations asked for; \<open>mem\<close> says
  which succeed.  The writes of the encoder are given as the list of its fields in order, \<open>None\<close>
  being a field the encoder refuses.  A reader is the list of bytes that are left.  The host's double
  is binary64 (\<open>host_has_binary64\<close>).  A validation that does not return gives an outer
  \<open>None\<close>.
\<close>

definition typed_header_size :: nat where "typed_header_size = 16"
definition typed_max_functions :: nat where "typed_max_functions = 1024"
definition typed_max_name :: nat where "typed_max_name = 4096"
definition typed_max_blocks :: nat where "typed_max_blocks = 512"
definition typed_max_items :: nat where "typed_max_items = 1000000"
definition typed_max_size :: nat where "typed_max_size = 67108864"
definition block_record_size :: nat where "block_record_size = 24"
definition parameter_record_size :: nat where "parameter_record_size = 12"
definition edge_record_size :: nat where "edge_record_size = 16"
definition call_record_size :: nat where "call_record_size = 4"
definition typed_magic :: bytes where "typed_magic = [0x4D, 0x4C, 0x42, 0x43]"

definition instruction_record_size :: "nat \<Rightarrow> nat" where
  "instruction_record_size minor = (if minor = 0 then 52 else 52 + 52)"

section \<open>Codes of opcodes and types\<close>

definition ir_opcodes :: "ir_opcode list" where
  "ir_opcodes = [MILENA_IR_CONST_I64, MILENA_IR_CONST_F64, MILENA_IR_ADD_I64, MILENA_IR_ADD_F64, MILENA_IR_EQ_I64, MILENA_IR_BRANCH,
     MILENA_IR_COND_BRANCH, MILENA_IR_RETURN, MILENA_IR_CONST_BOOL, MILENA_IR_SUB_F64, MILENA_IR_MUL_F64, MILENA_IR_DIV_F64,
     MILENA_IR_EQ_F64, MILENA_IR_NE_F64, MILENA_IR_LT_F64, MILENA_IR_LE_F64, MILENA_IR_GT_F64, MILENA_IR_GE_F64, MILENA_IR_CALL]"

definition ir_opcode_code :: "ir_opcode \<Rightarrow> nat" where
  "ir_opcode_code opcode = (case find_index ((=) opcode) ir_opcodes of None \<Rightarrow> 19 | Some n \<Rightarrow> n)"

definition ir_types :: "ir_type list" where
  "ir_types = [MILENA_IR_TYPE_INVALID, MILENA_IR_TYPE_I64, MILENA_IR_TYPE_F64, MILENA_IR_TYPE_BOOL, MILENA_IR_TYPE_VOID]"

definition ir_type_code :: "ir_type \<Rightarrow> nat" where
  "ir_type_code t = the (find_index ((=) t) ir_types)"

section \<open>The writer\<close>

record byte_writer =
  bw_data :: bytes
  bw_capacity :: nat
  bw_requests :: nat

function typed_capacity :: "nat \<Rightarrow> nat \<Rightarrow> nat" where
  "typed_capacity needed capacity =
     (if capacity \<ge> needed \<or> capacity = 0 then capacity
      else if capacity > typed_max_size div 2 then typed_max_size
      else typed_capacity needed (capacity * 2))"
  by pat_completeness auto

termination by (relation "measure (\<lambda>(needed, capacity). needed - capacity)") auto

declare typed_capacity.simps [simp del]

definition writer_reserve :: "(nat \<Rightarrow> bool) \<Rightarrow> nat \<Rightarrow> byte_writer \<Rightarrow> byte_writer option" where
  "writer_reserve mem extra w =
     (if extra > typed_max_size - length (bw_data w) then None
      else let needed = length (bw_data w) + extra
           in if needed \<le> bw_capacity w then Some w
              else let capacity = typed_capacity needed (if bw_capacity w \<noteq> 0 then bw_capacity w else 256)
                   in if capacity < needed then None
                      else if \<not> mem (bw_requests w) then None
                      else Some (w\<lparr>bw_capacity := capacity, bw_requests := bw_requests w + 1\<rparr>))"

definition writer_bytes :: "(nat \<Rightarrow> bool) \<Rightarrow> bytes \<Rightarrow> byte_writer \<Rightarrow> byte_writer option" where
  "writer_bytes mem run w = map_option (\<lambda>w. w\<lparr>bw_data := bw_data w @ run\<rparr>) (writer_reserve mem (length run) w)"

text \<open>Writing fields one after the other until one fails.\<close>

fun writer_fields :: "(nat \<Rightarrow> bool) \<Rightarrow> bytes option list \<Rightarrow> byte_writer \<Rightarrow> byte_writer option" where
  "writer_fields mem [] w = Some w"
| "writer_fields mem (None # fs) w = None"
| "writer_fields mem (Some run # fs) w = (case writer_bytes mem run w of None \<Rightarrow> None | Some w \<Rightarrow> writer_fields mem fs w)"

section \<open>The fields of a module\<close>

definition writer_u8 :: "u8 \<Rightarrow> bytes option" where "writer_u8 v = Some [v]"
definition writer_u16 :: "u16 \<Rightarrow> bytes option" where "writer_u16 v = Some (put_le 2 v)"
definition writer_u32 :: "u32 \<Rightarrow> bytes option" where "writer_u32 v = Some (put_le 4 v)"
definition writer_u64 :: "u64 \<Rightarrow> bytes option" where "writer_u64 v = Some (put_le 8 v)"
definition writer_zeroes :: "nat \<Rightarrow> bytes option" where "writer_zeroes n = Some (replicate n 0)"

definition writer_count :: "nat \<Rightarrow> nat \<Rightarrow> bytes option" where
  "writer_count n maximum = (if n > maximum \<or> n > uint32_max then None else writer_u32 (of_nat n))"

definition writer_type :: "ir_type \<Rightarrow> bytes option" where
  "writer_type t = (if t = MILENA_IR_TYPE_INVALID then None else writer_u8 (of_nat (ir_type_code t)))"

definition flag_byte :: "bool \<Rightarrow> u8" where "flag_byte b = (if b then 1 else 0)"

definition encode_signed_i64 :: "u64 \<Rightarrow> u64" where "encode_signed_i64 value = value"

definition decode_signed_i64 :: "u64 \<Rightarrow> u64" where
  "decode_signed_i64 bits = (if unat bits \<le> 9223372036854775807 then bits else - 1 - (- 1 - bits))"

definition block_fields :: "ir_block \<Rightarrow> bytes option list" where
  "block_fields b = [writer_u32 (bk_id b), writer_u32 (of_nat (bk_first b)), writer_u32 (of_nat (bk_count b)),
     writer_u32 (bk_successor_true b), writer_u32 (bk_successor_false b), writer_u8 (flag_byte (bk_terminated b)), writer_zeroes 3]"

definition parameter_fields :: "ir_parameter \<Rightarrow> bytes option list" where
  "parameter_fields q = [writer_u32 (pm_block_id q), writer_u32 (pm_value_id q), writer_type (pm_type q), writer_zeroes 3]"

definition edge_fields :: "ir_edge \<Rightarrow> bytes option list" where
  "edge_fields a = [writer_u32 (ed_source a), writer_u32 (ed_target a), writer_u32 (ed_index a), writer_u32 (ed_value a)]"

definition span_fields :: "ir_span \<Rightarrow> bytes option list" where
  "span_fields s = [writer_u64 (sp_line s), writer_u64 (sp_column s), writer_u64 (sp_end_line s), writer_u64 (sp_end_column s),
     writer_u64 (sp_start_offset s), writer_u64 (sp_end_offset s), writer_u8 (flag_byte (sp_has_source_span s)), writer_zeroes 3]"

definition instruction_fields :: "ir_instruction \<Rightarrow> bytes option list" where
  "instruction_fields ins =
     [if in_opcode ins = MILENA_IR_OPCODE_COUNT then None else writer_u16 (of_nat (ir_opcode_code (in_opcode ins))),
      writer_type (in_result_type ins), writer_u8 0, writer_u32 (in_result_id ins), writer_u32 (in_operand1_id ins),
      writer_u32 (in_operand2_id ins), writer_u32 (in_block_id ins),
      writer_count (in_call_offset ins) typed_max_items, writer_count (in_call_count ins) typed_max_items,
      writer_u64 (encode_signed_i64 (in_integer ins)), writer_u64 (in_float ins),
      writer_u32 (in_target_true ins), writer_u32 (in_target_false ins)] @ span_fields (in_span ins)"

definition encode_program :: "ir_program \<Rightarrow> bytes option list" where
  "encode_program p =
     (if \<not> ip_has_signature p then [None]
      else [writer_count (length (ip_blocks p)) typed_max_blocks, writer_count (length (ip_parameters p)) typed_max_items,
            writer_count (length (ip_edges p)) typed_max_items, writer_count (length (ip_call_arguments p)) typed_max_items,
            writer_count (length (ip_instructions p)) typed_max_items,
            writer_type (sg_return (ip_signature p)), writer_count (length (sg_parameters (ip_signature p))) typed_max_items] @
           map writer_type (sg_parameters (ip_signature p)) @
           concat (map block_fields (ip_blocks p)) @ concat (map parameter_fields (ip_parameters p)) @
           concat (map edge_fields (ip_edges p)) @ map writer_u32 (ip_call_arguments p) @
           concat (map instruction_fields (ip_instructions p)))"

definition function_fields :: "ir_function \<Rightarrow> bytes option list" where
  "function_fields f =
     (let name = the (fn_name f)
      in if length name = 0 \<or> length name > typed_max_name then [None]
         else [writer_u32 (fn_symbol f), writer_u32 (of_nat (length name)), Some name,
               writer_count (length (fn_parameters f)) typed_max_items, writer_type (fn_return f)] @
              map writer_type (fn_parameters f) @ encode_program (the (fn_body f)))"

definition header_fields :: "ir_module \<Rightarrow> bytes option list" where
  "header_fields m = [Some typed_magic, writer_u16 1, writer_u16 1, writer_u32 0, writer_u32 0,
     writer_count (length m) typed_max_functions]"

definition milena_bytecode_encode_module ::
  "(nat \<Rightarrow> nat \<Rightarrow> bool) \<Rightarrow> (nat \<Rightarrow> bool) \<Rightarrow> ir_module \<Rightarrow> bytes option option"
where
  "milena_bytecode_encode_module vmem mem m =
     (if length m = 0 \<or> length m > typed_max_functions then Some None
      else case milena_ir_module_validate vmem m of
             None \<Rightarrow> None
           | Some False \<Rightarrow> Some None
           | Some True \<Rightarrow>
               if \<not> list_all fn_bound m then Some None
               else case writer_fields mem (header_fields m @ concat (map function_fields m)) \<lparr>bw_data = [], bw_capacity = 0, bw_requests = 0\<rparr> of
                      None \<Rightarrow> Some None
                    | Some w \<Rightarrow>
                        let payload = length (bw_data w) - typed_header_size
                        in if payload > uint32_max then Some None
                           else Some (Some (poke 12 (put_le 4 (of_nat payload :: u32)) (bw_data w))))"

section \<open>The reader\<close>

definition reader_bytes :: "nat \<Rightarrow> bytes \<Rightarrow> (bytes \<times> bytes) option" where
  "reader_bytes n bs = (if n > length bs then None else Some (take n bs, drop n bs))"

definition reader_u8 :: "bytes \<Rightarrow> (u8 \<times> bytes) option" where
  "reader_u8 bs = map_option (\<lambda>(r, bs). (r ! 0, bs)) (reader_bytes 1 bs)"

definition reader_u16 :: "bytes \<Rightarrow> (u16 \<times> bytes) option" where
  "reader_u16 bs = map_option (\<lambda>(r, bs). (get_le 2 r, bs)) (reader_bytes 2 bs)"

definition reader_u32 :: "bytes \<Rightarrow> (u32 \<times> bytes) option" where
  "reader_u32 bs = map_option (\<lambda>(r, bs). (get_le 4 r, bs)) (reader_bytes 4 bs)"

definition reader_u64 :: "bytes \<Rightarrow> (u64 \<times> bytes) option" where
  "reader_u64 bs = map_option (\<lambda>(r, bs). (get_le 8 r, bs)) (reader_bytes 8 bs)"

definition reader_reserved_zeroes :: "nat \<Rightarrow> bytes \<Rightarrow> bytes option" where
  "reader_reserved_zeroes n bs =
     (case reader_bytes n bs of None \<Rightarrow> None | Some (r, bs) \<Rightarrow> if \<exists>b \<in> set r. b \<noteq> 0 then None else Some bs)"

definition reader_count :: "nat \<Rightarrow> nat \<Rightarrow> bytes \<Rightarrow> (nat \<times> bytes) option" where
  "reader_count maximum record_size bs =
     do {
       (n, bs) \<leftarrow> reader_u32 bs;
       if unat n > maximum \<or> (record_size \<noteq> 0 \<and> unat n > length bs div record_size) then None else Some (unat n, bs)
     }"

definition type_of_code :: "u8 \<Rightarrow> ir_type option" where
  "type_of_code raw = (if raw = 0 \<or> unat raw > 4 then None else Some (ir_types ! unat raw))"

definition reader_type :: "bytes \<Rightarrow> (ir_type \<times> bytes) option" where
  "reader_type bs =
     do {
       (raw, bs) \<leftarrow> reader_u8 bs;
       t \<leftarrow> type_of_code raw;
       Some (t, bs)
     }"

definition read_name :: "bool \<Rightarrow> bytes \<Rightarrow> (bytes \<times> bytes) option" where
  "read_name alloc bs =
     do {
       (n, bs) \<leftarrow> reader_u32 bs;
       if n = 0 \<or> unat n > typed_max_name \<or> unat n > length bs then None
       else if \<not> alloc then None
       else do {
         (name, bs) \<leftarrow> reader_bytes (unat n) bs;
         if 0 \<in> set name then None else Some (name, bs)
       }
     }"

fun read_many :: "nat \<Rightarrow> (bytes \<Rightarrow> ('a \<times> bytes) option) \<Rightarrow> bytes \<Rightarrow> ('a list \<times> bytes) option" where
  "read_many 0 r bs = Some ([], bs)"
| "read_many (Suc n) r bs =
     do {
       (x, bs) \<leftarrow> r bs;
       (xs, bs) \<leftarrow> read_many n r bs;
       Some (x # xs, bs)
     }"

definition read_block :: "bytes \<Rightarrow> (ir_block \<times> bytes) option" where
  "read_block bs =
     do {
       (i, bs) \<leftarrow> reader_u32 bs;
       (first, bs) \<leftarrow> reader_u32 bs;
       (n, bs) \<leftarrow> reader_u32 bs;
       (yes, bs) \<leftarrow> reader_u32 bs;
       (no, bs) \<leftarrow> reader_u32 bs;
       (terminated, bs) \<leftarrow> reader_u8 bs;
       bs \<leftarrow> reader_reserved_zeroes 3 bs;
       if terminated > 1 then None
       else Some (\<lparr>bk_id = i, bk_first = unat first, bk_count = unat n, bk_successor_true = yes, bk_successor_false = no,
                   bk_terminated = (terminated \<noteq> 0)\<rparr>, bs)
     }"

definition read_parameter :: "bytes \<Rightarrow> (ir_parameter \<times> bytes) option" where
  "read_parameter bs =
     do {
       (b, bs) \<leftarrow> reader_u32 bs;
       (v, bs) \<leftarrow> reader_u32 bs;
       (t, bs) \<leftarrow> reader_type bs;
       bs \<leftarrow> reader_reserved_zeroes 3 bs;
       Some (\<lparr>pm_block_id = b, pm_value_id = v, pm_type = t\<rparr>, bs)
     }"

definition read_edge :: "bytes \<Rightarrow> (ir_edge \<times> bytes) option" where
  "read_edge bs =
     do {
       (s, bs) \<leftarrow> reader_u32 bs;
       (t, bs) \<leftarrow> reader_u32 bs;
       (i, bs) \<leftarrow> reader_u32 bs;
       (v, bs) \<leftarrow> reader_u32 bs;
       Some (\<lparr>ed_source = s, ed_target = t, ed_index = i, ed_value = v\<rparr>, bs)
     }"

definition read_span :: "bytes \<Rightarrow> (ir_span \<times> bytes) option" where
  "read_span bs =
     do {
       (l, bs) \<leftarrow> reader_u64 bs;
       (c, bs) \<leftarrow> reader_u64 bs;
       (el, bs) \<leftarrow> reader_u64 bs;
       (ec, bs) \<leftarrow> reader_u64 bs;
       (so, bs) \<leftarrow> reader_u64 bs;
       (eo, bs) \<leftarrow> reader_u64 bs;
       (has, bs) \<leftarrow> reader_u8 bs;
       bs \<leftarrow> reader_reserved_zeroes 3 bs;
       if has > 1 then None
       else Some (\<lparr>sp_line = l, sp_column = c, sp_end_line = el, sp_end_column = ec, sp_start_offset = so, sp_end_offset = eo,
                   sp_has_source_span = (has \<noteq> 0)\<rparr>, bs)
     }"

definition read_instruction :: "nat \<Rightarrow> bytes \<Rightarrow> (ir_instruction \<times> bytes) option" where
  "read_instruction minor bs =
     do {
       (opcode, bs) \<leftarrow> reader_u16 bs;
       (raw, bs) \<leftarrow> reader_u8 bs;
       (reserved, bs) \<leftarrow> reader_u8 bs;
       (result, bs) \<leftarrow> reader_u32 bs;
       (operand1, bs) \<leftarrow> reader_u32 bs;
       (operand2, bs) \<leftarrow> reader_u32 bs;
       (block, bs) \<leftarrow> reader_u32 bs;
       (offset, bs) \<leftarrow> reader_u32 bs;
       (n, bs) \<leftarrow> reader_u32 bs;
       (integer, bs) \<leftarrow> reader_u64 bs;
       (float, bs) \<leftarrow> reader_u64 bs;
       (yes, bs) \<leftarrow> reader_u32 bs;
       (no, bs) \<leftarrow> reader_u32 bs;
       (span, bs) \<leftarrow> (if minor \<ge> 1 then read_span bs else Some (empty_span, bs));
       if reserved \<noteq> 0 \<or> unat opcode \<ge> 19 then None
       else do {
         t \<leftarrow> type_of_code raw;
         Some (\<lparr>in_opcode = ir_opcodes ! unat opcode, in_result_type = t, in_result_id = result, in_operand1_id = operand1,
                in_operand2_id = operand2, in_call_offset = unat offset, in_call_count = unat n, in_block_id = block,
                in_integer = decode_signed_i64 integer, in_float = float, in_target_true = yes, in_target_false = no, in_span = span\<rparr>, bs)
       }
     }"

text \<open>The allocations of the decoder of a function.\<close>

datatype decode_site =
    SiteName | SiteParameterTypes | SiteBody | SiteSignature | SiteSignatureCopy
  | SiteBlocks | SiteParameters | SiteEdges | SiteCallArguments | SiteInstructions

definition array_sizes_fit :: "nat \<Rightarrow> nat \<Rightarrow> nat \<Rightarrow> nat \<Rightarrow> nat \<Rightarrow> bool" where
  "array_sizes_fit blocks parameters edges calls count \<longleftrightarrow> blocks \<le> size_max div sizeof_block \<and> parameters \<le> size_max div sizeof_parameter \<and>
     edges \<le> size_max div sizeof_edge \<and> calls \<le> size_max div 4 \<and> count \<le> size_max div sizeof_instruction"

definition arrays_allocated :: "(decode_site \<Rightarrow> bool) \<Rightarrow> nat \<Rightarrow> nat \<Rightarrow> nat \<Rightarrow> bool" where
  "arrays_allocated mem parameters edges calls \<longleftrightarrow> mem SiteBlocks \<and> \<not> (parameters \<noteq> 0 \<and> \<not> mem SiteParameters) \<and>
     \<not> (edges \<noteq> 0 \<and> \<not> mem SiteEdges) \<and> \<not> (calls \<noteq> 0 \<and> \<not> mem SiteCallArguments) \<and> mem SiteInstructions"

definition decode_arrays :: "nat \<Rightarrow> nat \<Rightarrow> nat \<Rightarrow> nat \<Rightarrow> nat \<Rightarrow> nat \<Rightarrow> ir_program \<Rightarrow> bytes \<Rightarrow> (ir_program \<times> bytes) option" where
  "decode_arrays minor blocks parameters edges calls count p bs =
     do {
       (bl, bs) \<leftarrow> read_many blocks read_block bs;
       (pa, bs) \<leftarrow> read_many parameters read_parameter bs;
       (ed, bs) \<leftarrow> read_many edges read_edge bs;
       (ca, bs) \<leftarrow> read_many calls reader_u32 bs;
       (is, bs) \<leftarrow> read_many count (read_instruction minor) bs;
       Some (p\<lparr>ip_blocks := bl, ip_block_capacity := blocks, ip_parameters := pa, ip_parameter_capacity := parameters,
               ip_edges := ed, ip_edge_capacity := edges, ip_call_arguments := ca, ip_call_capacity := calls,
               ip_instructions := is, ip_capacity := count\<rparr>, bs)
     }"

definition decode_program :: "(decode_site \<Rightarrow> bool) \<Rightarrow> nat \<Rightarrow> bytes \<Rightarrow> (ir_program \<times> bytes) option" where
  "decode_program mem minor bs =
     do {
       (blocks, bs) \<leftarrow> reader_count typed_max_blocks block_record_size bs;
       if blocks = 0 then None else do {
       (parameters, bs) \<leftarrow> reader_count typed_max_items parameter_record_size bs;
       (edges, bs) \<leftarrow> reader_count typed_max_items edge_record_size bs;
       (calls, bs) \<leftarrow> reader_count typed_max_items call_record_size bs;
       (count, bs) \<leftarrow> reader_count typed_max_items (instruction_record_size minor) bs;
       if count = 0 then None else do {
       (ret, bs) \<leftarrow> reader_type bs;
       (n, bs) \<leftarrow> reader_count typed_max_items 1 bs;
       if n \<noteq> 0 \<and> (n > size_max div 4 \<or> \<not> mem SiteSignature) then None else do {
       (types, bs) \<leftarrow> read_many n reader_type bs;
       (case milena_ir_program_set_function_signature (mem SiteSignatureCopy) types ret milena_ir_program_create of
          (p, False) \<Rightarrow> None
        | (p, True) \<Rightarrow>
            if blocks * block_record_size + parameters * parameter_record_size + edges * edge_record_size + calls * call_record_size +
               count * instruction_record_size minor > length bs then None
            else if \<not> array_sizes_fit blocks parameters edges calls count then None
            else if \<not> arrays_allocated mem parameters edges calls then None
            else decode_arrays minor blocks parameters edges calls count p bs) } } } }"

definition decode_function :: "(decode_site \<Rightarrow> bool) \<Rightarrow> nat \<Rightarrow> bytes \<Rightarrow> (ir_function \<times> bytes) option" where
  "decode_function mem minor bs =
     do {
       (symbol, bs) \<leftarrow> reader_u32 bs;
       (name, bs) \<leftarrow> read_name (mem SiteName) bs;
       (n, bs) \<leftarrow> reader_count typed_max_items 1 bs;
       (ret, bs) \<leftarrow> reader_type bs;
       if n \<noteq> 0 \<and> \<not> mem SiteParameterTypes then None else do {
       (types, bs) \<leftarrow> read_many n reader_type bs;
       if \<not> mem SiteBody then None else do {
       (body, bs) \<leftarrow> decode_program mem minor bs;
       if length (sg_parameters (ip_signature body)) \<noteq> n \<or> sg_return (ip_signature body) \<noteq> ret then None
       else if sg_parameters (ip_signature body) \<noteq> types then None
       else Some (\<lparr>fn_name = Some name, fn_symbol = symbol, fn_parameters = types, fn_return = ret, fn_body = Some body, fn_bound = True\<rparr>, bs) } } }"

fun decode_functions :: "(nat \<Rightarrow> decode_site \<Rightarrow> bool) \<Rightarrow> nat \<Rightarrow> nat \<Rightarrow> nat \<Rightarrow> bytes \<Rightarrow> (ir_module \<times> bytes) option" where
  "decode_functions mem minor i 0 bs = Some ([], bs)"
| "decode_functions mem minor i (Suc n) bs =
     do {
       (f, bs) \<leftarrow> decode_function (mem i) minor bs;
       (fs, bs) \<leftarrow> decode_functions mem minor (i + 1) n bs;
       Some (f # fs, bs)
     }"

text \<open>The header: the minor version and the number of functions.\<close>

definition decode_header :: "bytes \<Rightarrow> ((nat \<times> nat) \<times> bytes) option" where
  "decode_header bs =
     do {
       let total = length bs;
       (magic, bs) \<leftarrow> reader_bytes 4 bs;
       if magic \<noteq> typed_magic then None else do {
       (major, bs) \<leftarrow> reader_u16 bs;
       (minor, bs) \<leftarrow> reader_u16 bs;
       (flags, bs) \<leftarrow> reader_u32 bs;
       (payload, bs) \<leftarrow> reader_u32 bs;
       if major \<noteq> 1 \<or> minor > 1 \<or> flags \<noteq> 0 then None
       else if unat payload \<noteq> total - typed_header_size then None
       else do {
         (n, bs) \<leftarrow> reader_count typed_max_functions 0 bs;
         if n = 0 then None else Some ((unat minor, n), bs) } } }"

text \<open>\<open>module_alloc\<close> and \<open>table_alloc\<close> are the allocations of the module and of its function table.\<close>

definition decode_module :: "bool \<Rightarrow> bool \<Rightarrow> (nat \<Rightarrow> decode_site \<Rightarrow> bool) \<Rightarrow> bytes \<Rightarrow> ir_module option" where
  "decode_module module_alloc table_alloc mem bs =
     (if length bs < typed_header_size \<or> length bs > typed_max_size then None
      else do {
        ((minor, n), bs) \<leftarrow> decode_header bs;
        if \<not> module_alloc \<or> \<not> table_alloc then None else do {
        (m, bs) \<leftarrow> decode_functions mem minor 0 n bs;
        if bs \<noteq> [] then None else Some m } })"

definition milena_bytecode_decode_module ::
  "(nat \<Rightarrow> nat \<Rightarrow> bool) \<Rightarrow> bool \<Rightarrow> bool \<Rightarrow> (nat \<Rightarrow> decode_site \<Rightarrow> bool) \<Rightarrow> bytes \<Rightarrow> ir_module option option"
where
  "milena_bytecode_decode_module vmem module_alloc table_alloc mem bs =
     (case decode_module module_alloc table_alloc mem bs of
        None \<Rightarrow> Some None
      | Some m \<Rightarrow> map_option (\<lambda>ok. if ok then Some m else None) (milena_ir_module_validate vmem m))"

definition milena_typed_bytecode_verify ::
  "(nat \<Rightarrow> nat \<Rightarrow> bool) \<Rightarrow> bool \<Rightarrow> bool \<Rightarrow> (nat \<Rightarrow> decode_site \<Rightarrow> bool) \<Rightarrow> bytes \<Rightarrow> bool option"
where
  "milena_typed_bytecode_verify vmem module_alloc table_alloc mem bs =
     map_option (\<lambda>m. m \<noteq> None) (milena_bytecode_decode_module vmem module_alloc table_alloc mem bs)"

end
