(* ===== verification/TypedBytecodeFields.thy ===== *)
theory TypedBytecodeFields
  imports TypedBytecode
begin

text \<open>Every reader of the typed bytecode against the fields its writer puts: each undoes the other.\<close>

section \<open>Runs of fields\<close>

definition run_of :: "bytes option list \<Rightarrow> bytes" where
  "run_of fs = concat (map the fs)"

lemma run_of_simps [simp]: "run_of [] = []" "run_of (f # fs) = the f @ run_of fs" "run_of (fs @ gs) = run_of fs @ run_of gs"
  by (simp_all add: run_of_def)

lemma run_of_concat: "run_of (concat fss) = concat (map run_of fss)"
  by (induction fss) simp_all

lemma writer_bytes_Some: "writer_bytes mem run w = Some w' \<Longrightarrow> length (bw_data w) \<le> typed_max_size \<Longrightarrow>
    bw_data w' = bw_data w @ run \<and> length (bw_data w') \<le> typed_max_size"
  by (auto simp: writer_bytes_def writer_reserve_def Let_def split: if_splits)

lemma writer_fields_Some:
  "writer_fields mem fs w = Some w' \<Longrightarrow> length (bw_data w) \<le> typed_max_size \<Longrightarrow>
    None \<notin> set fs \<and> bw_data w' = bw_data w @ run_of fs \<and> length (bw_data w') \<le> typed_max_size"
proof (induction mem fs w rule: writer_fields.induct)
  case (3 mem run fs w)
  then show ?case by (auto split: option.splits dest!: writer_bytes_Some)
qed simp_all

text \<open>\<open>reads w r x\<close>: the reader \<open>r\<close> takes the run \<open>w\<close> off its input and gives \<open>x\<close>.\<close>

definition reads :: "bytes \<Rightarrow> (bytes \<Rightarrow> ('a \<times> bytes) option) \<Rightarrow> 'a \<Rightarrow> bool" where
  "reads w r x \<longleftrightarrow> (\<forall>rest. r (w @ rest) = Some (x, rest))"

lemma read_bytes_append: "reader_bytes n bs = Some (r, rest) \<longleftrightarrow> bs = r @ rest \<and> length r = n"
  by (auto simp: reader_bytes_def)

lemma read_u8_iff: "reader_u8 bs = Some (v, rest) \<longleftrightarrow> bs = v # rest"
proof
  assume "reader_u8 bs = Some (v, rest)"
  then obtain r where "reader_bytes 1 bs = Some (r, rest)" "v = r ! 0" by (auto simp: reader_u8_def)
  then have "bs = r @ rest" "length r = 1" "v = r ! 0" by (simp_all add: read_bytes_append)
  then show "bs = v # rest" by (cases r) simp_all
qed (simp add: reader_u8_def reader_bytes_def)

lemma read_le_iff:
  assumes "LENGTH('a) = 8 * n"
  shows "map_option (\<lambda>(r, bs). (get_le n r, bs)) (reader_bytes n bs) = Some (v :: 'a::len word, rest) \<longleftrightarrow> bs = put_le n v @ rest"
proof
  assume "map_option (\<lambda>(r, bs). (get_le n r, bs)) (reader_bytes n bs) = Some (v, rest)"
  then obtain r where "bs = r @ rest" "length r = n" "v = get_le n r" by (auto simp: read_bytes_append)
  then show "bs = put_le n v @ rest" using put_le_get_le [OF assms, of r] by simp
next
  assume "bs = put_le n v @ rest"
  then have "reader_bytes n bs = Some (put_le n v, rest)" by (simp add: read_bytes_append)
  then show "map_option (\<lambda>(r, bs). (get_le n r, bs)) (reader_bytes n bs) = Some (v, rest)" using get_le_put_le [OF assms, of v] by simp
qed

lemma read_u16_iff: "reader_u16 bs = Some (v, rest) \<longleftrightarrow> bs = put_le 2 v @ rest"
  unfolding reader_u16_def by (rule read_le_iff) simp

lemma read_u32_iff: "reader_u32 bs = Some (v, rest) \<longleftrightarrow> bs = put_le 4 v @ rest"
  unfolding reader_u32_def by (rule read_le_iff) simp

lemma read_u64_iff: "reader_u64 bs = Some (v, rest) \<longleftrightarrow> bs = put_le 8 v @ rest"
  unfolding reader_u64_def by (rule read_le_iff) simp

lemma read_zeroes_iff: "reader_reserved_zeroes n bs = Some rest \<longleftrightarrow> bs = replicate n 0 @ rest"
proof
  assume "reader_reserved_zeroes n bs = Some rest"
  then obtain r where "bs = r @ rest" "length r = n" "\<forall>b \<in> set r. b = 0"
    by (auto simp: reader_reserved_zeroes_def read_bytes_append split: option.splits if_splits)
  then show "bs = replicate n 0 @ rest" using replicate_length_same [of r 0] by simp
next
  assume "bs = replicate n 0 @ rest"
  then have "reader_bytes n bs = Some (replicate n 0, rest)" by (simp add: read_bytes_append)
  then show "reader_reserved_zeroes n bs = Some rest" by (simp add: reader_reserved_zeroes_def)
qed

lemmas read_iffs = read_u8_iff read_u16_iff read_u32_iff read_u64_iff read_zeroes_iff read_bytes_append

lemma field_reads [simp]:
  "reader_u8 (v # rest) = Some (v, rest)" "reader_u16 (put_le 2 v16 @ rest) = Some (v16, rest)"
  "reader_u32 (put_le 4 v32 @ rest) = Some (v32, rest)" "reader_u64 (put_le 8 v64 @ rest) = Some (v64, rest)"
  "reader_reserved_zeroes n (replicate n 0 @ rest) = Some rest"
  by (simp_all add: read_iffs)

lemma zeroes_three: "reader_reserved_zeroes 3 (0 # 0 # 0 # rest) = Some rest"
  by (simp add: read_zeroes_iff numeral_eq_Suc)

section \<open>Types and opcodes\<close>

lemma type_code: "t \<noteq> MILENA_IR_TYPE_INVALID \<Longrightarrow> type_of_code (of_nat (ir_type_code t)) = Some t"
  by (cases t) (simp_all add: type_of_code_def ir_type_code_def ir_types_def)

lemma code_type: "type_of_code raw = Some t \<Longrightarrow> t \<noteq> MILENA_IR_TYPE_INVALID \<and> of_nat (ir_type_code t) = raw"
proof -
  assume h: "type_of_code raw = Some t"
  obtain n where n: "raw = of_nat n" "n = unat raw" by simp
  have "raw \<noteq> 0" "n \<le> 4" "t = ir_types ! n" using h n(2) by (auto simp: type_of_code_def split: if_splits)
  moreover have "n \<noteq> 0" by (rule notI) (use \<open>raw \<noteq> 0\<close> n(1) in simp)
  ultimately have "n = 1 \<or> n = 2 \<or> n = 3 \<or> n = 4" "t = ir_types ! n" by arith+
  then show ?thesis unfolding n(1) by (elim disjE) (simp_all add: ir_types_def ir_type_code_def)
qed

lemma opcode_code: "opcode \<noteq> MILENA_IR_OPCODE_COUNT \<Longrightarrow>
    unat (of_nat (ir_opcode_code opcode) :: u16) = ir_opcode_code opcode \<and> ir_opcode_code opcode < 19 \<and> ir_opcodes ! ir_opcode_code opcode = opcode"
  by (cases opcode) (simp_all add: ir_opcode_code_def ir_opcodes_def)

lemma code_opcode: "n < 19 \<Longrightarrow> ir_opcodes ! n \<noteq> MILENA_IR_OPCODE_COUNT \<and> ir_opcode_code (ir_opcodes ! n) = n"
proof -
  have "list_all (\<lambda>n. ir_opcodes ! n \<noteq> MILENA_IR_OPCODE_COUNT \<and> ir_opcode_code (ir_opcodes ! n) = n) [0..<19]"
    by (simp add: upt_rec ir_opcode_code_def ir_opcodes_def)
  then show "n < 19 \<Longrightarrow> ?thesis" by (simp add: list_all_iff)
qed

lemma read_type_iff: "reader_type bs = Some (t, rest) \<longleftrightarrow> t \<noteq> MILENA_IR_TYPE_INVALID \<and> bs = of_nat (ir_type_code t) # rest"
  by (auto simp: reader_type_def read_iffs bind_eq_Some_conv type_code dest: code_type)

lemma writer_type_Some: "writer_type t = Some run \<longleftrightarrow> t \<noteq> MILENA_IR_TYPE_INVALID \<and> run = [of_nat (ir_type_code t)]"
  by (auto simp: writer_type_def writer_u8_def)

lemma signed_i64 [simp]: "decode_signed_i64 (encode_signed_i64 v) = v" "encode_signed_i64 (decode_signed_i64 v) = v"
  by (simp_all add: decode_signed_i64_def encode_signed_i64_def)

lemma flag_bytes [simp]: "flag_byte b \<le> 1" "flag_byte b \<noteq> 0 \<longleftrightarrow> b" "\<not> 1 < flag_byte b"
  by (simp_all add: flag_byte_def)

lemma byte_flag: "\<not> (1 :: u8) < v \<Longrightarrow> flag_byte (v \<noteq> 0) = v"
proof -
  assume "\<not> 1 < v"
  then have n: "unat v \<le> 1" by (simp add: word_less_nat_alt)
  show ?thesis
  proof (cases "v = 0")
    case False
    then have "0 < unat v" by (simp add: unat_gt_0)
    with n have "unat v = unat (1 :: u8)" by simp
    then have "v = 1" by (simp only: word_unat_eq_iff)
    then show ?thesis by (simp add: flag_byte_def)
  qed (simp add: flag_byte_def)
qed

section \<open>Counts\<close>

lemma writer_count_Some: "writer_count n maximum = Some run \<longleftrightarrow> n \<le> maximum \<and> n \<le> uint32_max \<and> run = put_le 4 (of_nat n :: u32)"
  by (auto simp: writer_count_def writer_u32_def)

lemma unat_u32: "n \<le> uint32_max \<Longrightarrow> unat (of_nat n :: u32) = n"
  by (intro of_nat_unat_id) (simp add: uint32_max_def)

lemma u32_unat [simp]: "of_nat (unat (v :: u32)) = v" "unat (v :: u32) \<le> uint32_max"
  using unat_u32_lt [of v] by (simp_all add: uint32_max_def)

lemma read_count_iff:
  "reader_count maximum record_size bs = Some (n, rest) \<longleftrightarrow>
    n \<le> maximum \<and> n \<le> uint32_max \<and> (record_size = 0 \<or> n \<le> length rest div record_size) \<and> bs = put_le 4 (of_nat n :: u32) @ rest"
  (is "?l \<longleftrightarrow> ?r")
proof
  show "?l \<Longrightarrow> ?r"
    by (auto simp: reader_count_def bind_eq_Some_conv read_iffs split: if_splits)
  show "?r \<Longrightarrow> ?l" by (auto simp: reader_count_def unat_u32)
qed

section \<open>Records\<close>

lemma read_block_iff:
  "read_block bs = Some (b, rest) \<longleftrightarrow> bk_first b \<le> uint32_max \<and> bk_count b \<le> uint32_max \<and> bs = run_of (block_fields b) @ rest"
  (is "?l \<longleftrightarrow> ?r")
proof
  show "?l \<Longrightarrow> ?r"
    by (auto simp: read_block_def block_fields_def bind_eq_Some_conv read_iffs writer_u32_def writer_u8_def writer_zeroes_def byte_flag split: if_splits)
  show "?r \<Longrightarrow> ?l"
    by (auto simp: read_block_def block_fields_def writer_u32_def writer_u8_def writer_zeroes_def unat_u32)
qed

lemma read_parameter_iff:
  "read_parameter bs = Some (q, rest) \<longleftrightarrow> pm_type q \<noteq> MILENA_IR_TYPE_INVALID \<and> bs = run_of (parameter_fields q) @ rest"
  (is "?l \<longleftrightarrow> ?r")
proof
  show "?l \<Longrightarrow> ?r"
    by (auto simp: read_parameter_def parameter_fields_def bind_eq_Some_conv read_iffs read_type_iff writer_u32_def writer_type_def writer_u8_def writer_zeroes_def)
  show "?r \<Longrightarrow> ?l"
    by (cases q) (auto simp: read_parameter_def parameter_fields_def bind_eq_Some_conv read_iffs read_type_iff writer_u32_def writer_type_def writer_u8_def writer_zeroes_def)
qed

lemma read_edge_iff: "read_edge bs = Some (a, rest) \<longleftrightarrow> bs = run_of (edge_fields a) @ rest"
  (is "?l \<longleftrightarrow> ?r")
proof
  show "?l \<Longrightarrow> ?r" by (auto simp: read_edge_def edge_fields_def bind_eq_Some_conv read_iffs writer_u32_def)
  show "?r \<Longrightarrow> ?l" by (auto simp: read_edge_def edge_fields_def writer_u32_def)
qed

lemma read_span_iff: "read_span bs = Some (s, rest) \<longleftrightarrow> bs = run_of (span_fields s) @ rest"
  (is "?l \<longleftrightarrow> ?r")
proof
  show "?l \<Longrightarrow> ?r"
    by (auto simp: read_span_def span_fields_def bind_eq_Some_conv read_iffs writer_u64_def writer_u8_def writer_zeroes_def byte_flag split: if_splits)
  show "?r \<Longrightarrow> ?l" by (auto simp: read_span_def span_fields_def writer_u64_def writer_u8_def writer_zeroes_def)
qed

definition instruction_encodable :: "ir_instruction \<Rightarrow> bool" where
  "instruction_encodable ins \<longleftrightarrow> in_opcode ins \<noteq> MILENA_IR_OPCODE_COUNT \<and> in_result_type ins \<noteq> MILENA_IR_TYPE_INVALID \<and>
     in_call_offset ins \<le> uint32_max \<and> in_call_count ins \<le> uint32_max"

text \<open>The run of an instruction without the limits on its slice of call arguments.\<close>

definition instruction_run :: "ir_instruction \<Rightarrow> bytes" where
  "instruction_run ins = put_le 2 (of_nat (ir_opcode_code (in_opcode ins)) :: u16) @ of_nat (ir_type_code (in_result_type ins)) # 0 #
     put_le 4 (in_result_id ins) @ put_le 4 (in_operand1_id ins) @ put_le 4 (in_operand2_id ins) @ put_le 4 (in_block_id ins) @
     put_le 4 (of_nat (in_call_offset ins) :: u32) @ put_le 4 (of_nat (in_call_count ins) :: u32) @
     put_le 8 (encode_signed_i64 (in_integer ins)) @ put_le 8 (in_float ins) @ put_le 4 (in_target_true ins) @ put_le 4 (in_target_false ins) @
     run_of (span_fields (in_span ins))"

lemma read_instruction_iff:
  "read_instruction 1 bs = Some (ins, rest) \<longleftrightarrow> instruction_encodable ins \<and> bs = instruction_run ins @ rest"
  (is "?l \<longleftrightarrow> ?r")
proof
  show "?l \<Longrightarrow> ?r"
    by (auto simp: read_instruction_def instruction_run_def instruction_encodable_def bind_eq_Some_conv read_iffs read_span_iff code_opcode
        dest: code_type split: if_splits)
  assume r: ?r
  then have "read_span (run_of (span_fields (in_span ins)) @ rest) = Some (in_span ins, rest)" by (simp add: read_span_iff)
  then show ?l using r opcode_code [of "in_opcode ins"]
    by (auto simp: read_instruction_def instruction_run_def instruction_encodable_def type_code unat_u32)
qed

lemma instruction_fields_run:
  "None \<notin> set (instruction_fields ins) \<longleftrightarrow> in_opcode ins \<noteq> MILENA_IR_OPCODE_COUNT \<and> in_result_type ins \<noteq> MILENA_IR_TYPE_INVALID \<and>
     in_call_offset ins \<le> typed_max_items \<and> in_call_count ins \<le> typed_max_items"
  "None \<notin> set (instruction_fields ins) \<Longrightarrow> run_of (instruction_fields ins) = instruction_run ins"
  by (auto simp: instruction_fields_def instruction_run_def writer_u16_def writer_u8_def writer_u32_def writer_u64_def writer_type_def
      writer_count_def writer_zeroes_def span_fields_def typed_max_items_def uint32_max_def split: if_splits)

section \<open>Arrays\<close>

lemma read_many_iff:
  assumes "\<And>x bs rest. r bs = Some (x, rest) \<longleftrightarrow> P x \<and> bs = w x @ rest"
  shows "read_many n r bs = Some (xs, rest) \<longleftrightarrow> length xs = n \<and> list_all P xs \<and> bs = concat (map w xs) @ rest"
proof (induction n arbitrary: bs xs)
  case 0
  then show ?case by auto
next
  case (Suc n)
  show ?case
    by (cases xs) (auto simp: bind_eq_Some_conv assms Suc.IH)
qed

lemma length_block_run [simp]: "length (run_of (block_fields b)) = 24"
  by (simp add: block_fields_def writer_u32_def writer_u8_def writer_zeroes_def)

lemma length_parameter_run: "pm_type q \<noteq> MILENA_IR_TYPE_INVALID \<Longrightarrow> length (run_of (parameter_fields q)) = 12"
  by (simp add: parameter_fields_def writer_u32_def writer_u8_def writer_zeroes_def writer_type_def)

lemma length_edge_run [simp]: "length (run_of (edge_fields a)) = 16"
  by (simp add: edge_fields_def writer_u32_def)

lemma length_instruction_run [simp]: "length (instruction_run ins) = 104"
  by (simp add: instruction_run_def span_fields_def writer_u64_def writer_u8_def writer_zeroes_def)

end
