(* ===== verification/TypedBytecodeProps.thy ===== *)
theory TypedBytecodeProps
  imports TypedBytecodeFields
begin

text \<open>The typed bytecode of whole programs and modules: round trip and canonical form.\<close>

section \<open>Programs\<close>

definition arrays_run :: "ir_program \<Rightarrow> bytes" where
  "arrays_run p = concat (map (\<lambda>b. run_of (block_fields b)) (ip_blocks p)) @ concat (map (\<lambda>q. run_of (parameter_fields q)) (ip_parameters p)) @
     concat (map (\<lambda>a. run_of (edge_fields a)) (ip_edges p)) @ concat (map (put_le 4) (ip_call_arguments p)) @
     concat (map instruction_run (ip_instructions p))"

definition arrays_ok :: "ir_program \<Rightarrow> bool" where
  "arrays_ok p \<longleftrightarrow> list_all (\<lambda>b. bk_first b \<le> uint32_max \<and> bk_count b \<le> uint32_max) (ip_blocks p) \<and>
     list_all (\<lambda>q. pm_type q \<noteq> MILENA_IR_TYPE_INVALID) (ip_parameters p) \<and> list_all instruction_encodable (ip_instructions p)"

definition type_byte :: "ir_type \<Rightarrow> u8" where "type_byte t = of_nat (ir_type_code t)"

definition program_run :: "ir_program \<Rightarrow> bytes" where
  "program_run p = put_le 4 (of_nat (length (ip_blocks p)) :: u32) @ put_le 4 (of_nat (length (ip_parameters p)) :: u32) @
     put_le 4 (of_nat (length (ip_edges p)) :: u32) @ put_le 4 (of_nat (length (ip_call_arguments p)) :: u32) @
     put_le 4 (of_nat (length (ip_instructions p)) :: u32) @ type_byte (sg_return (ip_signature p)) #
     put_le 4 (of_nat (length (sg_parameters (ip_signature p))) :: u32) @ map type_byte (sg_parameters (ip_signature p)) @ arrays_run p"

definition program_ok :: "ir_program \<Rightarrow> bool" where
  "program_ok p \<longleftrightarrow> ip_has_signature p \<and> ip_blocks p \<noteq> [] \<and> ip_instructions p \<noteq> [] \<and> length (ip_blocks p) \<le> typed_max_blocks \<and>
     length (ip_parameters p) \<le> typed_max_items \<and> length (ip_edges p) \<le> typed_max_items \<and> length (ip_call_arguments p) \<le> typed_max_items \<and>
     length (ip_instructions p) \<le> typed_max_items \<and> length (sg_parameters (ip_signature p)) \<le> typed_max_items \<and>
     ir_value_type (sg_return (ip_signature p)) \<and> list_all ir_value_type (sg_parameters (ip_signature p)) \<and> arrays_ok p"

text \<open>What is left of a program on the wire: its arrays exactly as long as their contents.\<close>

definition compact_program :: "ir_program \<Rightarrow> ir_program" where
  "compact_program p = p\<lparr>ip_block_capacity := length (ip_blocks p), ip_parameter_capacity := length (ip_parameters p),
     ip_edge_capacity := length (ip_edges p), ip_call_capacity := length (ip_call_arguments p), ip_capacity := length (ip_instructions p)\<rparr>"

lemma compact_fields [simp]:
  "ip_blocks (compact_program p) = ip_blocks p" "ip_parameters (compact_program p) = ip_parameters p" "ip_edges (compact_program p) = ip_edges p"
  "ip_call_arguments (compact_program p) = ip_call_arguments p" "ip_instructions (compact_program p) = ip_instructions p"
  "ip_signature (compact_program p) = ip_signature p" "ip_has_signature (compact_program p) = ip_has_signature p"
  by (simp_all add: compact_program_def)

lemma compact_runs [simp]:
  "arrays_run (compact_program p) = arrays_run p" "program_run (compact_program p) = program_run p" "program_ok (compact_program p) = program_ok p"
  by (simp_all add: arrays_run_def program_run_def program_ok_def arrays_ok_def)

lemma decode_arrays_iff:
  "decode_arrays 1 b pa e c n p bs = Some (q, rest) \<longleftrightarrow>
    b = length (ip_blocks q) \<and> pa = length (ip_parameters q) \<and> e = length (ip_edges q) \<and> c = length (ip_call_arguments q) \<and>
    n = length (ip_instructions q) \<and> arrays_ok q \<and> bs = arrays_run q @ rest \<and>
    q = p\<lparr>ip_blocks := ip_blocks q, ip_block_capacity := b, ip_parameters := ip_parameters q, ip_parameter_capacity := pa,
          ip_edges := ip_edges q, ip_edge_capacity := e, ip_call_arguments := ip_call_arguments q, ip_call_capacity := c,
          ip_instructions := ip_instructions q, ip_capacity := n\<rparr>"
  (is "?l \<longleftrightarrow> ?r")
proof -
  note many = read_many_iff [of read_block, OF read_block_iff [unfolded conj_assoc [symmetric]]]
    read_many_iff [of read_parameter, OF read_parameter_iff]
    read_many_iff [of read_edge "\<lambda>a. True" "\<lambda>a. run_of (edge_fields a)", simplified, OF read_edge_iff]
    read_many_iff [of reader_u32 "\<lambda>a. True" "put_le 4", simplified, OF read_u32_iff]
    read_many_iff [of "read_instruction 1", OF read_instruction_iff]
  show ?thesis
  proof
    show "?l \<Longrightarrow> ?r"
      by (auto simp: decode_arrays_def bind_eq_Some_conv many arrays_ok_def arrays_run_def simp del: One_nat_def)
    assume r: ?r
    define bl where "bl = ip_blocks q"
    define qs where "qs = ip_parameters q"
    define es where "es = ip_edges q"
    define cs where "cs = ip_call_arguments q"
    define ins where "ins = ip_instructions q"
    have 1: "read_many b read_block bs = Some (bl, concat (map (\<lambda>q. run_of (parameter_fields q)) qs) @
        concat (map (\<lambda>a. run_of (edge_fields a)) es) @ concat (map (put_le 4) cs) @ concat (map instruction_run ins) @ rest)"
      using r unfolding many by (simp add: arrays_ok_def arrays_run_def bl_def qs_def es_def cs_def ins_def)
    have 2: "read_many pa read_parameter (concat (map (\<lambda>q. run_of (parameter_fields q)) qs) @
        concat (map (\<lambda>a. run_of (edge_fields a)) es) @ concat (map (put_le 4) cs) @ concat (map instruction_run ins) @ rest) =
      Some (qs, concat (map (\<lambda>a. run_of (edge_fields a)) es) @ concat (map (put_le 4) cs) @ concat (map instruction_run ins) @ rest)"
      using r unfolding many by (simp add: arrays_ok_def qs_def)
    have 3: "read_many e read_edge (concat (map (\<lambda>a. run_of (edge_fields a)) es) @ concat (map (put_le 4) cs) @ concat (map instruction_run ins) @ rest) =
      Some (es, concat (map (put_le 4) cs) @ concat (map instruction_run ins) @ rest)"
      using r unfolding many by (simp add: es_def list.pred_True)
    have 4: "read_many c reader_u32 (concat (map (put_le 4) cs) @ concat (map instruction_run ins) @ rest) = Some (cs, concat (map instruction_run ins) @ rest)"
      using r unfolding many by (simp add: cs_def list.pred_True)
    have 5: "read_many n (read_instruction 1) (concat (map instruction_run ins) @ rest) = Some (ins, rest)"
      using r unfolding many by (simp add: arrays_ok_def ins_def)
    let ?q = "p\<lparr>ip_blocks := bl, ip_block_capacity := b, ip_parameters := qs, ip_parameter_capacity := pa, ip_edges := es, ip_edge_capacity := e,
      ip_call_arguments := cs, ip_call_capacity := c, ip_instructions := ins, ip_capacity := n\<rparr>"
    have "decode_arrays 1 b pa e c n p bs = Some (?q, rest)"
      by (simp only: decode_arrays_def 1 2 3 4 5 Option.bind.simps prod.case)
    moreover have "q = ?q" using r unfolding bl_def qs_def es_def cs_def ins_def by blast
    ultimately show ?l by metis
  qed
qed

lemma set_signature_create:
  "milena_ir_program_set_function_signature alloc types ret milena_ir_program_create = (p, True) \<longleftrightarrow>
    ir_value_type ret \<and> list_all ir_value_type types \<and> length types \<le> size_max div 4 \<and> (types \<noteq> [] \<longrightarrow> alloc) \<and>
    p = milena_ir_program_create\<lparr>ip_signature := \<lparr>sg_parameters = types, sg_return = ret\<rparr>, ip_has_signature := True\<rparr>"
  by (auto simp: milena_ir_program_set_function_signature_def milena_ir_program_create_def)

lemma length_concat_run: "list_all (\<lambda>x. length (w x) = k) xs \<Longrightarrow> length (concat (map w xs)) = length xs * k"
  by (induction xs) auto

lemma length_arrays_run:
  assumes "arrays_ok p"
  shows "length (arrays_run p) = length (ip_blocks p) * 24 + length (ip_parameters p) * 12 + length (ip_edges p) * 16 +
    length (ip_call_arguments p) * 4 + length (ip_instructions p) * 104"
proof -
  have "list_all (\<lambda>q. length (run_of (parameter_fields q)) = 12) (ip_parameters p)"
    using assms by (auto simp: arrays_ok_def list_all_iff length_parameter_run)
  note length_concat_run [OF this]
  moreover have "length (concat (map (\<lambda>b. run_of (block_fields b)) (ip_blocks p))) = length (ip_blocks p) * 24"
    "length (concat (map (\<lambda>a. run_of (edge_fields a)) (ip_edges p))) = length (ip_edges p) * 16"
    "length (concat (map (put_le 4) (ip_call_arguments p))) = length (ip_call_arguments p) * 4"
    "length (concat (map instruction_run (ip_instructions p))) = length (ip_instructions p) * 104"
    by (rule length_concat_run, simp add: list_all_iff)+
  ultimately show ?thesis by (simp add: arrays_run_def)
qed

lemma read_types_iff:
  "read_many n reader_type bs = Some (types, rest) \<longleftrightarrow>
    length types = n \<and> list_all (\<lambda>t. t \<noteq> MILENA_IR_TYPE_INVALID) types \<and> bs = map type_byte types @ rest"
proof -
  have "reader_type bs = Some (t, rest) \<longleftrightarrow> t \<noteq> MILENA_IR_TYPE_INVALID \<and> bs = [type_byte t] @ rest" for t bs rest
    by (simp add: read_type_iff type_byte_def)
  note read_many_iff [of reader_type, OF this]
  moreover have "concat (map (\<lambda>t. [type_byte t]) types) = map type_byte types" by (induction types) simp_all
  ultimately show ?thesis by simp
qed

text \<open>Taking a reader apart: its first step, a rejection that did not happen.\<close>

lemma bind_pairE:
  assumes "Option.bind f (\<lambda>(x, s). g x s) = Some r"
  obtains x s where "f = Some (x, s)" "g x s = Some r"
  using assms by (cases f) auto

lemma if_SomeE:
  assumes "(if b then None else x) = Some y"
  obtains "\<not> b" "x = Some y"
  using assms by (simp split: if_splits)

lemma decode_program_sound:
  assumes "decode_program mem 1 bs = Some (p, rest)"
  shows "program_ok p \<and> compact_program p = p \<and> bs = program_run p @ rest"
proof -
  obtain blocks pa e c n ret k types b1 b2 b3 b4 b5 b6 b7 b8 where
    h: "reader_count typed_max_blocks block_record_size bs = Some (blocks, b1)" "blocks \<noteq> 0"
      "reader_count typed_max_items parameter_record_size b1 = Some (pa, b2)" "reader_count typed_max_items edge_record_size b2 = Some (e, b3)"
      "reader_count typed_max_items call_record_size b3 = Some (c, b4)"
      "reader_count typed_max_items (instruction_record_size 1) b4 = Some (n, b5)" "n \<noteq> 0"
      "reader_type b5 = Some (ret, b6)" "reader_count typed_max_items 1 b6 = Some (k, b7)" "read_many k reader_type b7 = Some (types, b8)"
      and rest: "(case milena_ir_program_set_function_signature (mem SiteSignatureCopy) types ret milena_ir_program_create of
          (p, False) \<Rightarrow> None
        | (p, True) \<Rightarrow>
            if blocks * block_record_size + pa * parameter_record_size + e * edge_record_size + c * call_record_size +
               n * instruction_record_size 1 > length b8 then None
            else if \<not> array_sizes_fit blocks pa e c n then None
            else if \<not> arrays_allocated mem pa e c then None
            else decode_arrays 1 blocks pa e c n p b8) = Some (p, rest)"
    using assms unfolding decode_program_def
    by (elim bind_pairE if_SomeE) (rule that; assumption)
  obtain q ok where "milena_ir_program_set_function_signature (mem SiteSignatureCopy) types ret milena_ir_program_create = (q, ok)" by (meson surj_pair)
  with rest have q0: "milena_ir_program_set_function_signature (mem SiteSignatureCopy) types ret milena_ir_program_create = (q, True)"
    "decode_arrays 1 blocks pa e c n q b8 = Some (p, rest)"
    by (cases ok; simp del: One_nat_def split: if_splits)+
  have a: "blocks = length (ip_blocks p)" "pa = length (ip_parameters p)" "e = length (ip_edges p)" "c = length (ip_call_arguments p)"
    "n = length (ip_instructions p)" "arrays_ok p" "b8 = arrays_run p @ rest"
    "p = q\<lparr>ip_blocks := ip_blocks p, ip_block_capacity := blocks, ip_parameters := ip_parameters p, ip_parameter_capacity := pa,
          ip_edges := ip_edges p, ip_edge_capacity := e, ip_call_arguments := ip_call_arguments p, ip_call_capacity := c,
          ip_instructions := ip_instructions p, ip_capacity := n\<rparr>"
    using q0(2) unfolding decode_arrays_iff by blast+
  note s = q0(1) [unfolded set_signature_create]
  then have q: "q = milena_ir_program_create\<lparr>ip_signature := \<lparr>sg_parameters = types, sg_return = ret\<rparr>, ip_has_signature := True\<rparr>" by blast
  have p: "ip_has_signature p" "sg_parameters (ip_signature p) = types" "sg_return (ip_signature p) = ret"
    by (subst a(8), simp add: q)+
  have cap: "ip_block_capacity p = blocks" "ip_parameter_capacity p = pa" "ip_edge_capacity p = e" "ip_call_capacity p = c" "ip_capacity p = n"
    by (subst a(8), simp)+
  have "compact_program p = p" unfolding compact_program_def a(1-5) [symmetric] cap [symmetric] by simp
  moreover have "k = length types" using h(10) unfolding read_types_iff by simp
  then have "program_ok p"
    using h(1) [unfolded read_count_iff] h(3-6) [unfolded read_count_iff] h(9) [unfolded read_count_iff] h(2,7) s p a(1-6)
    unfolding program_ok_def by (metis length_0_conv)
  moreover have "bs = program_run p @ rest"
    using h(1,3-6,8-10) a(1-5,7) p unfolding read_count_iff read_type_iff read_types_iff
    by (simp add: program_run_def type_byte_def)
  ultimately show ?thesis by blast
qed

lemma count_reads: "n \<le> maximum \<Longrightarrow> n \<le> uint32_max \<Longrightarrow> (record_size = 0 \<or> n * record_size \<le> length rest) \<Longrightarrow>
    reader_count maximum record_size (put_le 4 (of_nat n :: u32) @ rest) = Some (n, rest)"
  unfolding read_count_iff by (cases "record_size = 0") (simp_all add: less_eq_div_iff_mult_less_eq)

lemma decode_program_complete:
  assumes ok: "program_ok p"
  shows "decode_program (\<lambda>site. True) 1 (program_run p @ rest) = Some (compact_program p, rest)"
proof -
  have lim: "length (ip_blocks p) \<le> typed_max_blocks" "length (ip_parameters p) \<le> typed_max_items" "length (ip_edges p) \<le> typed_max_items"
    "length (ip_call_arguments p) \<le> typed_max_items" "length (ip_instructions p) \<le> typed_max_items"
    "length (sg_parameters (ip_signature p)) \<le> typed_max_items" and arrays: "arrays_ok p"
    using ok by (simp_all add: program_ok_def)
  have small: "n \<le> typed_max_blocks \<Longrightarrow> n \<le> uint32_max" "n \<le> typed_max_items \<Longrightarrow> n \<le> uint32_max"
    "n \<le> typed_max_items \<Longrightarrow> n \<le> size_max div 4" for n
    by (simp_all add: typed_max_blocks_def typed_max_items_def uint32_max_def size_max_def)
  have fit: "array_sizes_fit (length (ip_blocks p)) (length (ip_parameters p)) (length (ip_edges p)) (length (ip_call_arguments p)) (length (ip_instructions p))"
    using lim(1-5) by (simp add: array_sizes_fit_def typed_max_blocks_def typed_max_items_def size_max_def sizeof_block_def sizeof_parameter_def
        sizeof_edge_def sizeof_instruction_def)
  note len = length_arrays_run [OF arrays]
  define q where "q = milena_ir_program_create\<lparr>ip_signature := ip_signature p, ip_has_signature := True\<rparr>"
  have sig: "milena_ir_program_set_function_signature True (sg_parameters (ip_signature p)) (sg_return (ip_signature p)) milena_ir_program_create = (q, True)"
    unfolding set_signature_create using ok small(3) [OF lim(6)] by (simp add: program_ok_def q_def)
  have types: "read_many (length (sg_parameters (ip_signature p))) reader_type (map type_byte (sg_parameters (ip_signature p)) @ r) =
      Some (sg_parameters (ip_signature p), r)" for r
    unfolding read_types_iff using ok by (auto simp: program_ok_def list_all_iff ir_value_type_def)
  have ret: "reader_type (type_byte (sg_return (ip_signature p)) # r) = Some (sg_return (ip_signature p), r)" for r
    unfolding read_type_iff using ok by (simp add: program_ok_def ir_value_type_def type_byte_def)
  have arr: "decode_arrays 1 (length (ip_blocks p)) (length (ip_parameters p)) (length (ip_edges p)) (length (ip_call_arguments p)) (length (ip_instructions p))
      q (arrays_run p @ rest) = Some (compact_program p, rest)"
    unfolding decode_arrays_iff using arrays ok
    by (cases p) (simp add: arrays_ok_def arrays_run_def compact_program_def q_def milena_ir_program_create_def program_ok_def)
  have ne: "ip_blocks p \<noteq> []" "ip_instructions p \<noteq> []" using ok by (simp_all add: program_ok_def)
  have sizes: "block_record_size = 24" "parameter_record_size = 12" "edge_record_size = 16" "call_record_size = 4" "instruction_record_size 1 = 104"
    by (simp_all add: block_record_size_def parameter_record_size_def edge_record_size_def call_record_size_def instruction_record_size_def)
  show ?thesis
    unfolding decode_program_def program_run_def append_assoc append_Cons
    using lim small(1) [OF lim(1)] small(2) [OF lim(2)] small(2) [OF lim(3)] small(2) [OF lim(4)] small(2) [OF lim(5)] small(2) [OF lim(6)]
      small(3) [OF lim(6)] ne
    by (simp add: count_reads sizes len ret types sig fit arr arrays_allocated_def del: One_nat_def)
qed

end
