(* ===== verification/TypedBytecodeCompact.thy ===== *)
theory TypedBytecodeCompact
  imports TypedBytecodeProps
begin

text \<open>The validator does not look at capacities beyond their being there: a compacted module is accepted as the module was.\<close>

section \<open>Programs\<close>

lemma compact_find [simp]: "ir_find_block_index (compact_program p) i = ir_find_block_index p i"
  by (simp add: ir_find_block_index_def)

lemma compact_parameters [simp]:
  "ir_collect_parameters (compact_program p) capacity prior entries vals qs = ir_collect_parameters p capacity prior entries vals qs"
  by (induction qs arbitrary: prior entries vals) (simp_all cong: option.case_cong if_cong)

lemma compact_entry [simp]: "ir_entry_count_ok (compact_program p) entries = ir_entry_count_ok p entries"
  by (simp add: ir_entry_count_ok_def)

lemma compact_shape [simp]: "ir_instruction_shape (compact_program p) context b l ins = ir_instruction_shape p context b l ins"
  by (cases "in_opcode ins") (simp_all add: ir_instruction_shape_def)

lemma compact_block [simp]: "ir_collect_block (compact_program p) context capacity bi b ii body vals = ir_collect_block p context capacity bi b ii body vals"
  by (induction body arbitrary: ii vals) (simp_all cong: option.case_cong if_cong)

lemma compact_instructions [simp]: "block_instructions (compact_program p) b = block_instructions p b"
  by (simp add: block_instructions_def)

lemma compact_blocks [simp]: "ir_collect_blocks (compact_program p) context capacity bi bs vals = ir_collect_blocks p context capacity bi bs vals"
  by (induction bs arbitrary: bi vals) (simp_all add: ir_successors_agree_def cong: option.case_cong if_cong)

lemma compact_reach [simp]: "ir_targets_exist (compact_program p) = ir_targets_exist p" "ir_reachable (compact_program p) = ir_reachable p"
proof -
  have "ir_mark (compact_program p) = ir_mark p" by (intro ext) (simp add: ir_mark_def)
  then have "ir_visit (compact_program p) = ir_visit p" by (intro ext) (simp add: ir_visit_def)
  then show "ir_reachable (compact_program p) = ir_reachable p" by (simp add: ir_reachable_def)
qed (simp add: ir_targets_exist_def)

lemma compact_pass: "ir_dominator_pass (compact_program p) mem bis st = ir_dominator_pass p mem bis st"
proof (induction bis arbitrary: st)
  case (Cons bi bis)
  have "ir_predecessor (compact_program p) = ir_predecessor p" by (intro ext) (simp add: ir_predecessor_def)
  then have "ir_next_row (compact_program p) rows b = ir_next_row p rows b" for rows b by (simp add: ir_next_row_def)
  then show ?case using Cons by (cases st) (simp split: option.splits)
qed simp

lemma compact_dominators [simp]: "ir_dominators (compact_program p) mem = ir_dominators p mem"
proof -
  have "ir_dominator_round (compact_program p) mem = ir_dominator_round p mem" by (intro ext) (simp add: ir_dominator_round_def compact_pass split: option.splits)
  then show ?thesis by (simp add: ir_dominators_def ir_first_rows_def)
qed

lemma compact_uses [simp]: "ir_uses_ok (compact_program p) context vals rows = ir_uses_ok p context vals rows"
proof -
  have "ir_call_ok (compact_program p) context u ins = ir_call_ok p context u ins" for u ins by (simp add: ir_call_ok_def split: option.splits)
  then show ?thesis by (simp add: ir_uses_ok_def ir_instruction_uses_ok_def)
qed

lemma compact_nth [simp]: "ir_nth_parameter (compact_program p) b i = ir_nth_parameter p b i"
  by (simp add: ir_nth_parameter_def)

lemma compact_edge_arguments [simp]: "ir_edge_arguments_ok (compact_program p) vals rows prior as = ir_edge_arguments_ok p vals rows prior as"
  by (induction as arbitrary: prior) (simp_all cong: option.case_cong if_cong)

lemma compact_edges [simp]: "ir_edges (compact_program p) = ir_edges p" "ir_edges_complete (compact_program p) es = ir_edges_complete p es"
proof -
  have "ir_edge_complete (compact_program p) s t = ir_edge_complete p s t" for s t
    by (simp add: ir_edge_complete_def edge_matches_def)
  then show "ir_edges_complete (compact_program p) es = ir_edges_complete p es"
    by (induction es rule: ir_edges_complete.induct) (simp_all cong: option.case_cong if_cong bool.case_cong)
qed (simp add: ir_edges_def)

lemma compact_valid:
  assumes "milena_ir_program_validate context mem p = Some True"
  shows "milena_ir_program_validate context mem (compact_program p) = Some True"
proof -
  have h: "ir_header_ok p" using assms by (simp add: milena_ir_program_validate_def Let_def split: if_splits)
  then have "ir_header_ok (compact_program p)" by (auto simp: ir_header_ok_def compact_program_def)
  then show ?thesis using assms h by (simp add: milena_ir_program_validate_def Let_def cong: option.case_cong prod.case_cong if_cong)
qed

section \<open>Modules\<close>

definition compact_function :: "ir_function \<Rightarrow> ir_function" where
  "compact_function f = f\<lparr>fn_body := map_option compact_program (fn_body f)\<rparr>"

lemma compact_function_simps [simp]:
  "fn_name (compact_function f) = fn_name f" "fn_symbol (compact_function f) = fn_symbol f" "fn_parameters (compact_function f) = fn_parameters f"
  "fn_return (compact_function f) = fn_return f" "fn_bound (compact_function f) = fn_bound f"
  "fn_body (compact_function f) = map_option compact_program (fn_body f)"
  by (simp_all add: compact_function_def)

lemma compact_callees [simp]: "module_callees (map compact_function m) = module_callees m"
  by (simp add: module_callees_def)

lemma compact_functions_ok:
  "ir_functions_ok callees mem prior fs = Some True \<Longrightarrow> ir_functions_ok callees mem (map compact_function prior) (map compact_function fs) = Some True"
proof (induction fs arbitrary: prior)
  case (Cons f fs)
  have f: "ir_function_ok prior f" using Cons.prems by (simp split: if_splits)
  then obtain body where body: "fn_body f = Some body" by (auto simp: ir_function_ok_def split: option.splits)
  have v: "milena_ir_program_validate (if fn_bound f then Some callees else None) (mem (length prior)) body = Some True"
    and rest: "ir_functions_ok callees mem (prior @ [f]) fs = Some True"
    using Cons.prems f body by (auto split: option.splits bool.splits if_splits)
  have "ir_function_ok (map compact_function prior) (compact_function f)"
    using f body by (auto simp: ir_function_ok_def split: option.splits)
  then show ?case using Cons.IH [OF rest] compact_valid [OF v] body by simp
qed simp

lemma compact_index [simp]: "ir_callee_index (map compact_function m) c = ir_callee_index m c"
proof -
  have "set is \<subseteq> {..<length m} \<Longrightarrow> fold (\<lambda>ci found. if fn_symbol (map compact_function m ! ci) = c then Some ci else found) is r =
      fold (\<lambda>ci found. if fn_symbol (m ! ci) = c then Some ci else found) is r" for "is" r
    by (induction "is" arbitrary: r) simp_all
  then show ?thesis by (simp add: ir_callee_index_def atLeast0LessThan)
qed

lemma compact_symbols: "fn_body f \<noteq> None \<Longrightarrow> ir_called_symbols (compact_function f) = ir_called_symbols f"
  by (auto simp: ir_called_symbols_def)

lemma compact_visit:
  "i < length m \<longrightarrow> (\<forall>f \<in> set m. fn_body f \<noteq> None) \<longrightarrow>
    ir_module_visit_function fuel (map compact_function m) i st = ir_module_visit_function fuel m i st"
  "(\<forall>f \<in> set m. fn_body f \<noteq> None) \<longrightarrow> ir_module_visit_calls fuel (map compact_function m) cs st = ir_module_visit_calls fuel m cs st"
proof (induction fuel m i st and fuel m cs st rule: visit_induct)
  case (2 fuel m index st)
  then show ?case by (auto simp: compact_symbols split: option.splits)
next
  case (4 fuel m c cs st)
  then show ?case using callee_index_Some by (auto split: option.splits)
qed auto

lemma compact_visit_all:
  "set is \<subseteq> {..<length m} \<Longrightarrow> \<forall>f \<in> set m. fn_body f \<noteq> None \<Longrightarrow>
    ir_module_visit_all fuel (map compact_function m) is st = ir_module_visit_all fuel m is st"
  by (induction "is" arbitrary: st) (auto simp: compact_visit split: option.splits)

lemma compact_module_valid:
  assumes "milena_ir_module_validate vmem m = Some True"
  shows "milena_ir_module_validate vmem (map compact_function m) = Some True"
proof -
  have fs: "ir_functions_ok (module_callees m) vmem [] m = Some True"
    using assms by (auto simp: milena_ir_module_validate_def split: if_splits option.splits bool.splits)
  have "\<forall>f \<in> set m. fn_body f \<noteq> None" using functions_ok [OF fs] by auto
  then have "ir_module_visit_all fuel (map compact_function m) [0..<length m] st = ir_module_visit_all fuel m [0..<length m] st" for fuel st
    by (intro compact_visit_all) (auto simp: lessThan_atLeast0)
  then show ?thesis using assms fs compact_functions_ok [OF fs] by (simp add: milena_ir_module_validate_def split: if_splits)
qed

end
