(* ===== verification/TypedBytecodeModules.thy ===== *)
theory TypedBytecodeModules
  imports TypedBytecodeCompact
begin

text \<open>Whole modules on the wire: what the encoder writes is read back, and nothing else of version 1.1 is accepted.\<close>

section \<open>Functions\<close>

definition function_run :: "ir_function \<Rightarrow> bytes" where
  "function_run f = put_le 4 (fn_symbol f) @ put_le 4 (of_nat (length (the (fn_name f))) :: u32) @ the (fn_name f) @
     put_le 4 (of_nat (length (fn_parameters f)) :: u32) @ type_byte (fn_return f) # map type_byte (fn_parameters f) @
     program_run (the (fn_body f))"

definition function_ok :: "ir_function \<Rightarrow> bool" where
  "function_ok f \<longleftrightarrow> (\<exists>name body. fn_name f = Some name \<and> fn_body f = Some body \<and> name \<noteq> [] \<and> length name \<le> typed_max_name \<and> 0 \<notin> set name \<and>
     length (fn_parameters f) \<le> typed_max_items \<and> fn_return f \<noteq> MILENA_IR_TYPE_INVALID \<and>
     list_all (\<lambda>t. t \<noteq> MILENA_IR_TYPE_INVALID) (fn_parameters f) \<and> program_ok body \<and> sg_parameters (ip_signature body) = fn_parameters f \<and>
     sg_return (ip_signature body) = fn_return f)"

lemma name_small: "n \<le> typed_max_name \<Longrightarrow> n \<le> uint32_max" "n \<le> typed_max_items \<Longrightarrow> n \<le> uint32_max"
  by (simp_all add: typed_max_name_def typed_max_items_def uint32_max_def)

lemma read_name_iff:
  "read_name alloc bs = Some (name, rest) \<longleftrightarrow> alloc \<and> name \<noteq> [] \<and> length name \<le> typed_max_name \<and> 0 \<notin> set name \<and>
    bs = put_le 4 (of_nat (length name) :: u32) @ name @ rest"
  (is "?l \<longleftrightarrow> ?r")
proof
  assume ?l
  then obtain n b1 where n: "reader_u32 bs = Some (n, b1)" "n \<noteq> 0" "unat n \<le> typed_max_name" "alloc"
      "reader_bytes (unat n) b1 = Some (name, rest)" "0 \<notin> set name"
    unfolding read_name_def by (elim bind_pairE if_SomeE) (auto elim!: bind_pairE if_SomeE)
  have "length name = unat n" "b1 = name @ rest" using n(5) by (simp_all add: read_bytes_append)
  then show ?r using n by (auto simp: read_iffs unat_eq_zero)
next
  assume r: ?r
  have u: "unat (of_nat (length name) :: u32) = length name" using r name_small(1) unat_u32 by blast
  have "(of_nat (length name) :: u32) \<noteq> 0" using r u by (metis length_0_conv unat_0)
  then show ?l using r u by (simp add: read_name_def reader_bytes_def)
qed

lemma decode_function_sound:
  assumes "decode_function mem 1 bs = Some (f, rest)"
  shows "function_ok f \<and> compact_function f = f \<and> fn_bound f \<and> bs = function_run f @ rest"
proof -
  obtain symbol name n ret types body b1 b2 b3 b4 b5 where
    h: "reader_u32 bs = Some (symbol, b1)" "read_name (mem SiteName) b1 = Some (name, b2)" "reader_count typed_max_items 1 b2 = Some (n, b3)"
      "reader_type b3 = Some (ret, b4)" "read_many n reader_type b4 = Some (types, b5)" "decode_program mem 1 b5 = Some (body, rest)"
      "sg_return (ip_signature body) = ret" "sg_parameters (ip_signature body) = types"
      "f = \<lparr>fn_name = Some name, fn_symbol = symbol, fn_parameters = types, fn_return = ret, fn_body = Some body, fn_bound = True\<rparr>"
    using assms unfolding decode_function_def
    by (elim bind_pairE if_SomeE) (auto elim!: bind_pairE if_SomeE simp del: One_nat_def)
  note p = decode_program_sound [OF h(6)]
  have "n = length types" using h(5) by (simp add: read_types_iff)
  then show ?thesis
    using h(1-5) p h(7-9)
    unfolding read_u32_iff read_name_iff read_count_iff read_type_iff read_types_iff
    by (auto simp: function_ok_def function_run_def compact_function_def type_byte_def)
qed

lemma decode_function_complete:
  assumes "function_ok f" and "fn_bound f"
  shows "decode_function (\<lambda>site. True) 1 (function_run f @ rest) = Some (compact_function f, rest)"
proof -
  obtain name body where f: "fn_name f = Some name" "fn_body f = Some body" "name \<noteq> []" "length name \<le> typed_max_name" "0 \<notin> set name"
     "length (fn_parameters f) \<le> typed_max_items" "fn_return f \<noteq> MILENA_IR_TYPE_INVALID"
     "list_all (\<lambda>t. t \<noteq> MILENA_IR_TYPE_INVALID) (fn_parameters f)" "program_ok body" "sg_parameters (ip_signature body) = fn_parameters f"
     "sg_return (ip_signature body) = fn_return f"
    using assms(1) unfolding function_ok_def by blast
  have name: "read_name True (put_le 4 (of_nat (length name) :: u32) @ name @ r) = Some (name, r)" for r
    unfolding read_name_iff using f by simp
  have ret: "reader_type (type_byte (fn_return f) # r) = Some (fn_return f, r)" for r
    unfolding read_type_iff using f(7) by (simp add: type_byte_def)
  have types: "read_many (length (fn_parameters f)) reader_type (map type_byte (fn_parameters f) @ r) = Some (fn_parameters f, r)" for r
    unfolding read_types_iff using f(8) by simp
  have cnt: "reader_count typed_max_items 1 (put_le 4 (of_nat (length (fn_parameters f)) :: u32) @ r) = Some (length (fn_parameters f), r)"
    if "length (fn_parameters f) \<le> length r" for r
    by (rule count_reads) (use f(6) name_small(2) that in auto)
  have result: "\<lparr>fn_name = Some name, fn_symbol = fn_symbol f, fn_parameters = fn_parameters f, fn_return = fn_return f,
      fn_body = Some (compact_program body), fn_bound = True\<rparr> = compact_function f"
    using f(1,2) assms(2) by (cases f) (simp add: compact_function_def)
  show ?thesis
    unfolding decode_function_def function_run_def append_assoc append_Cons f(1,2) option.sel
    using f decode_program_complete [OF f(9), of rest]
    by (simp add: name ret types cnt result del: One_nat_def)
qed

lemma decode_functions_sound:
  "decode_functions mem 1 i n bs = Some (m, rest) \<Longrightarrow>
    length m = n \<and> list_all (\<lambda>f. function_ok f \<and> compact_function f = f \<and> fn_bound f) m \<and> bs = concat (map function_run m) @ rest"
proof (induction n arbitrary: i bs m)
  case (Suc n)
  obtain f fs b1 where h: "decode_function (mem i) 1 bs = Some (f, b1)" "decode_functions mem 1 (i + 1) n b1 = Some (fs, rest)" "m = f # fs"
    using Suc.prems unfolding decode_functions.simps by (elim bind_pairE) auto
  show ?case using decode_function_sound [OF h(1)] Suc.IH [OF h(2)] h(3) by simp
qed simp

lemma decode_functions_complete:
  "list_all (\<lambda>f. function_ok f \<and> fn_bound f) m \<Longrightarrow>
    decode_functions (\<lambda>i site. True) 1 i (length m) (concat (map function_run m) @ rest) = Some (map compact_function m, rest)"
  by (induction m arbitrary: i) (simp_all add: decode_function_complete del: One_nat_def)

section \<open>The header\<close>

definition header_run :: "nat \<Rightarrow> nat \<Rightarrow> bytes" where
  "header_run payload n = typed_magic @ put_le 2 (1 :: u16) @ put_le 2 (1 :: u16) @ put_le 4 (0 :: u32) @ put_le 4 (of_nat payload :: u32) @
     put_le 4 (of_nat n :: u32)"

lemma length_header [simp]: "length (header_run payload n) = 20"
  by (simp add: header_run_def typed_magic_def)

lemma decode_header_sound:
  assumes "decode_header bs = Some ((minor, n), rest)" and "16 \<le> length bs"
  shows "minor \<le> 1 \<and> n \<noteq> 0 \<and> n \<le> typed_max_functions \<and> (minor = 1 \<longrightarrow> bs = header_run (length bs - 16) n @ rest)"
proof -
  obtain magic major mi flags payload b1 b2 b3 b4 b5 where
    h: "reader_bytes 4 bs = Some (magic, b1)" "magic = typed_magic" "reader_u16 b1 = Some (major, b2)" "reader_u16 b2 = Some (mi, b3)"
      "reader_u32 b3 = Some (flags, b4)" "reader_u32 b4 = Some (payload, b5)" "major = 1" "\<not> mi > 1" "flags = 0"
      "unat payload = length bs - typed_header_size" "reader_count typed_max_functions 0 b5 = Some (n, rest)" "n \<noteq> 0" "minor = unat mi"
    using assms(1) unfolding decode_header_def Let_def
    by (elim bind_pairE if_SomeE) (auto elim!: bind_pairE if_SomeE)
  have "unat mi \<le> unat (1 :: u16)" using h(8) by (simp only: not_less word_le_nat_alt)
  then have mi: "minor \<le> 1" using h(13) by simp
  have pay: "payload = of_nat (length bs - 16)" using arg_cong [OF h(10), of "of_nat :: nat \<Rightarrow> u32"] by (simp add: typed_header_size_def)
  have one: "mi = 1" if "minor = 1" using that h(13) by (simp add: word_unat_eq_iff)
  have bs: "bs = magic @ put_le 2 major @ put_le 2 mi @ put_le 4 flags @ put_le 4 payload @ put_le 4 (of_nat n :: u32) @ rest"
    using h(1,3-6,11) unfolding read_iffs read_count_iff by simp
  have "n \<le> typed_max_functions" using h(11) unfolding read_count_iff by blast
  moreover have "bs = header_run (length bs - 16) n @ rest" if "minor = 1"
    unfolding header_run_def using bs h(2,7,9) pay one [OF that] by simp
  ultimately show ?thesis using mi h(12) by blast
qed

lemma decode_header_complete:
  assumes "n \<noteq> 0" and "n \<le> typed_max_functions" and "payload = 4 + length rest" and "payload \<le> uint32_max"
  shows "decode_header (header_run payload n @ rest) = Some ((1, n), rest)"
proof -
  have n: "reader_count typed_max_functions 0 (put_le 4 (of_nat n :: u32) @ rest) = Some (n, rest)"
    by (rule count_reads) (use assms(2) in \<open>simp_all add: typed_max_functions_def uint32_max_def\<close>)
  have b: "reader_bytes 4 (typed_magic @ r) = Some (typed_magic, r)" for r by (simp add: read_bytes_append typed_magic_def)
  have len: "length (header_run payload n @ rest) - typed_header_size = payload" using assms(3) by (simp add: typed_header_size_def)
  show ?thesis
    unfolding decode_header_def Let_def len
    unfolding header_run_def append_assoc
    using assms(1) by (simp add: b n unat_u32 [OF assms(4)])
qed

section \<open>The encoder\<close>

lemma run_map_types: "None \<notin> writer_type ` set ts \<Longrightarrow> run_of (map writer_type ts) = map type_byte ts \<and> list_all (\<lambda>t. t \<noteq> MILENA_IR_TYPE_INVALID) ts"
proof (induction ts)
  case (Cons t ts)
  then show ?case by (auto simp: writer_type_def writer_u8_def type_byte_def)
qed simp

lemma writer_type_None: "writer_type t \<noteq> None \<longleftrightarrow> t \<noteq> MILENA_IR_TYPE_INVALID"
  by (simp add: writer_type_def writer_u8_def)

lemma writer_count_None: "writer_count n maximum \<noteq> None \<longleftrightarrow> n \<le> maximum \<and> n \<le> uint32_max"
  by (simp add: writer_count_def writer_u32_def)

lemma type_run: "t \<noteq> MILENA_IR_TYPE_INVALID \<Longrightarrow> the (writer_type t) = [type_byte t]"
  by (simp add: writer_type_def writer_u8_def type_byte_def)

lemma count_run: "n \<le> maximum \<Longrightarrow> n \<le> uint32_max \<Longrightarrow> the (writer_count n maximum) = put_le 4 (of_nat n :: u32)"
  by (simp add: writer_count_def writer_u32_def split: if_splits)

lemma parameter_fields_None: "None \<notin> set (parameter_fields q) \<longleftrightarrow> pm_type q \<noteq> MILENA_IR_TYPE_INVALID"
  by (auto simp: parameter_fields_def writer_u32_def writer_zeroes_def writer_type_def writer_u8_def)

lemma fields_plain [simp]: "None \<notin> set (block_fields b)" "None \<notin> set (edge_fields a)"
  by (simp_all add: block_fields_def edge_fields_def writer_u32_def writer_u8_def writer_zeroes_def)

lemma program_fields_None:
  "None \<notin> set (encode_program p) \<longleftrightarrow> ip_has_signature p \<and> length (ip_blocks p) \<le> typed_max_blocks \<and> length (ip_parameters p) \<le> typed_max_items \<and>
     length (ip_edges p) \<le> typed_max_items \<and> length (ip_call_arguments p) \<le> typed_max_items \<and> length (ip_instructions p) \<le> typed_max_items \<and>
     length (sg_parameters (ip_signature p)) \<le> typed_max_items \<and> sg_return (ip_signature p) \<noteq> MILENA_IR_TYPE_INVALID \<and>
     list_all (\<lambda>t. t \<noteq> MILENA_IR_TYPE_INVALID) (sg_parameters (ip_signature p)) \<and>
     list_all (\<lambda>q. pm_type q \<noteq> MILENA_IR_TYPE_INVALID) (ip_parameters p) \<and> list_all (\<lambda>ins. None \<notin> set (instruction_fields ins)) (ip_instructions p)"
proof -
  have t: "None \<in> writer_type ` set ts \<longleftrightarrow> \<not> list_all (\<lambda>t. t \<noteq> MILENA_IR_TYPE_INVALID) ts" for ts
    by (auto simp: list_all_iff writer_type_def writer_u8_def split: if_splits)
  have c: "None = writer_count n maximum \<longleftrightarrow> \<not> (n \<le> maximum \<and> n \<le> uint32_max)" for n maximum
    using writer_count_None [of n maximum] by auto
  have b: "n \<le> typed_max_blocks \<Longrightarrow> n \<le> uint32_max" for n by (simp add: typed_max_blocks_def uint32_max_def)
  show ?thesis
    by (auto simp: encode_program_def c t parameter_fields_None list_all_iff writer_type_def writer_u32_def writer_u8_def
        dest: b name_small(2) split: if_splits)
qed

lemma program_fields_run:
  assumes "None \<notin> set (encode_program p)"
  shows "run_of (encode_program p) = program_run p"
proof -
  note n = assms [unfolded program_fields_None]
  have b: "n \<le> typed_max_blocks \<Longrightarrow> n \<le> uint32_max" for n by (simp add: typed_max_blocks_def uint32_max_def)
  have "run_of (map writer_type (sg_parameters (ip_signature p))) = map type_byte (sg_parameters (ip_signature p))"
    by (rule conjunct1 [OF run_map_types]) (use n in \<open>auto simp: list_all_iff writer_type_def writer_u8_def split: if_splits\<close>)
  moreover have "run_of (map writer_u32 ws) = concat (map (put_le 4) ws)" for ws by (induction ws) (simp_all add: writer_u32_def)
  moreover have "run_of (concat (map instruction_fields (ip_instructions p))) = concat (map instruction_run (ip_instructions p))"
  proof -
    have "map run_of (map instruction_fields (ip_instructions p)) = map instruction_run (ip_instructions p)"
      using n instruction_fields_run(2) by (simp add: list_all_iff)
    then show ?thesis by (simp only: run_of_concat)
  qed
  ultimately show ?thesis
    using n b name_small(2)
    by (simp add: encode_program_def program_run_def arrays_run_def count_run type_run run_of_concat comp_def)
qed

lemma function_fields_run:
  assumes "None \<notin> set (function_fields f)" and "fn_name f = Some name" and "fn_body f = Some body"
  shows "run_of (function_fields f) = function_run f \<and> name \<noteq> [] \<and> length name \<le> typed_max_name \<and> length (fn_parameters f) \<le> typed_max_items \<and>
    fn_return f \<noteq> MILENA_IR_TYPE_INVALID \<and> list_all (\<lambda>t. t \<noteq> MILENA_IR_TYPE_INVALID) (fn_parameters f) \<and> None \<notin> set (encode_program body)"
proof -
  have name: "name \<noteq> []" "length name \<le> typed_max_name" using assms(1,2) by (auto simp: function_fields_def Let_def split: if_splits)
  then have n: "writer_count (length (fn_parameters f)) typed_max_items \<noteq> None" "writer_type (fn_return f) \<noteq> None"
    "None \<notin> writer_type ` set (fn_parameters f)" "None \<notin> set (encode_program body)"
    using assms by (auto simp: function_fields_def Let_def split: if_splits)
  note t = run_map_types [OF n(3)]
  have "run_of (function_fields f) = function_run f"
    using name assms(2,3) t n(2) [unfolded writer_type_None]
    by (simp add: function_fields_def function_run_def Let_def writer_u32_def count_run n(1) [unfolded writer_count_None] type_run program_fields_run [OF n(4)])
  then show ?thesis using name t n(1) [unfolded writer_count_None] n(2) [unfolded writer_type_None] n(4) by blast
qed

end
