(* ===== verification/TypedBytecodeWire.thy ===== *)
theory TypedBytecodeWire
  imports TypedBytecodeModules
begin

text \<open>The properties of the typed bytecode.\<close>

section \<open>The writer has room\<close>

lemma capacity_enough: "needed \<le> typed_max_size \<Longrightarrow> capacity \<noteq> 0 \<Longrightarrow> needed \<le> typed_capacity needed capacity"
proof (induction needed capacity rule: typed_capacity.induct)
  case (1 needed capacity)
  then show ?case by (subst typed_capacity.simps) auto
qed

lemma writer_bytes_room:
  "length (bw_data w) + length run \<le> typed_max_size \<Longrightarrow> \<exists>w'. writer_bytes (\<lambda>k. True) run w = Some w' \<and> bw_data w' = bw_data w @ run"
  using capacity_enough [of "length (bw_data w) + length run" "if bw_capacity w \<noteq> 0 then bw_capacity w else 256"]
  by (auto simp: writer_bytes_def writer_reserve_def Let_def split: if_splits)

lemma writer_fields_room:
  "None \<notin> set fs \<Longrightarrow> length (bw_data w) + length (run_of fs) \<le> typed_max_size \<Longrightarrow>
    \<exists>w'. writer_fields (\<lambda>k. True) fs w = Some w' \<and> bw_data w' = bw_data w @ run_of fs"
proof (induction fs arbitrary: w)
  case (Cons f fs)
  obtain run where f: "f = Some run" using Cons.prems(1) by (cases f) auto
  obtain w1 where w1: "writer_bytes (\<lambda>k. True) run w = Some w1" "bw_data w1 = bw_data w @ run"
    using writer_bytes_room [of w run] Cons.prems(2) f by auto
  then obtain w' where "writer_fields (\<lambda>k. True) fs w1 = Some w'" "bw_data w' = bw_data w1 @ run_of fs"
    using Cons.IH [of w1] Cons.prems f by auto
  then show ?case using f w1 by simp
qed simp

section \<open>Modules\<close>

definition module_run :: "ir_module \<Rightarrow> bytes" where
  "module_run m = header_run (4 + length (concat (map function_run m))) (length m) @ concat (map function_run m)"

lemma functions_each: "ir_functions_ok callees mem prior fs = Some True \<Longrightarrow> f \<in> set fs \<Longrightarrow> \<exists>before. ir_function_ok before f"
proof (induction fs arbitrary: prior)
  case (Cons g fs)
  then show ?case by (auto split: option.splits bool.splits if_splits)
qed simp

lemma valid_functions:
  assumes "milena_ir_module_validate vmem m = Some True" and "f \<in> set m"
  shows "\<exists>name body context mem. fn_name f = Some name \<and> fn_body f = Some body \<and> sg_parameters (ip_signature body) = fn_parameters f \<and>
    sg_return (ip_signature body) = fn_return f \<and> milena_ir_program_validate context mem body = Some True"
proof -
  have fs: "ir_functions_ok (module_callees m) vmem [] m = Some True"
    using assms(1) by (auto simp: milena_ir_module_validate_def split: if_splits option.splits bool.splits)
  obtain body k where v: "fn_body f = Some body"
    "milena_ir_program_validate (if fn_bound f then Some (module_callees m) else None) (vmem k) body = Some True"
    using functions_ok [OF fs] assms(2) by auto
  obtain before where "ir_function_ok before f" using functions_each [OF fs assms(2)] by blast
  then show ?thesis using v by (auto simp: ir_function_ok_def split: option.splits)
qed

lemma valid_header_layout:
  assumes "milena_ir_program_validate context mem p = Some True"
  shows "ir_header_ok p" and "ir_blocks_ok (length (ip_instructions p)) [] 0 (ip_blocks p) = Some (length (ip_instructions p))"
  using assms by (auto simp: milena_ir_program_validate_def Let_def split: if_splits)

lemma valid_program_ok:
  assumes "milena_ir_program_validate context mem p = Some True" and "None \<notin> set (encode_program p)"
  shows "program_ok p"
proof -
  note h = valid_header_layout [OF assms(1)]
  note n = assms(2) [unfolded program_fields_None]
  have e: "length (ip_instructions p) \<le> uint32_max" using n name_small(2) by blast
  have "list_all (\<lambda>b. bk_first b + bk_count b \<le> length (ip_instructions p)) (ip_blocks p)"
    using blocks_ok_iff [OF h(2)] by (auto simp: list_all_iff)
  then have "list_all (\<lambda>b. bk_first b \<le> uint32_max \<and> bk_count b \<le> uint32_max) (ip_blocks p)" using e by (auto simp: list_all_iff)
  moreover have "list_all instruction_encodable (ip_instructions p)"
    using n name_small(2) by (auto simp: list_all_iff instruction_fields_run(1) instruction_encodable_def)
  ultimately show ?thesis using n h(1) by (auto simp: program_ok_def arrays_ok_def ir_header_ok_def split: if_splits)
qed




lemma header_fields_run:
  "length m \<le> typed_max_functions \<Longrightarrow> None \<notin> set (header_fields m) \<and>
    run_of (header_fields m) = typed_magic @ put_le 2 (1 :: u16) @ put_le 2 (1 :: u16) @ put_le 4 (0 :: u32) @ put_le 4 (0 :: u32) @ put_le 4 (of_nat (length m) :: u32)"
  by (auto simp: header_fields_def writer_u16_def writer_u32_def writer_count_def typed_max_functions_def uint32_max_def)

lemma patch_header:
  assumes "payload = 4 + length rest"
  shows "poke 12 (put_le 4 (of_nat payload :: u32)) (typed_magic @ put_le 2 (1 :: u16) @ put_le 2 (1 :: u16) @ put_le 4 (0 :: u32) @
      put_le 4 (0 :: u32) @ put_le 4 (of_nat n :: u32) @ rest) = header_run payload n @ rest"
proof -
  have "length (typed_magic @ put_le 2 (1 :: u16) @ put_le 2 (1 :: u16) @ put_le 4 (0 :: u32)) = 12" by (simp add: typed_magic_def)
  then show ?thesis by (simp add: poke_def header_run_def typed_magic_def)
qed

lemma small_payload: "n \<le> typed_max_size \<Longrightarrow> n \<le> uint32_max"
  by (simp add: typed_max_size_def uint32_max_def)

lemma module_fields_run:
  assumes "milena_ir_module_validate vmem m = Some True" and "\<forall>f \<in> set m. None \<notin> set (function_fields f)"
  shows "run_of (concat (map function_fields m)) = concat (map function_run m)"
proof -
  have "run_of (function_fields f) = function_run f" if f0: "f \<in> set m" for f
  proof -
    obtain name body where "fn_name f = Some name" "fn_body f = Some body" using valid_functions [OF assms(1) f0] by blast
    then show ?thesis using function_fields_run assms(2) f0 by blast
  qed
  then have "map run_of (map function_fields m) = map function_run m" by simp
  then show ?thesis by (simp only: run_of_concat)
qed

lemma encode_room:
  assumes v: "milena_ir_module_validate vmem m = Some True" and "list_all fn_bound m" and n: "m \<noteq> []" "length m \<le> typed_max_functions"
    and each: "\<forall>f \<in> set m. None \<notin> set (function_fields f)" and len: "length (module_run m) \<le> typed_max_size"
  shows "milena_bytecode_encode_module vmem (\<lambda>k. True) m = Some (Some (module_run m))"
proof -
  let ?fs = "header_fields m @ concat (map function_fields m)" and ?rest = "concat (map function_run m)"
  have run: "run_of ?fs = run_of (header_fields m) @ ?rest" using module_fields_run [OF v each] by simp
  have hl: "length (run_of (header_fields m)) = 20" using header_fields_run [OF n(2)] by (simp add: typed_magic_def)
  have total: "length (run_of ?fs) = length (module_run m)" unfolding run using hl by (simp add: module_run_def)
  have "None \<notin> set ?fs" using each header_fields_run [OF n(2)] by auto
  then obtain w where w: "writer_fields (\<lambda>k. True) ?fs \<lparr>bw_data = [], bw_capacity = 0, bw_requests = 0\<rparr> = Some w" "bw_data w = run_of ?fs"
    using writer_fields_room [of ?fs "\<lparr>bw_data = [], bw_capacity = 0, bw_requests = 0\<rparr>"] total len by auto
  have data: "bw_data w = run_of (header_fields m) @ ?rest" using w(2) run by simp
  have pay: "length (bw_data w) - typed_header_size = 4 + length ?rest" unfolding data using hl by (simp add: typed_header_size_def)
  have "4 + length ?rest \<le> uint32_max" using len small_payload by (simp add: module_run_def)
  moreover have "poke 12 (put_le 4 (of_nat (4 + length ?rest) :: u32)) (bw_data w) = module_run m"
    unfolding data using patch_header [OF refl, of ?rest "length m"] header_fields_run [OF n(2)] by (simp add: module_run_def)
  ultimately show ?thesis
    using assms(2) n v w(1) pay by (simp add: milena_bytecode_encode_module_def Let_def)
qed

lemma module_encode_success:
  assumes "milena_bytecode_encode_module vmem mem m = Some (Some bs)"
  shows "milena_ir_module_validate vmem m = Some True \<and> list_all fn_bound m \<and> m \<noteq> [] \<and> length m \<le> typed_max_functions \<and>
    (\<forall>f \<in> set m. None \<notin> set (function_fields f)) \<and> bs = module_run m \<and> length bs \<le> typed_max_size"
proof -
  let ?fs = "header_fields m @ concat (map function_fields m)"
  obtain w where w: "writer_fields mem ?fs \<lparr>bw_data = [], bw_capacity = 0, bw_requests = 0\<rparr> = Some w"
    and v: "milena_ir_module_validate vmem m = Some True" "list_all fn_bound m" "m \<noteq> []" "length m \<le> typed_max_functions"
    and bs: "bs = poke 12 (put_le 4 (of_nat (length (bw_data w) - typed_header_size) :: u32)) (bw_data w)"
    using assms by (auto simp: milena_bytecode_encode_module_def Let_def split: if_splits option.splits bool.splits)
  have "length (bw_data \<lparr>bw_data = [], bw_capacity = 0, bw_requests = 0\<rparr>) \<le> typed_max_size" by simp
  note r = writer_fields_Some [OF w this, unfolded byte_writer.select_convs append_Nil]
  then have fields: "None \<notin> set ?fs" "bw_data w = run_of ?fs" "length (bw_data w) \<le> typed_max_size" by blast+
  have each: "\<forall>f \<in> set m. None \<notin> set (function_fields f)" using fields(1) by auto
  have "run_of (concat (map function_fields m)) = concat (map function_run m)" by (rule module_fields_run [OF v(1) each])
  then have data: "bw_data w = run_of (header_fields m) @ concat (map function_run m)"
    using fields(2) by simp
  have len: "length (run_of (header_fields m)) = 20" using header_fields_run [OF v(4)] by (simp add: typed_magic_def)
  have "bs = module_run m"
    unfolding bs module_run_def
    using patch_header [of "4 + length (concat (map function_run m))" "concat (map function_run m)" "length m"] header_fields_run [OF v(4)] data len
    by (simp add: typed_header_size_def)
  moreover have "length bs = length (bw_data w)" using calculation data len by (simp add: module_run_def)
  ultimately show ?thesis using v each fields(3) by simp
qed

lemma encoded_decodes:
  assumes "milena_bytecode_encode_module vmem mem m = Some (Some bs)" and "\<forall>f \<in> set m. 0 \<notin> set (the (fn_name f))"
  shows "milena_bytecode_decode_module vmem True True (\<lambda>i site. True) bs = Some (Some (map compact_function m))"
proof -
  note e = module_encode_success [OF assms(1)]
  have v: "milena_ir_module_validate vmem m = Some True" using e by blast
  have ok: "function_ok f" if f0: "f \<in> set m" for f
  proof -
    obtain name body ctx mem' where f: "fn_name f = Some name" "fn_body f = Some body" "sg_parameters (ip_signature body) = fn_parameters f"
      "sg_return (ip_signature body) = fn_return f" "milena_ir_program_validate ctx mem' body = Some True"
      using valid_functions [OF v f0] by blast
    have "None \<notin> set (function_fields f)" using e f0 by blast
    note r = function_fields_run [OF this f(1,2)]
    have "program_ok body" using valid_program_ok [OF f(5)] r by blast
    moreover have "0 \<notin> set name" using assms(2) f0 f(1) by fastforce
    ultimately show ?thesis unfolding function_ok_def using f r by blast
  qed
  let ?rest = "concat (map function_run m)"
  have bs: "bs = header_run (4 + length ?rest) (length m) @ ?rest" using e by (simp add: module_run_def)
  have len: "20 + length ?rest \<le> typed_max_size" using e bs by simp
  have head: "decode_header bs = Some ((1, length m), ?rest)"
    unfolding bs by (rule decode_header_complete) (use e len small_payload [of "4 + length ?rest"] in auto)
  have "list_all (\<lambda>f. function_ok f \<and> fn_bound f) m" using ok e by (auto simp: list_all_iff)
  from decode_functions_complete [OF this, of 0 "[]"]
  have fns: "decode_functions (\<lambda>i site. True) 1 0 (length m) ?rest = Some (map compact_function m, [])" by simp
  have "decode_module True True (\<lambda>i site. True) bs = Some (map compact_function m)"
    using len bs head fns by (simp add: decode_module_def typed_header_size_def del: One_nat_def)
  then show ?thesis using compact_module_valid [OF v] by (simp add: milena_bytecode_decode_module_def)
qed

text \<open>
  C26.  What the encoder writes the decoder reads back: the same module, function by function, with
  arrays exactly as long as their contents, accepted again by the validator.  (A function's name is
  a C string.)
\<close>

theorem typed_bytecode_roundtrip:
  assumes "milena_bytecode_encode_module vmem mem m = Some (Some bs)" and "\<forall>f \<in> set m. 0 \<notin> set (the (fn_name f))"
  shows "milena_bytecode_decode_module vmem True True (\<lambda>i site. True) bs = Some (Some (map compact_function m))"
  by (rule encoded_decodes [OF assms])


section \<open>The decoder returns\<close>

lemma read_many_length: "read_many n r bs = Some (xs, rest) \<Longrightarrow> length xs = n"
proof (induction n arbitrary: bs xs)
  case (Suc n)
  then show ?case unfolding read_many.simps by (elim bind_pairE) auto
qed simp

lemma decode_program_parameters:
  assumes "decode_program mem minor bs = Some (p, rest)"
  shows "length (ip_parameters p) \<le> typed_max_items"
proof -
  obtain blocks pa e c n ret k types b1 b2 b3 b4 b5 b6 b7 b8 where
    h: "reader_count typed_max_blocks block_record_size bs = Some (blocks, b1)" "blocks \<noteq> 0"
      "reader_count typed_max_items parameter_record_size b1 = Some (pa, b2)" "reader_count typed_max_items edge_record_size b2 = Some (e, b3)"
      "reader_count typed_max_items call_record_size b3 = Some (c, b4)"
      "reader_count typed_max_items (instruction_record_size minor) b4 = Some (n, b5)" "n \<noteq> 0"
      "reader_type b5 = Some (ret, b6)" "reader_count typed_max_items 1 b6 = Some (k, b7)" "read_many k reader_type b7 = Some (types, b8)"
      and r: "(case milena_ir_program_set_function_signature (mem SiteSignatureCopy) types ret milena_ir_program_create of
          (p, False) \<Rightarrow> None
        | (p, True) \<Rightarrow>
            if blocks * block_record_size + pa * parameter_record_size + e * edge_record_size + c * call_record_size +
               n * instruction_record_size minor > length b8 then None
            else if \<not> array_sizes_fit blocks pa e c n then None
            else if \<not> arrays_allocated mem pa e c then None
            else decode_arrays minor blocks pa e c n p b8) = Some (p, rest)"
    using assms unfolding decode_program_def
    by (elim bind_pairE if_SomeE) (rule that; assumption)
  obtain q ok where "milena_ir_program_set_function_signature (mem SiteSignatureCopy) types ret milena_ir_program_create = (q, ok)" by (meson surj_pair)
  with r have "decode_arrays minor blocks pa e c n q b8 = Some (p, rest)" by (cases ok; simp split: if_splits)
  then have "length (ip_parameters p) = pa" unfolding decode_arrays_def by (elim bind_pairE) (auto dest: read_many_length)
  then show ?thesis using h(3) unfolding read_count_iff by simp
qed

lemma decode_functions_parameters:
  "decode_functions mem minor i n bs = Some (m, rest) \<Longrightarrow> f \<in> set m \<Longrightarrow> length (ip_parameters (the (fn_body f))) \<le> typed_max_items"
proof (induction n arbitrary: i bs m)
  case (Suc n)
  obtain g fs b1 where h: "decode_function (mem i) minor bs = Some (g, b1)" "decode_functions mem minor (i + 1) n b1 = Some (fs, rest)" "m = g # fs"
    using Suc.prems(1) unfolding decode_functions.simps by (elim bind_pairE) auto
  have "length (ip_parameters (the (fn_body g))) \<le> typed_max_items"
    using h(1) unfolding decode_function_def by (elim bind_pairE if_SomeE) (auto elim!: bind_pairE if_SomeE dest: decode_program_parameters)
  then show ?case using Suc h(2,3) by auto
qed simp

text \<open>C27.  The decoder returns, whatever the bytes, and so does the verification of a file.\<close>

theorem typed_bytecode_decode_returns:
  "\<exists>answer. milena_bytecode_decode_module vmem module_alloc table_alloc mem bs = Some answer \<and>
    milena_typed_bytecode_verify vmem module_alloc table_alloc mem bs = Some (answer \<noteq> None)"
proof (cases "decode_module module_alloc table_alloc mem bs")
  case None
  then show ?thesis by (simp add: milena_bytecode_decode_module_def milena_typed_bytecode_verify_def)
next
  case (Some m)
  obtain minor n b1 where "decode_functions mem minor 0 n b1 = Some (m, [])"
    using Some unfolding decode_module_def by (elim if_SomeE bind_pairE) (auto elim!: if_SomeE bind_pairE)
  then have "\<forall>f \<in> set m. length (ip_parameters (the (fn_body f))) < 4294967296"
    using decode_functions_parameters by (fastforce simp: typed_max_items_def)
  then obtain ok where "milena_ir_module_validate vmem m = Some ok" using module_validate_returns by blast
  then show ?thesis using Some by (simp add: milena_bytecode_decode_module_def milena_typed_bytecode_verify_def)
qed

section \<open>The module of two functions on the wire\<close>

lemma two_functions_encoded:
  "\<exists>bs. milena_bytecode_encode_module (\<lambda>f k. True) (\<lambda>k. True) two_functions = Some (Some bs) \<and> peek 6 2 bs = [1, 0]"
proof -
  have "milena_bytecode_encode_module (\<lambda>f k. True) (\<lambda>k. True) two_functions = Some (Some (module_run two_functions))"
  proof (rule encode_room [OF two_functions_valid])
    show "length (module_run two_functions) \<le> typed_max_size"
      by (simp add: module_run_def two_functions_def function_run_def program_run_def arrays_run_def identity_program_def call_program_def
          loop_program_def length_parameter_run typed_max_size_def)
    show "\<forall>f \<in> set two_functions. None \<notin> set (function_fields f)"
      by (simp add: two_functions_def function_fields_def Let_def typed_max_name_def program_fields_None writer_count_None writer_u32_def
          instruction_fields_run(1) identity_program_def call_program_def loop_program_def call_instruction_def f64_instruction_def
          typed_max_items_def typed_max_blocks_def writer_type_def writer_u8_def writer_count_def uint32_max_def)
  qed (simp_all add: two_functions_def typed_max_functions_def)
  moreover have "peek 6 2 (module_run two_functions) = [1, 0]"
    by (simp add: module_run_def header_run_def typed_magic_def peek_def put_le_def upt_rec)
  ultimately show ?thesis by blast
qed

lemma typed_bytecode_roundtrip_witness:
  "\<exists>bs. milena_bytecode_decode_module (\<lambda>f k. True) True True (\<lambda>i site. True) bs = Some (Some (map compact_function two_functions))"
proof -
  obtain bs where bs: "milena_bytecode_encode_module (\<lambda>f k. True) (\<lambda>k. True) two_functions = Some (Some bs)" using two_functions_encoded by blast
  have "milena_bytecode_decode_module (\<lambda>f k. True) True True (\<lambda>i site. True) bs = Some (Some (map compact_function two_functions))"
    by (rule typed_bytecode_roundtrip [OF bs]) (simp add: two_functions_def)
  then show ?thesis by blast
qed


end
