(* ===== verification/ExternalSort.thy ===== *)
theory ExternalSort
  imports MergeCalm
begin

text \<open>
  external_sort.c: values from a callback are cut into runs that fit in memory, each run is sorted
  into a spill file, and the runs are merged in passes of bounded fan-in.

  The callback belongs to the caller: \<open>source\<close> takes its context to a status, a value if there is one,
  and the next context.  \<open>qs\<close> is the \<open>qsort\<close> of the C library on an array of doubles: it orders
  by \<open>compare_double\<close> and may arrange equal values as it likes.  Loops that the source does not bound are
  \<open>while_option\<close> and \<open>partial_function\<close>: the value \<open>None\<close> stands for never returning.
\<close>

type_synonym 'c double_source = "'c \<Rightarrow> MilenaStatus \<times> f64 option \<times> 'c"

definition compare_double :: "f64 \<Rightarrow> f64 \<Rightarrow> int" where
  "compare_double a b = (if f_lt b a then 1 else 0) - (if f_lt a b then 1 else 0)"

definition encode_double_le :: "f64 \<Rightarrow> bytes" where "encode_double_le v = put_le 8 v"

definition int32_max :: nat where "int32_max = 2147483647"

definition run_name :: "string \<Rightarrow> nat \<Rightarrow> nat \<Rightarrow> string" where
  "run_name run_prefix pass run = run_prefix @ ''.p'' @ decimal pass @ ''.r'' @ decimal run @ ''.spill''"

text \<open>\<open>snprintf\<close> counts in an \<open>int\<close> and answers a negative number beyond it.\<close>

definition run_path :: "string \<Rightarrow> nat \<Rightarrow> nat \<Rightarrow> world \<Rightarrow> string option \<times> world" where
  "run_path run_prefix pass run w =
     (if length (run_name run_prefix pass run) > int32_max then (None, w)
      else case call_ok w of (ok, w) \<Rightarrow> (if ok then Some (run_name run_prefix pass run) else None, w))"

definition disk_size :: "string \<Rightarrow> world \<Rightarrow> nat option \<times> world" where
  "disk_size path w =
     (case fopen_read path w of
        (Opened s, w) \<Rightarrow>
          (case milena_file_seek64 w of (ok, w) \<Rightarrow>
           case (if ok then milena_file_tell64 (length (is_rest s)) w else (None, w)) of (end', w) \<Rightarrow>
           case call_ok w of (closed, w) \<Rightarrow>
           (if closed \<and> end' \<noteq> None \<and> the end' \<le> size_max then end' else None, w))
      | (_, w) \<Rightarrow> (None, w))"

fun remove_runs :: "string \<Rightarrow> nat \<Rightarrow> nat list \<Rightarrow> world \<Rightarrow> world" where
  "remove_runs run_prefix pass [] w = w"
| "remove_runs run_prefix pass (i # is) w =
     (case run_path run_prefix pass i w of
        (None, w) \<Rightarrow> remove_runs run_prefix pass is w
      | (Some path, w) \<Rightarrow> remove_runs run_prefix pass is (unlink path w))"

section \<open>Initial runs\<close>

fun append_values :: "f64 list \<Rightarrow> spill_store \<Rightarrow> world \<Rightarrow> MilenaStatus \<times> spill_store \<times> world" where
  "append_values [] store w = (MILENA_OK, store, w)"
| "append_values (v # vs) store w =
     (case milena_spill_store_append (Some store) (Some (encode_double_le v)) double_size w of (status, store', w) \<Rightarrow>
      if status \<noteq> MILENA_OK then (status, the store', w) else append_values vs (the store') w)"

definition write_run :: "string \<Rightarrow> f64 list \<Rightarrow> nat \<Rightarrow> world \<Rightarrow> (MilenaStatus + nat) \<times> world" where
  "write_run path vs quota w =
     (case path_exists path w of (found, w) \<Rightarrow>
      if found then (Inl MILENA_ERR_ARGUMENT, w)
      else case milena_spill_store_open (Some path) quota double_size spill_closed w of (status, store, w) \<Rightarrow>
      if status \<noteq> MILENA_OK then (Inl status, w)
      else case append_values vs store w of (status, store, w) \<Rightarrow>
      case milena_spill_store_close (Some store) w of (close_status, _, w) \<Rightarrow>
      let status = (if status = MILENA_OK \<and> close_status \<noteq> MILENA_OK then close_status else status)
      in if status \<noteq> MILENA_OK then (Inl status, unlink path w)
         else case disk_size path w of
                (None, w) \<Rightarrow> (Inl MILENA_ERR_IO, unlink path w)
              | (Some n, w) \<Rightarrow> (Inr n, w))"

definition bounded_quota :: "nat \<Rightarrow> nat \<Rightarrow> nat" where
  "bounded_quota file_quota remaining = (if file_quota < remaining then file_quota else remaining)"

definition least_quota :: nat where "least_quota = spill_header_size + double_size + spill_trailer_size"

text \<open>The values of one run: status, values, and whether the source has ended.\<close>

fun fill_run :: "nat \<Rightarrow> 'c double_source \<Rightarrow> f64 list \<Rightarrow> 'c \<Rightarrow> MilenaStatus \<times> f64 list \<times> bool \<times> 'c" where
  "fill_run 0 source vs c = (MILENA_OK, vs, False, c)"
| "fill_run (Suc room) source vs c =
     (case source c of (status, v, c) \<Rightarrow>
      if status \<noteq> MILENA_OK then (status, vs, False, c)
      else case v of
             None \<Rightarrow> (MILENA_OK, vs, True, c)
           | Some v \<Rightarrow> if \<not> f_finite v then (MILENA_ERR_DATA, vs, False, c) else fill_run room source (vs @ [v]) c)"

record 'c sort_state =
  so_context :: 'c
  so_world :: world
  so_eof :: bool
  so_runs :: nat
  so_scratch :: nat

definition sort_run_step ::
  "(f64 list \<Rightarrow> f64 list) \<Rightarrow> 'c double_source \<Rightarrow> string \<Rightarrow> nat \<Rightarrow> nat \<Rightarrow> nat \<Rightarrow> 'c sort_state \<Rightarrow> MilenaStatus \<times> 'c sort_state"
where
  "sort_run_step qs source run_prefix run_capacity file_quota total_quota st =
     (case fill_run run_capacity source [] (so_context st) of (status, vs, eof, c) \<Rightarrow>
      let st = st\<lparr>so_context := c, so_eof := eof\<rparr>
      in if status \<noteq> MILENA_OK then (status, st)
         else if vs = [] then (MILENA_OK, st)
         else case run_path run_prefix 0 (so_runs st) (so_world st) of
           (None, w) \<Rightarrow> (MILENA_ERR_MEMORY, st\<lparr>so_world := w\<rparr>)
         | (Some path, w) \<Rightarrow>
             let remaining = total_quota - so_scratch st; quota = bounded_quota file_quota remaining
             in if quota < least_quota then (MILENA_ERR_OVERFLOW, st\<lparr>so_world := w\<rparr>)
                else case write_run path (qs vs) quota w of
                  (Inl e, w) \<Rightarrow> (e, st\<lparr>so_world := w\<rparr>)
                | (Inr n, w) \<Rightarrow>
                    if n > remaining \<or> so_runs st = size_max then (MILENA_ERR_OVERFLOW, st\<lparr>so_world := w\<rparr>)
                    else (MILENA_OK, st\<lparr>so_world := w, so_scratch := so_scratch st + n, so_runs := so_runs st + 1\<rparr>))"

definition sort_runs ::
  "(f64 list \<Rightarrow> f64 list) \<Rightarrow> 'c double_source \<Rightarrow> string \<Rightarrow> nat \<Rightarrow> nat \<Rightarrow> nat \<Rightarrow> 'c \<Rightarrow> world \<Rightarrow> (MilenaStatus \<times> 'c sort_state) option"
where
  "sort_runs qs source run_prefix run_capacity file_quota total_quota c w =
     while_option (\<lambda>(status, st). status = MILENA_OK \<and> \<not> so_eof st)
       (\<lambda>(status, st). sort_run_step qs source run_prefix run_capacity file_quota total_quota st)
       (MILENA_OK, \<lparr>so_context = c, so_world = w, so_eof = False, so_runs = 0, so_scratch = 0\<rparr>)"

section \<open>Merging passes\<close>

text \<open>The names of the runs of a group, as far as memory goes.\<close>

fun gather_paths :: "string \<Rightarrow> nat \<Rightarrow> nat list \<Rightarrow> world \<Rightarrow> string list option \<times> world" where
  "gather_paths run_prefix pass [] w = (Some [], w)"
| "gather_paths run_prefix pass (i # is) w =
     (case run_path run_prefix pass i w of
        (None, w) \<Rightarrow> (None, w)
      | (Some path, w) \<Rightarrow> (case gather_paths run_prefix pass is w of
                            (None, w) \<Rightarrow> (None, w) | (Some paths, w) \<Rightarrow> (Some (path # paths), w)))"

text \<open>The bytes of scratch in use, those of the next pass, and the runs it has so far.\<close>

record pass_state =
  pa_world :: world
  pa_scratch :: nat
  pa_next :: nat
  pa_created :: nat

definition merge_group ::
  "string \<Rightarrow> nat \<Rightarrow> nat \<Rightarrow> nat \<Rightarrow> nat \<Rightarrow> nat \<Rightarrow> nat \<Rightarrow> pass_state \<Rightarrow> (MilenaStatus \<times> pass_state) option"
where
  "merge_group run_prefix pass run_count max_fan_in file_quota total_quota grp st =
     (let start = grp * max_fan_in; n = (if run_count - start < max_fan_in then run_count - start else max_fan_in)
      in case call_ok (pa_world st) of (ok1, w) \<Rightarrow> case call_ok w of (ok2, w) \<Rightarrow>
         if \<not> ok1 \<or> \<not> ok2 then Some (MILENA_ERR_MEMORY, st\<lparr>pa_world := w\<rparr>)
         else case gather_paths run_prefix pass [start..<start + n] w of (paths, w) \<Rightarrow>
         case run_path run_prefix (pass + 1) grp w of (out, w) \<Rightarrow>
         if paths = None \<or> out = None then Some (MILENA_ERR_MEMORY, st\<lparr>pa_world := w\<rparr>)
         else let quota = bounded_quota file_quota (total_quota - pa_scratch st)
         in if quota < least_quota then Some (MILENA_ERR_OVERFLOW, st\<lparr>pa_world := w\<rparr>)
            else case milena_external_merge_double_runs (Some (map Some (the paths))) n out max_fan_in quota w of
              None \<Rightarrow> None
            | Some (status, w) \<Rightarrow>
                if status \<noteq> MILENA_OK then Some (status, st\<lparr>pa_world := w\<rparr>)
                else case disk_size (the out) w of (bytes, w) \<Rightarrow>
                  let st = st\<lparr>pa_world := w, pa_created := pa_created st + 1\<rparr>
                  in if bytes = None \<or> the bytes > total_quota - pa_scratch st \<or> milena_size_add (pa_next st) (the bytes) = None
                     then Some (MILENA_ERR_OVERFLOW, st)
                     else Some (MILENA_OK, st\<lparr>pa_scratch := pa_scratch st + the bytes, pa_next := pa_next st + the bytes\<rparr>))"

fun merge_groups ::
  "string \<Rightarrow> nat \<Rightarrow> nat \<Rightarrow> nat \<Rightarrow> nat \<Rightarrow> nat \<Rightarrow> nat list \<Rightarrow> pass_state \<Rightarrow> (MilenaStatus \<times> pass_state) option"
where
  "merge_groups run_prefix pass run_count max_fan_in file_quota total_quota [] st = Some (MILENA_OK, st)"
| "merge_groups run_prefix pass run_count max_fan_in file_quota total_quota (g # gs) st =
     (case merge_group run_prefix pass run_count max_fan_in file_quota total_quota g st of
        None \<Rightarrow> None
      | Some (status, st) \<Rightarrow>
          if status \<noteq> MILENA_OK then Some (status, st)
          else merge_groups run_prefix pass run_count max_fan_in file_quota total_quota gs st)"

definition next_count :: "nat \<Rightarrow> nat \<Rightarrow> nat" where
  "next_count run_count max_fan_in = run_count div max_fan_in + (if run_count mod max_fan_in \<noteq> 0 then 1 else 0)"

text \<open>
  The loop over the passes: the pass, the number of its runs and the scratch in use when it ends.  On
  an error the runs of both passes are removed.
\<close>

partial_function (option) merge_passes ::
  "string \<Rightarrow> nat \<Rightarrow> nat \<Rightarrow> nat \<Rightarrow> nat \<Rightarrow> nat \<Rightarrow> nat \<Rightarrow> world \<Rightarrow> (MilenaStatus \<times> nat \<times> nat \<times> nat \<times> world) option"
where
  "merge_passes run_prefix max_fan_in file_quota total_quota pass run_count scratch w =
     (if run_count \<le> max_fan_in then Some (MILENA_OK, pass, run_count, scratch, w)
      else if pass = size_max then Some (MILENA_ERR_OVERFLOW, pass, run_count, scratch, remove_runs run_prefix pass [0..<run_count] w)
      else case merge_groups run_prefix pass run_count max_fan_in file_quota total_quota [0..<next_count run_count max_fan_in]
                  \<lparr>pa_world = w, pa_scratch = scratch, pa_next = 0, pa_created = 0\<rparr> of
             None \<Rightarrow> None
           | Some (status, st) \<Rightarrow>
               if status \<noteq> MILENA_OK
               then Some (status, pass, run_count, pa_scratch st,
                          remove_runs run_prefix pass [0..<run_count] (remove_runs run_prefix (pass + 1) [0..<pa_created st] (pa_world st)))
               else merge_passes run_prefix max_fan_in file_quota total_quota (pass + 1) (next_count run_count max_fan_in) (pa_next st)
                      (remove_runs run_prefix pass [0..<run_count] (pa_world st)))"

text \<open>The last merge, into the output.\<close>

definition merge_final ::
  "string \<Rightarrow> nat \<Rightarrow> nat \<Rightarrow> nat \<Rightarrow> nat \<Rightarrow> nat \<Rightarrow> nat \<Rightarrow> string \<Rightarrow> world \<Rightarrow> (MilenaStatus \<times> world) option"
where
  "merge_final run_prefix max_fan_in file_quota total_quota pass run_count scratch output w =
     (case call_ok w of (ok1, w) \<Rightarrow> case call_ok w of (ok2, w) \<Rightarrow>
      if \<not> ok1 \<or> \<not> ok2 then Some (MILENA_ERR_MEMORY, remove_runs run_prefix pass [0..<run_count] w)
      else case gather_paths run_prefix pass [0..<run_count] w of
             (None, w) \<Rightarrow> Some (MILENA_ERR_MEMORY, remove_runs run_prefix pass [0..<run_count] w)
           | (Some paths, w) \<Rightarrow>
               map_option (apsnd (remove_runs run_prefix pass [0..<run_count]))
                 (milena_external_merge_double_runs (Some (map Some paths)) run_count (Some output) max_fan_in
                    (bounded_quota file_quota (total_quota - scratch)) w))"

text \<open>No values at all: an empty store under its temporary name, then under its own.\<close>

definition sort_empty :: "string \<Rightarrow> nat \<Rightarrow> world \<Rightarrow> MilenaStatus \<times> world" where
  "sort_empty output file_quota w =
     (if milena_size_add (length output) 9 = None then (MILENA_ERR_OVERFLOW, w)
      else case call_ok w of (ok, w) \<Rightarrow>
      if \<not> ok then (MILENA_ERR_MEMORY, w)
      else case path_exists (partial_name output) w of (found, w) \<Rightarrow>
      if found then (MILENA_ERR_ARGUMENT, w)
      else case milena_spill_store_open (Some (partial_name output)) file_quota double_size spill_closed w of (status, store, w) \<Rightarrow>
      case (if status = MILENA_OK then milena_spill_store_close (Some store) w else (status, None, w)) of (status, _, w) \<Rightarrow>
      case (if status = MILENA_OK then rename (partial_name output) output w else (True, w)) of (renamed, w) \<Rightarrow>
      let status = (if status = MILENA_OK \<and> \<not> renamed then MILENA_ERR_IO else status)
      in (status, if status \<noteq> MILENA_OK then unlink (partial_name output) w else w))"

definition sort_arguments_bad :: "string option \<Rightarrow> string option \<Rightarrow> nat \<Rightarrow> nat \<Rightarrow> nat \<Rightarrow> nat \<Rightarrow> bool" where
  "sort_arguments_bad run_prefix output run_capacity max_fan_in file_quota total_quota \<longleftrightarrow>
     run_prefix = None \<or> run_prefix = Some [] \<or> output = None \<or> output = Some [] \<or> run_prefix = output \<or> run_capacity = 0 \<or>
     max_fan_in < 2 \<or> file_quota < least_quota \<or> total_quota < least_quota"

definition sort_body ::
  "(f64 list \<Rightarrow> f64 list) \<Rightarrow> 'c double_source \<Rightarrow> 'c \<Rightarrow> string \<Rightarrow> string \<Rightarrow> nat \<Rightarrow> nat \<Rightarrow> nat \<Rightarrow> nat \<Rightarrow> world \<Rightarrow> (MilenaStatus \<times> world) option"
where
  "sort_body qs source c run_prefix output run_capacity max_fan_in file_quota total_quota w =
     (case sort_runs qs source run_prefix run_capacity file_quota total_quota c w of
        None \<Rightarrow> None
      | Some (status, st) \<Rightarrow>
          if status \<noteq> MILENA_OK then Some (status, remove_runs run_prefix 0 [0..<so_runs st] (so_world st))
          else if so_runs st = 0 then Some (sort_empty output file_quota (so_world st))
          else case merge_passes run_prefix max_fan_in file_quota total_quota 0 (so_runs st) (so_scratch st) (so_world st) of
                 None \<Rightarrow> None
               | Some (status, pass, run_count, scratch, w) \<Rightarrow>
                   if status \<noteq> MILENA_OK then Some (status, w)
                   else merge_final run_prefix max_fan_in file_quota total_quota pass run_count scratch output w)"

definition milena_external_sort_doubles ::
  "(f64 list \<Rightarrow> f64 list) \<Rightarrow> 'c double_source option \<Rightarrow> 'c \<Rightarrow> string option \<Rightarrow> string option \<Rightarrow> nat \<Rightarrow> nat \<Rightarrow> nat \<Rightarrow> nat \<Rightarrow>
     world \<Rightarrow> (MilenaStatus \<times> world) option"
where
  "milena_external_sort_doubles qs source c run_prefix output run_capacity max_fan_in file_quota total_quota w =
     (if source = None \<or> sort_arguments_bad run_prefix output run_capacity max_fan_in file_quota total_quota then Some (MILENA_ERR_ARGUMENT, w)
      else case path_exists (the output) w of (found, w) \<Rightarrow>
      if found then Some (MILENA_ERR_ARGUMENT, w)
      else if milena_size_mul run_capacity double_size = None then Some (MILENA_ERR_OVERFLOW, w)
      else case call_ok w of (ok, w) \<Rightarrow>
      if \<not> ok then Some (MILENA_ERR_MEMORY, w)
      else sort_body qs (the source) c (the run_prefix) (the output) run_capacity max_fan_in file_quota total_quota w)"

end
