(* ===== verification/SortFiles.thy ===== *)
theory SortFiles
  imports ExternalSort
begin

text \<open>The names of the external sort and what its calls do to the files.\<close>

section \<open>Names\<close>

definition decimal_value :: "string \<Rightarrow> nat" where
  "decimal_value ds = foldl (\<lambda>v c. 10 * v + (of_char c - 48)) 0 ds"

lemma of_digit: "n < 10 \<Longrightarrow> (of_char (char_of (48 + n) :: char) :: nat) = 48 + n"
  by (simp add: of_char_of take_bit_eq_mod)

lemma decimal_facts: "decimal_value (decimal n) = n \<and> (\<forall>c \<in> set (decimal n). 48 \<le> (of_char c :: nat) \<and> (of_char c :: nat) \<le> 57)"
proof (induction n rule: less_induct)
  case (less n)
  show ?case
  proof (cases "n < 10")
    case True
    then show ?thesis by (subst (1 2) decimal.simps) (simp add: decimal_value_def of_digit)
  next
    case False
    have "n mod 10 < 10" "n div 10 < n" using False by simp_all
    then show ?thesis using less.IH [of "n div 10"] False
      by (subst (1 2) decimal.simps) (simp add: decimal_value_def of_digit)
  qed
qed

lemma decimal_inject: "decimal a = decimal b \<longleftrightarrow> a = b"
  using decimal_facts by metis

lemma decimal_before_dot: "takeWhile (\<lambda>c. c \<noteq> CHR ''.'') (decimal n @ CHR ''.'' # rest) = decimal n"
proof -
  have "CHR ''.'' \<notin> set (decimal n)" using decimal_facts [of n] by fastforce
  then show ?thesis by (simp add: takeWhile_tail) (metis (mono_tags, lifting) takeWhile_append2 takeWhile.simps(2) append_Nil2)
qed

lemma run_name_inject: "run_name run_prefix a b = run_name run_prefix c d \<longleftrightarrow> a = c \<and> b = d"
proof
  assume "run_name run_prefix a b = run_name run_prefix c d"
  then have eq: "decimal a @ CHR ''.'' # ''r'' @ decimal b @ ''.spill'' = decimal c @ CHR ''.'' # ''r'' @ decimal d @ ''.spill''"
    by (simp add: run_name_def)
  from arg_cong [OF this, of "takeWhile (\<lambda>c. c \<noteq> CHR ''.'')"] have "decimal a = decimal c" by (simp only: decimal_before_dot)
  then show "a = c \<and> b = d" using eq by (simp add: decimal_inject)
qed simp

lemma last_run_name: "last (run_name run_prefix a b) = CHR ''l''"
  by (simp add: run_name_def)

lemma run_name_lasting: "lasting (run_name run_prefix a b)"
proof -
  have "run_name run_prefix a b \<noteq> recover_name p c d" for p c d
  proof
    assume "run_name run_prefix a b = recover_name p c d"
    then have "last (run_name run_prefix a b) = last (recover_name p c d)" by simp
    then have "CHR ''l'' = (char_of (48 + d mod 10) :: char)"
      using last_decimal [of d] last_run_name by (simp add: recover_name_def)
    then have "of_char CHR ''l'' = (of_char (char_of (48 + d mod 10) :: char) :: nat)" by simp
    moreover have "d mod 10 < 10" by simp
    ultimately show False using of_digit [of "d mod 10"] by simp
  qed
  then show ?thesis by (simp add: lasting_def)
qed

lemma partial_not_run: "partial_name p \<noteq> run_name run_prefix a b"
proof
  assume "partial_name p = run_name run_prefix a b"
  then have "rev (p @ ''.partial'') = rev ((run_prefix @ ''.p'' @ decimal a @ ''.r'' @ decimal b) @ ''.spill'')"
    by (simp add: partial_name_def run_name_def)
  then show False by simp
qed

lemma partial_inject: "partial_name p = partial_name q \<longleftrightarrow> p = q"
  by (simp add: partial_name_def)

lemma run_name_nonempty: "run_name run_prefix a b \<noteq> []"
  by (simp add: run_name_def)

lemma length_run_name: "a < 10 ^ Suc 19 \<Longrightarrow> b < 10 ^ Suc 19 \<Longrightarrow> length (run_name run_prefix a b) \<le> length run_prefix + 50"
  using length_decimal [of a 19] length_decimal [of b 19] by (simp add: run_name_def)

section \<open>Calls\<close>

lemma run_path_files: "run_path run_prefix a b w = (r, w') \<Longrightarrow> w_files w' = w_files w \<and> (r = None \<or> r = Some (run_name run_prefix a b))"
  by (auto simp: run_path_def io_simps split: if_splits prod.splits)

lemma run_path_calm:
  "calm w \<Longrightarrow> length (run_name run_prefix a b) \<le> int32_max \<Longrightarrow> run_path run_prefix a b w = (Some (run_name run_prefix a b), tick w)"
  by (simp add: run_path_def calm_calls)

lemma gather_files:
  "gather_paths run_prefix a is w = (r, w') \<Longrightarrow> w_files w' = w_files w \<and> (r = None \<or> r = Some (map (run_name run_prefix a) is))"
proof (induction "is" arbitrary: w r w')
  case (Cons i "is")
  obtain p w1 where p: "run_path run_prefix a i w = (p, w1)" by fastforce
  obtain ps w2 where g: "gather_paths run_prefix a is w1 = (ps, w2)" by fastforce
  show ?case using Cons.prems p g run_path_files [OF p] Cons.IH [OF g] by (auto split: option.splits)
qed simp

lemma gather_calm:
  assumes "calm w" and "\<forall>i \<in> set is. length (run_name run_prefix a i) \<le> int32_max"
  shows "\<exists>w'. gather_paths run_prefix a is w = (Some (map (run_name run_prefix a) is), w') \<and> calm w'"
  using assms
proof (induction "is" arbitrary: w)
  case (Cons i "is")
  then obtain w' where "gather_paths run_prefix a is (tick w) = (Some (map (run_name run_prefix a) is), w')" "calm w'"
    using Cons.IH [of "tick w"] tick_world(1) by (metis list.set_intros(2))
  then show ?case using Cons.prems run_path_calm [of w run_prefix a i] by simp
qed simp

lemma disk_size_files:
  assumes "disk_size p w = (r, w')"
  shows "w_files w' = w_files w \<and> (\<forall>n. r = Some n \<longrightarrow> (\<exists>c. w_files w p = Some c \<and> n = length c))"
proof -
  obtain i w1 where i: "fopen_read p w = (i, w1)" by fastforce
  note f1 = fopen_read_files [OF i]
  show ?thesis
  proof (cases "\<exists>s. i = Opened s")
    case False
    then show ?thesis using assms i f1 by (cases i) (auto simp: disk_size_def)
  next
    case True
    then obtain s where s: "i = Opened s" by blast
    have c: "w_files w p = Some (is_rest s)" using i s by (auto simp: fopen_read_def ask_def split: option.splits)
    obtain ok w2 where k: "milena_file_seek64 w1 = (ok, w2)" by fastforce
    obtain e w3 where e: "(if ok then milena_file_tell64 (length (is_rest s)) w2 else (None, w2)) = (e, w3)" by fastforce
    obtain cl w4 where cl: "call_ok w3 = (cl, w4)" by fastforce
    have f3: "w_files w3 = w_files w2" using e by (auto simp: io_simps split: if_splits)
    have "e = None \<or> e = Some (length (is_rest s))"
      using e by (auto simp: milena_file_tell64_def split: if_splits prod.splits)
    then show ?thesis
      using assms i s k e cl c f1 f3 seek_files [OF k] call_ok_files [OF cl] by (auto simp: disk_size_def split: if_splits)
  qed
qed

lemma disk_size_calm:
  assumes "calm w" and "w_files w p = Some c" and "length c \<le> int64_max"
  shows "\<exists>w'. disk_size p w = (Some (length c), w') \<and> calm w'"
  using assms by (simp add: disk_size_def calm_calls int64_max_def size_max_def)

lemma unlink_files: "w_files (unlink p w) q = (if q = p then w_files (unlink p w) p else w_files w q) \<and> (w_files w p = None \<longrightarrow> w_files (unlink p w) p = None)"
  by (auto simp: unlink_def io_simps split: prod.splits)

lemma unlink_calm: "calm w \<Longrightarrow> calm (unlink p w) \<and> w_files (unlink p w) = (w_files w)(p := None)"
  by (simp add: unlink_def calm_calls calm_set_file fun_eq_iff)

lemma remove_runs_files:
  "(\<forall>i \<in> set is. q \<noteq> run_name run_prefix a i) \<or> w_files w q = None \<Longrightarrow> w_files (remove_runs run_prefix a is w) q = w_files w q"
proof (induction "is" arbitrary: w)
  case (Cons i "is")
  obtain p w1 where p: "run_path run_prefix a i w = (p, w1)" by fastforce
  note f = run_path_files [OF p]
  show ?case
  proof (cases p)
    case None
    then show ?thesis using Cons p f by auto
  next
    case (Some n)
    then have n: "n = run_name run_prefix a i" using f by auto
    have "w_files (unlink n w1) q = w_files w q" using Cons.prems f n unlink_files [of n w1 q] by (cases "q = n") auto
    then show ?thesis using Cons.IH [of "unlink n w1"] Cons.prems p Some by auto
  qed
qed simp

lemma remove_runs_calm:
  assumes "calm w" and "\<forall>i \<in> set is. length (run_name run_prefix a i) \<le> int32_max"
  shows "calm (remove_runs run_prefix a is w) \<and> (\<forall>i \<in> set is. w_files (remove_runs run_prefix a is w) (run_name run_prefix a i) = None)"
  using assms
proof (induction "is" arbitrary: w)
  case (Cons i "is")
  let ?w = "unlink (run_name run_prefix a i) (tick w)"
  have u: "calm ?w" "w_files ?w (run_name run_prefix a i) = None" using unlink_calm [of "tick w"] Cons.prems(1) by simp_all
  have r: "remove_runs run_prefix a (i # is) w = remove_runs run_prefix a is ?w" using run_path_calm [of w run_prefix a i] Cons.prems by simp
  have "w_files (remove_runs run_prefix a is ?w) (run_name run_prefix a i) = None"
    using remove_runs_files [of "is" "run_name run_prefix a i" run_prefix a ?w] u(2) by simp
  then show ?case using Cons.IH [OF u(1)] Cons.prems r by simp
qed simp

section \<open>Writing a run\<close>

lemma encode_double_le: "encode_double_le = encode_double"
  by (simp add: encode_double_le_def encode_double_def fun_eq_iff)

lemma append_values_sound:
  assumes "store_ok path ps st w" and "append_values vs st w = (MILENA_OK, st', w')"
  shows "store_ok path (ps @ map encode_double vs) st' w' \<and> same_but path w w'"
  using assms
proof (induction vs arbitrary: ps st w)
  case Nil
  then show ?case by (simp add: same_but_def)
next
  case (Cons v vs)
  obtain status st1 w1 where a: "milena_spill_store_append (Some st) (Some (encode_double v)) double_size w = (status, st1, w1)" by (metis prod_cases3)
  then have ok: "status = MILENA_OK" and rec: "append_values vs (the st1) w1 = (MILENA_OK, st', w')"
    using Cons.prems(2) by (auto simp: encode_double_le split: if_splits)
  have "milena_spill_store_append (Some st) (Some (encode_double v)) (length (encode_double v)) w = (MILENA_OK, st1, w1)"
    using a ok by (simp add: double_size_def)
  from append_parts [OF Cons.prems(1) this] Cons.prems(1)
  have "store_ok path (ps @ [encode_double v]) (the st1) w1 \<and> same_but path w w1"
    by (auto simp: store_ok_def)
  then show ?case using Cons.IH [OF _ rec, of "ps @ [encode_double v]"] same_but_trans [of path w w1 w'] by simp
qed

lemma append_values_calm:
  assumes "calm w" and "store_ok path ps st w" and "st_max_record st = double_size" and "st_used st + 28 * length vs \<le> st_quota st"
    and "st_quota st \<le> size_max" and "st_count st + length vs < size_max"
  shows "\<exists>st' w'. append_values vs st w = (MILENA_OK, st', w') \<and> calm w'"
  using assms
proof (induction vs arbitrary: ps st w)
  case (Cons v vs)
  obtain st1 w1 where a: "milena_spill_store_append (Some st) (Some (encode_double v)) 8 w = (MILENA_OK, Some st1, w1)" "calm w1"
    "store_ok path (ps @ [encode_double v]) st1 w1" "st_quota st1 = st_quota st" "st_max_record st1 = st_max_record st"
    "st_used st1 = st_used st + 8 + 20" "st_count st1 = st_count st + 1"
    using append_calm [OF Cons.prems(1,2), of "encode_double v"] Cons.prems(3-6) by (auto simp: double_size_def)
  then show ?case using Cons.IH [OF a(2,3)] Cons.prems(3-6) by (simp add: encode_double_le double_size_def)
qed simp

lemma write_run_sound:
  assumes "write_run path vs quota w = (Inr n, w')" and "w_files w path = None"
  shows "w_files w' = (w_files w)(path := Some (spill_image (map encode_double vs))) \<and> n = length (spill_image (map encode_double vs))"
proof -
  obtain found w1 where e: "path_exists path w = (found, w1)" by fastforce
  obtain so store w2 where o': "milena_spill_store_open (Some path) quota double_size spill_closed w1 = (so, store, w2)" by (metis prod_cases3)
  obtain sa store2 w3 where a: "append_values vs store w2 = (sa, store2, w3)" by (metis prod_cases3)
  obtain sc store3 w4 where c: "milena_spill_store_close (Some store2) w3 = (sc, store3, w4)" by (metis prod_cases3)
  obtain d w5 where d: "disk_size path w4 = (d, w5)" by fastforce
  have ok: "so = MILENA_OK" "sa = MILENA_OK" "d = Some n" "w' = w5"
    using assms(1) unfolding write_run_def e o' a c d prod.case by (auto simp: Let_def split: if_splits option.splits)
  note f1 = path_exists_files [OF e]
  have st: "store_ok path [] store w2" and f2: "w_files w2 = (w_files w)(path := Some [])"
    using open_fresh [OF o' [unfolded ok(1)]] assms(2) f1 by simp_all
  from append_values_sound [OF st a [unfolded ok(2)]] have s2: "store_ok path (map encode_double vs) store2 w3" "same_but path w2 w3" by simp_all
  have f4: "w_files w4 = w_files w3" by (rule close_pending [OF c s2(1)])
  have "w_files w3 = (w_files w)(path := Some (spill_image (map encode_double vs)))"
    using s2 f2 by (auto simp: store_ok_def same_but_def fun_eq_iff)
  then show ?thesis using disk_size_files [OF d] ok(3,4) f4 by auto
qed

lemma length_double_image: "length (spill_image (map encode_double vs)) = 28 * length vs"
  by (induction vs) simp_all

lemma write_run_calm:
  assumes "calm w" and "w_files w path = None" and "path \<noteq> []" and "20 \<le> quota" and "28 * length vs \<le> quota" and "quota \<le> int64_max"
  shows "\<exists>w'. write_run path vs quota w = (Inr (28 * length vs), w') \<and> calm w'"
proof -
  have e: "path_exists path w = (False, tick w)" using path_exists_calm assms(1,2) by simp
  obtain st w2 where o': "milena_spill_store_open (Some path) quota double_size spill_closed (tick w) = (MILENA_OK, st, w2)" "calm w2"
    "st_quota st = quota" "st_max_record st = double_size" "st_used st = 0" "st_count st = 0"
    using store_open_calm [of "tick w" path quota spill_closed] assms by auto
  have st: "store_ok path [] st w2" using open_fresh [OF o'(1)] assms(2) assms(1) by simp
  obtain st2 w3 where a: "append_values vs st w2 = (MILENA_OK, st2, w3)" "calm w3"
    using append_values_calm [OF o'(2) st o'(4), of vs] assms(5,6) o'(3,5,6) by (auto simp: int64_max_def size_max_def)
  from append_values_sound [OF st a(1)] have s2: "store_ok path (map encode_double vs) st2 w3" by simp
  then have c: "milena_spill_store_close (Some st2) w3 = (MILENA_OK, Some (st2\<lparr>st_path := None, st_file := None\<rparr>), tick w3)"
    using a(2) by (simp add: store_ok_def milena_spill_store_close_def fflush_def calm_calls)
  have "w_files (tick w3) path = Some (spill_image (map encode_double vs))" using s2 a(2) by (simp add: store_ok_def)
  then obtain w5 where d: "disk_size path (tick w3) = (Some (28 * length vs), w5)" "calm w5"
    using disk_size_calm [of "tick w3" path "spill_image (map encode_double vs)"] a(2) assms(5,6) by (auto simp: length_double_image)
  show ?thesis unfolding write_run_def e prod.case o'(1) a(1) c d(1) using d(2) by simp
qed

end
