(* ===== verification/SortSteps.thy ===== *)
theory SortSteps
  imports SortFiles
begin

text \<open>
  The merging passes of the external sort.  \<open>runs_stored\<close> says which runs a pass has on disk; every merge
  takes values only from the runs before it, and when nothing fails it takes all of them.
\<close>

section \<open>The files of a sort\<close>

definition runs_stored :: "string \<Rightarrow> nat \<Rightarrow> f64 list list \<Rightarrow> world \<Rightarrow> bool" where
  "runs_stored pre a rss w \<longleftrightarrow>
     (\<forall>i < length rss. w_files w (run_name pre a i) = Some (spill_image (map encode_double (rss ! i)))) \<and>
     (\<forall>p i. a < p \<or> a = p \<and> length rss \<le> i \<longrightarrow> w_files w (run_name pre p i) = None) \<and>
     (\<forall>p i. w_files w (partial_name (run_name pre p i)) = None)"

definition sort_file :: "string \<Rightarrow> string \<Rightarrow> bool" where
  "sort_file pre q \<longleftrightarrow> (\<exists>p i. q = run_name pre p i \<or> q = partial_name (run_name pre p i))"

definition others_same :: "string \<Rightarrow> world \<Rightarrow> world \<Rightarrow> bool" where
  "others_same pre w w' \<longleftrightarrow> (\<forall>q. \<not> sort_file pre q \<longrightarrow> lasting q \<or> w_files w q \<noteq> None \<longrightarrow> w_files w' q = w_files w q)"

lemma others_same_refl: "w_files w' = w_files w \<Longrightarrow> others_same pre w w'"
  by (simp add: others_same_def)

lemma others_same_trans: "others_same pre w w' \<Longrightarrow> others_same pre w' w'' \<Longrightarrow> others_same pre w w''"
  by (auto simp: others_same_def)

lemma runs_stored_files: "w_files w' = w_files w \<Longrightarrow> runs_stored pre a rss w' = runs_stored pre a rss w"
  by (simp add: runs_stored_def)

definition good_runs :: "f64 list list \<Rightarrow> bool" where
  "good_runs rss \<longleftrightarrow> (\<forall>r \<in> set rss. r \<noteq> [] \<and> sorted (map f_int r) \<and> list_all f_finite r)"

section \<open>Values and records\<close>

lemma images_prefix:
  assumes "prefix (spill_image r) (spill_image s)" and "\<forall>p \<in> set r. length p = 8" and "\<forall>p \<in> set s. length p = 8"
  shows "prefix r s"
  using assms
proof (induction r arbitrary: s)
  case (Cons p r)
  obtain t where t: "spill_image s = spill_image (p # r) @ t" using Cons.prems(1) by (auto simp: prefix_def)
  then obtain q s' where s: "s = q # s'" by (cases s) auto
  have "p = q \<and> spill_image r @ t = spill_image s'"
    using frame_inject [of p "spill_image r @ t" q "spill_image s'"] t s Cons.prems(2,3) by (simp add: size_max_def)
  moreover from this have "prefix (spill_image r) (spill_image s')" by (metis prefixI)
  ultimately show ?case using Cons.IH [of s'] Cons.prems(2,3) s by simp
qed simp

lemma mset_concat_prefix: "list_all2 prefix rs ss \<Longrightarrow> mset (concat rs) \<subseteq># mset (concat ss)"
  by (induction rule: list_all2_induct) (auto intro!: subset_mset.add_mono simp: prefix_def)

lemma mset_decode: "image_mset decode_double (mset (map encode_double vs)) = mset vs"
  by (simp add: mset_map [symmetric] o_def decode_encode_double del: mset_map)

lemma mset_values_sub:
  assumes "mset (map encode_double vs) = mset (concat rs)" and "list_all2 prefix rs (map (map encode_double) ss)"
  shows "mset vs \<subseteq># mset (concat ss)"
proof -
  have "mset (map encode_double vs) \<subseteq># mset (map encode_double (concat ss))"
    using mset_concat_prefix [OF assms(2)] assms(1) by (simp add: map_concat)
  from image_mset_subseteq_mono [OF this, of decode_double] show ?thesis by (simp only: mset_decode)
qed

section \<open>A merge of stored runs\<close>

definition stored_at :: "world \<Rightarrow> string \<Rightarrow> f64 list \<Rightarrow> bool" where
  "stored_at w n r \<longleftrightarrow> w_files w n = Some (spill_image (map encode_double r))"

lemma merge_runs_sound:
  assumes m: "milena_external_merge_double_runs (Some (map Some ns)) (length ns) (Some out) fan q w = Some (MILENA_OK, w')"
    and dist: "distinct ns" and stored: "list_all2 (stored_at w) ns rss" and part: "w_files w (partial_name out) = None"
  shows "\<exists>vals. w_files w' out = Some (spill_image (map encode_double vals)) \<and> mset vals \<subseteq># mset (concat rss) \<and>
    sorted (map f_int vals) \<and> list_all f_finite vals \<and> w_files w' (partial_name out) = None \<and>
    (\<forall>x. x \<notin> set ns \<longrightarrow> x \<noteq> out \<longrightarrow> x \<noteq> partial_name out \<longrightarrow> lasting x \<or> w_files w x \<noteq> None \<longrightarrow> w_files w' x = w_files w x)"
proof -
  have "\<forall>n \<in> set ns. w_files w n \<noteq> None" using stored by (auto simp: list_all2_conv_all_nth in_set_conv_nth stored_at_def)
  then have ex: "\<forall>q. Some q \<in> set (map Some ns) \<longrightarrow> w_files w q \<noteq> None" by auto
  have "distinct (map Some ns)" using dist by (simp add: distinct_map)
  from merge_sound [OF _ this ex part, of fan q w'] m obtain runs vals where
    r: "list_all2 (\<lambda>p r. \<exists>q c. p = Some q \<and> w_files w q = Some c \<and> prefix (spill_image r) c \<and> w_files w' q = Some (spill_image r)) (map Some ns) runs"
      "w_files w' out = Some (spill_image (map encode_double vals))" "mset (map encode_double vals) = mset (concat runs)"
      "sorted (map f_int vals)" "list_all f_finite vals" "w_files w' (partial_name out) = None"
      "\<forall>q. Some q \<notin> set (map Some ns) \<longrightarrow> q \<noteq> out \<longrightarrow> q \<noteq> partial_name out \<longrightarrow> lasting q \<or> w_files w q \<noteq> None \<longrightarrow> w_files w' q = w_files w q"
    by auto
  have eight: "\<forall>r \<in> set runs. \<forall>p \<in> set r. length p = 8"
  proof -
    have "set (concat runs) = set (map encode_double vals)" using arg_cong [OF r(3), of set_mset] by simp
    then have "length p = 8" if "p \<in> set (concat runs)" for p using that by auto
    then show ?thesis by (metis UN_I set_concat)
  qed
  have l: "length runs = length ns" "length rss = length ns" using list_all2_lengthD [OF r(1)] list_all2_lengthD [OF stored] by simp_all
  have "list_all2 prefix runs (map (map encode_double) rss)"
  proof (rule list_all2_all_nthI)
    show "length runs = length (map (map encode_double) rss)" using l by simp
    fix j assume j: "j < length runs"
    have "\<exists>c. w_files w (ns ! j) = Some c \<and> prefix (spill_image (runs ! j)) c"
      using list_all2_nthD2 [OF r(1) j] j l by auto
    moreover have "w_files w (ns ! j) = Some (spill_image (map encode_double (rss ! j)))"
      using list_all2_nthD [OF stored, of j] j l by (simp add: stored_at_def)
    ultimately have "prefix (spill_image (runs ! j)) (spill_image (map encode_double (rss ! j)))" by simp
    then have "prefix (runs ! j) (map encode_double (rss ! j))"
      by (rule images_prefix) (use eight j in \<open>auto\<close>)
    then show "prefix (runs ! j) (map (map encode_double) rss ! j)" using j l by simp
  qed
  then have "mset vals \<subseteq># mset (concat rss)" by (rule mset_values_sub [OF r(3)])
  then show ?thesis using r(2,4-7) by auto
qed

lemma run_in_concat: "r \<in> set rss \<Longrightarrow> length r \<le> length (concat rss)"
  by (induction rss) auto

lemma good_length: "good_runs rss \<Longrightarrow> length rss \<le> length (concat rss)"
proof (induction rss)
  case (Cons r rss)
  then have "r \<noteq> []" "length rss \<le> length (concat rss)" by (simp_all add: good_runs_def)
  then show ?case by (cases r) simp_all
qed simp

lemma merge_runs_calm:
  assumes calm: "calm w" and stored: "list_all2 (stored_at w) ns rss" and good: "good_runs rss" and ne: "ns \<noteq> []" "[] \<notin> set ns"
    and fan: "2 \<le> fan" "length ns \<le> fan" and out: "out \<noteq> []" "out \<notin> set ns" "w_files w out = None" "w_files w (partial_name out) = None"
    "length out + 9 \<le> size_max"
    and room: "28 * length (concat rss) \<le> q" "q + 28 \<le> int64_max"
  shows "\<exists>vals w'. milena_external_merge_double_runs (Some (map Some ns)) (length ns) (Some out) fan q w = Some (MILENA_OK, w') \<and>
    w_files w' out = Some (spill_image (map encode_double vals)) \<and> calm w' \<and> mset vals = mset (concat rss) \<and> sorted (map f_int vals)"
proof -
  have l: "length rss = length ns" using list_all2_lengthD [OF stored] by simp
  have runs: "list_all2 (merge_run w q) (map Some ns) (map (map encode_double) rss)"
  proof (rule list_all2_all_nthI)
    show "length (map Some ns) = length (map (map encode_double) rss)" using l by simp
    fix j assume "j < length (map Some ns)"
    then have j: "j < length ns" by simp
    let ?r = "rss ! j"
    have in': "?r \<in> set rss" using j l by simp
    then have r: "sorted (map f_int ?r)" "list_all f_finite ?r" using good by (auto simp: good_runs_def)
    have st: "w_files w (ns ! j) = Some (spill_image (map encode_double ?r))" using list_all2_nthD [OF stored, of j] j by (simp add: stored_at_def)
    have "ns ! j \<noteq> []" using ne(2) j nth_mem by metis
    moreover have "28 * length ?r \<le> q" using run_in_concat [OF in'] room(1) by simp
    moreover have "map (f_int \<circ> decode_double) (map encode_double ?r) = map f_int ?r" by (simp add: decode_encode_double)
    ultimately have "merge_run w q (Some (ns ! j)) (map encode_double ?r)"
      unfolding merge_run_def using st r
      by (auto simp: encoded_run_def decode_encode_double length_double_image list_all_iff simp del: map_map)
    then show "merge_run w q (map Some ns ! j) (map (map encode_double) rss ! j)" using j l by simp
  qed
  have lc: "length (concat (map (map encode_double) rss)) = length (concat rss)" by (simp add: length_concat o_def)
  have few: "length ns \<le> length (concat rss)" using good_length [OF good] l by simp
  then have "length ns * 40 \<le> size_max" using room by (simp add: size_max_def int64_max_def)
  then have "40 \<le> size_max div length ns" using ne(1) by (simp add: less_eq_div_iff_mult_less_eq mult.commute)
  then have fit: "merge_sizes_fit (length (map Some ns))" by (simp add: merge_sizes_fit_def milena_size_mul_def double_size_def not_less)
  have ns: "map Some ns \<noteq> []" "length (map Some ns) \<le> fan" "Some out \<notin> set (map Some ns)" "0 < length ns" using ne(1) fan out(2) by auto
  have rooms: "20 \<le> q" "28 * length (concat (map (map encode_double) rss)) \<le> q" using room(1) few ns(4) lc by linarith+
  from merge_complete [OF calm runs ns(1) fan(1) ns(2) out(1) ns(3) out(3,4) fit out(5) rooms(1) room(2) rooms(2)] obtain vals w' where
    v: "milena_external_merge_double_runs (Some (map Some ns)) (length ns) (Some out) fan q w = Some (MILENA_OK, w')"
      "w_files w' out = Some (spill_image (map encode_double vals))" "mset (map encode_double vals) = mset (concat (map (map encode_double) rss))"
      "sorted (map f_int vals)" "calm w'" by auto
  have "mset (map encode_double vals) = mset (map encode_double (concat rss))" using v(3) by (simp add: map_concat)
  then have "mset vals = mset (concat rss)" using mset_decode by metis
  then show ?thesis using v by blast
qed

lemma values_size: "mset vals = mset xs \<Longrightarrow> length (spill_image (map encode_double vals)) = 28 * length xs"
  using mset_eq_length by (auto simp: length_double_image)

section \<open>One group\<close>

definition group_runs :: "nat \<Rightarrow> nat \<Rightarrow> f64 list list \<Rightarrow> f64 list list" where
  "group_runs fan g rss = take fan (drop (g * fan) rss)"

lemma group_indices:
  assumes "g * fan < length rss"
  defines "m \<equiv> (if length rss - g * fan < fan then length rss - g * fan else fan)"
  shows "length (group_runs fan g rss) = m" and "k < m \<Longrightarrow> group_runs fan g rss ! k = rss ! (g * fan + k)" and "g * fan + m \<le> length rss"
    and "m \<le> fan"
  using assms(1) by (cases "length rss - g * fan < fan"; simp add: group_runs_def m_def)+

lemma merge_group_sound:
  assumes m: "merge_group pre a (length rss) fan fq tq g st = Some (MILENA_OK, st')" and lt: "g * fan < length rss"
    and inputs: "\<forall>i. g * fan \<le> i \<and> i < length rss \<longrightarrow> w_files (pa_world st) (run_name pre a i) = Some (spill_image (map encode_double (rss ! i)))"
    and outs: "runs_stored pre (a + 1) outs (pa_world st)" and len: "length outs = g"
  shows "\<exists>out. runs_stored pre (a + 1) (outs @ [out]) (pa_world st') \<and> mset out \<subseteq># mset (concat (group_runs fan g rss)) \<and>
    sorted (map f_int out) \<and> list_all f_finite out \<and> others_same pre (pa_world st) (pa_world st') \<and>
    (\<forall>i. (g + 1) * fan \<le> i \<and> i < length rss \<longrightarrow> w_files (pa_world st') (run_name pre a i) = Some (spill_image (map encode_double (rss ! i)))) \<and>
    (\<forall>p i. p \<le> a \<longrightarrow> w_files (pa_world st) (run_name pre p i) = None \<longrightarrow> w_files (pa_world st') (run_name pre p i) = None)"
proof -
  define k where "k = (if length rss - g * fan < fan then length rss - g * fan else fan)"
  note gi = group_indices [OF lt, folded k_def]
  obtain ok1 w1 where 1: "call_ok (pa_world st) = (ok1, w1)" by fastforce
  obtain ok2 w2 where 2: "call_ok w1 = (ok2, w2)" by fastforce
  obtain ps w3 where g: "gather_paths pre a [g * fan..<g * fan + k] w2 = (ps, w3)" by fastforce
  obtain po w4 where o': "run_path pre (a + 1) g w3 = (po, w4)" by fastforce
  define q where "q = bounded_quota fq (tq - pa_scratch st)"
  let ?names = "map (run_name pre a) [g * fan..<g * fan + k]" and ?out = "run_name pre (a + 1) g"
  have eq: "merge_group pre a (length rss) fan fq tq g st =
    (if \<not> ok1 \<or> \<not> ok2 then Some (MILENA_ERR_MEMORY, st\<lparr>pa_world := w2\<rparr>)
     else if ps = None \<or> po = None then Some (MILENA_ERR_MEMORY, st\<lparr>pa_world := w4\<rparr>)
     else if q < least_quota then Some (MILENA_ERR_OVERFLOW, st\<lparr>pa_world := w4\<rparr>)
     else case milena_external_merge_double_runs (Some (map Some (the ps))) k po fan q w4 of
              None \<Rightarrow> None
            | Some (status, w) \<Rightarrow>
                if status \<noteq> MILENA_OK then Some (status, st\<lparr>pa_world := w\<rparr>)
                else case disk_size (the po) w of (bytes, w) \<Rightarrow>
                  let st = st\<lparr>pa_world := w, pa_created := pa_created st + 1\<rparr>
                  in if bytes = None \<or> the bytes > tq - pa_scratch st \<or> milena_size_add (pa_next st) (the bytes) = None
                     then Some (MILENA_ERR_OVERFLOW, st)
                     else Some (MILENA_OK, st\<lparr>pa_scratch := pa_scratch st + the bytes, pa_next := pa_next st + the bytes\<rparr>))"
    unfolding merge_group_def Let_def k_def [symmetric] 1 2 prod.case g o' q_def by simp
  have names: "ps = Some ?names" "po = Some ?out" and f4: "w_files w4 = w_files (pa_world st)"
    using m unfolding eq using gather_files [OF g] run_path_files [OF o'] call_ok_files [OF 1] call_ok_files [OF 2]
    by (auto split: if_splits)
  obtain status w5 where mr: "milena_external_merge_double_runs (Some (map Some ?names)) k (Some ?out) fan q w4 = Some (status, w5)"
    using m unfolding eq names by (auto split: if_splits option.splits)
  have ok: "status = MILENA_OK" using m unfolding eq names option.sel mr by (auto split: if_splits)
  obtain b w6 where d: "disk_size ?out w5 = (b, w6)" by fastforce
  have w6: "pa_world st' = w6" using m unfolding eq names option.sel mr using ok d by (auto simp: Let_def split: if_splits)
  have f6: "w_files (pa_world st') = w_files w5" using disk_size_files [OF d] w6 by simp
  have dist: "distinct ?names" and kn: "length ?names = k" by (simp_all add: distinct_map inj_on_def run_name_inject)
  have stored: "list_all2 (stored_at w4) ?names (group_runs fan g rss)"
    by (rule list_all2_all_nthI) (use gi inputs f4 in \<open>auto simp: stored_at_def\<close>)
  have part: "w_files w4 (partial_name ?out) = None" using outs f4 by (simp add: runs_stored_def)
  from merge_runs_sound [OF _ dist stored part, unfolded kn, OF mr [unfolded ok]] obtain vals where
    r: "w_files w5 ?out = Some (spill_image (map encode_double vals))" "mset vals \<subseteq># mset (concat (group_runs fan g rss))"
      "sorted (map f_int vals)" "list_all f_finite vals" "w_files w5 (partial_name ?out) = None"
      "\<forall>x. x \<notin> set ?names \<longrightarrow> x \<noteq> ?out \<longrightarrow> x \<noteq> partial_name ?out \<longrightarrow> lasting x \<or> w_files w4 x \<noteq> None \<longrightarrow> w_files w5 x = w_files w4 x"
    by blast
  have keep: "w_files w5 x = w_files (pa_world st) x"
    if "x \<notin> set ?names" "x \<noteq> ?out" "x \<noteq> partial_name ?out" "lasting x \<or> w_files (pa_world st) x \<noteq> None" for x
    using r(6) that f4 by auto
  have new: "w_files w5 (run_name pre p i) = w_files (pa_world st) (run_name pre p i)" if "p \<noteq> a" "\<not> (p = a + 1 \<and> i = g)" for p i
    using that partial_not_run [of ?out pre p i] by (intro keep) (auto simp: run_name_inject run_name_lasting)
  have parts: "w_files w5 (partial_name (run_name pre p i)) = None" for p i
  proof (cases "p = a + 1 \<and> i = g")
    case False
    then have "w_files w5 (partial_name (run_name pre p i)) = w_files (pa_world st) (partial_name (run_name pre p i))"
      using partial_not_run by (intro keep) (auto simp: partial_inject run_name_inject partial_lasting)
    then show ?thesis using outs by (simp add: runs_stored_def)
  qed (use r(5) in simp)
  have "runs_stored pre (a + 1) (outs @ [vals]) w5"
    using outs new r(1) parts len unfolding runs_stored_def by (auto simp: nth_append less_Suc_eq)
  moreover have "others_same pre (pa_world st) w5"
    unfolding others_same_def
  proof (intro allI impI)
    fix x assume x: "\<not> sort_file pre x" "lasting x \<or> w_files (pa_world st) x \<noteq> None"
    then have "x \<notin> set ?names" "x \<noteq> ?out" "x \<noteq> partial_name ?out" unfolding sort_file_def by auto
    then show "w_files w5 x = w_files (pa_world st) x" using x(2) by (intro keep) auto
  qed
  moreover have "w_files w5 (run_name pre a i) = Some (spill_image (map encode_double (rss ! i)))" if i: "(g + 1) * fan \<le> i" "i < length rss" for i
  proof -
    have "w_files w5 (run_name pre a i) = w_files (pa_world st) (run_name pre a i)"
      using i gi(4) partial_not_run [of ?out pre a i] by (intro keep) (auto simp: run_name_inject run_name_lasting)
    then show ?thesis using inputs i by simp
  qed
  moreover have "w_files w5 (run_name pre p i) = None" if p: "p \<le> a" "w_files (pa_world st) (run_name pre p i) = None" for p i
  proof -
    have "run_name pre p i \<notin> set ?names" using inputs gi(3) p(2) by auto
    then have "w_files w5 (run_name pre p i) = w_files (pa_world st) (run_name pre p i)"
      using p(1) partial_not_run [of ?out pre p i] by (intro keep) (auto simp: run_name_inject run_name_lasting)
    then show ?thesis using p(2) by simp
  qed
  ultimately show ?thesis using r(2-4) f6 by (intro exI [of _ vals]) (simp add: runs_stored_def others_same_def)
qed

lemma group_size_le: "length (concat (group_runs fan g rss)) \<le> length (concat rss)"
proof -
  have "rss = take (g * fan) rss @ group_runs fan g rss @ drop fan (drop (g * fan) rss)"
    by (simp only: group_runs_def append_take_drop_id)
  then have "concat rss = concat (take (g * fan) rss) @ concat (group_runs fan g rss) @ concat (drop fan (drop (g * fan) rss))"
    using concat_append by metis
  from arg_cong [OF this, of length] show ?thesis by simp
qed

lemma good_group: "good_runs rss \<Longrightarrow> good_runs (group_runs fan g rss)"
  by (auto simp: good_runs_def group_runs_def dest!: in_set_takeD in_set_dropD)

lemma merge_group_calm:
  assumes calm: "calm (pa_world st)" and lt: "g * fan < length rss" and fan: "2 \<le> fan" and good: "good_runs rss"
    and inputs: "\<forall>i. g * fan \<le> i \<and> i < length rss \<longrightarrow> w_files (pa_world st) (run_name pre a i) = Some (spill_image (map encode_double (rss ! i)))"
    and outs: "runs_stored pre (a + 1) outs (pa_world st)" and len: "length outs = g"
    and names: "\<forall>p i. p \<le> a + 1 \<longrightarrow> i \<le> length rss \<longrightarrow> length (run_name pre p i) + 9 \<le> int32_max"
  defines "L \<equiv> 28 * length (concat (group_runs fan g rss))"
  assumes room: "L \<le> fq" "pa_scratch st + L \<le> tq" "fq + 28 \<le> int64_max" "pa_next st + L \<le> size_max"
  shows "\<exists>st'. merge_group pre a (length rss) fan fq tq g st = Some (MILENA_OK, st') \<and> calm (pa_world st') \<and>
    pa_scratch st' = pa_scratch st + L \<and> pa_next st' = pa_next st + L \<and>
    (\<exists>c. w_files (pa_world st') (run_name pre (a + 1) g) = Some c \<and> length c = L)"
proof -
  define k where "k = (if length rss - g * fan < fan then length rss - g * fan else fan)"
  note gi = group_indices [OF lt, folded k_def]
  define q where "q = bounded_quota fq (tq - pa_scratch st)"
  let ?names = "map (run_name pre a) [g * fan..<g * fan + k]" and ?out = "run_name pre (a + 1) g" and ?grp = "group_runs fan g rss"
  have k0: "0 < k" using lt fan by (auto simp: k_def)
  have gg: "good_runs ?grp" using good_group [OF good] .
  have "1 \<le> length (concat ?grp)" using good_length [OF gg] gi(1) k0 by simp
  then have q: "L \<le> q" "28 \<le> q" "q \<le> fq" using room by (auto simp: q_def bounded_quota_def L_def)
  have glt: "g < length rss" using lt fan by (metis le_less_trans mult.commute mult_le_mono2 mult.right_neutral one_le_numeral order_trans)
  have nl: "\<forall>i \<in> set [g * fan..<g * fan + k]. length (run_name pre a i) \<le> int32_max" 
  proof
    fix i assume "i \<in> set [g * fan..<g * fan + k]"
    then have "i \<le> length rss" using gi(3) by simp
    then have "length (run_name pre a i) + 9 \<le> int32_max" using names by simp
    then show "length (run_name pre a i) \<le> int32_max" by simp
  qed
  obtain w3 where g: "gather_paths pre a [g * fan..<g * fan + k] (tick (tick (pa_world st))) = (Some ?names, w3)" "calm w3"
    using gather_calm [OF _ nl, of "tick (tick (pa_world st))"] calm by auto
  have f3: "w_files w3 = w_files (pa_world st)" using gather_files [OF g(1)] calm by simp
  have on: "length ?out + 9 \<le> int32_max" using names glt by simp
  then have o': "run_path pre (a + 1) g w3 = (Some ?out, tick w3)" using run_path_calm [OF g(2), of pre "a + 1" g] by simp
  have free: "w_files (tick w3) ?out = None" "w_files (tick w3) (partial_name ?out) = None"
    using outs f3 g(2) len by (simp_all add: runs_stored_def)
  have kn: "length ?names = k" by simp
  have stored: "list_all2 (stored_at (tick w3)) ?names ?grp"
    by (rule list_all2_all_nthI) (use gi inputs f3 g(2) in \<open>auto simp: stored_at_def\<close>)
  have ns: "?names \<noteq> []" "[] \<notin> set ?names" "length ?names \<le> fan" "?out \<noteq> []" "?out \<notin> set ?names" "length ?out + 9 \<le> size_max"
    using k0 gi(4) on run_name_nonempty by (auto simp: run_name_inject int32_max_def size_max_def dest: sym)
  have qs: "28 * length (concat ?grp) \<le> q" "q + 28 \<le> int64_max" using q room(3) by (simp_all add: L_def)
  from merge_runs_calm [OF _ stored gg ns(1,2) fan ns(3,4,5) free ns(6) qs, unfolded kn] g(2) obtain vals w5 where
    mr: "milena_external_merge_double_runs (Some (map Some ?names)) k (Some ?out) fan q (tick w3) = Some (MILENA_OK, w5)"
    "w_files w5 ?out = Some (spill_image (map encode_double vals))" "calm w5" "mset vals = mset (concat ?grp)" by auto
  have lv: "length (spill_image (map encode_double vals)) = L" using values_size [OF mr(4)] by (simp add: L_def)
  moreover have "L \<le> int64_max" using q room(3) by simp
  ultimately obtain w6 where d: "disk_size ?out w5 = (Some L, w6)" "calm w6"
    using disk_size_calm [OF mr(3,2)] by auto
  have f6: "w_files w6 ?out = Some (spill_image (map encode_double vals))" using disk_size_files [OF d(1)] mr(2) by simp
  have big: "\<not> q < least_quota" using q by (simp add: least_quota_def spill_header_size_def double_size_def spill_trailer_size_def)
  have add: "milena_size_add (pa_next st) L = Some (pa_next st + L)" using room(4) by (simp add: milena_size_add_def)
  let ?st' = "st\<lparr>pa_world := w6, pa_created := pa_created st + 1, pa_scratch := pa_scratch st + L, pa_next := pa_next st + L\<rparr>"
  have "merge_group pre a (length rss) fan fq tq g st = Some (MILENA_OK, ?st')"
    unfolding merge_group_def Let_def k_def [symmetric] q_def [symmetric]
    using calm g(1) o' big mr(1) d(1) add room(2) by (simp add: calm_calls)
  then show ?thesis using d(2) f6 lv by (intro exI [of _ ?st']) simp
qed

end
