(* ===== verification/SortPasses.thy ===== *)
theory SortPasses
  imports SortSteps
begin

text \<open>All groups of a pass, and all passes, of the external sort.\<close>

lemma take_group: "take ((g + 1) * fan) rss = take (g * fan) rss @ group_runs fan g rss"
  by (simp add: group_runs_def take_add [symmetric] add.commute)

lemma drop_group: "drop (g * fan) rss = group_runs fan g rss @ drop ((g + 1) * fan) rss"
  by (simp add: group_runs_def) (metis append_take_drop_id drop_drop)

lemma next_count_starts:
  assumes "0 < fan" and "g < next_count n fan"
  shows "g * fan < n"
proof (cases "n mod fan = 0")
  case True
  then have "(g + 1) * fan \<le> n div fan * fan" using assms(2) by (intro mult_le_mono1) (simp add: next_count_def)
  moreover have "(g + 1) * fan = g * fan + fan" by simp
  ultimately show ?thesis using assms(1) div_times_less_eq_dividend [of n fan] by linarith
next
  case False
  then have "g * fan \<le> n div fan * fan" using assms(2) by (intro mult_le_mono1) (simp add: next_count_def)
  then show ?thesis using False div_mult_mod_eq [of n fan] by linarith
qed

lemma next_count_covers:
  assumes "0 < fan"
  shows "n \<le> next_count n fan * fan"
proof (cases "n mod fan = 0")
  case True
  then have "next_count n fan * fan = n div fan * fan" by (simp add: next_count_def)
  then show ?thesis using True div_mult_mod_eq [of n fan] by linarith
next
  case False
  then have "next_count n fan * fan = n div fan * fan + fan" by (simp add: next_count_def)
  then show ?thesis using mod_less_divisor [OF assms, of n] div_mult_mod_eq [of n fan] by linarith
qed

lemma next_count_less: "2 \<le> fan \<Longrightarrow> fan < n \<Longrightarrow> next_count n fan < n"
proof -
  assume f: "2 \<le> fan" and n: "fan < n"
  have "n div fan \<le> n div 2" using f by (simp add: div_le_mono2)
  moreover have "next_count n fan \<le> n div fan + 1" by (simp add: next_count_def)
  moreover have "n div 2 + 1 < n" using f n by linarith
  ultimately show ?thesis by linarith
qed

definition sorted_runs :: "f64 list list \<Rightarrow> bool" where
  "sorted_runs rss \<longleftrightarrow> (\<forall>r \<in> set rss. sorted (map f_int r) \<and> list_all f_finite r)"

lemma merge_groups_sound:
  assumes "merge_groups pre a (length rss) fan fq tq [g..<G] st = Some (MILENA_OK, st')" and "g \<le> G" and "0 < fan"
    and "G \<le> next_count (length rss) fan"
    and "\<forall>i. g * fan \<le> i \<and> i < length rss \<longrightarrow> w_files (pa_world st) (run_name pre a i) = Some (spill_image (map encode_double (rss ! i)))"
    and "runs_stored pre (a + 1) outs (pa_world st)" and "length outs = g" and "sorted_runs outs"
    and "mset (concat outs) \<subseteq># mset (concat (take (g * fan) rss))"
  shows "\<exists>outs'. runs_stored pre (a + 1) outs' (pa_world st') \<and> length outs' = G \<and> sorted_runs outs' \<and>
    mset (concat outs') \<subseteq># mset (concat (take (G * fan) rss)) \<and> others_same pre (pa_world st) (pa_world st')"
  using assms
proof (induction "G - g" arbitrary: g st outs)
  case 0
  then show ?case by (intro exI [of _ outs]) (simp add: others_same_refl)
next
  case (Suc k)
  then have lt: "g < G" by simp
  then have up: "[g..<G] = g # [g + 1..<G]" by (simp add: upt_conv_Cons)
  obtain st1 where m: "merge_group pre a (length rss) fan fq tq g st = Some (MILENA_OK, st1)"
    and rec: "merge_groups pre a (length rss) fan fq tq [g + 1..<G] st1 = Some (MILENA_OK, st')"
    using Suc.prems(1) unfolding up by (auto split: option.splits if_splits)
  have start: "g * fan < length rss" using next_count_starts [OF Suc.prems(3)] lt Suc.prems(4) by simp
  from merge_group_sound [OF m start Suc.prems(5,6,7)] obtain out where
    o': "runs_stored pre (a + 1) (outs @ [out]) (pa_world st1)" "mset out \<subseteq># mset (concat (group_runs fan g rss))"
      "sorted (map f_int out)" "list_all f_finite out" "others_same pre (pa_world st) (pa_world st1)"
      "\<forall>i. (g + 1) * fan \<le> i \<and> i < length rss \<longrightarrow> w_files (pa_world st1) (run_name pre a i) = Some (spill_image (map encode_double (rss ! i)))"
    by blast
  have sub: "mset (concat (outs @ [out])) \<subseteq># mset (concat (take ((g + 1) * fan) rss))"
    using subset_mset.add_mono [OF Suc.prems(9) o'(2)] unfolding take_group by simp
  have good: "sorted_runs (outs @ [out])" using Suc.prems(8) o'(3,4) by (auto simp: sorted_runs_def)
  have "k = G - (g + 1)" "g + 1 \<le> G" "length (outs @ [out]) = g + 1" using Suc.hyps(2) lt Suc.prems(7) by simp_all
  from Suc.hyps(1) [OF this(1) rec this(2) Suc.prems(3,4) o'(6,1) this(3) good sub]
  show ?case using others_same_trans [OF o'(5)] by blast
qed

lemma remove_runs_others: "others_same pre w (remove_runs pre a is w)"
  unfolding others_same_def sort_file_def by (metis remove_runs_files)

lemma remove_runs_stored: "runs_stored pre (a + 1) rss w \<Longrightarrow> runs_stored pre (a + 1) rss (remove_runs pre a is w)"
proof -
  assume r: "runs_stored pre (a + 1) rss w"
  have "w_files (remove_runs pre a is w) (run_name pre p i) = w_files w (run_name pre p i)" if "a < p" for p i
    by (rule remove_runs_files) (use that in \<open>simp add: run_name_inject\<close>)
  moreover have "w_files (remove_runs pre a is w) (partial_name (run_name pre p i)) = w_files w (partial_name (run_name pre p i))" for p i
    by (rule remove_runs_files) (simp add: partial_not_run)
  ultimately show ?thesis using r unfolding runs_stored_def by auto
qed

lemma merge_passes_sound:
  assumes "merge_passes pre fan fq tq a (length rss) s w = Some (MILENA_OK, a', n', s', w')" and "2 \<le> fan"
    and "runs_stored pre a rss w" and "sorted_runs rss"
  shows "\<exists>rss'. runs_stored pre a' rss' w' \<and> length rss' = n' \<and> sorted_runs rss' \<and> mset (concat rss') \<subseteq># mset (concat rss) \<and> others_same pre w w'"
  using assms
proof (induction "length rss" arbitrary: rss a s w rule: less_induct)
  case less
  let ?n = "length rss" and ?N = "next_count (length rss) fan"
  show ?case
  proof (cases "?n \<le> fan")
    case True
    then have "a' = a" "n' = ?n" "w' = w" using less.prems(1) by (simp_all add: merge_passes.simps)
    then show ?thesis using less.prems(3,4) by (intro exI [of _ rss]) (simp add: others_same_refl)
  next
    case False
    then have more: "\<not> ?n \<le> fan" .
    let ?st = "\<lparr>pa_world = w, pa_scratch = s, pa_next = 0, pa_created = 0\<rparr>"
    obtain st where g: "merge_groups pre a ?n fan fq tq [0..<?N] ?st = Some (MILENA_OK, st)"
      and rec: "merge_passes pre fan fq tq (a + 1) ?N (pa_next st) (remove_runs pre a [0..<?n] (pa_world st)) = Some (MILENA_OK, a', n', s', w')"
      using less.prems(1) more by (subst (asm) merge_passes.simps) (auto split: option.splits if_splits)
    have free: "runs_stored pre (a + 1) [] (pa_world ?st)" using less.prems(3) by (auto simp: runs_stored_def)
    have ins: "\<forall>i. 0 * fan \<le> i \<and> i < ?n \<longrightarrow> w_files (pa_world ?st) (run_name pre a i) = Some (spill_image (map encode_double (rss ! i)))"
      using less.prems(3) by (simp add: runs_stored_def)
    from merge_groups_sound [OF g _ _ _ ins free] less.prems(2) obtain outs where
      o': "runs_stored pre (a + 1) outs (pa_world st)" "length outs = ?N" "sorted_runs outs"
        "mset (concat outs) \<subseteq># mset (concat (take (?N * fan) rss))" "others_same pre w (pa_world st)"
      by (auto simp: sorted_runs_def)
    have all: "take (?N * fan) rss = rss" using next_count_covers [of fan ?n] less.prems(2) by simp
    have lt: "length outs < ?n" using next_count_less less.prems(2) more o'(2) by simp
    have rec': "merge_passes pre fan fq tq (a + 1) (length outs) (pa_next st) (remove_runs pre a [0..<?n] (pa_world st)) = Some (MILENA_OK, a', n', s', w')"
      using rec o'(2) by simp
    from less.hyps [OF lt rec' less.prems(2) remove_runs_stored [OF o'(1)] o'(3)] obtain rss' where
      r: "runs_stored pre a' rss' w'" "length rss' = n'" "sorted_runs rss'" "mset (concat rss') \<subseteq># mset (concat outs)"
      "others_same pre (remove_runs pre a [0..<?n] (pa_world st)) w'" by blast
    have "others_same pre w w'" by (rule others_same_trans [OF others_same_trans [OF o'(5) remove_runs_others] r(5)])
    moreover have "mset (concat rss') \<subseteq># mset (concat rss)" using subset_mset.order_trans [OF r(4) o'(4)] all by simp
    ultimately show ?thesis using r by blast
  qed
qed

section \<open>When nothing fails\<close>

lemma names_fit:
  assumes "length pre + 59 \<le> int32_max" and "a + length rss \<le> int64_max"
  shows "\<forall>p i. p \<le> a + 1 \<longrightarrow> i \<le> length rss \<longrightarrow> length (run_name pre p i) + 9 \<le> int32_max"
proof (intro allI impI)
  fix p i assume "p \<le> a + 1" "i \<le> length rss"
  then have "p < 10 ^ Suc 19" "i < 10 ^ Suc 19" using assms(2) by (simp_all add: int64_max_def)
  from length_run_name [OF this, of pre] show "length (run_name pre p i) + 9 \<le> int32_max" using assms(1) by simp
qed

lemma mset_of_size: "A \<subseteq># B \<Longrightarrow> size A = size B \<Longrightarrow> A = B"
  using mset_subset_size subset_mset.le_less by fastforce

lemma stored_length:
  assumes "runs_stored pre a rss w" and "i < length rss" and "w_files w (run_name pre a i) = Some c"
  shows "length c = 28 * length (rss ! i)"
  using assms by (auto simp: runs_stored_def length_double_image)

lemma merge_groups_calm:
  assumes "calm (pa_world st)" and "g \<le> G" and "G = next_count (length rss) fan" and "2 \<le> fan" and "good_runs rss"
    and "\<forall>i. g * fan \<le> i \<and> i < length rss \<longrightarrow> w_files (pa_world st) (run_name pre a i) = Some (spill_image (map encode_double (rss ! i)))"
    and "runs_stored pre (a + 1) outs (pa_world st)" and "length outs = g" and "good_runs outs"
    and "length pre + 59 \<le> int32_max" and "a + length rss \<le> int64_max" and "28 * length (concat rss) \<le> fq" and "fq + 28 \<le> int64_max"
    and "pa_scratch st + 28 * length (concat (drop (g * fan) rss)) \<le> tq" and "pa_next st + 28 * length (concat (drop (g * fan) rss)) \<le> size_max"
  shows "\<exists>st' outs'. merge_groups pre a (length rss) fan fq tq [g..<G] st = Some (MILENA_OK, st') \<and> calm (pa_world st') \<and>
    pa_next st' = pa_next st + 28 * length (concat (drop (g * fan) rss)) \<and> runs_stored pre (a + 1) outs' (pa_world st') \<and> length outs' = G \<and>
    good_runs outs' \<and> mset (concat outs') = mset (concat outs) + mset (concat (drop (g * fan) rss)) \<and>
    (\<forall>p i. p \<le> a \<longrightarrow> w_files (pa_world st) (run_name pre p i) = None \<longrightarrow> w_files (pa_world st') (run_name pre p i) = None)"
  using assms
proof (induction "G - g" arbitrary: g st outs)
  case 0
  then have "drop (g * fan) rss = []" using next_count_covers [of fan "length rss"] by simp
  then show ?case using 0 by (intro exI [of _ st] exI [of _ outs]) simp
next
  case (Suc k)
  let ?grp = "group_runs fan g rss"
  have lt: "g < G" using Suc.hyps(2) by simp
  then have up: "[g..<G] = g # [g + 1..<G]" by (simp add: upt_conv_Cons)
  have start: "g * fan < length rss" using next_count_starts [of fan g "length rss"] Suc.prems(3,4) lt by simp
  have split: "length (concat (drop (g * fan) rss)) = length (concat ?grp) + length (concat (drop ((g + 1) * fan) rss))"
    using arg_cong [OF drop_group [of g fan rss], of "\<lambda>x. length (concat x)"] by simp
  have L: "28 * length (concat ?grp) \<le> fq" "pa_scratch st + 28 * length (concat ?grp) \<le> tq" "pa_next st + 28 * length (concat ?grp) \<le> size_max"
    using group_size_le [of fan g rss] Suc.prems(12,14,15) split by linarith+
  from merge_group_calm [OF Suc.prems(1) start Suc.prems(4,5,6,7,8) names_fit [OF Suc.prems(10,11)] L(1,2) Suc.prems(13) L(3)]
  obtain st1 c where m: "merge_group pre a (length rss) fan fq tq g st = Some (MILENA_OK, st1)" "calm (pa_world st1)"
    "pa_scratch st1 = pa_scratch st + 28 * length (concat ?grp)" "pa_next st1 = pa_next st + 28 * length (concat ?grp)"
    "w_files (pa_world st1) (run_name pre (a + 1) g) = Some c" "length c = 28 * length (concat ?grp)" by blast
  from merge_group_sound [OF m(1) start Suc.prems(6,7,8)] obtain out where
    o': "runs_stored pre (a + 1) (outs @ [out]) (pa_world st1)" "mset out \<subseteq># mset (concat ?grp)"
      "sorted (map f_int out)" "list_all f_finite out"
      "\<forall>i. (g + 1) * fan \<le> i \<and> i < length rss \<longrightarrow> w_files (pa_world st1) (run_name pre a i) = Some (spill_image (map encode_double (rss ! i)))"
      "\<forall>p i. p \<le> a \<longrightarrow> w_files (pa_world st) (run_name pre p i) = None \<longrightarrow> w_files (pa_world st1) (run_name pre p i) = None"
    by blast
  have lo: "length out = length (concat ?grp)"
    using stored_length [OF o'(1) _ m(5)] m(6) Suc.prems(8) by (simp add: nth_append)
  then have eq: "mset out = mset (concat ?grp)" by (intro mset_of_size [OF o'(2)]) simp
  have "?grp \<noteq> []" using start Suc.prems(4) by (simp add: group_runs_def)
  then have "0 < length ?grp" by simp
  then have "out \<noteq> []" using lo good_length [OF good_group [OF Suc.prems(5)], of fan g] by (metis le_zero_eq list.size(3) not_gr_zero)
  then have good: "good_runs (outs @ [out])" using Suc.prems(9) o'(3,4) by (auto simp: good_runs_def)
  have step: "k = G - (g + 1)" "g + 1 \<le> G" "length (outs @ [out]) = g + 1" using Suc.hyps(2) lt Suc.prems(8) by simp_all
  have room: "pa_scratch st1 + 28 * length (concat (drop ((g + 1) * fan) rss)) \<le> tq"
    "pa_next st1 + 28 * length (concat (drop ((g + 1) * fan) rss)) \<le> size_max"
    using Suc.prems(14,15) m(3,4) split by linarith+
  from Suc.hyps(1) [OF step(1) m(2) step(2) Suc.prems(3,4,5) o'(5,1) step(3) good Suc.prems(10,11,12,13) room] obtain st' outs' where
    r: "merge_groups pre a (length rss) fan fq tq [g + 1..<G] st1 = Some (MILENA_OK, st')" "calm (pa_world st')"
    "pa_next st' = pa_next st1 + 28 * length (concat (drop ((g + 1) * fan) rss))" "runs_stored pre (a + 1) outs' (pa_world st')" "length outs' = G"
    "good_runs outs'" "mset (concat outs') = mset (concat (outs @ [out])) + mset (concat (drop ((g + 1) * fan) rss))"
    "\<forall>p i. p \<le> a \<longrightarrow> w_files (pa_world st1) (run_name pre p i) = None \<longrightarrow> w_files (pa_world st') (run_name pre p i) = None"
    by blast
  have "merge_groups pre a (length rss) fan fq tq [g..<G] st = Some (MILENA_OK, st')" unfolding up using m(1) r(1) by simp
  moreover have "pa_next st' = pa_next st + 28 * length (concat (drop (g * fan) rss))" using r(3) m(4) split by simp
  moreover have "mset (concat outs') = mset (concat outs) + mset (concat (drop (g * fan) rss))"
    using r(7) eq arg_cong [OF drop_group [of g fan rss], of "\<lambda>x. mset (concat x)"] by (simp add: add.assoc)
  ultimately show ?case using r(2,4,5,6,8) o'(6) by blast
qed

definition passes_done :: "string \<Rightarrow> nat \<Rightarrow> world \<Rightarrow> bool" where
  "passes_done pre a w \<longleftrightarrow> (\<forall>p i. p < a \<longrightarrow> w_files w (run_name pre p i) = None)"

lemma merge_passes_calm:
  assumes "calm w" and "2 \<le> fan" and "runs_stored pre a rss w" and "good_runs rss" and "passes_done pre a w"
    and "length pre + 59 \<le> int32_max" and "a + length rss \<le> int64_max"
    and "28 * length (concat rss) \<le> fq" and "fq + 28 \<le> int64_max" and "56 * length (concat rss) \<le> tq"
  shows "\<exists>a' rss' w'. merge_passes pre fan fq tq a (length rss) (28 * length (concat rss)) w =
      Some (MILENA_OK, a', length rss', 28 * length (concat rss), w') \<and> calm w' \<and> runs_stored pre a' rss' w' \<and> good_runs rss' \<and>
    length rss' \<le> fan \<and> mset (concat rss') = mset (concat rss) \<and> passes_done pre a' w' \<and> a' + length rss' \<le> int64_max \<and> (rss \<noteq> [] \<longrightarrow> rss' \<noteq> [])"
  using assms
proof (induction "length rss" arbitrary: rss a w rule: less_induct)
  case less
  let ?n = "length rss" and ?N = "next_count (length rss) fan" and ?s = "28 * length (concat rss)"
  show ?case
  proof (cases "?n \<le> fan")
    case True
    then show ?thesis using less.prems by (intro exI [of _ a] exI [of _ rss] exI [of _ w]) (simp add: merge_passes.simps)
  next
    case False
    let ?st = "\<lparr>pa_world = w, pa_scratch = ?s, pa_next = 0, pa_created = 0\<rparr>"
    have free: "runs_stored pre (a + 1) [] (pa_world ?st)" using less.prems(3) by (auto simp: runs_stored_def)
    have ins: "\<forall>i. 0 * fan \<le> i \<and> i < ?n \<longrightarrow> w_files (pa_world ?st) (run_name pre a i) = Some (spill_image (map encode_double (rss ! i)))"
      using less.prems(3) by (simp add: runs_stored_def)
    have "calm (pa_world ?st)" "good_runs []" "length ([] :: f64 list list) = 0" using less.prems(1) by (simp_all add: good_runs_def)
    note start = this
    have rooms: "pa_scratch ?st + 28 * length (concat (drop (0 * fan) rss)) \<le> tq" "pa_next ?st + 28 * length (concat (drop (0 * fan) rss)) \<le> size_max"
      using less.prems(8,9,10) by (simp_all add: size_max_def int64_max_def)
    from merge_groups_calm [OF start(1) _ refl less.prems(2,4) ins free start(3,2) less.prems(6,7,8,9) rooms]
    obtain st outs where g: "merge_groups pre a ?n fan fq tq [0..<?N] ?st = Some (MILENA_OK, st)" "calm (pa_world st)" "pa_next st = ?s"
      "runs_stored pre (a + 1) outs (pa_world st)" "length outs = ?N" "good_runs outs" "mset (concat outs) = mset (concat rss)"
      "\<forall>p i. p \<le> a \<longrightarrow> w_files w (run_name pre p i) = None \<longrightarrow> w_files (pa_world st) (run_name pre p i) = None"
      by auto
    have lt: "length outs < ?n" using next_count_less less.prems(2) False g(5) by simp
    have lc: "length (concat outs) = length (concat rss)" using arg_cong [OF g(7), of size] by simp
    let ?w = "remove_runs pre a [0..<?n] (pa_world st)"
    have short: "\<forall>i \<in> set [0..<?n]. length (run_name pre a i) \<le> int32_max"
    proof
      fix i assume "i \<in> set [0..<?n]"
      then have "length (run_name pre a i) + 9 \<le> int32_max" using names_fit [OF less.prems(6,7)] by simp
      then show "length (run_name pre a i) \<le> int32_max" by simp
    qed
    note rm = remove_runs_calm [OF g(2) short]
    have "w_files ?w (run_name pre p i) = None" if p: "p < a + 1" for p i
    proof (cases "p = a \<and> i < ?n")
      case True
      then show ?thesis using rm by simp
    next
      case False
      then have "w_files w (run_name pre p i) = None" using p less.prems(3,5) by (cases "p = a") (auto simp: runs_stored_def passes_done_def)
      then have "w_files (pa_world st) (run_name pre p i) = None" using g(8) p by simp
      then show ?thesis using remove_runs_files [of "[0..<?n]" "run_name pre p i" pre a "pa_world st"] by simp
    qed
    then have done': "passes_done pre (a + 1) ?w" by (simp add: passes_done_def)
    have more: "a + 1 + length outs \<le> int64_max" "28 * length (concat outs) \<le> fq" "56 * length (concat outs) \<le> tq"
      using lt less.prems(7,8,10) lc by linarith+
    from less.hyps [OF lt conjunct1 [OF rm] less.prems(2) remove_runs_stored [OF g(4)] g(6) done' less.prems(6) more(1,2) less.prems(9) more(3)]
    obtain a' rss' w' where r: "merge_passes pre fan fq tq (a + 1) (length outs) (28 * length (concat outs)) ?w =
        Some (MILENA_OK, a', length rss', 28 * length (concat outs), w')" "calm w'" "runs_stored pre a' rss' w'" "good_runs rss'"
      "length rss' \<le> fan" "mset (concat rss') = mset (concat outs)" "passes_done pre a' w'" "a' + length rss' \<le> int64_max" "outs \<noteq> [] \<longrightarrow> rss' \<noteq> []"
      by blast
    have "a \<noteq> size_max" using less.prems(7) by (simp add: size_max_def int64_max_def)
    then have "merge_passes pre fan fq tq a ?n ?s w = Some (MILENA_OK, a', length rss', ?s, w')"
      using False g(1,3,5) r(1) lc by (subst merge_passes.simps) simp
    moreover have "outs \<noteq> []" using next_count_covers [of fan ?n] less.prems(2) g(5) False by auto
    ultimately show ?thesis using r(2-9) g(7) by (intro exI [of _ a'] exI [of _ rss'] exI [of _ w']) simp
  qed
qed

end
