(* ===== verification/SortRuns.thy ===== *)
theory SortRuns
  imports SortPasses
begin

text \<open>
  The first runs of the external sort, made of what the source delivers; the sort of nothing; the last
  merge.
\<close>

section \<open>The source and the library's sort\<close>

fun source_yields :: "'c double_source \<Rightarrow> 'c \<Rightarrow> f64 list \<Rightarrow> 'c \<Rightarrow> bool" where
  "source_yields source c [] c' \<longleftrightarrow> c = c'"
| "source_yields source c (v # vs) c' \<longleftrightarrow>
     (case source c of (status, r, c1) \<Rightarrow> status = MILENA_OK \<and> r = Some v \<and> f_finite v \<and> source_yields source c1 vs c')"

text \<open>The source delivers these values, all finite, and then its end.\<close>

definition source_gives :: "'c double_source \<Rightarrow> 'c \<Rightarrow> f64 list \<Rightarrow> bool" where
  "source_gives source c vs \<longleftrightarrow> (\<exists>c' c''. source_yields source c vs c' \<and> source c' = (MILENA_OK, None, c''))"

text \<open>\<open>qsort\<close> of the C library leaves a permutation in the order of its comparison function.\<close>

definition qsort_sorts :: "(f64 list \<Rightarrow> f64 list) \<Rightarrow> bool" where
  "qsort_sorts qs \<longleftrightarrow>
     (\<forall>vs. mset (qs vs) = mset vs \<and> (list_all f_finite vs \<longrightarrow> sorted_wrt (\<lambda>a b. compare_double a b \<le> 0) (qs vs)))"

lemma yields_append: "source_yields source c (xs @ ys) c' \<longleftrightarrow> (\<exists>m. source_yields source c xs m \<and> source_yields source m ys c')"
  by (induction xs arbitrary: c) (auto split: prod.splits)

lemma yields_finite: "source_yields source c vs c' \<Longrightarrow> list_all f_finite vs"
  by (induction vs arbitrary: c) (auto split: prod.splits)

lemma qsort_run:
  assumes "qsort_sorts qs" and "list_all f_finite vs"
  shows "mset (qs vs) = mset vs" and "sorted (map f_int (qs vs))" and "list_all f_finite (qs vs)" and "length (qs vs) = length vs"
proof -
  show m: "mset (qs vs) = mset vs" using assms(1) by (simp add: qsort_sorts_def)
  then have "set (qs vs) = set vs" by (rule mset_eq_setD)
  then show fin: "list_all f_finite (qs vs)" using assms(2) by (simp add: list_all_iff)
  show "length (qs vs) = length vs" using m by (rule mset_eq_length)
  have "sorted_wrt (\<lambda>a b. compare_double a b \<le> 0) (qs vs)" using assms by (simp add: qsort_sorts_def)
  then have "sorted_wrt (\<lambda>a b. f_int a \<le> f_int b) (qs vs)"
    by (rule sorted_wrt_mono_rel [rotated])
      (use fin in \<open>auto simp: list_all_iff compare_double_def f_lt_finite split: if_splits\<close>)
  then show "sorted (map f_int (qs vs))" by (simp add: sorted_map)
qed

lemma fill_run_sound:
  "fill_run room source vs c = (MILENA_OK, vs', eof, c') \<Longrightarrow>
     \<exists>new m. vs' = vs @ new \<and> source_yields source c new m \<and> (if eof then source m = (MILENA_OK, None, c') else m = c')"
proof (induction room arbitrary: vs c)
  case (Suc room)
  obtain status v c1 where src: "source c = (status, v, c1)" by (metis prod_cases3)
  then have ok: "status = MILENA_OK" using Suc.prems by (auto split: if_splits)
  show ?case
  proof (cases v)
    case None
    then show ?thesis using Suc.prems src ok by (intro exI [of _ "[]"] exI [of _ c]) auto
  next
    case (Some x)
    then have "f_finite x" and rec: "fill_run room source (vs @ [x]) c1 = (MILENA_OK, vs', eof, c')"
      using Suc.prems src ok by (auto split: if_splits)
    then show ?thesis using Suc.IH [OF rec] src ok Some by (elim exE) (rule exI [where x = "x # _"], auto)
  qed
qed simp

lemma fill_run_calm:
  assumes "source_yields source c vs m" and "source m = (MILENA_OK, None, m')"
  shows "length vs < room \<Longrightarrow> fill_run room source us c = (MILENA_OK, us @ vs, True, m')"
    and "room \<le> length vs \<Longrightarrow> \<exists>c'. fill_run room source us c = (MILENA_OK, us @ take room vs, False, c') \<and> source_yields source c' (drop room vs) m"
  using assms
proof (induction room arbitrary: us c vs)
  case (Suc room)
  {
    case 1
    then show ?case using Suc.IH(1) by (cases vs) (auto split: prod.splits)
  next
    case 2
    then obtain v rest where vs: "vs = v # rest" by (cases vs) auto
    then obtain c1 where "source c = (MILENA_OK, Some v, c1)" "f_finite v" "source_yields source c1 rest m"
      using 2 by (auto split: prod.splits)
    then show ?case using Suc.IH(2) [of rest c1 "us @ [v]"] 2 vs by simp
  }
qed simp_all

section \<open>Adding a run\<close>

lemma runs_stored_add:
  assumes "runs_stored pre a rss w" and "w_files w' = (w_files w)(run_name pre a (length rss) := Some (spill_image (map encode_double r)))"
  shows "runs_stored pre a (rss @ [r]) w'"
  using assms partial_not_run unfolding runs_stored_def by (auto simp: nth_append less_Suc_eq run_name_inject)

lemma others_same_add: "w_files w' = (w_files w)(run_name pre a i := x) \<Longrightarrow> others_same pre w w'"
  by (auto simp: others_same_def sort_file_def)

lemma write_run_fails: "write_run path vs quota w \<noteq> (Inl MILENA_OK, w')"
  by (auto simp: write_run_def Let_def split: prod.splits option.splits if_splits)

definition sort_inv :: "'c double_source \<Rightarrow> string \<Rightarrow> 'c \<Rightarrow> world \<Rightarrow> 'c sort_state \<Rightarrow> bool" where
  "sort_inv source pre c w st \<longleftrightarrow>
     (\<exists>rss vs m. runs_stored pre 0 rss (so_world st) \<and> length rss = so_runs st \<and> sorted_runs rss \<and> mset (concat rss) = mset vs \<and>
        source_yields source c vs m \<and> (if so_eof st then \<exists>m'. source m = (MILENA_OK, None, m') else m = so_context st) \<and>
        others_same pre w (so_world st))"

lemma sort_run_step_sound:
  assumes step: "sort_run_step qs source pre cap fq tq st = (MILENA_OK, st')" and inv: "sort_inv source pre c w st"
    and going: "\<not> so_eof st" and qs: "qsort_sorts qs"
  shows "sort_inv source pre c w st'"
proof -
  obtain status vs eof c1 where f: "fill_run cap source [] (so_context st) = (status, vs, eof, c1)" by (metis prod_cases4)
  have ok: "status = MILENA_OK" using step f by (auto simp: sort_run_step_def Let_def split: if_splits)
  from fill_run_sound [OF f [unfolded ok]] obtain m where
    m: "source_yields source (so_context st) vs m" "if eof then source m = (MILENA_OK, None, c1) else m = c1" by auto
  from inv going obtain rss us where
    i: "runs_stored pre 0 rss (so_world st)" "length rss = so_runs st" "sorted_runs rss" "mset (concat rss) = mset us"
      "source_yields source c us (so_context st)" "others_same pre w (so_world st)"
    by (auto simp: sort_inv_def)
  have y: "source_yields source c (us @ vs) m" unfolding yields_append using i(5) m(1) by blast
  show ?thesis
  proof (cases "vs = []")
    case True
    then have "st' = st\<lparr>so_context := c1, so_eof := eof\<rparr>" using step f ok by (simp add: sort_run_step_def Let_def)
    then show ?thesis unfolding sort_inv_def
      by (intro exI [of _ rss] exI [of _ us] exI [of _ m]) (use i y True m(2) in \<open>auto split: if_splits\<close>)
  next
    case False
    let ?name = "run_name pre 0 (so_runs st)"
    obtain p w1 where p: "run_path pre 0 (so_runs st) (so_world st) = (p, w1)" by fastforce
    note f1 = run_path_files [OF p]
    define q where "q = bounded_quota fq (tq - so_scratch st)"
    obtain r w2 where wr: "write_run ?name (qs vs) q w1 = (r, w2)" by fastforce
    have p': "p = Some ?name" using step f ok False p f1 by (auto simp: sort_run_step_def Let_def split: option.splits)
    have ex: "\<exists>n. r = Inr n \<and> st' = st\<lparr>so_context := c1, so_eof := eof, so_world := w2, so_scratch := so_scratch st + n, so_runs := so_runs st + 1\<rparr>"
      using step False wr p p' f ok write_run_fails [of ?name "qs vs" q w1 w2]
      by (auto simp: sort_run_step_def Let_def q_def split: if_splits sum.splits)
    then obtain n where n: "r = Inr n"
      "st' = st\<lparr>so_context := c1, so_eof := eof, so_world := w2, so_scratch := so_scratch st + n, so_runs := so_runs st + 1\<rparr>" by blast
    have "w_files w1 ?name = None" using i(1,2) f1 by (simp add: runs_stored_def)
    from write_run_sound [OF wr [unfolded n(1)] this] f1
    have fw: "w_files w2 = (w_files (so_world st))(run_name pre 0 (length rss) := Some (spill_image (map encode_double (qs vs))))"
      using i(2) by simp
    note q = qsort_run [OF qs yields_finite [OF m(1)]]
    have "sorted_runs (rss @ [qs vs])" using i(3) q(2,3) by (auto simp: sorted_runs_def)
    moreover have "others_same pre w w2" using others_same_trans [OF i(6) others_same_add [OF fw]] .
    moreover have "mset (concat (rss @ [qs vs])) = mset (us @ vs)" using i(4) q(1) by simp
    ultimately show ?thesis unfolding sort_inv_def n(2)
      by (intro exI [of _ "rss @ [qs vs]"] exI [of _ "us @ vs"] exI [of _ m])
        (use runs_stored_add [OF i(1) fw] i(2) y m(2) in \<open>auto split: if_splits\<close>)
  qed
qed

lemma sort_runs_sound:
  assumes run: "sort_runs qs source pre cap fq tq c w = Some (MILENA_OK, st)" and free: "runs_stored pre 0 [] w" and qs: "qsort_sorts qs"
  shows "sort_inv source pre c w st" and "so_eof st"
proof -
  let ?st = "\<lparr>so_context = c, so_world = w, so_eof = False, so_runs = 0, so_scratch = 0\<rparr>"
  let ?P = "\<lambda>(status, st). status = MILENA_OK \<longrightarrow> sort_inv source pre c w st"
  have start: "?P (MILENA_OK, ?st)"
    using free by (auto simp: sort_inv_def sorted_runs_def others_same_refl intro!: exI [of _ "[]"])
  have "?P (MILENA_OK, st)"
    by (rule while_option_rule [where P = ?P, OF _ run [unfolded sort_runs_def] start]) (use sort_run_step_sound [OF _ _ _ qs] in \<open>auto\<close>)
  then show "sort_inv source pre c w st" by simp
  show "so_eof st" using while_option_stop [OF run [unfolded sort_runs_def]] by simp
qed

section \<open>Adding a run when nothing fails\<close>

lemma sort_run_step_calm:
  assumes fill: "fill_run cap source [] (so_context st) = (MILENA_OK, vs, eof, c1)" and vs: "vs \<noteq> []" "list_all f_finite vs"
    and calm: "calm (so_world st)" and runs: "runs_stored pre 0 rss (so_world st)" "length rss = so_runs st" "good_runs rss"
    and scratch: "so_scratch st = 28 * length (concat rss)" and qs: "qsort_sorts qs"
    and room: "28 * (length (concat rss) + length vs) \<le> fq" "56 * (length (concat rss) + length vs) \<le> tq" "fq + 28 \<le> int64_max"
    and pre: "length pre + 59 \<le> int32_max"
  shows "\<exists>w'. sort_run_step qs source pre cap fq tq st = (MILENA_OK, \<lparr>so_context = c1, so_world = w', so_eof = eof, so_runs = so_runs st + 1,
      so_scratch = 28 * length (concat (rss @ [qs vs]))\<rparr>) \<and> calm w' \<and> runs_stored pre 0 (rss @ [qs vs]) w' \<and> good_runs (rss @ [qs vs])"
proof -
  let ?name = "run_name pre 0 (so_runs st)"
  note q = qsort_run [OF qs vs(2)]
  have few: "so_runs st \<le> int64_max" using good_length [OF runs(3)] runs(2) room(1,3) by simp
  then have "so_runs st < 10 ^ Suc 19" by (simp add: int64_max_def)
  then have "length ?name \<le> int32_max" using length_run_name [of 0 "so_runs st" pre] pre by simp
  then have p: "run_path pre 0 (so_runs st) (so_world st) = (Some ?name, tick (so_world st))" using run_path_calm [OF calm] by simp
  define quota where "quota = bounded_quota fq (tq - so_scratch st)"
  have "1 \<le> length vs" using vs(1) by (cases vs) auto
  then have quota: "28 * length (qs vs) \<le> quota" "28 \<le> quota" "quota \<le> fq" "28 * length (qs vs) \<le> tq - so_scratch st"
    using room(1,2) q(4) scratch by (auto simp: quota_def bounded_quota_def)
  have none: "w_files (tick (so_world st)) ?name = None" using runs(1,2) calm by (simp add: runs_stored_def)
  have big: "20 \<le> quota" "quota \<le> int64_max" using quota room(3) by simp_all
  from write_run_calm [OF _ none run_name_nonempty big(1) quota(1) big(2)] calm obtain w2 where
    wr: "write_run ?name (qs vs) quota (tick (so_world st)) = (Inr (28 * length (qs vs)), w2)" "calm w2" by auto
  from write_run_sound [OF wr(1) none] calm runs(2)
  have fw: "w_files w2 = (w_files (so_world st))(run_name pre 0 (length rss) := Some (spill_image (map encode_double (qs vs))))" by simp
  have "\<not> quota < least_quota" using quota(2) by (simp add: least_quota_def spill_header_size_def double_size_def spill_trailer_size_def)
  moreover have "so_runs st \<noteq> size_max" using few by (simp add: int64_max_def size_max_def)
  ultimately have "sort_run_step qs source pre cap fq tq st =
      (MILENA_OK, st\<lparr>so_context := c1, so_eof := eof, so_world := w2, so_scratch := so_scratch st + 28 * length (qs vs), so_runs := so_runs st + 1\<rparr>)"
    using fill p vs(1) wr(1) quota(4) by (simp add: sort_run_step_def Let_def quota_def)
  then have step: "sort_run_step qs source pre cap fq tq st = (MILENA_OK, \<lparr>so_context = c1, so_world = w2, so_eof = eof, so_runs = so_runs st + 1,
      so_scratch = 28 * length (concat (rss @ [qs vs]))\<rparr>)"
    using scratch by (cases st) simp
  have "qs vs \<noteq> []" using q(4) vs(1) by (metis length_0_conv)
  then have "good_runs (rss @ [qs vs])" using runs(3) q(2,3) by (auto simp: good_runs_def)
  then show ?thesis using step wr(2) runs_stored_add [OF runs(1) fw] by blast
qed

lemma sort_loop_calm:
  assumes "calm (so_world st)" and "runs_stored pre 0 rss (so_world st)" and "length rss = so_runs st" and "good_runs rss"
    and "so_scratch st = 28 * length (concat rss)" and "\<not> so_eof st" and "source_yields source (so_context st) vs m"
    and "source m = (MILENA_OK, None, m')" and "qsort_sorts qs" and "0 < cap"
    and "28 * (length (concat rss) + length vs) \<le> fq" and "56 * (length (concat rss) + length vs) \<le> tq" and "fq + 28 \<le> int64_max"
    and "length pre + 59 \<le> int32_max"
  shows "\<exists>st' rss'. while_option (\<lambda>(status, st). status = MILENA_OK \<and> \<not> so_eof st) (\<lambda>(status, st). sort_run_step qs source pre cap fq tq st) (MILENA_OK, st) =
      Some (MILENA_OK, st') \<and> calm (so_world st') \<and> runs_stored pre 0 rss' (so_world st') \<and> length rss' = so_runs st' \<and> good_runs rss' \<and>
    so_scratch st' = 28 * length (concat rss') \<and> mset (concat rss') = mset (concat rss) + mset vs"
  using assms
proof (induction "length vs" arbitrary: vs st rss rule: less_induct)
  case less
  let ?loop = "while_option (\<lambda>(status, st). status = MILENA_OK \<and> \<not> so_eof st) (\<lambda>(status, st). sort_run_step qs source pre cap fq tq st)"
  have one: "?loop (MILENA_OK, st) = ?loop (sort_run_step qs source pre cap fq tq st)"
    using less.prems(6) by (subst while_option_unfold) simp
  have stop: "so_eof u \<Longrightarrow> ?loop (MILENA_OK, u) = Some (MILENA_OK, u)" for u
    by (subst while_option_unfold) simp
  have fin: "list_all f_finite vs" by (rule yields_finite [OF less.prems(7)])
  show ?case
  proof (cases "length vs < cap")
    case True
    have fill: "fill_run cap source [] (so_context st) = (MILENA_OK, vs, True, m')"
      using fill_run_calm(1) [OF less.prems(7,8) True, of "[]"] by simp
    show ?thesis
    proof (cases "vs = []")
      case True
      then have "sort_run_step qs source pre cap fq tq st = (MILENA_OK, st\<lparr>so_context := m', so_eof := True\<rparr>)"
        using fill by (simp add: sort_run_step_def Let_def)
      then show ?thesis unfolding one using stop less.prems True
        by (intro exI [of _ "st\<lparr>so_context := m', so_eof := True\<rparr>"] exI [of _ rss]) simp
    next
      case False
      from sort_run_step_calm [OF fill False fin less.prems(1-5,9,11-14)] obtain w' where
        s: "sort_run_step qs source pre cap fq tq st = (MILENA_OK, \<lparr>so_context = m', so_world = w', so_eof = True, so_runs = so_runs st + 1,
          so_scratch = 28 * length (concat (rss @ [qs vs]))\<rparr>)" "calm w'" "runs_stored pre 0 (rss @ [qs vs]) w'" "good_runs (rss @ [qs vs])" by blast
      show ?thesis unfolding one s(1)
        by (intro exI [of _ "\<lparr>so_context = m', so_world = w', so_eof = True, so_runs = so_runs st + 1, so_scratch = 28 * length (concat (rss @ [qs vs]))\<rparr>"]
            exI [of _ "rss @ [qs vs]"], subst stop) (use s less.prems(3) qsort_run(1) [OF less.prems(9) fin] in simp_all)
    qed
  next
    case False
    then obtain c1 where fill: "fill_run cap source [] (so_context st) = (MILENA_OK, take cap vs, False, c1)" and
      rest: "source_yields source c1 (drop cap vs) m"
      using fill_run_calm(2) [OF less.prems(7,8), of cap "[]"] by auto
    have vs: "take cap vs \<noteq> []" "list_all f_finite (take cap vs)" "length (take cap vs) = cap" "length (drop cap vs) < length vs"
      using False less.prems(10) fin by (auto simp: list_all_iff dest: in_set_takeD)
    have room: "28 * (length (concat rss) + length (take cap vs)) \<le> fq" "56 * (length (concat rss) + length (take cap vs)) \<le> tq"
      by (rule order_trans [OF _ less.prems(11)], simp) (rule order_trans [OF _ less.prems(12)], simp)
    let ?rss = "rss @ [qs (take cap vs)]"
    from sort_run_step_calm [OF fill vs(1,2) less.prems(1-5,9) room less.prems(13,14)] obtain w' where
      s: "sort_run_step qs source pre cap fq tq st = (MILENA_OK, \<lparr>so_context = c1, so_world = w', so_eof = False, so_runs = so_runs st + 1,
        so_scratch = 28 * length (concat ?rss)\<rparr>)" "calm w'" "runs_stored pre 0 ?rss w'" "good_runs ?rss" by blast
    let ?st = "\<lparr>so_context = c1, so_world = w', so_eof = False, so_runs = so_runs st + 1, so_scratch = 28 * length (concat ?rss)\<rparr>"
    note q = qsort_run [OF less.prems(9) vs(2)]
    have n: "length (concat ?rss) + length (drop cap vs) = length (concat rss) + length vs" using q(4) vs(3) False by simp
    have st: "calm (so_world ?st)" "runs_stored pre 0 ?rss (so_world ?st)" "length ?rss = so_runs ?st"
      "so_scratch ?st = 28 * length (concat ?rss)" "\<not> so_eof ?st" "source_yields source (so_context ?st) (drop cap vs) m"
      "28 * (length (concat ?rss) + length (drop cap vs)) \<le> fq" "56 * (length (concat ?rss) + length (drop cap vs)) \<le> tq"
      using s(2,3) less.prems(3,11,12) rest unfolding n by simp_all
    from less.hyps [OF vs(4) st(1,2,3) s(4) st(4,5,6) less.prems(8,9,10) st(7,8) less.prems(13,14)] obtain st' rss' where
      r: "?loop (MILENA_OK, ?st) = Some (MILENA_OK, st')" "calm (so_world st')" "runs_stored pre 0 rss' (so_world st')" "length rss' = so_runs st'"
        "good_runs rss'" "so_scratch st' = 28 * length (concat rss')" "mset (concat rss') = mset (concat ?rss) + mset (drop cap vs)" by blast
    have "mset (take cap vs) + mset (drop cap vs) = mset vs" by (metis append_take_drop_id mset_append)
    then have "mset (concat rss') = mset (concat rss) + mset vs" using r(7) q(1) by (simp add: add.assoc)
    then show ?thesis unfolding one s(1) using r(1-6) by blast
  qed
qed

end
