(* ===== verification/SortProps.thy ===== *)
theory SortProps
  imports SortRuns
begin

text \<open>The properties of the whole external sort.\<close>

section \<open>The last merge\<close>

lemma runs_stored_at:
  "runs_stored pre a rss w \<Longrightarrow> w_files w' = w_files w \<Longrightarrow> list_all2 (stored_at w') (map (run_name pre a) [0..<length rss]) rss"
  by (rule list_all2_all_nthI) (simp_all add: runs_stored_def stored_at_def)


lemma merge_final_calm:
  assumes calm: "calm w" and runs: "runs_stored pre a rss w" and good: "good_runs rss" and ne: "rss \<noteq> []"
    and fan: "2 \<le> fan" "length rss \<le> fan" and out: "\<not> sort_file pre out" "out \<noteq> []" "w_files w out = None" "w_files w (partial_name out) = None"
    "length out + 9 \<le> size_max" and pre: "length pre + 59 \<le> int32_max" "a + length rss \<le> int64_max"
    and room: "28 * length (concat rss) \<le> fq" "s + 28 * length (concat rss) \<le> tq" "fq + 28 \<le> int64_max" and clear: "passes_done pre a w"
  shows "\<exists>vals w'. merge_final pre fan fq tq a (length rss) s out w = Some (MILENA_OK, w') \<and>
    w_files w' out = Some (spill_image (map encode_double vals)) \<and> mset vals = mset (concat rss) \<and> sorted (map f_int vals) \<and>
    (\<forall>q. sort_file pre q \<longrightarrow> w_files w' q = None)"
proof -
  let ?names = "map (run_name pre a) [0..<length rss]"
  define q where "q = bounded_quota fq (tq - s)"
  have short: "\<forall>i \<in> set [0..<length rss]. length (run_name pre a i) \<le> int32_max"
  proof
    fix i assume "i \<in> set [0..<length rss]"
    then have "length (run_name pre a i) + 9 \<le> int32_max" using names_fit [OF pre] by simp
    then show "length (run_name pre a i) \<le> int32_max" by simp
  qed
  obtain w3 where g: "gather_paths pre a [0..<length rss] (tick (tick w)) = (Some ?names, w3)" "calm w3"
    using gather_calm [OF _ short, of "tick (tick w)"] calm by auto
  have f3: "w_files w3 = w_files w" using gather_files [OF g(1)] calm by simp
  have names: "?names \<noteq> []" "[] \<notin> set ?names" "length ?names \<le> fan" "out \<notin> set ?names"
    using ne fan out(1) run_name_nonempty by (auto simp: sort_file_def dest: sym)
  have free: "w_files w3 out = None" "w_files w3 (partial_name out) = None" using out f3 by simp_all
  have rooms: "28 * length (concat rss) \<le> q" "q + 28 \<le> int64_max" using room by (auto simp: q_def bounded_quota_def)
  from merge_runs_calm [OF g(2) runs_stored_at [OF runs f3] good names(1,2) fan(1) names(3) out(2) names(4) free out(5) rooms]
  obtain vals w4 where r: "milena_external_merge_double_runs (Some (map Some ?names)) (length ?names) (Some out) fan q w3 = Some (MILENA_OK, w4)"
    "w_files w4 out = Some (spill_image (map encode_double vals))" "calm w4" "mset vals = mset (concat rss)" "sorted (map f_int vals)" by blast
  let ?w' = "remove_runs pre a [0..<length rss] w4"
  have m: "merge_final pre fan fq tq a (length rss) s out w = Some (MILENA_OK, ?w')"
    unfolding merge_final_def using calm g(1) r(1) by (simp add: calm_calls q_def)
  have dist: "distinct ?names" by (simp add: distinct_map inj_on_def run_name_inject)
  from merge_runs_sound [OF r(1) dist runs_stored_at [OF runs f3] free(2)]
  have fr: "\<forall>x. x \<notin> set ?names \<longrightarrow> x \<noteq> out \<longrightarrow> x \<noteq> partial_name out \<longrightarrow> lasting x \<or> w_files w3 x \<noteq> None \<longrightarrow> w_files w4 x = w_files w3 x" by blast
  have part: "partial_name out \<noteq> run_name pre p i" "partial_name out \<noteq> partial_name (run_name pre p i)" for p i
    using partial_not_run out(1) by (auto simp: partial_inject sort_file_def)
  have gone: "w_files ?w' (run_name pre p i) = None" for p i
  proof (cases "p = a \<and> i < length rss")
    case True
    then show ?thesis using remove_runs_calm [OF r(3) short] by simp
  next
    case False
    then have "w_files w (run_name pre p i) = None" using runs clear
      by (cases "p < a"; cases "p = a") (auto simp: runs_stored_def passes_done_def)
    moreover have "run_name pre p i \<noteq> out" "run_name pre p i \<noteq> partial_name out" using out(1) part(1) [of p i] by (auto simp: sort_file_def)
    moreover have "run_name pre p i \<notin> set ?names" using False by (auto simp: run_name_inject)
    ultimately have "w_files w4 (run_name pre p i) = None" using fr f3 run_name_lasting [of pre p i] by metis
    then show ?thesis using remove_runs_files by metis
  qed
  have gone2: "w_files ?w' (partial_name (run_name pre p i)) = None" for p i
  proof -
    have "w_files w (partial_name (run_name pre p i)) = None" using runs by (simp add: runs_stored_def)
    moreover have "partial_name (run_name pre p i) \<notin> set ?names" "partial_name (run_name pre p i) \<noteq> out" "partial_name (run_name pre p i) \<noteq> partial_name out"
      using out(1) part(2) [of p i] partial_not_run by (auto simp: sort_file_def)
    ultimately have "w_files w4 (partial_name (run_name pre p i)) = None" using fr f3 partial_lasting by simp
    then show ?thesis using remove_runs_files by metis
  qed
  have "w_files ?w' out = w_files w4 out"
    by (rule remove_runs_files) (use out(1) in \<open>auto simp: sort_file_def\<close>)
  moreover have "\<forall>q. sort_file pre q \<longrightarrow> w_files ?w' q = None" using gone gone2 by (auto simp: sort_file_def)
  ultimately show ?thesis using m r(2,4,5) by (intro exI [of _ vals] exI [of _ ?w']) simp
qed

section \<open>The sort of nothing\<close>

lemma partial_not_self: "partial_name p \<noteq> p"
  by (simp add: partial_name_def)

lemma sort_empty_sound:
  assumes "sort_empty out fq w = (MILENA_OK, w')" and "w_files w (partial_name out) = None"
  shows "w_files w' = (w_files w)(out := Some [], partial_name out := None)"
proof -
  let ?tmp = "partial_name out"
  obtain ok w1 where 1: "call_ok w = (ok, w1)" by fastforce
  obtain found w2 where 2: "path_exists ?tmp w1 = (found, w2)" by fastforce
  obtain so store w3 where 3: "milena_spill_store_open (Some ?tmp) fq double_size spill_closed w2 = (so, store, w3)" by (metis prod_cases3)
  obtain sc store' w4 where 4: "milena_spill_store_close (Some store) w3 = (sc, store', w4)" by (metis prod_cases3)
  obtain ren w5 where 5: "rename ?tmp out w4 = (ren, w5)" by fastforce
  have ok: "so = MILENA_OK" "sc = MILENA_OK" "ren" "w' = w5"
    using assms(1) unfolding sort_empty_def 1 2 3 prod.case
    by (cases "so = MILENA_OK"; cases "sc = MILENA_OK"; auto simp: 4 5 Let_def split: if_splits)+
  have f2: "w_files w2 = w_files w" using call_ok_files [OF 1] path_exists_files [OF 2] by simp
  from open_fresh [OF 3 [unfolded ok(1)]] assms(2) f2 have st: "store_ok ?tmp [] store w3" "w_files w3 = (w_files w)(?tmp := Some [])" by simp_all
  have "w_files w4 = w_files w3" by (rule close_pending [OF 4 st(1)])
  then show ?thesis using rename_files [OF 5 partial_not_self] ok st(2) partial_not_self by (auto simp: fun_eq_iff)
qed

lemma sort_empty_calm:
  assumes "calm w" and "w_files w (partial_name out) = None" and "20 \<le> fq" and "length out + 9 \<le> size_max"
  shows "\<exists>w'. sort_empty out fq w = (MILENA_OK, w')"
proof -
  let ?tmp = "partial_name out"
  have tmp: "?tmp \<noteq> []" by (simp add: partial_name_def)
  have e: "path_exists ?tmp (tick w) = (False, tick (tick w))" using path_exists_calm assms(1,2) by simp
  obtain st w3 where o': "milena_spill_store_open (Some ?tmp) fq double_size spill_closed (tick (tick w)) = (MILENA_OK, st, w3)" "calm w3"
    using store_open_calm [of "tick (tick w)" ?tmp fq spill_closed] assms tmp by auto
  from open_fresh [OF o'(1)] assms(1,2) have st: "store_ok ?tmp [] st w3" "w_files w3 ?tmp = Some []" by simp_all
  then have c: "milena_spill_store_close (Some st) w3 = (MILENA_OK, Some (st\<lparr>st_path := None, st_file := None\<rparr>), tick w3)"
    using o'(2) by (simp add: store_ok_def milena_spill_store_close_def fflush_def calm_calls)
  have add: "milena_size_add (length out) 9 \<noteq> None" using assms(4) by (simp add: milena_size_add_def)
  show ?thesis unfolding sort_empty_def using add e o'(1,2) c st(2) assms(1)
    by (simp add: calm_calls rename_def Let_def)
qed

section \<open>The sort\<close>

lemma scratch_free: "(\<forall>q. sort_file pre q \<longrightarrow> w_files w q = None) \<longleftrightarrow> runs_stored pre 0 [] w"
  by (auto simp: runs_stored_def sort_file_def) (metis gr_zeroI)

lemma good_sorted: "good_runs rss \<Longrightarrow> sorted_runs rss"
  by (simp add: good_runs_def sorted_runs_def)


lemma sort_body_calm:
  assumes calm: "calm w" and qs: "qsort_sorts qs" and gives: "source_gives source c vs" and fan: "2 \<le> fan" and cap: "0 < cap"
    and free: "runs_stored pre 0 [] w" and out: "\<not> sort_file pre out" "out \<noteq> []" "lasting out" "w_files w out = None"
      "w_files w (partial_name out) = None" "length out + 9 \<le> size_max"
    and pre: "length pre + 59 \<le> int32_max" and room: "20 \<le> fq" "28 * length vs \<le> fq" "56 * length vs \<le> tq" "fq + 28 \<le> int64_max"
  shows "\<exists>vals w'. sort_body qs source c pre out cap fan fq tq w = Some (MILENA_OK, w') \<and> mset vals = mset vs \<and> sorted (map f_int vals) \<and>
    w_files w' out = Some (spill_image (map encode_double vals)) \<and> (\<forall>q. sort_file pre q \<longrightarrow> w_files w' q = None)"
proof -
  have np: "\<not> sort_file pre (partial_name out)" using partial_not_run out(1) by (auto simp: sort_file_def partial_inject)
  let ?st = "\<lparr>so_context = c, so_world = w, so_eof = False, so_runs = 0, so_scratch = 0\<rparr>"
  from gives obtain m m' where g: "source_yields source c vs m" "source m = (MILENA_OK, None, m')" by (auto simp: source_gives_def)
  have s0: "calm (so_world ?st)" "runs_stored pre 0 [] (so_world ?st)" "length ([] :: f64 list list) = so_runs ?st" "good_runs []"
    "so_scratch ?st = 28 * length (concat ([] :: f64 list list))" "\<not> so_eof ?st" "source_yields source (so_context ?st) vs m"
    "28 * (length (concat ([] :: f64 list list)) + length vs) \<le> fq" "56 * (length (concat ([] :: f64 list list)) + length vs) \<le> tq"
    using calm free g room by (simp_all add: good_runs_def)
  from sort_loop_calm [OF s0(1-7) g(2) qs cap s0(8,9) room(4) pre] obtain st rss where
    r: "sort_runs qs source pre cap fq tq c w = Some (MILENA_OK, st)" "calm (so_world st)" "runs_stored pre 0 rss (so_world st)" "length rss = so_runs st"
      "good_runs rss" "so_scratch st = 28 * length (concat rss)" "mset (concat rss) = mset vs"
    unfolding sort_runs_def by auto
  from sort_runs_sound(1) [OF r(1) free qs] have same: "others_same pre w (so_world st)" by (auto simp: sort_inv_def)
  then have f1: "w_files (so_world st) out = None" "w_files (so_world st) (partial_name out) = None"
    using out np partial_lasting by (simp_all add: others_same_def)
  have lv: "length (concat rss) = length vs" using mset_eq_length [OF r(7)] .
  show ?thesis
  proof (cases "so_runs st = 0")
    case True
    from sort_empty_calm [OF r(2) f1(2) room(1) out(6)] obtain w' where e: "sort_empty out fq (so_world st) = (MILENA_OK, w')" by blast
    note f = sort_empty_sound [OF e f1(2)]
    have rss: "rss = []" using r(4) True by simp
    have "w_files w' q = None" if q: "sort_file pre q" for q
    proof -
      have "w_files (so_world st) q = None" using r(3) q unfolding rss scratch_free [symmetric] by simp
      moreover have "q \<noteq> out" using q out(1) by auto
      ultimately show ?thesis using f by simp
    qed
    moreover have "w_files w' out = Some (spill_image (map encode_double []))" using f partial_not_self [of out] by auto
    moreover have "sort_body qs source c pre out cap fan fq tq w = Some (MILENA_OK, w')" using r(1) True e by (simp add: sort_body_def)
    ultimately show ?thesis using r(7) rss by (intro exI [of _ "[]"] exI [of _ w']) simp
  next
    case False
    have few: "0 + length rss \<le> int64_max" using good_length [OF r(5)] lv room(2,4) by linarith
    have rooms: "28 * length (concat rss) \<le> fq" "56 * length (concat rss) \<le> tq" using room lv by simp_all
    have clear: "passes_done pre 0 (so_world st)" by (simp add: passes_done_def)
    from merge_passes_calm [OF r(2) fan r(3,5) clear pre few rooms(1) room(4) rooms(2)] obtain a rss' w2 where
      p: "merge_passes pre fan fq tq 0 (length rss) (28 * length (concat rss)) (so_world st) = Some (MILENA_OK, a, length rss', 28 * length (concat rss), w2)"
        "calm w2" "runs_stored pre a rss' w2" "good_runs rss'" "length rss' \<le> fan" "mset (concat rss') = mset (concat rss)" "passes_done pre a w2"
        "a + length rss' \<le> int64_max" "rss \<noteq> [] \<longrightarrow> rss' \<noteq> []" by blast
    have ne: "rss' \<noteq> []" using p(9) r(4) False by auto
    from merge_passes_sound [OF p(1) fan r(3) good_sorted [OF r(5)]] have "others_same pre (so_world st) w2" by blast
    then have f2: "w_files w2 out = None" "w_files w2 (partial_name out) = None"
      using f1 out np partial_lasting by (simp_all add: others_same_def)
    have lv': "length (concat rss') = length (concat rss)" using mset_eq_length [OF p(6)] .
    have rooms': "28 * length (concat rss') \<le> fq" "28 * length (concat rss) + 28 * length (concat rss') \<le> tq" using rooms lv' by linarith+
    from merge_final_calm [OF p(2,3,4) ne fan p(5) out(1,2) f2 out(6) pre p(8) rooms' room(4) p(7)] obtain vals w' where
      v: "merge_final pre fan fq tq a (length rss') (28 * length (concat rss)) out w2 = Some (MILENA_OK, w')"
        "w_files w' out = Some (spill_image (map encode_double vals))" "mset vals = mset (concat rss')" "sorted (map f_int vals)"
        "\<forall>q. sort_file pre q \<longrightarrow> w_files w' q = None" by blast
    have "sort_body qs source c pre out cap fan fq tq w = Some (MILENA_OK, w')"
      using r(1,4,6) False p(1) v(1) by (simp add: sort_body_def)
    then show ?thesis using v p(6) r(7) by (intro exI [of _ vals] exI [of _ w']) simp
  qed
qed


text \<open>
  C7.  When nothing fails, the scratch and the output are free and the quotas hold the values (28 bytes
  each in one file, twice that in all), the sort returns with success, whatever the size of a run and the
  fan-in: the output is the values of the source in ascending order, and no scratch file is left.
\<close>

theorem external_sort_complete:
  assumes "calm w" and "qsort_sorts qs" and "source_gives source c vs"
    and "0 < cap" and "8 * cap \<le> size_max" and "2 \<le> fan" and "pre \<noteq> []" and "out \<noteq> []" and "pre \<noteq> out"
    and "length pre + 59 \<le> int32_max" and "length out + 9 \<le> size_max" and "lasting out" and "\<not> sort_file pre out"
    and "\<forall>q. sort_file pre q \<or> q = out \<or> q = partial_name out \<longrightarrow> w_files w q = None"
    and "28 \<le> fq" and "28 * length vs \<le> fq" and "28 \<le> tq" and "56 * length vs \<le> tq" and "fq + 28 \<le> int64_max"
  shows "\<exists>vals w'. milena_external_sort_doubles qs (Some source) c (Some pre) (Some out) cap fan fq tq w = Some (MILENA_OK, w') \<and>
    mset vals = mset vs \<and> sorted (map f_int vals) \<and> w_files w' out = Some (spill_image (map encode_double vals)) \<and>
    (\<forall>q. sort_file pre q \<longrightarrow> w_files w' q = None)"
proof -
  let ?w = "tick (tick w)"
  have w: "calm ?w" "w_files ?w = w_files w" using assms(1) by simp_all
  have free: "runs_stored pre 0 [] ?w" using assms(14) w(2) unfolding scratch_free [symmetric] by simp
  have outs: "w_files ?w out = None" "w_files ?w (partial_name out) = None" using assms(14) w(2) by simp_all
  have "20 \<le> fq" using assms(15) by simp
  from sort_body_calm [OF w(1) assms(2,3,6,4) free assms(13,8,12) outs assms(11,10) this assms(16,18,19)] obtain vals w' where
    r: "sort_body qs source c pre out cap fan fq tq ?w = Some (MILENA_OK, w')" "mset vals = mset vs" "sorted (map f_int vals)"
      "w_files w' out = Some (spill_image (map encode_double vals))" "\<forall>q. sort_file pre q \<longrightarrow> w_files w' q = None" by blast
  have args: "\<not> sort_arguments_bad (Some pre) (Some out) cap fan fq tq"
    using assms(4,6-9,15,17) by (simp add: sort_arguments_bad_def least_quota_def spill_header_size_def double_size_def spill_trailer_size_def)
  have "cap * 8 \<le> size_max" using assms(5) by (simp add: mult.commute)
  then have "8 \<le> size_max div cap" using assms(4) by (simp add: less_eq_div_iff_mult_less_eq mult.commute)
  then have mul: "milena_size_mul cap double_size \<noteq> None" by (simp add: milena_size_mul_def double_size_def)
  have e: "path_exists out w = (False, tick w)" using path_exists_calm [OF assms(1)] assms(14) by simp
  have "milena_external_sort_doubles qs (Some source) c (Some pre) (Some out) cap fan fq tq w = Some (MILENA_OK, w')"
    using args e mul r(1) assms(1) by (simp add: milena_external_sort_doubles_def calm_calls)
  then show ?thesis using r(2-5) by blast
qed

section \<open>Witnesses\<close>

fun list_source :: "f64 list double_source" where
  "list_source [] = (MILENA_OK, None, [])"
| "list_source (v # vs) = (MILENA_OK, Some v, vs)"

lemma list_source_gives: "list_all f_finite vs \<Longrightarrow> source_gives list_source vs vs"
proof -
  assume "list_all f_finite vs"
  then have "source_yields list_source vs vs []" by (induction vs) simp_all
  then show ?thesis by (auto simp: source_gives_def)
qed

lemma sort_key_sorts: "qsort_sorts (sort_key f_int)"
proof -
  have "sorted_wrt (\<lambda>a b. compare_double a b \<le> 0) (sort_key f_int vs)" if "list_all f_finite vs" for vs
  proof (rule sorted_wrt_mono_rel)
    show "sorted_wrt (\<lambda>a b. f_int a \<le> f_int b) (sort_key f_int vs)" using sorted_sort_key [of f_int vs] by (simp add: sorted_map)
  qed (use that in \<open>auto simp: list_all_iff compare_double_def f_lt_finite\<close>)
  then show ?thesis by (simp add: qsort_sorts_def)
qed

text \<open>3.0, 1.0 and 2.0 sorted one at a time with a fan-in of two: three runs, two passes.\<close>

definition three_values :: "f64 list" where
  "three_values = [0x4008000000000000, 0x3FF0000000000000, 0x4000000000000000]"

definition empty_world :: world where
  "empty_world = \<lparr>w_files = Map.empty, w_fault = (\<lambda>_. None), w_tick = 0, w_serial = 0, w_pid = 1\<rparr>"

lemma three_ready:
  "calm empty_world" "source_gives list_source three_values three_values" "length three_values = 3" "\<not> sort_file ''run'' ''out''" "lasting ''out''"
  "w_files empty_world q = None"
proof -
  show "source_gives list_source three_values three_values"
    by (rule list_source_gives) (simp add: three_values_def f_finite_def f_exp_def)
  show "calm empty_world" "w_files empty_world q = None" "length three_values = 3"
    by (simp_all add: empty_world_def calm_def three_values_def)
  show "\<not> sort_file ''run'' ''out''" by (simp add: sort_file_def run_name_def partial_name_def)
  have "''out'' \<noteq> recover_name p c d" for p c d
  proof
    assume "''out'' = recover_name p c d"
    then have "length ''out'' = length (recover_name p c d)" by simp
    then show False by (simp add: recover_name_def)
  qed
  then show "lasting ''out''" by (simp add: lasting_def)
qed

lemma external_sort_complete_witness:
  "\<exists>vals w'. milena_external_sort_doubles (sort_key f_int) (Some list_source) three_values (Some ''run'') (Some ''out'') 1 2 100 200 empty_world =
      Some (MILENA_OK, w') \<and> mset vals = mset three_values \<and> sorted (map f_int vals) \<and>
    w_files w' ''out'' = Some (spill_image (map encode_double vals)) \<and> (\<forall>q. sort_file ''run'' q \<longrightarrow> w_files w' q = None)"
  by (rule external_sort_complete [OF three_ready(1) sort_key_sorts three_ready(2)])
    (use three_ready(3-6) in \<open>simp_all add: size_max_def int32_max_def int64_max_def\<close>)


end
