(* ===== verification/Dates.thy ===== *)
theory Dates
  imports Common "HOL-Library.Signed_Division"
begin

text \<open>
  sst_dates.c: calendar dates, their order and their day number since 1970-01-01.

  A year is an \<open>int\<close> in C and the month and day are \<open>unsigned\<close>; they are integers here, with the
  wrap-around of unsigned arithmetic written as \<open>mod\<close>.  \<open>sscanf\<close> follows the standard: \<open>%d\<close> and
  \<open>%u\<close> skip white space and take a sign; a number out of range is undefined behaviour, which is
  \<open>None\<close>.
\<close>

record milena_date =
  dt_year :: int
  dt_month :: int
  dt_day :: int
  dt_valid :: bool

definition is_leap_year :: "int \<Rightarrow> bool" where
  "is_leap_year year \<longleftrightarrow> (year smod 4 = 0 \<and> year smod 100 \<noteq> 0) \<or> year smod 400 = 0"

definition month_days :: "int list" where
  "month_days = [31, 28, 31, 30, 31, 30, 31, 31, 30, 31, 30, 31]"

definition days_in_month :: "int \<Rightarrow> int \<Rightarrow> int" where
  "days_in_month year month =
     (if month = 2 \<and> is_leap_year year then 29
      else if 1 \<le> month \<and> month \<le> 12 then month_days ! nat (month - 1) else 0)"

section \<open>Parsing\<close>

definition is_space :: "char \<Rightarrow> bool" where
  "is_space c \<longleftrightarrow> c \<in> {CHR '' '', CHR 0x09, CHR 0x0A, CHR 0x0B, CHR 0x0C, CHR 0x0D}"

definition digit_of :: "char \<Rightarrow> int option" where
  "digit_of c = (if 48 \<le> (of_char c :: nat) \<and> (of_char c :: nat) \<le> 57 then Some (of_char c - 48) else None)"

fun scan_digits :: "int \<Rightarrow> string \<Rightarrow> int \<times> string" where
  "scan_digits acc [] = (acc, [])"
| "scan_digits acc (c # cs) = (case digit_of c of None \<Rightarrow> (acc, c # cs) | Some d \<Rightarrow> scan_digits (10 * acc + d) cs)"

text \<open>
  A conversion fails, or gives its number and the rest of the text.  The longest run that could
  begin a number is taken, so a sign without digits fails.
\<close>

definition scan_number :: "string \<Rightarrow> (int \<times> string) option" where
  "scan_number text =
     (let text = dropWhile is_space text;
          (negative, text) = (case text of c # cs \<Rightarrow> if c = CHR ''-'' then (True, cs) else if c = CHR ''+'' then (False, cs) else (False, text)
                                         | [] \<Rightarrow> (False, []))
      in case text of
           [] \<Rightarrow> None
         | c # cs \<Rightarrow> if digit_of c = None then None
                    else case scan_digits 0 text of (n, rest) \<Rightarrow> Some (if negative then - n else n, rest))"

definition int_max :: int where "int_max = 2147483647"
definition uint_modulus :: int where "uint_modulus = 4294967296"

text \<open>The fields of \<open>"%d-%u-%u%c"\<close> that were converted, when all four are not, or \<open>None\<close> when a number is out of range.\<close>

datatype scanned = Scanned_fewer | Scanned_three int int int | Scanned_four

definition expect_dash :: "string \<Rightarrow> string option" where
  "expect_dash text = (case text of c # cs \<Rightarrow> if c = CHR ''-'' then Some cs else None | [] \<Rightarrow> None)"

definition scan_date :: "string \<Rightarrow> scanned option" where
  "scan_date text =
     (case scan_number text of
        None \<Rightarrow> Some Scanned_fewer
      | Some (year, text) \<Rightarrow>
          if \<not> (- int_max - 1 \<le> year \<and> year \<le> int_max) then None
          else case Option.bind (expect_dash text) scan_number of
            None \<Rightarrow> Some Scanned_fewer
          | Some (month, text) \<Rightarrow>
              if \<not> (- uint_modulus < month \<and> month < uint_modulus) then None
              else case Option.bind (expect_dash text) scan_number of
                None \<Rightarrow> Some Scanned_fewer
              | Some (day, text) \<Rightarrow>
                  if \<not> (- uint_modulus < day \<and> day < uint_modulus) then None
                  else Some (if text \<noteq> [] then Scanned_four else Scanned_three year (month mod uint_modulus) (day mod uint_modulus)))"

definition date_ok :: "int \<Rightarrow> int \<Rightarrow> int \<Rightarrow> bool" where
  "date_ok year month day \<longleftrightarrow> \<not> (year < 1 \<or> month < 1 \<or> month > 12 \<or> day < 1 \<or> day > days_in_month year month)"

definition invalid_date :: milena_date where
  "invalid_date = \<lparr>dt_year = 0, dt_month = 0, dt_day = 0, dt_valid = False\<rparr>"

definition sst_date_parse :: "string option \<Rightarrow> milena_date \<Rightarrow> (MilenaStatus \<times> milena_date) option" where
  "sst_date_parse text date =
     (case text of
        None \<Rightarrow> Some (MILENA_ERR_ARGUMENT, date)
      | Some text \<Rightarrow>
          map_option (\<lambda>s. case s of
              Scanned_three year month day \<Rightarrow>
                (if \<not> date_ok year month day then (MILENA_ERR_DATA, invalid_date)
                 else (MILENA_OK, \<lparr>dt_year = year, dt_month = month, dt_day = day, dt_valid = True\<rparr>))
            | _ \<Rightarrow> (MILENA_ERR_DATA, invalid_date)) (scan_date text))"

section \<open>Order and day number\<close>

definition sst_date_compare :: "milena_date option \<Rightarrow> milena_date option \<Rightarrow> int" where
  "sst_date_compare left right =
     (case (left, right) of
        (Some l, Some r) \<Rightarrow>
          (if \<not> dt_valid l \<or> \<not> dt_valid r then 0
           else if dt_year l \<noteq> dt_year r then (if dt_year l < dt_year r then -1 else 1)
           else if dt_month l \<noteq> dt_month r then (if dt_month l < dt_month r then -1 else 1)
           else if dt_day l \<noteq> dt_day r then (if dt_day l < dt_day r then -1 else 1)
           else 0)
      | _ \<Rightarrow> 0)"

definition sst_date_is_future :: "milena_date option \<Rightarrow> milena_date option \<Rightarrow> bool" where
  "sst_date_is_future date reference \<longleftrightarrow> sst_date_compare date reference > 0"

definition sst_date_epoch_days :: "milena_date option \<Rightarrow> int" where
  "sst_date_epoch_days date =
     (case date of
        None \<Rightarrow> -1
      | Some d \<Rightarrow>
          if \<not> dt_valid d then -1
          else
            let m = dt_month d;
                y = dt_year d - (if m \<le> 2 then 1 else 0);
                era = (if y \<ge> 0 then y else y - 399) sdiv 400;
                yoe = (y - era * 400) mod uint_modulus;
                mp = (m + (if m > 2 then -3 else 9)) mod uint_modulus;
                doy = (((153 * mp + 2) mod uint_modulus) div 5 + dt_day d - 1) mod uint_modulus;
                doe = (yoe * 365 + yoe div 4 - yoe div 100 + doy) mod uint_modulus
            in era * 146097 + doe - 719468)"

section \<open>The calendar\<close>

text \<open>The days of the years before a year, and of the months before a month, counted one by one.\<close>

definition year_days :: "int \<Rightarrow> int" where
  "year_days year = (\<Sum>month \<leftarrow> [1..12]. days_in_month year month)"

definition days_before :: "int \<Rightarrow> int \<Rightarrow> int" where
  "days_before year month = (\<Sum>y \<leftarrow> [1..year - 1]. year_days y) + (\<Sum>m \<leftarrow> [1..month - 1]. days_in_month year m)"

definition calendar_day :: "milena_date \<Rightarrow> int" where
  "calendar_day d = days_before (dt_year d) (dt_month d) + dt_day d - 1"

definition calendar_date :: "milena_date \<Rightarrow> bool" where
  "calendar_date d \<longleftrightarrow> dt_valid d \<and> date_ok (dt_year d) (dt_month d) (dt_day d)"

lemma leap_positive: "0 \<le> y \<Longrightarrow> is_leap_year y \<longleftrightarrow> (y mod 4 = 0 \<and> y mod 100 \<noteq> 0) \<or> y mod 400 = 0"
  by (simp add: is_leap_year_def signed_modulo_int_def sgn_if)

lemma months_upto:
  "[1..0 :: int] = []"
  "[1..1 :: int] = [1]"
  "[1..2 :: int] = [1, 2]"
  "[1..3 :: int] = [1, 2, 3]"
  "[1..4 :: int] = [1, 2, 3, 4]"
  "[1..5 :: int] = [1, 2, 3, 4, 5]"
  "[1..6 :: int] = [1, 2, 3, 4, 5, 6]"
  "[1..7 :: int] = [1, 2, 3, 4, 5, 6, 7]"
  "[1..8 :: int] = [1, 2, 3, 4, 5, 6, 7, 8]"
  "[1..9 :: int] = [1, 2, 3, 4, 5, 6, 7, 8, 9]"
  "[1..10 :: int] = [1, 2, 3, 4, 5, 6, 7, 8, 9, 10]"
  "[1..11 :: int] = [1, 2, 3, 4, 5, 6, 7, 8, 9, 10, 11]"
  "[1..12 :: int] = [1, 2, 3, 4, 5, 6, 7, 8, 9, 10, 11, 12]"
  by code_simp+

lemma year_days_leap: "year_days y = (if is_leap_year y then 366 else 365)"
  by (simp add: year_days_def months_upto days_in_month_def month_days_def)

lemma month_cases:
  assumes "1 \<le> m" "m \<le> (12 :: int)"
  shows "m \<in> {1, 2, 3, 4, 5, 6, 7, 8, 9, 10, 11, 12}"
proof -
  have "m \<in> set [1..12]" using assms by simp
  then show ?thesis unfolding months_upto by simp
qed

lemma div_next:
  fixes n d :: int
  assumes "0 < d"
  shows "(n + 1) div d = n div d + (if (n + 1) mod d = 0 then 1 else 0)"
proof (cases "n mod d + 1 = d")
  case True
  then have "n + 1 = d * (n div d + 1) + 0" by (metis add.assoc add.right_neutral distrib_left mult.right_neutral mult_div_mod_eq)
  then show ?thesis using assms int_div_pos_eq [of "n + 1" d "n div d + 1" 0] int_mod_pos_eq [of "n + 1" d "n div d + 1" 0] by simp
next
  case False
  have nz: "n mod d + 1 \<noteq> 0" using pos_mod_sign [OF assms, of n] by linarith
  from False have "n + 1 = d * (n div d) + (n mod d + 1)" "n mod d + 1 < d" "0 \<le> n mod d" using assms pos_mod_bound [of d n] by (simp_all, linarith)
  then show ?thesis using assms int_div_pos_eq [of "n + 1" d "n div d" "n mod d + 1"] int_mod_pos_eq [of "n + 1" d "n div d" "n mod d + 1"] nz by simp
qed

text \<open>The leap days up to a year, the days of the months since March, and those since the last era began.\<close>

definition leaps :: "int \<Rightarrow> int" where "leaps y = y div 4 - y div 100 + y div 400"
definition month_offset :: "int \<Rightarrow> int" where "month_offset mp = (153 * mp + 2) div 5"
definition year_part :: "int \<Rightarrow> int" where "year_part r = r * 365 + r div 4 - r div 100"

lemma leaps_next: "0 \<le> n \<Longrightarrow> leaps (n + 1) = leaps n + (if is_leap_year (n + 1) then 1 else 0)"
proof -
  assume n: "0 \<le> n"
  have "(n + 1) mod 400 = 0 \<Longrightarrow> (n + 1) mod 100 = 0" "(n + 1) mod 100 = 0 \<Longrightarrow> (n + 1) mod 4 = 0"
    by (simp_all add: mod_eq_0_iff_dvd dvd_trans [of 100 400] dvd_trans [of 4 100])
  then show ?thesis using leap_positive [of "n + 1"] n by (auto simp: leaps_def div_next)
qed

lemma years_before: "(\<Sum>y \<leftarrow> [1..int n]. year_days y) = 365 * int n + leaps (int n)"
proof (induction n)
  case (Suc n)
  have "[1..int (Suc n)] = [1..int n] @ [int n + 1]" by (simp add: upto_rec2 algebra_simps)
  then show ?case using Suc leaps_next [of "int n"] by (simp add: year_days_leap add.commute)
qed (simp add: leaps_def)

lemma months_before:
  assumes "1 \<le> m" "m \<le> 12"
  shows "(\<Sum>m \<leftarrow> [1..m - 1]. days_in_month y m) =
    (if m \<le> 2 then 31 * (m - 1) else month_offset (m - 3) + (if is_leap_year y then 60 else 59))"
proof -
  have "m \<in> {1, 2, 3, 4, 5, 6, 7, 8, 9, 10, 11, 12}" by (rule month_cases [OF assms])
  then show ?thesis by (elim insertE emptyE) (simp_all add: months_upto days_in_month_def month_days_def month_offset_def)
qed

lemma era_aux: "365 * (400 * e + r) + leaps (400 * e + r) = e * 146097 + year_part r + r div 400"
  using div_mult_self4 [of 4 "100 * e" r] div_mult_self4 [of 100 "4 * e" r] by (simp add: leaps_def year_part_def)

lemma era_split: "365 * y + leaps y = y div 400 * 146097 + year_part (y mod 400)"
  using era_aux [of "y div 400" "y mod 400"] by (simp add: div_pos_pos_trivial)

lemma year_part_bounds:
  assumes "0 \<le> r" "r < 400"
  shows "0 \<le> year_part r" and "year_part r \<le> 146097"
proof -
  have "r div 100 \<le> r div 4" by (rule zdiv_mono2) (use assms in simp_all)
  moreover have "r div 4 \<le> 399 div 4" by (rule zdiv_mono1) (use assms in simp_all)
  moreover have "0 \<le> r div 100" using assms by (simp add: pos_imp_zdiv_nonneg_iff)
  ultimately show "0 \<le> year_part r" and "year_part r \<le> 146097" using assms unfolding year_part_def by linarith+
qed

lemma day_of_year:
  assumes "1 \<le> m" "m \<le> 12"
  defines "mp \<equiv> m + (if m > 2 then -3 else 9)"
  shows "0 \<le> mp" and "mp \<le> 11" and "0 \<le> month_offset mp" and "month_offset mp \<le> 337"
  unfolding mp_def month_offset_def using month_cases [OF assms(1,2)] by (elim insertE emptyE; simp)+

lemma offset_small: "0 \<le> mp \<Longrightarrow> mp \<le> 11 \<Longrightarrow> (153 * mp + 2) mod uint_modulus = 153 * mp + 2"
  by (simp add: uint_modulus_def)

lemma days_in_month_le: "days_in_month y m \<le> 31"
proof -
  have "1 \<le> m \<Longrightarrow> m \<le> 12 \<Longrightarrow> month_days ! nat (m - 1) \<le> 31"
    by (drule (1) month_cases) (elim insertE emptyE; simp add: month_days_def)
  then show ?thesis by (auto simp: days_in_month_def)
qed

lemma days_before_sum:
  assumes "1 \<le> m" "m \<le> 12" "1 \<le> year"
  defines "y \<equiv> year - (if m \<le> 2 then 1 else 0)" and "mp \<equiv> m + (if m > 2 then -3 else 9)"
  shows "days_before year m = y div 400 * 146097 + year_part (y mod 400) + month_offset mp - 306"
proof -
  have y1: "(\<Sum>y \<leftarrow> [1..year - 1]. year_days y) = 365 * (year - 1) + leaps (year - 1)"
    using years_before [of "nat (year - 1)"] assms(3) by simp
  have ml: "m \<le> 2 \<Longrightarrow> month_offset (m + 9) = 31 * (m - 1) + 306"
    using month_cases [OF assms(1,2)] by (elim insertE emptyE; simp add: month_offset_def)
  show ?thesis
    unfolding days_before_def y1 months_before [OF assms(1,2)] era_split [symmetric]
    using ml leaps_next [of "year - 1"] assms(3) by (simp add: y_def mp_def)
qed

text \<open>
  C39.  The closed formula for the day number is the calendar: from 0001-01-01 on, the number of a
  date is the number of days before it, counted year by year and month by month, less the 719162
  days before 1970.
\<close>

theorem date_epoch_days_calendar:
  assumes "calendar_date d"
  shows "sst_date_epoch_days (Some d) = calendar_day d - 719162"
proof -
  let ?m = "dt_month d" and ?y = "dt_year d - (if dt_month d \<le> 2 then 1 else 0)"
  let ?mp = "?m + (if ?m > 2 then -3 else 9)" and ?r = "?y mod 400"
  have v: "dt_valid d" "1 \<le> dt_year d" "1 \<le> ?m" "?m \<le> 12" "1 \<le> dt_day d" "dt_day d \<le> 31"
    using assms days_in_month_le [of "dt_year d" ?m] by (auto simp: calendar_date_def date_ok_def)
  note dm = day_of_year [OF v(3,4)]
  note trivial = mod_pos_pos_trivial [where l = uint_modulus, unfolded uint_modulus_def]
  have y0: "0 \<le> ?y" using v by simp
  have era: "(if ?y \<ge> 0 then ?y else ?y - 399) sdiv 400 = ?y div 400" using y0 by (simp add: signed_divide_int_def sgn_if)
  have r: "0 \<le> ?r" "?r < 400" by simp_all
  have yoe: "(?y - ?y div 400 * 400) mod uint_modulus = ?r"
    unfolding uint_modulus_def minus_div_mult_eq_mod by (rule trivial) (use r in linarith)+
  have mp: "?mp mod uint_modulus = ?mp" unfolding uint_modulus_def by (rule trivial) (use dm(1,2) in linarith)+
  have inner: "(153 * ?mp + 2) mod uint_modulus = 153 * ?mp + 2" by (rule offset_small [OF dm(1,2)])
  have doy: "(month_offset ?mp + dt_day d - 1) mod uint_modulus = month_offset ?mp + dt_day d - 1"
    unfolding uint_modulus_def by (rule trivial) (use dm(3,4) v(5,6) in linarith)+
  have doe: "(year_part ?r + (month_offset ?mp + dt_day d - 1)) mod uint_modulus = year_part ?r + (month_offset ?mp + dt_day d - 1)"
    unfolding uint_modulus_def by (rule trivial) (use dm(3,4) v(5,6) year_part_bounds [OF r] in linarith)+
  have "sst_date_epoch_days (Some d) = ?y div 400 * 146097 + (year_part ?r + (month_offset ?mp + dt_day d - 1)) - 719468"
    unfolding sst_date_epoch_days_def Let_def option.case using v(1)
    by (simp only: era yoe mp inner month_offset_def [symmetric] doy year_part_def [symmetric] doe simp_thms if_False)
  then show ?thesis unfolding calendar_day_def days_before_sum [OF v(3,4,2)] by simp
qed

lemma date_epoch_days_calendar_witness:
  "sst_date_epoch_days (Some \<lparr>dt_year = 2024, dt_month = 2, dt_day = 29, dt_valid = True\<rparr>) =
     calendar_day \<lparr>dt_year = 2024, dt_month = 2, dt_day = 29, dt_valid = True\<rparr> - 719162"
  by (rule date_epoch_days_calendar) (simp add: calendar_date_def date_ok_def days_in_month_def is_leap_year_def signed_modulo_int_def)

text \<open>An accepted text is a date of the calendar; a text with spaces and signs is accepted too.\<close>

lemma date_parse_calendar:
  "sst_date_parse (Some text) date = Some (MILENA_OK, d) \<Longrightarrow> calendar_date d"
  by (cases "scan_date text"; cases "the (scan_date text)") (auto simp: sst_date_parse_def calendar_date_def split: if_splits)

lemma date_parse_lenient:
  "sst_date_parse (Some '' +2024- 2-+29'') date = Some (MILENA_OK, \<lparr>dt_year = 2024, dt_month = 2, dt_day = 29, dt_valid = True\<rparr>)"
  by code_simp

end
