(* ===== verification/SymbolScopes.thy ===== *)
theory SymbolScopes
  imports Common
begin

text \<open>
  symbol_table.c and symbol.c: two tables of names with nested scopes, one a flat array that tags
  every name with the depth of its scope, the other a chain of tables, one per scope.  The locale
  \<open>scope_table\<close> is the contract of both: a stack of sets of names.  They differ in three points, which
  the contract states: the flat table keeps its outermost scope and refuses the empty name, while
  the chain frees its last table too and takes any name; and a chain that gets no memory for a new
  scope goes on in the old one, without a word to its caller.

  Allocations ask the Boolean arguments.  A depth is a C \<open>int\<close>: an operation that would pass
  \<open>INT_MAX\<close> is undefined behaviour and has no result.
\<close>

definition scope_max :: int where "scope_max = 2147483647"

section \<open>The contract\<close>

text \<open>The operations, each with the answers to its requests for memory.\<close>

datatype scope_op = Enter_scope bool | Leave_scope | Declare_name "nat \<Rightarrow> bool" string | Ask_name string

text \<open>
  What an operation may answer, with the sets of names of the open scopes afterwards, innermost first.
  There is one possibility unless a request for memory is refused: then a declaration may fail
  and change nothing.  \<open>strict\<close> is set for the flat table.
\<close>

fun scope_results :: "bool \<Rightarrow> scope_op \<Rightarrow> string set list \<Rightarrow> (bool \<times> string set list) list" where
  "scope_results strict (Enter_scope mem) S = [(True, if strict \<or> mem then {} # S else S)]"
| "scope_results strict Leave_scope S = [(True, if strict \<and> length S \<le> 1 then S else tl S)]"
| "scope_results strict (Declare_name mem n) S =
     (if S = [] \<or> (strict \<and> n = []) \<or> n \<in> hd S then [(False, S)]
      else (True, insert n (hd S) # tl S) # (if mem 0 \<and> mem 1 \<and> (strict \<or> mem 2) then [] else [(False, S)]))"
| "scope_results strict (Ask_name n) S = [(n \<in> \<Union> (set S), S)]"

fun scope_trace :: "bool \<Rightarrow> scope_op list \<Rightarrow> bool list \<Rightarrow> string set list \<Rightarrow> bool" where
  "scope_trace strict [] answers S \<longleftrightarrow> answers = []"
| "scope_trace strict (x # xs) answers S \<longleftrightarrow>
     (\<exists>(b, S') \<in> set (scope_results strict x S). \<exists>bs. answers = b # bs \<and> scope_trace strict xs bs S')"

text \<open>The answers of a table to a program of operations; \<open>None\<close> is undefined behaviour.\<close>

definition scope_step ::
  "(bool \<Rightarrow> 's \<Rightarrow> 's option) \<Rightarrow> ('s \<Rightarrow> 's) \<Rightarrow> ((nat \<Rightarrow> bool) \<Rightarrow> string \<Rightarrow> 's \<Rightarrow> bool \<times> 's) \<Rightarrow> (string \<Rightarrow> 's \<Rightarrow> bool) \<Rightarrow>
     scope_op \<Rightarrow> 's \<Rightarrow> (bool \<times> 's) option"
where
  "scope_step enter leave declare_name visible x s =
     (case x of Enter_scope mem \<Rightarrow> map_option (Pair True) (enter mem s) | Leave_scope \<Rightarrow> Some (True, leave s)
      | Declare_name mem n \<Rightarrow> Some (declare_name mem n s) | Ask_name n \<Rightarrow> Some (visible n s, s))"

fun scope_run ::
  "(bool \<Rightarrow> 's \<Rightarrow> 's option) \<Rightarrow> ('s \<Rightarrow> 's) \<Rightarrow> ((nat \<Rightarrow> bool) \<Rightarrow> string \<Rightarrow> 's \<Rightarrow> bool \<times> 's) \<Rightarrow> (string \<Rightarrow> 's \<Rightarrow> bool) \<Rightarrow>
     scope_op list \<Rightarrow> 's \<Rightarrow> bool list option"
where
  "scope_run enter leave declare_name visible [] s = Some []"
| "scope_run enter leave declare_name visible (x # xs) s =
     (case scope_step enter leave declare_name visible x s of
        None \<Rightarrow> None
      | Some (b, s) \<Rightarrow> map_option ((#) b) (scope_run enter leave declare_name visible xs s))"

locale scope_table =
  fixes strict :: bool and names :: "'s \<Rightarrow> string set list" and table_ok :: "'s \<Rightarrow> bool" and depth :: "'s \<Rightarrow> int"
    and enter :: "bool \<Rightarrow> 's \<Rightarrow> 's option" and leave :: "'s \<Rightarrow> 's"
    and declare_name :: "(nat \<Rightarrow> bool) \<Rightarrow> string \<Rightarrow> 's \<Rightarrow> bool \<times> 's" and visible :: "string \<Rightarrow> 's \<Rightarrow> bool"
  assumes enter_law: "table_ok s \<Longrightarrow> depth s < scope_max \<Longrightarrow> \<exists>s'. enter mem s = Some s' \<and> table_ok s' \<and> depth s' \<le> depth s + 1 \<and>
      names s' = (if strict \<or> mem then {} # names s else names s)"
    and leave_law: "table_ok s \<Longrightarrow> table_ok (leave s) \<and> depth (leave s) \<le> depth s \<and>
      names (leave s) = (if strict \<and> length (names s) \<le> 1 then names s else tl (names s))"
    and declare_law: "table_ok s \<Longrightarrow> declare_name m n s = (b, s') \<Longrightarrow>
      table_ok s' \<and> depth s' \<le> depth s \<and> (b, names s') \<in> set (scope_results strict (Declare_name m n) (names s))"
    and visible_law: "table_ok s \<Longrightarrow> visible n s \<longleftrightarrow> n \<in> \<Union> (set (names s))"
begin

lemma step_law:
  assumes "table_ok s" and "depth s < scope_max"
  shows "\<exists>b s'. scope_step enter leave declare_name visible x s = Some (b, s') \<and> table_ok s' \<and> depth s' \<le> depth s + 1 \<and>
    (b, names s') \<in> set (scope_results strict x (names s))"
proof (cases x)
  case (Declare_name m n)
  obtain b s' where "declare_name m n s = (b, s')" by fastforce
  then show ?thesis using declare_law [OF assms(1)] Declare_name by (fastforce simp: scope_step_def)
next
  case (Enter_scope mem)
  then show ?thesis using enter_law [OF assms, of mem] by (auto simp: scope_step_def)
next
  case Leave_scope
  then show ?thesis using leave_law [OF assms(1)] by (auto simp: scope_step_def)
next
  case (Ask_name n)
  then show ?thesis using visible_law [OF assms(1)] assms(1) by (simp add: scope_step_def)
qed

lemma run_law:
  "table_ok s \<Longrightarrow> depth s + int (length xs) \<le> scope_max \<Longrightarrow>
    \<exists>answers. scope_run enter leave declare_name visible xs s = Some answers \<and> scope_trace strict xs answers (names s)"
proof (induction xs arbitrary: s)
  case (Cons x xs)
  obtain b s' where st: "scope_step enter leave declare_name visible x s = Some (b, s')" "table_ok s'" "depth s' \<le> depth s + 1"
    "(b, names s') \<in> set (scope_results strict x (names s))"
    using step_law [OF Cons.prems(1), of x] Cons.prems(2) by auto
  then obtain bs where "scope_run enter leave declare_name visible xs s' = Some bs" "scope_trace strict xs bs (names s')"
    using Cons.IH [OF st(2)] Cons.prems(2) by auto
  then show ?case using st(1,4) by (intro exI [of _ "b # bs"]) force
qed simp

end

section \<open>symbol_table.c\<close>

record milena_symbol =
  ms_name :: string
  ms_scope :: int

record milena_symbols =
  sy_items :: "milena_symbol list"
  sy_capacity :: nat
  sy_scope :: int

definition milena_symbols_init :: milena_symbols where
  "milena_symbols_init = \<lparr>sy_items = [], sy_capacity = 0, sy_scope = 0\<rparr>"

definition milena_symbols_release :: "milena_symbols \<Rightarrow> milena_symbols" where
  "milena_symbols_release t = milena_symbols_init"

definition milena_symbols_enter_scope :: "milena_symbols \<Rightarrow> milena_symbols option" where
  "milena_symbols_enter_scope t = (if sy_scope t \<ge> scope_max then None else Some (t\<lparr>sy_scope := sy_scope t + 1\<rparr>))"

definition milena_symbols_leave_scope :: "milena_symbols \<Rightarrow> milena_symbols" where
  "milena_symbols_leave_scope t =
     (if sy_scope t = 0 then t
      else t\<lparr>sy_items := rev (dropWhile (\<lambda>x. ms_scope x = sy_scope t) (rev (sy_items t))), sy_scope := sy_scope t - 1\<rparr>)"

definition milena_symbols_exists :: "milena_symbols \<Rightarrow> string option \<Rightarrow> bool" where
  "milena_symbols_exists t n = (case n of None \<Rightarrow> False | Some n \<Rightarrow> list_ex (\<lambda>x. ms_name x = n) (rev (sy_items t)))"

definition milena_symbols_declare ::
  "bool \<Rightarrow> bool \<Rightarrow> string option \<Rightarrow> milena_symbols \<Rightarrow> MilenaStatus \<times> milena_symbols"
where
  "milena_symbols_declare alloc_table alloc_name n t =
     (if n = None \<or> n = Some [] then (MILENA_ERR_ARGUMENT, t)
      else if list_ex (\<lambda>x. ms_name x = the n) (takeWhile (\<lambda>x. ms_scope x = sy_scope t) (rev (sy_items t))) then (MILENA_ERR_DATA, t)
      else if length (sy_items t) = sy_capacity t \<and> \<not> alloc_table then (MILENA_ERR_MEMORY, t)
      else
        let t = (if length (sy_items t) = sy_capacity t
                 then t\<lparr>sy_capacity := (if sy_capacity t \<noteq> 0 then sy_capacity t * 2 else 8)\<rparr> else t)
        in if \<not> alloc_name then (MILENA_ERR_MEMORY, t)
           else (MILENA_OK, t\<lparr>sy_items := sy_items t @ [\<lparr>ms_name = the n, ms_scope = sy_scope t\<rparr>]\<rparr>))"

text \<open>The scopes of the names never decrease along the array.\<close>

definition symbols_ok :: "milena_symbols \<Rightarrow> bool" where
  "symbols_ok t \<longleftrightarrow> sorted (map ms_scope (sy_items t)) \<and> list_all (\<lambda>x. 0 \<le> ms_scope x \<and> ms_scope x \<le> sy_scope t) (sy_items t) \<and> 0 \<le> sy_scope t"

definition symbols_at :: "milena_symbols \<Rightarrow> int \<Rightarrow> string set" where
  "symbols_at t k = ms_name ` {x \<in> set (sy_items t). ms_scope x = k}"

definition symbols_names :: "milena_symbols \<Rightarrow> string set list" where
  "symbols_names t = map (symbols_at t) (rev [0..sy_scope t])"

text \<open>A declaration counts as made when its status is \<open>MILENA_OK\<close>.\<close>

definition symbols_declared :: "(nat \<Rightarrow> bool) \<Rightarrow> string \<Rightarrow> milena_symbols \<Rightarrow> bool \<times> milena_symbols" where
  "symbols_declared mem n t = (case milena_symbols_declare (mem 0) (mem 1) (Some n) t of (status, t) \<Rightarrow> (status = MILENA_OK, t))"

lemma sorted_last_run:
  assumes "sorted (map f xs)" and "\<forall>x \<in> set xs. f x \<le> k"
  shows "takeWhile (\<lambda>x. f x = k) (rev xs) = filter (\<lambda>x. f x = k) (rev xs)"
    and "dropWhile (\<lambda>x. f x = k) (rev xs) = filter (\<lambda>x. f x \<noteq> (k :: int)) (rev xs)"
  using assms
proof (induction xs rule: rev_induct)
  case (snoc x xs)
  {
    case 1
    then have "f x \<noteq> k \<Longrightarrow> \<forall>y \<in> set xs. f y < k" by (force simp: sorted_append)
    then have "f x \<noteq> k \<Longrightarrow> filter (\<lambda>x. f x = k) (rev xs) = []" by (auto simp: filter_empty_conv)
    then show ?case using snoc 1 by (auto simp: sorted_append)
  next
    case 2
    then have "f x \<noteq> k \<Longrightarrow> \<forall>y \<in> set xs. f y < k" by (force simp: sorted_append)
    then have "f x \<noteq> k \<Longrightarrow> filter (\<lambda>x. f x \<noteq> k) (rev xs) = rev xs" by (auto simp: filter_id_conv)
    then show ?case using snoc 2 by (auto simp: sorted_append)
  }
qed simp_all

lemma symbols_names_hd:
  "0 \<le> sy_scope t \<Longrightarrow> symbols_names t = symbols_at t (sy_scope t) # map (symbols_at t) (rev [0..sy_scope t - 1])"
  by (simp add: symbols_names_def upto_rec2)

lemma symbols_names_other:
  assumes "\<forall>k. 0 \<le> k \<and> k \<le> m \<longrightarrow> symbols_at u k = symbols_at t k"
  shows "map (symbols_at u) (rev [0..m]) = map (symbols_at t) (rev [0..m])"
  using assms by auto

lemma symbols_enter:
  assumes ok: "symbols_ok t" and "sy_scope t < scope_max"
  shows "\<exists>t'. milena_symbols_enter_scope t = Some t' \<and> symbols_ok t' \<and> sy_scope t' \<le> sy_scope t + 1 \<and> symbols_names t' = {} # symbols_names t"
proof -
  have run: "0 \<le> sy_scope t" "\<forall>x \<in> set (sy_items t). ms_scope x \<le> sy_scope t" using ok by (auto simp: symbols_ok_def list_all_iff)
  then have "symbols_at t (sy_scope t + 1) = {}" by (force simp: symbols_at_def)
  then show ?thesis
    using ok assms(2) run(1)
    by (force simp: symbols_ok_def milena_symbols_enter_scope_def symbols_names_def symbols_at_def upto_rec2 list_all_iff)
qed

lemma symbols_leave:
  assumes ok: "symbols_ok t"
  shows "symbols_ok (milena_symbols_leave_scope t) \<and> sy_scope (milena_symbols_leave_scope t) \<le> sy_scope t \<and>
    symbols_names (milena_symbols_leave_scope t) = (if length (symbols_names t) \<le> 1 then symbols_names t else tl (symbols_names t))"
proof (cases "sy_scope t = 0")
  case True
  then show ?thesis using ok by (simp add: milena_symbols_leave_scope_def symbols_names_def)
next
  case False
  have scope: "0 \<le> sy_scope t" and run: "\<forall>x \<in> set (sy_items t). ms_scope x \<le> sy_scope t" "sorted (map ms_scope (sy_items t))"
    using ok by (auto simp: symbols_ok_def list_all_iff)
  have items: "sy_items (milena_symbols_leave_scope t) = filter (\<lambda>x. ms_scope x \<noteq> sy_scope t) (sy_items t)"
    "sy_scope (milena_symbols_leave_scope t) = sy_scope t - 1"
    using False sorted_last_run [OF run(2,1)] by (simp_all add: milena_symbols_leave_scope_def rev_filter)
  have "symbols_ok (milena_symbols_leave_scope t)"
    using ok False scope unfolding symbols_ok_def items by (auto simp: list_all_iff sorted_filter less_le)
  moreover have "symbols_names (milena_symbols_leave_scope t) = map (symbols_at t) (rev [0..sy_scope t - 1])"
    unfolding symbols_names_def items by (rule symbols_names_other) (auto simp: symbols_at_def items)
  ultimately show ?thesis using False scope items(2) by (simp add: symbols_names_hd [OF scope])
qed

lemma symbols_declare:
  assumes ok: "symbols_ok t" and add: "symbols_declared mem n t = (b, t')"
  shows "symbols_ok t' \<and> sy_scope t' \<le> sy_scope t \<and> (b, symbols_names t') \<in> set (scope_results True (Declare_name mem n) (symbols_names t))"
proof -
  have scope: "0 \<le> sy_scope t" and run: "\<forall>x \<in> set (sy_items t). ms_scope x \<le> sy_scope t" "sorted (map ms_scope (sy_items t))"
    using ok by (auto simp: symbols_ok_def list_all_iff)
  have here: "list_ex (\<lambda>x. ms_name x = n) (takeWhile (\<lambda>x. ms_scope x = sy_scope t) (rev (sy_items t))) \<longleftrightarrow> n \<in> symbols_at t (sy_scope t)"
    unfolding sorted_last_run [OF run(2,1)] by (auto simp: list_ex_iff symbols_at_def)
  define grown where "grown = (if length (sy_items t) = sy_capacity t
    then t\<lparr>sy_capacity := (if sy_capacity t \<noteq> 0 then sy_capacity t * 2 else 8)\<rparr> else t)"
  have g: "sy_items grown = sy_items t" "sy_scope grown = sy_scope t" by (simp_all add: grown_def)
  have eq: "(b, t') = (if n = [] \<or> n \<in> symbols_at t (sy_scope t) then (False, t)
    else if length (sy_items t) = sy_capacity t \<and> \<not> mem 0 then (False, t)
    else if \<not> mem 1 then (False, grown)
    else (True, grown\<lparr>sy_items := sy_items grown @ [\<lparr>ms_name = n, ms_scope = sy_scope grown\<rparr>]\<rparr>))"
    unfolding add [symmetric] symbols_declared_def milena_symbols_declare_def here option.sel Let_def grown_def [symmetric]
    by simp
  consider "n = [] \<or> n \<in> symbols_at t (sy_scope t)" "b = False" "t' = t"
    | "n \<noteq> []" "n \<notin> symbols_at t (sy_scope t)" "b = False" "\<not> (mem 0 \<and> mem 1)" "sy_items t' = sy_items t" "sy_scope t' = sy_scope t"
    | "n \<noteq> []" "n \<notin> symbols_at t (sy_scope t)" "b = True"
      "sy_items t' = sy_items t @ [\<lparr>ms_name = n, ms_scope = sy_scope t\<rparr>]" "sy_scope t' = sy_scope t"
  proof (cases "n = [] \<or> n \<in> symbols_at t (sy_scope t)")
    case False
    then show ?thesis using eq g that(2,3) by (cases "length (sy_items t) = sy_capacity t \<and> \<not> mem 0"; cases "mem 1") auto
  qed (use eq that(1) in simp)
  then show ?thesis
  proof cases
    case 1
    then show ?thesis using ok symbols_names_hd [OF scope] by auto
  next
    case 2
    then have "symbols_names t' = symbols_names t" by (simp add: symbols_names_def symbols_at_def)
    then show ?thesis using 2 ok symbols_names_hd [OF scope] by (auto simp: symbols_ok_def)
  next
    case 3
    have "symbols_ok t'" using ok 3 by (auto simp: symbols_ok_def sorted_append list_all_iff)
    moreover have "symbols_at t' (sy_scope t) = insert n (symbols_at t (sy_scope t))" using 3(4) by (force simp: symbols_at_def)
    moreover have "map (symbols_at t') (rev [0..sy_scope t - 1]) = map (symbols_at t) (rev [0..sy_scope t - 1])"
      by (rule symbols_names_other) (auto simp: symbols_at_def 3)
    ultimately show ?thesis using 3 symbols_names_hd [of t] symbols_names_hd [of t'] scope by simp
  qed
qed

lemma symbols_exists: "symbols_ok t \<Longrightarrow> milena_symbols_exists t (Some n) \<longleftrightarrow> n \<in> \<Union> (set (symbols_names t))"
  by (auto simp: milena_symbols_exists_def symbols_names_def symbols_at_def symbols_ok_def list_ex_iff list_all_iff)

interpretation flat: scope_table True symbols_names symbols_ok sy_scope "\<lambda>_. milena_symbols_enter_scope" milena_symbols_leave_scope
  symbols_declared "\<lambda>n t. milena_symbols_exists t (Some n)"
proof (unfold_locales, goal_cases)
  case (1 t mem)
  then show ?case using symbols_enter by simp
next
  case (2 t)
  then show ?case using symbols_leave by simp
next
  case (3 t m n b t')
  then show ?case by (rule symbols_declare)
next
  case (4 t n)
  then show ?case by (rule symbols_exists)
qed

section \<open>symbol.c\<close>

datatype symbol_type = SYMBOL_DATASET | SYMBOL_VARIABLE | SYMBOL_FUNCTION | SYMBOL_COLUMN | SYMBOL_METRIC

record symbol =
  so_name :: string
  so_type :: symbol_type

text \<open>A table is the list of its tables along \<open>parent\<close>; the empty list is the null pointer.\<close>

record symbol_frame =
  sf_symbols :: "symbol list"
  sf_capacity :: nat
  sf_level :: int

definition symbol_table_create :: symbol_frame where
  "symbol_table_create = \<lparr>sf_symbols = [], sf_capacity = 0, sf_level = 0\<rparr>"

definition symbol_create :: "bool \<Rightarrow> bool \<Rightarrow> string \<Rightarrow> symbol_type \<Rightarrow> symbol option" where
  "symbol_create alloc_symbol alloc_name n t = (if \<not> alloc_symbol \<or> \<not> alloc_name then None else Some \<lparr>so_name = n, so_type = t\<rparr>)"

definition symbol_table_lookup_local :: "symbol_frame \<Rightarrow> string \<Rightarrow> symbol option" where
  "symbol_table_lookup_local f n = find (\<lambda>x. so_name x = n) (sf_symbols f)"

fun symbol_table_lookup :: "symbol_frame list \<Rightarrow> string \<Rightarrow> symbol option" where
  "symbol_table_lookup [] n = None"
| "symbol_table_lookup (f # fs) n = (case symbol_table_lookup_local f n of Some x \<Rightarrow> Some x | None \<Rightarrow> symbol_table_lookup fs n)"

text \<open>The symbol is the null pointer when it could not be made.\<close>

definition symbol_table_insert :: "bool \<Rightarrow> symbol option \<Rightarrow> symbol_frame list \<Rightarrow> bool \<times> symbol_frame list" where
  "symbol_table_insert alloc entry fs =
     (case (fs, entry) of
        (f # fs, Some x) \<Rightarrow>
          if symbol_table_lookup_local f (so_name x) \<noteq> None then (False, f # fs)
          else if length (sf_symbols f) \<ge> sf_capacity f \<and> \<not> alloc then (False, f # fs)
          else
            let f = (if length (sf_symbols f) \<ge> sf_capacity f
                     then f\<lparr>sf_capacity := (if sf_capacity f = 0 then 16 else sf_capacity f * 2)\<rparr> else f)
            in (True, f\<lparr>sf_symbols := sf_symbols f @ [x]\<rparr> # fs)
      | _ \<Rightarrow> (False, fs))"

definition symbol_table_enter_scope :: "bool \<Rightarrow> symbol_frame list \<Rightarrow> symbol_frame list option" where
  "symbol_table_enter_scope alloc fs =
     (if \<not> alloc then Some fs
      else case fs of
             [] \<Rightarrow> Some [symbol_table_create\<lparr>sf_level := 1\<rparr>]
           | f # _ \<Rightarrow> if sf_level f \<ge> scope_max then None else Some (symbol_table_create\<lparr>sf_level := sf_level f + 1\<rparr> # fs))"

definition symbol_table_exit_scope :: "symbol_frame list \<Rightarrow> symbol_frame list" where
  "symbol_table_exit_scope fs = tl fs"

definition frame_names :: "symbol_frame list \<Rightarrow> string set list" where
  "frame_names = map (\<lambda>f. so_name ` set (sf_symbols f))"

text \<open>The levels never grow from a table to its parent.\<close>

definition frames_ok :: "symbol_frame list \<Rightarrow> bool" where
  "frames_ok fs \<longleftrightarrow> sorted (map sf_level (rev fs)) \<and> list_all (\<lambda>f. 0 \<le> sf_level f) fs"

definition frames_depth :: "symbol_frame list \<Rightarrow> int" where
  "frames_depth fs = (case fs of [] \<Rightarrow> 0 | f # _ \<Rightarrow> sf_level f)"

text \<open>A declaration is made as the analyzer and the interpreter make it: a new symbol is inserted.\<close>

definition frames_declared :: "(nat \<Rightarrow> bool) \<Rightarrow> string \<Rightarrow> symbol_frame list \<Rightarrow> bool \<times> symbol_frame list" where
  "frames_declared mem n fs = symbol_table_insert (mem 2) (symbol_create (mem 0) (mem 1) n SYMBOL_VARIABLE) fs"

lemma lookup_local: "symbol_table_lookup_local f n = None \<longleftrightarrow> n \<notin> so_name ` set (sf_symbols f)"
  by (auto simp: symbol_table_lookup_local_def find_None_iff)

lemma lookup_chain: "symbol_table_lookup fs n \<noteq> None \<longleftrightarrow> n \<in> \<Union> (set (frame_names fs))"
proof (induction fs)
  case (Cons f fs)
  then show ?case using lookup_local [of f n] by (cases "symbol_table_lookup_local f n") (auto simp: frame_names_def)
qed (simp add: frame_names_def)

lemma frames_enter:
  assumes "frames_ok fs" and "frames_depth fs < scope_max"
  shows "\<exists>fs'. symbol_table_enter_scope mem fs = Some fs' \<and> frames_ok fs' \<and> frames_depth fs' \<le> frames_depth fs + 1 \<and>
    frame_names fs' = (if mem then {} # frame_names fs else frame_names fs)"
  using assms
  by (cases fs) (force simp: symbol_table_enter_scope_def symbol_table_create_def frame_names_def frames_ok_def frames_depth_def sorted_append)+

lemma frames_leave:
  assumes "frames_ok fs"
  shows "frames_ok (symbol_table_exit_scope fs) \<and> frames_depth (symbol_table_exit_scope fs) \<le> frames_depth fs \<and>
    frame_names (symbol_table_exit_scope fs) = tl (frame_names fs)"
proof (cases fs)
  case (Cons f rest)
  then show ?thesis
    using assms by (cases rest) (auto simp: symbol_table_exit_scope_def frame_names_def frames_ok_def frames_depth_def sorted_append)
qed (simp add: symbol_table_exit_scope_def frame_names_def frames_ok_def)

lemma frames_declare:
  assumes "frames_ok fs" and "frames_declared mem n fs = (b, fs')"
  shows "frames_ok fs' \<and> frames_depth fs' \<le> frames_depth fs \<and>
    (b, frame_names fs') \<in> set (scope_results False (Declare_name mem n) (frame_names fs))"
proof (cases fs)
  case (Cons f rest)
  then show ?thesis
    using assms lookup_local [of f n]
    by (auto simp: frames_declared_def symbol_create_def symbol_table_insert_def frame_names_def frames_ok_def frames_depth_def
        Let_def split: if_splits)
qed (use assms in \<open>simp add: frames_declared_def symbol_table_insert_def frame_names_def\<close>)

interpretation chain: scope_table False frame_names frames_ok frames_depth symbol_table_enter_scope symbol_table_exit_scope
  frames_declared "\<lambda>n fs. symbol_table_lookup fs n \<noteq> None"
proof (unfold_locales, goal_cases)
  case (1 fs mem)
  then show ?case using frames_enter by simp
next
  case (2 fs)
  then show ?case using frames_leave by simp
next
  case (3 fs m n b fs')
  then show ?case by (rule frames_declare)
next
  case (4 fs n)
  show ?case by (rule lookup_chain)
qed

text \<open>
  C36.  Both tables of names answer every program of operations that is too short to exhaust an
  \<open>int\<close> as a stack of sets of names does: a name can be declared once per scope, is visible from its
  scope inwards, and is gone when its scope is left.  Only when a request for memory is refused may
  a declaration fail besides, and then it adds nothing.  The flat table never closes its outermost
  scope and refuses the empty name; the chain closes every scope, has no names and takes none without
  one, and stays in the old scope when there is no memory for a new one.
\<close>

theorem scopes_refine:
  assumes "int (length program) \<le> scope_max"
  shows "(\<exists>answers. scope_run (\<lambda>_. milena_symbols_enter_scope) milena_symbols_leave_scope symbols_declared
        (\<lambda>n t. milena_symbols_exists t (Some n)) program milena_symbols_init = Some answers \<and>
      scope_trace True program answers [{}]) \<and>
    (\<exists>answers. scope_run symbol_table_enter_scope symbol_table_exit_scope frames_declared
        (\<lambda>n fs. symbol_table_lookup fs n \<noteq> None) program [symbol_table_create] = Some answers \<and>
      scope_trace False program answers [{}])"
proof
  have "symbols_ok milena_symbols_init" "symbols_names milena_symbols_init = [{}]" "sy_scope milena_symbols_init = 0"
    by (simp_all add: symbols_ok_def milena_symbols_init_def symbols_names_def symbols_at_def)
  then show "\<exists>answers. scope_run (\<lambda>_. milena_symbols_enter_scope) milena_symbols_leave_scope symbols_declared
        (\<lambda>n t. milena_symbols_exists t (Some n)) program milena_symbols_init = Some answers \<and>
      scope_trace True program answers [{}]"
    using flat.run_law [of milena_symbols_init program] assms by simp
  have "frames_ok [symbol_table_create]" "frame_names [symbol_table_create] = [{}]" "frames_depth [symbol_table_create] = 0"
    by (simp_all add: frames_ok_def frame_names_def frames_depth_def symbol_table_create_def)
  then show "\<exists>answers. scope_run symbol_table_enter_scope symbol_table_exit_scope frames_declared
        (\<lambda>n fs. symbol_table_lookup fs n \<noteq> None) program [symbol_table_create] = Some answers \<and>
      scope_trace False program answers [{}]"
    using chain.run_law [of "[symbol_table_create]" program] assms by simp
qed

text \<open>A name declared twice, shadowed, left behind, and asked for after the outermost scope is left.\<close>

abbreviation plenty :: "nat \<Rightarrow> bool" where "plenty \<equiv> \<lambda>_. True"

lemma scopes_refine_witness:
  "scope_run (\<lambda>_. milena_symbols_enter_scope) milena_symbols_leave_scope symbols_declared (\<lambda>n t. milena_symbols_exists t (Some n))
      [Declare_name plenty ''a'', Declare_name plenty ''a'', Enter_scope True, Declare_name plenty ''a'', Declare_name plenty ''b'',
       Leave_scope, Ask_name ''b'', Leave_scope, Ask_name ''a''] milena_symbols_init =
     Some [True, False, True, True, True, True, False, True, True] \<and>
   scope_run symbol_table_enter_scope symbol_table_exit_scope frames_declared (\<lambda>n fs. symbol_table_lookup fs n \<noteq> None)
      [Declare_name plenty ''a'', Declare_name plenty ''a'', Enter_scope True, Declare_name plenty ''a'', Declare_name plenty ''b'',
       Leave_scope, Ask_name ''b'', Leave_scope, Ask_name ''a''] [symbol_table_create] =
     Some [True, False, True, True, True, True, False, True, False]"
  using scopes_refine [of "[Declare_name plenty ''a'', Declare_name plenty ''a'', Enter_scope True, Declare_name plenty ''a'',
      Declare_name plenty ''b'', Leave_scope, Ask_name ''b'', Leave_scope, Ask_name ''a'']"]
  by (auto simp: scope_max_def)

text \<open>When memory runs out a declaration adds no name.\<close>

lemma declare_memory:
  "milena_symbols_declare alloc_table alloc_name n t = (MILENA_ERR_MEMORY, t') \<Longrightarrow> symbols_names t' = symbols_names t"
  by (auto simp: milena_symbols_declare_def Let_def symbols_names_def symbols_at_def split: if_splits)

text \<open>
  A scope that could not be opened is not reported, so the caller's exit from it closes the scope
  around it: of the outermost table nothing is left.
\<close>

lemma unopened_scope_closes_outer:
  "map_option symbol_table_exit_scope (symbol_table_enter_scope False [f]) = Some []"
  by (simp add: symbol_table_enter_scope_def symbol_table_exit_scope_def)

end
