(* ===== verification/Arena.thy ===== *)
theory Arena
  imports Common
begin

text \<open>
  arena.c and temp_scope.c: a chain of blocks that hand out aligned, zeroed pieces and are freed
  together.

  A pointer into an arena is the number of its block in the chain and an offset.  Offsets and sizes
  are \<open>size_t\<close>, whose sums wrap.  A \<open>memset\<close> that would run past the end of its block is undefined
  behaviour and has the result \<open>Arena_overrun\<close>.  \<open>mem\<close> answers the requests of an
  operation for memory, in order: \<open>Some junk\<close> is memory whose bytes hold whatever they held, and no
  request for more than \<open>PTRDIFF_MAX\<close> bytes succeeds.
\<close>

type_synonym memory = "(nat \<Rightarrow> u8) option"

record arena_block =
  ar_data :: "bytes option"
  ar_capacity :: u64
  ar_used :: u64

datatype arena_result = Arena_null | Arena_at nat nat | Arena_overrun

definition max_align :: u64 where "max_align = 16"

definition ptrdiff_max :: nat where "ptrdiff_max = 9223372036854775807"

definition arena_init :: "memory \<Rightarrow> u64 \<Rightarrow> arena_block option" where
  "arena_init alloc capacity =
     (if capacity = 0 then None
      else case alloc of
             None \<Rightarrow> None
           | Some junk \<Rightarrow>
               if unat capacity > ptrdiff_max then None
               else Some \<lparr>ar_data = Some (map junk [0..<unat capacity]), ar_capacity = capacity, ar_used = 0\<rparr>)"

definition arena_padding :: "arena_block \<Rightarrow> u64" where
  "arena_padding b = (max_align - (ar_used b mod max_align)) mod max_align"

text \<open>The piece of a block with room, as the code finds there is.\<close>

definition arena_take :: "nat \<Rightarrow> u64 \<Rightarrow> arena_block \<Rightarrow> arena_result \<times> arena_block" where
  "arena_take i len b =
     (let start = ar_used b + arena_padding b
      in if unat start + unat len > unat (ar_capacity b) then (Arena_overrun, b\<lparr>ar_used := start + len\<rparr>)
         else (Arena_at i (unat start),
               b\<lparr>ar_used := start + len, ar_data := map_option (poke (unat start) (replicate (unat len) 0)) (ar_data b)\<rparr>))"

definition arena_full :: "u64 \<Rightarrow> arena_block \<Rightarrow> bool" where
  "arena_full len b \<longleftrightarrow> ar_used b + arena_padding b + len > ar_capacity b"

definition arena_next_capacity :: "u64 \<Rightarrow> arena_block \<Rightarrow> u64" where
  "arena_next_capacity len b = (if ar_capacity b * 2 < len then len else ar_capacity b * 2)"

text \<open>The new block is as large as the piece, so the call on it takes the piece at once.\<close>

fun arena_alloc_from :: "(nat \<Rightarrow> memory) \<Rightarrow> nat \<Rightarrow> u64 \<Rightarrow> arena_block list \<Rightarrow> arena_result \<times> arena_block list" where
  "arena_alloc_from mem i len [] = (Arena_null, [])"
| "arena_alloc_from mem i len (b # bs) =
     (if ar_data b = None \<or> len = 0 then (Arena_null, b # bs)
      else if arena_full len b
      then (if bs \<noteq> [] then case arena_alloc_from mem (i + 1) len bs of (r, bs) \<Rightarrow> (r, b # bs)
            else if Option.is_none (mem 0) then (Arena_null, [b])
            else case arena_init (mem 1) (arena_next_capacity len b) of
                   None \<Rightarrow> (Arena_null, [b])
                 | Some new \<Rightarrow> (case arena_take (i + 1) len new of (r, new) \<Rightarrow> (r, [b, new])))
      else case arena_take i len b of (r, b) \<Rightarrow> (r, b # bs))"

definition arena_alloc :: "(nat \<Rightarrow> memory) \<Rightarrow> u64 \<Rightarrow> arena_block list \<Rightarrow> arena_result \<times> arena_block list" where
  "arena_alloc mem len bs = arena_alloc_from mem 0 len bs"

text \<open>The bytes at a pointer, and the effect of a \<open>memcpy\<close> to it.\<close>

definition arena_read :: "arena_block list \<Rightarrow> nat \<Rightarrow> nat \<Rightarrow> nat \<Rightarrow> bytes" where
  "arena_read bs i offset n = peek offset n (the (ar_data (bs ! i)))"

definition arena_write :: "arena_block list \<Rightarrow> nat \<Rightarrow> nat \<Rightarrow> bytes \<Rightarrow> arena_block list" where
  "arena_write bs i offset run = bs[i := (bs ! i)\<lparr>ar_data := map_option (poke offset run) (ar_data (bs ! i))\<rparr>]"

definition arena_strdup :: "(nat \<Rightarrow> memory) \<Rightarrow> bytes \<Rightarrow> arena_block list \<Rightarrow> arena_result \<times> arena_block list" where
  "arena_strdup mem str bs =
     (case arena_alloc mem (of_nat (length str + 1)) bs of
        (Arena_at i offset, bs) \<Rightarrow> (Arena_at i offset, arena_write bs i offset (str @ [0]))
      | r \<Rightarrow> r)"

definition arena_realloc ::
  "(nat \<Rightarrow> memory) \<Rightarrow> (nat \<times> nat) option \<Rightarrow> u64 \<Rightarrow> u64 \<Rightarrow> arena_block list \<Rightarrow> arena_result \<times> arena_block list"
where
  "arena_realloc mem ptr old_size new_size bs =
     (case ptr of
        None \<Rightarrow> arena_alloc mem new_size bs
      | Some (j, at) \<Rightarrow>
          if new_size \<le> old_size then (Arena_at j at, bs)
          else case arena_alloc mem new_size bs of
                 (Arena_at i offset, bs) \<Rightarrow> (Arena_at i offset, arena_write bs i offset (arena_read bs j at (unat old_size)))
               | r \<Rightarrow> r)"

definition arena_destroy :: "arena_block list \<Rightarrow> arena_block list" where
  "arena_destroy bs = (case bs of [] \<Rightarrow> [] | _ \<Rightarrow> [\<lparr>ar_data = None, ar_capacity = 0, ar_used = 0\<rparr>])"

definition arena_reset :: "arena_block list \<Rightarrow> arena_block list" where
  "arena_reset bs = map (\<lambda>b. b\<lparr>ar_used := 0\<rparr>) bs"

fun arena_used :: "arena_block list \<Rightarrow> u64" where
  "arena_used [] = 0"
| "arena_used (b # bs) = ar_used b + arena_used bs"

fun arena_capacity :: "arena_block list \<Rightarrow> u64" where
  "arena_capacity [] = 0"
| "arena_capacity (b # bs) = ar_capacity b + arena_capacity bs"

text \<open>temp_scope.c.\<close>

record temp_scope =
  ts_arena :: "arena_block list"
  ts_active :: bool

definition milena_temp_scope_begin :: "memory \<Rightarrow> u64 \<Rightarrow> temp_scope \<Rightarrow> bool \<times> temp_scope" where
  "milena_temp_scope_begin alloc capacity scope =
     (case arena_init alloc capacity of None \<Rightarrow> (False, scope) | Some b \<Rightarrow> (True, \<lparr>ts_arena = [b], ts_active = True\<rparr>))"

definition milena_temp_scope_alloc :: "(nat \<Rightarrow> memory) \<Rightarrow> u64 \<Rightarrow> temp_scope \<Rightarrow> arena_result \<times> temp_scope" where
  "milena_temp_scope_alloc mem len scope =
     (if \<not> ts_active scope then (Arena_null, scope)
      else case arena_alloc mem len (ts_arena scope) of (r, bs) \<Rightarrow> (r, scope\<lparr>ts_arena := bs\<rparr>))"

definition milena_temp_scope_end :: "temp_scope \<Rightarrow> temp_scope" where
  "milena_temp_scope_end scope =
     (if \<not> ts_active scope then scope else scope\<lparr>ts_arena := arena_destroy (ts_arena scope), ts_active := False\<rparr>)"

section \<open>Pieces do not overlap\<close>

text \<open>
  The pieces handed out so far, with block, offset and size: they are aligned and inside the used
  part of their block, and no two share a byte.
\<close>

type_synonym piece = "nat \<times> nat \<times> nat"

definition disjoint_pieces :: "piece \<Rightarrow> piece \<Rightarrow> bool" where
  "disjoint_pieces p q = (case p of (i, a, n) \<Rightarrow> case q of (j, b, m) \<Rightarrow> i \<noteq> j \<or> a + n \<le> b \<or> b + m \<le> a)"

definition piece_in :: "arena_block list \<Rightarrow> piece \<Rightarrow> bool" where
  "piece_in bs p = (case p of (i, a, n) \<Rightarrow> i < length bs \<and> a mod 16 = 0 \<and> a + n \<le> unat (ar_used (bs ! i)) \<and>
     arena_read bs i a n = replicate n 0)"

definition block_ok :: "arena_block \<Rightarrow> bool" where
  "block_ok b \<longleftrightarrow> (\<exists>data. ar_data b = Some data \<and> length data = unat (ar_capacity b)) \<and> unat (ar_used b) \<le> unat (ar_capacity b) \<and>
     unat (ar_capacity b) \<le> ptrdiff_max"

definition arena_inv :: "arena_block list \<Rightarrow> piece list \<Rightarrow> bool" where
  "arena_inv bs ps \<longleftrightarrow> list_all block_ok bs \<and> list_all (piece_in bs) ps \<and> sorted_wrt disjoint_pieces ps"

text \<open>A program of allocations, each with its size and the answers to its requests, and the pieces it got.\<close>

fun arena_allocs :: "(u64 \<times> (nat \<Rightarrow> memory)) list \<Rightarrow> arena_block list \<Rightarrow> (piece list \<times> arena_block list) option" where
  "arena_allocs [] bs = Some ([], bs)"
| "arena_allocs ((len, mem) # rest) bs =
     (case arena_alloc mem len bs of
        (Arena_overrun, _) \<Rightarrow> None
      | (Arena_null, bs) \<Rightarrow> arena_allocs rest bs
      | (Arena_at i offset, bs) \<Rightarrow> map_option (apfst ((#) (i, offset, unat len))) (arena_allocs rest bs))"

lemma disjoint_commute: "disjoint_pieces p q \<longleftrightarrow> disjoint_pieces q p"
  by (auto simp: disjoint_pieces_def)

lemma no_wrap: "unat (x :: u64) + unat y \<le> 18446744073709551615 \<Longrightarrow> unat (x + y) = unat x + unat y"
  by (simp add: unat_word_ariths)

lemma padding_aligns:
  assumes "unat (ar_used b) \<le> ptrdiff_max"
  shows "unat (ar_used b + arena_padding b) = unat (ar_used b) + unat (arena_padding b)"
    and "unat (arena_padding b) \<le> 15" and "(unat (ar_used b) + unat (arena_padding b)) mod 16 = 0"
proof -
  have m: "unat (ar_used b mod max_align) = unat (ar_used b) mod 16" by (simp add: max_align_def unat_mod)
  then have le: "ar_used b mod max_align \<le> max_align" by (simp add: word_le_nat_alt max_align_def)
  have p: "unat (arena_padding b) = (16 - unat (ar_used b) mod 16) mod 16"
    using m unat_sub [OF le] by (simp add: arena_padding_def unat_mod max_align_def)
  then show le15: "unat (arena_padding b) \<le> 15" by simp
  show "unat (ar_used b + arena_padding b) = unat (ar_used b) + unat (arena_padding b)"
    by (rule no_wrap) (use assms le15 in \<open>simp add: ptrdiff_max_def\<close>)
  show "(unat (ar_used b) + unat (arena_padding b)) mod 16 = 0" proof -
    have "(unat (ar_used b) + (16 - unat (ar_used b) mod 16) mod 16) mod 16 = (unat (ar_used b) mod 16 + (16 - unat (ar_used b) mod 16)) mod 16"
      by (metis mod_add_eq mod_add_left_eq mod_add_right_eq)
    also have "unat (ar_used b) mod 16 + (16 - unat (ar_used b) mod 16) = 16" by (simp add: mod_le_divisor)
    finally show ?thesis unfolding p by simp
  qed
qed

definition size_small :: "u64 \<Rightarrow> bool" where
  "size_small len \<longleftrightarrow> unat len + 16 \<le> ptrdiff_max"

lemma take_fits:
  assumes "block_ok b" and "size_small len" and "\<not> arena_full len b"
  shows "\<exists>off b'. arena_take i len b = (Arena_at i off, b') \<and> block_ok b' \<and> off mod 16 = 0 \<and> unat (ar_used b) \<le> off \<and>
    unat (ar_used b') = off + unat len \<and> off + unat len \<le> unat (ar_capacity b) \<and>
    ar_data b' = Some (poke off (replicate (unat len) 0) (the (ar_data b)))"
proof -
  let ?off = "unat (ar_used b + arena_padding b)"
  have used: "unat (ar_used b) \<le> ptrdiff_max" using assms(1) by (simp add: block_ok_def)
  note p = padding_aligns [OF used]
  have sum: "unat (ar_used b + arena_padding b + len) = ?off + unat len"
    by (rule no_wrap) (use p used assms(2) in \<open>simp add: size_small_def ptrdiff_max_def\<close>)
  then have fit: "?off + unat len \<le> unat (ar_capacity b)"
    using assms(3) by (simp add: arena_full_def word_less_nat_alt not_less)
  then show ?thesis
    using assms(1) p sum by (auto simp: arena_take_def Let_def block_ok_def)
qed

text \<open>The chain after an allocation: one block of the chain, or of the chain with a new block, has changed.\<close>

definition arena_step :: "nat \<Rightarrow> u64 \<Rightarrow> arena_block list \<Rightarrow> arena_block list \<Rightarrow> arena_result \<Rightarrow> bool" where
  "arena_step i len bs bs' r \<longleftrightarrow> r = Arena_null \<and> bs' = bs \<or>
     (\<exists>old k off b'. (old = bs \<or> (\<exists>new. old = bs @ [new] \<and> block_ok new)) \<and> k < length old \<and> bs' = old[k := b'] \<and> r = Arena_at (i + k) off \<and>
        block_ok b' \<and> off mod 16 = 0 \<and> unat (ar_used (old ! k)) \<le> off \<and> unat (ar_used b') = off + unat len \<and>
        off + unat len \<le> unat (ar_capacity (old ! k)) \<and> ar_data b' = Some (poke off (replicate (unat len) 0) (the (ar_data (old ! k)))))"

lemma arena_stepE:
  assumes "arena_step i len bs bs' r"
  obtains "r = Arena_null" "bs' = bs"
    | old k off b' where "old = bs \<or> (\<exists>new. old = bs @ [new] \<and> block_ok new)" "k < length old" "bs' = old[k := b']" "r = Arena_at (i + k) off"
      "block_ok b'" "off mod 16 = 0" "unat (ar_used (old ! k)) \<le> off" "unat (ar_used b') = off + unat len"
      "off + unat len \<le> unat (ar_capacity (old ! k))" "ar_data b' = Some (poke off (replicate (unat len) 0) (the (ar_data (old ! k))))"
  using assms unfolding arena_step_def by metis

lemma init_block:
  assumes "arena_init alloc capacity = Some b"
  shows "block_ok b \<and> ar_used b = 0 \<and> ar_capacity b = capacity"
  using assms by (auto simp: arena_init_def block_ok_def split: if_splits option.splits)

lemma alloc_from_step:
  assumes "list_all block_ok bs" and "size_small len" and "arena_alloc_from mem i len bs = (r, bs')"
  shows "arena_step i len bs bs' r"
  using assms
proof (induction mem i len bs arbitrary: r bs' rule: arena_alloc_from.induct)
  case (1 mem i len)
  then show ?case by (simp add: arena_step_def)
next
  case (2 mem i len b bs)
  have b: "block_ok b" using "2.prems" by simp
  consider "ar_data b = None \<or> len = 0" | "\<not> (ar_data b = None \<or> len = 0)" "\<not> arena_full len b"
    | "\<not> (ar_data b = None \<or> len = 0)" "arena_full len b" "bs \<noteq> []"
    | "\<not> (ar_data b = None \<or> len = 0)" "arena_full len b" "bs = []" by blast
  then show ?case
  proof cases
    case 1
    then show ?thesis using "2.prems" by (auto simp: arena_step_def)
  next
    case 2
    obtain off b' where "arena_take i len b = (Arena_at i off, b')" and t: "block_ok b'" "off mod 16 = 0" "unat (ar_used b) \<le> off"
      "unat (ar_used b') = off + unat len" "off + unat len \<le> unat (ar_capacity b)"
      "ar_data b' = Some (poke off (replicate (unat len) 0) (the (ar_data b)))"
      using take_fits [where i = i, OF b "2.prems"(2) 2(2)] by metis
    then have "r = Arena_at i off" "bs' = b' # bs" using "2.prems"(3) 2 by auto
    then show ?thesis unfolding arena_step_def
      by (intro disjI2 exI [of _ "b # bs"] exI [of _ 0] exI [of _ off] exI [of _ b']) (use t in simp)
  next
    case 3
    obtain r1 bs1 where rec: "arena_alloc_from mem (i + 1) len bs = (r1, bs1)" by fastforce
    then have eq: "r = r1" "bs' = b # bs1" using "2.prems"(3) 3 by auto
    have "arena_step (i + 1) len bs bs1 r1" using "2.IH" 3 "2.prems" rec by simp
    then show ?thesis
    proof (cases rule: arena_stepE)
      case 1
      then show ?thesis using eq by (simp add: arena_step_def)
    next
      case (2 old k off b')
      show ?thesis unfolding arena_step_def eq
        by (intro disjI2 exI [of _ "b # old"] exI [of _ "Suc k"] exI [of _ off] exI [of _ b']) (use 2 in auto)
    qed
  next
    case 4
    show ?thesis
    proof (cases "\<not> Option.is_none (mem 0) \<and> arena_init (mem 1) (arena_next_capacity len b) \<noteq> None")
      case False
      then show ?thesis using "2.prems"(3) 4 by (auto simp: arena_step_def split: if_splits option.splits)
    next
      case True
      then obtain new where new: "arena_init (mem 1) (arena_next_capacity len b) = Some new" by blast
      note n = init_block [OF new]
      have "len \<le> ar_capacity new" using n by (auto simp: arena_next_capacity_def)
      then have "\<not> arena_full len new" using n by (simp add: arena_full_def arena_padding_def max_align_def)
      from take_fits [where i = "i + 1", OF conjunct1 [OF n] "2.prems"(2) this] obtain off b' where take: "arena_take (i + 1) len new = (Arena_at (i + 1) off, b')"
        and t: "block_ok b'" "off mod 16 = 0" "unat (ar_used new) \<le> off" "unat (ar_used b') = off + unat len"
          "off + unat len \<le> unat (ar_capacity new)" "ar_data b' = Some (poke off (replicate (unat len) 0) (the (ar_data new)))" by metis
      then have "r = Arena_at (i + 1) off" "bs' = [b, b']" using "2.prems"(3) 4 True new by auto
      then show ?thesis unfolding arena_step_def
        by (intro disjI2 exI [of _ "[b, new]"] exI [of _ 1] exI [of _ off] exI [of _ b']) (use t n 4 in auto)
    qed
  qed
qed

lemma piece_old:
  assumes "piece_in old p" and "k < length old" and "list_all block_ok old"
    and "unat (ar_used (old ! k)) \<le> off" and "unat (ar_used b') = off + n" and "off + n \<le> unat (ar_capacity (old ! k))"
    and "ar_data b' = Some (poke off (replicate n 0) (the (ar_data (old ! k))))"
  shows "piece_in (old[k := b']) p"
proof -
  obtain j a m where p: "p = (j, a, m)" by (cases p) auto
  show ?thesis
  proof (cases "j = k")
    case True
    obtain data where d: "ar_data (old ! k) = Some data" "length data = unat (ar_capacity (old ! k))"
      using assms(2,3) by (force simp: list_all_length block_ok_def)
    have "a + m \<le> off" using assms(1,4) p True by (simp add: piece_in_def)
    then have "peek a m (poke off (replicate n 0) data) = peek a m data"
      using d assms(6) by (simp add: peek_def poke_def drop_take min_absorb1)
    then show ?thesis using assms p True d by (simp add: piece_in_def arena_read_def)
  next
    case False
    then show ?thesis using assms(1) p by (simp add: piece_in_def arena_read_def)
  qed
qed

lemma inv_step:
  assumes "arena_inv bs ps" and "size_small len" and "arena_alloc mem len bs = (r, bs')"
  shows "(r = Arena_null \<and> arena_inv bs' ps) \<or> (\<exists>i off. r = Arena_at i off \<and> arena_inv bs' ((i, off, unat len) # ps))"
proof -
  have "arena_step 0 len bs bs' r"
    using alloc_from_step [of bs len mem 0] assms by (simp add: arena_inv_def arena_alloc_def)
  then show ?thesis
  proof (cases rule: arena_stepE)
    case 1
    then show ?thesis using assms(1) by simp
  next
    case (2 old k off b')
    note old = 2(1) and k = 2(2) and bs' = 2(3) and r = 2(4) and b' = 2(5-10)
    have "list_all block_ok old" "list_all (piece_in old) ps"
      using old assms(1) by (auto simp: arena_inv_def list_all_iff piece_in_def arena_read_def nth_append)
    note olds = this
    have each: "piece_in bs' p" if "p \<in> set ps" for p
      unfolding bs' by (rule piece_old [OF _ k olds(1) b'(3,4,5,6)]) (use olds(2) that in \<open>simp add: list_all_iff\<close>)
    obtain data where d: "ar_data (old ! k) = Some data" "length data = unat (ar_capacity (old ! k))"
      using k olds(1) by (force simp: list_all_length block_ok_def)
    have "piece_in bs' (k, off, unat len)"
      using b' k d by (simp add: piece_in_def bs' arena_read_def peek_def poke_def)
    moreover have "disjoint_pieces (k, off, unat len) p" if "p \<in> set ps" for p
    proof -
      obtain j a m where p: "p = (j, a, m)" by (cases p) auto
      then have "piece_in old (j, a, m)" using olds(2) that by (auto simp: list_all_iff)
      then show ?thesis using b'(3) p by (auto simp: piece_in_def disjoint_pieces_def)
    qed
    moreover have "list_all block_ok bs'" using olds(1) b'(1) k by (simp add: bs' list_all_length nth_list_update)
    ultimately have "arena_inv bs' ((k, off, unat len) # ps)" using assms(1) each by (auto simp: arena_inv_def list_all_iff)
    then show ?thesis using r by auto
  qed
qed

lemma allocs_inv:
  assumes "list_all (\<lambda>(len, mem). size_small len) program" and "arena_inv bs ps"
  shows "\<exists>new bs'. arena_allocs program bs = Some (new, bs') \<and> arena_inv bs' (new @ ps)"
  using assms
proof (induction program arbitrary: bs ps)
  case (Cons x program)
  obtain len mem where x: "x = (len, mem)" by (cases x) auto
  obtain r bs1 where a: "arena_alloc mem len bs = (r, bs1)" by fastforce
  from inv_step [OF Cons.prems(2) _ a] Cons.prems(1) x
  consider "r = Arena_null" "arena_inv bs1 ps" | i off where "r = Arena_at i off" "arena_inv bs1 ((i, off, unat len) # ps)" by auto
  then show ?case
  proof cases
    case 1
    then show ?thesis using Cons x a by auto
  next
    case (2 i off)
    with Cons.IH [of bs1 "(i, off, unat len) # ps"] Cons.prems(1) obtain new bs'
      where n: "arena_allocs program bs1 = Some (new, bs')" "arena_inv bs' (new @ (i, off, unat len) # ps)" by auto
    have "arena_inv bs' (((i, off, unat len) # new) @ ps)"
      using n(2) disjoint_commute by (auto simp: arena_inv_def sorted_wrt_append)
    then show ?thesis using n x a 2 by auto
  qed
qed simp

text \<open>
  C37.  Whatever an arena is asked for, and whichever requests for memory fail: as long as no size is
  within 16 bytes of \<open>PTRDIFF_MAX\<close> or above, nothing is written past a block, and the pieces handed
  out are aligned, lie in their blocks, share no byte and are zeroed, whatever the memory held before.
\<close>

theorem arena_pieces_disjoint:
  assumes "arena_init alloc capacity = Some b" and "list_all (\<lambda>(len, mem). unat len + 16 \<le> ptrdiff_max) program"
  shows "\<exists>ps bs. arena_allocs program [b] = Some (ps, bs) \<and> list_all (piece_in bs) ps \<and> sorted_wrt disjoint_pieces ps"
proof -
  have "arena_inv [b] []" using init_block [OF assms(1)] by (simp add: arena_inv_def)
  then show ?thesis using allocs_inv [of program "[b]" "[]"] assms(2) by (auto simp: size_small_def arena_inv_def)
qed

definition dirty :: memory where "dirty = Some (\<lambda>i. 0xAA)"

definition small_block :: arena_block where
  "small_block = the (arena_init dirty 64)"

lemma arena_pieces_disjoint_witness:
  "\<exists>ps bs. arena_allocs [(40, \<lambda>k. dirty), (30, \<lambda>k. dirty), (8, \<lambda>k. None)] [small_block] = Some (ps, bs) \<and>
    list_all (piece_in bs) ps \<and> sorted_wrt disjoint_pieces ps"
proof -
  have "arena_init dirty 64 = Some small_block" by (simp add: small_block_def arena_init_def dirty_def ptrdiff_max_def)
  from arena_pieces_disjoint [OF this, of "[(40, \<lambda>k. dirty), (30, \<lambda>k. dirty), (8, \<lambda>k. None)]"] show ?thesis
    by (simp add: ptrdiff_max_def)
qed

text \<open>
  The bound on sizes is needed: the sum \<open>used + padding + size\<close> wraps, and a size close to
  \<open>SIZE_MAX\<close> is granted and cleared past the end of its block.
\<close>

lemma arena_size_wraps: "fst (arena_alloc mem (- 8) [small_block\<lparr>ar_used := 8\<rparr>]) = Arena_overrun"
  by (simp add: arena_alloc_def small_block_def arena_init_def dirty_def ptrdiff_max_def arena_full_def arena_padding_def max_align_def arena_take_def Let_def)

end
