(* ===== verification/ObjectHeap.thy ===== *)
theory ObjectHeap
  imports Common
begin

text \<open>
  gc.c: the list of tracked objects of the virtual machine, newest first.  An address is the number
  the allocator gave; an object's bytes do not matter here.  \<open>None\<close> for an allocation is its failure.
\<close>

record gc_object =
  ob_marked :: bool
  ob_size :: nat
  ob_data :: nat

record gc =
  gc_objects :: "gc_object list"
  gc_object_count :: nat
  gc_max_objects :: nat
  gc_enabled :: bool

definition gc_create :: gc where
  "gc_create = \<lparr>gc_objects = [], gc_object_count = 0, gc_max_objects = 1000, gc_enabled = True\<rparr>"

text \<open>The addresses freed with the collector.\<close>

definition gc_destroy :: "gc \<Rightarrow> nat list" where
  "gc_destroy g = map ob_data (gc_objects g)"

fun mark_first :: "nat \<Rightarrow> gc_object list \<Rightarrow> gc_object list" where
  "mark_first ptr [] = []"
| "mark_first ptr (x # xs) = (if ob_data x = ptr then x\<lparr>ob_marked := True\<rparr> # xs else x # mark_first ptr xs)"

definition gc_mark :: "nat option \<Rightarrow> gc \<Rightarrow> gc" where
  "gc_mark ptr g = (case ptr of None \<Rightarrow> g | Some ptr \<Rightarrow> g\<lparr>gc_objects := mark_first ptr (gc_objects g)\<rparr>)"

text \<open>The objects kept, unmarked again, and the addresses freed.\<close>

fun sweep :: "gc_object list \<Rightarrow> gc_object list \<times> nat list" where
  "sweep [] = ([], [])"
| "sweep (x # xs) = (case sweep xs of (kept, freed) \<Rightarrow>
     if \<not> ob_marked x then (kept, ob_data x # freed) else (x\<lparr>ob_marked := False\<rparr> # kept, freed))"

definition gc_sweep :: "gc \<Rightarrow> gc \<times> nat list" where
  "gc_sweep g = (case sweep (gc_objects g) of (kept, freed) \<Rightarrow>
     (g\<lparr>gc_objects := kept, gc_object_count := gc_object_count g - length freed\<rparr>, freed))"

definition gc_collect :: "gc \<Rightarrow> gc \<times> nat list" where
  "gc_collect g = (if \<not> gc_enabled g then (g, []) else gc_sweep g)"

definition gc_alloc :: "bool \<Rightarrow> nat option \<Rightarrow> nat \<Rightarrow> gc \<Rightarrow> nat option \<times> gc \<times> nat list" where
  "gc_alloc alloc_object address len g =
     (if \<not> gc_enabled g then (address, g, [])
      else case (if gc_object_count g \<ge> gc_max_objects g then gc_collect g else (g, [])) of (g, freed) \<Rightarrow>
        if \<not> alloc_object then (None, g, freed)
        else case address of
               None \<Rightarrow> (None, g, freed)
             | Some a \<Rightarrow> (Some a, g\<lparr>gc_objects := \<lparr>ob_marked = False, ob_size = len, ob_data = a\<rparr> # gc_objects g,
                                     gc_object_count := gc_object_count g + 1\<rparr>, freed))"

definition gc_enable :: "gc \<Rightarrow> gc" where "gc_enable g = g\<lparr>gc_enabled := True\<rparr>"
definition gc_disable :: "gc \<Rightarrow> gc" where "gc_disable g = g\<lparr>gc_enabled := False\<rparr>"

lemma sweep_parts:
  "sweep xs = (map (\<lambda>x. x\<lparr>ob_marked := False\<rparr>) (filter ob_marked xs), map ob_data (filter (\<lambda>x. \<not> ob_marked x) xs))"
  by (induction xs) auto

lemma sweep_length: "sweep xs = (kept, freed) \<Longrightarrow> length kept + length freed = length xs"
  by (simp add: sweep_parts) (metis sum_length_filter_compl length_map)

text \<open>Every operation keeps the count of the objects.\<close>

lemma gc_count:
  assumes "gc_object_count g = length (gc_objects g)"
  shows "gc_object_count (fst (gc_sweep g)) = length (gc_objects (fst (gc_sweep g)))"
    and "gc_object_count (gc_mark ptr g) = length (gc_objects (gc_mark ptr g))"
    and "gc_alloc alloc address len g = (p, g', freed) \<Longrightarrow> gc_object_count g' = length (gc_objects g')"
proof -
  have s: "gc_object_count (fst (gc_sweep h)) = length (gc_objects (fst (gc_sweep h)))" if "gc_object_count h = length (gc_objects h)" for h
    using that sweep_length [of "gc_objects h"] by (auto simp: gc_sweep_def split: prod.splits)
  show "gc_object_count (fst (gc_sweep g)) = length (gc_objects (fst (gc_sweep g)))" by (rule s [OF assms])
  have "length (mark_first ptr xs) = length xs" for ptr xs by (induction xs) auto
  then show "gc_object_count (gc_mark ptr g) = length (gc_objects (gc_mark ptr g))"
    using assms by (auto simp: gc_mark_def split: option.splits)
  show "gc_alloc alloc address len g = (p, g', freed) \<Longrightarrow> gc_object_count g' = length (gc_objects g')"
    using assms s [OF assms] by (auto simp: gc_alloc_def gc_collect_def split: if_splits option.splits prod.splits)
qed

text \<open>A collection frees exactly the objects that were not marked since the last one.\<close>

lemma gc_sweep_exact:
  "snd (gc_sweep g) = map ob_data (filter (\<lambda>x. \<not> ob_marked x) (gc_objects g)) \<and>
   map ob_data (gc_objects (fst (gc_sweep g))) = map ob_data (filter ob_marked (gc_objects g))"
  by (simp add: gc_sweep_def sweep_parts o_def)

text \<open>
  Nothing marks objects before the collection that an allocation starts: at the threshold an
  allocation frees every object that its owner has not just marked, in use or not.
\<close>

lemma gc_alloc_frees_live:
  assumes "gc_enabled g" and "gc_object_count g \<ge> gc_max_objects g" and "list_all (\<lambda>x. \<not> ob_marked x) (gc_objects g)"
  shows "snd (snd (gc_alloc True (Some a) len g)) = map ob_data (gc_objects g)"
proof -
  have "filter (\<lambda>x. \<not> ob_marked x) (gc_objects g) = gc_objects g" using assms(3) by (simp add: list_all_iff)
  then show ?thesis using assms(1,2) gc_sweep_exact [of g] by (auto simp: gc_alloc_def gc_collect_def split: prod.splits)
qed

end
