(* ===== verification/SchemaTable.thy ===== *)
theory SchemaTable
  imports Common
begin

text \<open>
  schema.c: the variables of an analysis with their types and roles, in order of declaration.  An
  index is returned as a C \<open>int\<close>, so it is read as a signed 32-bit word.
\<close>

datatype variable_type = MILENA_VAR_NUMERIC | MILENA_VAR_CATEGORICAL | MILENA_VAR_BINARY | MILENA_VAR_TEXT
datatype variable_role = MILENA_ROLE_FEATURE | MILENA_ROLE_CATEGORICAL_INPUT | MILENA_ROLE_BINARY_OUTPUT

record variable =
  va_name :: string
  va_type :: variable_type
  va_role :: variable_role

record schema =
  sc_variables :: "variable list"
  sc_capacity :: nat

definition schema_init :: schema where
  "schema_init = \<lparr>sc_variables = [], sc_capacity = 0\<rparr>"

definition schema_destroy :: "schema \<Rightarrow> schema" where
  "schema_destroy s = schema_init"

definition sizeof_variable :: nat where "sizeof_variable = 16"

text \<open>The new capacity, or the error.\<close>

definition schema_grow :: "bool \<Rightarrow> schema \<Rightarrow> MilenaStatus \<times> schema" where
  "schema_grow alloc s =
     (if length (sc_variables s) < sc_capacity s then (MILENA_OK, s)
      else let next_capacity = (if sc_capacity s \<noteq> 0 then sc_capacity s * 2 mod (size_max + 1) else 8)
           in if next_capacity < sc_capacity s \<or> next_capacity > size_max div sizeof_variable then (MILENA_ERR_OVERFLOW, s)
              else if \<not> alloc then (MILENA_ERR_MEMORY, s)
              else (MILENA_OK, s\<lparr>sc_capacity := next_capacity\<rparr>))"

fun name_index :: "string \<Rightarrow> nat \<Rightarrow> variable list \<Rightarrow> nat option" where
  "name_index n i [] = None"
| "name_index n i (v # vs) = (if va_name v = n then Some i else name_index n (i + 1) vs)"

definition schema_index :: "schema \<Rightarrow> string option \<Rightarrow> int" where
  "schema_index s n =
     (case n of None \<Rightarrow> -1
      | Some n \<Rightarrow> case name_index n 0 (sc_variables s) of None \<Rightarrow> -1 | Some i \<Rightarrow> sint (of_nat i :: u32))"

definition schema_add ::
  "bool \<Rightarrow> bool \<Rightarrow> string option \<Rightarrow> variable_type \<Rightarrow> variable_role \<Rightarrow> schema \<Rightarrow> MilenaStatus \<times> schema"
where
  "schema_add alloc_table alloc_name n type role s =
     (if n = None \<or> n = Some [] then (MILENA_ERR_ARGUMENT, s)
      else
        let existing = schema_index s n
        in if existing \<ge> 0
           then (MILENA_OK, s\<lparr>sc_variables := (sc_variables s)[nat existing := (sc_variables s ! nat existing)\<lparr>va_type := type, va_role := role\<rparr>]\<rparr>)
           else case schema_grow alloc_table s of (status, s) \<Rightarrow>
             if status \<noteq> MILENA_OK then (status, s)
             else if \<not> alloc_name then (MILENA_ERR_MEMORY, s)
             else (MILENA_OK, s\<lparr>sc_variables := sc_variables s @ [\<lparr>va_name = the n, va_type = type, va_role = role\<rparr>]\<rparr>))"

definition schema_type_name :: "variable_type \<Rightarrow> string" where
  "schema_type_name t = (case t of MILENA_VAR_NUMERIC \<Rightarrow> ''numerica'' | MILENA_VAR_CATEGORICAL \<Rightarrow> ''categorica''
     | MILENA_VAR_BINARY \<Rightarrow> ''binaria'' | MILENA_VAR_TEXT \<Rightarrow> ''texto'')"

definition schema_role_name :: "variable_role \<Rightarrow> string" where
  "schema_role_name r = (case r of MILENA_ROLE_FEATURE \<Rightarrow> ''variable'' | MILENA_ROLE_CATEGORICAL_INPUT \<Rightarrow> ''entrada_categorica''
     | MILENA_ROLE_BINARY_OUTPUT \<Rightarrow> ''salida_binaria'')"

section \<open>A map that remembers its order\<close>

definition schema_ok :: "schema \<Rightarrow> bool" where
  "schema_ok s \<longleftrightarrow> distinct (map va_name (sc_variables s)) \<and> length (sc_variables s) < 2147483648 \<and>
     length (sc_variables s) \<le> sc_capacity s"

definition schema_lookup :: "schema \<Rightarrow> string \<rightharpoonup> variable_type \<times> variable_role" where
  "schema_lookup s = map_of (map (\<lambda>v. (va_name v, (va_type v, va_role v))) (sc_variables s))"

lemma name_index_iff:
  "name_index n i vs = Some k \<longleftrightarrow> (\<exists>j < length vs. k = i + j \<and> va_name (vs ! j) = n \<and> (\<forall>m < j. va_name (vs ! m) \<noteq> n))"
proof (induction vs arbitrary: i)
  case (Cons v vs)
  show ?case
  proof (cases "va_name v = n")
    case True
    then show ?thesis by (auto intro: exI [of _ 0]) (metis nth_Cons_0 not_gr_zero)
  next
    case False
    then show ?thesis using Cons.IH [of "i + 1"] by (auto simp: Ex_less_Suc2 All_less_Suc2)
  qed
qed simp

lemma name_index_None: "name_index n i vs = None \<longleftrightarrow> n \<notin> va_name ` set vs"
  by (induction vs arbitrary: i) auto

lemma index_small: "i < 2147483648 \<Longrightarrow> sint (of_nat i :: u32) = int i"
  by (simp add: sint_sbintrunc' signed_of_nat signed_take_bit_int_eq_self)

lemma schema_index_found:
  assumes "schema_ok s"
  shows "(schema_index s (Some n) < 0 \<longrightarrow> n \<notin> va_name ` set (sc_variables s)) \<and>
    (schema_index s (Some n) \<ge> 0 \<longrightarrow> nat (schema_index s (Some n)) < length (sc_variables s) \<and>
       va_name (sc_variables s ! nat (schema_index s (Some n))) = n)"
proof (cases "name_index n 0 (sc_variables s)")
  case None
  then have "n \<notin> va_name ` set (sc_variables s)" by (simp add: name_index_None)
  then show ?thesis using None by (simp add: schema_index_def)
next
  case (Some i)
  then have "i < length (sc_variables s)" "va_name (sc_variables s ! i) = n" by (auto simp: name_index_iff)
  then show ?thesis using Some assms by (simp add: schema_index_def schema_ok_def index_small)
qed

lemma grow_keeps:
  assumes "schema_grow alloc s = (status, s')" and "length (sc_variables s) \<le> sc_capacity s"
  shows "sc_variables s' = sc_variables s \<and> (status = MILENA_OK \<longrightarrow> length (sc_variables s) < sc_capacity s') \<and>
    length (sc_variables s) \<le> sc_capacity s'"
proof (cases "sc_capacity s = 0")
  case False
  have "sc_capacity s * 2 mod (size_max + 1) = sc_capacity s \<Longrightarrow> False" if "sc_capacity s \<le> size_max div sizeof_variable"
    using False that mod_less [of "sc_capacity s * 2" "size_max + 1"] by (simp add: size_max_def sizeof_variable_def)
  then show ?thesis using assms by (fastforce simp: schema_grow_def Let_def split: if_splits)
qed (use assms in \<open>auto simp: schema_grow_def Let_def split: if_splits\<close>)

lemma map_of_update:
  assumes "distinct (map va_name vs)" and "i < length vs" and "va_name v = va_name (vs ! i)"
  shows "map_of (map (\<lambda>v. (va_name v, (va_type v, va_role v))) (vs[i := v])) =
    (map_of (map (\<lambda>v. (va_name v, (va_type v, va_role v))) vs))(va_name v \<mapsto> (va_type v, va_role v))"
  using assms
proof (induction vs arbitrary: i)
  case (Cons u vs)
  show ?case
  proof (cases i)
    case 0
    then show ?thesis using Cons.prems by auto
  next
    case (Suc j)
    have "vs ! j \<in> set vs" using Suc Cons.prems(2) by simp
    then have "va_name u \<noteq> va_name v" using Suc Cons.prems by auto
    then show ?thesis using Cons Suc by (auto simp: fun_eq_iff)
  qed
qed simp

text \<open>
  A schema is a map from names to types and roles that keeps the order of declaration: adding a
  name that is there changes its entry in place, adding a new one appends it, and an addition that
  fails changes no variable.
\<close>

lemma schema_add_map:
  assumes "schema_ok s" and "schema_add alloc_table alloc_name (Some n) type role s = (status, s')" and "length (sc_variables s) < 2147483647"
  shows "schema_ok s' \<and>
    (status = MILENA_OK \<longrightarrow> n \<noteq> [] \<and> schema_lookup s' = (schema_lookup s)(n \<mapsto> (type, role)) \<and>
       map va_name (sc_variables s') = (if n \<in> dom (schema_lookup s) then map va_name (sc_variables s) else map va_name (sc_variables s) @ [n])) \<and>
    (status \<noteq> MILENA_OK \<longrightarrow> sc_variables s' = sc_variables s)"
proof -
  let ?i = "schema_index s (Some n)"
  have dom: "n \<in> dom (schema_lookup s) \<longleftrightarrow> n \<in> va_name ` set (sc_variables s)"
    by (simp add: schema_lookup_def dom_map_of_conv_image_fst image_image)
  note found = schema_index_found [OF assms(1), of n]
  have cap: "length (sc_variables s) \<le> sc_capacity s" and dist: "distinct (map va_name (sc_variables s))" using assms(1) by (simp_all add: schema_ok_def)
  consider (bad) "n = []" | (old) "n \<noteq> []" "?i \<ge> 0" | (new) "n \<noteq> []" "?i < 0" by linarith
  then show ?thesis
  proof cases
    case bad
    then show ?thesis using assms(1,2) by (simp add: schema_add_def)
  next
    case old
    let ?v = "(sc_variables s ! nat ?i)\<lparr>va_type := type, va_role := role\<rparr>"
    have i: "nat ?i < length (sc_variables s)" "va_name (sc_variables s ! nat ?i) = n" using found old by auto
    have s': "status = MILENA_OK" "s' = s\<lparr>sc_variables := (sc_variables s)[nat ?i := ?v]\<rparr>"
      using assms(2) old by (simp_all add: schema_add_def Let_def)
    have names: "map va_name ((sc_variables s)[nat ?i := ?v]) = map va_name (sc_variables s)"
      using i by (simp add: map_update) (metis list_update_id nth_map i(1))
    have "schema_lookup s' = (schema_lookup s)(n \<mapsto> (type, role))"
      using map_of_update [OF dist i(1), of ?v] i(2) by (simp add: schema_lookup_def s'(2))
    moreover have "n \<in> dom (schema_lookup s)" unfolding dom using i by (metis imageI nth_mem)
    ultimately show ?thesis using s' names old assms(1) by (simp add: schema_ok_def)
  next
    case new
    obtain g s1 where g: "schema_grow alloc_table s = (g, s1)" by fastforce
    note k = grow_keeps [OF g cap]
    have fresh: "n \<notin> va_name ` set (sc_variables s)" using found new by simp
    have s': "(if g \<noteq> MILENA_OK then (g, s1) else if \<not> alloc_name then (MILENA_ERR_MEMORY, s1)
        else (MILENA_OK, s1\<lparr>sc_variables := sc_variables s1 @ [\<lparr>va_name = n, va_type = type, va_role = role\<rparr>]\<rparr>)) = (status, s')"
      using assms(2) new g unfolding schema_add_def Let_def by (simp split: if_splits)
    show ?thesis
    proof (cases "g = MILENA_OK \<and> alloc_name")
      case True
      then have st: "status = MILENA_OK" "sc_variables s' = sc_variables s @ [\<lparr>va_name = n, va_type = type, va_role = role\<rparr>]" "sc_capacity s' = sc_capacity s1"
        using s' k by auto
      have "schema_lookup s' = (schema_lookup s)(n \<mapsto> (type, role))"
      proof -
        have none: "schema_lookup s n = None" using fresh dom by auto
        then show ?thesis by (auto simp: schema_lookup_def st(2) map_add_def fun_eq_iff split: option.splits)
      qed
      then show ?thesis using st k True new fresh dom assms(1,3) by (auto simp: schema_ok_def)
    next
      case False
      then have "status \<noteq> MILENA_OK" "s' = s1" using s' by (auto split: if_splits)
      then show ?thesis using k assms(1) by (simp add: schema_ok_def)
    qed
  qed
qed

definition two_variables :: schema where
  "two_variables = snd (schema_add True True (Some ''y'') MILENA_VAR_BINARY MILENA_ROLE_BINARY_OUTPUT
     (snd (schema_add True True (Some ''x'') MILENA_VAR_NUMERIC MILENA_ROLE_FEATURE schema_init)))"

lemma schema_add_map_witness:
  "schema_lookup (snd (schema_add True True (Some ''x'') MILENA_VAR_TEXT MILENA_ROLE_FEATURE two_variables)) =
     (schema_lookup two_variables)(''x'' \<mapsto> (MILENA_VAR_TEXT, MILENA_ROLE_FEATURE))"
proof -
  have ok: "schema_ok two_variables" and n: "length (sc_variables two_variables) < 2147483647"
    by (simp_all add: two_variables_def schema_add_def schema_init_def schema_index_def schema_grow_def schema_ok_def sizeof_variable_def size_max_def)
  have "fst (schema_add True True (Some ''x'') MILENA_VAR_TEXT MILENA_ROLE_FEATURE two_variables) = MILENA_OK"
    by (simp add: two_variables_def schema_add_def schema_init_def schema_index_def schema_grow_def sizeof_variable_def size_max_def)
  then show ?thesis using schema_add_map [OF ok _ n] by (metis prod.collapse)
qed

end
