(* ===== verification/Spec2Isabelle.thy ===== *)
theory Spec2Isabelle
  imports GroupKeyCodec BytecodeOwners BytecodeEncode CommonText BytecodeUtf8 PartitionProps MergeProps
    AggregateProps ExecutorRuns IRModuleProps TypedBytecodeWire SortProps Dates SymbolScopes Arena ObjectHeap SchemaTable
begin

text \<open>
  Verification development of Milena, a language and runtime for data analysis written in C17.

  The program.  A script is compiled to one of three binary forms, which are verified before they
  run: scalar bytecode (src/src/bytecode.c), data plans (src/src/bytecode_data.c) and modules of a
  typed SSA form (src/src/canonical_ir.c, src/src/typed_bytecode.c).  A query over a large input is
  cut into partitions (src/src/partition_plan.c) that worker threads run
  (src/src/partition_executor.c) and whose results come back as sealed messages that are reduced in
  plan order (src/src/partition_protocol.c, src/src/partition_reduce.c,
  src/src/partition_protocol_reduce.c).  Columns are summarised by mergeable statistics
  (src/src/mergeable_aggregate.c) and grouped by keys (src/src/group_key_codec.c); what does not fit in
  memory goes to spill files (src/src/spill_store.c), which an external merge puts in order
  (src/src/external_merge.c, src/src/external_sort.c).  Everything uses the status codes, checked sizes
  and text services of src/src/common.c.  Beside these stand small services of their own: dates, symbol
  tables, the arena, the object list and the schema.  These are the parts modelled here.

  The theories, and the source each models.

  Prelude holds the words, byte buffers and generic lemmas that all share; Binary64 and
  Binary64Round the IEEE double operations of the code, as functions on bit patterns with a single
  rounding each, and what rounding preserves; FileIO the part of stdio that the spill store calls;
  Checksums the FNV-1a runs.

  Common and CommonText model common.c: the checked additions and products, the tokenizer against
  the list of fields it stands for, and the JSON writer against a reader.

  GroupKeyCodec models group_key_codec.c: the encoder and decoder of pairs of optional texts, which
  undo each other; its locale \<open>prefix_codec\<close> states what a self-delimiting field promises.

  BytecodeFormat, BytecodeVerify, BytecodeRun and BytecodeEncode model bytecode.c: the record
  layout, the verifier phase by phase (header, function table, definitions, operands, the search for
  recursion, the control-flow walk), the interpreter with its call frames and step budget, and the
  encoder.  BytecodeGraphs, BytecodeSound, BytecodeSafety and BytecodeProps show that verified code
  never leaves its bounds and which outcomes are left; BytecodeOwners that the map from instructions
  to functions is total.

  BytecodeData and BytecodeDataProps model bytecode_data.c: the codec of data plans, with its
  canonical form; BytecodeUtf8 compares its string check with the definition of UTF-8.

  TypedIR and IRValidate model the first half and the module part of canonical_ir.c: the builder and
  the validator (layout, definitions and their shapes, targets, reachability, dominators, uses, edge
  arguments, then signatures and recursion over a module).  IRDominators proves the dominator
  iteration equal to dominance over paths; IRTypes states a type system for the opcodes, apart from
  the validator's tests, and with IRSafety and IRProps shows that an accepted program is well typed
  along any path; IRModule and IRModuleProps show that an accepted module has no recursion, that its
  calls resolve and pass arguments of the types of their callees, that validation returns, and that
  the builder lays blocks out as the validator wants them.

  TypedBytecode models typed_bytecode.c, a writer as the list of its fields and a reader as a
  function from the rest of the bytes; TypedBytecodeFields, TypedBytecodeProps,
  TypedBytecodeCompact, TypedBytecodeModules and TypedBytecodeWire show, field by field, then for
  programs and modules, that each undoes the other, and that the decoder returns and accepts only
  what the validator accepts.

  PartitionPlan models partition_plan.c and shows that a plan tiles its source; PartitionProtocol
  and PartitionProps model the messages and the reductions, whose result is a compensated sum, exact
  where doubles allow, that does not depend on the order of arrival (locale
  \<open>message_fold\<close>).  PartitionExecutor models the threads of partition_executor.c as a
  step relation in which a critical section, and the one write the source makes outside its lock, is
  one step; ExecutorProps and ExecutorRuns hold its invariants, its termination measure and the
  properties of whole runs.

  SpillStore models spill_store.c; SpillRecover, SpillCalm and SpillProps show what recovery,
  appends, later openings and readers do to a file that is a run of records; the file is what a
  flush hands to the system, and power failures are outside the model.  ExternalMerge models
  external_merge.c and MergeHeap its binary heap (locale \<open>min_queue\<close>); MergeFiles,
  MergeSteps, MergeCalm and MergeProps show that a merge returns, that its success means a complete
  and ordered output, and that it succeeds when nothing fails.

  ExternalSort models external_sort.c, whose source callback and whose \<open>qsort\<close> are
  parameters. SortFiles holds its names, no two of which collide, and its calls; SortSteps,
  SortPasses and SortRuns follow one merge, the passes and the first runs, under any faults and
  under none; SortProps shows that a success orders what the source gave and that within the quotas
  the sort succeeds and leaves no scratch file.

  MergeableAggregate models mergeable_aggregate.c; AggregateWelford, AggregateSteps and
  AggregateProps show that a state goes on summarising the observations it was given.

  Dates models sst_dates.c and shows its day number equal to the calendar counted out.  SymbolScopes
  models symbol_table.c and symbol.c, two tables of scoped names with one contract (locale
  \<open>scope_table\<close>): a stack of sets of names, each table with its own rule at the
  outermost scope, for the empty name and without memory.  Arena models arena.c and temp_scope.c,
  whose pieces share no byte and are cleared, whatever \<open>malloc\<close> left in the memory;
  ObjectHeap gc.c; SchemaTable schema.c, a map that remembers its order.

  Conventions.  A C integer is a word of its width where wrap-around can matter, and a natural
  number where the code has checked it.  An enum value is one of its enumerators.  A buffer is
  its list of bytes; an array is the list of its entries, with the capacity of its allocation where
  the code looks at it (a capacity of zero is a null pointer).  A null pointer the code tests for is
  \<open>None\<close>; outputs a caller has to supply are assumed supplied.  An allocation asks an
  argument of the model whether it succeeds, so that every failure of memory is a branch.  A call
  of stdio asks the fault plan of FileIO, which may fail any call, cut a write short or end a read
  early.  A status is returned with the state; the text of a diagnostic is not modelled, nor is the
  freeing of memory.  Where the code has a branch for POSIX and one for Windows, the POSIX one is
  modelled.

  Loops.  A loop over a table is a recursion over its list.  The interpreter takes the step budget
  of the source as fuel, and running out of it is an outcome of the source.  The loops of the
  external merge and sort, of the reachability search and of the dominator iteration have no bound
  in the source; they are \<open>while_option\<close> (the passes of the sort a
  \<open>partial_function\<close>), and their ends are theorems (that of the sort when nothing
  fails).  The search for recursion over a module has a depth of fuel, one level per function and
  one more, which is shown to be enough.  A double operation rounds once, as it does where
  FLT_EVAL_METHOD is 0; the minimum and maximum of two zeros of opposite sign may be either in C,
  and is the first operand here.

  Not modelled.  The lexer, parser, AST, semantic analysis and the tree interpreter
  (src/src/lexer.c, src/src/parser.c, src/src/ast.c, src/src/language_semantic.c,
  src/src/language_runtime.c and their helpers), and with them the lowering of the scalar HIR in the
  second half of canonical_ir.c and canonical_compiler.c: a tree of owned nodes under construction
  by a recursive descent with error recovery, whose contract is the language itself.  Tables, arrays
  and streams (src/src/table.c, src/src/array.c, src/src/stream.c): CSV and dynamic values over the
  file system and locale-dependent number parsing.  The statistics and finance routines: numerical
  code whose meaning rests on libm.  The native code paths, the process executor, the data-plan
  runtime and the drivers: machine code, fork and pipes, paths and reports, where nearly every line
  is a call outside the program.
\<close>

end
